(* ===== verification/Prelude.thy ===== *)
theory Prelude
  imports Main "HOL-Library.Word" "HOL-Library.Char_ord" "HOL-Library.List_Lexorder"
begin

text \<open>
  What every component shares: the machine types of the Rust code, the result type of
  fallible code, Rust's \<open>String\<close> order, and generic facts on lists and sorted lists.

  A Rust \<open>String\<close> is a sequence of UTF-8 bytes and Isabelle's \<open>char\<close> is a byte, so
  \<open>string\<close> holds the bytes of the string and \<open>length\<close> is \<open>str::len\<close>. The order of
  \<open>List_Lexorder\<close> over \<open>Char_ord\<close> is the bytewise lexicographic order of Rust's
  \<open>Ord for str\<close>. \<open>usize\<close> and \<open>u64\<close> values that only count or index (lengths, offsets,
  clocks) are \<open>nat\<close>; where the width matters they are words.
\<close>

type_synonym u8 = "8 word"
type_synonym u16 = "16 word"
type_synonym u32 = "32 word"
type_synonym u64 = "64 word"
type_synonym bytes = "u8 list"

named_theorems codec_simps \<open>encoders and decoders\<close>
named_theorems inv_intros \<open>operations that keep an invariant\<close>

subsection \<open>Results\<close>

text \<open>The kinds of \<open>std::io::Error\<close> the code creates or can meet.\<close>

datatype io_err =
    NotFound
  | AlreadyExists
  | WriteDenied
  | UnexpectedEof
  | InvalidInput string
  | InvalidData string

type_synonym 'a io = "io_err + 'a"

definition bindr :: "'e + 'a \<Rightarrow> ('a \<Rightarrow> 'e + 'b) \<Rightarrow> 'e + 'b" where
  \<comment> \<open>the \<open>?\<close> operator\<close>
  "bindr r f = (case r of Inl e \<Rightarrow> Inl e | Inr x \<Rightarrow> f x)"

lemma bindr_simps [simp]:
  "bindr (Inl e) f = Inl e"
  "bindr (Inr x) f = f x"
  by (simp_all add: bindr_def)

lemma bindr_Inr_iff: "bindr r f = Inr y \<longleftrightarrow> (\<exists>x. r = Inr x \<and> f x = Inr y)"
  by (cases r) auto

lemma bindr_InrE:
  assumes "bindr r f = Inr y"
  obtains x where "r = Inr x" and "f x = Inr y"
  using assms by (auto simp: bindr_Inr_iff)

fun mapr :: "('a \<Rightarrow> 'e + 'b) \<Rightarrow> 'a list \<Rightarrow> 'e + 'b list" where
  \<comment> \<open>\<open>iter().map(f).collect::<Result<Vec<_>, _>>()\<close>: stops at the first error\<close>
  "mapr f [] = Inr []"
| "mapr f (x # xs) = bindr (f x) (\<lambda>y. bindr (mapr f xs) (\<lambda>ys. Inr (y # ys)))"

lemma mapr_Inr: "(\<And>x. x \<in> set xs \<Longrightarrow> f x = Inr (g x)) \<Longrightarrow> mapr f xs = Inr (map g xs)"
  by (induction xs) auto

lemma mapr_append:
  "mapr f (xs @ ys) = bindr (mapr f xs) (\<lambda>as. bindr (mapr f ys) (\<lambda>bs. Inr (as @ bs)))"
proof (induction xs)
  case Nil
  then show ?case by (cases "mapr f ys") auto
next
  case (Cons x xs)
  then show ?case
    by (cases "f x"; cases "mapr f xs"; cases "mapr f ys") auto
qed

subsection \<open>Lists\<close>

lemma drop_append_length [simp]: "drop (length xs) (xs @ ys) = ys"
  by simp

lemma take_append_length [simp]: "take (length xs) (xs @ ys) = xs"
  by simp

lemma sorted_wrt_less_distinct: "sorted_wrt (<) (xs :: 'a :: order list) \<Longrightarrow> distinct xs"
  by (induction xs) auto

lemma sorted_wrt_less_append:
  "sorted_wrt (<) (xs @ ys) \<longleftrightarrow>
     sorted_wrt (<) xs \<and> sorted_wrt (<) ys \<and> (\<forall>x \<in> set xs. \<forall>y \<in> set ys. x < (y :: 'a :: order))"
  by (auto simp: sorted_wrt_append)

lemma sorted_wrt_filter_fst:
  "sorted_wrt R (map fst xs) \<Longrightarrow> sorted_wrt R (map fst (filter P xs))"
  by (induction xs) auto

lemma filter_length_le_sum:
  "length (filter P xs) + length (filter (\<lambda>x. \<not> P x) xs) = length xs"
  by (induction xs) auto

lemma in_map_filter: "y \<in> set (List.map_filter f xs) \<longleftrightarrow> (\<exists>x \<in> set xs. f x = Some y)"
  by (induction xs) (auto simp: List.map_filter_simps split: option.splits)

subsection \<open>Prefixes\<close>

definition starts_with :: "'a list \<Rightarrow> 'a list \<Rightarrow> bool" where
  \<comment> \<open>\<open>s.starts_with(p)\<close>\<close>
  "starts_with s p \<longleftrightarrow> take (length p) s = p"

lemma starts_with_iff: "starts_with s p \<longleftrightarrow> (\<exists>t. s = p @ t)"
proof
  assume "starts_with s p"
  then have "s = p @ drop (length p) s"
    by (metis append_take_drop_id starts_with_def)
  then show "\<exists>t. s = p @ t" ..
qed (auto simp: starts_with_def)

lemma starts_with_append [simp]: "starts_with (p @ t) p"
  by (auto simp: starts_with_iff)

lemma starts_with_Nil [simp]: "starts_with s []"
  by (simp add: starts_with_def)

definition strip_prefix :: "'a list \<Rightarrow> 'a list \<Rightarrow> 'a list option" where
  "strip_prefix s p = (if starts_with s p then Some (drop (length p) s) else None)"

lemma strip_prefix_append [simp]: "strip_prefix (p @ t) p = Some t"
  by (simp add: strip_prefix_def)

text \<open>In the lexicographic order the strings with a given prefix form an interval that
  starts at the prefix itself.\<close>

lemma prefix_le: "(p :: 'a :: linorder list) \<le> p @ t"
  by (induction p) auto

lemma prefix_interval:
  fixes p :: "'a :: linorder list"
  assumes "p @ s \<le> y" and "y \<le> p @ t"
  shows "starts_with y p"
  using assms
proof (induction p arbitrary: y)
  case Nil
  then show ?case by simp
next
  case (Cons a p)
  then obtain b ys where y: "y = b # ys"
    by (cases y) auto
  with Cons.prems have "b = a" "p @ s \<le> ys" "ys \<le> p @ t"
    by auto
  with Cons.IH [of ys] y show ?case
    by (simp add: starts_with_def)
qed

end
