(* ===== verification/Bytes.thy ===== *)
theory Bytes
  imports Prelude
begin

text \<open>
  Byte encodings the components share: strings as bytes and back (\<open>as_bytes\<close>,
  \<open>String::from_utf8\<close>), little-endian integers (\<open>to_le_bytes\<close>, \<open>from_le_bytes\<close>), the
  hexadecimal form of a 32-byte hash (\<open>src/util.rs\<close>), decimal formatting, and the
  \<open>Read::read_exact\<close> reader over the bytes that are left.
\<close>

subsection \<open>Strings and bytes\<close>

definition byte_of :: "char \<Rightarrow> u8" where
  "byte_of c = word_of_nat (of_char c)"

definition char_of_byte :: "u8 \<Rightarrow> char" where
  "char_of_byte b = char_of (unat b)"

definition bytes_of :: "string \<Rightarrow> bytes" where
  "bytes_of s = map byte_of s"

definition str_of :: "bytes \<Rightarrow> string" where
  "str_of bs = map char_of_byte bs"

lemma char_of_byte_of [simp, codec_simps]: "char_of_byte (byte_of c) = c"
proof -
  have "of_char c < (256::nat)" by simp
  then show ?thesis
    by (simp add: char_of_byte_def byte_of_def unat_of_nat)
qed

lemma byte_of_char_of [simp, codec_simps]: "byte_of (char_of_byte b) = b"
proof -
  have "unat b < 256" using unsigned_less [of b] by simp
  then show ?thesis
    by (simp add: char_of_byte_def byte_of_def)
qed

lemma str_of_bytes_of [simp, codec_simps]: "str_of (bytes_of s) = s"
  by (simp add: str_of_def bytes_of_def comp_def)

lemma bytes_of_str_of [simp, codec_simps]: "bytes_of (str_of bs) = bs"
  by (simp add: str_of_def bytes_of_def comp_def)

lemma length_bytes_of [simp]: "length (bytes_of s) = length s"
  by (simp add: bytes_of_def)

lemma length_str_of [simp]: "length (str_of s) = length s"
  by (simp add: str_of_def)

lemma bytes_of_append [simp]: "bytes_of (s @ t) = bytes_of s @ bytes_of t"
  by (simp add: bytes_of_def)

lemma bytes_of_inj [simp]: "bytes_of s = bytes_of t \<longleftrightarrow> s = t"
  by (metis str_of_bytes_of)

subsection \<open>UTF-8 validity\<close>

text \<open>
  \<open>core::str::from_utf8\<close>: the well-formed byte sequences of the Unicode standard
  (table 3-7), which exclude overlong forms, surrogates and values above U+10FFFF.
\<close>

definition u8_range :: "nat \<Rightarrow> nat \<Rightarrow> u8 \<Rightarrow> bool" where
  "u8_range lo hi b \<longleftrightarrow> lo \<le> unat b \<and> unat b \<le> hi"

definition utf8_tail :: "u8 \<Rightarrow> bool" where
  "utf8_tail b = u8_range 128 191 b"

definition utf8_second :: "u8 \<Rightarrow> u8 \<Rightarrow> bool" where
  \<comment> \<open>the range of the second byte, given the first of a 3- or 4-byte sequence\<close>
  "utf8_second a b =
     (if unat a = 224 then u8_range 160 191 b
      else if unat a = 237 then u8_range 128 159 b
      else if unat a = 240 then u8_range 144 191 b
      else if unat a = 244 then u8_range 128 143 b
      else utf8_tail b)"

definition utf8_width :: "u8 \<Rightarrow> nat" where
  \<comment> \<open>the length of the sequence a first byte announces, 0 for a byte that starts none\<close>
  "utf8_width a =
     (if unat a < 128 then 1 else if u8_range 194 223 a then 2
      else if u8_range 224 239 a then 3 else if u8_range 240 244 a then 4 else 0)"

fun utf8_valid :: "bytes \<Rightarrow> bool" where
  "utf8_valid [] = True"
| "utf8_valid (a # bs) =
     (let w = utf8_width a in
        w \<noteq> 0 \<and> length bs \<ge> w - 1
        \<and> list_all utf8_tail (take (w - 1) bs)
        \<and> (w \<ge> 3 \<longrightarrow> utf8_second a (hd bs))
        \<and> utf8_valid (drop (w - 1) bs))"

definition from_utf8 :: "bytes \<Rightarrow> string option" where
  "from_utf8 bs = (if utf8_valid bs then Some (str_of bs) else None)"

definition str_valid :: "string \<Rightarrow> bool" where
  \<comment> \<open>what the type \<open>String\<close> guarantees of its bytes\<close>
  "str_valid s = utf8_valid (bytes_of s)"

lemma from_utf8_bytes_of [simp, codec_simps]: "str_valid s \<Longrightarrow> from_utf8 (bytes_of s) = Some s"
  by (simp add: from_utf8_def str_valid_def)

lemma from_utf8_Some: "from_utf8 bs = Some s \<Longrightarrow> bs = bytes_of s \<and> str_valid s"
  by (auto simp: from_utf8_def str_valid_def split: if_splits)

lemma ascii_valid: "list_all (\<lambda>c. of_char c < (128::nat)) s \<Longrightarrow> str_valid s"
proof -
  have *: "of_char c < (128::nat) \<Longrightarrow> unat (byte_of c) < 128" for c
    by (simp add: byte_of_def unat_of_nat)
  show "list_all (\<lambda>c. of_char c < (128::nat)) s \<Longrightarrow> str_valid s"
    by (induction s) (auto simp: str_valid_def bytes_of_def utf8_width_def Let_def dest: *)
qed

subsection \<open>Little-endian integers\<close>

fun le_bytes :: "nat \<Rightarrow> nat \<Rightarrow> bytes" where
  \<comment> \<open>\<open>to_le_bytes\<close> of an integer of the given number of bytes\<close>
  "le_bytes 0 x = []"
| "le_bytes (Suc n) x = word_of_nat x # le_bytes n (x div 256)"

fun of_le_bytes :: "bytes \<Rightarrow> nat" where
  "of_le_bytes [] = 0"
| "of_le_bytes (b # bs) = unat b + 256 * of_le_bytes bs"

lemma length_le_bytes [simp]: "length (le_bytes n x) = n"
  by (induction n arbitrary: x) auto

lemma of_le_bytes_le_bytes: "of_le_bytes (le_bytes n x) = x mod 256 ^ n"
proof (induction n arbitrary: x)
  case 0
  then show ?case by simp
next
  case (Suc n)
  have "x mod 256 ^ Suc n = x mod 256 + 256 * (x div 256 mod 256 ^ n)"
    by (simp add: mod_mult2_eq)
  with Suc show ?case
    by (simp add: unat_of_nat)
qed

lemma of_le_bytes_id [simp, codec_simps]: "x < 256 ^ n \<Longrightarrow> of_le_bytes (le_bytes n x) = x"
  by (simp add: of_le_bytes_le_bytes)

lemma of_le_bytes_less: "of_le_bytes bs < 256 ^ length bs"
proof (induction bs)
  case Nil
  then show ?case by simp
next
  case (Cons b bs)
  have "unat b < 256" using unsigned_less [of b] by simp
  with Cons show ?case by simp
qed

subsection \<open>Readers\<close>

text \<open>A reader is the bytes not yet read; a read returns its value and what is left.\<close>

definition read_exact :: "nat \<Rightarrow> bytes \<Rightarrow> (bytes \<times> bytes) io" where
  "read_exact n bs =
     (if length bs < n then Inl UnexpectedEof else Inr (take n bs, drop n bs))"

lemma read_exact_append [simp, codec_simps]:
  "length xs = n \<Longrightarrow> read_exact n (xs @ ys) = Inr (xs, ys)"
  by (auto simp: read_exact_def)

subsection \<open>Hexadecimal\<close>

definition hex_char :: "nat \<Rightarrow> char" where
  "hex_char n = char_of (if n < 10 then 48 + n else 87 + n)"

definition hex_byte :: "u8 \<Rightarrow> string" where
  \<comment> \<open>\<open>{b:02x}\<close>\<close>
  "hex_byte b = [hex_char (unat b div 16), hex_char (unat b mod 16)]"

definition hex_bytes :: "bytes \<Rightarrow> string" where
  "hex_bytes bs = concat (map hex_byte bs)"

definition hex32 :: "bytes \<Rightarrow> string" where
  "hex32 bs = hex_bytes bs"

definition to_digit16 :: "char \<Rightarrow> nat option" where
  \<comment> \<open>\<open>char::to_digit(16)\<close>\<close>
  "to_digit16 c =
     (let n = of_char c :: nat in
        if 48 \<le> n \<and> n \<le> 57 then Some (n - 48)
        else if 97 \<le> n \<and> n \<le> 102 then Some (n - 87)
        else if 65 \<le> n \<and> n \<le> 70 then Some (n - 55)
        else None)"

fun unhex_pairs :: "string \<Rightarrow> bytes option" where
  "unhex_pairs (h # l # s) =
     (case to_digit16 h of None \<Rightarrow> None
      | Some hi \<Rightarrow> (case to_digit16 l of None \<Rightarrow> None
        | Some lo \<Rightarrow> map_option ((#) (word_of_nat (hi * 16 + lo))) (unhex_pairs s)))"
| "unhex_pairs _ = Some []"

definition from_hex32 :: "string \<Rightarrow> bytes option" where
  "from_hex32 s = (if length s \<noteq> 64 then None else unhex_pairs s)"

lemma to_digit16_hex_char [simp, codec_simps]: "n < 16 \<Longrightarrow> to_digit16 (hex_char n) = Some n"
  by (auto simp: to_digit16_def hex_char_def Let_def)

lemma unat_u8_less [simp]: "unat (b :: u8) < 256"
  using unsigned_less [of b] by simp

lemma unat_u8_div16 [simp]: "unat (b :: u8) div 16 < 16"
  by (rule less_mult_imp_div_less) simp

lemma unhex_hex_bytes [simp, codec_simps]: "unhex_pairs (hex_bytes bs) = Some bs"
proof (induction bs)
  case Nil
  then show ?case by (simp add: hex_bytes_def)
next
  case (Cons b bs)
  have "unat b div 16 * 16 + unat b mod 16 = unat b" by simp
  then show ?case
    using Cons by (simp add: hex_bytes_def hex_byte_def)
qed

lemma length_hex_bytes [simp]: "length (hex_bytes bs) = 2 * length bs"
  by (induction bs) (auto simp: hex_bytes_def hex_byte_def)

lemma hex_bytes_inj: "hex_bytes a = hex_bytes b \<Longrightarrow> a = b"
  by (metis option.inject unhex_hex_bytes)

lemma from_hex32_hex32 [simp, codec_simps]: "length bs = 32 \<Longrightarrow> from_hex32 (hex32 bs) = Some bs"
  by (simp add: from_hex32_def hex32_def)

definition is_lower_hex :: "char \<Rightarrow> bool" where
  "is_lower_hex c = (let n = of_char c :: nat in (48 \<le> n \<and> n \<le> 57) \<or> (97 \<le> n \<and> n \<le> 102))"

lemma hex_char_lower: "n < 16 \<Longrightarrow> is_lower_hex (hex_char n)"
  by (auto simp: is_lower_hex_def hex_char_def Let_def)

lemma hex_bytes_lower: "c \<in> set (hex_bytes bs) \<Longrightarrow> is_lower_hex c"
proof (induction bs)
  case Nil
  then show ?case by (simp add: hex_bytes_def)
next
  case (Cons b bs)
  then show ?case
    by (auto simp: hex_bytes_def hex_byte_def hex_char_lower)
qed

subsection \<open>Decimal\<close>

fun dec_digits :: "nat \<Rightarrow> string" where
  \<comment> \<open>\<open>{n}\<close> for an unsigned integer\<close>
  "dec_digits n =
     (if n < 10 then [char_of (48 + n)] else dec_digits (n div 10) @ [char_of (48 + n mod 10)])"

declare dec_digits.simps [simp del]

definition is_digit :: "char \<Rightarrow> bool" where
  "is_digit c = (let n = of_char c :: nat in 48 \<le> n \<and> n \<le> 57)"

definition dec_val :: "string \<Rightarrow> nat" where
  "dec_val s = foldl (\<lambda>a c. 10 * a + (of_char c - 48)) 0 s"

lemma dec_val_snoc: "dec_val (s @ [c]) = 10 * dec_val s + (of_char c - 48)"
  by (simp add: dec_val_def)

lemma dec_digits_digit: "c \<in> set (dec_digits n) \<Longrightarrow> is_digit c"
proof (induction n rule: dec_digits.induct)
  case (1 n)
  show ?case
  proof (cases "n < 10")
    case True
    with "1.prems" show ?thesis
      by (simp add: dec_digits.simps [of n] is_digit_def)
  next
    case False
    have "n mod 10 < 10" by simp
    then have "is_digit (char_of (48 + n mod 10))"
      by (simp add: is_digit_def)
    with False "1.prems" "1.IH" show ?thesis
      by (auto simp: dec_digits.simps [of n])
  qed
qed

lemma dec_val_dec_digits [simp, codec_simps]: "dec_val (dec_digits n) = n"
proof (induction n rule: dec_digits.induct)
  case (1 n)
  show ?case
  proof (cases "n < 10")
    case True
    then show ?thesis by (simp add: dec_digits.simps [of n] dec_val_def)
  next
    case False
    have "n mod 10 < 10" by simp
    with False 1 show ?thesis
      by (simp add: dec_digits.simps [of n] dec_val_snoc)
  qed
qed

lemma dec_digits_inj: "dec_digits m = dec_digits n \<Longrightarrow> m = n"
  by (metis dec_val_dec_digits)

lemma dec_digits_nonempty [simp]: "dec_digits n \<noteq> []"
  by (subst dec_digits.simps) simp

text \<open>\<open>{n:0w}\<close>: left-padded with zeros to at least \<open>w\<close> digits.\<close>

definition dec_padded :: "nat \<Rightarrow> nat \<Rightarrow> string" where
  "dec_padded w n = (let s = dec_digits n in replicate (w - length s) (CHR ''0'') @ s)"

lemma dec_val_zeros: "dec_val (replicate k (CHR ''0'') @ s) = dec_val s"
  by (induction k) (auto simp: dec_val_def)

lemma dec_val_padded [simp, codec_simps]: "dec_val (dec_padded w n) = n"
  by (simp add: dec_padded_def Let_def dec_val_zeros)

lemma dec_padded_digit: "c \<in> set (dec_padded w n) \<Longrightarrow> is_digit c"
  by (auto simp: dec_padded_def Let_def is_digit_def dest: dec_digits_digit split: if_splits)

lemma dec_padded_nonempty [simp]: "dec_padded w n \<noteq> []"
  by (simp add: dec_padded_def Let_def)

lemma dec_padded_inj: "dec_padded w m = dec_padded w n \<Longrightarrow> m = n"
  by (metis dec_val_padded)

end
