(* ===== verification/Lzss.thy ===== *)
theory Lzss
  imports Bytes
begin

text \<open>
  \<open>src/lzss.rs\<close>: the lossless codec of the COLD spill store. The compressor keeps the
  hash-chain index (\<open>head\<close>, \<open>prev\<close>) as the two Rust vectors, read as functions that are
  \<open>-1\<close> where nothing was stored; positions go through \<open>as i32\<close>, with its wrap-around. The
  decompressor's index into the blob is the list of the bytes not yet read. The main result
  is the round trip, for every input.
\<close>

unbundle bit_operations_syntax

definition lz_WINDOW :: nat where "lz_WINDOW = 4096"
definition lz_MIN_MATCH :: nat where "lz_MIN_MATCH = 3"
definition lz_MAX_MATCH :: nat where "lz_MAX_MATCH = 18"
definition lz_MAX_CHAIN :: nat where "lz_MAX_CHAIN = 64"
definition lz_HASH_SIZE :: nat where "lz_HASH_SIZE = 8192"

lemmas lz_consts = lz_WINDOW_def lz_MIN_MATCH_def lz_MAX_MATCH_def lz_MAX_CHAIN_def lz_HASH_SIZE_def

record lz_index =
  lz_head :: "nat \<Rightarrow> int"
  lz_prev :: "nat \<Rightarrow> int"

definition lz_empty :: lz_index where
  "lz_empty = \<lparr>lz_head = (\<lambda>_. -1), lz_prev = (\<lambda>_. -1)\<rparr>"

definition as_i32 :: "nat \<Rightarrow> int" where
  "as_i32 n = sint (word_of_nat n :: 32 word)"

definition hash3 :: "bytes \<Rightarrow> nat \<Rightarrow> nat" where
  "hash3 dat pos =
     (let a = unat (dat ! pos); b = unat (dat ! (pos + 1)); c = unat (dat ! (pos + 2))
      in ((push_bit 10 a XOR push_bit 5 b) XOR c) AND (lz_HASH_SIZE - 1))"

definition lz_insert :: "bytes \<Rightarrow> nat \<Rightarrow> lz_index \<Rightarrow> lz_index" where
  \<comment> \<open>the closure \<open>insert\<close>\<close>
  "lz_insert dat pos ix =
     (if pos + lz_MIN_MATCH \<le> length dat then
        let h = hash3 dat pos in
          ix\<lparr>lz_prev := (lz_prev ix)(pos := lz_head ix h),
             lz_head := (lz_head ix)(h := as_i32 pos)\<rparr>
      else ix)"

function match_len :: "bytes \<Rightarrow> nat \<Rightarrow> nat \<Rightarrow> nat \<Rightarrow> nat \<Rightarrow> nat" where
  \<comment> \<open>the loop \<open>while l < max_len && data[c + l] == data[pos + l]\<close>\<close>
  "match_len dat c pos maxl l =
     (if l < maxl \<and> dat ! (c + l) = dat ! (pos + l)
      then match_len dat c pos maxl (l + 1) else l)"
  by pat_completeness auto
termination
  by (relation "measure (\<lambda>(dat, c, pos, maxl, l). maxl - l)") auto

declare match_len.simps [simp del]

fun lz_search :: "bytes \<Rightarrow> (nat \<Rightarrow> int) \<Rightarrow> nat \<Rightarrow> nat \<Rightarrow> nat \<Rightarrow> nat \<Rightarrow> int \<Rightarrow> nat \<times> nat \<Rightarrow> nat \<times> nat" where
  \<comment> \<open>the candidate loop; the first number counts the steps left of \<open>MAX_CHAIN\<close>, the pair is
      \<open>(best_len, best_off)\<close>\<close>
  "lz_search dat prev pos maxl win 0 cand best = best"
| "lz_search dat prev pos maxl win (Suc k) cand (bl, bo) =
     (if cand \<ge> 0 \<and> nat cand \<ge> win then
        let c = nat cand; l = match_len dat c pos maxl 0 in
          if l > bl then
            (if l = maxl then (l, pos - c)
             else lz_search dat prev pos maxl win k (prev c) (l, pos - c))
          else lz_search dat prev pos maxl win k (prev c) (bl, bo)
      else (bl, bo))"

definition lz_best :: "bytes \<Rightarrow> lz_index \<Rightarrow> nat \<Rightarrow> nat \<times> nat" where
  "lz_best dat ix pos =
     (let maxl = min (length dat - pos) lz_MAX_MATCH in
        if maxl \<ge> lz_MIN_MATCH then
          lz_search dat (lz_prev ix) pos maxl (pos - lz_WINDOW) lz_MAX_CHAIN
            (lz_head ix (hash3 dat pos)) (0, 0)
        else (0, 0))"

definition lz_code :: "nat \<Rightarrow> nat \<Rightarrow> u16" where
  "lz_code len off = push_bit 4 (word_of_nat (off - 1)) OR word_of_nat (len - lz_MIN_MATCH)"

definition lz_code_bytes :: "u16 \<Rightarrow> bytes" where
  "lz_code_bytes code = [ucast (drop_bit 8 code), ucast (code AND 255)]"

text \<open>The eight iterations of the token loop, from iteration \<open>bit\<close> on; they return the index,
  the position, the flag byte and the output.\<close>

function lz_bits :: "bytes \<Rightarrow> nat \<Rightarrow> lz_index \<Rightarrow> nat \<Rightarrow> u8 \<Rightarrow> bytes \<Rightarrow> lz_index \<times> nat \<times> u8 \<times> bytes" where
  "lz_bits dat bt ix pos flag out =
     (if bt < 8 \<and> pos < length dat then
        let (bl, bo) = lz_best dat ix pos; ix1 = lz_insert dat pos ix in
          if bl \<ge> lz_MIN_MATCH then
            lz_bits dat (bt + 1) (fold (lz_insert dat) [pos + 1..<pos + bl] ix1) (pos + bl)
              (flag OR push_bit bt 1) (out @ lz_code_bytes (lz_code bl bo))
          else
            lz_bits dat (bt + 1) ix1 (pos + 1) flag (out @ [dat ! pos])
      else (ix, pos, flag, out))"
  by pat_completeness auto
termination
  by (relation "measure (\<lambda>(dat, bt, ix, pos, flag, out). 8 - bt)") auto

declare lz_bits.simps [simp del]

lemma lz_bits_pos_mono: "lz_bits dat bt ix pos flag out = (ix', pos', flag', out') \<Longrightarrow> pos \<le> pos'"
proof (induction dat bt ix pos flag out rule: lz_bits.induct)
  case (1 dat bt ix pos flag out)
  show ?case
  proof (cases "bt < 8 \<and> pos < length dat")
    case True
    obtain bl bo where b: "lz_best dat ix pos = (bl, bo)" by (cases "lz_best dat ix pos")
    note IH = "1.IH" [OF True b [symmetric] refl refl]
    show ?thesis
    proof (cases "bl \<ge> lz_MIN_MATCH")
      case big: True
      from "1.prems" True b big have "pos + bl \<le> pos'"
        using IH(1) by (simp add: lz_bits.simps [of dat bt] Let_def)
      then show ?thesis by simp
    next
      case False
      from "1.prems" True b False have "pos + 1 \<le> pos'"
        using IH(2) by (simp add: lz_bits.simps [of dat bt] Let_def)
      then show ?thesis by simp
    qed
  next
    case False
    with "1.prems" show ?thesis by (simp add: lz_bits.simps [of dat bt])
  qed
qed

lemma lz_bits_progress:
  assumes "pos < length dat"
    and "lz_bits dat 0 ix pos flag out = (ix', pos', flag', out')"
  shows "pos < pos'"
proof -
  obtain bl bo where b: "lz_best dat ix pos = (bl, bo)" by (cases "lz_best dat ix pos")
  show ?thesis
  proof (cases "bl \<ge> lz_MIN_MATCH")
    case True
    with assms b have "pos + bl \<le> pos'"
      by (auto simp: lz_bits.simps [of dat 0] Let_def dest: lz_bits_pos_mono)
    with True show ?thesis by (simp add: lz_consts)
  next
    case False
    with assms b have "pos + 1 \<le> pos'"
      by (auto simp: lz_bits.simps [of dat 0] Let_def dest: lz_bits_pos_mono)
    then show ?thesis by simp
  qed
qed

function lz_loop :: "bytes \<Rightarrow> lz_index \<Rightarrow> nat \<Rightarrow> bytes \<Rightarrow> bytes" where
  \<comment> \<open>\<open>while pos < n\<close>: a zero flag byte, up to eight tokens, the flag byte patched\<close>
  "lz_loop dat ix pos out =
     (if pos < length dat then
        let (ix', pos', flag, out') = lz_bits dat 0 ix pos 0 (out @ [0])
        in lz_loop dat ix' pos' (out'[length out := flag])
      else out)"
  by pat_completeness auto
termination
proof (relation "measure (\<lambda>(dat, ix, pos, out). length dat - pos)", goal_cases)
  case 1
  show ?case by simp
next
  case (2 dat ix pos out x ix' y pos' z flag out')
  then have "pos < pos'"
    by (metis lz_bits_progress)
  with 2(1) show ?case by (simp add: diff_less_mono2)
qed

declare lz_loop.simps [simp del]

definition lzss_compress :: "bytes \<Rightarrow> bytes" where
  "lzss_compress dat = lz_loop dat lz_empty 0 []"

definition compress :: "bytes \<Rightarrow> bytes" where
  "compress dat =
     (let packed = lzss_compress dat in
        if length packed < length dat then 1 # packed else 0 # dat)"

subsection \<open>Decompression\<close>

definition copy_from :: "nat \<Rightarrow> nat \<Rightarrow> bytes \<Rightarrow> bytes" where
  \<comment> \<open>\<open>for k in 0..len { out.push(out[start + k]) }\<close>\<close>
  "copy_from start len out = fold (\<lambda>k out. out @ [out ! (start + k)]) [0..<len] out"

function lz_dec_bits :: "u8 \<Rightarrow> nat \<Rightarrow> bytes \<Rightarrow> bytes \<Rightarrow> (bytes \<times> bytes) option" where
  "lz_dec_bits flag bt rest out =
     (if bt < 8 then
        (case rest of
           [] \<Rightarrow> Some ([], out)
         | b # r \<Rightarrow>
             if bit flag bt then
               (case r of
                  [] \<Rightarrow> None
                | b2 # r2 \<Rightarrow>
                    let code = push_bit 8 (ucast b) OR ucast b2 :: u16;
                        off = unat (drop_bit 4 code + 1);
                        len = unat (code AND 15) + lz_MIN_MATCH
                    in if off > length out then None
                       else lz_dec_bits flag (bt + 1) r2
                              (copy_from (length out - off) len out))
             else lz_dec_bits flag (bt + 1) r (out @ [b]))
      else Some (rest, out))"
  by pat_completeness auto
termination
  by (relation "measure (\<lambda>(flag, bt, rest, out). 8 - bt)") auto

declare lz_dec_bits.simps [simp del]

text \<open>The equation of \<open>lz_dec_bits\<close> by the case it is in.\<close>

lemma lz_dec_bits_done: "\<not> bt < 8 \<Longrightarrow> lz_dec_bits flag bt rest out = Some (rest, out)"
  by (simp add: lz_dec_bits.simps [of flag bt])

lemma lz_dec_bits_empty: "lz_dec_bits flag bt [] out = Some ([], out)"
  by (simp add: lz_dec_bits.simps [of flag bt])

lemma lz_dec_bits_lit:
  "bt < 8 \<Longrightarrow> \<not> bit flag bt \<Longrightarrow>
     lz_dec_bits flag bt (b # r) out = lz_dec_bits flag (bt + 1) r (out @ [b])"
  by (simp add: lz_dec_bits.simps [of flag bt])

definition lz_ref_off :: "u8 \<Rightarrow> u8 \<Rightarrow> nat" where
  "lz_ref_off b b2 = unat (drop_bit 4 (push_bit 8 (ucast b) OR ucast b2 :: u16) + 1)"

definition lz_ref_len :: "u8 \<Rightarrow> u8 \<Rightarrow> nat" where
  "lz_ref_len b b2 = unat ((push_bit 8 (ucast b) OR ucast b2 :: u16) AND 15) + lz_MIN_MATCH"

lemma lz_dec_bits_ref:
  "bt < 8 \<Longrightarrow> bit flag bt \<Longrightarrow>
     lz_dec_bits flag bt (b # b2 # r) out =
       (if lz_ref_off b b2 > length out then None
        else lz_dec_bits flag (bt + 1) r (copy_from (length out - lz_ref_off b b2) (lz_ref_len b b2) out))"
  by (simp add: lz_dec_bits.simps [of flag bt] Let_def lz_ref_off_def lz_ref_len_def)

lemma lz_dec_bits_trunc: "bt < 8 \<Longrightarrow> bit flag bt \<Longrightarrow> lz_dec_bits flag bt [b] out = None"
  by (simp add: lz_dec_bits.simps [of flag bt])

lemmas lz_dec_bits_cases =
  lz_dec_bits_done lz_dec_bits_empty lz_dec_bits_lit lz_dec_bits_ref lz_dec_bits_trunc

lemma lz_dec_bits_length:
  "lz_dec_bits flag bt rest out = Some (rest', out') \<Longrightarrow> length rest' \<le> length rest"
proof (induction "8 - bt" arbitrary: bt rest out)
  case 0
  then show ?case by (simp add: lz_dec_bits_done)
next
  case (Suc k)
  then have bt: "bt < 8" and k: "k = 8 - (bt + 1)" by simp_all
  show ?case
  proof (cases rest)
    case Nil
    with Suc.prems show ?thesis by (simp add: lz_dec_bits_empty)
  next
    case (Cons b r)
    show ?thesis
    proof (cases "bit flag bt")
      case False
      with Suc.prems Cons bt show ?thesis
        using Suc.hyps(1) [OF k] by (fastforce simp: lz_dec_bits_lit)
    next
      case True
      with Suc.prems Cons bt show ?thesis
        using Suc.hyps(1) [OF k]
        by (cases r) (fastforce simp: lz_dec_bits_trunc lz_dec_bits_ref split: if_splits)+
    qed
  qed
qed

function lz_dec :: "bytes \<Rightarrow> bytes \<Rightarrow> bytes option" where
  "lz_dec [] out = Some out"
| "lz_dec (flag # rest) out =
     (case lz_dec_bits flag 0 rest out of
        None \<Rightarrow> None
      | Some (rest', out') \<Rightarrow> lz_dec rest' out')"
  by pat_completeness auto
termination
  by (relation "measure (\<lambda>(bs, out). length bs)")
    (auto simp: le_imp_less_Suc dest: lz_dec_bits_length [OF sym] lz_dec_bits_length)

definition lzss_decompress :: "bytes \<Rightarrow> bytes option" where
  "lzss_decompress blob = lz_dec blob []"

definition decompress :: "bytes \<Rightarrow> bytes option" where
  "decompress blob =
     (case blob of
        [] \<Rightarrow> None
      | h # rest \<Rightarrow> if h = 0 then Some rest else if h = 1 then lzss_decompress rest else None)"

subsection \<open>The reference code word\<close>

lemma bit_small: "n < 2 ^ m \<Longrightarrow> bit (n :: nat) k \<Longrightarrow> k < m"
  by (metis bit_take_bit_iff take_bit_nat_eq_self)

lemma lz_code_bytes_join:
  "(push_bit 8 (ucast (ucast (drop_bit 8 code) :: u8)) OR ucast (ucast (code AND 255) :: u8)) = (code :: u16)"
proof -
  have 255: "(255 :: u16) = mask 8"
    by (simp add: mask_eq_exp_minus_1)
  show ?thesis
    unfolding 255 by (rule bit_word_eqI) (auto simp: bit_simps)
qed

lemma lz_code_high:
  assumes "1 \<le> off" "off \<le> 4096" "len - lz_MIN_MATCH < 16"
  shows "unat (drop_bit 4 (lz_code len off) + 1) = off"
proof -
  obtain d where d: "off = Suc d"
    using assms(1) by (cases off) auto
  then have small: "d < 2 ^ 12" and len: "len - lz_MIN_MATCH < 2 ^ 4"
    using assms by simp_all
  have "drop_bit 4 (lz_code len off) = word_of_nat d"
    unfolding d by (intro bit_word_eqI)
      (auto simp: lz_code_def bit_simps dest: bit_small [OF small] bit_small [OF len])
  then have "drop_bit 4 (lz_code len off) + 1 = (word_of_nat off :: u16)"
    using d by simp
  then show ?thesis
    using assms by (simp add: unat_of_nat)
qed

lemma lz_code_low:
  assumes "lz_MIN_MATCH \<le> len" "len - lz_MIN_MATCH < 16"
  shows "unat (lz_code len off AND 15) + lz_MIN_MATCH = len"
proof -
  obtain e where e: "len - lz_MIN_MATCH = e" "len = e + lz_MIN_MATCH"
    using assms(1) by (metis le_add_diff_inverse2)
  then have len: "e < 2 ^ 4"
    using assms by simp
  have 15: "(15 :: u16) = mask 4"
    by (simp add: mask_eq_exp_minus_1)
  have "lz_code len off AND 15 = word_of_nat e"
    unfolding 15 lz_code_def e(1)
    by (intro bit_word_eqI) (auto simp: bit_simps dest: bit_small [OF len])
  then show ?thesis
    using len e(2) by (simp add: unat_of_nat)
qed

lemma lz_ref_roundtrip:
  assumes "1 \<le> off" "off \<le> lz_WINDOW" "lz_MIN_MATCH \<le> len" "len \<le> lz_MAX_MATCH"
  obtains b b2 where "lz_code_bytes (lz_code len off) = [b, b2]"
    and "lz_ref_off b b2 = off" and "lz_ref_len b b2 = len"
proof -
  have "len - lz_MIN_MATCH < 16" "off \<le> 4096"
    using assms by (simp_all add: lz_consts)
  with assms show ?thesis
    by (intro that [of "ucast (drop_bit 8 (lz_code len off))" "ucast (lz_code len off AND 255)"])
      (simp_all add: lz_code_bytes_def lz_ref_off_def lz_ref_len_def lz_code_bytes_join
        lz_code_high lz_code_low)
qed

subsection \<open>The match search\<close>

text \<open>A pair \<open>(len, off)\<close> is usable at \<open>pos\<close> when it points back into the window at bytes
  equal to the ones it stands for.\<close>

definition lz_usable :: "bytes \<Rightarrow> nat \<Rightarrow> nat \<Rightarrow> nat \<times> nat \<Rightarrow> bool" where
  "lz_usable dat pos maxl best \<longleftrightarrow>
     (case best of (bl, bo) \<Rightarrow>
        bl = 0 \<or> (bl \<le> maxl \<and> 1 \<le> bo \<and> bo \<le> pos \<and> bo \<le> lz_WINDOW
          \<and> (\<forall>i < bl. dat ! (pos - bo + i) = dat ! (pos + i))))"

text \<open>Every stored position lies before \<open>pos\<close>.\<close>

definition lz_ix_ok :: "nat \<Rightarrow> lz_index \<Rightarrow> bool" where
  "lz_ix_ok pos ix \<longleftrightarrow> (\<forall>h. lz_head ix h < int pos) \<and> (\<forall>c. lz_prev ix c < int pos)"

lemma match_len_sound:
  "l \<le> maxl \<Longrightarrow> (\<And>i. i < l \<Longrightarrow> dat ! (c + i) = dat ! (pos + i)) \<Longrightarrow>
     match_len dat c pos maxl l \<le> maxl
     \<and> (\<forall>i < match_len dat c pos maxl l. dat ! (c + i) = dat ! (pos + i))"
proof (induction dat c pos maxl l rule: match_len.induct)
  case (1 dat c pos maxl l)
  show ?case
  proof (cases "l < maxl \<and> dat ! (c + l) = dat ! (pos + l)")
    case True
    have "i < l + 1 \<Longrightarrow> dat ! (c + i) = dat ! (pos + i)" for i
      using True "1.prems"(2) by (cases "i = l") auto
    with True "1.IH" show ?thesis by (simp add: match_len.simps [of dat c pos maxl l])
  next
    case False
    then have "match_len dat c pos maxl l = l"
      by (subst match_len.simps) (simp only: if_False)
    with "1.prems" show ?thesis by simp
  qed
qed

lemma lz_search_usable:
  assumes "\<And>c. prev c < int pos" "pos - lz_WINDOW = win"
  shows "cand < int pos \<Longrightarrow> lz_usable dat pos maxl best \<Longrightarrow>
     lz_usable dat pos maxl (lz_search dat prev pos maxl win k cand best)"
proof (induction k arbitrary: cand best)
  case 0
  then show ?case by simp
next
  case (Suc k)
  obtain bl bo where best: "best = (bl, bo)" by (cases best)
  show ?case
  proof (cases "cand \<ge> 0 \<and> nat cand \<ge> win")
    case True
    let ?c = "nat cand"
    define l where "l = match_len dat ?c pos maxl 0"
    have c: "?c < pos" "pos - ?c \<le> lz_WINDOW"
      using True Suc.prems(1) assms(2) by linarith+
    have "lz_usable dat pos maxl (l, pos - ?c)"
      using match_len_sound [of 0 maxl dat ?c pos] c by (auto simp: lz_usable_def l_def)
    with True Suc.prems(2) best Suc.IH assms(1) show ?thesis
      by (auto simp add: Let_def l_def [symmetric])
  next
    case False
    then have "lz_search dat prev pos maxl win (Suc k) cand best = best"
      unfolding best lz_search.simps by (rule if_not_P)
    with Suc.prems show ?thesis by simp
  qed
qed

lemma lz_best_usable:
  "lz_ix_ok pos ix \<Longrightarrow> lz_usable dat pos (min (length dat - pos) lz_MAX_MATCH) (lz_best dat ix pos)"
  unfolding lz_best_def Let_def lz_ix_ok_def
  by (simp add: lz_usable_def [of dat pos _ "(0, 0)"] lz_search_usable)

lemma as_i32_le: "as_i32 n \<le> int n"
proof -
  have "- (2 ^ 31) \<le> uint (word_of_nat n :: 32 word)"
    by (rule order_trans [OF _ uint_ge_0]) simp
  then have "as_i32 n \<le> uint (word_of_nat n :: 32 word)"
    unfolding as_i32_def by (simp add: sint_uint signed_take_bit_int_less_eq_self_iff)
  also have "\<dots> \<le> int n"
    by (simp add: unsigned_of_nat)
  finally show ?thesis .
qed

lemma lz_ix_ok_mono: "lz_ix_ok p ix \<Longrightarrow> p \<le> q \<Longrightarrow> lz_ix_ok q ix"
  unfolding lz_ix_ok_def by (meson of_nat_mono order_less_le_trans)

lemma lz_ix_ok_empty: "lz_ix_ok pos lz_empty"
  by (simp add: lz_ix_ok_def lz_empty_def)

lemma lz_ix_ok_insert: "lz_ix_ok (Suc p) ix \<Longrightarrow> lz_ix_ok (Suc p) (lz_insert dat p ix)"
  using as_i32_le [of p] by (auto simp: lz_ix_ok_def lz_insert_def Let_def)

lemma lz_ix_ok_insert_fold:
  "lz_ix_ok p ix \<Longrightarrow> lz_ix_ok (max p q) (fold (lz_insert dat) [p..<q] ix)"
proof (induction q)
  case 0
  then show ?case by (simp add: lz_ix_ok_mono)
next
  case (Suc q)
  show ?case
  proof (cases "p \<le> q")
    case True
    then have "lz_ix_ok (Suc q) (fold (lz_insert dat) [p..<q] ix)"
      using Suc by (auto intro: lz_ix_ok_mono)
    with True show ?thesis
      by (simp add: lz_ix_ok_insert)
  next
    case False
    with Suc.prems show ?thesis by (simp add: lz_ix_ok_mono)
  qed
qed

subsection \<open>The copy loop\<close>

lemma copy_from_take:
  assumes "1 \<le> off" "off \<le> pos" "pos + len \<le> length dat"
    and "\<forall>i < len. dat ! (pos - off + i) = dat ! (pos + i)"
  shows "copy_from (pos - off) len (take pos dat) = take (pos + len) dat"
  using assms(3,4)
proof (induction len)
  case 0
  then show ?case by (simp add: copy_from_def)
next
  case (Suc len)
  have "copy_from (pos - off) len (take pos dat) = take (pos + len) dat"
    using Suc by simp
  then have "copy_from (pos - off) (Suc len) (take pos dat)
      = take (pos + len) dat @ [take (pos + len) dat ! (pos - off + len)]"
    by (simp add: copy_from_def)
  also have "take (pos + len) dat ! (pos - off + len) = dat ! (pos + len)"
    using assms(1,2) Suc.prems by simp
  also have "take (pos + len) dat @ [dat ! (pos + len)] = take (pos + Suc len) dat"
    using Suc.prems by (simp add: take_Suc_conv_app_nth)
  finally show ?case .
qed

subsection \<open>One block\<close>

text \<open>What the eight token slots from \<open>bt\<close> on emit is what the decoder reads back, given the
  final flag byte; the decoder needs the end of the blob when the block stopped early.\<close>

definition lz_block_ok :: "bytes \<Rightarrow> nat \<Rightarrow> nat \<Rightarrow> u8 \<Rightarrow> bytes \<Rightarrow> lz_index \<times> nat \<times> u8 \<times> bytes \<Rightarrow> bool" where
  "lz_block_ok dat bt pos flag out res \<longleftrightarrow>
     (case res of (ix', pos', flag', out') \<Rightarrow>
        pos' \<le> length dat \<and> lz_ix_ok pos' ix' \<and> (\<forall>j < bt. bit flag' j = bit flag j)
        \<and> (\<exists>body. out' = out @ body
            \<and> (\<forall>rest. (pos' = length dat \<longrightarrow> rest = []) \<longrightarrow>
                 lz_dec_bits flag' bt (body @ rest) (take pos dat) = Some (rest, take pos' dat))))"

lemma lz_block_ok_stop:
  assumes "pos \<le> length dat" "lz_ix_ok pos ix" "\<not> (bt < 8 \<and> pos < length dat)"
  shows "lz_block_ok dat bt pos flag out (ix, pos, flag, out)"
proof -
  have "(pos = length dat \<longrightarrow> rest = []) \<Longrightarrow>
      lz_dec_bits flag bt rest (take pos dat) = Some (rest, take pos dat)" for rest
    using assms by (cases "bt < 8") (auto simp: lz_dec_bits_empty lz_dec_bits_done)
  with assms show ?thesis by (simp add: lz_block_ok_def)
qed

lemma lz_block_ok_lit:
  assumes "bt < 8" "pos < length dat" "\<not> bit flag bt"
    and "lz_block_ok dat (bt + 1) (pos + 1) flag (out @ [dat ! pos]) res"
  shows "lz_block_ok dat bt pos flag out res"
proof -
  obtain ix' pos' flag' out' where res: "res = (ix', pos', flag', out')" by (cases res)
  from assms(4) res obtain body where b: "out' = out @ dat ! pos # body"
    and dec: "\<And>rest. (pos' = length dat \<longrightarrow> rest = []) \<Longrightarrow>
      lz_dec_bits flag' (bt + 1) (body @ rest) (take (pos + 1) dat) = Some (rest, take pos' dat)"
    and fl: "\<forall>j < bt + 1. bit flag' j = bit flag j" and ok: "pos' \<le> length dat" "lz_ix_ok pos' ix'"
    by (auto simp: lz_block_ok_def)
  have "\<not> bit flag' bt"
    using fl assms(3) by simp
  with assms(1,2) have "(pos' = length dat \<longrightarrow> rest = []) \<Longrightarrow>
      lz_dec_bits flag' bt ((dat ! pos # body) @ rest) (take pos dat) = Some (rest, take pos' dat)" for rest
    using dec [of rest] by (simp add: lz_dec_bits_lit take_Suc_conv_app_nth)
  with b fl ok res show ?thesis
    unfolding lz_block_ok_def by (auto intro: exI [of _ "dat ! pos # body"])
qed

lemma lz_block_ok_ref:
  assumes "bt < 8" "pos < length dat"
    and use: "lz_usable dat pos (min (length dat - pos) lz_MAX_MATCH) (bl, bo)" "lz_MIN_MATCH \<le> bl"
    and rec: "lz_block_ok dat (bt + 1) (pos + bl) (flag OR push_bit bt 1) (out @ lz_code_bytes (lz_code bl bo)) res"
  shows "lz_block_ok dat bt pos flag out res"
proof -
  have u: "bl \<le> length dat - pos" "bl \<le> lz_MAX_MATCH" "1 \<le> bo" "bo \<le> pos" "bo \<le> lz_WINDOW"
    and eq: "\<forall>i < bl. dat ! (pos - bo + i) = dat ! (pos + i)"
    using use by (auto simp: lz_usable_def lz_MIN_MATCH_def)
  obtain b1 b2 where code: "lz_code_bytes (lz_code bl bo) = [b1, b2]"
    and off: "lz_ref_off b1 b2 = bo" and len: "lz_ref_len b1 b2 = bl"
    using lz_ref_roundtrip [OF u(3,5) use(2) u(2)] by blast
  obtain ix' pos' flag' out' where res: "res = (ix', pos', flag', out')" by (cases res)
  from rec res code obtain body where b: "out' = out @ b1 # b2 # body"
    and dec: "\<And>rest. (pos' = length dat \<longrightarrow> rest = []) \<Longrightarrow>
      lz_dec_bits flag' (bt + 1) (body @ rest) (take (pos + bl) dat) = Some (rest, take pos' dat)"
    and fl: "\<forall>j < bt + 1. bit flag' j = bit (flag OR push_bit bt 1) j"
    and ok: "pos' \<le> length dat" "lz_ix_ok pos' ix'"
    by (auto simp: lz_block_ok_def)
  have "bit flag' bt"
    using fl assms(1) by (simp add: bit_simps)
  moreover have low: "j < bt \<Longrightarrow> bit flag' j = bit flag j" for j
    using fl by (auto simp: bit_simps)
  moreover have "copy_from (pos - bo) bl (take pos dat) = take (pos + bl) dat"
    using u eq assms(2) by (intro copy_from_take) auto
  ultimately have "(pos' = length dat \<longrightarrow> rest = []) \<Longrightarrow>
      lz_dec_bits flag' bt ((b1 # b2 # body) @ rest) (take pos dat) = Some (rest, take pos' dat)" for rest
    using dec [of rest] assms(1,2) u off len by (simp add: lz_dec_bits_ref min_absorb2)
  with b low ok res show ?thesis
    unfolding lz_block_ok_def by (auto intro: exI [of _ "b1 # b2 # body"])
qed

lemma lz_bits_ok:
  "pos \<le> length dat \<Longrightarrow> lz_ix_ok pos ix \<Longrightarrow> (\<forall>j \<ge> bt. \<not> bit flag j) \<Longrightarrow>
     lz_block_ok dat bt pos flag out (lz_bits dat bt ix pos flag out)"
proof (induction dat bt ix pos flag out rule: lz_bits.induct)
  case (1 dat bt ix pos flag out)
  show ?case
  proof (cases "bt < 8 \<and> pos < length dat")
    case go: True
    obtain bl bo where b: "lz_best dat ix pos = (bl, bo)" by (cases "lz_best dat ix pos")
    have use: "lz_usable dat pos (min (length dat - pos) lz_MAX_MATCH) (bl, bo)"
      using lz_best_usable [OF "1.prems"(2)] b by metis
    note IH = "1.IH" [OF go b [symmetric] refl refl]
    have ins: "lz_ix_ok (pos + 1) (lz_insert dat pos ix)"
      using "1.prems"(2) by (simp add: lz_ix_ok_insert lz_ix_ok_mono)
    show ?thesis
    proof (cases "lz_MIN_MATCH \<le> bl")
      case True
      have "lz_ix_ok (pos + bl) (fold (lz_insert dat) [pos + 1..<pos + bl] (lz_insert dat pos ix))"
        using lz_ix_ok_insert_fold [OF ins, of "pos + bl"] True by (simp add: lz_MIN_MATCH_def max_def)
      moreover have "pos + bl \<le> length dat"
        using use True by (auto simp: lz_usable_def lz_MIN_MATCH_def)
      moreover have "\<forall>j \<ge> bt + 1. \<not> bit (flag OR push_bit bt 1) j"
        using "1.prems"(3) by (auto simp: bit_simps)
      ultimately show ?thesis
        using lz_block_ok_ref [OF _ _ use True] IH(1) [OF True] go b True
        by (simp add: lz_bits.simps [of dat bt ix pos] Let_def)
    next
      case False
      then show ?thesis
        using lz_block_ok_lit [of bt pos dat flag out] IH(2) [OF False] go b "1.prems" ins
        by (simp add: lz_bits.simps [of dat bt ix pos] Let_def)
    qed
  next
    case False
    then have "lz_bits dat bt ix pos flag out = (ix, pos, flag, out)"
      by (subst lz_bits.simps) (simp only: if_False)
    with lz_block_ok_stop [OF "1.prems"(1,2) False] show ?thesis
      by simp
  qed
qed

subsection \<open>The round trip\<close>

lemma lz_loop_end: "lz_loop dat ix (length dat) out = out"
  by (subst lz_loop.simps) simp

lemma lz_loop_decodes:
  "pos \<le> length dat \<Longrightarrow> lz_ix_ok pos ix \<Longrightarrow>
     \<exists>body. lz_loop dat ix pos out = out @ body \<and> lz_dec body (take pos dat) = Some dat"
proof (induction dat ix pos out rule: lz_loop.induct)
  case (1 dat ix pos out)
  show ?case
  proof (cases "pos < length dat")
    case True
    obtain ix' pos' flag' out' where b: "lz_bits dat 0 ix pos 0 (out @ [0]) = (ix', pos', flag', out')"
      by (cases "lz_bits dat 0 ix pos 0 (out @ [0])")
    have "lz_block_ok dat 0 pos 0 (out @ [0]) (ix', pos', flag', out')"
      using lz_bits_ok [OF "1.prems", of 0 0 "out @ [0]"] b by simp
    then obtain body where out': "out' = out @ 0 # body" and ok: "pos' \<le> length dat" "lz_ix_ok pos' ix'"
      and dec: "\<And>rest. (pos' = length dat \<longrightarrow> rest = []) \<Longrightarrow>
        lz_dec_bits flag' 0 (body @ rest) (take pos dat) = Some (rest, take pos' dat)"
      by (auto simp: lz_block_ok_def)
    obtain more where more: "lz_loop dat ix' pos' (out'[length out := flag']) = out'[length out := flag'] @ more"
      and dm: "lz_dec more (take pos' dat) = Some dat"
      using "1.IH" [OF True b [symmetric] refl refl refl ok] by blast
    have "pos' = length dat \<longrightarrow> more = []"
      using more by (metis append_self_conv lz_loop_end)
    then have "lz_dec (flag' # body @ more) (take pos dat) = Some dat"
      using dec [of more] dm by simp
    moreover have "lz_loop dat ix pos out = out @ flag' # body @ more"
      using True b more out' by (simp add: lz_loop.simps [of dat ix pos out])
    ultimately show ?thesis by blast
  next
    case False
    with "1.prems" show ?thesis by (simp add: lz_loop_end exI [of _ "[]"])
  qed
qed

lemma lzss_roundtrip: "lzss_decompress (lzss_compress dat) = Some dat"
  using lz_loop_decodes [of 0 dat lz_empty "[]"]
  by (auto simp: lzss_compress_def lzss_decompress_def lz_ix_ok_empty)

lemma decompress_compress [simp, codec_simps]: "decompress (compress dat) = Some dat"
  by (simp add: compress_def decompress_def Let_def lzss_roundtrip)

text \<open>C10. The LZSS codec is lossless: for every byte string, decompressing what \<open>compress\<close>
  produced gives the input back, whatever token mix and window references were chosen.\<close>

theorem lzss_lossless: "decompress (compress dat) = Some dat"
  by (rule decompress_compress)

text \<open>The codec never inflates: a compressed blob is at most one header byte longer than
  its input.\<close>

theorem lzss_never_inflates: "length (compress dat) \<le> length dat + 1"
  by (simp add: compress_def Let_def)

end
