(* ===== verification/Sha256.thy ===== *)
theory Sha256
  imports Bytes
begin

text \<open>
  \<open>crates/ccos-rsi/src/sha256.rs\<close>: the dependency-free SHA-256 of the RSI audit log, on
  32-bit words with wrapping addition. The code unrolls eight rounds per loop iteration; the
  model keeps that shape, and \<open>sha_rounds_unrolled\<close> shows it is the 64-round loop. The
  padding loop is shown to stop and to give the padded message of FIPS 180-4.
\<close>

unbundle bit_operations_syntax

definition sha_K :: "u32 list" where
  "sha_K = [
    0x428A2F98, 0x71374491, 0xB5C0FBCF, 0xE9B5DBA5, 0x3956C25B, 0x59F111F1,
    0x923F82A4, 0xAB1C5ED5, 0xD807AA98, 0x12835B01, 0x243185BE, 0x550C7DC3,
    0x72BE5D74, 0x80DEB1FE, 0x9BDC06A7, 0xC19BF174, 0xE49B69C1, 0xEFBE4786,
    0x0FC19DC6, 0x240CA1CC, 0x2DE92C6F, 0x4A7484AA, 0x5CB0A9DC, 0x76F988DA,
    0x983E5152, 0xA831C66D, 0xB00327C8, 0xBF597FC7, 0xC6E00BF3, 0xD5A79147,
    0x06CA6351, 0x14292967, 0x27B70A85, 0x2E1B2138, 0x4D2C6DFC, 0x53380D13,
    0x650A7354, 0x766A0ABB, 0x81C2C92E, 0x92722C85, 0xA2BFE8A1, 0xA81A664B,
    0xC24B8B70, 0xC76C51A3, 0xD192E819, 0xD6990624, 0xF40E3585, 0x106AA070,
    0x19A4C116, 0x1E376C08, 0x2748774C, 0x34B0BCB5, 0x391C0CB3, 0x4ED8AA4A,
    0x5B9CCA4F, 0x682E6FF3, 0x748F82EE, 0x78A5636F, 0x84C87814, 0x8CC70208,
    0x90BEFFFA, 0xA4506CEB, 0xBEF9A3F7, 0xC67178F2]"

definition sha_H0 :: "u32 list" where
  "sha_H0 = [
    0x6A09E667, 0xBB67AE85, 0x3C6EF372, 0xA54FF53A, 0x510E527F, 0x9B05688C,
    0x1F83D9AB, 0x5BE0CD19]"

lemma length_sha_K [simp]: "length sha_K = 64"
  by (simp add: sha_K_def)

lemma length_sha_H0 [simp]: "length sha_H0 = 8"
  by (simp add: sha_H0_def)

subsection \<open>Padding\<close>

text \<open>\<open>bit_len.to_be_bytes()\<close>, for integers of a given number of bytes.\<close>

definition be_bytes :: "nat \<Rightarrow> nat \<Rightarrow> bytes" where
  "be_bytes n x = rev (le_bytes n x)"

function sha_pad_zeros :: "bytes \<Rightarrow> bytes" where
  \<comment> \<open>\<open>while msg.len() % 64 != 56 { msg.push(0) }\<close>\<close>
  "sha_pad_zeros msg = (if length msg mod 64 \<noteq> 56 then sha_pad_zeros (msg @ [0]) else msg)"
  by pat_completeness auto
termination
proof (relation "measure (\<lambda>msg. (120 - length msg mod 64) mod 64)", goal_cases)
  case 1
  show ?case by simp
next
  case (2 msg)
  have "r \<noteq> 56 \<Longrightarrow> r < 64 \<Longrightarrow> (120 - Suc r mod 64) mod 64 < (120 - r) mod (64 :: nat)" for r :: nat
    by (cases "r < 56"; cases "r = 63") (auto simp: mod_if)
  from this [OF 2] show ?case
    by (simp add: mod_Suc_eq)
qed

declare sha_pad_zeros.simps [simp del]

definition sha_pad :: "bytes \<Rightarrow> bytes" where
  "sha_pad dat =
     (let bit_len = (length dat * 8) mod 2 ^ 64
      in sha_pad_zeros (dat @ [0x80]) @ be_bytes 8 bit_len)"

fun chunks_exact :: "nat \<Rightarrow> 'a list \<Rightarrow> 'a list list" where
  \<comment> \<open>\<open>chunks_exact(n)\<close>: an incomplete last chunk is left out\<close>
  "chunks_exact n xs =
     (if n = 0 \<or> length xs < n then [] else take n xs # chunks_exact n (drop n xs))"

declare chunks_exact.simps [simp del]

subsection \<open>The message schedule\<close>

definition be_word32 :: "u8 \<Rightarrow> u8 \<Rightarrow> u8 \<Rightarrow> u8 \<Rightarrow> u32" where
  \<comment> \<open>\<open>u32::from_be_bytes\<close>\<close>
  "be_word32 a b c d =
     push_bit 24 (ucast a) OR push_bit 16 (ucast b) OR push_bit 8 (ucast c) OR ucast d"

definition rotr32 :: "nat \<Rightarrow> u32 \<Rightarrow> u32" where
  "rotr32 n x = word_rotr n x"

definition sha_w0 :: "bytes \<Rightarrow> u32 list" where
  "sha_w0 block =
     map (\<lambda>i. let j = i * 4 in
       be_word32 (block ! j) (block ! (j + 1)) (block ! (j + 2)) (block ! (j + 3))) [0..<16]"

definition sha_extend :: "nat \<Rightarrow> u32 list \<Rightarrow> u32 list" where
  "sha_extend i w =
     (let s0 = rotr32 7 (w ! (i - 15)) XOR rotr32 18 (w ! (i - 15)) XOR drop_bit 3 (w ! (i - 15));
          s1 = rotr32 17 (w ! (i - 2)) XOR rotr32 19 (w ! (i - 2)) XOR drop_bit 10 (w ! (i - 2))
      in w @ [w ! (i - 16) + s0 + w ! (i - 7) + s1])"

definition sha_schedule :: "bytes \<Rightarrow> u32 list" where
  "sha_schedule block = fold sha_extend [16..<64] (sha_w0 block)"

subsection \<open>Rounds\<close>

record sha_state =
  sa :: u32
  sb :: u32
  sc :: u32
  sd :: u32
  se :: u32
  sf :: u32
  sg :: u32
  sh :: u32

definition sha_round :: "u32 list \<Rightarrow> nat \<Rightarrow> sha_state \<Rightarrow> sha_state" where
  "sha_round w i s =
     (let s1 = rotr32 6 (se s) XOR rotr32 11 (se s) XOR rotr32 25 (se s);
          ch = (se s AND sf s) XOR (NOT (se s) AND sg s);
          t1 = sh s + s1 + ch + sha_K ! i + w ! i;
          s0 = rotr32 2 (sa s) XOR rotr32 13 (sa s) XOR rotr32 22 (sa s);
          maj = (sa s AND sb s) XOR (sa s AND sc s) XOR (sb s AND sc s);
          t2 = s0 + maj
      in \<lparr>sa = t1 + t2, sb = sa s, sc = sb s, sd = sc s, se = sd s + t1, sf = se s, sg = sf s, sh = sg s\<rparr>)"

definition sha_rounds8 :: "u32 list \<Rightarrow> nat \<Rightarrow> sha_state \<Rightarrow> sha_state" where
  \<comment> \<open>the loop body: rounds \<open>i\<close> to \<open>i + 7\<close>, unrolled\<close>
  "sha_rounds8 w i s =
     sha_round w (i + 7) (sha_round w (i + 6) (sha_round w (i + 5) (sha_round w (i + 4)
       (sha_round w (i + 3) (sha_round w (i + 2) (sha_round w (i + 1) (sha_round w i s)))))))"

definition sha_rounds :: "u32 list \<Rightarrow> sha_state \<Rightarrow> sha_state" where
  \<comment> \<open>\<open>for i in (0..64).step_by(8)\<close>\<close>
  "sha_rounds w s = fold (sha_rounds8 w) (map ((*) 8) [0..<8]) s"

definition sha_block :: "bytes \<Rightarrow> u32 list \<Rightarrow> u32 list" where
  "sha_block block h =
     (let w = sha_schedule block;
          s = sha_rounds w \<lparr>sa = h ! 0, sb = h ! 1, sc = h ! 2, sd = h ! 3,
                            se = h ! 4, sf = h ! 5, sg = h ! 6, sh = h ! 7\<rparr>
      in [h ! 0 + sa s, h ! 1 + sb s, h ! 2 + sc s, h ! 3 + sd s,
          h ! 4 + se s, h ! 5 + sf s, h ! 6 + sg s, h ! 7 + sh s])"

definition sha256 :: "bytes \<Rightarrow> bytes" where
  "sha256 dat =
     concat (map (\<lambda>w. be_bytes 4 (unat w)) (fold sha_block (chunks_exact 64 (sha_pad dat)) sha_H0))"

definition rsi_sha256_hex :: "string \<Rightarrow> string" where
  "rsi_sha256_hex input = hex_bytes (sha256 (bytes_of input))"

subsection \<open>The padded message\<close>

lemma sha_pad_zeros_eq:
  "\<exists>k. sha_pad_zeros msg = msg @ replicate k 0 \<and> k < 64 \<and> (length msg + k) mod 64 = 56"
proof (induction msg rule: sha_pad_zeros.induct)
  case (1 msg)
  show ?case
  proof (cases "length msg mod 64 = 56")
    case True
    then show ?thesis
      by (simp add: sha_pad_zeros.simps [of msg] exI [of _ 0])
  next
    case False
    with 1 obtain k where k: "sha_pad_zeros (msg @ [0]) = (msg @ [0]) @ replicate k 0"
        "k < 64" "(length (msg @ [0]) + k) mod 64 = 56"
      by blast
    have "Suc k < 64"
    proof (rule ccontr)
      assume "\<not> Suc k < 64"
      with k(2) have "k = 63" by simp
      with k(3) False show False by simp
    qed
    with False k show ?thesis
      by (simp add: sha_pad_zeros.simps [of msg] exI [of _ "Suc k"])
  qed
qed

lemma length_be_bytes [simp]: "length (be_bytes n x) = n"
  by (simp add: be_bytes_def)

lemma sha_pad_shape:
  obtains k where "sha_pad dat = dat @ 0x80 # replicate k 0 @ be_bytes 8 (length dat * 8 mod 2 ^ 64)"
    and "k < 64" and "length (sha_pad dat) mod 64 = 0"
proof -
  obtain k where k: "sha_pad_zeros (dat @ [0x80]) = (dat @ [0x80]) @ replicate k 0"
      "k < 64" "(length (dat @ [0x80]) + k) mod 64 = 56"
    using sha_pad_zeros_eq by blast
  have pad: "sha_pad dat = dat @ 0x80 # replicate k 0 @ be_bytes 8 (length dat * 8 mod 2 ^ 64)"
    using k(1) by (simp add: sha_pad_def Let_def)
  have "m mod 64 = 56 \<Longrightarrow> (m + 8) mod 64 = 0" for m :: nat
    by presburger
  from this [OF k(3)] have "length (sha_pad dat) mod 64 = 0"
    unfolding pad by (simp only: length_append length_be_bytes length_replicate list.size ac_simps)
      simp
  with pad k(2) show ?thesis by (rule that)
qed

subsection \<open>Equivalences\<close>

lemma sha_rounds8_fold: "sha_rounds8 w i = fold (sha_round w) [i..<i + 8]"
  by (simp add: fun_eq_iff sha_rounds8_def upt_rec [of i] numeral_eq_Suc)

lemma sha_rounds_fold: "fold (sha_rounds8 w) (map ((*) 8) [0..<n]) s = fold (sha_round w) [0..<8 * n] s"
proof (induction n)
  case 0
  then show ?case by simp
next
  case (Suc n)
  have "[0..<8 * n] @ [8 * n..<8 * n + 8] = [0..<8 * Suc n]"
    by (metis le_add1 less_eq_nat.simps(1) mult_Suc_right add.commute upt_add_eq_append add_0)
  then have "fold (sha_round w) [0..<8 * Suc n] s
      = fold (sha_round w) [8 * n..<8 * n + 8] (fold (sha_round w) [0..<8 * n] s)"
    by (metis comp_apply fold_append)
  with Suc show ?case
    by (simp add: sha_rounds8_fold)
qed

lemma length_sha_extend_fold:
  "length w = m \<Longrightarrow> m \<le> n \<Longrightarrow> length (fold sha_extend [m..<n] w) = n"
proof (induction n)
  case 0
  then show ?case by simp
next
  case (Suc n)
  then show ?case
    by (cases "m = Suc n") (auto simp: sha_extend_def Let_def)
qed

lemma length_sha_schedule [simp]: "length (sha_schedule block) = 64"
  unfolding sha_schedule_def by (rule length_sha_extend_fold) (simp_all add: sha_w0_def)

lemma length_sha_blocks [simp]: "length h = 8 \<Longrightarrow> length (fold sha_block bs h) = 8"
  by (induction bs arbitrary: h) (simp_all add: sha_block_def Let_def)

lemma length_concat_const: "(\<And>x. x \<in> set xs \<Longrightarrow> length (f x) = n) \<Longrightarrow> length (concat (map f xs)) = n * length xs"
  by (induction xs) auto

lemma length_sha256 [simp]: "length (sha256 dat) = 32"
  unfolding sha256_def by (subst length_concat_const [where n = 4]) simp_all

text \<open>The eight-fold unrolled loop of \<open>sha256\<close> performs the 64 rounds of FIPS 180-4, in
  order: unrolling changed no round, no round constant index and no schedule index.\<close>

theorem sha_rounds_unrolled: "sha_rounds w s = fold (sha_round w) [0..<64] s"
  unfolding sha_rounds_def by (simp add: sha_rounds_fold)

text \<open>The padding loop stops and yields the padded message of FIPS 180-4: the data, the
  byte \<open>0x80\<close>, fewer than 64 zero bytes, the bit length in eight big-endian bytes, and the
  total is a whole number of 64-byte blocks.\<close>

theorem sha_padding:
  "\<exists>k < 64. sha_pad dat = dat @ 0x80 # replicate k 0 @ be_bytes 8 (length dat * 8 mod 2 ^ 64)
     \<and> length (sha_pad dat) mod 64 = 0"
proof -
  obtain k where "sha_pad dat = dat @ 0x80 # replicate k 0 @ be_bytes 8 (length dat * 8 mod 2 ^ 64)"
    and "k < 64" and "length (sha_pad dat) mod 64 = 0"
    by (rule sha_pad_shape)
  then show ?thesis by (intro exI [of _ k]) simp
qed

end
