(* ===== verification/OrdMap.thy ===== *)
theory OrdMap
  imports Prelude
begin

text \<open>
  Rust's \<open>BTreeMap\<close> as an association list kept strictly ascending by key, which is its
  iteration order. The same list stands for a \<open>HashMap\<close> whose iteration order the code
  never observes. \<open>om_ok\<close> is the representation invariant; the lookup is the library's
  \<open>map_of\<close>, and two maps with the same lookups are the same list (\<open>om_ext\<close>).
\<close>

type_synonym ('k, 'v) omap = "('k \<times> 'v) list"

definition om_ok :: "('k :: linorder, 'v) omap \<Rightarrow> bool" where
  "om_ok m \<longleftrightarrow> sorted_wrt (<) (map fst m)"

fun om_insert :: "'k :: linorder \<Rightarrow> 'v \<Rightarrow> ('k, 'v) omap \<Rightarrow> ('k, 'v) omap" where
  "om_insert k v [] = [(k, v)]"
| "om_insert k v ((k', v') # m) =
     (if k < k' then (k, v) # (k', v') # m
      else if k = k' then (k, v) # m
      else (k', v') # om_insert k v m)"

definition om_remove :: "'k \<Rightarrow> ('k, 'v) omap \<Rightarrow> ('k, 'v) omap" where
  "om_remove k m = filter (\<lambda>(k', _). k' \<noteq> k) m"

definition om_contains :: "('k, 'v) omap \<Rightarrow> 'k \<Rightarrow> bool" where
  "om_contains m k \<longleftrightarrow> map_of m k \<noteq> None"

definition om_update :: "'k \<Rightarrow> ('v \<Rightarrow> 'v) \<Rightarrow> ('k, 'v) omap \<Rightarrow> ('k, 'v) omap" where
  \<comment> \<open>\<open>if let Some(x) = m.get_mut(k) { *x = f(*x) }\<close>\<close>
  "om_update k f m = map (\<lambda>(k', v). (k', if k' = k then f v else v)) m"

definition om_extend :: "('k :: linorder, 'v) omap \<Rightarrow> ('k \<times> 'v) list \<Rightarrow> ('k, 'v) omap" where
  \<comment> \<open>insertion in iteration order, a later pair wins\<close>
  "om_extend m kvs = fold (\<lambda>(k, v). om_insert k v) kvs m"

subsection \<open>Lookup\<close>

lemma map_of_om_insert [simp]: "map_of (om_insert k v m) = (map_of m)(k \<mapsto> v)"
  by (induction k v m rule: om_insert.induct) auto

lemma map_of_om_remove [simp]: "map_of (om_remove k m) = (map_of m)(k := None)"
  by (induction m) (auto simp: om_remove_def)

lemma map_of_om_update [simp]:
  "map_of (om_update k f m) = (map_of m)(k := map_option f (map_of m k))"
  by (induction m) (auto simp: om_update_def)

lemma om_contains_iff: "om_contains m k \<longleftrightarrow> k \<in> fst ` set m"
  by (auto simp: om_contains_def map_of_eq_None_iff)

lemma om_contains_dom: "om_contains m k \<longleftrightarrow> k \<in> dom (map_of m)"
  by (auto simp: om_contains_def)

lemma om_contains_insert [simp]: "om_contains (om_insert k v m) k' \<longleftrightarrow> k' = k \<or> om_contains m k'"
  by (auto simp: om_contains_def)

lemma om_contains_remove [simp]: "om_contains (om_remove k m) k' \<longleftrightarrow> k' \<noteq> k \<and> om_contains m k'"
  by (auto simp: om_contains_def)

lemma om_contains_update [simp]: "om_contains (om_update k f m) k' \<longleftrightarrow> om_contains m k'"
  by (auto simp: om_contains_def)

lemma om_contains_Nil [simp]: "\<not> om_contains [] k"
  by (simp add: om_contains_def)

lemma om_insert_keys: "fst ` set (om_insert k v m) = insert k (fst ` set m)"
  by (induction k v m rule: om_insert.induct) auto

lemma om_update_keys [simp]: "map fst (om_update k f m) = map fst m"
  by (auto simp: om_update_def)

lemma length_om_update [simp]: "length (om_update k f m) = length m"
  by (simp add: om_update_def)

lemma map_of_om_extend: "map_of (om_extend m kvs) = map_of m ++ map_of (rev kvs)"
  by (induction kvs arbitrary: m) (auto simp: om_extend_def map_add_def fun_eq_iff split: option.splits)

subsection \<open>The representation invariant\<close>

lemma om_ok_Nil [simp, inv_intros]: "om_ok []"
  by (simp add: om_ok_def)

lemma om_ok_Cons: "om_ok ((k, v) # m) \<longleftrightarrow> om_ok m \<and> (\<forall>k' \<in> fst ` set m. k < k')"
  by (auto simp: om_ok_def)

lemma om_ok_insert [inv_intros]: "om_ok m \<Longrightarrow> om_ok (om_insert k v m)"
  by (induction k v m rule: om_insert.induct) (auto simp: om_ok_Cons om_insert_keys)

lemma om_ok_filter [inv_intros]: "om_ok m \<Longrightarrow> om_ok (filter P m)"
  by (simp add: om_ok_def sorted_wrt_filter_fst)

lemma om_ok_remove [inv_intros]: "om_ok m \<Longrightarrow> om_ok (om_remove k m)"
  by (simp add: om_remove_def om_ok_filter)

lemma om_ok_update [inv_intros]: "om_ok m \<Longrightarrow> om_ok (om_update k f m)"
  by (simp add: om_ok_def)

lemma om_ok_extend [inv_intros]: "om_ok m \<Longrightarrow> om_ok (om_extend m kvs)"
  by (induction kvs arbitrary: m) (auto simp: om_extend_def intro: inv_intros)

lemma om_ok_distinct: "om_ok m \<Longrightarrow> distinct (map fst m)"
  by (simp add: om_ok_def sorted_wrt_less_distinct)

lemma om_get_iff: "om_ok m \<Longrightarrow> map_of m k = Some v \<longleftrightarrow> (k, v) \<in> set m"
  by (simp add: om_ok_distinct)

lemma om_ok_map_val: "om_ok (map (\<lambda>(k, v). (k, f k v)) m) \<longleftrightarrow> om_ok m"
  by (simp add: om_ok_def comp_def case_prod_beta)

lemma length_om_insert:
  "om_ok m \<Longrightarrow> length (om_insert k v m) = (if om_contains m k then length m else Suc (length m))"
  by (induction k v m rule: om_insert.induct) (auto simp: om_ok_Cons om_contains_iff)

lemma length_om_insert_le: "length (om_insert k v m) \<le> Suc (length m)"
  by (induction k v m rule: om_insert.induct) auto

lemma om_remove_id: "\<not> om_contains m k \<Longrightarrow> om_remove k m = m"
  by (auto simp: om_remove_def om_contains_iff filter_id_conv rev_image_eqI)

lemma length_om_remove:
  "om_ok m \<Longrightarrow> length (om_remove k m) = (if om_contains m k then length m - 1 else length m)"
proof (induction m)
  case Nil
  then show ?case by (simp add: om_remove_def)
next
  case (Cons p m)
  obtain k' v where p: "p = (k', v)" by (cases p)
  show ?case
  proof (cases "k' = k")
    case True
    with Cons.prems p have "\<not> om_contains m k"
      by (auto simp: om_ok_Cons om_contains_iff)
    then have "om_remove k m = m" by (rule om_remove_id)
    with True p show ?thesis by (simp add: om_remove_def om_contains_def)
  next
    case False
    have "om_contains m k \<Longrightarrow> m \<noteq> []" by auto
    with False p Cons show ?thesis
      by (cases m) (auto simp: om_remove_def om_ok_Cons om_contains_def)
  qed
qed

subsection \<open>Extensionality\<close>

lemma om_ok_hd_least:
  "om_ok ((k, v) # m) \<Longrightarrow> om_contains ((k, v) # m) k' \<Longrightarrow> k \<le> k'"
  by (auto simp: om_ok_Cons om_contains_iff less_imp_le)

lemma om_ext_contains: "map_of m = map_of n \<Longrightarrow> om_contains m k = om_contains n k"
  by (simp add: om_contains_def)

lemma om_ext: "om_ok m \<Longrightarrow> om_ok n \<Longrightarrow> map_of m = map_of n \<Longrightarrow> m = n"
proof (induction m arbitrary: n)
  case Nil
  have "n = []"
  proof (rule ccontr)
    assume "n \<noteq> []"
    then obtain k v n' where "n = (k, v) # n'" by (cases n) auto
    then have "map_of n k = Some v" by simp
    with Nil.prems(3) show False by (metis map_of.simps(1) option.distinct(1))
  qed
  then show ?case by simp
next
  case (Cons p m)
  obtain k v where p: "p = (k, v)" by (cases p)
  have "om_contains (p # m) k"
    using p by (simp add: om_contains_def)
  then have "om_contains n k"
    by (simp only: om_ext_contains [OF Cons.prems(3)])
  then obtain k' v' n' where n: "n = (k', v') # n'"
    by (cases n) auto
  have "om_contains n k'"
    using n by (simp add: om_contains_def)
  then have "om_contains (p # m) k'"
    by (simp only: om_ext_contains [OF Cons.prems(3)])
  then have "k = k'"
    using om_ok_hd_least [of k v m k'] om_ok_hd_least [of k' v' n' k] Cons.prems(1,2) p n
      \<open>om_contains n k\<close> by simp
  have no: "map_of m k = None" "map_of n' k = None"
    using Cons.prems(1,2) p n \<open>k = k'\<close> by (auto simp: om_ok_Cons map_of_eq_None_iff)
  have eq: "map_of ((k, v) # m) x = map_of ((k', v') # n') x" for x
    using fun_cong [OF Cons.prems(3), of x] by (simp only: p n)
  have "v = v'"
    using eq [of k] \<open>k = k'\<close> by simp
  moreover have "map_of m x = map_of n' x" for x
    using eq [of x] no \<open>k = k'\<close> by (cases "x = k") auto
  then have "m = n'"
    using Cons.IH [of n'] Cons.prems(1,2) p n by (auto simp: om_ok_Cons fun_eq_iff)
  ultimately show ?case
    using p n \<open>k = k'\<close> by simp
qed

lemma om_of_sorted: "om_ok kvs \<Longrightarrow> om_extend [] kvs = kvs"
proof (rule om_ext)
  assume ok: "om_ok kvs"
  then have "map_of (rev kvs) = map_of kvs"
    by (intro map_of_inject_set [THEN iffD2]) (simp_all add: om_ok_distinct rev_map [symmetric])
  then show "map_of (om_extend [] kvs) = map_of kvs"
    by (simp add: map_of_om_extend)
qed (auto intro: inv_intros)

end
