(* ===== verification/GraphTypes.thy ===== *)
theory GraphTypes
  imports OrdMap
begin

text \<open>
  The data model of the causal graph (\<open>src/memory.rs\<close>, types) that the memory graph, the
  event log and the eviction policies share. A \<open>NodeId\<close> is its string; an \<open>f64\<close> is its
  64-bit pattern and an \<open>f32\<close> its 32-bit pattern.
\<close>

type_synonym f64 = u64
type_synonym f32 = u32
type_synonym node_id = string

datatype node_state = Stable | Working | Orphan

datatype node_type = Module | Symbol | ContextBlock | AnalysisResult | CodeRegion | UnknownType

datatype edge_type = DependsOn | Contains | References | Causes | RelatedTo | Calls | DataFlow
  | Supports | Contradicts

record graph_node =
  n_id :: node_id
  n_label :: string
  n_content :: string
  n_type :: node_type
  n_base_importance :: f64
  n_failure_relevance :: f64
  n_recency :: f64
  n_access_count :: u64
  n_created_at :: nat
  n_last_accessed :: nat
  n_state :: node_state
  n_trust :: f64

record graph_edge =
  e_source :: node_id
  e_target :: node_id
  e_weight :: f64
  e_type :: edge_type
  e_created_at :: nat

text \<open>The order of the node types is that of their declaration, as \<open>derive(PartialOrd)\<close> would
  give it; \<open>node_type_rank\<close> is the discriminant.\<close>

fun node_type_rank :: "node_type \<Rightarrow> nat" where
  "node_type_rank Module = 0"
| "node_type_rank Symbol = 1"
| "node_type_rank ContextBlock = 2"
| "node_type_rank AnalysisResult = 3"
| "node_type_rank CodeRegion = 4"
| "node_type_rank UnknownType = 5"

fun edge_type_rank :: "edge_type \<Rightarrow> nat" where
  "edge_type_rank DependsOn = 0"
| "edge_type_rank Contains = 1"
| "edge_type_rank References = 2"
| "edge_type_rank Causes = 3"
| "edge_type_rank RelatedTo = 4"
| "edge_type_rank Calls = 5"
| "edge_type_rank DataFlow = 6"
| "edge_type_rank Supports = 7"
| "edge_type_rank Contradicts = 8"

lemma edge_type_rank_inj: "edge_type_rank a = edge_type_rank b \<longleftrightarrow> a = b"
  by (cases a; cases b) simp_all

instantiation edge_type :: linorder
begin

definition less_eq_edge_type :: "edge_type \<Rightarrow> edge_type \<Rightarrow> bool" where
  "less_eq_edge_type a b \<longleftrightarrow> edge_type_rank a \<le> edge_type_rank b"

definition less_edge_type :: "edge_type \<Rightarrow> edge_type \<Rightarrow> bool" where
  "less_edge_type a b \<longleftrightarrow> edge_type_rank a < edge_type_rank b"

instance
  by standard (auto simp: less_eq_edge_type_def less_edge_type_def edge_type_rank_inj)

end

end
