(* ===== verification/EventLog.thy ===== *)
theory EventLog
  imports GraphTypes Bytes
begin

text \<open>
  \<open>src/event_log.rs\<close>: the hash-chained event log. SHA-256 (\<open>sha256_hex\<close>) and serde's JSON of
  a payload are code of other crates: they are the arguments \<open>sha\<close> and \<open>json\<close>; the only
  thing used of \<open>sha\<close> is that a digest has 64 characters. The random id and the clock of an
  event are arguments of \<open>append\<close>.
\<close>

datatype event_type =
    LlmCall | LlmResponse | ParsingEvent | GraphMutationEvent | FailureDetectionEvent
  | FailurePropagationEvent | GuardCheckEvent | CycleStart | CycleEnd | ReplayStart | ReplayEnd
  | SnapshotEvent | AgentAction | SelfModify | RegionCreatedEvent | RegionActivatedEvent
  | RegionMergedEvent | RegionEvictedEvent | ContextWindowGeneratedEvent

fun event_type_name :: "event_type \<Rightarrow> string" where
  \<comment> \<open>the derived \<open>Debug\<close> form\<close>
  "event_type_name LlmCall = ''LlmCall''"
| "event_type_name LlmResponse = ''LlmResponse''"
| "event_type_name ParsingEvent = ''Parsing''"
| "event_type_name GraphMutationEvent = ''GraphMutation''"
| "event_type_name FailureDetectionEvent = ''FailureDetection''"
| "event_type_name FailurePropagationEvent = ''FailurePropagation''"
| "event_type_name GuardCheckEvent = ''GuardCheck''"
| "event_type_name CycleStart = ''CycleStart''"
| "event_type_name CycleEnd = ''CycleEnd''"
| "event_type_name ReplayStart = ''ReplayStart''"
| "event_type_name ReplayEnd = ''ReplayEnd''"
| "event_type_name SnapshotEvent = ''Snapshot''"
| "event_type_name AgentAction = ''AgentAction''"
| "event_type_name SelfModify = ''SelfModify''"
| "event_type_name RegionCreatedEvent = ''RegionCreated''"
| "event_type_name RegionActivatedEvent = ''RegionActivated''"
| "event_type_name RegionMergedEvent = ''RegionMerged''"
| "event_type_name RegionEvictedEvent = ''RegionEvicted''"
| "event_type_name ContextWindowGeneratedEvent = ''ContextWindowGenerated''"

datatype event_payload =
    LlmCallRequest (model: string) (prompt_hash: string) (input_tokens: nat)
  | LlmCallResponse (model: string) (response_hash: string) (output_tokens: nat) (latency_ms: nat)
      (guard_passed: bool) (reliability_score: f64)
  | Parsing (file_path: string) (file_hash: string) (modules_found: nat) (uses_found: nat) (symbols_found: nat)
  | GraphMutation (mut_node_id: string) (operation: string) (nodes_before: nat) (nodes_after: nat)
      (edges_before: nat) (edges_after: nat)
  | FailureDetection (fail_node_id: string) (failure_type: string) (severity: f64)
  | FailurePropagation (origin_node_id: string) (affected_nodes: "string list") (depth: nat)
  | GuardCheck (input_hash: string) (passed: bool) (guard_score: f64) (warnings: "string list")
  | CycleEvent (cycle_number: nat) (action: string)
  | ReplayEvent (original_event_id: string) (replayed_at: nat)
  | Snapshot (nodes_count: nat) (edges_count: nat) (snapshot_events: nat)
  | NodeUpserted (up_id: string) (up_label: string) (up_content: string) (up_type: node_type)
  | EdgeAdded (edge_source: string) (edge_target: string) (edge_weight: f64) (edge_kind: edge_type)
  | RegionCreated (region_id: string) (center: string) (member_count: nat) (temperature: f32)
      (causal_density: f32)
  | RegionActivated (region_id: string) (tick_at: nat) (temperature: f32) (activation_count: nat)
      (reason: string)
  | RegionMerged (into_region: string) (from_region: string) (member_count: nat)
  | RegionEvicted (region_id: string) (temperature: f32) (reason: string)
  | ContextWindowGenerated (region_id: string) (file_count: nat) (tokens_estimated: nat)
      (region_score: f32) (reason: string)
  | Custom (custom_key: string) (custom_value: string)
  | RsiMutation (variant_id: string) (parent_id: string) (patch_target: string) (patch_find_hash: string)
      (patch_replace_hash: string) (compiles: bool) (tests_passed: nat) (tests_failed: nat)
      (rsi_score: f64) (accepted: bool) (promoted: bool)

record trace_event =
  ev_id :: string
  ev_timestamp :: nat
  ev_type :: event_type
  ev_payload :: event_payload
  ev_seq :: nat
  ev_prev_hash :: string
  ev_hash :: string

record event_log =
  session_id :: string
  events :: "trace_event list"

record log_integrity =
  li_valid :: bool
  li_verified :: nat
  li_errors :: "string list"

definition log_new :: "string \<Rightarrow> event_log" where
  "log_new session = \<lparr>session_id = session, events = []\<rparr>"

definition GENESIS_HASH :: string where "GENESIS_HASH = ''GENESIS''"

definition link_hash ::
  "(string \<Rightarrow> string) \<Rightarrow> (event_payload \<Rightarrow> string) \<Rightarrow> string \<Rightarrow> nat \<Rightarrow> event_type \<Rightarrow> event_payload \<Rightarrow> string" where
  "link_hash sha json prev_hash seq ty payload =
     sha (prev_hash @ ''|'' @ dec_digits seq @ ''|'' @ event_type_name ty @ ''|'' @ json payload)"

definition chain_head :: "event_log \<Rightarrow> string" where
  "chain_head log = (if events log = [] then GENESIS_HASH else ev_hash (last (events log)))"

definition log_append ::
  "(string \<Rightarrow> string) \<Rightarrow> (event_payload \<Rightarrow> string) \<Rightarrow> string \<Rightarrow> nat \<Rightarrow> event_type \<Rightarrow> event_payload \<Rightarrow>
     event_log \<Rightarrow> string \<times> event_log" where
  "log_append sha json uuid now ty payload log =
     (let seq = length (events log);
          prev_hash = chain_head log;
          hash = link_hash sha json prev_hash seq ty payload;
          event = \<lparr>ev_id = uuid, ev_timestamp = now, ev_type = ty, ev_payload = payload,
                   ev_seq = seq, ev_prev_hash = prev_hash, ev_hash = hash\<rparr>
      in (uuid, log\<lparr>events := events log @ [event]\<rparr>))"

definition em_dash :: string where
  "em_dash = [CHR 0xE2, CHR 0x80, CHR 0x94]"

definition link_error :: "nat \<Rightarrow> trace_event \<Rightarrow> string" where
  "link_error i e = ''event '' @ dec_digits i @ '' (seq '' @ dec_digits (ev_seq e)
     @ ''): broken link '' @ em_dash @ '' prev_hash does not match the chain''"

definition content_error :: "nat \<Rightarrow> trace_event \<Rightarrow> string" where
  "content_error i e = ''event '' @ dec_digits i @ '' (seq '' @ dec_digits (ev_seq e)
     @ ''): content tampered '' @ em_dash @ '' hash mismatch''"

fun verify_loop ::
  "(string \<Rightarrow> string) \<Rightarrow> (event_payload \<Rightarrow> string) \<Rightarrow> nat \<Rightarrow> string \<Rightarrow> trace_event list \<Rightarrow>
     nat \<times> string list \<Rightarrow> nat \<times> string list" where
  "verify_loop sha json i prev [] acc = acc"
| "verify_loop sha json i prev (e # es) (verified, errors) =
     (let errors1 = (if ev_prev_hash e \<noteq> prev then errors @ [link_error i e] else errors);
          expected = link_hash sha json prev (ev_seq e) (ev_type e) (ev_payload e);
          acc = (if ev_hash e = expected then (verified + 1, errors1)
                 else (verified, errors1 @ [content_error i e]))
      in verify_loop sha json (i + 1) (ev_hash e) es acc)"

definition verify_integrity ::
  "(string \<Rightarrow> string) \<Rightarrow> (event_payload \<Rightarrow> string) \<Rightarrow> event_log \<Rightarrow> log_integrity" where
  "verify_integrity sha json log =
     (let (verified, errors) = verify_loop sha json 0 GENESIS_HASH (events log) (0, [])
      in \<lparr>li_valid = (errors = []), li_verified = verified, li_errors = errors\<rparr>)"

definition replay_events :: "nat \<Rightarrow> nat option \<Rightarrow> event_log \<Rightarrow> trace_event list" where
  "replay_events from_seq to_seq log =
     (let fin = (case to_seq of None \<Rightarrow> length (events log) | Some t \<Rightarrow> t)
      in filter (\<lambda>e. from_seq \<le> ev_seq e \<and> ev_seq e < fin) (events log))"

definition get_event_by_id :: "string \<Rightarrow> event_log \<Rightarrow> trace_event option" where
  "get_event_by_id i log = List.find (\<lambda>e. ev_id e = i) (events log)"

definition events_by_type :: "event_type \<Rightarrow> event_log \<Rightarrow> trace_event list" where
  "events_by_type ty log = filter (\<lambda>e. ev_type e = ty) (events log)"

definition log_clear :: "event_log \<Rightarrow> event_log" where
  "log_clear log = log\<lparr>events := []\<rparr>"

subsection \<open>Replay\<close>

fun replay_deterministic :: "(trace_event \<Rightarrow> 's \<Rightarrow> string + 's) \<Rightarrow> trace_event list \<Rightarrow> nat \<times> 's \<Rightarrow> string + (nat \<times> 's)" where
  \<comment> \<open>the handler's \<open>&mut self\<close> is the state \<open>'s\<close>\<close>
  "replay_deterministic h [] acc = Inr acc"
| "replay_deterministic h (e # es) (processed, s) =
     bindr (h e s) (\<lambda>s'. replay_deterministic h es (processed + 1, s'))"

record replay_statistics =
  rs_total_events :: nat
  rs_llm_calls :: nat
  rs_parsing_events :: nat
  rs_graph_mutations :: nat
  rs_failures :: nat
  rs_guard_checks :: nat
  rs_cycles :: nat
  rs_regions_created :: nat
  rs_regions_activated :: nat
  rs_context_windows :: nat
  rs_rsi_mutations :: nat

definition stats_default :: replay_statistics where
  "stats_default = \<lparr>rs_total_events = 0, rs_llm_calls = 0, rs_parsing_events = 0, rs_graph_mutations = 0,
     rs_failures = 0, rs_guard_checks = 0, rs_cycles = 0, rs_regions_created = 0,
     rs_regions_activated = 0, rs_context_windows = 0, rs_rsi_mutations = 0\<rparr>"

definition stats_event :: "trace_event \<Rightarrow> replay_statistics \<Rightarrow> string + replay_statistics" where
  "stats_event e s0 =
     (let s = s0\<lparr>rs_total_events := rs_total_events s0 + 1\<rparr> in
      Inr (case ev_payload e of
          LlmCallRequest _ _ _ \<Rightarrow> s\<lparr>rs_llm_calls := rs_llm_calls s + 1\<rparr>
        | LlmCallResponse _ _ _ _ _ _ \<Rightarrow> s\<lparr>rs_llm_calls := rs_llm_calls s + 1\<rparr>
        | Parsing _ _ _ _ _ \<Rightarrow> s\<lparr>rs_parsing_events := rs_parsing_events s + 1\<rparr>
        | GraphMutation _ _ _ _ _ _ \<Rightarrow> s\<lparr>rs_graph_mutations := rs_graph_mutations s + 1\<rparr>
        | NodeUpserted _ _ _ _ \<Rightarrow> s\<lparr>rs_graph_mutations := rs_graph_mutations s + 1\<rparr>
        | EdgeAdded _ _ _ _ \<Rightarrow> s\<lparr>rs_graph_mutations := rs_graph_mutations s + 1\<rparr>
        | FailureDetection _ _ _ \<Rightarrow> s\<lparr>rs_failures := rs_failures s + 1\<rparr>
        | FailurePropagation _ _ _ \<Rightarrow> s\<lparr>rs_failures := rs_failures s + 1\<rparr>
        | GuardCheck _ _ _ _ \<Rightarrow> s\<lparr>rs_guard_checks := rs_guard_checks s + 1\<rparr>
        | CycleEvent _ _ \<Rightarrow> s\<lparr>rs_cycles := rs_cycles s + 1\<rparr>
        | RegionCreated _ _ _ _ _ \<Rightarrow> s\<lparr>rs_regions_created := rs_regions_created s + 1\<rparr>
        | RegionActivated _ _ _ _ _ \<Rightarrow> s\<lparr>rs_regions_activated := rs_regions_activated s + 1\<rparr>
        | ContextWindowGenerated _ _ _ _ _ \<Rightarrow> s\<lparr>rs_context_windows := rs_context_windows s + 1\<rparr>
        | RsiMutation _ _ _ _ _ _ _ _ _ _ _ \<Rightarrow> s\<lparr>rs_rsi_mutations := rs_rsi_mutations s + 1\<rparr>
        | _ \<Rightarrow> s))"

subsection \<open>The chain\<close>

fun chain_ok :: "(string \<Rightarrow> string) \<Rightarrow> (event_payload \<Rightarrow> string) \<Rightarrow> string \<Rightarrow> trace_event list \<Rightarrow> bool" where
  "chain_ok sha json prev [] \<longleftrightarrow> True"
| "chain_ok sha json prev (e # es) \<longleftrightarrow> ev_prev_hash e = prev
     \<and> ev_hash e = link_hash sha json prev (ev_seq e) (ev_type e) (ev_payload e)
     \<and> chain_ok sha json (ev_hash e) es"

lemma verify_loop_acc:
  "\<exists>v errs. verify_loop sha json i prev es (verified, errors) = (verified + v, errors @ errs)
     \<and> v \<le> length es \<and> (errs = [] \<longleftrightarrow> chain_ok sha json prev es) \<and> (errs = [] \<longrightarrow> v = length es)"
proof (induction es arbitrary: i prev verified errors)
  case Nil
  then show ?case by simp
next
  case (Cons e es)
  let ?exp = "link_hash sha json prev (ev_seq e) (ev_type e) (ev_payload e)"
  define es1 where "es1 = (if ev_prev_hash e \<noteq> prev then [link_error i e] else [])"
  define es2 where "es2 = (if ev_hash e = ?exp then [] else [content_error i e])"
  define v1 :: nat where "v1 = (if ev_hash e = ?exp then 1 else 0)"
  obtain v errs where IH: "verify_loop sha json (i + 1) (ev_hash e) es (verified + v1, errors @ es1 @ es2)
      = (verified + v1 + v, (errors @ es1 @ es2) @ errs)" "v \<le> length es"
    "errs = [] \<longleftrightarrow> chain_ok sha json (ev_hash e) es" "errs = [] \<longrightarrow> v = length es"
    using Cons.IH by blast
  have "verify_loop sha json i prev (e # es) (verified, errors)
      = verify_loop sha json (i + 1) (ev_hash e) es (verified + v1, errors @ es1 @ es2)"
    by (simp add: es1_def es2_def v1_def Let_def)
  with IH show ?case
    by (intro exI [of _ "v1 + v"] exI [of _ "es1 @ es2 @ errs"])
      (auto simp: es1_def es2_def v1_def)
qed

lemma verify_valid_iff: "li_valid (verify_integrity sha json log) \<longleftrightarrow> chain_ok sha json GENESIS_HASH (events log)"
proof -
  obtain v errs where "verify_loop sha json 0 GENESIS_HASH (events log) (0, []) = (0 + v, [] @ errs)"
    "errs = [] \<longleftrightarrow> chain_ok sha json GENESIS_HASH (events log)"
    using verify_loop_acc by blast
  then show ?thesis by (simp add: verify_integrity_def)
qed

lemma verify_verified: 
  "li_valid (verify_integrity sha json log) \<Longrightarrow> li_verified (verify_integrity sha json log) = length (events log)"
proof -
  obtain v errs where "verify_loop sha json 0 GENESIS_HASH (events log) (0, []) = (0 + v, [] @ errs)"
    "errs = [] \<longrightarrow> v = length (events log)"
    using verify_loop_acc by blast
  then show "li_valid (verify_integrity sha json log) \<Longrightarrow> ?thesis" by (simp add: verify_integrity_def)
qed

definition head_of :: "string \<Rightarrow> trace_event list \<Rightarrow> string" where
  "head_of prev es = (if es = [] then prev else ev_hash (last es))"

lemma head_of_Cons [simp]: "head_of prev (e # es) = head_of (ev_hash e) es"
  by (simp add: head_of_def)

lemma head_of_Nil [simp]: "head_of prev [] = prev"
  by (simp add: head_of_def)

lemma chain_head_eq: "chain_head log = head_of GENESIS_HASH (events log)"
  by (simp add: chain_head_def head_of_def)

lemma chain_ok_append:
  "chain_ok sha json prev (xs @ ys) \<longleftrightarrow> chain_ok sha json prev xs \<and> chain_ok sha json (head_of prev xs) ys"
  by (induction xs arbitrary: prev) simp_all

text \<open>The states a log passes through in a run.\<close>

inductive log_run :: "(string \<Rightarrow> string) \<Rightarrow> (event_payload \<Rightarrow> string) \<Rightarrow> event_log \<Rightarrow> bool"
  for sha json where
  created: "log_run sha json (log_new session)"
| appended: "log_run sha json log \<Longrightarrow> log_run sha json (snd (log_append sha json uuid now ty payload log))"
| cleared: "log_run sha json log \<Longrightarrow> log_run sha json (log_clear log)"

lemma log_run_chain:
  "log_run sha json log \<Longrightarrow> chain_ok sha json GENESIS_HASH (events log)
     \<and> map ev_seq (events log) = [0 ..< length (events log)]"
proof (induction rule: log_run.induct)
  case (appended log uuid now ty payload)
  then show ?case
    by (simp add: log_append_def Let_def chain_ok_append chain_head_eq)
qed (simp_all add: log_new_def log_clear_def)

text \<open>
  A log that was only written through its own operations verifies: no error is reported,
  every event counts as verified, and sequence numbers are the positions.
\<close>

theorem log_run_verifies:
  assumes "log_run sha json log"
  shows "verify_integrity sha json log
      = \<lparr>li_valid = True, li_verified = length (events log), li_errors = []\<rparr>
    \<and> map ev_seq (events log) = [0 ..< length (events log)]"
proof -
  note run = log_run_chain [OF assms]
  then have valid: "li_valid (verify_integrity sha json log)" by (simp add: verify_valid_iff)
  from verify_verified [OF this] valid have "verify_integrity sha json log
      = \<lparr>li_valid = True, li_verified = length (events log), li_errors = []\<rparr>"
    by (auto simp: verify_integrity_def split: prod.splits)
  with run show ?thesis by simp
qed

text \<open>What the chain commits to: position, type and serialised payload of every event.\<close>

definition event_content :: "(event_payload \<Rightarrow> string) \<Rightarrow> trace_event \<Rightarrow> nat \<times> event_type \<times> string" where
  "event_content json e = (ev_seq e, ev_type e, json (ev_payload e))"

definition collision :: "('a \<Rightarrow> 'b) \<Rightarrow> bool" where
  "collision f \<longleftrightarrow> (\<exists>x y. x \<noteq> y \<and> f x = f y)"

lemma event_type_name_no_bar: "CHR ''|'' \<notin> set (event_type_name ty)"
  by (cases ty) simp_all

lemma event_type_name_inj: "event_type_name a = event_type_name b \<Longrightarrow> a = b"
  by (cases a; cases b) simp_all

lemma dec_digits_no_bar: "CHR ''|'' \<notin> set (dec_digits n)"
  using dec_digits_digit by (fastforce simp: is_digit_def)

lemma split_at_sep:
  assumes "a @ s # b = a' @ s # b'" "s \<notin> set a" "s \<notin> set a'"
  shows "a = a' \<and> b = b'"
  using assms
proof (induction a arbitrary: a')
  case Nil
  then show ?case by (cases a') auto
next
  case (Cons x a)
  then obtain y ys where "a' = y # ys" by (cases a') auto
  with Cons show ?case by auto
qed

definition hex_digest :: "('a \<Rightarrow> string) \<Rightarrow> bool" where
  \<comment> \<open>what is used of SHA-256 printed in hexadecimal: 64 lower-case hex digits\<close>
  "hex_digest sha \<longleftrightarrow> (\<forall>x. length (sha x) = 64 \<and> list_all is_lower_hex (sha x))"

lemma hex_digest_no_bar: "hex_digest sha \<Longrightarrow> CHR ''|'' \<notin> set (sha x)"
  by (auto simp: hex_digest_def list_all_iff is_lower_hex_def dest!: spec [of _ x])

lemma hex_digest_not_genesis: "hex_digest sha \<Longrightarrow> sha x \<noteq> GENESIS_HASH"
proof
  assume "hex_digest sha" "sha x = GENESIS_HASH"
  then have "length GENESIS_HASH = 64" unfolding hex_digest_def by metis
  then show False by (simp add: GENESIS_HASH_def)
qed

lemma link_hash_inj:
  assumes "\<not> collision sha" "CHR ''|'' \<notin> set p" "CHR ''|'' \<notin> set p'"
    and "link_hash sha json p s t x = link_hash sha json p' s' t' x'"
  shows "p = p' \<and> s = s' \<and> t = t' \<and> json x = json x'"
proof -
  have "p @ ''|'' @ dec_digits s @ ''|'' @ event_type_name t @ ''|'' @ json x
      = p' @ ''|'' @ dec_digits s' @ ''|'' @ event_type_name t' @ ''|'' @ json x'"
    using assms(1,4) unfolding collision_def link_hash_def by blast
  then have r0: "p @ CHR ''|'' # (dec_digits s @ CHR ''|'' # (event_type_name t @ CHR ''|'' # json x))
      = p' @ CHR ''|'' # (dec_digits s' @ CHR ''|'' # (event_type_name t' @ CHR ''|'' # json x'))"
    by simp
  from split_at_sep [OF r0 assms(2,3)]
  have p: "p = p'" and r: "dec_digits s @ CHR ''|'' # (event_type_name t @ CHR ''|'' # json x)
      = dec_digits s' @ CHR ''|'' # (event_type_name t' @ CHR ''|'' # json x')"
    by simp_all
  from split_at_sep [OF r dec_digits_no_bar dec_digits_no_bar]
  have "s = s'" and r2: "event_type_name t @ CHR ''|'' # json x = event_type_name t' @ CHR ''|'' # json x'"
    by (auto dest: dec_digits_inj)
  from split_at_sep [OF r2 event_type_name_no_bar event_type_name_no_bar]
  have "t = t'" "json x = json x'" by (auto dest: event_type_name_inj)
  with p \<open>s = s'\<close> show ?thesis by simp
qed

lemma chain_last:
  assumes "chain_ok sha json GENESIS_HASH (es @ [e])"
  shows "chain_ok sha json GENESIS_HASH es"
    "head_of GENESIS_HASH (es @ [e]) = link_hash sha json (head_of GENESIS_HASH es) (ev_seq e) (ev_type e) (ev_payload e)"
  using assms by (simp_all add: chain_ok_append head_of_def)

lemma head_no_bar:
  assumes "hex_digest sha" "chain_ok sha json GENESIS_HASH es"
  shows "CHR ''|'' \<notin> set (head_of GENESIS_HASH es)"
proof (cases es rule: rev_cases)
  case Nil
  then show ?thesis by (simp add: GENESIS_HASH_def)
next
  case (snoc ys y)
  then show ?thesis
    using chain_last(2) [of sha json ys y] assms hex_digest_no_bar [OF assms(1)] by (simp add: link_hash_def)
qed

lemma head_genesis:
  assumes "hex_digest sha" "chain_ok sha json GENESIS_HASH es" "head_of GENESIS_HASH es = GENESIS_HASH"
  shows "es = []"
proof (cases es rule: rev_cases)
  case (snoc ys y)
  then show ?thesis
    using chain_last(2) [of sha json ys y] assms hex_digest_not_genesis [OF assms(1)] by (simp add: link_hash_def)
qed simp

lemma chain_heads_determine:
  assumes nc: "\<not> collision sha" and hex: "hex_digest sha"
  shows "chain_ok sha json GENESIS_HASH es \<Longrightarrow> chain_ok sha json GENESIS_HASH fs \<Longrightarrow>
    head_of GENESIS_HASH es = head_of GENESIS_HASH fs \<Longrightarrow>
    map (event_content json) es = map (event_content json) fs"
proof (induction es arbitrary: fs rule: rev_induct)
  case Nil
  then show ?case using head_genesis [OF hex, of json fs] by simp
next
  case (snoc e es)
  note e = chain_last [OF snoc.prems(1)]
  show ?case
  proof (cases fs rule: rev_cases)
    case Nil
    with snoc.prems(3) have "es @ [e] = []" by (intro head_genesis [OF hex snoc.prems(1)]) simp
    then show ?thesis by simp
  next
    case f: (snoc gs f)
    note f' = chain_last [OF snoc.prems(2) [unfolded f]]
    have "link_hash sha json (head_of GENESIS_HASH es) (ev_seq e) (ev_type e) (ev_payload e)
        = link_hash sha json (head_of GENESIS_HASH gs) (ev_seq f) (ev_type f) (ev_payload f)"
      using snoc.prems(3) e(2) f'(2) f by simp
    from link_hash_inj [OF nc head_no_bar [OF hex e(1)] head_no_bar [OF hex f'(1)] this]
    have "head_of GENESIS_HASH es = head_of GENESIS_HASH gs" "event_content json e = event_content json f"
      by (simp_all add: event_content_def)
    with snoc.IH [OF e(1) f'(1)] f show ?thesis by simp
  qed
qed

text \<open>
  The chain head commits to the whole log: two logs that both verify and have the same head
  hold the same events at the same positions (type, sequence number and serialised payload),
  or a SHA-256 collision is in hand. A modified, reordered, inserted or dropped event thus
  shows against a head kept elsewhere.
\<close>

theorem chain_head_commits:
  assumes "hex_digest sha"
    and "li_valid (verify_integrity sha json a)" "li_valid (verify_integrity sha json b)"
    and "chain_head a = chain_head b"
  shows "collision sha \<or> map (event_content json) (events a) = map (event_content json) (events b)"
  using chain_heads_determine [OF _ assms(1), of json "events a" "events b"] assms(2-4)
  by (auto simp: verify_valid_iff chain_head_eq)

definition log_record :: "(string \<Rightarrow> string) \<Rightarrow> (event_payload \<Rightarrow> string) \<Rightarrow>
    (string \<times> nat \<times> event_type \<times> event_payload) list \<Rightarrow> event_log \<Rightarrow> event_log" where
  "log_record sha json steps log =
     fold (\<lambda>(uuid, now, ty, payload) l. snd (log_append sha json uuid now ty payload l)) steps log"

text \<open>
  The chain is reproducible: two runs that record the same types and payloads in the same
  order have the same head, whatever ids and clocks they drew.
\<close>

theorem chain_reproducible:
  assumes "map (\<lambda>x. snd (snd x)) xs = map (\<lambda>x. snd (snd x)) ys"
  shows "chain_head (log_record sha json xs (log_new s)) = chain_head (log_record sha json ys (log_new t))"
proof -
  have "length (events (log_record sha json xs l)) = length (events (log_record sha json ys m))
      \<and> chain_head (log_record sha json xs l) = chain_head (log_record sha json ys m)"
    if "map (\<lambda>x. snd (snd x)) xs = map (\<lambda>x. snd (snd x)) ys"
      "length (events l) = length (events m)" "chain_head l = chain_head m" for xs ys l m
    using that
  proof (induction xs arbitrary: ys l m)
    case Nil
    then show ?case by (simp add: log_record_def)
  next
    case (Cons x xs)
    obtain u n ty p where x: "x = (u, n, ty, p)" by (cases x)
    from Cons.prems(1) x obtain u' n' ys' where ys: "ys = (u', n', ty, p) # ys'"
      "map (\<lambda>x. snd (snd x)) xs = map (\<lambda>x. snd (snd x)) ys'"
      by (cases ys) auto
    from Cons.prems(2,3) show ?case
      using Cons.IH [OF ys(2), of "snd (log_append sha json u n ty p l)" "snd (log_append sha json u' n' ty p m)"]
      by (simp add: x ys(1) log_record_def log_append_def chain_head_def Let_def)
  qed
  from this [OF assms] show ?thesis by (simp add: log_new_def chain_head_def)
qed

text \<open>
  Dropping events from the end goes unnoticed: every prefix of a log that verifies
  verifies too, although the documentation of \<open>verify_integrity\<close> says that a dropped event
  breaks the chain.
\<close>

theorem truncation_undetected:
  assumes "li_valid (verify_integrity sha json log)"
  shows "li_valid (verify_integrity sha json (log\<lparr>events := take n (events log)\<rparr>))"
proof -
  have "chain_ok sha json GENESIS_HASH (take n (events log) @ drop n (events log))"
    using assms by (simp add: verify_valid_iff)
  then show ?thesis by (simp only: chain_ok_append verify_valid_iff event_log.simps event_log.select_convs) simp
qed

text \<open>In a log written through its own operations a replay range is that slice of it.\<close>

theorem replay_range:
  assumes "log_run sha json log"
  shows "replay_events from_seq (Some to_seq) log = take (to_seq - from_seq) (drop from_seq (events log))"
proof -
  have "filter (\<lambda>e. from_seq \<le> ev_seq e \<and> ev_seq e < to_seq) es
      = take (to_seq - max from_seq k) (drop (from_seq - k) es)"
    if "map ev_seq es = [k ..< k + length es]" for es k
    using that
  proof (induction es arbitrary: k)
    case (Cons e es)
    have e: "ev_seq e = k" "map ev_seq es = [Suc k ..< Suc k + length es]"
      using Cons.prems by (simp_all add: upt_rec)
    note IH = Cons.IH [OF e(2)]
    show ?case
    proof (cases "from_seq \<le> k")
      case True
      then show ?thesis using IH e(1) by (cases "to_seq - k") (auto simp: max_def diff_Suc split: nat.splits)
    next
      case False
      then have "from_seq - k = Suc (from_seq - Suc k)" by simp
      then show ?thesis using IH e(1) False by (cases "from_seq = Suc k") (auto simp: max_def)
    qed
  qed simp
  from this [of "events log" 0] log_run_chain [OF assms] show ?thesis
    by (simp add: replay_events_def Let_def)
qed

subsection \<open>Statistics\<close>

definition counts :: "replay_statistics \<Rightarrow> nat" where
  "counts s = rs_llm_calls s + rs_parsing_events s + rs_graph_mutations s + rs_failures s
     + rs_guard_checks s + rs_cycles s + rs_regions_created s + rs_regions_activated s
     + rs_context_windows s + rs_rsi_mutations s"

text \<open>Replaying for statistics never fails and counts every event exactly once in the
  total; each kind counter is the number of events of that kind.\<close>

theorem stats_replay_total:
  "\<exists>s. replay_deterministic stats_event es (0, stats_default) = Inr (length es, s)
    \<and> rs_total_events s = length es \<and> counts s \<le> length es
    \<and> rs_graph_mutations s = length (filter (\<lambda>e. case ev_payload e of
          GraphMutation _ _ _ _ _ _ \<Rightarrow> True | NodeUpserted _ _ _ _ \<Rightarrow> True | EdgeAdded _ _ _ _ \<Rightarrow> True
        | _ \<Rightarrow> False) es)"
proof -
  let ?mut = "\<lambda>e. case ev_payload e of
          GraphMutation _ _ _ _ _ _ \<Rightarrow> True | NodeUpserted _ _ _ _ \<Rightarrow> True | EdgeAdded _ _ _ _ \<Rightarrow> True
        | _ \<Rightarrow> False"
  have one: "\<exists>s'. stats_event e s = Inr s' \<and> rs_total_events s' = Suc (rs_total_events s)
      \<and> counts s' \<le> Suc (counts s)
      \<and> rs_graph_mutations s' = rs_graph_mutations s + (if ?mut e then 1 else 0)" for e s
    by (cases "ev_payload e") (simp_all add: stats_event_def counts_def Let_def)
  have "\<exists>s'. replay_deterministic stats_event es (n, s) = Inr (n + length es, s')
      \<and> rs_total_events s' = rs_total_events s + length es \<and> counts s' \<le> counts s + length es
      \<and> rs_graph_mutations s' = rs_graph_mutations s + length (filter ?mut es)" for n s
  proof (induction es arbitrary: n s)
    case (Cons e es)
    obtain s1 where s1: "stats_event e s = Inr s1" "rs_total_events s1 = Suc (rs_total_events s)"
      "counts s1 \<le> Suc (counts s)" "rs_graph_mutations s1 = rs_graph_mutations s + (if ?mut e then 1 else 0)"
      using one by blast
    from Cons.IH [of "n + 1" s1] obtain s2 where
      "replay_deterministic stats_event es (n + 1, s1) = Inr (n + 1 + length es, s2)"
      "rs_total_events s2 = rs_total_events s1 + length es" "counts s2 \<le> counts s1 + length es"
      "rs_graph_mutations s2 = rs_graph_mutations s1 + length (filter ?mut es)" by blast
    with s1 show ?case by (intro exI [of _ s2]) (simp split: if_splits)
  qed simp
  from this [of 0 stats_default] show ?thesis by (simp add: stats_default_def counts_def)
qed

subsection \<open>Concrete instances\<close>

definition toy_sha :: "string \<Rightarrow> string" where
  "toy_sha s = replicate 64 (CHR ''a'')"

definition toy_json :: "event_payload \<Rightarrow> string" where
  "toy_json p = (case p of Custom k v \<Rightarrow> k | _ \<Rightarrow> [])"

definition toy_log :: event_log where
  "toy_log = log_record toy_sha toy_json
     [(''u1'', 5, CycleStart, Custom ''a'' ''x''), (''u2'', 6, CycleEnd, Custom ''b'' ''y'')] (log_new ''s'')"

lemma toy_log_run: "log_run toy_sha toy_json toy_log"
  unfolding toy_log_def log_record_def by (simp del: snd_conv) (intro log_run.intros)

lemma toy_hex: "hex_digest toy_sha"
  by (simp add: hex_digest_def toy_sha_def is_lower_hex_def list_all_iff)

lemma log_run_verifies_witness: "li_verified (verify_integrity toy_sha toy_json toy_log) = length (events toy_log)"
  using log_run_verifies [OF toy_log_run] by simp

lemma toy_valid: "li_valid (verify_integrity toy_sha toy_json toy_log)"
  using log_run_chain [OF toy_log_run] by (simp add: verify_valid_iff)

lemma chain_head_commits_witness:
  "collision toy_sha \<or> map (event_content toy_json) (events toy_log) = map (event_content toy_json) (events toy_log)"
  by (rule chain_head_commits [OF toy_hex toy_valid toy_valid refl])

lemma chain_reproducible_witness:
  "chain_head toy_log = chain_head (log_record toy_sha toy_json
     [(''v1'', 9, CycleStart, Custom ''a'' ''x''), (''v2'', 9, CycleEnd, Custom ''b'' ''y'')] (log_new ''t''))"
  unfolding toy_log_def by (rule chain_reproducible) simp

lemma truncation_undetected_witness:
  "li_valid (verify_integrity toy_sha toy_json (toy_log\<lparr>events := take 1 (events toy_log)\<rparr>))"
  by (rule truncation_undetected [OF toy_valid])

lemma replay_range_witness:
  "replay_events 1 (Some 2) toy_log = take 1 (drop 1 (events toy_log))"
  using replay_range [OF toy_log_run, of 1 2] by simp

end
