(* ===== verification/DistLog.thy ===== *)
theory DistLog
  imports EventLog
begin

text \<open>
  \<open>src/distributed_event_log.rs\<close>: the second hash-chained log, whose links live in a list of
  their own beside the events. SHA-256 in lower-case hexadecimal is the argument \<open>sha\<close>.
\<close>

record dist_event =
  de_id :: nat
  de_payload :: string
  de_timestamp :: nat
  de_source :: string

record chain_link =
  cl_event_id :: nat
  cl_hash :: string
  cl_previous :: string

record dist_log =
  dl_events :: "dist_event list"
  dl_chain :: "chain_link list"
  dl_next_id :: nat

record integrity_report =
  ir_valid :: bool
  ir_total :: nat
  ir_verified :: nat
  ir_errors :: "string list"

definition dist_new :: dist_log where
  "dist_new = \<lparr>dl_events = [], dl_chain = [], dl_next_id = 0\<rparr>"

definition compute_link_hash :: "(bytes \<Rightarrow> string) \<Rightarrow> nat \<Rightarrow> string \<Rightarrow> string \<Rightarrow> string" where
  "compute_link_hash sha i payload previous =
     sha (le_bytes 8 i @ bytes_of payload @ bytes_of previous)"

definition dist_append :: "(bytes \<Rightarrow> string) \<Rightarrow> nat \<Rightarrow> string \<Rightarrow> string \<Rightarrow> dist_log \<Rightarrow> nat \<times> dist_log" where
  "dist_append sha now payload source log =
     (let i = dl_next_id log;
          event = \<lparr>de_id = i, de_payload = payload, de_timestamp = now, de_source = source\<rparr>;
          previous = (if dl_chain log = [] then ''GENESIS'' else cl_hash (last (dl_chain log)));
          hash = compute_link_hash sha i payload previous;
          link = \<lparr>cl_event_id = i, cl_hash = hash, cl_previous = previous\<rparr>
      in (i, log\<lparr>dl_next_id := i + 1, dl_chain := dl_chain log @ [link], dl_events := dl_events log @ [event]\<rparr>))"

definition missing_error :: "nat \<Rightarrow> chain_link \<Rightarrow> string" where
  "missing_error i l = ''Event index '' @ dec_digits i @ '' not found for hash chain link '' @ dec_digits (cl_event_id l)"

definition broken_error :: "chain_link \<Rightarrow> string \<Rightarrow> string" where
  "broken_error l expected = ''Chain broken at event '' @ dec_digits (cl_event_id l)
     @ '': expected prev_hash '' @ expected @ '', got '' @ cl_previous l"

definition mismatch_error :: "chain_link \<Rightarrow> string \<Rightarrow> string" where
  "mismatch_error l recomputed = ''Hash mismatch at event '' @ dec_digits (cl_event_id l)
     @ '': stored '' @ cl_hash l @ '', computed '' @ recomputed"

definition check_link :: "(bytes \<Rightarrow> string) \<Rightarrow> dist_log \<Rightarrow> nat \<Rightarrow> nat \<times> string list \<Rightarrow> nat \<times> string list" where
  \<comment> \<open>the body of the loop over \<open>hash_chain.iter().enumerate()\<close>\<close>
  "check_link sha log i acc =
     (let (verified, errors) = acc; link = dl_chain log ! i in
        if length (dl_events log) \<le> i then (verified, errors @ [missing_error i link])
        else let event = dl_events log ! i;
                 expected = (if i = 0 then ''GENESIS'' else cl_hash (dl_chain log ! (i - 1)));
                 errors1 = (if cl_previous link \<noteq> expected then errors @ [broken_error link expected] else errors);
                 recomputed = compute_link_hash sha (de_id event) (de_payload event) (cl_previous link);
                 errors2 = (if recomputed \<noteq> cl_hash link then errors1 @ [mismatch_error link recomputed] else errors1)
             in (verified + 1, errors2))"

definition dist_verify :: "(bytes \<Rightarrow> string) \<Rightarrow> dist_log \<Rightarrow> integrity_report" where
  "dist_verify sha log =
     (if dl_chain log = [] then \<lparr>ir_valid = True, ir_total = 0, ir_verified = 0, ir_errors = []\<rparr>
      else let (verified, errors) = fold (check_link sha log) [0 ..< length (dl_chain log)] (0, [])
           in \<lparr>ir_valid = (errors = []), ir_total = length (dl_events log), ir_verified = verified, ir_errors = errors\<rparr>)"

definition dist_replay :: "dist_log \<Rightarrow> dist_event list" where
  "dist_replay log = dl_events log"

subsection \<open>What a valid report means\<close>

definition link_ok :: "(bytes \<Rightarrow> string) \<Rightarrow> dist_log \<Rightarrow> nat \<Rightarrow> bool" where
  "link_ok sha log i \<longleftrightarrow> i < length (dl_events log)
     \<and> cl_previous (dl_chain log ! i) = (if i = 0 then ''GENESIS'' else cl_hash (dl_chain log ! (i - 1)))
     \<and> cl_hash (dl_chain log ! i) = compute_link_hash sha (de_id (dl_events log ! i))
         (de_payload (dl_events log ! i)) (cl_previous (dl_chain log ! i))"

lemma check_link_errors:
  "\<exists>errs. snd (check_link sha log i (v, es)) = es @ errs \<and> (errs = [] \<longleftrightarrow> link_ok sha log i)"
proof -
  let ?l = "dl_chain log ! i" and ?e = "dl_events log ! i"
  define x where "x = (if i = 0 then ''GENESIS'' else cl_hash (dl_chain log ! (i - 1)))"
  define r where "r = compute_link_hash sha (de_id ?e) (de_payload ?e) (cl_previous ?l)"
  show ?thesis
  proof (cases "length (dl_events log) \<le> i")
    case True
    then show ?thesis by (simp add: check_link_def link_ok_def)
  next
    case False
    then have "snd (check_link sha log i (v, es)) =
        es @ (if cl_previous ?l \<noteq> x then [broken_error ?l x] else [])
           @ (if r \<noteq> cl_hash ?l then [mismatch_error ?l r] else [])"
      by (simp add: check_link_def Let_def x_def r_def)
    moreover have "link_ok sha log i \<longleftrightarrow> cl_previous ?l = x \<and> cl_hash ?l = r"
      using False by (simp add: link_ok_def x_def r_def)
    ultimately show ?thesis by auto
  qed
qed

lemma check_links_errors:
  "\<exists>errs. snd (fold (check_link sha log) is (v, es)) = es @ errs
     \<and> (errs = [] \<longleftrightarrow> (\<forall>i \<in> set is. link_ok sha log i))"
proof (induction "is" arbitrary: v es)
  case (Cons i rest)
  obtain errs where e: "snd (check_link sha log i (v, es)) = es @ errs" "errs = [] \<longleftrightarrow> link_ok sha log i"
    using check_link_errors by blast
  obtain v1 where c: "check_link sha log i (v, es) = (v1, es @ errs)"
    using e(1) by (cases "check_link sha log i (v, es)") auto
  obtain errs2 where "snd (fold (check_link sha log) rest (v1, es @ errs)) = (es @ errs) @ errs2"
    "errs2 = [] \<longleftrightarrow> (\<forall>i \<in> set rest. link_ok sha log i)"
    using Cons.IH by blast
  with c e(2) show ?case by (intro exI [of _ "errs @ errs2"]) auto
qed simp

lemma dist_valid_iff:
  "ir_valid (dist_verify sha log) \<longleftrightarrow> (\<forall>i < length (dl_chain log). link_ok sha log i)"
proof -
  obtain errs where "snd (fold (check_link sha log) [0 ..< length (dl_chain log)] (0, [])) = [] @ errs"
    "errs = [] \<longleftrightarrow> (\<forall>i \<in> set [0 ..< length (dl_chain log)]. link_ok sha log i)"
    using check_links_errors by blast
  then show ?thesis
    by (cases "fold (check_link sha log) [0 ..< length (dl_chain log)] (0, [])")
      (auto simp: dist_verify_def)
qed

text \<open>The states of a run: creation and appends.\<close>

inductive dist_run :: "(bytes \<Rightarrow> string) \<Rightarrow> dist_log \<Rightarrow> bool" for sha where
  created: "dist_run sha dist_new"
| appended: "dist_run sha log \<Longrightarrow> dist_run sha (snd (dist_append sha now payload source log))"

lemma dist_run_inv:
  "dist_run sha log \<Longrightarrow> length (dl_chain log) = length (dl_events log) \<and> dl_next_id log = length (dl_events log)
     \<and> map de_id (dl_events log) = [0 ..< length (dl_events log)]
     \<and> (\<forall>i < length (dl_chain log). link_ok sha log i \<and> cl_event_id (dl_chain log ! i) = i)"
proof (induction rule: dist_run.induct)
  case created
  then show ?case by (simp add: dist_new_def)
next
  case (appended log now payload source)
  let ?log = "snd (dist_append sha now payload source log)"
  have len: "length (dl_chain log) = length (dl_events log)" "dl_next_id log = length (dl_events log)"
    using appended by simp_all
  have "link_ok sha ?log i \<and> cl_event_id (dl_chain ?log ! i) = i" if "i < length (dl_chain ?log)" for i
  proof (cases "i < length (dl_chain log)")
    case True
    moreover have "i - 1 < length (dl_chain log)" using True by simp
    ultimately show ?thesis
      using appended.IH len by (simp add: dist_append_def Let_def link_ok_def nth_append)
  next
    case False
    with that have "i = length (dl_chain log)" by (simp add: dist_append_def Let_def)
    then show ?thesis
      using len by (auto simp: dist_append_def Let_def link_ok_def nth_append last_conv_nth)
  qed
  with appended.IH show ?case by (simp add: dist_append_def Let_def)
qed

text \<open>
  A log written through \<open>append\<close> verifies, ids are positions, and replay returns the
  events in the order they were appended.
\<close>

theorem dist_run_verifies:
  assumes "dist_run sha log"
  shows "ir_valid (dist_verify sha log) \<and> ir_errors (dist_verify sha log) = []
    \<and> map de_id (dist_replay log) = [0 ..< length (dl_events log)]
    \<and> (\<forall>now p src. map de_payload (dist_replay (snd (dist_append sha now p src log))) = map de_payload (dist_replay log) @ [p])"
proof -
  note inv = dist_run_inv [OF assms]
  then have v: "ir_valid (dist_verify sha log)" by (simp add: dist_valid_iff)
  then have "ir_errors (dist_verify sha log) = []"
    by (auto simp: dist_verify_def split: prod.splits if_splits)
  with v inv show ?thesis by (simp add: dist_replay_def dist_append_def Let_def)
qed

lemma compute_link_hash_inj:
  assumes "\<not> collision sha" "length p = length p'" "i < 2 ^ 64" "i' < 2 ^ 64"
    and "compute_link_hash sha i x p = compute_link_hash sha i' x' p'"
  shows "i = i' \<and> x = x' \<and> p = p'"
proof -
  have "le_bytes 8 i @ bytes_of x @ bytes_of p = le_bytes 8 i' @ bytes_of x' @ bytes_of p'"
    using assms(1,5) unfolding collision_def compute_link_hash_def by blast
  then have i: "le_bytes 8 i = le_bytes 8 i'" and r: "bytes_of x @ bytes_of p = bytes_of x' @ bytes_of p'"
    by (simp_all add: append_eq_append_conv)
  from i have "of_le_bytes (le_bytes 8 i) = of_le_bytes (le_bytes 8 i')" by simp
  then have "i = i'" using assms(3,4) by (simp add: of_le_bytes_le_bytes)
  moreover have "x = x'" "p = p'"
    using r assms(2) by (simp_all add: append_eq_append_conv)
  ultimately show ?thesis by simp
qed

text \<open>
  The last link commits to the linked events: two logs that both verify, with chains of the
  same length and the same last hash, hold the same ids and payloads under their chains, or a
  SHA-256 collision is in hand.
\<close>

theorem dist_chain_commits:
  assumes hex: "hex_digest sha"
    and valid: "ir_valid (dist_verify sha a)" "ir_valid (dist_verify sha b)"
    and len: "length (dl_chain a) = length (dl_chain b)" "dl_chain a \<noteq> []"
    and head: "cl_hash (last (dl_chain a)) = cl_hash (last (dl_chain b))"
    and ids: "list_all (\<lambda>e. de_id e < 2 ^ 64) (dl_events a @ dl_events b)"
  shows "collision sha \<or> (\<forall>i < length (dl_chain a).
    de_id (dl_events a ! i) = de_id (dl_events b ! i) \<and> de_payload (dl_events a ! i) = de_payload (dl_events b ! i))"
proof (cases "collision sha")
  case True
  then show ?thesis ..
next
  case False
  then have nc: "\<not> collision sha" .
  let ?n = "length (dl_chain a)"
  have ok: "link_ok sha a i" "link_ok sha b i" if "i < ?n" for i
    using valid that len(1) by (simp_all add: dist_valid_iff)
  have small: "de_id (dl_events a ! i) < 2 ^ 64" "de_id (dl_events b ! i) < 2 ^ 64" if "i < ?n" for i
    using ok [OF that] ids by (simp_all add: link_ok_def list_all_iff)
  have step: "de_id (dl_events a ! i) = de_id (dl_events b ! i) \<and> de_payload (dl_events a ! i) = de_payload (dl_events b ! i)
      \<and> cl_previous (dl_chain a ! i) = cl_previous (dl_chain b ! i)"
    if i: "i < ?n" and eq: "cl_hash (dl_chain a ! i) = cl_hash (dl_chain b ! i)" for i
  proof (rule compute_link_hash_inj [OF nc _ small [OF i]])
    show "compute_link_hash sha (de_id (dl_events a ! i)) (de_payload (dl_events a ! i)) (cl_previous (dl_chain a ! i))
        = compute_link_hash sha (de_id (dl_events b ! i)) (de_payload (dl_events b ! i)) (cl_previous (dl_chain b ! i))"
      using ok [OF i] eq by (simp add: link_ok_def)
    have "length (cl_hash (dl_chain c ! j)) = 64" if "link_ok sha c j" for c j
      using that hex by (simp add: link_ok_def compute_link_hash_def hex_digest_def)
    then show "length (cl_previous (dl_chain a ! i)) = length (cl_previous (dl_chain b ! i))"
      using ok [OF i] ok [of "i - 1"] i by (cases i) (simp_all add: link_ok_def)
  qed
  have hashes: "cl_hash (dl_chain a ! (?n - 1 - k)) = cl_hash (dl_chain b ! (?n - 1 - k))" for k
  proof (induction k)
    case 0
    have "dl_chain b \<noteq> []" using len by auto
    with head len show ?case by (simp add: last_conv_nth)
  next
    case (Suc k)
    show ?case
    proof (cases "?n - 1 - k = 0")
      case True
      then show ?thesis using Suc by simp
    next
      case False
      let ?i = "?n - 1 - k"
      have "?i < ?n" using len(2) by (cases "dl_chain a") simp_all
      from step [OF this Suc.IH] ok [OF this] False show ?thesis by (simp add: link_ok_def)
    qed
  qed
  have "\<forall>i < ?n. de_id (dl_events a ! i) = de_id (dl_events b ! i) \<and> de_payload (dl_events a ! i) = de_payload (dl_events b ! i)"
  proof (intro allI impI)
    fix i assume i: "i < ?n"
    then have "cl_hash (dl_chain a ! i) = cl_hash (dl_chain b ! i)"
      using hashes [of "?n - 1 - i"] by simp
    from step [OF i this] show "de_id (dl_events a ! i) = de_id (dl_events b ! i)
        \<and> de_payload (dl_events a ! i) = de_payload (dl_events b ! i)" by simp
  qed
  then show ?thesis ..
qed

text \<open>
  Events without a link are not checked: a log that verifies still verifies with any events
  appended behind the chain, and an emptied chain makes every log valid.
\<close>

theorem dist_unlinked_events_pass:
  assumes "ir_valid (dist_verify sha log)"
  shows "ir_valid (dist_verify sha (log\<lparr>dl_events := dl_events log @ forged\<rparr>))
    \<and> ir_valid (dist_verify sha (log\<lparr>dl_chain := [], dl_events := forged\<rparr>))"
  using assms by (auto simp: dist_valid_iff link_ok_def nth_append)

definition toy_bytes_sha :: "bytes \<Rightarrow> string" where
  "toy_bytes_sha b = replicate 64 (CHR ''a'')"

definition toy_dist :: dist_log where
  "toy_dist = snd (dist_append toy_bytes_sha 3 ''x'' ''s'' dist_new)"

lemma toy_dist_run: "dist_run toy_bytes_sha toy_dist"
  unfolding toy_dist_def by (intro dist_run.intros)

lemma dist_run_verifies_witness: "map de_id (dist_replay toy_dist) = [0]"
  using dist_run_verifies [OF toy_dist_run] by (simp add: toy_dist_def dist_append_def dist_new_def Let_def)

lemma toy_dist_valid: "ir_valid (dist_verify toy_bytes_sha toy_dist)"
  using dist_run_inv [OF toy_dist_run] by (simp add: dist_valid_iff)

lemma dist_chain_commits_witness:
  "collision toy_bytes_sha \<or> (\<forall>i < length (dl_chain toy_dist). de_id (dl_events toy_dist ! i) = de_id (dl_events toy_dist ! i)
     \<and> de_payload (dl_events toy_dist ! i) = de_payload (dl_events toy_dist ! i))"
proof (rule dist_chain_commits [OF _ toy_dist_valid toy_dist_valid refl _ refl])
  show "hex_digest toy_bytes_sha" by (simp add: hex_digest_def toy_bytes_sha_def is_lower_hex_def list_all_iff)
  show "dl_chain toy_dist \<noteq> []" by (simp add: toy_dist_def dist_append_def Let_def)
  show "list_all (\<lambda>e. de_id e < 2 ^ 64) (dl_events toy_dist @ dl_events toy_dist)"
    by (simp add: toy_dist_def dist_append_def dist_new_def Let_def)
qed

lemma dist_unlinked_events_pass_witness:
  "ir_valid (dist_verify toy_bytes_sha (toy_dist\<lparr>dl_events := dl_events toy_dist @ dl_events toy_dist\<rparr>))"
  using dist_unlinked_events_pass [OF toy_dist_valid, of "dl_events toy_dist"] by simp

end
