(* ===== verification/F64.thy ===== *)
theory F64
  imports GraphTypes
begin

text \<open>
  Rust's \<open>f64\<close>: IEEE-754 binary64 on 64-bit patterns, executable and exact. A finite value is
  a sign and a rational; every operation computes the exact rational and rounds it once, to
  the nearest with ties to even (\<open>f64_round\<close>). Comparisons read the pattern as an integer key.
\<close>

unbundle bit_operations_syntax

subsection \<open>Decoding\<close>

definition f64_neg_bit :: "f64 \<Rightarrow> bool" where
  \<comment> \<open>the sign bit\<close>
  "f64_neg_bit x \<longleftrightarrow> 2 ^ 63 \<le> unat x"

definition f64_mag :: "f64 \<Rightarrow> nat" where
  \<comment> \<open>exponent and fraction fields\<close>
  "f64_mag x = unat x mod 2 ^ 63"

definition f64_inf_mag :: nat where
  "f64_inf_mag = 2047 * 2 ^ 52"

definition f64_is_nan :: "f64 \<Rightarrow> bool" where
  "f64_is_nan x \<longleftrightarrow> f64_mag x > f64_inf_mag"

definition f64_is_inf :: "f64 \<Rightarrow> bool" where
  "f64_is_inf x \<longleftrightarrow> f64_mag x = f64_inf_mag"

definition f64_is_finite :: "f64 \<Rightarrow> bool" where
  "f64_is_finite x \<longleftrightarrow> f64_mag x < f64_inf_mag"

definition f64_num :: "f64 \<Rightarrow> nat" where
  \<comment> \<open>the magnitude of a finite value, in units of 2^-1074\<close>
  "f64_num x =
     (let e = f64_mag x div 2 ^ 52; f = f64_mag x mod 2 ^ 52 in
        if e = 0 then f else (2 ^ 52 + f) * 2 ^ (e - 1))"

definition f64_int :: "f64 \<Rightarrow> int" where
  "f64_int x = (if f64_neg_bit x then - int (f64_num x) else int (f64_num x))"

subsection \<open>Rounding\<close>

fun bitlen :: "nat \<Rightarrow> nat" where
  "bitlen n = (if n = 0 then 0 else Suc (bitlen (n div 2)))"

declare bitlen.simps [simp del]

definition f64_of_mag :: "bool \<Rightarrow> nat \<Rightarrow> f64" where
  "f64_of_mag neg m = word_of_nat (if neg then 2 ^ 63 + m else m)"

definition f64_round :: "bool \<Rightarrow> nat \<Rightarrow> nat \<Rightarrow> f64" where
  \<comment> \<open>the value \<open>num / den\<close> in units of 2^-1074; the unit in the last place is \<open>2 ^ k\<close>\<close>
  "f64_round neg num den =
     (let q0 = num div den;
          k = bitlen q0 - 53;
          d = den * 2 ^ k;
          q = num div d;
          r = num mod d;
          q' = (if 2 * r > d \<or> (2 * r = d \<and> odd q) then q + 1 else q);
          m = k * 2 ^ 52 + q'
      in f64_of_mag neg (if m \<ge> f64_inf_mag then f64_inf_mag else m))"

definition f64_nan :: f64 where "f64_nan = f64_of_mag False (f64_inf_mag + 2 ^ 51)"
definition f64_inf :: "bool \<Rightarrow> f64" where "f64_inf neg = f64_of_mag neg f64_inf_mag"
definition f64_zero :: "bool \<Rightarrow> f64" where "f64_zero neg = f64_of_mag neg 0"

definition f64_scale :: nat where
  "f64_scale = 2 ^ 1074"

definition f64_rat :: "nat \<Rightarrow> nat \<Rightarrow> f64" where
  \<comment> \<open>the literal or quotient \<open>a / b\<close>, correctly rounded\<close>
  "f64_rat a b = f64_round False (a * f64_scale) b"

definition f64_of_nat :: "nat \<Rightarrow> f64" where
  \<comment> \<open>\<open>n as f64\<close>\<close>
  "f64_of_nat n = f64_rat n 1"

subsection \<open>Arithmetic\<close>

definition f64_neg :: "f64 \<Rightarrow> f64" where
  "f64_neg x = x XOR (2 ^ 63)"

definition f64_add :: "f64 \<Rightarrow> f64 \<Rightarrow> f64" where
  "f64_add x y =
     (if f64_is_nan x \<or> f64_is_nan y then f64_nan
      else if f64_is_inf x then (if f64_is_inf y \<and> f64_neg_bit x \<noteq> f64_neg_bit y then f64_nan else x)
      else if f64_is_inf y then y
      else let s = f64_int x + f64_int y in
        if s = 0 then f64_zero (f64_neg_bit x \<and> f64_neg_bit y)
        else f64_round (s < 0) (nat \<bar>s\<bar>) 1)"

definition f64_sub :: "f64 \<Rightarrow> f64 \<Rightarrow> f64" where
  "f64_sub x y = f64_add x (f64_neg y)"

definition f64_mul :: "f64 \<Rightarrow> f64 \<Rightarrow> f64" where
  "f64_mul x y =
     (let neg = (f64_neg_bit x \<noteq> f64_neg_bit y) in
        if f64_is_nan x \<or> f64_is_nan y then f64_nan
        else if f64_is_inf x \<or> f64_is_inf y then
          (if f64_mag x = 0 \<or> f64_mag y = 0 then f64_nan else f64_inf neg)
        else f64_round neg (f64_num x * f64_num y) f64_scale)"

definition f64_div :: "f64 \<Rightarrow> f64 \<Rightarrow> f64" where
  "f64_div x y =
     (let neg = (f64_neg_bit x \<noteq> f64_neg_bit y) in
        if f64_is_nan x \<or> f64_is_nan y then f64_nan
        else if f64_is_inf x then (if f64_is_inf y then f64_nan else f64_inf neg)
        else if f64_is_inf y then f64_zero neg
        else if f64_mag y = 0 then (if f64_mag x = 0 then f64_nan else f64_inf neg)
        else f64_round neg (f64_num x * f64_scale) (f64_num y))"

subsection \<open>Comparison\<close>

definition f64_key :: "f64 \<Rightarrow> int" where
  "f64_key x = (if f64_neg_bit x then - int (f64_mag x) else int (f64_mag x))"

definition f64_lt :: "f64 \<Rightarrow> f64 \<Rightarrow> bool" where
  "f64_lt x y \<longleftrightarrow> \<not> f64_is_nan x \<and> \<not> f64_is_nan y \<and> f64_key x < f64_key y"

definition f64_le :: "f64 \<Rightarrow> f64 \<Rightarrow> bool" where
  "f64_le x y \<longleftrightarrow> \<not> f64_is_nan x \<and> \<not> f64_is_nan y \<and> f64_key x \<le> f64_key y"

definition f64_eq :: "f64 \<Rightarrow> f64 \<Rightarrow> bool" where
  "f64_eq x y \<longleftrightarrow> \<not> f64_is_nan x \<and> \<not> f64_is_nan y \<and> f64_key x = f64_key y"

definition f64_max :: "f64 \<Rightarrow> f64 \<Rightarrow> f64" where
  \<comment> \<open>\<open>x.max(y)\<close>: a NaN loses\<close>
  "f64_max x y = (if f64_is_nan x then y else if f64_is_nan y then x else if f64_lt x y then y else x)"

definition f64_min :: "f64 \<Rightarrow> f64 \<Rightarrow> f64" where
  "f64_min x y = (if f64_is_nan x then y else if f64_is_nan y then x else if f64_lt y x then y else x)"

definition f64_clamp :: "f64 \<Rightarrow> f64 \<Rightarrow> f64 \<Rightarrow> f64" where
  \<comment> \<open>\<open>x.clamp(lo, hi)\<close>: a NaN stays\<close>
  "f64_clamp x lo hi = (if f64_lt x lo then lo else if f64_lt hi x then hi else x)"

datatype cmp = Less | Equal | Greater

definition f64_cmp :: "f64 \<Rightarrow> f64 \<Rightarrow> cmp" where
  \<comment> \<open>\<open>x.partial_cmp(&y).unwrap_or(Equal)\<close>\<close>
  "f64_cmp x y = (if f64_lt x y then Less else if f64_lt y x then Greater else Equal)"

definition cmp_then :: "cmp \<Rightarrow> cmp \<Rightarrow> cmp" where
  "cmp_then a b = (if a = Equal then b else a)"

definition ord_cmp :: "'a :: linorder \<Rightarrow> 'a \<Rightarrow> cmp" where
  "ord_cmp x y = (if x < y then Less else if y < x then Greater else Equal)"

definition f64_to_usize :: "f64 \<Rightarrow> nat" where
  \<comment> \<open>\<open>x as usize\<close>: truncates towards zero and saturates\<close>
  "f64_to_usize x =
     (if f64_is_nan x \<or> f64_neg_bit x then 0
      else if f64_is_inf x then 2 ^ 64 - 1
      else min (f64_num x div f64_scale) (2 ^ 64 - 1))"

subsection \<open>Sorting by a comparator\<close>

text \<open>\<open>sort_by\<close> is a stable sort; for a comparator that is a total order every stable sort
  gives the list of this insertion sort.\<close>

fun insert_by :: "('a \<Rightarrow> 'a \<Rightarrow> cmp) \<Rightarrow> 'a \<Rightarrow> 'a list \<Rightarrow> 'a list" where
  "insert_by c x [] = [x]"
| "insert_by c x (y # ys) = (if c x y = Greater then y # insert_by c x ys else x # y # ys)"

fun sort_by :: "('a \<Rightarrow> 'a \<Rightarrow> cmp) \<Rightarrow> 'a list \<Rightarrow> 'a list" where
  "sort_by c [] = []"
| "sort_by c (x # xs) = insert_by c x (sort_by c xs)"

lemma set_insert_by [simp]: "set (insert_by c x ys) = insert x (set ys)"
  by (induction ys) auto

lemma set_sort_by [simp]: "set (sort_by c xs) = set xs"
  by (induction xs) auto

lemma length_insert_by [simp]: "length (insert_by c x ys) = Suc (length ys)"
  by (induction ys) auto

lemma length_sort_by [simp]: "length (sort_by c xs) = length xs"
  by (induction xs) auto

lemma distinct_insert_by [simp]: "distinct (insert_by c x ys) \<longleftrightarrow> x \<notin> set ys \<and> distinct ys"
  by (induction ys) auto

lemma distinct_sort_by [simp]: "distinct (sort_by c xs) = distinct xs"
  by (induction xs) auto

lemma sum_list_insert_by: "sum_list (map f (insert_by c x ys)) = f x + (sum_list (map f ys) :: nat)"
  by (induction ys) auto

lemma sum_list_sort_by: "sum_list (map f (sort_by c xs)) = (sum_list (map f xs) :: nat)"
  by (induction xs) (auto simp: sum_list_insert_by)

text \<open>Under a total comparator the result is sorted: no later element precedes an earlier one.\<close>

definition total_cmp :: "('a \<Rightarrow> 'a \<Rightarrow> cmp) \<Rightarrow> 'a set \<Rightarrow> bool" where
  "total_cmp c A \<longleftrightarrow> (\<forall>x \<in> A. \<forall>y \<in> A. (c x y = Greater \<longrightarrow> c y x = Less)
     \<and> (\<forall>z \<in> A. c x y \<noteq> Greater \<longrightarrow> c y z \<noteq> Greater \<longrightarrow> c x z \<noteq> Greater))"

lemma total_cmp_subset: "total_cmp c B \<Longrightarrow> A \<subseteq> B \<Longrightarrow> total_cmp c A"
  unfolding total_cmp_def by (meson subsetD)

lemma total_cmpD:
  assumes "total_cmp c A" "x \<in> A" "y \<in> A"
  shows "c x y = Greater \<Longrightarrow> c y x = Less"
    and "z \<in> A \<Longrightarrow> c x y \<noteq> Greater \<Longrightarrow> c y z \<noteq> Greater \<Longrightarrow> c x z \<noteq> Greater"
  using assms unfolding total_cmp_def by blast+

lemma sorted_insert_by:
  assumes "total_cmp c (insert x (set ys))" "sorted_wrt (\<lambda>a b. c a b \<noteq> Greater) ys"
  shows "sorted_wrt (\<lambda>a b. c a b \<noteq> Greater) (insert_by c x ys)"
  using assms
proof (induction ys)
  case (Cons y ys)
  have t: "total_cmp c (insert x (set ys))" by (rule total_cmp_subset [OF Cons.prems(1)]) auto
  have s: "sorted_wrt (\<lambda>a b. c a b \<noteq> Greater) ys" "\<forall>z \<in> set ys. c y z \<noteq> Greater"
    using Cons.prems(2) by simp_all
  show ?case
  proof (cases "c x y = Greater")
    case True
    then have "c y x \<noteq> Greater" using total_cmpD(1) [OF Cons.prems(1), of x y] by simp
    with True Cons.IH [OF t s(1)] s(2) show ?thesis by simp
  next
    case False
    have "c x z \<noteq> Greater" if "z \<in> set ys" for z
      using total_cmpD(2) [OF Cons.prems(1), of x y z] False s(2) that by simp
    with False s show ?thesis by simp
  qed
qed simp

lemma sorted_sort_by: "total_cmp c (set xs) \<Longrightarrow> sorted_wrt (\<lambda>a b. c a b \<noteq> Greater) (sort_by c xs)"
proof (induction xs)
  case (Cons x xs)
  have "total_cmp c (set xs)" by (rule total_cmp_subset [OF Cons.prems]) auto
  from Cons.IH [OF this] Cons.prems show ?case by (simp add: sorted_insert_by)
qed simp

lemma insert_by_map: "insert_by c (h x) (map h ys) = map h (insert_by (\<lambda>a b. c (h a) (h b)) x ys)"
  by (induction ys) auto

lemma sort_by_map: "sort_by c (map h xs) = map h (sort_by (\<lambda>a b. c (h a) (h b)) xs)"
  by (induction xs) (simp_all add: insert_by_map)

lemma sort_by_cong:
  assumes "\<And>x y. x \<in> set xs \<Longrightarrow> y \<in> set xs \<Longrightarrow> c x y = d x y"
  shows "sort_by c xs = sort_by d xs"
  using assms
proof (induction xs)
  case (Cons x xs)
  have "insert_by c x ys = insert_by d x ys" if "set ys \<subseteq> set xs" for ys
    using that Cons.prems by (induction ys) auto
  with Cons show ?case by simp
qed simp

lemma filter_insert_by:
  assumes "\<And>a b d. c a b \<noteq> Greater \<Longrightarrow> c b d \<noteq> Greater \<Longrightarrow> c a d \<noteq> Greater" "sorted_wrt (\<lambda>a b. c a b \<noteq> Greater) ys"
  shows "filter P (insert_by c x ys) = (if P x then insert_by c x (filter P ys) else filter P ys)"
  using assms(2)
proof (induction ys)
  case (Cons y ys)
  show ?case
  proof (cases "c x y = Greater")
    case False
    then have "\<forall>z \<in> set (y # ys). c x z \<noteq> Greater" using Cons.prems assms(1) by auto
    then have "insert_by c x (filter P (y # ys)) = x # filter P (y # ys)"
      by (cases "filter P (y # ys)") (auto dest: filter_eq_ConsD split: if_splits)
    with False show ?thesis by simp
  qed (use Cons in auto)
qed simp

lemma filter_sort_by:
  assumes "\<And>a b d. c a b \<noteq> Greater \<Longrightarrow> c b d \<noteq> Greater \<Longrightarrow> c a d \<noteq> Greater" "\<And>a b. c a b = Greater \<Longrightarrow> c b a = Less"
  shows "filter P (sort_by c xs) = sort_by c (filter P xs)"
proof (induction xs)
  case (Cons x xs)
  have "total_cmp c (set xs)" using assms unfolding total_cmp_def by blast
  then have "sorted_wrt (\<lambda>a b. c a b \<noteq> Greater) (sort_by c xs)" by (rule sorted_sort_by)
  with Cons show ?case by (simp add: filter_insert_by [OF assms(1)])
qed simp

text \<open>The comparator the code sorts nodes by (score, then id) is total on NaN-free scores.\<close>

definition score_cmp :: "('a \<Rightarrow> f64) \<Rightarrow> ('a :: linorder) \<Rightarrow> 'a \<Rightarrow> cmp" where
  "score_cmp f a b = cmp_then (f64_cmp (f a) (f b)) (ord_cmp a b)"

definition score_cmp_desc :: "('a \<Rightarrow> f64) \<Rightarrow> ('a :: linorder) \<Rightarrow> 'a \<Rightarrow> cmp" where
  "score_cmp_desc f a b = cmp_then (f64_cmp (f b) (f a)) (ord_cmp a b)"

lemma f64_cmp_key:
  assumes "\<not> f64_is_nan x" "\<not> f64_is_nan y"
  shows "f64_cmp x y = ord_cmp (f64_key x) (f64_key y)"
  using assms by (simp add: f64_cmp_def ord_cmp_def f64_lt_def)

lemma score_cmp_le:
  assumes "\<not> f64_is_nan (f a)" "\<not> f64_is_nan (f b)"
  shows "score_cmp f a b \<noteq> Greater \<longleftrightarrow> (f64_key (f a) < f64_key (f b) \<or> (f64_key (f a) = f64_key (f b) \<and> a \<le> b))"
    and "score_cmp f a b = Less \<longleftrightarrow> (f64_key (f a) < f64_key (f b) \<or> (f64_key (f a) = f64_key (f b) \<and> a < b))"
    and "score_cmp_desc f a b \<noteq> Greater \<longleftrightarrow> (f64_key (f b) < f64_key (f a) \<or> (f64_key (f a) = f64_key (f b) \<and> a \<le> b))"
    and "score_cmp_desc f a b = Less \<longleftrightarrow> (f64_key (f b) < f64_key (f a) \<or> (f64_key (f a) = f64_key (f b) \<and> a < b))"
  using assms by (auto simp: score_cmp_def score_cmp_desc_def cmp_then_def f64_cmp_key ord_cmp_def not_less)

lemma total_score_cmp:
  assumes "\<And>a. a \<in> A \<Longrightarrow> \<not> f64_is_nan (f a)"
  shows "total_cmp (score_cmp f) A" "total_cmp (score_cmp_desc f) A"
proof -
  have le: "score_cmp f a b \<noteq> Greater \<longleftrightarrow> (f64_key (f a) < f64_key (f b) \<or> (f64_key (f a) = f64_key (f b) \<and> a \<le> b))"
    "score_cmp_desc f a b \<noteq> Greater \<longleftrightarrow> (f64_key (f b) < f64_key (f a) \<or> (f64_key (f a) = f64_key (f b) \<and> a \<le> b))"
    "score_cmp f a b = Less \<longleftrightarrow> (f64_key (f a) < f64_key (f b) \<or> (f64_key (f a) = f64_key (f b) \<and> a < b))"
    "score_cmp_desc f a b = Less \<longleftrightarrow> (f64_key (f b) < f64_key (f a) \<or> (f64_key (f a) = f64_key (f b) \<and> a < b))"
    if "a \<in> A" "b \<in> A" for a b
    using score_cmp_le [of f a b] assms that by blast+
  show "total_cmp (score_cmp f) A"
    unfolding total_cmp_def
  proof (intro ballI conjI impI)
    fix x y assume xy: "x \<in> A" "y \<in> A"
    show "score_cmp f y x = Less" if "score_cmp f x y = Greater"
      using that le(1) [OF xy] le(3) [OF xy(2,1)] by auto
    fix z assume z: "z \<in> A" and "score_cmp f x y \<noteq> Greater" "score_cmp f y z \<noteq> Greater"
    then show "score_cmp f x z \<noteq> Greater"
      using le(1) [OF xy] le(1) [OF xy(2) z] le(1) [OF xy(1) z] by auto
  qed
  show "total_cmp (score_cmp_desc f) A"
    unfolding total_cmp_def
  proof (intro ballI conjI impI)
    fix x y assume xy: "x \<in> A" "y \<in> A"
    show "score_cmp_desc f y x = Less" if "score_cmp_desc f x y = Greater"
      using that le(2) [OF xy] le(4) [OF xy(2,1)] by auto
    fix z assume z: "z \<in> A" and "score_cmp_desc f x y \<noteq> Greater" "score_cmp_desc f y z \<noteq> Greater"
    then show "score_cmp_desc f x z \<noteq> Greater"
      using le(2) [OF xy] le(2) [OF xy(2) z] le(2) [OF xy(1) z] by auto
  qed
qed

subsection \<open>Facts the components use\<close>

lemma f64_mag_of_mag: "m < 2 ^ 63 \<Longrightarrow> f64_mag (f64_of_mag neg m) = m"
  by (simp add: f64_mag_def f64_of_mag_def unat_of_nat)

lemma f64_clamp_le:
  assumes "f64_le lo hi" "\<not> f64_is_nan x"
  shows "f64_le lo (f64_clamp x lo hi)" "f64_le (f64_clamp x lo hi) hi"
  using assms by (auto simp: f64_clamp_def f64_le_def f64_lt_def)

lemma f64_max_not_nan: "\<not> f64_is_nan x \<or> \<not> f64_is_nan y \<Longrightarrow> \<not> f64_is_nan (f64_max x y)"
  by (auto simp: f64_max_def)

lemma f64_cmp_refl [simp]: "f64_cmp x x = Equal"
  by (simp add: f64_cmp_def f64_lt_def)

subsection \<open>Rounding is exact where it can be\<close>

lemma bitlen_0 [simp]: "bitlen 0 = 0"
  by (simp add: bitlen.simps)

lemma bitlen_1 [simp]: "bitlen (Suc 0) = 1"
  by (simp add: bitlen.simps [of "Suc 0"])

lemma bitlen_eq: "2 ^ l \<le> n \<Longrightarrow> n < 2 ^ Suc l \<Longrightarrow> bitlen n = Suc l"
proof (induction l arbitrary: n)
  case 0
  then have "n = 1" by simp
  then show ?case by simp
next
  case (Suc l)
  then have "2 ^ l \<le> n div 2" "n div 2 < 2 ^ Suc l" by simp_all
  from Suc.IH [OF this] have "bitlen (n div 2) = Suc l" .
  moreover have "n \<noteq> 0" using Suc.prems(1) by (metis le_zero_eq power_not_zero zero_neq_numeral)
  ultimately show ?case by (subst bitlen.simps) simp
qed

lemma bitlen_le: "n < 2 ^ l \<Longrightarrow> bitlen n \<le> l"
proof (induction l arbitrary: n)
  case (Suc l)
  then have "n div 2 < 2 ^ l" by simp
  from Suc.IH [OF this] show ?case by (subst bitlen.simps) simp
qed simp

lemma bitlen_bounds: "0 < n \<Longrightarrow> n < 2 ^ bitlen n \<and> 2 ^ (bitlen n - 1) \<le> n"
proof (induction n rule: bitlen.induct)
  case (1 n)
  show ?case
  proof (cases "n = 1")
    case True
    then show ?thesis by simp
  next
    case False
    with "1.prems" have pos: "0 < n div 2" "n \<noteq> 0" by auto
    note IH = "1.IH" [OF pos(2,1)]
    have b: "bitlen n = Suc (bitlen (n div 2))" using pos(2) by (simp add: bitlen.simps [of n])
    have b1: "bitlen (n div 2) = Suc (bitlen (n div 2 div 2))" using pos(1) by (simp add: bitlen.simps [of "n div 2"])
    have up: "n < 2 * p" if "n div 2 < p" for p using that by presburger
    from IH b b1 up [of "2 ^ bitlen (n div 2)"] show ?thesis
      by (auto simp: less_eq_div_iff_mult_less_eq)
  qed
qed

lemma bitlen_shift: "0 < n \<Longrightarrow> bitlen (n * 2 ^ j) = bitlen n + j"
proof -
  assume n: "0 < n"
  note b = bitlen_bounds [OF n]
  have L: "bitlen n = Suc (bitlen n - 1)" using n by (simp add: bitlen.simps [of n])
  have "n * 2 ^ j < 2 ^ bitlen n * 2 ^ j" "2 ^ (bitlen n - 1) * 2 ^ j \<le> n * 2 ^ j" using b by simp_all
  then have "n * 2 ^ j < 2 ^ (bitlen n + j)" "2 ^ (bitlen n - 1 + j) \<le> n * 2 ^ j"
    by (simp_all only: power_add)
  with L bitlen_eq [of "bitlen n - 1 + j" "n * 2 ^ j"] show ?thesis by simp
qed

lemma f64_round_cancel:
  assumes "0 < c"
  shows "f64_round neg (num * c) (den * c) = f64_round neg num den"
proof -
  have a: "den * c * 2 ^ k = den * 2 ^ k * c" for k by (simp add: mult.commute mult.left_commute)
  have "2 * (x * c) = 2 * x * c" for x by simp
  with assms a show ?thesis
    by (simp add: f64_round_def Let_def div_mult_mult2 mod_mult_mult2)
qed

lemma f64_of_mag_mag: "f64_of_mag (f64_neg_bit x) (f64_mag x) = x"
proof -
  have u: "unat x < 2 ^ 64" using unsigned_less [of x] by simp
  have "unat x = (if f64_neg_bit x then 2 ^ 63 else 0) + f64_mag x"
    using u by (auto simp: f64_mag_def f64_neg_bit_def le_mod_geq)
  then have "(if f64_neg_bit x then 2 ^ 63 + f64_mag x else f64_mag x) = unat x" by simp
  then show ?thesis by (simp only: f64_of_mag_def) simp
qed

lemma f64_round_num:
  assumes "f64_is_finite x"
  shows "f64_round (f64_neg_bit x) (f64_num x) 1 = x"
proof -
  define e where "e = f64_mag x div 2 ^ 52"
  define f where "f = f64_mag x mod 2 ^ 52"
  have mag: "f64_mag x = e * 2 ^ 52 + f" "f < 2 ^ 52" by (simp_all add: e_def f_def)
  have small: "\<not> f64_inf_mag \<le> f64_mag x" using assms by (simp add: f64_is_finite_def)
  have "f64_round (f64_neg_bit x) (f64_num x) 1 = f64_of_mag (f64_neg_bit x) (f64_mag x)"
  proof (cases "e = 0")
    case True
    then have n: "f64_num x = f" by (simp add: f64_num_def e_def f_def)
    have "bitlen f \<le> 53" using bitlen_le [of f 53] mag(2) by simp
    then have "bitlen f - 53 = 0" by simp
    then show ?thesis using n mag True small by (simp add: f64_round_def Let_def)
  next
    case False
    then have n: "f64_num x = (2 ^ 52 + f) * 2 ^ (e - 1)" by (simp add: f64_num_def e_def f_def Let_def)
    have "bitlen (2 ^ 52 + f) = Suc 52" by (rule bitlen_eq) (use mag(2) in simp_all)
    then have "bitlen (f64_num x) - 53 = e - 1" using bitlen_shift [of "2 ^ 52 + f" "e - 1"] n by simp
    moreover have "(e - 1) * 2 ^ 52 + (2 ^ 52 + f) = f64_mag x" using False mag(1) by (cases e) simp_all
    ultimately show ?thesis using n small by (simp add: f64_round_def Let_def)
  qed
  then show ?thesis by (simp add: f64_of_mag_mag)
qed

lemma f64_round_exact:
  assumes "bitlen n - 53 = k" "n = q * 2 ^ k" "k * 2 ^ 52 + q < f64_inf_mag"
  shows "f64_round neg n 1 = f64_of_mag neg (k * 2 ^ 52 + q)"
proof -
  have "n div 2 ^ k = q" "n mod 2 ^ k = 0" using assms(2) by simp_all
  with assms(1,3) show ?thesis by (simp add: f64_round_def Let_def)
qed

lemma f64_pos_of_mag: "m < 2 ^ 63 \<Longrightarrow> \<not> f64_neg_bit (f64_of_mag False m)"
proof -
  assume "m < 2 ^ 63"
  then have "unat (word_of_nat m :: f64) = m" by (simp add: unat_of_nat)
  with \<open>m < 2 ^ 63\<close> show ?thesis by (simp only: f64_neg_bit_def f64_of_mag_def if_False not_le)
qed

lemma f64_of_nat_mag:
  assumes "0 < n" "n < 2 ^ 53"
  shows "f64_of_nat n = f64_of_mag False ((bitlen n + 1021) * 2 ^ 52 + n * 2 ^ (53 - bitlen n))"
    and "2 ^ 52 \<le> n * 2 ^ (53 - bitlen n)" "n * 2 ^ (53 - bitlen n) < 2 ^ 53" "bitlen n \<le> 53"
proof -
  let ?L = "bitlen n" and ?q = "n * 2 ^ (53 - bitlen n)"
  show L: "?L \<le> 53" using bitlen_le [OF assms(2)] .
  have L0: "0 < ?L" using assms(1) by (simp add: bitlen.simps [of n])
  note b = bitlen_bounds [OF assms(1)]
  have "n * 2 ^ (53 - ?L) < 2 ^ ?L * 2 ^ (53 - ?L)" using b by simp
  then show up: "?q < 2 ^ 53" using L by (simp only: power_add [symmetric] le_add_diff_inverse)
  have "2 ^ (?L - 1) * 2 ^ (53 - ?L) \<le> n * 2 ^ (53 - ?L)" using b by simp
  moreover have "?L - 1 + (53 - ?L) = 52" using L L0 by simp
  ultimately show "2 ^ 52 \<le> ?q" by (metis power_add)
  have k: "bitlen (n * f64_scale) - 53 = ?L + 1021"
    using bitlen_shift [OF assms(1), of 1074] by (simp add: f64_scale_def)
  have split: "n * f64_scale = ?q * 2 ^ (?L + 1021)"
  proof -
    have "53 - ?L + (?L + 1021) = 1074" using L by simp
    then show ?thesis by (simp only: f64_scale_def mult.assoc power_add [symmetric])
  qed
  have small: "(?L + 1021) * 2 ^ 52 + ?q < f64_inf_mag"
    using L up by (simp add: f64_inf_mag_def)
  show "f64_of_nat n = f64_of_mag False ((?L + 1021) * 2 ^ 52 + ?q)"
    unfolding f64_of_nat_def f64_rat_def by (rule f64_round_exact [OF k split small])
qed

lemma f64_of_nat_num:
  assumes "n < 2 ^ 53"
  shows "f64_num (f64_of_nat n) = n * f64_scale" "f64_is_finite (f64_of_nat n)"
    "\<not> f64_neg_bit (f64_of_nat n)"
proof -
  have "f64_num (f64_of_nat n) = n * f64_scale \<and> f64_is_finite (f64_of_nat n) \<and> \<not> f64_neg_bit (f64_of_nat n)"
  proof (cases "n = 0")
    case True
    then show ?thesis
      by (simp add: f64_of_nat_def f64_rat_def f64_round_def f64_of_mag_def f64_inf_mag_def f64_num_def
          f64_mag_def f64_is_finite_def f64_neg_bit_def)
  next
    case False
    then have n: "0 < n" by simp
    let ?L = "bitlen n" and ?q = "n * 2 ^ (53 - bitlen n)"
    note m = f64_of_nat_mag [OF n assms]
    let ?m = "(?L + 1021) * 2 ^ 52 + ?q"
    have small: "?m < f64_inf_mag" using m(3,4) by (simp add: f64_inf_mag_def)
    then have mag: "f64_mag (f64_of_nat n) = ?m" by (simp add: m(1) f64_mag_of_mag f64_inf_mag_def)
    have "f64_inf_mag < 2 ^ 63" by (simp add: f64_inf_mag_def)
    with small have "?m < 2 ^ 63" by (rule less_trans)
    then have nn: "\<not> f64_neg_bit (f64_of_nat n)"
      unfolding m(1) by (rule f64_pos_of_mag)
    have m2: "?m = (?L + 1022) * 2 ^ 52 + (?q - 2 ^ 52)" and f: "?q - 2 ^ 52 < 2 ^ 52" using m(2,3) by simp_all
    have e: "?m div 2 ^ 52 = ?L + 1022" "?m mod 2 ^ 52 = ?q - 2 ^ 52"
      unfolding m2 using f by (simp_all only: div_mult_self3 mod_mult_self3 div_less mod_less)
    have "f64_num (f64_of_nat n) = (2 ^ 52 + (?q - 2 ^ 52)) * 2 ^ (?L + 1021)"
      by (simp only: f64_num_def mag e Let_def) simp
    also have "\<dots> = ?q * 2 ^ (?L + 1021)" using m(2) by simp
    also have "\<dots> = n * f64_scale"
    proof -
      have "53 - ?L + (?L + 1021) = 1074" using m(4) by simp
      then show ?thesis by (simp only: f64_scale_def mult.assoc power_add [symmetric])
    qed
    finally show ?thesis using small mag nn by (simp add: f64_is_finite_def)
  qed
  then show "f64_num (f64_of_nat n) = n * f64_scale" "f64_is_finite (f64_of_nat n)" "\<not> f64_neg_bit (f64_of_nat n)"
    by simp_all
qed

definition f64_one :: f64 where "f64_one = 0x3FF0000000000000"

lemma f64_rat_one [simp]: "f64_rat 1 1 = f64_one"
  using f64_of_nat_mag(1) [of 1] by (simp add: f64_of_nat_def f64_one_def f64_of_mag_def)

lemmas f64_rat_one' [simp] = f64_rat_one [simplified One_nat_def]

lemma f64_finite_cases: "f64_is_finite x \<Longrightarrow> \<not> f64_is_nan x \<and> \<not> f64_is_inf x"
  by (simp add: f64_is_finite_def f64_is_nan_def f64_is_inf_def)

lemma f64_one_facts: "f64_is_finite f64_one" "\<not> f64_neg_bit f64_one" "f64_num f64_one = f64_scale"
  using f64_of_nat_num [of 1] by (simp_all add: f64_of_nat_def del: One_nat_def)

lemma f64_mul_one: "f64_is_finite x \<Longrightarrow> f64_mul x f64_one = x"
proof -
  assume x: "f64_is_finite x"
  have "0 < f64_scale" by (simp add: f64_scale_def)
  with x f64_round_cancel [of f64_scale "f64_neg_bit x" "f64_num x" 1] f64_round_num [OF x]
    f64_finite_cases [OF x] f64_finite_cases [OF f64_one_facts(1)]
  show ?thesis by (simp add: f64_mul_def f64_one_facts Let_def)
qed

lemma f64_to_usize_of_nat: "n < 2 ^ 53 \<Longrightarrow> f64_to_usize (f64_of_nat n) = n"
proof -
  assume n: "n < 2 ^ 53"
  have "0 < f64_scale" by (simp add: f64_scale_def)
  then have "n * f64_scale div f64_scale = n" by simp
  with n f64_of_nat_num [OF n] f64_finite_cases [OF f64_of_nat_num(2) [OF n]] show ?thesis
    by (simp add: f64_to_usize_def)
qed

end
