(* ===== verification/Scheduler.thy ===== *)
theory Scheduler
  imports F64 Bytes
begin

text \<open>
  \<open>src/scheduler.rs\<close>: the paged context scheduler. Nodes are split into HOT, WARM and COLD by
  priority under a token budget. Its \<open>HashMap\<close> is the ordered map of the prelude; every
  operation sorts before it iterates, so the iteration order never shows.
\<close>

datatype memory_zone = Hot | Warm | Cold

record scheduled_node =
  sn_node_id :: node_id
  sn_token_cost :: nat
  sn_access_frequency :: nat
  sn_last_access :: nat
  sn_priority :: f64
  sn_zone :: memory_zone

record allocation_stats =
  as_hot :: nat
  as_warm :: nat
  as_cold :: nat
  as_hot_tokens :: nat
  as_budget :: nat

definition stats_total :: "allocation_stats \<Rightarrow> nat" where
  "stats_total s = as_hot s + as_warm s + as_cold s"

record scheduler =
  sc_token_budget :: nat
  sc_warm_ratio :: f64
  sc_nodes :: "(node_id, scheduled_node) omap"
  sc_clock :: nat

definition sched_new :: "nat \<Rightarrow> scheduler" where
  "sched_new token_budget = \<lparr>sc_token_budget = max token_budget 1, sc_warm_ratio = f64_rat 1 1,
     sc_nodes = [], sc_clock = 0\<rparr>"

definition char_count :: "string \<Rightarrow> nat" where
  \<comment> \<open>\<open>chars().count()\<close>: the bytes that do not continue a character\<close>
  "char_count s = length (filter (\<lambda>c. let n = of_char c :: nat in n < 128 \<or> n \<ge> 192) s)"

definition estimate_tokens :: "string \<Rightarrow> nat" where
  "estimate_tokens text = max (char_count text div 4) 1"

definition sched_upsert :: "node_id \<Rightarrow> nat \<Rightarrow> f64 \<Rightarrow> scheduler \<Rightarrow> scheduler" where
  "sched_upsert i cost priority s =
     (let now = sc_clock s;
          entry = (case map_of (sc_nodes s) i of
                     Some n \<Rightarrow> n
                   | None \<Rightarrow> \<lparr>sn_node_id = i, sn_token_cost = cost, sn_access_frequency = 0,
                              sn_last_access = now, sn_priority = priority, sn_zone = Cold\<rparr>)
      in s\<lparr>sc_nodes := om_insert i (entry\<lparr>sn_token_cost := cost, sn_priority := priority,
             sn_last_access := now\<rparr>) (sc_nodes s)\<rparr>)"

definition sched_touch :: "node_id \<Rightarrow> scheduler \<Rightarrow> scheduler" where
  "sched_touch i s0 =
     (let s = s0\<lparr>sc_clock := sc_clock s0 + 1\<rparr> in
        s\<lparr>sc_nodes := om_update i (\<lambda>n. n\<lparr>sn_access_frequency := sn_access_frequency n + 1,
             sn_last_access := sc_clock s\<rparr>) (sc_nodes s)\<rparr>)"

definition node_of :: "scheduler \<Rightarrow> node_id \<Rightarrow> scheduled_node" where
  \<comment> \<open>\<open>self.nodes[id]\<close>, for a key that is present\<close>
  "node_of s i = the (map_of (sc_nodes s) i)"

definition priority_of :: "scheduler \<Rightarrow> node_id \<Rightarrow> f64" where
  "priority_of s i = sn_priority (node_of s i)"

definition ordered_by_priority :: "scheduler \<Rightarrow> node_id list" where
  "ordered_by_priority s = sort_by (score_cmp_desc (priority_of s)) (map fst (sc_nodes s))"

definition set_zone :: "node_id \<Rightarrow> memory_zone \<Rightarrow> scheduler \<Rightarrow> scheduler" where
  "set_zone i z s = s\<lparr>sc_nodes := om_update i (\<lambda>n. n\<lparr>sn_zone := z\<rparr>) (sc_nodes s)\<rparr>"

definition warm_budget :: "scheduler \<Rightarrow> nat" where
  "warm_budget s = sc_token_budget s
     + f64_to_usize (f64_mul (f64_of_nat (sc_token_budget s)) (f64_max (sc_warm_ratio s) (f64_zero False)))"

definition stats_start :: "scheduler \<Rightarrow> allocation_stats" where
  "stats_start s = \<lparr>as_hot = 0, as_warm = 0, as_cold = 0, as_hot_tokens = 0, as_budget = sc_token_budget s\<rparr>"

fun place :: "bool \<Rightarrow> nat \<Rightarrow> nat \<Rightarrow> nat \<Rightarrow> nat \<Rightarrow> allocation_stats \<Rightarrow> memory_zone \<times> nat \<times> allocation_stats" where
  \<comment> \<open>the zone of one node; \<open>charge\<close> says whether a WARM node uses up budget, which is so in
      \<open>allocate_context\<close> and not in \<open>optimize_budget\<close>\<close>
  "place charge budget wbudget used cost stats =
     (if used + cost \<le> budget then
        (Hot, used + cost, stats\<lparr>as_hot := as_hot stats + 1, as_hot_tokens := used + cost\<rparr>)
      else if used + cost \<le> wbudget then
        (Warm, if charge then used + cost else used, stats\<lparr>as_warm := as_warm stats + 1\<rparr>)
      else (Cold, used, stats\<lparr>as_cold := as_cold stats + 1\<rparr>))"

fun place_all :: "bool \<Rightarrow> nat \<Rightarrow> nat \<Rightarrow> node_id list \<Rightarrow> nat \<Rightarrow> allocation_stats \<Rightarrow> scheduler \<Rightarrow> allocation_stats \<times> scheduler" where
  "place_all charge budget wbudget [] used stats s = (stats, s)"
| "place_all charge budget wbudget (i # ids) used stats s =
     (let (z, used', stats') = place charge budget wbudget used (sn_token_cost (node_of s i)) stats
      in place_all charge budget wbudget ids used' stats' (set_zone i z s))"

definition allocate_context :: "scheduler \<Rightarrow> allocation_stats \<times> scheduler" where
  "allocate_context s =
     place_all True (sc_token_budget s) (warm_budget s) (ordered_by_priority s) 0 (stats_start s) s"

definition density_of :: "scheduler \<Rightarrow> node_id \<Rightarrow> f64" where
  "density_of s i = f64_div (priority_of s i) (f64_of_nat (max (sn_token_cost (node_of s i)) 1))"

definition optimize_budget :: "scheduler \<Rightarrow> allocation_stats \<times> scheduler" where
  "optimize_budget s =
     place_all False (sc_token_budget s) (warm_budget s)
       (sort_by (score_cmp_desc (density_of s)) (map fst (sc_nodes s))) 0 (stats_start s) s"

definition zone_ids :: "memory_zone \<Rightarrow> scheduler \<Rightarrow> node_id list" where
  "zone_ids z s = map fst (filter (\<lambda>(_, n). sn_zone n = z) (sc_nodes s))"

fun evict_loop :: "nat \<Rightarrow> node_id list \<Rightarrow> nat \<Rightarrow> nat \<Rightarrow> scheduler \<Rightarrow> nat \<times> scheduler" where
  "evict_loop budget [] hot_tokens evicted s = (evicted, s)"
| "evict_loop budget (i # ids) hot_tokens evicted s =
     (if hot_tokens \<le> budget then (evicted, s)
      else evict_loop budget ids (hot_tokens - sn_token_cost (node_of s i)) (evicted + 1) (set_zone i Warm s))"

definition evict_context :: "scheduler \<Rightarrow> nat \<times> scheduler" where
  "evict_context s =
     (let hot = sort_by (score_cmp (priority_of s)) (zone_ids Hot s);
          hot_tokens = sum_list (map (\<lambda>i. sn_token_cost (node_of s i)) hot)
      in evict_loop (sc_token_budget s) hot hot_tokens 0 s)"

definition hot_token_usage :: "scheduler \<Rightarrow> nat" where
  "hot_token_usage s = sum_list (map (\<lambda>(_, n). sn_token_cost n) (filter (\<lambda>(_, n). sn_zone n = Hot) (sc_nodes s)))"

subsection \<open>Zones as a function of the processing order\<close>

definition sched_ok :: "scheduler \<Rightarrow> bool" where
  "sched_ok s \<longleftrightarrow> om_ok (sc_nodes s) \<and> sc_token_budget s \<ge> 1"

definition zone_of :: "scheduler \<Rightarrow> node_id \<Rightarrow> memory_zone" where
  "zone_of s i = sn_zone (node_of s i)"

definition cost_of :: "scheduler \<Rightarrow> node_id \<Rightarrow> nat" where
  "cost_of s i = sn_token_cost (node_of s i)"

definition ids_of :: "scheduler \<Rightarrow> node_id list" where
  "ids_of s = map fst (sc_nodes s)"

text \<open>What an operation may change: only zones of known nodes.\<close>

definition rezoned :: "scheduler \<Rightarrow> scheduler \<Rightarrow> bool" where
  "rezoned s s' \<longleftrightarrow> ids_of s' = ids_of s \<and> sc_token_budget s' = sc_token_budget s
     \<and> sc_warm_ratio s' = sc_warm_ratio s \<and> sc_clock s' = sc_clock s
     \<and> (\<forall>i \<in> set (ids_of s). \<exists>z. node_of s' i = (node_of s i)\<lparr>sn_zone := z\<rparr>)"

lemma rezoned_refl [simp]: "rezoned s s"
proof -
  have "\<exists>z. node_of s i = (node_of s i)\<lparr>sn_zone := z\<rparr>" for i
    by (intro exI [of _ "sn_zone (node_of s i)"]) simp
  then show ?thesis by (simp add: rezoned_def)
qed

lemma rezoned_trans: "rezoned s s' \<Longrightarrow> rezoned s' s'' \<Longrightarrow> rezoned s s''"
proof -
  assume a: "rezoned s s'" and b: "rezoned s' s''"
  have "\<exists>z. node_of s'' i = (node_of s i)\<lparr>sn_zone := z\<rparr>" if i: "i \<in> set (ids_of s)" for i
  proof -
    obtain y where "node_of s' i = (node_of s i)\<lparr>sn_zone := y\<rparr>" using a i by (auto simp: rezoned_def)
    moreover obtain z where "node_of s'' i = (node_of s' i)\<lparr>sn_zone := z\<rparr>"
      using a b i by (auto simp: rezoned_def)
    ultimately show ?thesis by (intro exI [of _ z]) simp
  qed
  with a b show ?thesis by (simp add: rezoned_def)
qed

lemma ids_set_zone [simp]: "ids_of (set_zone i z s) = ids_of s"
  by (simp add: ids_of_def set_zone_def)

lemma node_of_set_zone:
  assumes "i \<in> set (ids_of s)" "j \<in> set (ids_of s)"
  shows "node_of (set_zone i z s) j = (if j = i then (node_of s j)\<lparr>sn_zone := z\<rparr> else node_of s j)"
proof -
  have "map_of (sc_nodes s) i \<noteq> None" using assms(1) by (simp add: ids_of_def map_of_eq_None_iff)
  then show ?thesis by (auto simp: node_of_def set_zone_def)
qed

lemma rezoned_set_zone: "i \<in> set (ids_of s) \<Longrightarrow> rezoned s (set_zone i z s)"
proof -
  assume i: "i \<in> set (ids_of s)"
  have "\<exists>y. node_of (set_zone i z s) j = (node_of s j)\<lparr>sn_zone := y\<rparr>" if "j \<in> set (ids_of s)" for j
    using node_of_set_zone [OF i that, of z]
    by (cases "j = i") (auto intro: exI [of _ z] exI [of _ "sn_zone (node_of s j)"])
  then show ?thesis by (simp add: rezoned_def, simp add: set_zone_def)
qed

lemma zone_cost_set_zone:
  assumes "i \<in> set (ids_of s)" "j \<in> set (ids_of s)"
  shows "zone_of (set_zone i z s) j = (if j = i then z else zone_of s j)"
    and "cost_of (set_zone i z s) j = cost_of s j"
  using node_of_set_zone [OF assms, of z] by (simp_all add: zone_of_def cost_of_def)

lemma rezoned_cost: "rezoned s s' \<Longrightarrow> i \<in> set (ids_of s) \<Longrightarrow> cost_of s' i = cost_of s i"
  by (auto simp: rezoned_def cost_of_def)

definition hot_sum :: "scheduler \<Rightarrow> node_id list \<Rightarrow> nat" where
  "hot_sum s ids = sum_list (map (cost_of s) (filter (\<lambda>i. zone_of s i = Hot) ids))"

lemma hot_token_usage_eq:
  assumes "om_ok (sc_nodes s)"
  shows "hot_token_usage s = hot_sum s (ids_of s)"
proof -
  have "sum_list (map (\<lambda>(_, n). sn_token_cost n) (filter (\<lambda>(_, n). sn_zone n = Hot) m))
      = sum_list (map (\<lambda>i. sn_token_cost (the (f i))) (filter (\<lambda>i. sn_zone (the (f i)) = Hot) (map fst m)))"
    if "\<And>k n. (k, n) \<in> set m \<Longrightarrow> f k = Some n" for m and f :: "node_id \<Rightarrow> scheduled_node option"
    using that
  proof (induction m)
    case (Cons p m)
    obtain k n where p: "p = (k, n)" by (cases p)
    have "f k = Some n" using Cons.prems p by simp
    moreover have "\<And>k n. (k, n) \<in> set m \<Longrightarrow> f k = Some n" using Cons.prems by simp
    ultimately show ?case using Cons.IH p by simp
  qed simp
  from this [of "sc_nodes s" "map_of (sc_nodes s)"] om_get_iff [OF assms]
  show ?thesis by (simp add: hot_token_usage_def hot_sum_def ids_of_def cost_of_def [abs_def] zone_of_def node_of_def)
qed

text \<open>The loop over distinct known ids decides each zone once and touches no other node.\<close>

lemma place_all_spec:
  assumes "distinct ids" "set ids \<subseteq> set (ids_of s)" "used0 \<le> used" "as_hot_tokens stats \<le> budget"
    and "place_all charge budget wbudget ids used stats s = (stats', s')" "budget \<le> wbudget"
  shows "rezoned s s' \<and> (\<forall>j \<in> set (ids_of s) - set ids. zone_of s' j = zone_of s j)
    \<and> stats_total stats' = stats_total stats + length ids
    \<and> as_hot_tokens stats' \<le> budget
    \<and> as_hot stats' = as_hot stats + length (filter (\<lambda>i. zone_of s' i = Hot) ids)
    \<and> as_warm stats' = as_warm stats + length (filter (\<lambda>i. zone_of s' i = Warm) ids)
    \<and> as_cold stats' = as_cold stats + length (filter (\<lambda>i. zone_of s' i = Cold) ids)
    \<and> (used \<le> budget \<longrightarrow> used + hot_sum s' ids \<le> budget) \<and> (budget < used \<longrightarrow> hot_sum s' ids = 0)"
  using assms
proof (induction ids arbitrary: used stats s)
  case Nil
  then show ?case by (simp add: hot_sum_def)
next
  case (Cons i ids)
  let ?c = "cost_of s i"
  obtain z used1 stats1 where pl: "place charge budget wbudget used ?c stats = (z, used1, stats1)"
    by (metis prod_cases3)
  have i: "i \<in> set (ids_of s)" and sub: "set ids \<subseteq> set (ids_of (set_zone i z s))" and d: "distinct ids" "i \<notin> set ids"
    using Cons.prems(1,2) by simp_all
  have rest: "place_all charge budget wbudget ids used1 stats1 (set_zone i z s) = (stats', s')"
    using Cons.prems(5) pl by (simp add: cost_of_def del: place.simps)
  have mono: "used \<le> used1" "as_hot_tokens stats1 \<le> budget"
    using pl Cons.prems(4) by (auto split: if_splits)
  note IH = Cons.IH [OF d(1) sub le_trans [OF Cons.prems(3) mono(1)] mono(2) rest Cons.prems(6)]
  have zi: "zone_of s' i = z"
    using IH i d(2) zone_cost_set_zone(1) [OF i i, of z] by simp
  have re: "rezoned s s'" using rezoned_trans [OF rezoned_set_zone [OF i]] IH by blast
  have ci: "cost_of s' i = ?c" using rezoned_cost [OF re i] .
  have hs: "hot_sum s' (i # ids) = (if z = Hot then ?c else 0) + hot_sum s' ids"
    by (simp add: hot_sum_def zi ci)
  have other: "zone_of s' j = zone_of s j" if "j \<in> set (ids_of s) - set (i # ids)" for j
    using IH that zone_cost_set_zone(1) [OF i, of j z] by simp
  show ?case
    using IH pl re other hs zi Cons.prems(6)
    by (auto simp: stats_total_def split: if_splits)
qed

lemma place_all_known:
  assumes "sched_ok s" "ids = sort_by c (ids_of s)" "budget \<le> wbudget"
    and "place_all charge budget wbudget ids 0 (stats_start s) s = (stats, s')"
  shows "rezoned s s' \<and> sched_ok s' \<and> stats_total stats = length (sc_nodes s)
    \<and> as_hot_tokens stats \<le> budget \<and> hot_sum s' (ids_of s') \<le> budget
    \<and> as_hot stats = length (filter (\<lambda>i. zone_of s' i = Hot) ids)"
proof -
  have "distinct (ids_of s)" using assms(1) by (simp add: sched_ok_def ids_of_def om_ok_distinct)
  then have d: "distinct ids" "set ids \<subseteq> set (ids_of s)" using assms(2) by simp_all
  note spec = place_all_spec [OF d le_refl _ assms(4,3)]
  have start: "as_hot_tokens (stats_start s) \<le> budget" "stats_total (stats_start s) = 0" "as_hot (stats_start s) = 0"
    by (simp_all add: stats_start_def stats_total_def)
  have len: "length ids = length (sc_nodes s)" using assms(2) by (simp add: ids_of_def)
  have re: "rezoned s s'" using spec start by simp
  have map_keys: "map fst (sc_nodes s') = map fst (sc_nodes s)" using re by (simp add: rezoned_def ids_of_def)
  have "hot_sum s' (ids_of s') = hot_sum s' ids"
  proof -
    have "sum_list (map (\<lambda>i. if zone_of s' i = Hot then cost_of s' i else 0) (ids_of s'))
        = sum_list (map (\<lambda>i. if zone_of s' i = Hot then cost_of s' i else 0) ids)"
      using re assms(2) by (simp add: rezoned_def sum_list_sort_by)
    then show ?thesis by (simp add: hot_sum_def sum_list_map_filter')
  qed
  moreover have "sched_ok s'"
    using assms(1) map_keys re by (simp add: sched_ok_def om_ok_def rezoned_def)
  ultimately show ?thesis using spec start len re by simp
qed

text \<open>
  Allocation bounds the working context and loses nothing: whatever the priorities (NaN
  included), the HOT nodes fit the token budget, every node is counted in exactly one zone, and
  nothing but the zones changes.
\<close>

theorem allocate_bounded:
  assumes "sched_ok s" and "allocate_context s = (stats, s')"
  shows "rezoned s s' \<and> sched_ok s' \<and> hot_token_usage s' \<le> sc_token_budget s
    \<and> as_hot_tokens stats \<le> sc_token_budget s \<and> stats_total stats = length (sc_nodes s)"
proof -
  have "sc_token_budget s \<le> warm_budget s" by (simp add: warm_budget_def)
  from place_all_known [OF assms(1) refl this] assms(2) have
    r: "rezoned s s' \<and> sched_ok s' \<and> stats_total stats = length (sc_nodes s)
      \<and> as_hot_tokens stats \<le> sc_token_budget s \<and> hot_sum s' (ids_of s') \<le> sc_token_budget s"
    unfolding allocate_context_def ordered_by_priority_def ids_of_def by blast
  then show ?thesis using hot_token_usage_eq [of s'] by (simp add: sched_ok_def)
qed

text \<open>
  Re-packing by density keeps the same bounds: HOT fits the budget, every node is counted
  once, only zones change.
\<close>

theorem optimize_bounded:
  assumes "sched_ok s" and "optimize_budget s = (stats, s')"
  shows "rezoned s s' \<and> sched_ok s' \<and> hot_token_usage s' \<le> sc_token_budget s
    \<and> as_hot_tokens stats \<le> sc_token_budget s \<and> stats_total stats = length (sc_nodes s)"
proof -
  have "sc_token_budget s \<le> warm_budget s" by (simp add: warm_budget_def)
  from place_all_known [OF assms(1) refl this] assms(2) have
    r: "rezoned s s' \<and> sched_ok s' \<and> stats_total stats = length (sc_nodes s)
      \<and> as_hot_tokens stats \<le> sc_token_budget s \<and> hot_sum s' (ids_of s') \<le> sc_token_budget s"
    unfolding optimize_budget_def ids_of_def by blast
  then show ?thesis using hot_token_usage_eq [of s'] by (simp add: sched_ok_def)
qed

lemma evict_loop_spec:
  assumes "distinct ids" "set ids \<subseteq> set (ids_of s)"
    and "evict_loop budget ids tokens n s = (n', s')" "tokens = sum_list (map (cost_of s) ids)"
  shows "\<exists>k \<le> length ids. n' = n + k \<and> rezoned s s'
    \<and> (\<forall>j \<in> set (ids_of s). zone_of s' j = (if j \<in> set (take k ids) then Warm else zone_of s j))
    \<and> sum_list (map (cost_of s) (drop k ids)) \<le> budget
    \<and> (k > 0 \<longrightarrow> sum_list (map (cost_of s) (drop (k - 1) ids)) > budget)"
  using assms
proof (induction ids arbitrary: tokens n s)
  case Nil
  then show ?case by simp
next
  case (Cons i ids)
  show ?case
  proof (cases "tokens \<le> budget")
    case True
    with Cons.prems(3) have "n' = n" "s' = s" by simp_all
    then show ?thesis using True Cons.prems(4) by (intro exI [of _ 0]) simp
  next
    case False
    let ?s = "set_zone i Warm s"
    have i: "i \<in> set (ids_of s)" and d: "distinct ids" "i \<notin> set ids" "set ids \<subseteq> set (ids_of ?s)"
      using Cons.prems(1,2) by simp_all
    have costs: "cost_of ?s j = cost_of s j" if "j \<in> set (ids_of s)" for j
      using zone_cost_set_zone(2) [OF i that] .
    then have sums: "sum_list (map (cost_of ?s) js) = sum_list (map (cost_of s) js)" if "set js \<subseteq> set (ids_of s)" for js
      using that by (induction js) simp_all
    have sub_drop: "set (drop k ids) \<subseteq> set (ids_of s)" for k
      using d(3) by (auto dest: in_set_dropD)
    have "evict_loop budget ids (tokens - cost_of s i) (n + 1) ?s = (n', s')"
      using Cons.prems(3) False by (simp add: cost_of_def)
    moreover have "tokens - cost_of s i = sum_list (map (cost_of ?s) ids)"
      using Cons.prems(4) sums [of ids] d(3) by simp
    ultimately obtain k where k: "k \<le> length ids" "n' = n + 1 + k" "rezoned ?s s'"
      "\<forall>j \<in> set (ids_of ?s). zone_of s' j = (if j \<in> set (take k ids) then Warm else zone_of ?s j)"
      "sum_list (map (cost_of ?s) (drop k ids)) \<le> budget"
      "k > 0 \<longrightarrow> sum_list (map (cost_of ?s) (drop (k - 1) ids)) > budget"
      using Cons.IH [OF d(1,3)] by blast
    have zones: "zone_of s' j = (if j \<in> set (take (Suc k) (i # ids)) then Warm else zone_of s j)"
      if j: "j \<in> set (ids_of s)" for j
      using k(4) j zone_cost_set_zone(1) [OF i j, of Warm] by auto
    have "sum_list (map (cost_of s) (drop (Suc k - 1) (i # ids))) > budget"
      using k(6) False Cons.prems(4) sums [OF sub_drop] by (cases k) simp_all
    then show ?thesis
      using k zones rezoned_trans [OF rezoned_set_zone [OF i] k(3)] sums [OF sub_drop]
      by (intro exI [of _ "Suc k"]) simp
  qed
qed

text \<open>
  Eviction is bounded and minimal: it moves the lowest-priority HOT nodes to WARM until the
  HOT tier fits the budget, stops at the first point where it does, reports how many it moved,
  and touches nothing else.
\<close>

theorem evict_fits_budget:
  assumes "sched_ok s" and "evict_context s = (n, s')"
  shows "rezoned s s' \<and> hot_token_usage s' \<le> sc_token_budget s
    \<and> (hot_token_usage s \<le> sc_token_budget s \<longrightarrow> n = 0)
    \<and> (\<forall>j \<in> set (ids_of s). zone_of s' j = (if j \<in> set (take n (sort_by (score_cmp (priority_of s)) (zone_ids Hot s)))
        then Warm else zone_of s j))"
proof -
  define hot where "hot = sort_by (score_cmp (priority_of s)) (zone_ids Hot s)"
  have om: "om_ok (sc_nodes s)" using assms(1) by (simp add: sched_ok_def)
  have z: "zone_ids Hot s = filter (\<lambda>i. zone_of s i = Hot) (ids_of s)"
  proof -
    have "map fst (filter (\<lambda>(_, n). sn_zone n = Hot) m) = filter (\<lambda>i. sn_zone (the (f i)) = Hot) (map fst m)"
      if "\<And>k n. (k, n) \<in> set m \<Longrightarrow> f k = Some n" for m and f :: "node_id \<Rightarrow> scheduled_node option"
      using that
    proof (induction m)
      case (Cons p m)
      obtain k n where p: "p = (k, n)" by (cases p)
      have "f k = Some n" using Cons.prems p by simp
      moreover have "\<And>k n. (k, n) \<in> set m \<Longrightarrow> f k = Some n" using Cons.prems by simp
      ultimately show ?case using Cons.IH p by simp
    qed simp
    from this [of "sc_nodes s" "map_of (sc_nodes s)"] om_get_iff [OF om]
    show ?thesis by (simp add: zone_ids_def zone_of_def ids_of_def node_of_def)
  qed
  have dist: "distinct hot" "set hot = {i \<in> set (ids_of s). zone_of s i = Hot}"
    using om_ok_distinct [OF om] by (auto simp: hot_def z ids_of_def)
  have total: "sum_list (map (cost_of s) hot) = hot_token_usage s"
    using hot_token_usage_eq [OF om] by (simp add: hot_def z hot_sum_def sum_list_sort_by)
  have run: "evict_loop (sc_token_budget s) hot (sum_list (map (cost_of s) hot)) 0 s = (n, s')"
    using assms(2) by (simp add: evict_context_def hot_def Let_def cost_of_def [abs_def])
  obtain k where k: "k \<le> length hot" "n = k" "rezoned s s'"
    "\<forall>j \<in> set (ids_of s). zone_of s' j = (if j \<in> set (take k hot) then Warm else zone_of s j)"
    "sum_list (map (cost_of s) (drop k hot)) \<le> sc_token_budget s"
    "k > 0 \<longrightarrow> sum_list (map (cost_of s) (drop (k - 1) hot)) > sc_token_budget s"
    using evict_loop_spec [OF dist(1) _ run refl] dist(2) by auto
  have om': "om_ok (sc_nodes s')" using om k(3) by (simp add: om_ok_def rezoned_def ids_of_def)
  have ids': "ids_of s' = ids_of s" using k(3) by (simp add: rezoned_def)
  have "hot_sum s' (ids_of s') = sum_list (map (cost_of s) (drop k hot))"
  proof -
    have mem: "i \<in> set hot \<and> i \<notin> set (take k hot) \<longleftrightarrow> i \<in> set (drop k hot)" for i
      using dist(1) set_take_disj_set_drop_if_distinct [OF dist(1), of k k] append_take_drop_id [of k hot]
      by (metis Un_iff disjoint_iff order_refl set_append)
    have "set (filter (\<lambda>i. zone_of s' i = Hot) (ids_of s)) = set (drop k hot)"
    proof (intro set_eqI iffI)
      fix i assume "i \<in> set (filter (\<lambda>i. zone_of s' i = Hot) (ids_of s))"
      then have i: "i \<in> set (ids_of s)" "zone_of s' i = Hot" by simp_all
      then have "i \<notin> set (take k hot)" "zone_of s i = Hot" using k(4) by (metis memory_zone.distinct(1))+
      with i(1) dist(2) mem show "i \<in> set (drop k hot)" by blast
    next
      fix i assume "i \<in> set (drop k hot)"
      then have "i \<in> set hot" "i \<notin> set (take k hot)" using mem by blast+
      then have "i \<in> set (ids_of s)" "zone_of s' i = Hot" using k(4) dist(2) by simp_all
      then show "i \<in> set (filter (\<lambda>i. zone_of s' i = Hot) (ids_of s))" by simp
    qed
    moreover have "distinct (filter (\<lambda>i. zone_of s' i = Hot) (ids_of s))" "distinct (drop k hot)"
      using om_ok_distinct [OF om] dist(1) by (simp_all add: ids_of_def)
    moreover have "cost_of s' i = cost_of s i" if "i \<in> set (ids_of s)" for i
      using rezoned_cost [OF k(3) that] .
    ultimately have "sum_list (map (cost_of s) (filter (\<lambda>i. zone_of s' i = Hot) (ids_of s))) = sum_list (map (cost_of s) (drop k hot))"
      by (simp add: sum_list_distinct_conv_sum_set)
    moreover have "map (cost_of s') (filter (\<lambda>i. zone_of s' i = Hot) (ids_of s)) = map (cost_of s) (filter (\<lambda>i. zone_of s' i = Hot) (ids_of s))"
      using rezoned_cost [OF k(3)] by simp
    ultimately show ?thesis by (simp only: hot_sum_def ids')
  qed
  then have "hot_token_usage s' \<le> sc_token_budget s" using hot_token_usage_eq [OF om'] k(5) by simp
  moreover have "k = 0" if "hot_token_usage s \<le> sc_token_budget s"
  proof (rule ccontr)
    assume "k \<noteq> 0"
    then have "sum_list (map (cost_of s) (drop (k - 1) hot)) > sc_token_budget s" using k(6) by simp
    moreover have "sum_list (map (cost_of s) (drop (k - 1) hot)) \<le> sum_list (map (cost_of s) hot)"
      by (metis append_take_drop_id le_add2 map_append sum_list_append)
    ultimately show False using total that by simp
  qed
  ultimately show ?thesis using k hot_def by simp
qed

text \<open>
  One oversized node can starve the HOT tier: when the node of highest priority does not fit
  the token budget but fits the WARM one, \<open>allocate_context\<close> charges it to the shared counter
  and every later node with a positive cost stays out of HOT, however small it is.
\<close>

theorem allocate_starves_hot:
  assumes ok: "sched_ok s" and order: "ordered_by_priority s = i # ids"
    and big: "sc_token_budget s < cost_of s i" "cost_of s i \<le> warm_budget s"
    and pos: "list_all (\<lambda>j. cost_of s j > 0) ids"
    and run: "allocate_context s = (stats, s')"
  shows "zone_ids Hot s' = [] \<and> as_hot stats = 0"
proof -
  have d: "distinct (i # ids)" "set (i # ids) \<subseteq> set (ids_of s)" "set (i # ids) = set (ids_of s)"
    using ok order om_ok_distinct [of "sc_nodes s"] unfolding ordered_by_priority_def
    by (metis distinct_sort_by sched_ok_def, metis ids_of_def order_refl set_sort_by, metis ids_of_def set_sort_by)
  have le: "sc_token_budget s \<le> warm_budget s" by (simp add: warm_budget_def)
  let ?st = "(stats_start s)\<lparr>as_warm := 1\<rparr>"
  have rest: "place_all True (sc_token_budget s) (warm_budget s) ids (cost_of s i) ?st (set_zone i Warm s) = (stats, s')"
    using run order big by (simp add: allocate_context_def cost_of_def stats_start_def)
  have i: "i \<in> set (ids_of s)" using d(2) by simp
  note spec = place_all_spec [OF _ _ le_refl _ rest le]
  have S: "rezoned (set_zone i Warm s) s'" "\<forall>j \<in> set (ids_of s) - set ids. zone_of s' j = zone_of (set_zone i Warm s) j"
    "hot_sum s' ids = 0" "as_hot stats = 0 + length (filter (\<lambda>i. zone_of s' i = Hot) ids)"
    using spec d(1,2) big(1) by (simp_all add: stats_start_def)
  have re: "rezoned s s'" using rezoned_trans [OF rezoned_set_zone [OF i] S(1)] .
  have none: "zone_of s' j \<noteq> Hot" if j: "j \<in> set ids" for j
  proof
    assume "zone_of s' j = Hot"
    with j S(3) have "cost_of s' j = 0" by (simp add: hot_sum_def)
    moreover have "cost_of s' j = cost_of s j" by (rule rezoned_cost [OF re]) (use j d(2) in auto)
    moreover have "cost_of s j > 0" using pos j by (simp add: list_all_iff)
    ultimately show False by simp
  qed
  have zi: "zone_of s' i = Warm" using S(2) i d(1) zone_cost_set_zone(1) [OF i i, of Warm] by simp
  have all: "zone_of s' j \<noteq> Hot" if "j \<in> set (ids_of s')" for j
  proof -
    have "j \<in> insert i (set ids)" using that re d(3) by (simp add: rezoned_def)
    then show ?thesis using none zi by auto
  qed
  have om': "om_ok (sc_nodes s')" using ok re by (simp add: sched_ok_def om_ok_def rezoned_def ids_of_def)
  have "(k, n) \<notin> set (sc_nodes s')" if "sn_zone n = Hot" for k n
  proof
    assume mem: "(k, n) \<in> set (sc_nodes s')"
    then have "map_of (sc_nodes s') k = Some n" using om_get_iff [OF om'] by simp
    then have "zone_of s' k = Hot" using that by (simp add: zone_of_def node_of_def)
    moreover have "k \<in> set (ids_of s')" using mem by (force simp: ids_of_def)
    ultimately show False using all by simp
  qed
  then have "zone_ids Hot s' = []" by (auto simp: zone_ids_def filter_empty_conv)
  moreover have "as_hot stats = 0" using S(4) none by (simp add: filter_empty_conv)
  ultimately show ?thesis by simp
qed

subsection \<open>Concrete instances\<close>

definition starved :: scheduler where
  "starved = sched_upsert ''a'' 11 0x4000000000000000 (sched_upsert ''b'' 1 0x3FF0000000000000 (sched_new 10))"

lemma sched_ok_upsert [intro]: "sched_ok s \<Longrightarrow> sched_ok (sched_upsert i c p s)"
  by (simp add: sched_ok_def sched_upsert_def Let_def om_ok_insert)

lemma sched_ok_touch [intro]: "sched_ok s \<Longrightarrow> sched_ok (sched_touch i s)"
  by (simp add: sched_ok_def sched_touch_def Let_def om_ok_update)

lemma sched_ok_new [intro]: "sched_ok (sched_new b)"
  by (simp add: sched_ok_def sched_new_def)

lemma starved_ok: "sched_ok starved"
  unfolding starved_def by (intro sched_ok_upsert sched_ok_new)

lemma allocate_bounded_witness: "hot_token_usage (snd (allocate_context starved)) \<le> 10"
  using allocate_bounded [OF starved_ok, of "fst (allocate_context starved)" "snd (allocate_context starved)"]
  by (simp add: starved_def sched_upsert_def sched_new_def Let_def)

lemma optimize_bounded_witness: "hot_token_usage (snd (optimize_budget starved)) \<le> 10"
  using optimize_bounded [OF starved_ok, of "fst (optimize_budget starved)" "snd (optimize_budget starved)"]
  by (simp add: starved_def sched_upsert_def sched_new_def Let_def)

lemma evict_fits_budget_witness: "hot_token_usage (snd (evict_context starved)) \<le> 10"
  using evict_fits_budget [OF starved_ok, of "fst (evict_context starved)" "snd (evict_context starved)"]
  by (simp add: starved_def sched_upsert_def sched_new_def Let_def)

lemma warm_budget_default:
  assumes "sc_warm_ratio s = f64_rat 1 1" "sc_token_budget s < 2 ^ 53"
  shows "warm_budget s = 2 * sc_token_budget s"
proof -
  have "f64_max f64_one (f64_zero False) = f64_one"
    by (simp add: f64_max_def f64_is_nan_def f64_mag_def f64_one_def f64_zero_def f64_of_mag_def f64_inf_mag_def
        f64_lt_def f64_key_def f64_neg_bit_def)
  then have "f64_mul (f64_of_nat (sc_token_budget s)) (f64_max (sc_warm_ratio s) (f64_zero False)) = f64_of_nat (sc_token_budget s)"
    using f64_mul_one [OF f64_of_nat_num(2) [OF assms(2)]] assms(1) by simp
  with f64_to_usize_of_nat [OF assms(2)] show ?thesis by (simp add: warm_budget_def)
qed

lemma allocate_starves_hot_witness: "zone_ids Hot (snd (allocate_context starved)) = []"
proof -
  have shape: "sc_nodes starved = [(''a'', \<lparr>sn_node_id = ''a'', sn_token_cost = 11, sn_access_frequency = 0,
      sn_last_access = 0, sn_priority = 0x4000000000000000, sn_zone = Cold\<rparr>),
    (''b'', \<lparr>sn_node_id = ''b'', sn_token_cost = 1, sn_access_frequency = 0, sn_last_access = 0,
      sn_priority = 0x3FF0000000000000, sn_zone = Cold\<rparr>)]" "sc_token_budget starved = 10"
    "sc_warm_ratio starved = f64_rat 1 1"
    by (simp_all add: starved_def sched_upsert_def sched_new_def Let_def)
  have "f64_lt 0x3FF0000000000000 0x4000000000000000" "\<not> f64_lt 0x4000000000000000 0x3FF0000000000000"
    by (simp_all add: f64_lt_def f64_is_nan_def f64_key_def f64_mag_def f64_neg_bit_def f64_inf_mag_def)
  then have "score_cmp_desc (priority_of starved) ''a'' ''b'' = Less"
    by (simp add: score_cmp_desc_def cmp_then_def f64_cmp_def priority_of_def node_of_def shape)
  then have order: "ordered_by_priority starved = ''a'' # [''b'']"
    by (simp add: ordered_by_priority_def shape)
  have w: "warm_budget starved = 20"
    using warm_budget_default [OF shape(3)] by (simp add: shape(2))
  have cost: "cost_of starved ''a'' = 11" "cost_of starved ''b'' = 1"
    by (simp_all add: cost_of_def node_of_def shape)
  from allocate_starves_hot [OF starved_ok order _ _ _ prod.collapse [symmetric]] show ?thesis
    by (simp add: shape w cost)
qed

end
