(* ===== verification/Claim.thy ===== *)
theory Claim
  imports Bytes
begin

text \<open>
  \<open>src/claim.rs\<close>: one-time claim codes. Entropy becomes a code of 20 Crockford base-32
  symbols, operator input is brought to the canonical form, and codes and machine ids travel
  as domain-separated hashes (SHA-256 is the argument \<open>sha\<close>). Rust iterates a string by
  characters and slices it by bytes, so the model decodes UTF-8 and a slice off a character
  boundary is a panic (\<open>Inl ()\<close>).
\<close>

unbundle bit_operations_syntax

definition ALPHABET :: string where
  "ALPHABET = ''0123456789ABCDEFGHJKMNPQRSTVWXYZ''"

record claim_request =
  cr_schema :: string
  cr_code_hash :: string
  cr_machine :: string

subsection \<open>Codes from entropy\<close>

fun code_symbols :: "u32 \<Rightarrow> nat \<Rightarrow> string \<Rightarrow> nat \<times> string" where
  \<comment> \<open>the inner loop: \<open>while bits >= 5 && symbols.len() < 20\<close>\<close>
  "code_symbols acc bits symbols =
     (if bits \<ge> 5 \<and> length symbols < 20 then
        code_symbols acc (bits - 5) (symbols @ [ALPHABET ! unat (drop_bit (bits - 5) acc AND 31)])
      else (bits, symbols))"

declare code_symbols.simps [simp del]

fun code_bytes :: "bytes \<Rightarrow> u32 \<Rightarrow> nat \<Rightarrow> string \<Rightarrow> string" where
  "code_bytes [] acc bits symbols = symbols"
| "code_bytes (b # bs) acc bits symbols =
     (let acc' = push_bit 8 acc OR ucast b;
          (bits', symbols') = code_symbols acc' (bits + 8) symbols
      in if length symbols' = 20 then symbols' else code_bytes bs acc' bits' symbols')"

definition format_code :: "string \<Rightarrow> string" where
  \<comment> \<open>the groups of five behind \<open>CCOS\<close>\<close>
  "format_code s = ''CCOS-'' @ take 5 s @ ''-'' @ take 5 (drop 5 s) @ ''-'' @ take 5 (drop 10 s)
     @ ''-'' @ take 5 (drop 15 s)"

definition code_from_entropy :: "bytes \<Rightarrow> string" where
  "code_from_entropy entropy = format_code (code_bytes entropy 0 0 [])"

subsection \<open>Canonical form\<close>

definition cp_bits :: "u8 \<Rightarrow> nat \<Rightarrow> nat" where
  "cp_bits b n = unat b mod 2 ^ n"

fun chars_of :: "bytes \<Rightarrow> nat list" where
  \<comment> \<open>\<open>str::chars\<close>: the code points of well-formed UTF-8\<close>
  "chars_of [] = []"
| "chars_of (a # bs) =
     (case utf8_width a of
        0 \<Rightarrow> []
      | Suc 0 \<Rightarrow> unat a # chars_of bs
      | Suc (Suc 0) \<Rightarrow> (cp_bits a 5 * 64 + cp_bits (bs ! 0) 6) # chars_of (drop 1 bs)
      | Suc (Suc (Suc 0)) \<Rightarrow>
          ((cp_bits a 4 * 64 + cp_bits (bs ! 0) 6) * 64 + cp_bits (bs ! 1) 6) # chars_of (drop 2 bs)
      | _ \<Rightarrow> (((cp_bits a 3 * 64 + cp_bits (bs ! 0) 6) * 64 + cp_bits (bs ! 1) 6) * 64 + cp_bits (bs ! 2) 6)
             # chars_of (drop 3 bs))"

definition push_char :: "nat \<Rightarrow> string" where
  \<comment> \<open>the UTF-8 form of a code point\<close>
  "push_char c = map char_of
     (if c < 2 ^ 7 then [c]
      else if c < 2 ^ 11 then [192 + c div 64, 128 + c mod 64]
      else if c < 2 ^ 16 then [224 + c div 4096, 128 + c div 64 mod 64, 128 + c mod 64]
      else [240 + c div 262144, 128 + c div 4096 mod 64, 128 + c div 64 mod 64, 128 + c mod 64])"

definition ascii_upper :: "nat \<Rightarrow> nat" where
  "ascii_upper c = (if 97 \<le> c \<and> c \<le> 122 then c - 32 else c)"

definition fold_symbol :: "nat \<Rightarrow> nat" where
  \<comment> \<open>upper case, and the confusions \<open>O\<close>, \<open>I\<close>, \<open>L\<close>\<close>
  "fold_symbol c =
     (let up = ascii_upper c in
        if up = 79 then 48 else if up = 73 \<or> up = 76 then 49 else up)"

definition separators :: "nat list" where
  "separators = [45, 32, 95, 9]"

fun canonical_symbols :: "nat list \<Rightarrow> string \<Rightarrow> string option" where
  "canonical_symbols [] symbols = Some symbols"
| "canonical_symbols (c # cs) symbols =
     (if c \<in> set separators then canonical_symbols cs symbols
      else let c' = fold_symbol c in
        \<comment> \<open>\<open>c as u8\<close> keeps the low byte\<close>
        if char_of (c' mod 256) \<notin> set ALPHABET then None
        else canonical_symbols cs (symbols @ push_char c'))"

definition char_boundary :: "string \<Rightarrow> nat \<Rightarrow> bool" where
  \<comment> \<open>\<open>is_char_boundary\<close>, for an index inside the string\<close>
  "char_boundary s i \<longleftrightarrow> i = length s \<or> (i < length s \<and> \<not> utf8_tail (byte_of (s ! i)))"

definition canonical_code :: "string \<Rightarrow> unit + string option" where
  "canonical_code input =
     (case canonical_symbols (chars_of (bytes_of input)) [] of
        None \<Rightarrow> Inr None
      | Some symbols \<Rightarrow>
          (let body = (case strip_prefix symbols ''CC0S'' of Some b \<Rightarrow> b | None \<Rightarrow> symbols) in
             if length body \<noteq> 20 then Inr None
             else if list_all (char_boundary body) [0, 5, 10, 15, 20] then Inr (Some (format_code body))
             else Inl ()))"

definition code_hash :: "(string \<Rightarrow> string) \<Rightarrow> string \<Rightarrow> string" where
  "code_hash sha canonical = sha (''ccos-claim-code-v1|'' @ canonical)"

definition is_sha256_hex :: "string \<Rightarrow> bool" where
  \<comment> \<open>\<open>is_ascii_hexdigit() && !is_ascii_uppercase()\<close> is \<open>is_lower_hex\<close>\<close>
  "is_sha256_hex s \<longleftrightarrow> length s = 64 \<and> list_all is_lower_hex s"

subsection \<open>ASCII input\<close>

definition is_ascii :: "string \<Rightarrow> bool" where
  "is_ascii s \<longleftrightarrow> list_all (\<lambda>c. of_char c < (128 :: nat)) s"

lemma chars_of_ascii: "is_ascii s \<Longrightarrow> chars_of (bytes_of s) = map of_char s"
proof (induction s)
  case Nil
  then show ?case by (simp add: bytes_of_def)
next
  case (Cons c s)
  have u: "unat (byte_of c) = of_char c" by (simp add: byte_of_def unat_of_nat)
  have "utf8_width (byte_of c) = Suc 0" using Cons.prems u by (simp add: is_ascii_def utf8_width_def)
  with Cons u show ?case by (simp add: bytes_of_def is_ascii_def)
qed

definition code_char :: "char \<Rightarrow> bool" where
  "code_char c \<longleftrightarrow> c \<in> set ALPHABET"

lemma code_char_cases:
  assumes "code_char c"
  shows "of_char c < (128 :: nat)" "of_char c \<notin> set separators" "fold_symbol (of_char c) = of_char c"
    "push_char (of_char c) = [c]" "char_of (of_char c mod 256 :: nat) = c"
proof -
  have "c \<in> set ALPHABET" using assms by (simp add: code_char_def)
  then have all: "of_char c < (128 :: nat) \<and> of_char c \<notin> set separators \<and> fold_symbol (of_char c) = of_char c"
    unfolding ALPHABET_def by (auto simp: separators_def fold_symbol_def ascii_upper_def)
  then show "of_char c < (128 :: nat)" "of_char c \<notin> set separators" "fold_symbol (of_char c) = of_char c"
    by simp_all
  with all show "push_char (of_char c) = [c]" "char_of (of_char c mod 256 :: nat) = c"
    by (simp_all add: push_char_def)
qed

lemma canonical_symbols_append:
  "canonical_symbols (xs @ ys) acc = Option.bind (canonical_symbols xs acc) (canonical_symbols ys)"
  by (induction xs arbitrary: acc) (auto simp: Let_def)

lemma canonical_symbols_code:
  "list_all code_char s \<Longrightarrow> canonical_symbols (map of_char s) acc = Some (acc @ s)"
proof (induction s arbitrary: acc)
  case (Cons c s)
  then have c: "code_char c" and s: "list_all code_char s" by simp_all
  note cc = code_char_cases [OF c]
  from c have "c \<in> set ALPHABET" by (simp add: code_char_def)
  with cc Cons.IH [OF s, of "acc @ [c]"] show ?case by (simp add: Let_def)
qed simp

lemma canonical_symbols_sep: "canonical_symbols (45 # cs) acc = canonical_symbols cs acc"
  by (simp add: separators_def)

lemma char_of_zero: "char_of (48 :: nat) = CHR ''0''"
proof -
  have "char_of (of_char (CHR ''0'') :: nat) = CHR ''0''" by (rule char_of_char)
  then show ?thesis by simp
qed

lemma canonical_symbols_prefix: "canonical_symbols (map of_char ''CCOS'' @ cs) [] = canonical_symbols cs ''CC0S''"
proof -
  have code: "list_all code_char ''CC''" "list_all code_char ''S''" by (simp_all add: code_char_def ALPHABET_def)
  have O: "canonical_symbols (map of_char ''O'' @ cs) acc = canonical_symbols cs (acc @ ''0'')" for cs acc
    by (simp add: separators_def fold_symbol_def ascii_upper_def ALPHABET_def push_char_def Let_def char_of_zero)
  have "''CCOS'' = ''CC'' @ ''O'' @ ''S''" by simp
  then have "canonical_symbols (map of_char ''CCOS'' @ cs) []
      = canonical_symbols (map of_char ''CC'' @ map of_char ''O'' @ map of_char ''S'' @ cs) []"
    by (simp only: map_append append_assoc)
  also have "\<dots> = canonical_symbols (map of_char ''O'' @ map of_char ''S'' @ cs) ''CC''"
    by (simp only: canonical_symbols_append [of "map of_char ''CC''"] canonical_symbols_code [OF code(1)] bind.bind_lunit append_Nil)
  also have "\<dots> = canonical_symbols (map of_char ''S'' @ cs) ''CC0''"
    by (simp only: O append_Cons append_Nil)
  also have "\<dots> = canonical_symbols cs ''CC0S''"
    by (simp only: canonical_symbols_append [of "map of_char ''S''"] canonical_symbols_code [OF code(2)] bind.bind_lunit append_Cons append_Nil)
  finally show ?thesis .
qed

lemma code_char_boundary:
  assumes "list_all code_char s" "length s = 20"
  shows "list_all (char_boundary s) [0, 5, 10, 15, 20]"
proof -
  have "\<not> utf8_tail (byte_of c)" if "code_char c" for c
    using code_char_cases(1) [OF that] by (simp add: utf8_tail_def u8_range_def byte_of_def unat_of_nat)
  then have ok: "\<not> utf8_tail (byte_of (s ! i))" if "i < 20" for i
    using assms that by (simp add: list_all_length)
  have "char_boundary s i" if "i < 20" for i
    using ok [OF that] that assms(2) by (simp only: char_boundary_def) blast
  moreover have "char_boundary s 20" using assms(2) by (simp only: char_boundary_def) blast
  ultimately show ?thesis by simp
qed

lemma format_code_ascii:
  assumes "list_all code_char s"
  shows "is_ascii (format_code s)"
proof -
  have t: "list_all (\<lambda>c. of_char c < (128 :: nat)) (take n (drop m s))" for n m
    using assms code_char_cases(1) by (auto simp: list_all_iff dest!: in_set_takeD in_set_dropD)
  from t [of 5 0] t show ?thesis by (simp add: is_ascii_def format_code_def)
qed

lemma canonical_format:
  assumes "list_all code_char s" "length s = 20"
  shows "canonical_code (format_code s) = Inr (Some (format_code s))"
proof -
  let ?g = "\<lambda>m. take 5 (drop m s)"
  have g: "list_all code_char (?g m)" for m
    using assms(1) by (auto simp: list_all_iff dest!: in_set_takeD in_set_dropD)
  have s: "?g 0 @ ?g 5 @ ?g 10 @ ?g 15 = s"
  proof -
    have "take (5 + (5 + (5 + 5))) s = ?g 0 @ ?g 5 @ ?g 10 @ ?g 15"
      by (simp only: take_add drop_drop drop_0) simp
    then show ?thesis using assms(2) by simp
  qed
  have sep: "canonical_symbols (map of_char ''-'' @ cs) acc = canonical_symbols cs acc" for cs acc
    by (simp add: canonical_symbols_sep del: canonical_symbols.simps)
  have part: "canonical_symbols (map of_char (?g m) @ cs) acc = canonical_symbols cs (acc @ ?g m)" for m cs acc
    by (simp only: canonical_symbols_append canonical_symbols_code [OF g] bind.bind_lunit)
  have last: "canonical_symbols (map of_char (?g m)) acc = Some (acc @ ?g m)" for m acc
    by (rule canonical_symbols_code [OF g])
  have shape: "format_code s = ''CCOS'' @ ''-'' @ ?g 0 @ ''-'' @ ?g 5 @ ''-'' @ ?g 10 @ ''-'' @ ?g 15"
    by (simp add: format_code_def)
  have "canonical_symbols (map of_char (format_code s)) []
      = Some ((((''CC0S'' @ ?g 0) @ ?g 5) @ ?g 10) @ ?g 15)"
    by (simp only: shape map_append canonical_symbols_prefix sep part last)
  then have "canonical_symbols (map of_char (format_code s)) [] = Some (''CC0S'' @ s)"
    by (simp only: append_assoc s)
  then have "canonical_symbols (chars_of (bytes_of (format_code s))) [] = Some (''CC0S'' @ s)"
    using chars_of_ascii [OF format_code_ascii [OF assms(1)]] by simp
  then show ?thesis
    unfolding canonical_code_def using assms(2) code_char_boundary [OF assms]
    by (simp only: option.case strip_prefix_def starts_with_def) simp
qed

lemma and_31_less: "unat (x AND 31 :: u32) < 32"
proof -
  have "x AND 31 \<le> (31 :: u32)" by (rule word_and_le1)
  then have "unat (x AND 31) \<le> unat (31 :: u32)" by (simp only: word_le_nat_alt)
  then show ?thesis by simp
qed

lemma code_symbols_spec:
  assumes "code_symbols acc bits symbols = (bits', symbols')" "length symbols \<le> 20"
  shows "\<exists>ext. symbols' = symbols @ ext \<and> list_all code_char ext \<and> 5 * length ext + bits' = bits
    \<and> length symbols' \<le> 20 \<and> (bits' < 5 \<or> length symbols' = 20)"
  using assms
proof (induction acc bits symbols rule: code_symbols.induct)
  case (1 acc bits symbols)
  show ?case
  proof (cases "bits \<ge> 5 \<and> length symbols < 20")
    case True
    let ?c = "ALPHABET ! unat (drop_bit (bits - 5) acc AND 31)"
    have "length ALPHABET = 32" by (simp add: ALPHABET_def)
    then have c: "code_char ?c" using and_31_less by (simp add: code_char_def)
    have "code_symbols acc (bits - 5) (symbols @ [?c]) = (bits', symbols')"
      using "1.prems"(1) True by (subst (asm) code_symbols.simps) simp
    from "1.IH" [OF True this] True obtain ext where
      "symbols' = (symbols @ [?c]) @ ext" "list_all code_char ext" "5 * length ext + bits' = bits - 5"
      "length symbols' \<le> 20" "bits' < 5 \<or> length symbols' = 20" by auto
    with c True show ?thesis by (intro exI [of _ "?c # ext"]) auto
  next
    case False
    then have "bits' = bits" "symbols' = symbols"
      using "1.prems"(1) by (auto simp: code_symbols.simps [of acc bits symbols])
    with False "1.prems"(2) show ?thesis by auto
  qed
qed

lemma code_bytes_spec:
  "length symbols \<le> 20 \<Longrightarrow> 100 \<le> 5 * length symbols + bits + 8 * length bs \<Longrightarrow> bits < 5 \<Longrightarrow>
     list_all code_char symbols \<Longrightarrow>
     list_all code_char (code_bytes bs acc bits symbols) \<and> length (code_bytes bs acc bits symbols) = 20"
proof (induction bs arbitrary: acc bits symbols)
  case Nil
  then show ?case by simp
next
  case (Cons b bs)
  define acc' where "acc' = push_bit 8 acc OR ucast b"
  obtain bits' symbols' where st: "code_symbols acc' (bits + 8) symbols = (bits', symbols')"
    by (cases "code_symbols acc' (bits + 8) symbols")
  from code_symbols_spec [OF st Cons.prems(1)] obtain ext where
    ext: "symbols' = symbols @ ext" "list_all code_char ext" "5 * length ext + bits' = bits + 8"
    "length symbols' \<le> 20" "bits' < 5 \<or> length symbols' = 20" by blast
  have eq: "code_bytes (b # bs) acc bits symbols = (if length symbols' = 20 then symbols' else code_bytes bs acc' bits' symbols')"
    using st by (simp add: acc'_def)
  show ?case
  proof (cases "length symbols' = 20")
    case True
    then show ?thesis using eq ext(1,2) Cons.prems(4) by simp
  next
    case False
    have len: "5 * length symbols' = 5 * length symbols + 5 * length ext" using ext(1) by simp
    have "100 \<le> 5 * length symbols' + bits' + 8 * length bs"
      using Cons.prems(2) ext(3) len by simp
    from Cons.IH [OF ext(4) this] ext(1,2,5) False Cons.prems(4) eq show ?thesis by simp
  qed
qed

text \<open>
  Every generated claim code is accepted by the client as it is: for any 16 bytes of entropy
  the formatted code is already its own canonical form.
\<close>

theorem claim_code_canonical:
  assumes "length entropy = 16"
  shows "canonical_code (code_from_entropy entropy) = Inr (Some (code_from_entropy entropy))"
proof -
  have "list_all code_char (code_bytes entropy 0 0 []) \<and> length (code_bytes entropy 0 0 []) = 20"
    by (rule code_bytes_spec) (simp_all add: assms)
  then show ?thesis unfolding code_from_entropy_def by (intro canonical_format) simp_all
qed

fun fold_symbols :: "nat list \<Rightarrow> string \<Rightarrow> string option" where
  "fold_symbols [] symbols = Some symbols"
| "fold_symbols (f # fs) symbols =
     (if char_of (f mod 256) \<notin> set ALPHABET then None else fold_symbols fs (symbols @ push_char f))"

lemma canonical_symbols_fold:
  "canonical_symbols cs acc = fold_symbols (map fold_symbol (filter (\<lambda>c. c \<notin> set separators) cs)) acc"
  by (induction cs arbitrary: acc) (simp_all add: Let_def)

text \<open>
  Canonicalisation ignores case and separators: two ASCII inputs that agree after dropping
  separators and folding case and confusable letters have the same result.
\<close>

theorem canonical_code_folds:
  assumes "is_ascii a" "is_ascii b"
    and "map fold_symbol (filter (\<lambda>c. c \<notin> set separators) (map of_char a))
       = map fold_symbol (filter (\<lambda>c. c \<notin> set separators) (map of_char b))"
  shows "canonical_code a = canonical_code b"
proof -
  have "canonical_symbols (map of_char a) acc = canonical_symbols (map of_char b) acc" for acc
    by (simp only: canonical_symbols_fold assms(3))
  with assms show ?thesis by (simp add: canonical_code_def chars_of_ascii)
qed

definition dotted_I :: string where
  "dotted_I = [CHR 0xC4, CHR 0xB0]"

text \<open>
  Outside ASCII the alphabet check looks at the low byte of the character only: the letter
  U+0130 passes as the digit zero, an accepted code can then hold it, and when it lies across a
  group boundary the slicing of the groups panics.
\<close>

theorem canonical_code_non_ascii:
  "canonical_code (''0000'' @ dotted_I @ replicate 14 (CHR ''0'')) = Inl ()
   \<and> canonical_code (dotted_I @ replicate 18 (CHR ''0''))
       = Inr (Some (''CCOS-'' @ dotted_I @ ''000-00000-00000-00000''))"
proof -
  have codes: "of_char (CHR 0xC4) = (196 :: nat)" "of_char (CHR 0xB0) = (176 :: nat)"
    by simp_all
  note z = char_of_zero
  have one: "canonical_symbols (48 # cs) acc = canonical_symbols cs (acc @ ''0'')" for cs acc
    by (simp add: separators_def fold_symbol_def ascii_upper_def ALPHABET_def push_char_def Let_def z)
  have zeros: "canonical_symbols (replicate n 48) acc = Some (acc @ replicate n (CHR ''0''))" for n acc
  proof (induction n arbitrary: acc)
    case (Suc n)
    have "canonical_symbols (replicate (Suc n) 48) acc = canonical_symbols (replicate n 48) (acc @ ''0'')"
      by (simp only: replicate_Suc one)
    with Suc show ?case by simp
  qed simp
  have d: "char_of (196 :: nat) = CHR 0xC4" "char_of (176 :: nat) = CHR 0xB0"
    unfolding codes [symmetric] by (rule char_of_char)+
  have "char_of (304 mod 256 :: nat) = (char_of (304 :: nat) :: char)" by (rule char_of_mod_256)
  with z have low: "char_of (304 :: nat) = CHR ''0''" by simp
  have dot: "canonical_symbols (304 # cs) acc = canonical_symbols cs (acc @ dotted_I)" for cs acc
    by (simp add: low d separators_def fold_symbol_def ascii_upper_def ALPHABET_def push_char_def Let_def dotted_I_def)
  have tail: "chars_of (bytes_of (replicate n (CHR ''0''))) = replicate n 48" for n
    using chars_of_ascii [of "replicate n (CHR ''0'')"] by (simp add: is_ascii_def list_all_iff)
  have head: "chars_of (bytes_of (dotted_I @ s)) = 304 # chars_of (bytes_of s)" for s
    by (simp add: dotted_I_def bytes_of_def byte_of_def utf8_width_def u8_range_def cp_bits_def)
  have front: "chars_of (bytes_of (''0000'' @ s)) = [48, 48, 48, 48] @ chars_of (bytes_of s)" for s
    by (simp add: bytes_of_def byte_of_def utf8_width_def u8_range_def)
  have z4: "canonical_symbols ([48, 48, 48, 48] @ cs) acc = canonical_symbols cs (acc @ ''0000'')" for cs acc
    by (simp only: append_Cons append_Nil one append_assoc)
  have s1: "canonical_symbols (chars_of (bytes_of (''0000'' @ dotted_I @ replicate 14 (CHR ''0'')))) []
      = Some (''0000'' @ dotted_I @ replicate 14 (CHR ''0''))"
    by (simp only: front head tail z4 dot zeros append_Nil append_assoc)
  have s2: "canonical_symbols (chars_of (bytes_of (dotted_I @ replicate 18 (CHR ''0'')))) []
      = Some (dotted_I @ replicate 18 (CHR ''0''))"
    by (simp only: head tail dot zeros append_Nil)
  have b: "utf8_tail (byte_of (CHR 0xB0))" "\<not> utf8_tail (byte_of (CHR ''0''))" "\<not> utf8_tail (byte_of (CHR 0xC4))"
    by (simp_all add: utf8_tail_def u8_range_def byte_of_def)
  have r: "replicate 14 (CHR ''0'') = ''00000000000000''" "replicate 18 (CHR ''0'') = ''000000000000000000''"
    by (simp_all add: numeral_eq_Suc)
  show ?thesis
    unfolding canonical_code_def s1 s2 unfolding r
    by (simp add: dotted_I_def strip_prefix_def starts_with_def char_boundary_def b format_code_def)
qed

lemma claim_code_canonical_witness:
  "canonical_code (code_from_entropy (replicate 16 0)) = Inr (Some (code_from_entropy (replicate 16 0)))"
  by (rule claim_code_canonical) simp

lemma canonical_code_folds_witness: "canonical_code ''ccos-oOiL0'' = canonical_code ''CCOS 00110''"
  by (rule canonical_code_folds) (simp_all add: is_ascii_def separators_def fold_symbol_def ascii_upper_def Let_def)

end
