(* ===== verification/Disk.thy ===== *)
theory Disk
  imports OrdMap Bytes "HOL-Library.Product_Lexorder"
begin

text \<open>
  The file system as the code sees it, and \<open>util::write_durable\<close>. A path is its parent
  directory and its file name. System calls can fail: the disk carries a script of faults,
  one entry per \<open>write_durable\<close> call (none when the script is used up), and a list of
  files that cannot be removed. A fault at a step leaves on disk exactly what a crash at
  that step would, so a statement about every fault is also one about every crash point.
\<close>

type_synonym path = "string \<times> string"

datatype wd_point =
    AtMkdir
  | AtCreate
  | AtWrite nat      \<comment> \<open>the write stops after this many bytes\<close>
  | AtSync
  | AtRename

record disk =
  d_files :: "(path, bytes) omap"
  d_pid :: nat
  d_faults :: "wd_point option list"
  d_stuck :: "path list"

definition disk_read :: "disk \<Rightarrow> path \<Rightarrow> bytes io" where
  "disk_read d p = (case map_of (d_files d) p of None \<Rightarrow> Inl NotFound | Some b \<Rightarrow> Inr b)"

definition disk_put :: "path \<Rightarrow> bytes \<Rightarrow> disk \<Rightarrow> disk" where
  "disk_put p b d = d\<lparr>d_files := om_insert p b (d_files d)\<rparr>"

definition disk_remove :: "path \<Rightarrow> disk \<Rightarrow> disk" where
  \<comment> \<open>\<open>let _ = remove_file(p)\<close>: a failure is ignored\<close>
  "disk_remove p d =
     (if p \<in> set (d_stuck d) then d else d\<lparr>d_files := om_remove p (d_files d)\<rparr>)"

definition next_fault :: "disk \<Rightarrow> wd_point option \<times> disk" where
  "next_fault d =
     (case d_faults d of [] \<Rightarrow> (None, d) | f # fs \<Rightarrow> (f, d\<lparr>d_faults := fs\<rparr>))"

definition tmp_path :: "nat \<Rightarrow> path \<Rightarrow> path" where
  "tmp_path pid p = (fst p, snd p @ ''.tmp.'' @ dec_digits pid)"

definition write_durable :: "path \<Rightarrow> bytes \<Rightarrow> disk \<Rightarrow> unit io \<times> disk" where
  "write_durable p b d0 =
     (let (f, d) = next_fault d0; tmp = tmp_path (d_pid d) p in
        if f = Some AtMkdir then (Inl WriteDenied, d)
        else if om_contains (d_files d) tmp then (Inl AlreadyExists, d)
        else if f = Some AtCreate then (Inl WriteDenied, d)
        else (case f of
                Some (AtWrite n) \<Rightarrow> (Inl WriteDenied, disk_put tmp (take n b) d)
              | Some AtSync \<Rightarrow> (Inl WriteDenied, disk_put tmp b d)
              | Some AtRename \<Rightarrow> (Inl WriteDenied, disk_put tmp b d)
              | _ \<Rightarrow> (Inr (), d\<lparr>d_files := om_insert p b (om_remove tmp (d_files (disk_put tmp b d)))\<rparr>)))"

subsection \<open>What a write leaves behind\<close>

lemma next_fault_fields [simp]:
  "d_files (snd (next_fault d)) = d_files d"
  "d_pid (snd (next_fault d)) = d_pid d"
  "d_stuck (snd (next_fault d)) = d_stuck d"
  by (auto simp: next_fault_def split: list.splits)

lemma disk_fields [simp]:
  "d_pid (disk_put p b d) = d_pid d" "d_stuck (disk_put p b d) = d_stuck d"
  "d_faults (disk_put p b d) = d_faults d"
  "d_files (disk_put p b d) = om_insert p b (d_files d)"
  "d_pid (disk_remove p d) = d_pid d" "d_stuck (disk_remove p d) = d_stuck d"
  by (simp_all add: disk_put_def disk_remove_def)

lemma map_of_disk_remove:
  "map_of (d_files (disk_remove p d)) q =
     (if q = p \<and> p \<notin> set (d_stuck d) then None else map_of (d_files d) q)"
  by (simp add: disk_remove_def)

lemma tmp_path_neq [simp]: "tmp_path pid p \<noteq> p" "p \<noteq> tmp_path pid p"
  by (cases p; simp add: tmp_path_def)+

lemma write_durable_cases:
  assumes "write_durable p b d = (r, d')"
  obtains (ok) "r = Inr ()"
      "map_of (d_files d') = (map_of (d_files d))(tmp_path (d_pid d) p := None, p \<mapsto> b)"
    | (untouched) e where "r = Inl e" "d_files d' = d_files d"
    | (partial) e n where "r = Inl e" "d_files d' = om_insert (tmp_path (d_pid d) p) (take n b) (d_files d)"
proof -
  obtain f d1 where f: "next_fault d = (f, d1)" by (cases "next_fault d")
  then have same: "d_files d1 = d_files d" "d_pid d1 = d_pid d"
    using next_fault_fields [of d] by simp_all
  have take_all: "om_insert q b m = om_insert q (take (length b) b) m" for q and m :: "(path, bytes) omap"
    by simp
  from assms f same show thesis
    using ok untouched partial [of _ "length b"] partial
    by (auto simp: write_durable_def Let_def split: if_splits option.splits wd_point.splits)
qed

lemma write_durable_fields:
  "d_pid (snd (write_durable p b d)) = d_pid d"
  "d_stuck (snd (write_durable p b d)) = d_stuck d"
  by (cases "next_fault d";
      use next_fault_fields [of d] in \<open>auto simp: write_durable_def Let_def split: option.splits wd_point.splits\<close>)+

lemma om_ok_write_durable: "om_ok (d_files d) \<Longrightarrow> om_ok (d_files (snd (write_durable p b d)))"
  by (cases "next_fault d";
      use next_fault_fields [of d] in
        \<open>auto simp: write_durable_def Let_def disk_put_def intro!: inv_intros split: option.splits wd_point.splits\<close>)

text \<open>
  C37. \<open>write_durable\<close> is atomic: whatever system call fails (or wherever the machine stops),
  the target holds either its old content or the whole new content, the new content exactly
  when the call reports success, and no other file but its temporary sibling changes.
\<close>

theorem write_durable_atomic:
  assumes "write_durable p b d = (r, d')"
  shows "map_of (d_files d') p = (if r = Inr () then Some b else map_of (d_files d) p)
    \<and> (\<forall>q. q \<noteq> p \<and> q \<noteq> tmp_path (d_pid d) p \<longrightarrow> map_of (d_files d') q = map_of (d_files d) q)"
  using assms by (cases rule: write_durable_cases) simp_all

text \<open>
  A failed write is never cleaned up, and the temporary name is created with
  \<open>create_new\<close>: after a write that failed once its temporary file existed (a full disk, a
  failed \<open>fsync\<close> or rename), every later \<open>write_durable\<close> to the same path by the same
  process fails, even when nothing else goes wrong.
\<close>

theorem write_durable_stale_tmp:
  assumes "write_durable p b d = (Inl e, d')" "d_faults d = Some f # fs"
    and "f \<noteq> AtMkdir" "f \<noteq> AtCreate"
  shows "\<exists>e'. fst (write_durable p b' d') = Inl e'"
proof -
  have d': "om_contains (d_files d') (tmp_path (d_pid d) p)" "d_pid d' = d_pid d"
    using assms by (auto simp: write_durable_def next_fault_def Let_def split: if_splits wd_point.splits)
  obtain g d1 where g: "next_fault d' = (g, d1)" by (cases "next_fault d'")
  with d' next_fault_fields [of d'] show ?thesis
    by (auto simp: write_durable_def Let_def)
qed

definition stale_disk :: disk where
  "stale_disk = \<lparr>d_files = [], d_pid = 7, d_faults = [Some (AtWrite 1)], d_stuck = []\<rparr>"

lemma write_durable_atomic_witness:
  "write_durable (''ws'', ''a'') [1, 2] stale_disk
     = (Inl WriteDenied, disk_put (tmp_path 7 (''ws'', ''a'')) [1] (stale_disk\<lparr>d_faults := []\<rparr>))
   \<and> map_of (d_files (snd (write_durable (''ws'', ''a'') [1, 2] stale_disk))) (''ws'', ''a'') = None"
proof -
  have h: "write_durable (''ws'', ''a'') [1, 2] stale_disk
      = (Inl WriteDenied, disk_put (tmp_path 7 (''ws'', ''a'')) [1] (stale_disk\<lparr>d_faults := []\<rparr>))"
    by (simp add: write_durable_def next_fault_def stale_disk_def)
  from write_durable_atomic [OF this] h show ?thesis
    by (simp add: stale_disk_def)
qed

lemma write_durable_stale_tmp_witness:
  "\<exists>e'. fst (write_durable (''ws'', ''a'') [3]
     (disk_put (tmp_path 7 (''ws'', ''a'')) [1] (stale_disk\<lparr>d_faults := []\<rparr>))) = Inl e'"
proof -
  have "write_durable (''ws'', ''a'') [1, 2] stale_disk
      = (Inl WriteDenied, disk_put (tmp_path 7 (''ws'', ''a'')) [1] (stale_disk\<lparr>d_faults := []\<rparr>))"
    by (simp add: write_durable_def next_fault_def stale_disk_def)
  moreover have "d_faults stale_disk = Some (AtWrite 1) # []"
    by (simp add: stale_disk_def)
  ultimately show ?thesis
    by (rule write_durable_stale_tmp) simp_all
qed

end
