(* ===== verification/Segment.thy ===== *)
theory Segment
  imports Disk
begin

text \<open>
  \<open>src/cold_index.rs\<close>, first half: an immutable on-disk segment of key/value records in
  ascending key order, with a sparse index of every 64th record. The model writes and reads
  the same bytes as the code: \<open>segment_bytes\<close> is the file, and the reading functions walk
  it by offsets. \<open>seg_backed\<close> states that a handle describes the file it was opened on; under
  it a lookup, a full scan and a prefix scan give the records that were written.
\<close>

definition SEG_MAGIC :: nat where "SEG_MAGIC = 0xC01D1DEC00000001"
definition SEG_STRIDE :: nat where "SEG_STRIDE = 64"

definition put_u32 :: "bytes \<Rightarrow> nat \<Rightarrow> bytes" where
  \<comment> \<open>the caller's \<open>as u32\<close> and \<open>to_le_bytes\<close>\<close>
  "put_u32 buf v = buf @ le_bytes 4 v"

definition put_bytes :: "bytes \<Rightarrow> bytes \<Rightarrow> bytes" where
  "put_bytes buf b = put_u32 buf (length b) @ b"

type_synonym rec = "string \<times> bytes"

fun seg_body :: "nat \<Rightarrow> rec list \<Rightarrow> bytes \<Rightarrow> (string \<times> nat) list \<Rightarrow> bytes \<times> (string \<times> nat) list" where
  \<comment> \<open>the loop over \<open>records.iter().enumerate()\<close>\<close>
  "seg_body i [] buf sparse = (buf, sparse)"
| "seg_body i ((k, v) # recs) buf sparse =
     seg_body (i + 1) recs (put_bytes (put_bytes buf (bytes_of k)) v)
       (if i mod SEG_STRIDE = 0 then sparse @ [(k, length buf)] else sparse)"

definition segment_bytes :: "rec list \<Rightarrow> bytes" where
  "segment_bytes recs =
     (let (buf, sparse) = seg_body 0 recs [] [];
          buf1 = put_u32 buf (length sparse);
          buf2 = fold (\<lambda>(k, off) buf. put_bytes buf (bytes_of k) @ le_bytes 8 off) sparse buf1
      in buf2 @ le_bytes 8 (length buf) @ le_bytes 8 SEG_MAGIC)"

definition write_segment :: "path \<Rightarrow> rec list \<Rightarrow> disk \<Rightarrow> unit io \<times> disk" where
  "write_segment p recs d =
     (if list_all (\<lambda>(a, b). fst a < fst b) (zip recs (tl recs)) then write_durable p (segment_bytes recs) d
      else (Inl (InvalidInput ''segment records must be strictly ascending by key''), d))"

record segment =
  sg_path :: path
  sg_sparse :: "(string \<times> nat) list"
  sg_end :: nat

subsection \<open>Reading\<close>

definition read_u32 :: "bytes \<Rightarrow> (nat \<times> bytes) io" where
  "read_u32 f = bindr (read_exact 4 f) (\<lambda>(b, f'). Inr (of_le_bytes b, f'))"

definition read_u64 :: "bytes \<Rightarrow> (nat \<times> bytes) io" where
  "read_u64 f = bindr (read_exact 8 f) (\<lambda>(b, f'). Inr (of_le_bytes b, f'))"

definition read_bytes :: "bytes \<Rightarrow> (bytes \<times> bytes) io" where
  "read_bytes f = bindr (read_u32 f) (\<lambda>(len, f'). read_exact len f')"

definition read_string :: "bytes \<Rightarrow> (string \<times> bytes) io" where
  "read_string f =
     bindr (read_bytes f) (\<lambda>(b, f').
       case from_utf8 b of None \<Rightarrow> Inl (InvalidData ''non-utf8 key'') | Some s \<Rightarrow> Inr (s, f'))"

fun read_sparse :: "nat \<Rightarrow> bytes \<Rightarrow> (string \<times> nat) list \<Rightarrow> (string \<times> nat) list io" where
  "read_sparse 0 f sparse = Inr sparse"
| "read_sparse (Suc n) f sparse =
     bindr (read_string f) (\<lambda>(k, f1). bindr (read_u64 f1) (\<lambda>(off, f2).
       read_sparse n f2 (sparse @ [(k, off)])))"

definition segment_open :: "disk \<Rightarrow> path \<Rightarrow> segment io" where
  "segment_open d p =
     bindr (disk_read d p) (\<lambda>f.
       let len = length f in
       if len < 16 then Inl (InvalidData ''segment shorter than its footer'')
       else bindr (read_u64 (drop (len - 16) f)) (\<lambda>(sparse_offset, f1).
         bindr (read_u64 f1) (\<lambda>(magic, _).
           if magic \<noteq> SEG_MAGIC then Inl (InvalidData ''bad segment magic'')
           else if sparse_offset > len - 16 then Inl (InvalidData ''sparse offset past end'')
           else bindr (read_u32 (drop sparse_offset f)) (\<lambda>(count, f2).
             bindr (read_sparse count f2 []) (\<lambda>sparse.
               Inr \<lparr>sg_path = p, sg_sparse = sparse, sg_end = sparse_offset\<rparr>)))))"

definition sparse_search :: "(string \<times> nat) list \<Rightarrow> string \<Rightarrow> nat + nat" where
  \<comment> \<open>\<open>binary_search_by\<close> on an ascending slice: the position of the key (\<open>Inl\<close>, Rust's \<open>Ok\<close>)
      or the position where it would be inserted (\<open>Inr\<close>, Rust's \<open>Err\<close>)\<close>
  "sparse_search sparse key =
     (let i = length (takeWhile (\<lambda>(k, _). k < key) sparse) in
        if i < length sparse \<and> fst (sparse ! i) = key then Inl i else Inr i)"

function scan_key :: "nat \<Rightarrow> string \<Rightarrow> nat \<Rightarrow> bytes \<Rightarrow> bytes option io" where
  \<comment> \<open>the loop of \<open>read_at\<close>\<close>
  "scan_key fin key pos f =
     (if pos < fin then
        (case read_string f of Inl e \<Rightarrow> Inl e
         | Inr (k, f1) \<Rightarrow>
             (case read_bytes f1 of Inl e \<Rightarrow> Inl e
              | Inr (v, f2) \<Rightarrow>
                  if k = key then Inr (Some v)
                  else if key < k then Inr None
                  else scan_key fin key (pos + (8 + length k + length v)) f2))
      else Inr None)"
  by pat_completeness auto
termination
  by (relation "measure (\<lambda>(fin, key, pos, f). fin - pos)") auto

declare scan_key.simps [simp del]

definition read_at :: "disk \<Rightarrow> segment \<Rightarrow> nat \<Rightarrow> string \<Rightarrow> bytes option io" where
  "read_at d sg start key =
     bindr (disk_read d (sg_path sg)) (\<lambda>f. scan_key (sg_end sg) key start (drop start f))"

definition segment_get :: "disk \<Rightarrow> segment \<Rightarrow> string \<Rightarrow> bytes option io" where
  "segment_get d sg key =
     (if sg_sparse sg = [] then Inr None
      else (case sparse_search (sg_sparse sg) key of
              Inl i \<Rightarrow> read_at d sg (snd (sg_sparse sg ! i)) key
            | Inr 0 \<Rightarrow> Inr None
            | Inr (Suc i) \<Rightarrow> read_at d sg (snd (sg_sparse sg ! i)) key))"

function scan_all :: "nat \<Rightarrow> nat \<Rightarrow> bytes \<Rightarrow> rec list io" where
  "scan_all fin pos f =
     (if pos < fin then
        (case read_string f of Inl e \<Rightarrow> Inl e
         | Inr (k, f1) \<Rightarrow>
             (case read_bytes f1 of Inl e \<Rightarrow> Inl e
              | Inr (v, f2) \<Rightarrow>
                  bindr (scan_all fin (pos + (8 + length k + length v)) f2) (\<lambda>out. Inr ((k, v) # out))))
      else Inr [])"
  by pat_completeness auto
termination
  by (relation "measure (\<lambda>(fin, pos, f). fin - pos)") auto

declare scan_all.simps [simp del]

definition segment_records :: "disk \<Rightarrow> segment \<Rightarrow> rec list io" where
  "segment_records d sg =
     bindr (disk_read d (sg_path sg)) (\<lambda>f. scan_all (sg_end sg) 0 f)"

function scan_pref :: "nat \<Rightarrow> string \<Rightarrow> nat \<Rightarrow> bytes \<Rightarrow> rec list io" where
  "scan_pref fin prefix pos f =
     (if pos < fin then
        (case read_string f of Inl e \<Rightarrow> Inl e
         | Inr (k, f1) \<Rightarrow>
             (case read_bytes f1 of Inl e \<Rightarrow> Inl e
              | Inr (v, f2) \<Rightarrow>
                  let pos' = pos + (8 + length k + length v) in
                  if k < prefix then scan_pref fin prefix pos' f2
                  else if starts_with k prefix then
                    bindr (scan_pref fin prefix pos' f2) (\<lambda>out. Inr ((k, v) # out))
                  else Inr []))
      else Inr [])"
  by pat_completeness auto
termination
  by (relation "measure (\<lambda>(fin, prefix, pos, f). fin - pos)") auto

declare scan_pref.simps [simp del]

definition segment_scan_prefix :: "disk \<Rightarrow> segment \<Rightarrow> string \<Rightarrow> rec list io" where
  "segment_scan_prefix d sg prefix =
     (if sg_sparse sg = [] then Inr []
      else let start = (case sparse_search (sg_sparse sg) prefix of
                          Inl i \<Rightarrow> snd (sg_sparse sg ! i)
                        | Inr 0 \<Rightarrow> 0
                        | Inr (Suc i) \<Rightarrow> snd (sg_sparse sg ! i))
           in bindr (disk_read d (sg_path sg)) (\<lambda>f. scan_pref (sg_end sg) prefix start (drop start f)))"

subsection \<open>The file layout\<close>

definition rec_enc :: "rec \<Rightarrow> bytes" where
  "rec_enc r = le_bytes 4 (length (fst r)) @ bytes_of (fst r) @ le_bytes 4 (length (snd r)) @ snd r"

definition recs_enc :: "rec list \<Rightarrow> bytes" where
  "recs_enc recs = concat (map rec_enc recs)"

definition idx_enc :: "(string \<times> nat) list \<Rightarrow> bytes" where
  "idx_enc sparse =
     concat (map (\<lambda>(k, off). le_bytes 4 (length k) @ bytes_of k @ le_bytes 8 off) sparse)"

fun sparse_of :: "nat \<Rightarrow> nat \<Rightarrow> rec list \<Rightarrow> (string \<times> nat) list" where
  "sparse_of i off [] = []"
| "sparse_of i off (r # rs) =
     (if i mod SEG_STRIDE = 0 then [(fst r, off)] else []) @ sparse_of (Suc i) (off + length (rec_enc r)) rs"

definition recs_ok :: "rec list \<Rightarrow> bool" where
  "recs_ok recs \<longleftrightarrow> om_ok recs
     \<and> list_all (\<lambda>(k, v). str_valid k \<and> length k < 2 ^ 32 \<and> length v < 2 ^ 32) recs
     \<and> length recs < 2 ^ 32 \<and> length (recs_enc recs) < 2 ^ 64"

definition seg_backed :: "disk \<Rightarrow> segment \<Rightarrow> rec list \<Rightarrow> bool" where
  "seg_backed d sg recs \<longleftrightarrow> recs_ok recs
     \<and> disk_read d (sg_path sg) = Inr (segment_bytes recs)
     \<and> sg_sparse sg = sparse_of 0 0 recs \<and> sg_end sg = length (recs_enc recs)"

lemma recs_enc_simps [simp]:
  "recs_enc [] = []"
  "recs_enc (r # rs) = rec_enc r @ recs_enc rs"
  "recs_enc (rs @ ss) = recs_enc rs @ recs_enc ss"
  by (simp_all add: recs_enc_def)

lemma length_rec_enc [simp]: "length (rec_enc r) = 8 + length (fst r) + length (snd r)"
  by (simp add: rec_enc_def)

lemma seg_body_eq:
  "seg_body i recs buf sparse = (buf @ recs_enc recs, sparse @ sparse_of i (length buf) recs)"
proof (induction i recs buf sparse rule: seg_body.induct)
  case (2 i k v recs buf sparse)
  have "put_bytes (put_bytes buf (bytes_of k)) v = buf @ rec_enc (k, v)"
    by (simp add: put_bytes_def put_u32_def rec_enc_def)
  with 2 show ?case by simp
qed simp

lemma put_idx_eq:
  "fold (\<lambda>(k, off) buf. put_bytes buf (bytes_of k) @ le_bytes 8 off) sparse buf = buf @ idx_enc sparse"
  by (induction sparse arbitrary: buf) (auto simp: idx_enc_def put_bytes_def put_u32_def)

lemma segment_bytes_layout:
  "segment_bytes recs = recs_enc recs @ le_bytes 4 (length (sparse_of 0 0 recs))
     @ idx_enc (sparse_of 0 0 recs) @ le_bytes 8 (length (recs_enc recs)) @ le_bytes 8 SEG_MAGIC"
  by (simp add: segment_bytes_def seg_body_eq put_idx_eq put_u32_def)

lemma length_sparse_of: "length (sparse_of i off recs) \<le> length recs"
  by (induction i off recs rule: sparse_of.induct) auto

lemma sparse_of_key:
  "(k, off) \<in> set (sparse_of i o0 recs) \<Longrightarrow>
     \<exists>pre v post. recs = pre @ (k, v) # post \<and> off = o0 + length (recs_enc pre)"
proof (induction i o0 recs rule: sparse_of.induct)
  case (2 i o0 r rs)
  show ?case
  proof (cases "i mod SEG_STRIDE = 0 \<and> (k, off) = (fst r, o0)")
    case True
    then have "r # rs = [] @ (k, snd r) # rs" "off = o0 + length (recs_enc [])"
      by (cases r; simp)+
    then show ?thesis by blast
  next
    case False
    with "2.prems" have "(k, off) \<in> set (sparse_of (Suc i) (o0 + length (rec_enc r)) rs)"
      by (auto split: if_splits)
    from "2.IH" [OF this] obtain pre v post where
      "rs = pre @ (k, v) # post" "off = o0 + length (rec_enc r) + length (recs_enc pre)"
      by auto
    then have "r # rs = (r # pre) @ (k, v) # post" "off = o0 + length (recs_enc (r # pre))"
      by simp_all
    then show ?thesis by blast
  qed
qed simp

lemma sparse_of_first: "r # rs = recs \<Longrightarrow> sparse_of 0 0 recs ! 0 = (fst r, 0)"
  by (cases recs) auto

lemma sparse_of_empty: "sparse_of 0 0 recs = [] \<longleftrightarrow> recs = []"
  by (cases recs) auto

lemma sparse_of_off: "(k, off) \<in> set (sparse_of 0 0 recs) \<Longrightarrow> off \<le> length (recs_enc recs)"
  by (auto dest: sparse_of_key)

subsection \<open>Reading back what was written\<close>

lemma read_u32_enc [simp, codec_simps]: "n < 2 ^ 32 \<Longrightarrow> read_u32 (le_bytes 4 n @ f) = Inr (n, f)"
  by (simp add: read_u32_def)

lemma read_u64_enc [simp, codec_simps]: "n < 2 ^ 64 \<Longrightarrow> read_u64 (le_bytes 8 n @ f) = Inr (n, f)"
  by (simp add: read_u64_def)

lemma read_bytes_enc [simp, codec_simps]:
  "length v < 2 ^ 32 \<Longrightarrow> read_bytes (le_bytes 4 (length v) @ v @ f) = Inr (v, f)"
  by (simp add: read_bytes_def)

lemma read_string_enc [simp, codec_simps]:
  "length k < 2 ^ 32 \<Longrightarrow> str_valid k \<Longrightarrow>
     read_string (le_bytes 4 (length k) @ bytes_of k @ f) = Inr (k, f)"
  using read_bytes_enc [of "bytes_of k" f] by (simp add: read_string_def)

lemma read_sparse_enc:
  assumes "list_all (\<lambda>(k, off). str_valid k \<and> length k < 2 ^ 32 \<and> off < 2 ^ 64) sparse"
  shows "read_sparse (length sparse) (idx_enc sparse @ f) acc = Inr (acc @ sparse)"
  using assms
  by (induction sparse arbitrary: acc) (auto simp: idx_enc_def)

lemma recs_ok_Cons: "recs_ok (r # rs) \<Longrightarrow> recs_ok rs"
  by (cases r) (auto simp: recs_ok_def om_ok_Cons)

lemma recs_ok_appendD: "recs_ok (xs @ ys) \<Longrightarrow> recs_ok ys"
  by (induction xs) (auto dest: recs_ok_Cons)

lemma read_rec_key:
  "length k < 2 ^ 32 \<Longrightarrow> str_valid k \<Longrightarrow>
     read_string (rec_enc (k, v) @ f) = Inr (k, le_bytes 4 (length v) @ v @ f)"
  using read_string_enc [of k "le_bytes 4 (length v) @ v @ f"] by (simp add: rec_enc_def)

lemma recs_ok_step:
  assumes "recs_ok ((k, v) # rs)"
  shows "recs_ok rs" and "\<And>f. read_string (rec_enc (k, v) @ f) = Inr (k, le_bytes 4 (length v) @ v @ f)"
    and "\<And>f. read_bytes (le_bytes 4 (length v) @ v @ f) = Inr (v, f)"
    and "\<And>k'. k' \<in> fst ` set rs \<Longrightarrow> k < k'"
proof -
  have *: "str_valid k" "length k < 2 ^ 32" "length v < 2 ^ 32"
    using assms unfolding recs_ok_def by simp_all
  show "recs_ok rs" using assms by (rule recs_ok_Cons)
  show "read_string (rec_enc (k, v) @ f) = Inr (k, le_bytes 4 (length v) @ v @ f)" for f
    using *(2,1) by (rule read_rec_key)
  show "read_bytes (le_bytes 4 (length v) @ v @ f) = Inr (v, f)" for f
    using *(3) by (rule read_bytes_enc)
  show "k < k'" if "k' \<in> fst ` set rs" for k'
    using assms that unfolding recs_ok_def om_ok_Cons by blast
qed

lemma scan_key_enc:
  "recs_ok rs \<Longrightarrow> pos + length (recs_enc rs) = fin \<Longrightarrow>
     scan_key fin key pos (recs_enc rs @ rest) = Inr (map_of rs key)"
proof (induction rs arbitrary: pos)
  case Nil
  then show ?case by (simp add: scan_key.simps)
next
  case (Cons r rs)
  obtain k v where r: "r = (k, v)" by (cases r)
  note step = recs_ok_step [OF Cons.prems(1) [unfolded r]]
  have later: "map_of rs key = None" if "key < k"
    using step(4) that by (force simp: map_of_eq_None_iff)
  have pos: "pos < fin" "pos + (8 + length k + length v) + length (recs_enc rs) = fin"
    using Cons.prems(2) r by simp_all
  show ?case
    using pos(1) later Cons.IH [OF step(1) pos(2)]
    by (subst scan_key.simps) (auto simp: r step(2,3))
qed

lemma scan_all_enc:
  "recs_ok rs \<Longrightarrow> pos + length (recs_enc rs) = fin \<Longrightarrow>
     scan_all fin pos (recs_enc rs @ rest) = Inr rs"
proof (induction rs arbitrary: pos)
  case Nil
  then show ?case by (simp add: scan_all.simps)
next
  case (Cons r rs)
  obtain k v where r: "r = (k, v)" by (cases r)
  note step = recs_ok_step [OF Cons.prems(1) [unfolded r]]
  have pos: "pos < fin" "pos + (8 + length k + length v) + length (recs_enc rs) = fin"
    using Cons.prems(2) r by simp_all
  show ?case
    using pos(1) Cons.IH [OF step(1) pos(2)]
    by (subst scan_all.simps) (simp add: r step(2,3))
qed

lemma sorted_past_prefix:
  fixes prefix :: string
  assumes "\<not> k < prefix" "\<not> starts_with k prefix" "k < k'"
  shows "\<not> starts_with k' prefix"
proof
  assume "starts_with k' prefix"
  then obtain t where "k' = prefix @ t" by (auto simp: starts_with_iff)
  with assms(1,3) have "prefix @ [] \<le> k" "k \<le> prefix @ t" by simp_all
  then have "starts_with k prefix" by (rule prefix_interval)
  with assms(2) show False by simp
qed

lemma before_prefix: "(k :: string) < prefix \<Longrightarrow> \<not> starts_with k prefix"
  using prefix_le [of prefix] by (metis leD starts_with_iff)

lemma scan_pref_enc:
  "recs_ok rs \<Longrightarrow> pos + length (recs_enc rs) = fin \<Longrightarrow>
     scan_pref fin prefix pos (recs_enc rs @ rest) = Inr (filter (\<lambda>r. starts_with (fst r) prefix) rs)"
proof (induction rs arbitrary: pos)
  case Nil
  then show ?case by (simp add: scan_pref.simps)
next
  case (Cons r rs)
  obtain k v where r: "r = (k, v)" by (cases r)
  note step = recs_ok_step [OF Cons.prems(1) [unfolded r]]
  have pos: "pos < fin" "pos + (8 + length k + length v) + length (recs_enc rs) = fin"
    using Cons.prems(2) r by simp_all
  have past: "filter (\<lambda>r. starts_with (fst r) prefix) rs = []"
    if "\<not> k < prefix" "\<not> starts_with k prefix"
    using that step(4) sorted_past_prefix [OF that] by (simp add: filter_empty_conv)
  show ?case
    using pos(1) past before_prefix [of k prefix] Cons.IH [OF step(1) pos(2)]
    by (subst scan_pref.simps) (auto simp: r step(2,3) Let_def)
qed

subsection \<open>Lookups through the sparse index\<close>

lemma seg_backedD:
  assumes "seg_backed d sg recs"
  shows "recs_ok recs" "sg_sparse sg = sparse_of 0 0 recs" "sg_end sg = length (recs_enc recs)"
    and "\<And>f. bindr (disk_read d (sg_path sg)) f = f (segment_bytes recs)"
  using assms by (auto simp: seg_backed_def)

lemma sparse_search_cases:
  obtains (here) i where "sparse_search sp key = Inl i" "i < length sp" "fst (sp ! i) = key"
    | (first) "sparse_search sp key = Inr 0" "sp \<noteq> [] \<Longrightarrow> key < fst (sp ! 0)"
    | (after) i where "sparse_search sp key = Inr (Suc i)" "i < length sp" "fst (sp ! i) < key"
proof -
  define i where "i = length (takeWhile (\<lambda>(k, _). k < key) sp)"
  have le: "i \<le> length sp" by (simp add: i_def length_takeWhile_le)
  have before: "fst (sp ! j) < key" if "j < i" for j
    using that nth_mem [of j "takeWhile (\<lambda>(k, _). k < key) sp"]
    by (auto simp: i_def takeWhile_nth dest!: set_takeWhileD)
  have stop: "\<not> fst (sp ! i) < key" if "i < length sp"
    using nth_length_takeWhile [of "\<lambda>(k, _). k < key" sp] that by (auto simp: i_def case_prod_beta)
  have eq: "sparse_search sp key = (if i < length sp \<and> fst (sp ! i) = key then Inl i else Inr i)"
    by (simp add: sparse_search_def i_def Let_def)
  show thesis
  proof (cases "i < length sp \<and> fst (sp ! i) = key")
    case True
    then show thesis using here [of i] eq by simp
  next
    case False
    show thesis
    proof (cases i)
      case 0
      then show thesis using first eq False stop by (auto simp: not_less_iff_gr_or_eq)
    next
      case (Suc j)
      have "sparse_search sp key = Inr (Suc j)" using eq False Suc by simp
      then show thesis using after [of j] before [of j] le Suc by simp
    qed
  qed
qed

text \<open>A scan that starts at a sparse entry not above the key skips only smaller keys.\<close>

lemma recs_split_before:
  assumes "recs_ok (pre @ (k, v) # post)" "r \<in> set pre"
  shows "fst r < k"
  using assms by (auto simp: recs_ok_def om_ok_def sorted_wrt_append)

lemma sparse_entry_split:
  assumes "seg_backed d sg recs" "i < length (sg_sparse sg)" "fst (sg_sparse sg ! i) \<le> key"
  obtains pre post where "recs = pre @ post" "snd (sg_sparse sg ! i) = length (recs_enc pre)"
    "recs_ok post" "\<And>r. r \<in> set pre \<Longrightarrow> fst r < key"
proof -
  obtain k off where e: "sg_sparse sg ! i = (k, off)" by (cases "sg_sparse sg ! i")
  with assms(2) have "(k, off) \<in> set (sparse_of 0 0 recs)"
    using seg_backedD(2) [OF assms(1)] nth_mem [OF assms(2)] by simp
  from sparse_of_key [OF this] obtain pre v post
    where r: "recs = pre @ (k, v) # post" "off = length (recs_enc pre)" by auto
  have "recs_ok recs" using assms(1) by (simp add: seg_backed_def)
  show thesis
  proof (rule that [of pre "(k, v) # post"])
    show "recs = pre @ (k, v) # post" "snd (sg_sparse sg ! i) = length (recs_enc pre)"
      using r e by simp_all
    show "recs_ok ((k, v) # post)"
      using \<open>recs_ok recs\<close> r(1) recs_ok_appendD by blast
    show "fst x < key" if "x \<in> set pre" for x
      using recs_split_before [of pre k v post x] \<open>recs_ok recs\<close> r(1) that e assms(3) by simp
  qed
qed

lemma drop_segment_bytes:
  "\<exists>rest. drop (length (recs_enc pre)) (segment_bytes (pre @ post)) = recs_enc post @ rest"
  by (auto simp: segment_bytes_layout)

lemma map_of_skip:
  fixes key :: "'a :: order"
  assumes "\<And>r. r \<in> set pre \<Longrightarrow> fst r < key"
  shows "map_of (pre @ post) key = map_of post key"
proof -
  have "key \<notin> fst ` set pre"
    using assms by (metis imageE less_irrefl)
  then have "map_of pre key = None"
    by (simp only: map_of_eq_None_iff not_False_eq_True)
  then show ?thesis by (simp only: map_of_append map_add_def option.case)
qed

lemma read_at_backed:
  assumes b: "seg_backed d sg recs" and i: "i < length (sg_sparse sg)" "fst (sg_sparse sg ! i) \<le> key"
  shows "read_at d sg (snd (sg_sparse sg ! i)) key = Inr (map_of recs key)"
proof -
  obtain pre post where s: "recs = pre @ post" "snd (sg_sparse sg ! i) = length (recs_enc pre)"
    "recs_ok post" "\<And>r. r \<in> set pre \<Longrightarrow> fst r < key"
    using sparse_entry_split [OF b i] by blast
  obtain rest where rest: "drop (length (recs_enc pre)) (segment_bytes recs) = recs_enc post @ rest"
    using drop_segment_bytes [of pre post] s(1) by blast
  have "length (recs_enc pre) + length (recs_enc post) = sg_end sg"
    using seg_backedD(3) [OF b] s(1) by simp
  from scan_key_enc [OF s(3) this] show ?thesis
    using rest s(2) map_of_skip [OF s(4)] s(1) by (simp add: read_at_def seg_backedD(4) [OF b])
qed

lemma segment_get_backed:
  assumes b: "seg_backed d sg recs"
  shows "segment_get d sg key = Inr (map_of recs key)"
proof (cases recs)
  case Nil
  then show ?thesis using seg_backedD(2) [OF b] by (simp add: segment_get_def)
next
  case (Cons r rs)
  then have ne: "sg_sparse sg \<noteq> []"
    using seg_backedD(2) [OF b] sparse_of_empty [of recs] by simp
  show ?thesis
  proof (cases rule: sparse_search_cases [of "sg_sparse sg" key])
    case (here i)
    then show ?thesis
      using ne read_at_backed [OF b, of i key] by (simp add: segment_get_def)
  next
    case first
    with ne have "key < fst r"
      using seg_backedD(2) [OF b] sparse_of_first [OF Cons [symmetric]] by simp
    moreover have "fst r \<le> fst x" if "x \<in> set recs" for x
      using that seg_backedD(1) [OF b] Cons by (cases r) (auto simp: recs_ok_def om_ok_Cons less_imp_le)
    ultimately have "map_of recs key = None"
      by (force simp: map_of_eq_None_iff)
    with ne first show ?thesis by (simp add: segment_get_def)
  next
    case (after i)
    then show ?thesis
      using ne read_at_backed [OF b, of i key] by (simp add: segment_get_def)
  qed
qed

lemma segment_records_backed:
  assumes b: "seg_backed d sg recs"
  shows "segment_records d sg = Inr recs"
proof -
  obtain rest where "segment_bytes recs = recs_enc recs @ rest"
    using drop_segment_bytes [of "[]" recs] by auto
  then show ?thesis
    using scan_all_enc [OF seg_backedD(1) [OF b], of 0 "sg_end sg" rest] seg_backedD(3) [OF b]
    by (simp add: segment_records_def seg_backedD(4) [OF b])
qed

lemma scan_from_split:
  assumes b: "seg_backed d sg recs" and "recs = pre @ post" "recs_ok post"
    and "\<And>r. r \<in> set pre \<Longrightarrow> fst r < prefix"
  shows "bindr (disk_read d (sg_path sg))
      (\<lambda>f. scan_pref (sg_end sg) prefix (length (recs_enc pre)) (drop (length (recs_enc pre)) f))
    = Inr (filter (\<lambda>r. starts_with (fst r) prefix) recs)"
proof -
  obtain rest where rest: "drop (length (recs_enc pre)) (segment_bytes recs) = recs_enc post @ rest"
    using drop_segment_bytes [of pre post] assms(2) by blast
  have "length (recs_enc pre) + length (recs_enc post) = sg_end sg"
    using seg_backedD(3) [OF b] assms(2) by simp
  moreover have "filter (\<lambda>r. starts_with (fst r) prefix) pre = []"
    using assms(4) before_prefix by (auto simp: filter_empty_conv)
  ultimately show ?thesis
    using rest assms(2) scan_pref_enc [OF assms(3)] by (simp add: seg_backedD(4) [OF b])
qed

lemma segment_scan_prefix_backed:
  assumes b: "seg_backed d sg recs"
  shows "segment_scan_prefix d sg prefix = Inr (filter (\<lambda>r. starts_with (fst r) prefix) recs)"
proof (cases recs)
  case Nil
  then show ?thesis using seg_backedD(2) [OF b] by (simp add: segment_scan_prefix_def)
next
  case (Cons r rs)
  then have ne: "sg_sparse sg \<noteq> []"
    using seg_backedD(2) [OF b] sparse_of_empty [of recs] by simp
  have entry: "bindr (disk_read d (sg_path sg)) (\<lambda>f. scan_pref (sg_end sg) prefix
        (snd (sg_sparse sg ! i)) (drop (snd (sg_sparse sg ! i)) f))
      = Inr (filter (\<lambda>r. starts_with (fst r) prefix) recs)"
    if i: "i < length (sg_sparse sg)" "fst (sg_sparse sg ! i) \<le> prefix" for i
  proof -
    obtain pre post where s: "recs = pre @ post" "snd (sg_sparse sg ! i) = length (recs_enc pre)"
      "recs_ok post" "\<And>r. r \<in> set pre \<Longrightarrow> fst r < prefix"
      using sparse_entry_split [OF b i] by blast
    from scan_from_split [OF b s(1,3,4)] show ?thesis by (simp add: s(2))
  qed
  show ?thesis
  proof (cases rule: sparse_search_cases [of "sg_sparse sg" prefix])
    case (here i)
    then show ?thesis using ne entry [of i] by (simp add: segment_scan_prefix_def)
  next
    case first
    then show ?thesis
      using ne scan_from_split [OF b, of "[]" recs prefix] seg_backedD(1) [OF b]
      by (simp add: segment_scan_prefix_def)
  next
    case (after i)
    then show ?thesis using ne entry [of i] by (simp add: segment_scan_prefix_def)
  qed
qed

subsection \<open>Opening what was written\<close>

lemma sparse_of_valid:
  assumes "recs_ok recs"
  shows "list_all (\<lambda>(k, off). str_valid k \<and> length k < 2 ^ 32 \<and> off < 2 ^ 64) (sparse_of 0 0 recs)"
proof -
  have "str_valid k \<and> length k < 2 ^ 32 \<and> off < 2 ^ 64" if e: "(k, off) \<in> set (sparse_of 0 0 recs)" for k off
  proof -
    from sparse_of_key [OF e] obtain pre v post where r: "recs = pre @ (k, v) # post" by auto
    have "off \<le> length (recs_enc recs)" using e by (rule sparse_of_off)
    then show ?thesis using assms r unfolding recs_ok_def by auto
  qed
  then show ?thesis by (auto simp: list_all_iff)
qed

lemma segment_open_written:
  assumes ok: "recs_ok recs" and rd: "disk_read d p = Inr (segment_bytes recs)"
  defines "sg \<equiv> \<lparr>sg_path = p, sg_sparse = sparse_of 0 0 recs, sg_end = length (recs_enc recs)\<rparr>"
  shows "segment_open d p = Inr sg" and "seg_backed d sg recs"
proof -
  let ?sp = "sparse_of 0 0 recs" and ?n = "length (recs_enc recs)"
  let ?foot = "le_bytes 8 ?n @ le_bytes 8 SEG_MAGIC"
  let ?idx = "le_bytes 4 (length ?sp) @ idx_enc ?sp @ ?foot"
  have small: "?n < 2 ^ 64" "length ?sp < 2 ^ 32" "SEG_MAGIC < 2 ^ 64"
    using ok length_sparse_of [of 0 0 recs] unfolding recs_ok_def SEG_MAGIC_def by simp_all
  have all: "segment_bytes recs = recs_enc recs @ ?idx"
    by (simp only: segment_bytes_layout append_assoc)
  have foot: "drop (length (segment_bytes recs) - 16) (segment_bytes recs) = ?foot"
    by (simp add: segment_bytes_layout)
  have len: "\<not> length (segment_bytes recs) < 16" "\<not> ?n > length (segment_bytes recs) - 16"
    by (simp_all add: segment_bytes_layout)
  have r1: "read_u64 ?foot = Inr (?n, le_bytes 8 SEG_MAGIC)"
    using small(1) by (rule read_u64_enc)
  have r2: "read_u64 (le_bytes 8 SEG_MAGIC) = Inr (SEG_MAGIC, [])"
    using read_u64_enc [OF small(3), of "[]"] by simp
  have r3: "read_u32 (drop ?n (segment_bytes recs)) = Inr (length ?sp, idx_enc ?sp @ ?foot)"
    using read_u32_enc [OF small(2)] by (simp add: all)
  have r4: "read_sparse (length ?sp) (idx_enc ?sp @ ?foot) [] = Inr ?sp"
    using read_sparse_enc [OF sparse_of_valid [OF ok], of ?foot "[]"] by simp
  show "segment_open d p = Inr sg"
    using len by (simp add: segment_open_def rd foot r1 r2 r3 r4 sg_def Let_def del: drop_append)
  show "seg_backed d sg recs"
    using ok rd by (simp add: seg_backed_def sg_def)
qed

lemma ascending_om_ok: "list_all (\<lambda>(a, b). fst a < fst b) (zip recs (tl recs)) \<longleftrightarrow> om_ok recs"
proof (induction recs rule: induct_list012)
  case (3 a b recs)
  then show ?case
    by (cases a; cases b) (auto simp: om_ok_Cons dest: order.strict_trans)
qed (auto simp: om_ok_def)

lemma seg_backed_frame:
  "seg_backed d sg recs \<Longrightarrow> map_of (d_files d') (sg_path sg) = map_of (d_files d) (sg_path sg) \<Longrightarrow>
     seg_backed d' sg recs"
  by (simp add: seg_backed_def disk_read_def)

text \<open>
  C9. The segment round trip: a segment file written from records in ascending key order
  opens again, and through the reopened handle a lookup by sparse index and forward scan
  gives exactly what the records hold for the key (nothing for an absent key), a full scan
  gives the records in order, and a prefix scan gives exactly the records whose key starts
  with the prefix.
\<close>

theorem segment_round_trip:
  assumes "recs_ok recs" and "write_segment p recs d = (Inr (), d')"
  shows "\<exists>sg. segment_open d' p = Inr sg
    \<and> (\<forall>key. segment_get d' sg key = Inr (map_of recs key))
    \<and> segment_records d' sg = Inr recs
    \<and> (\<forall>prefix. segment_scan_prefix d' sg prefix = Inr (filter (\<lambda>r. starts_with (fst r) prefix) recs))"
proof -
  have "write_durable p (segment_bytes recs) d = (Inr (), d')"
    using assms(2) by (auto simp: write_segment_def split: if_splits)
  then have "map_of (d_files d') p = Some (segment_bytes recs)"
    by (cases rule: write_durable_cases) simp_all
  then have "disk_read d' p = Inr (segment_bytes recs)"
    by (simp add: disk_read_def)
  from segment_open_written [OF assms(1) this] show ?thesis
    by (intro exI conjI allI segment_get_backed segment_records_backed segment_scan_prefix_backed)
qed

text \<open>
  Records that are not strictly ascending are refused before anything is written.
\<close>

theorem write_segment_refuses_unsorted:
  "\<not> om_ok recs \<longleftrightarrow> write_segment p recs d =
     (Inl (InvalidInput ''segment records must be strictly ascending by key''), d)"
proof (cases "om_ok recs")
  case True
  have "write_durable p b d \<noteq> (Inl (InvalidInput s), d)" for b s
    by (cases "next_fault d") (auto simp: write_durable_def Let_def split: option.splits wd_point.splits)
  with True show ?thesis by (simp add: write_segment_def ascending_om_ok)
next
  case False
  then show ?thesis by (simp add: write_segment_def ascending_om_ok)
qed

definition seg_disk :: disk where
  "seg_disk = \<lparr>d_files = [], d_pid = 1, d_faults = [], d_stuck = []\<rparr>"

definition seg_sample :: "rec list" where
  "seg_sample = [(''a'', [1, 2]), (''ab'', []), (''b'', [3])]"

lemma seg_sample_ok: "recs_ok seg_sample"
proof -
  have "str_valid ''a''" "str_valid ''ab''" "str_valid ''b''"
    by (rule ascii_valid; simp)+
  then show ?thesis by (simp add: recs_ok_def seg_sample_def om_ok_def)
qed

lemma segment_round_trip_witness:
  "\<exists>d' sg. segment_open d' (''s'', ''seg'') = Inr sg
     \<and> segment_get d' sg ''ab'' = Inr (Some []) \<and> segment_get d' sg ''c'' = Inr None
     \<and> segment_scan_prefix d' sg ''a'' = Inr [(''a'', [1, 2]), (''ab'', [])]"
proof -
  let ?w = "write_segment (''s'', ''seg'') seg_sample seg_disk"
  have "om_ok seg_sample" by (simp add: seg_sample_def om_ok_def)
  then have "?w = write_durable (''s'', ''seg'') (segment_bytes seg_sample) seg_disk"
    by (simp only: write_segment_def ascending_om_ok if_True)
  then have "fst ?w = Inr ()"
    by (simp add: write_durable_def next_fault_def seg_disk_def Let_def)
  then have "?w = (Inr (), snd ?w)" by (cases ?w) simp
  from segment_round_trip [OF seg_sample_ok this] show ?thesis
    by (fastforce simp: seg_sample_def starts_with_def)
qed

end
