(* ===== verification/KvStore.thy ===== *)
theory KvStore
  imports OrdMap
begin

text \<open>
  The interface between the staged key/value store of \<open>src/cold_index.rs\<close> and its clients
  in \<open>src/memory.rs\<close>: lookups after updates, whatever the outcome a call reports, and
  prefix scans that list exactly the live keys. \<open>room k v s\<close> is the memory bound under which an
  update is promised (the write buffer must fit one segment). The clients' lemmas are proved
  once here, and \<open>HuskStore\<close> interprets the locale on the model of the code.
\<close>

locale kv_store =
  fixes inv :: "'s \<Rightarrow> bool"
    and view :: "'s \<Rightarrow> string \<Rightarrow> 'v option"
    and room :: "string \<Rightarrow> 'v option \<Rightarrow> 's \<Rightarrow> bool"
    and put :: "string \<Rightarrow> 'v \<Rightarrow> 's \<Rightarrow> unit io \<times> 's"
    and delete :: "string \<Rightarrow> 's \<Rightarrow> unit io \<times> 's"
    and get :: "string \<Rightarrow> 's \<Rightarrow> 'v option io \<times> 's"
    and scan :: "string \<Rightarrow> 's \<Rightarrow> (string \<times> 'v) list io"
  assumes put_law: "inv s \<Longrightarrow> room k (Some v) s \<Longrightarrow>
      inv (snd (put k v s)) \<and> view (snd (put k v s)) = (view s)(k \<mapsto> v)"
    and delete_law: "inv s \<Longrightarrow> room k None s \<Longrightarrow>
      inv (snd (delete k s)) \<and> view (snd (delete k s)) = (view s)(k := None)"
    and get_law: "inv s \<Longrightarrow> fst (get k s) = Inr (view s k) \<and> inv (snd (get k s)) \<and> view (snd (get k s)) = view s"
    and scan_law: "inv s \<Longrightarrow> \<exists>es. scan p s = Inr es \<and> om_ok es
      \<and> map_of es = (\<lambda>k. if starts_with k p then view s k else None)"
begin

lemma get_after_put: "inv s \<Longrightarrow> room k (Some v) s \<Longrightarrow> fst (get k (snd (put k v s))) = Inr (Some v)"
  using put_law [of s k v] get_law [of "snd (put k v s)" k] by simp

lemma get_after_delete: "inv s \<Longrightarrow> room k None s \<Longrightarrow> fst (get k (snd (delete k s))) = Inr None"
  using delete_law [of s k] get_law [of "snd (delete k s)" k] by simp

lemma two_puts:
  assumes "inv s" "room k (Some v) s" "room k' (Some v') (snd (put k v s))"
  shows "inv (snd (put k' v' (snd (put k v s))))"
    and "view (snd (put k' v' (snd (put k v s)))) = (view s)(k \<mapsto> v, k' \<mapsto> v')"
  using put_law [OF assms(1,2)] put_law [OF _ assms(3)] by simp_all

lemma two_deletes:
  assumes "inv s" "room k None s" "room k' None (snd (delete k s))"
  shows "inv (snd (delete k' (snd (delete k s))))"
    and "view (snd (delete k' (snd (delete k s)))) = (view s)(k := None, k' := None)"
  using delete_law [OF assms(1,2)] delete_law [OF _ assms(3)] by simp_all

text \<open>The suffixes a prefix scan lists: the keys of the prefix range without the prefix.\<close>

lemma scan_suffixes:
  assumes "inv s"
  obtains es where "scan p s = Inr es"
    "set (map (\<lambda>(k, _). drop (length p) k) es) = {t. view s (p @ t) \<noteq> None}"
proof -
  obtain es where es: "scan p s = Inr es" "map_of es = (\<lambda>k. if starts_with k p then view s k else None)"
    using scan_law [OF assms] by blast
  have keys: "k \<in> fst ` set es \<longleftrightarrow> starts_with k p \<and> view s k \<noteq> None" for k
    using map_of_eq_None_iff [of es k] fun_cong [OF es(2), of k]
    by (cases "view s k") (auto split: if_splits)
  have "set (map (\<lambda>(k, _). drop (length p) k) es) = drop (length p) ` fst ` set es"
    by (simp add: image_image case_prod_beta)
  also have "\<dots> = {t. view s (p @ t) \<noteq> None}"
  proof (intro set_eqI iffI)
    fix t assume "t \<in> drop (length p) ` fst ` set es"
    then obtain k where k: "k \<in> fst ` set es" "t = drop (length p) k" by blast
    then obtain u where "k = p @ u" "view s k \<noteq> None" using keys by (auto simp: starts_with_iff)
    with k(2) show "t \<in> {t. view s (p @ t) \<noteq> None}" by simp
  next
    fix t assume "t \<in> {t. view s (p @ t) \<noteq> None}"
    then have "p @ t \<in> fst ` set es" using keys by simp
    then have "drop (length p) (p @ t) \<in> drop (length p) ` fst ` set es" by (rule imageI)
    then show "t \<in> drop (length p) ` fst ` set es" by simp
  qed
  finally show thesis using that es(1) by blast
qed

end

end
