(* ===== verification/HuskStore.thy ===== *)
theory HuskStore
  imports Segment KvStore
begin

text \<open>
  \<open>src/cold_index.rs\<close>, second half: the staged key/value store \<open>HuskStore\<close> (a resident
  write buffer over immutable segments, a bounded read cache, tombstones, compaction and
  reopening). A store is a pair of its resident handle (\<open>husk_store\<close>) and the disk. The
  abstraction is \<open>hs_contents\<close>, one finite map; \<open>hs_rep\<close> relates a state to the decoded
  layers its segments hold. The interface the clients rely on is the locale \<open>kv_store\<close>,
  interpreted on these operations.
\<close>

subsection \<open>The read cache\<close>

record lru =
  lru_cap :: nat
  lru_clock :: nat
  lru_map :: "(string, bytes \<times> nat) omap"

definition lru_new :: "nat \<Rightarrow> lru" where
  "lru_new cap = \<lparr>lru_cap = cap, lru_clock = 0, lru_map = []\<rparr>"

definition lru_get :: "string \<Rightarrow> lru \<Rightarrow> bytes option \<times> lru" where
  "lru_get key c =
     (let now = lru_clock c + 1; c1 = c\<lparr>lru_clock := now\<rparr> in
        case map_of (lru_map c1) key of
          None \<Rightarrow> (None, c1)
        | Some (v, _) \<Rightarrow> (Some v, c1\<lparr>lru_map := om_update key (\<lambda>(v, _). (v, now)) (lru_map c1)\<rparr>))"

fun lru_victim :: "(string, bytes \<times> nat) omap \<Rightarrow> string option" where
  \<comment> \<open>\<open>iter().min_by_key(|(_, (_, ts))| *ts)\<close>: the first entry with the smallest clock\<close>
  "lru_victim [] = None"
| "lru_victim ((k, (v, ts)) # m) =
     (case lru_victim m of
        None \<Rightarrow> Some k
      | Some k' \<Rightarrow> if ts \<le> snd (the (map_of m k')) then Some k else Some k')"

definition lru_insert :: "string \<Rightarrow> bytes \<Rightarrow> lru \<Rightarrow> lru" where
  "lru_insert key value c =
     (if lru_cap c = 0 then c
      else let c1 = c\<lparr>lru_clock := lru_clock c + 1\<rparr>;
               m = (if \<not> om_contains (lru_map c1) key \<and> length (lru_map c1) \<ge> lru_cap c1
                    then (case lru_victim (lru_map c1) of
                            None \<Rightarrow> lru_map c1
                          | Some victim \<Rightarrow> om_remove victim (lru_map c1))
                    else lru_map c1)
           in c1\<lparr>lru_map := om_insert key (value, lru_clock c1) m\<rparr>)"

definition lru_remove :: "string \<Rightarrow> lru \<Rightarrow> lru" where
  "lru_remove key c = c\<lparr>lru_map := om_remove key (lru_map c)\<rparr>"

definition lru_resident_bytes :: "lru \<Rightarrow> nat" where
  "lru_resident_bytes c = sum_list (map (\<lambda>(k, v, _). length k + length v) (lru_map c))"

subsection \<open>Tagged values\<close>

definition TAG_PRESENT :: u8 where "TAG_PRESENT = 1"
definition TAG_TOMBSTONE :: u8 where "TAG_TOMBSTONE = 0"

definition encode_value :: "bytes option \<Rightarrow> bytes" where
  "encode_value v = (case v of Some b \<Rightarrow> TAG_PRESENT # b | None \<Rightarrow> [TAG_TOMBSTONE])"

definition decode_value :: "bytes \<Rightarrow> bytes option option" where
  "decode_value raw =
     (case raw of
        [] \<Rightarrow> None
      | t # rest \<Rightarrow>
          if t = TAG_PRESENT then Some (Some rest)
          else if t = TAG_TOMBSTONE then Some None
          else None)"

definition flatten :: "'a option option \<Rightarrow> 'a option" where
  "flatten x = (case x of Some (Some v) \<Rightarrow> Some v | _ \<Rightarrow> None)"

subsection \<open>The store\<close>

type_synonym slots = "(string, bytes option) omap"

record husk_store =
  hs_dir :: string
  hs_buffer :: slots
  hs_limit :: nat
  hs_segments :: "segment list"      \<comment> \<open>oldest first\<close>
  hs_next :: nat
  hs_cache :: lru

type_synonym store = "husk_store \<times> disk"

definition seg_name :: "nat \<Rightarrow> string" where
  \<comment> \<open>\<open>format!("seg-{:020}", seq)\<close>\<close>
  "seg_name n = ''seg-'' @ dec_padded 20 n"

definition parse_u64 :: "string \<Rightarrow> nat option" where
  \<comment> \<open>\<open>str::parse::<u64>\<close>: an optional plus sign, at least one digit, below 2^64\<close>
  "parse_u64 s =
     (let ds = (if s \<noteq> [] \<and> hd s = CHR ''+'' then tl s else s) in
        if ds \<noteq> [] \<and> list_all is_digit ds \<and> dec_val ds < 2 ^ 64 then Some (dec_val ds) else None)"

definition seg_seq :: "string \<Rightarrow> nat option" where
  "seg_seq name = Option.bind (strip_prefix name ''seg-'') parse_u64"

definition hs_found :: "disk \<Rightarrow> string \<Rightarrow> (nat \<times> path) list" where
  \<comment> \<open>the \<open>read_dir\<close> loop; the order of a directory listing is that of the model's map\<close>
  "hs_found d dir =
     List.map_filter (\<lambda>(p, _). if fst p = dir then map_option (\<lambda>n. (n, p)) (seg_seq (snd p)) else None)
       (d_files d)"

definition hs_open :: "string \<Rightarrow> nat \<Rightarrow> nat \<Rightarrow> disk \<Rightarrow> husk_store io" where
  "hs_open dir limit cap d =
     (let found = sort_key fst (hs_found d dir);
          next_seq = (if found = [] then 0 else fst (last found) + 1)
      in bindr (mapr (\<lambda>(_, p). segment_open d p) found) (\<lambda>segs.
           Inr \<lparr>hs_dir = dir, hs_buffer = [], hs_limit = max limit 1, hs_segments = segs,
                hs_next = next_seq, hs_cache = lru_new cap\<rparr>))"

definition enc_recs :: "slots \<Rightarrow> rec list" where
  "enc_recs m = map (\<lambda>(k, v). (k, encode_value v)) m"

definition hs_flush :: "store \<Rightarrow> unit io \<times> store" where
  "hs_flush s =
     (let (hs, d) = s in
        if hs_buffer hs = [] then (Inr (), hs, d)
        else let p = (hs_dir hs, seg_name (hs_next hs)) in
          case write_segment p (enc_recs (hs_buffer hs)) d of
            (Inl e, d1) \<Rightarrow> (Inl e, hs, d1)
          | (Inr _, d1) \<Rightarrow>
              (case segment_open d1 p of
                 Inl e \<Rightarrow> (Inl e, hs, d1)
               | Inr sg \<Rightarrow>
                   (Inr (), hs\<lparr>hs_segments := hs_segments hs @ [sg], hs_next := hs_next hs + 1,
                               hs_buffer := []\<rparr>, d1)))"

definition hs_maybe_flush :: "store \<Rightarrow> unit io \<times> store" where
  "hs_maybe_flush s = (if length (hs_buffer (fst s)) \<ge> hs_limit (fst s) then hs_flush s else (Inr (), s))"

definition hs_slot :: "string \<Rightarrow> bytes option \<Rightarrow> husk_store \<Rightarrow> husk_store" where
  "hs_slot key slot hs =
     hs\<lparr>hs_buffer := om_insert key slot (hs_buffer hs), hs_cache := lru_remove key (hs_cache hs)\<rparr>"

definition hs_put :: "string \<Rightarrow> bytes \<Rightarrow> store \<Rightarrow> unit io \<times> store" where
  "hs_put key value s = hs_maybe_flush (hs_slot key (Some value) (fst s), snd s)"

definition hs_delete :: "string \<Rightarrow> store \<Rightarrow> unit io \<times> store" where
  "hs_delete key s = hs_maybe_flush (hs_slot key None (fst s), snd s)"

fun hs_find :: "disk \<Rightarrow> segment list \<Rightarrow> string \<Rightarrow> bytes option io" where
  \<comment> \<open>the loop of \<open>get\<close>: the first segment that has the key, raw\<close>
  "hs_find d [] key = Inr None"
| "hs_find d (sg # sgs) key =
     bindr (segment_get d sg key) (\<lambda>r. case r of Some raw \<Rightarrow> Inr (Some raw) | None \<Rightarrow> hs_find d sgs key)"

definition hs_get :: "string \<Rightarrow> store \<Rightarrow> bytes option io \<times> store" where
  "hs_get key s =
     (let (hs, d) = s in
        case map_of (hs_buffer hs) key of
          Some slot \<Rightarrow> (Inr slot, hs, d)
        | None \<Rightarrow>
            (let (hit, c) = lru_get key (hs_cache hs); hs1 = hs\<lparr>hs_cache := c\<rparr> in
               case hit of
                 Some v \<Rightarrow> (Inr (Some v), hs1, d)
               | None \<Rightarrow>
                   (case hs_find d (rev (hs_segments hs)) key of
                      Inl e \<Rightarrow> (Inl e, hs1, d)
                    | Inr None \<Rightarrow> (Inr None, hs1, d)
                    | Inr (Some raw) \<Rightarrow>
                        (case flatten (decode_value raw) of
                           None \<Rightarrow> (Inr None, hs1, d)
                         | Some v \<Rightarrow> (Inr (Some v), hs1\<lparr>hs_cache := lru_insert key v c\<rparr>, d)))))"

fun live_step :: "rec \<Rightarrow> (string, bytes) omap \<Rightarrow> (string, bytes) omap" where
  "live_step (k, raw) live =
     (case decode_value raw of
        Some (Some v) \<Rightarrow> om_insert k v live
      | Some None \<Rightarrow> om_remove k live
      | None \<Rightarrow> live)"

definition hs_compact :: "store \<Rightarrow> unit io \<times> store" where
  "hs_compact s =
     (case hs_flush s of
        (Inl e, s1) \<Rightarrow> (Inl e, s1)
      | (Inr _, (hs, d)) \<Rightarrow>
          if length (hs_segments hs) < 2 then (Inr (), hs, d)
          else (case mapr (segment_records d) (hs_segments hs) of
            Inl e \<Rightarrow> (Inl e, hs, d)
          | Inr rss \<Rightarrow>
              (let live = fold (fold live_step) rss [];
                   old_paths = map sg_path (hs_segments hs);
                   p = (hs_dir hs, seg_name (hs_next hs))
               in if live = []
                  then (Inr (), hs\<lparr>hs_segments := []\<rparr>, fold disk_remove old_paths d)
                  else (case write_segment p (map (\<lambda>(k, v). (k, encode_value (Some v))) live) d of
                          (Inl e, d1) \<Rightarrow> (Inl e, hs, d1)
                        | (Inr _, d1) \<Rightarrow>
                            (case segment_open d1 p of
                               Inl e \<Rightarrow> (Inl e, hs, d1)
                             | Inr sg \<Rightarrow>
                                 (Inr (), hs\<lparr>hs_segments := [sg], hs_next := hs_next hs + 1\<rparr>,
                                  fold disk_remove old_paths d1))))))"

fun merge_step :: "rec \<Rightarrow> slots \<Rightarrow> slots" where
  "merge_step (k, raw) m = (case decode_value raw of Some slot \<Rightarrow> om_insert k slot m | None \<Rightarrow> m)"

definition live_of :: "slots \<Rightarrow> (string \<times> bytes) list" where
  "live_of m = List.map_filter (\<lambda>(k, v). map_option (Pair k) v) m"

definition hs_live_entries :: "store \<Rightarrow> (string \<times> bytes) list io" where
  "hs_live_entries s =
     (let (hs, d) = s in
        bindr (mapr (segment_records d) (hs_segments hs)) (\<lambda>rss.
          Inr (live_of (om_extend (fold (fold merge_step) rss []) (hs_buffer hs)))))"

definition buffer_range :: "string \<Rightarrow> slots \<Rightarrow> slots" where
  \<comment> \<open>\<open>buffer.range(prefix..)\<close> up to the first key without the prefix\<close>
  "buffer_range prefix b =
     takeWhile (\<lambda>(k, _). starts_with k prefix) (dropWhile (\<lambda>(k, _). k < prefix) b)"

definition hs_scan_prefix :: "string \<Rightarrow> store \<Rightarrow> (string \<times> bytes) list io" where
  "hs_scan_prefix prefix s =
     (let (hs, d) = s in
        bindr (mapr (\<lambda>sg. segment_scan_prefix d sg prefix) (hs_segments hs)) (\<lambda>rss.
          Inr (live_of (om_extend (fold (fold merge_step) rss []) (buffer_range prefix (hs_buffer hs))))))"

definition hs_resident_index_len :: "husk_store \<Rightarrow> nat" where
  "hs_resident_index_len hs =
     length (hs_buffer hs) + sum_list (map (\<lambda>sg. length (sg_sparse sg)) (hs_segments hs))"

definition hs_resident_bytes :: "husk_store \<Rightarrow> nat" where
  "hs_resident_bytes hs =
     sum_list (map (\<lambda>(k, v). length k + (case v of None \<Rightarrow> 0 | Some b \<Rightarrow> length b)) (hs_buffer hs))
     + sum_list (map (\<lambda>sg. length (sg_sparse sg) * 48) (hs_segments hs))
     + lru_resident_bytes (hs_cache hs)"

subsection \<open>Abstraction\<close>

text \<open>What the store holds for a key: the buffer's slot, else the newest segment's.\<close>

definition hs_contents :: "store \<Rightarrow> string \<Rightarrow> bytes option" where
  "hs_contents s key =
     (case map_of (hs_buffer (fst s)) key of
        Some slot \<Rightarrow> slot
      | None \<Rightarrow>
          (case hs_find (snd s) (rev (hs_segments (fst s))) key of
             Inr (Some raw) \<Rightarrow> flatten (decode_value raw)
           | _ \<Rightarrow> None))"

definition layers :: "slots list \<Rightarrow> string \<Rightarrow> bytes option option" where
  \<comment> \<open>oldest first: a later layer shadows the earlier ones\<close>
  "layers rss = fold (\<lambda>rs f. f ++ map_of rs) rss Map.empty"

definition slots_ok :: "slots \<Rightarrow> bool" where
  "slots_ok m = recs_ok (enc_recs m)"

definition cache_ok :: "slots \<Rightarrow> slots list \<Rightarrow> lru \<Rightarrow> bool" where
  "cache_ok buffer rss c \<longleftrightarrow> om_ok (lru_map c) \<and> length (lru_map c) \<le> lru_cap c
     \<and> (\<forall>k v ts. map_of (lru_map c) k = Some (v, ts) \<longrightarrow>
          map_of buffer k = None \<and> layers rss k = Some (Some v))"

definition hs_rep :: "store \<Rightarrow> slots list \<Rightarrow> bool" where
  "hs_rep s rss \<longleftrightarrow>
     list_all2 (\<lambda>sg rs. seg_backed (snd s) sg (enc_recs rs)) (hs_segments (fst s)) rss
     \<and> slots_ok (hs_buffer (fst s)) \<and> om_ok (d_files (snd s))
     \<and> cache_ok (hs_buffer (fst s)) rss (hs_cache (fst s))
     \<and> (\<exists>ns. map sg_path (hs_segments (fst s)) = map (\<lambda>n. (hs_dir (fst s), seg_name n)) ns
          \<and> sorted_wrt (<) ns \<and> (\<forall>n \<in> set ns. n < hs_next (fst s)))"

definition hs_ok :: "store \<Rightarrow> bool" where
  "hs_ok s \<longleftrightarrow> (\<exists>rss. hs_rep s rss)"

subsection \<open>Tagged values and layers\<close>

lemma decode_encode_value [simp, codec_simps]: "decode_value (encode_value v) = Some v"
  by (cases v) (auto simp: encode_value_def decode_value_def TAG_PRESENT_def TAG_TOMBSTONE_def)

lemma flatten_simps [simp]: "flatten None = None" "flatten (Some x) = x"
  by (simp_all add: flatten_def split: option.splits)

lemma length_encode_value: "length (encode_value v) = 1 + (case v of None \<Rightarrow> 0 | Some b \<Rightarrow> length b)"
  by (cases v) (auto simp: encode_value_def)

lemma map_of_enc_recs [simp]: "map_of (enc_recs m) k = map_option encode_value (map_of m k)"
  by (induction m) (auto simp: enc_recs_def)

lemma om_ok_enc_recs [simp]: "om_ok (enc_recs m) = om_ok m"
  by (simp add: enc_recs_def om_ok_map_val)

lemma enc_recs_Nil [simp]: "enc_recs [] = []"
  by (simp add: enc_recs_def)

lemma slots_ok_om_ok: "slots_ok m \<Longrightarrow> om_ok m"
  by (simp add: slots_ok_def recs_ok_def)

lemma slots_ok_Nil [simp]: "slots_ok []"
  by (simp add: slots_ok_def recs_ok_def)

lemma layers_Nil [simp]: "layers [] = Map.empty"
  by (simp add: layers_def)

lemma layers_snoc [simp]: "layers (rss @ [rs]) = layers rss ++ map_of rs"
  by (simp add: layers_def)

lemma layers_single [simp]: "layers [a] = map_of a" "layers [a, b] = map_of a ++ map_of b"
  by (simp_all add: layers_def)

lemma layers_append: "layers (rss @ qss) = layers rss ++ layers qss"
  by (induction qss rule: rev_induct) (simp_all flip: append_assoc add: map_add_assoc)

lemma layers_drop: "layers (drop j rss) k = Some x \<Longrightarrow> layers rss k = Some x"
  using layers_append [of "take j rss" "drop j rss"] by simp

lemma hs_find_backed:
  assumes "list_all2 (\<lambda>sg rs. seg_backed d sg (enc_recs rs)) segs rss"
  shows "hs_find d (rev segs) key = Inr (map_option encode_value (layers rss key))"
  using assms
proof (induction segs arbitrary: rss rule: rev_induct)
  case Nil
  then show ?case by simp
next
  case (snoc sg segs)
  then obtain rss' rs where r: "rss = rss' @ [rs]" "seg_backed d sg (enc_recs rs)"
    "list_all2 (\<lambda>sg rs. seg_backed d sg (enc_recs rs)) segs rss'"
    by (auto simp: list_all2_append1 list_all2_Cons1)
  show ?case
    using segment_get_backed [OF r(2), of key] snoc.IH [OF r(3)] r(1)
    by (cases "map_of rs key") (simp_all add: map_add_def)
qed

lemma hs_contents_rep:
  assumes "hs_rep s rss"
  shows "hs_contents s k = flatten (layers (rss @ [hs_buffer (fst s)]) k)"
proof -
  have f: "hs_find (snd s) (rev (hs_segments (fst s))) k = Inr (map_option encode_value (layers rss k))"
    using assms by (intro hs_find_backed) (simp add: hs_rep_def)
  show ?thesis
    by (cases "map_of (hs_buffer (fst s)) k"; cases "layers rss k")
      (simp_all add: hs_contents_def f map_add_def)
qed

lemma hs_repD:
  assumes "hs_rep (hs, d) rss"
  shows "list_all2 (\<lambda>sg rs. seg_backed d sg (enc_recs rs)) (hs_segments hs) rss"
    "slots_ok (hs_buffer hs)" "om_ok (d_files d)" "cache_ok (hs_buffer hs) rss (hs_cache hs)"
    "\<exists>ns. map sg_path (hs_segments hs) = map (\<lambda>n. (hs_dir hs, seg_name n)) ns
          \<and> sorted_wrt (<) ns \<and> (\<forall>n \<in> set ns. n < hs_next hs)"
  using assms by (simp_all add: hs_rep_def)

subsection \<open>Segment names\<close>

lemma seg_name_inj: "seg_name m = seg_name n \<Longrightarrow> m = n"
  by (auto simp: seg_name_def dest: dec_padded_inj)

lemma is_digit_chars: "\<not> is_digit (CHR ''.'')" "\<not> is_digit (CHR ''+'')"
  by (simp_all add: is_digit_def)

lemma tmp_not_seg: "tmp_path pid (dir, seg_name m) \<noteq> (dir', seg_name n)"
proof
  assume "tmp_path pid (dir, seg_name m) = (dir', seg_name n)"
  then have "dec_padded 20 m @ ''.tmp.'' @ dec_digits pid = dec_padded 20 n"
    by (simp add: tmp_path_def seg_name_def)
  then have "CHR ''.'' \<in> set (dec_padded 20 n)" by (metis in_set_conv_decomp append_Cons)
  then show False using dec_padded_digit is_digit_chars by blast
qed

lemma dec_padded_hd: "hd (dec_padded w n) \<noteq> CHR ''+''"
proof -
  have "is_digit (hd (dec_padded w n))"
    by (rule dec_padded_digit, rule hd_in_set) simp
  then show ?thesis using is_digit_chars by metis
qed

lemma parse_u64_padded: "n < 2 ^ 64 \<Longrightarrow> parse_u64 (dec_padded w n) = Some n"
  using dec_padded_digit [of _ w n] dec_padded_hd [of w n]
  by (simp add: parse_u64_def Let_def list_all_iff)

lemma seg_seq_name [simp]: "n < 2 ^ 64 \<Longrightarrow> seg_seq (seg_name n) = Some n"
  by (simp only: seg_seq_def seg_name_def strip_prefix_append bind.bind_lunit parse_u64_padded)

lemma seg_seq_tmp: "seg_seq (snd (tmp_path pid (dir, seg_name n))) = None"
proof -
  have "list_all is_digit ds \<Longrightarrow> ds \<noteq> a @ CHR ''.'' # b" for ds a b
    using is_digit_chars by (auto simp: list_all_iff)
  moreover have "(if s \<noteq> [] \<and> hd s = CHR ''+'' then tl s else s) = dec_padded 20 n @ ''.tmp.'' @ dec_digits pid"
    if "s = dec_padded 20 n @ ''.tmp.'' @ dec_digits pid" for s
    using that dec_padded_hd [of 20 n] by simp
  ultimately have "parse_u64 (dec_padded 20 n @ ''.tmp.'' @ dec_digits pid) = None"
    by (simp add: parse_u64_def Let_def is_digit_chars)
  then show ?thesis
    by (simp only: seg_seq_def tmp_path_def seg_name_def snd_conv append_assoc strip_prefix_append bind.bind_lunit)
qed

subsection \<open>Writing a segment\<close>

lemma write_segment_cases:
  assumes "recs_ok recs" "write_segment p recs d = (r, d1)" "om_ok (d_files d)"
  obtains (ok) sg where "r = Inr ()" "segment_open d1 p = Inr sg" "seg_backed d1 sg recs" "sg_path sg = p"
      "om_ok (d_files d1)" "d_stuck d1 = d_stuck d"
      "\<And>q. q \<noteq> p \<Longrightarrow> q \<noteq> tmp_path (d_pid d) p \<Longrightarrow> map_of (d_files d1) q = map_of (d_files d) q"
      "map_of (d_files d1) (tmp_path (d_pid d) p) = None"
    | (failed) e where "r = Inl e" "om_ok (d_files d1)" "d_stuck d1 = d_stuck d"
      "\<And>q. q \<noteq> tmp_path (d_pid d) p \<Longrightarrow> map_of (d_files d1) q = map_of (d_files d) q"
proof -
  have "om_ok recs" using assms(1) by (simp add: recs_ok_def)
  then have w: "write_durable p (segment_bytes recs) d = (r, d1)"
    using assms(2) by (simp add: write_segment_def ascending_om_ok)
  have ok1: "om_ok (d_files d1)" "d_stuck d1 = d_stuck d"
    using om_ok_write_durable [OF assms(3), of p "segment_bytes recs"]
      write_durable_fields [of p "segment_bytes recs" d] w by simp_all
  from w show thesis
  proof (cases rule: write_durable_cases)
    case ok
    then have "disk_read d1 p = Inr (segment_bytes recs)" by (simp add: disk_read_def)
    note opened = segment_open_written [OF assms(1) this]
    show thesis
      by (rule that(1) [OF ok(1) opened]) (use ok(2) ok1 in simp_all)
  next
    case untouched
    with ok1 show thesis by (intro that(2)) simp_all
  next
    case partial
    with ok1 show thesis by (intro that(2)) simp_all
  qed
qed

text \<open>Segments whose files are untouched stay described.\<close>

lemma backed_frame:
  assumes "list_all2 (\<lambda>sg rs. seg_backed d sg (enc_recs rs)) segs rss"
    and "\<And>sg. sg \<in> set segs \<Longrightarrow> map_of (d_files d') (sg_path sg) = map_of (d_files d) (sg_path sg)"
  shows "list_all2 (\<lambda>sg rs. seg_backed d' sg (enc_recs rs)) segs rss"
  using assms
  by (induction segs rss rule: list_all2_induct) (auto intro: seg_backed_frame)

definition seg_paths :: "husk_store \<Rightarrow> bool" where
  "seg_paths hs \<longleftrightarrow> (\<exists>ns. map sg_path (hs_segments hs) = map (\<lambda>n. (hs_dir hs, seg_name n)) ns
          \<and> sorted_wrt (<) ns \<and> (\<forall>n \<in> set ns. n < hs_next hs))"

definition new_path :: "husk_store \<Rightarrow> path" where
  "new_path hs = (hs_dir hs, seg_name (hs_next hs))"

lemma seg_pathsE:
  assumes "seg_paths hs" "sg \<in> set (hs_segments hs)"
  obtains n where "sg_path sg = (hs_dir hs, seg_name n)" "n < hs_next hs"
proof -
  obtain ns where ns: "map sg_path (hs_segments hs) = map (\<lambda>n. (hs_dir hs, seg_name n)) ns"
    "\<forall>n \<in> set ns. n < hs_next hs"
    using assms(1) by (auto simp: seg_paths_def)
  have "sg_path sg \<in> set (map sg_path (hs_segments hs))"
    using assms(2) by simp
  then have "sg_path sg \<in> (\<lambda>n. (hs_dir hs, seg_name n)) ` set ns"
    unfolding ns(1) by simp
  with ns(2) that show thesis by auto
qed

lemma seg_path_not_new:
  assumes "seg_paths hs" "sg \<in> set (hs_segments hs)"
  shows "sg_path sg \<noteq> new_path hs" "sg_path sg \<noteq> tmp_path pid (new_path hs)"
proof -
  obtain n where n: "sg_path sg = (hs_dir hs, seg_name n)" "n < hs_next hs"
    using seg_pathsE [OF assms] .
  then show "sg_path sg \<noteq> new_path hs" using seg_name_inj by (auto simp: new_path_def)
  show "sg_path sg \<noteq> tmp_path pid (new_path hs)"
    unfolding n(1) new_path_def by (rule tmp_not_seg [symmetric])
qed

lemma seg_paths_snoc:
  assumes "seg_paths hs" "sg_path sg = new_path hs"
  shows "seg_paths (hs\<lparr>hs_segments := hs_segments hs @ [sg], hs_next := hs_next hs + 1, hs_buffer := b\<rparr>)"
proof -
  obtain ns where "map sg_path (hs_segments hs) = map (\<lambda>n. (hs_dir hs, seg_name n)) ns"
    "sorted_wrt (<) ns" "\<forall>n \<in> set ns. n < hs_next hs"
    using assms(1) by (auto simp: seg_paths_def)
  then have "map sg_path (hs_segments hs @ [sg]) = map (\<lambda>n. (hs_dir hs, seg_name n)) (ns @ [hs_next hs])"
    "sorted_wrt (<) (ns @ [hs_next hs])" "\<forall>n \<in> set (ns @ [hs_next hs]). n < hs_next hs + 1"
    using assms(2) by (auto simp: sorted_wrt_append new_path_def less_SucI)
  then show ?thesis unfolding seg_paths_def by (intro exI [of _ "ns @ [hs_next hs]"]) simp
qed

lemma hs_rep_iff:
  "hs_rep (hs, d) rss \<longleftrightarrow> list_all2 (\<lambda>sg rs. seg_backed d sg (enc_recs rs)) (hs_segments hs) rss
     \<and> slots_ok (hs_buffer hs) \<and> om_ok (d_files d) \<and> cache_ok (hs_buffer hs) rss (hs_cache hs) \<and> seg_paths hs"
  by (simp add: hs_rep_def seg_paths_def)

subsection \<open>Flushing\<close>

text \<open>A flush either fails and leaves the handle as it was, or turns the buffer into a new
  newest layer; either way the represented layers are those of before.\<close>

lemma hs_flush_cases:
  assumes rep: "hs_rep (hs, d) rss" and fl: "hs_flush (hs, d) = (r, s')"
  obtains (kept) d1 where "s' = (hs, d1)" "hs_rep s' rss" "d_stuck d1 = d_stuck d"
      "r = Inr () \<Longrightarrow> hs_buffer hs = [] \<and> d1 = d"
      "\<And>q. q \<noteq> tmp_path (d_pid d) (new_path hs) \<Longrightarrow> map_of (d_files d1) q = map_of (d_files d) q"
    | (flushed) sg d1 where "r = Inr ()"
      "s' = (hs\<lparr>hs_segments := hs_segments hs @ [sg], hs_next := hs_next hs + 1, hs_buffer := []\<rparr>, d1)"
      "hs_rep s' (rss @ [hs_buffer hs])" "d_stuck d1 = d_stuck d" "sg_path sg = new_path hs"
      "\<And>q. q \<noteq> new_path hs \<Longrightarrow> q \<noteq> tmp_path (d_pid d) (new_path hs) \<Longrightarrow>
         map_of (d_files d1) q = map_of (d_files d) q"
proof (cases "hs_buffer hs = []")
  case True
  with fl have "r = Inr ()" "s' = (hs, d)" by (simp_all add: hs_flush_def)
  with True rep show thesis by (intro that(1)) simp_all
next
  case False
  note D = hs_repD [OF rep]
  have paths: "seg_paths hs" using D(5) by (simp add: seg_paths_def)
  obtain w d1 where w: "write_segment (new_path hs) (enc_recs (hs_buffer hs)) d = (w, d1)"
    by (cases "write_segment (new_path hs) (enc_recs (hs_buffer hs)) d")
  have "recs_ok (enc_recs (hs_buffer hs))" using D(2) by (simp only: slots_ok_def)
  from this w D(3) show thesis
  proof (cases rule: write_segment_cases)
    case (ok sg)
    have s': "r = Inr ()" "s' = (hs\<lparr>hs_segments := hs_segments hs @ [sg], hs_next := hs_next hs + 1, hs_buffer := []\<rparr>, d1)"
      using fl False w ok(1,2) by (simp_all add: hs_flush_def new_path_def)
    have old: "list_all2 (\<lambda>sg rs. seg_backed d1 sg (enc_recs rs)) (hs_segments hs) rss"
      by (rule backed_frame [OF D(1)]) (rule ok(7); rule seg_path_not_new [OF paths])
    have "map_of (hs_buffer hs) k = None" "layers rss k = Some (Some v)"
      if "map_of (lru_map (hs_cache hs)) k = Some (v, ts)" for k v ts
      using D(4) that unfolding cache_ok_def by blast+
    then have cache: "cache_ok [] (rss @ [hs_buffer hs]) (hs_cache hs)"
      using D(4) unfolding cache_ok_def by (simp add: map_add_def)
    have "hs_rep s' (rss @ [hs_buffer hs])"
      using old ok(3,5) cache seg_paths_snoc [OF paths ok(4), of "[]"]
      by (simp add: s'(2) hs_rep_iff list_all2_appendI)
    from s' this ok(6,4,7) show thesis by (rule that(2))
  next
    case (failed e)
    have s': "r = Inl e" "s' = (hs, d1)"
      using fl False w failed(1) by (simp_all add: hs_flush_def new_path_def)
    have "list_all2 (\<lambda>sg rs. seg_backed d1 sg (enc_recs rs)) (hs_segments hs) rss"
      by (rule backed_frame [OF D(1)]) (rule failed(4); rule seg_path_not_new [OF paths])
    with D(2,4) paths failed(2) s'(2) have "hs_rep s' rss" by (simp only: hs_rep_iff simp_thms)
    from s'(2) this failed(3) _ failed(4) show thesis by (rule that(1)) (use s'(1) in simp_all)
  qed
qed

lemma hs_flush_contents:
  assumes "hs_ok s" "hs_flush s = (r, s')"
  shows "hs_ok s' \<and> hs_contents s' = hs_contents s"
proof -
  obtain hs d where s: "s = (hs, d)" by (cases s)
  obtain rss where rep: "hs_rep (hs, d) rss" using assms(1) s by (auto simp: hs_ok_def)
  from rep assms(2) [unfolded s] show ?thesis
  proof (cases rule: hs_flush_cases)
    case (kept d1)
    then show ?thesis
      using hs_contents_rep [OF rep] hs_contents_rep [OF kept(2)] s by (auto simp: hs_ok_def fun_eq_iff)
  next
    case (flushed sg d1)
    have "hs_contents s' = hs_contents s"
      using hs_contents_rep [OF rep] hs_contents_rep [OF flushed(3)] s flushed(2)
      by (simp add: fun_eq_iff layers_append)
    with flushed(3) show ?thesis by (auto simp: hs_ok_def)
  qed
qed

subsection \<open>Updates and lookups\<close>

lemma cache_ok_remove:
  assumes "cache_ok b rss c"
  shows "cache_ok (om_insert k slot b) rss (lru_remove k c)"
proof -
  have "length (om_remove k (lru_map c)) \<le> length (lru_map c)"
    by (simp add: om_remove_def)
  with assms show ?thesis
    by (auto simp: cache_ok_def lru_remove_def intro: om_ok_remove)
qed

lemma hs_slot_rep:
  assumes rep: "hs_rep (hs, d) rss" and fits: "slots_ok (om_insert k slot (hs_buffer hs))"
  shows "hs_rep (hs_slot k slot hs, d) rss"
    and "hs_contents (hs_slot k slot hs, d) = (hs_contents (hs, d))(k := slot)"
proof -
  show r: "hs_rep (hs_slot k slot hs, d) rss"
    using rep fits cache_ok_remove by (auto simp: hs_rep_iff hs_slot_def seg_paths_def)
  show "hs_contents (hs_slot k slot hs, d) = (hs_contents (hs, d))(k := slot)"
    using hs_contents_rep [OF r] hs_contents_rep [OF rep]
    by (auto simp: hs_slot_def fun_eq_iff map_add_def)
qed

lemma hs_update:
  assumes "hs_ok s" "slots_ok (om_insert k slot (hs_buffer (fst s)))"
    and "hs_maybe_flush (hs_slot k slot (fst s), snd s) = (r, s')"
  shows "hs_ok s' \<and> hs_contents s' = (hs_contents s)(k := slot)"
proof -
  obtain rss where rep: "hs_rep (fst s, snd s) rss" using assms(1) by (auto simp: hs_ok_def)
  let ?s = "(hs_slot k slot (fst s), snd s)"
  note slot = hs_slot_rep [OF rep assms(2)]
  have ok: "hs_ok ?s" using slot(1) by (auto simp: hs_ok_def)
  have con: "hs_contents ?s = (hs_contents s)(k := slot)" using slot(2) by simp
  show ?thesis
  proof (cases "length (hs_buffer (fst ?s)) \<ge> hs_limit (fst ?s)")
    case True
    then have "hs_flush ?s = (r, s')" using assms(3) by (simp only: hs_maybe_flush_def if_True)
    from hs_flush_contents [OF ok this] con show ?thesis by (simp only: simp_thms)
  next
    case False
    then have "s' = ?s" using assms(3) by (simp only: hs_maybe_flush_def if_False prod.inject)
    with ok con show ?thesis by (simp only: simp_thms)
  qed
qed

lemma lru_victim_None [simp]: "lru_victim m = None \<longleftrightarrow> m = []"
  by (induction m rule: lru_victim.induct) (auto split: option.splits)

lemma lru_victim_in: "lru_victim m = Some k \<Longrightarrow> om_contains m k"
  by (induction m arbitrary: k rule: lru_victim.induct)
    (auto simp: om_contains_iff split: option.splits if_splits)

lemma cache_ok_get:
  assumes "cache_ok b rss c" "lru_get key c = (hit, c')"
  shows "cache_ok b rss c'" "hit = Some v \<Longrightarrow> map_of b key = None \<and> layers rss key = Some (Some v)"
proof -
  show "cache_ok b rss c'"
  proof (cases "map_of (lru_map c) key")
    case None
    then have "c' = c\<lparr>lru_clock := lru_clock c + 1\<rparr>" using assms(2) by (simp add: lru_get_def Let_def)
    then show ?thesis using assms(1) by (simp add: cache_ok_def)
  next
    case (Some e)
    obtain w ts where e: "e = (w, ts)" by (cases e)
    have c': "lru_cap c' = lru_cap c"
      "lru_map c' = om_update key (\<lambda>(v, _). (v, lru_clock c + 1)) (lru_map c)"
      using assms(2) Some e by (auto simp: lru_get_def Let_def)
    have old: "map_of b k = None \<and> layers rss k = Some (Some x)"
      if "map_of (lru_map c) k = Some (x, t)" for k x t
      using assms(1) that unfolding cache_ok_def by blast
    have "map_of b k = None \<and> layers rss k = Some (Some x)"
      if "map_of (lru_map c') k = Some (x, t)" for k x t
    proof (cases "k = key")
      case True
      then have "x = w" using that Some e by (simp add: c'(2))
      with old [of key w ts] Some e True show ?thesis by simp
    next
      case False
      then show ?thesis using that old [of k x t] by (simp add: c'(2))
    qed
    with assms(1) show ?thesis
      unfolding cache_ok_def c'(1) by (simp add: c'(2) om_ok_update)
  qed
  show "map_of b key = None \<and> layers rss key = Some (Some v)" if "hit = Some v"
    using assms that unfolding cache_ok_def lru_get_def Let_def
    by (auto split: option.splits)
qed

lemma cache_ok_insert:
  assumes ok: "cache_ok b rss c" and v: "map_of b key = None" "layers rss key = Some (Some v)"
  shows "cache_ok b rss (lru_insert key v c)"
proof (cases "lru_cap c = 0")
  case True
  with ok show ?thesis by (simp add: lru_insert_def)
next
  case False
  define m where "m = (if \<not> om_contains (lru_map c) key \<and> length (lru_map c) \<ge> lru_cap c
    then (case lru_victim (lru_map c) of None \<Rightarrow> lru_map c | Some victim \<Rightarrow> om_remove victim (lru_map c))
    else lru_map c)"
  have new: "lru_map (lru_insert key v c) = om_insert key (v, lru_clock c + 1) m"
    "lru_cap (lru_insert key v c) = lru_cap c"
    using False by (simp_all add: lru_insert_def m_def Let_def split: option.split)
  have oks: "om_ok (lru_map c)" "length (lru_map c) \<le> lru_cap c" using ok by (simp_all add: cache_ok_def)
  then have m_ok: "om_ok m" by (auto simp: m_def intro: om_ok_remove split: option.splits)
  have len: "length (om_insert key (v, lru_clock c + 1) m) \<le> lru_cap c"
  proof (cases "\<not> om_contains (lru_map c) key \<and> length (lru_map c) \<ge> lru_cap c")
    case True
    with False have "lru_map c \<noteq> []" by auto
    then obtain victim where vic: "lru_victim (lru_map c) = Some victim"
      by (metis lru_victim_None not_Some_eq)
    then have "length m = length (lru_map c) - 1"
      using True length_om_remove [OF oks(1), of victim] lru_victim_in [OF vic] by (simp add: m_def)
    with oks(2) False length_om_insert_le [of key "(v, lru_clock c + 1)" m] \<open>lru_map c \<noteq> []\<close> show ?thesis
      by (cases "lru_map c") auto
  next
    case f: False
    then have "m = lru_map c" by (auto simp: m_def)
    with f oks show ?thesis by (auto simp: length_om_insert)
  qed
  have sub: "map_of (lru_map c) k = Some x" if "map_of m k = Some x" for k x
    using that by (auto simp: m_def split: if_splits option.splits)
  have "map_of b k = None \<and> layers rss k = Some (Some x)"
    if "map_of (om_insert key (v, lru_clock c + 1) m) k = Some (x, t)" for k x t
  proof (cases "k = key")
    case True
    with that v show ?thesis by simp
  next
    case False
    with that sub [of k "(x, t)"] ok show ?thesis unfolding cache_ok_def by auto
  qed
  with len m_ok show ?thesis
    unfolding cache_ok_def new by (simp add: om_ok_insert)
qed

lemma hs_get_contents:
  assumes ok: "hs_ok s" and get: "hs_get key s = (r, s')"
  shows "r = Inr (hs_contents s key)" "hs_ok s'" "hs_contents s' = hs_contents s"
proof -
  obtain hs d where s: "s = (hs, d)" by (cases s)
  obtain rss where rep: "hs_rep (hs, d) rss" using ok s by (auto simp: hs_ok_def)
  note D = hs_repD [OF rep]
  have con: "hs_contents s key = flatten (layers (rss @ [hs_buffer hs]) key)"
    using hs_contents_rep [OF rep] s by simp
  have find: "hs_find d (rev (hs_segments hs)) key = Inr (map_option encode_value (layers rss key))"
    using D(1) by (rule hs_find_backed)
  obtain hit c where lg: "lru_get key (hs_cache hs) = (hit, c)" by (cases "lru_get key (hs_cache hs)")
  note c = cache_ok_get [OF D(4) lg]
  have step: "r = Inr (hs_contents s key) \<and> (\<exists>c'. s' = (hs\<lparr>hs_cache := c'\<rparr>, d) \<and> cache_ok (hs_buffer hs) rss c')"
  proof (cases "map_of (hs_buffer hs) key")
    case (Some slot)
    then have "s' = (hs\<lparr>hs_cache := hs_cache hs\<rparr>, d)" "r = Inr slot"
      using get s by (simp_all add: hs_get_def)
    with Some D(4) con show ?thesis
      by (intro conjI exI [of _ "hs_cache hs"]) simp_all
  next
    case None
    show ?thesis
    proof (cases hit)
      case (Some v)
      then show ?thesis using None c(1) c(2) [OF Some] get s lg con
        by (auto simp: hs_get_def map_add_def)
    next
      case nohit: None
      show ?thesis
      proof (cases "flatten (layers rss key)")
        case nov: None
        then show ?thesis using None nohit c(1) get s lg con find
          by (cases "layers rss key") (auto simp: hs_get_def map_add_def Let_def)
      next
        case (Some v)
        then have l: "layers rss key = Some (Some v)" by (auto simp: flatten_def split: option.splits)
        then show ?thesis
          using None nohit c(1) get s lg con find cache_ok_insert [OF c(1) None l]
          by (auto simp: hs_get_def map_add_def Let_def)
      qed
    qed
  qed
  then obtain c' where s': "s' = (hs\<lparr>hs_cache := c'\<rparr>, d)" "cache_ok (hs_buffer hs) rss c'" by blast
  have "hs_rep s' rss"
    using rep s'(2) unfolding s'(1) hs_rep_iff by (simp add: seg_paths_def)
  then show "hs_ok s'" by (auto simp: hs_ok_def)
  show "r = Inr (hs_contents s key)" using step by blast
  show "hs_contents s' = hs_contents s" by (simp add: s'(1) s hs_contents_def fun_eq_iff split: option.split sum.split)
qed

subsection \<open>Enumeration and prefix scans\<close>

lemma fold_merge_enc:
  "fold merge_step (enc_recs rs) m = om_extend m rs"
  by (induction rs arbitrary: m) (auto simp: enc_recs_def om_extend_def)

lemma map_of_extend_ok: "om_ok rs \<Longrightarrow> map_of (om_extend m rs) = map_of m ++ map_of rs"
proof -
  assume "om_ok rs"
  then have "map_of (rev rs) = map_of rs"
    by (intro map_of_inject_set [THEN iffD2]) (simp_all add: om_ok_distinct rev_map [symmetric])
  then show ?thesis by (simp only: map_of_om_extend)
qed

lemma fold_merge_layers:
  assumes "list_all om_ok rss" "om_ok m"
  shows "map_of (fold (fold merge_step) (map enc_recs rss) m) = map_of m ++ layers rss"
    and "om_ok (fold (fold merge_step) (map enc_recs rss) m)"
  using assms
  by (induction rss rule: rev_induct)
    (simp_all add: fold_merge_enc map_of_extend_ok om_ok_extend map_add_assoc)

lemma live_of_Nil [simp]: "live_of [] = []"
  by (simp add: live_of_def List.map_filter_def)

lemma live_of_Cons: "live_of ((k, v) # m) = (case v of None \<Rightarrow> [] | Some b \<Rightarrow> [(k, b)]) @ live_of m"
  by (auto simp: live_of_def List.map_filter_def split: option.splits)

lemma live_of_keys: "fst ` set (live_of m) \<subseteq> fst ` set m"
proof (induction m)
  case (Cons p m)
  obtain k v where "p = (k, v)" by (cases p)
  with Cons show ?case by (cases v) (simp_all add: live_of_Cons subset_insertI2)
qed simp

lemma live_of_map:
  assumes "om_ok m"
  shows "om_ok (live_of m)" "map_of (live_of m) k = flatten (map_of m k)"
proof -
  have "om_ok (live_of m) \<and> map_of (live_of m) k = flatten (map_of m k)"
    using assms
  proof (induction m)
    case Nil
    then show ?case by simp
  next
    case (Cons p m)
    obtain k' v where p: "p = (k', v)" by (cases p)
    have ok: "om_ok m" and lt: "\<forall>x \<in> fst ` set m. k' < x"
      using Cons.prems p by (simp_all add: om_ok_Cons)
    from lt have none: "map_of m k' = None" by (force simp: map_of_eq_None_iff)
    from lt live_of_keys [of m] have lt': "\<forall>x \<in> fst ` set (live_of m). k' < x" by blast
    show ?case
      using Cons.IH [OF ok] p lt' none
      by (cases v) (simp_all add: live_of_Cons om_ok_Cons)
  qed
  then show "om_ok (live_of m)" "map_of (live_of m) k = flatten (map_of m k)" by simp_all
qed

lemma records_backed:
  assumes "list_all2 (\<lambda>sg rs. seg_backed d sg (enc_recs rs)) segs rss"
  shows "mapr (segment_records d) segs = Inr (map enc_recs rss)"
  using assms
  by (induction segs rss rule: list_all2_induct) (simp_all add: segment_records_backed)

definition with_prefix :: "string \<Rightarrow> (string \<times> 'v) list \<Rightarrow> (string \<times> 'v) list" where
  "with_prefix prefix m = filter (\<lambda>(k, _). starts_with k prefix) m"

lemma map_of_with_prefix:
  "map_of (with_prefix prefix m) k = (if starts_with k prefix then map_of m k else None)"
  by (induction m) (auto simp: with_prefix_def)

lemma om_ok_with_prefix: "om_ok m \<Longrightarrow> om_ok (with_prefix prefix m)"
  by (simp add: with_prefix_def om_ok_filter)

lemma layers_with_prefix:
  "layers (map (with_prefix prefix) rss) k = (if starts_with k prefix then layers rss k else None)"
  by (induction rss rule: rev_induct) (auto simp: map_of_with_prefix map_add_def split: option.split)

lemma scan_backed:
  assumes "list_all2 (\<lambda>sg rs. seg_backed d sg (enc_recs rs)) segs rss"
  shows "mapr (\<lambda>sg. segment_scan_prefix d sg prefix) segs
    = Inr (map enc_recs (map (with_prefix prefix) rss))"
proof -
  have "filter (\<lambda>r. starts_with (fst r) prefix) (enc_recs rs) = enc_recs (with_prefix prefix rs)" for rs
    by (induction rs) (auto simp: enc_recs_def with_prefix_def)
  note enc = this
  show ?thesis
    using assms
    by (induction segs rss rule: list_all2_induct) (simp_all add: segment_scan_prefix_backed enc)
qed

lemma buffer_range_eq: "om_ok b \<Longrightarrow> buffer_range prefix b = with_prefix prefix b"
proof (induction b)
  case Nil
  then show ?case by (simp add: buffer_range_def with_prefix_def)
next
  case (Cons p b)
  obtain k v where p: "p = (k, v)" by (cases p)
  have ok: "om_ok b" "\<And>x. x \<in> fst ` set b \<Longrightarrow> k < x" using Cons.prems p by (auto simp: om_ok_Cons)
  have IH: "takeWhile (\<lambda>(k, _). starts_with k prefix) (dropWhile (\<lambda>(k, _). k < prefix) b)
      = filter (\<lambda>(k, _). starts_with k prefix) b"
    using Cons.IH [OF ok(1)] by (simp add: buffer_range_def with_prefix_def)
  show ?case
  proof (cases "k < prefix")
    case True
    then show ?thesis using IH before_prefix [OF True] by (simp add: p buffer_range_def with_prefix_def)
  next
    case False
    have nd: "dropWhile (\<lambda>(k, _). k < prefix) b = b"
      using ok(2) False by (cases b) force+
    show ?thesis
    proof (cases "starts_with k prefix")
      case True
      then show ?thesis using IH nd False by (simp add: p buffer_range_def with_prefix_def)
    next
      case n: False
      have "filter (\<lambda>(k, _). starts_with k prefix) b = []"
        using ok(2) sorted_past_prefix [OF False n] by (force simp: filter_empty_conv)
      then show ?thesis using n False by (simp add: p buffer_range_def with_prefix_def)
    qed
  qed
qed

lemma rss_om_ok:
  assumes "list_all2 (\<lambda>sg rs. seg_backed d sg (enc_recs rs)) segs rss"
  shows "list_all om_ok rss"
  using assms
  by (induction segs rss rule: list_all2_induct) (auto simp: seg_backed_def recs_ok_def)

lemma hs_live_entries_eq:
  assumes "hs_ok s"
  shows "\<exists>es. hs_live_entries s = Inr es \<and> om_ok es \<and> map_of es = hs_contents s"
proof -
  obtain hs d where s: "s = (hs, d)" by (cases s)
  obtain rss where rep: "hs_rep (hs, d) rss" using assms s by (auto simp: hs_ok_def)
  note D = hs_repD [OF rep]
  have ok: "list_all om_ok rss" "om_ok (hs_buffer hs)"
    using rss_om_ok [OF D(1)] slots_ok_om_ok [OF D(2)] by simp_all
  define m where "m = om_extend (fold (fold merge_step) (map enc_recs rss) []) (hs_buffer hs)"
  have m: "om_ok m" "map_of m = layers (rss @ [hs_buffer hs])"
    using fold_merge_layers [OF ok(1), of "[]"] ok(2)
    by (simp_all add: m_def om_ok_extend map_of_extend_ok)
  have "hs_live_entries s = Inr (live_of m)"
    by (simp add: s hs_live_entries_def records_backed [OF D(1)] m_def)
  moreover have "map_of (live_of m) = hs_contents s"
    by (simp only: fun_eq_iff s hs_contents_rep [OF rep] live_of_map(2) [OF m(1)] m(2) fst_conv simp_thms)
  ultimately show ?thesis using live_of_map(1) [OF m(1)] by blast
qed

lemma hs_scan_prefix_eq:
  assumes "hs_ok s"
  shows "\<exists>es. hs_scan_prefix prefix s = Inr es \<and> om_ok es
    \<and> map_of es = (\<lambda>k. if starts_with k prefix then hs_contents s k else None)"
proof -
  obtain hs d where s: "s = (hs, d)" by (cases s)
  obtain rss where rep: "hs_rep (hs, d) rss" using assms s by (auto simp: hs_ok_def)
  note D = hs_repD [OF rep]
  let ?w = "with_prefix prefix"
  have ok: "list_all om_ok (map ?w rss)" "om_ok (hs_buffer hs)"
    using rss_om_ok [OF D(1)] slots_ok_om_ok [OF D(2)]
    by (auto simp: list_all_iff om_ok_with_prefix)
  define m where "m = om_extend (fold (fold merge_step) (map enc_recs (map ?w rss)) []) (?w (hs_buffer hs))"
  have m: "om_ok m" "map_of m = layers (map ?w (rss @ [hs_buffer hs]))"
    using fold_merge_layers [OF ok(1), of "[]"] ok(2)
    by (simp_all add: m_def om_ok_extend map_of_extend_ok om_ok_with_prefix)
  have "hs_scan_prefix prefix s = Inr (live_of m)"
    by (simp only: s hs_scan_prefix_def Let_def case_prod_conv scan_backed [OF D(1)] bindr_simps
        buffer_range_eq [OF ok(2)] m_def)
  moreover have "map_of (live_of m) k = (if starts_with k prefix then hs_contents s k else None)" for k
    by (simp only: s hs_contents_rep [OF rep] live_of_map(2) [OF m(1)] m(2) fst_conv
        layers_with_prefix flatten_simps split: if_split) simp
  ultimately show ?thesis using live_of_map(1) [OF m(1)] by (intro exI conjI) (auto simp only: fun_eq_iff)
qed

subsection \<open>Reopening\<close>

definition hs_tidy :: "store \<Rightarrow> bool" where
  \<comment> \<open>the directory holds no segment file the handle does not know\<close>
  "hs_tidy s \<longleftrightarrow> list_all (\<lambda>(p, _). fst p = hs_dir (fst s) \<and> seg_seq (snd p) \<noteq> None
     \<longrightarrow> p \<in> set (map sg_path (hs_segments (fst s)))) (d_files (snd s))
   \<and> hs_next (fst s) \<le> 2 ^ 64"

lemma hs_tidyD:
  "hs_tidy (hs, d) \<Longrightarrow> map_of (d_files d) p = Some b \<Longrightarrow> fst p = hs_dir hs \<Longrightarrow>
     seg_seq (snd p) = Some n \<Longrightarrow> p \<in> set (map sg_path (hs_segments hs))"
  by (auto simp: hs_tidy_def list_all_iff dest!: map_of_SomeD)

lemma hs_tidyI:
  assumes "om_ok (d_files d)" "hs_next hs \<le> 2 ^ 64"
    and "\<And>p b n. map_of (d_files d) p = Some b \<Longrightarrow> fst p = hs_dir hs \<Longrightarrow> seg_seq (snd p) = Some n \<Longrightarrow>
       p \<in> set (map sg_path (hs_segments hs))"
  shows "hs_tidy (hs, d)"
  using assms om_get_iff [OF assms(1)] unfolding hs_tidy_def list_all_iff by fastforce

lemma hs_found_set:
  "(n, p) \<in> set (hs_found d dir) \<longleftrightarrow> p \<in> fst ` set (d_files d) \<and> fst p = dir \<and> seg_seq (snd p) = Some n"
proof -
  have "(n, p) \<in> set (List.map_filter (\<lambda>(p, _). if fst p = dir then map_option (\<lambda>n. (n, p)) (seg_seq (snd p)) else None) fs)
      \<longleftrightarrow> p \<in> fst ` set fs \<and> fst p = dir \<and> seg_seq (snd p) = Some n" for fs :: "(path, bytes) omap"
  proof (induction fs)
    case (Cons f fs)
    obtain q b where "f = (q, b)" by (cases f)
    with Cons show ?case by (auto simp: List.map_filter_simps split: option.splits)
  qed (simp add: List.map_filter_simps)
  then show ?thesis by (simp add: hs_found_def)
qed

lemma hs_found_distinct:
  assumes "om_ok (d_files d)"
  shows "distinct (map snd (hs_found d dir))"
proof -
  let ?f = "\<lambda>(p, _). if fst p = dir then map_option (\<lambda>n. (n, p)) (seg_seq (snd p)) else None"
  have sub: "set (map snd (List.map_filter ?f fs)) \<subseteq> fst ` set fs" for fs :: "(path, bytes) omap"
    by (induction fs) (auto simp: List.map_filter_simps split: option.splits if_splits)
  have "distinct (map fst fs) \<Longrightarrow> distinct (map snd (List.map_filter ?f fs))" for fs :: "(path, bytes) omap"
  proof (induction fs)
    case (Cons g fs)
    obtain q b where g: "g = (q, b)" by (cases g)
    have "q \<notin> fst ` set fs" using Cons.prems g by simp
    then have q: "q \<notin> set (map snd (List.map_filter ?f fs))" using sub [of fs] by blast
    have IH: "distinct (map snd (List.map_filter ?f fs))" using Cons by simp
    show ?case
    proof (cases "fst q = dir \<and> seg_seq (snd q) \<noteq> None")
      case True
      then obtain n where "?f g = Some (n, q)" using g by auto
      then show ?thesis using q IH by (simp add: List.map_filter_simps)
    next
      case False
      then have "?f g = None" using g by (auto split: if_splits)
      then show ?thesis using IH by (simp add: List.map_filter_simps)
    qed
  qed (simp add: List.map_filter_simps)
  then show ?thesis using om_ok_distinct [OF assms] by (simp add: hs_found_def)
qed

lemma hs_found_sorted:
  assumes rep: "hs_rep (hs, d) rss" and tidy: "hs_tidy (hs, d)"
    and ns: "map sg_path (hs_segments hs) = map (\<lambda>n. (hs_dir hs, seg_name n)) ns" "sorted_wrt (<) ns"
      "\<forall>n \<in> set ns. n < hs_next hs"
  shows "sort_key fst (hs_found d (hs_dir hs)) = map (\<lambda>n. (n, (hs_dir hs, seg_name n))) ns"
proof (rule map_sorted_distinct_set_unique [where f = fst])
  note D = hs_repD [OF rep]
  let ?R = "map (\<lambda>n. (n, (hs_dir hs, seg_name n))) ns" and ?F = "hs_found d (hs_dir hs)"
  have seq: "seg_seq (seg_name n) = Some n" if "n \<in> set ns" for n
  proof (rule seg_seq_name)
    have "n < hs_next hs" "hs_next hs \<le> 2 ^ 64" using that ns(3) tidy by (auto simp: hs_tidy_def)
    then show "n < 2 ^ 64" by (rule less_le_trans)
  qed
  have exists: "(hs_dir hs, seg_name n) \<in> fst ` set (d_files d)" if "n \<in> set ns" for n
  proof -
    have "(hs_dir hs, seg_name n) \<in> set (map sg_path (hs_segments hs))" using that ns(1) by simp
    then obtain sg where sg: "sg \<in> set (hs_segments hs)" "sg_path sg = (hs_dir hs, seg_name n)" by auto
    then obtain rs where "seg_backed d sg (enc_recs rs)"
      using D(1) by (auto simp: list_all2_conv_all_nth in_set_conv_nth)
    then have "map_of (d_files d) (sg_path sg) \<noteq> None"
      by (auto simp: seg_backed_def disk_read_def split: option.splits)
    then show ?thesis using sg(2) by (simp add: map_of_eq_None_iff)
  qed
  have mem: "(n, q) \<in> set ?F \<longleftrightarrow> (n, q) \<in> set ?R" for n q
  proof
    assume F: "(n, q) \<in> set ?F"
    then have q: "q \<in> fst ` set (d_files d)" "fst q = hs_dir hs" "seg_seq (snd q) = Some n"
      by (simp_all add: hs_found_set)
    then have "map_of (d_files d) q \<noteq> None" by (simp add: map_of_eq_None_iff)
    then obtain b where "map_of (d_files d) q = Some b" by blast
    from hs_tidyD [OF tidy this q(2,3)] obtain m where m: "m \<in> set ns" "q = (hs_dir hs, seg_name m)"
      using ns(1) by auto
    with q(3) seq [OF m(1)] show "(n, q) \<in> set ?R" by auto
  next
    assume "(n, q) \<in> set ?R"
    then have "n \<in> set ns" "q = (hs_dir hs, seg_name n)" by auto
    then show "(n, q) \<in> set ?F" using seq exists by (simp add: hs_found_set)
  qed
  then show set_eq: "set (sort_key fst ?F) = set ?R" by auto
  show "sorted (map fst (sort_key fst ?F))" by simp
  show "sorted (map fst ?R)" "distinct (map fst ?R)"
    using ns(2) sorted_wrt_less_distinct [of ns]
    by (simp_all add: comp_def strict_sorted_imp_sorted)
  show "distinct (map fst (sort_key fst ?F))"
  proof -
    have "distinct ?F" using hs_found_distinct [OF D(3)] by (simp add: distinct_map)
    moreover have "inj_on fst (set ?F)" using set_eq by (simp add: inj_on_def)
    ultimately show ?thesis by (simp add: distinct_map)
  qed
  show "inj_on fst (set (sort_key fst ?F) \<union> set ?R)"
    unfolding set_eq by (simp add: inj_on_def)
qed

lemma segment_open_backed: "seg_backed d sg recs \<Longrightarrow> segment_open d (sg_path sg) = Inr sg"
  using segment_open_written(1) [of recs d "sg_path sg"] by (cases sg) (simp add: seg_backed_def)

lemma open_all_backed:
  assumes "list_all2 (\<lambda>sg rs. seg_backed d sg (enc_recs rs)) segs rss"
  shows "mapr (segment_open d) (map sg_path segs) = Inr segs"
  using assms
  by (induction segs rss rule: list_all2_induct) (simp_all add: segment_open_backed)

lemma hs_reopen:
  assumes rep: "hs_rep (hs, d) rss" and tidy: "hs_tidy (hs, d)"
  obtains hs' where "hs_open (hs_dir hs) limit cap d = Inr hs'" "hs_rep (hs', d) rss" "hs_tidy (hs', d)"
    "hs_buffer hs' = []"
proof -
  note D = hs_repD [OF rep]
  obtain ns where ns: "map sg_path (hs_segments hs) = map (\<lambda>n. (hs_dir hs, seg_name n)) ns"
    "sorted_wrt (<) ns" "\<forall>n \<in> set ns. n < hs_next hs"
    using D(5) by blast
  let ?next = "if ns = [] then 0 else last ns + 1"
  define hs' where "hs' = \<lparr>hs_dir = hs_dir hs, hs_buffer = [], hs_limit = max limit 1,
    hs_segments = hs_segments hs, hs_next = ?next, hs_cache = lru_new cap\<rparr>"
  have "mapr (\<lambda>(_, p). segment_open d p) (map (\<lambda>n. (n, (hs_dir hs, seg_name n))) ns)
      = mapr (segment_open d) (map sg_path (hs_segments hs))"
    unfolding ns(1) by (induction ns) simp_all
  also have "\<dots> = Inr (hs_segments hs)"
    using D(1) by (rule open_all_backed)
  finally have open_ok: "hs_open (hs_dir hs) limit cap d = Inr hs'"
    by (simp add: hs_open_def hs_found_sorted [OF rep tidy ns] hs'_def last_map Let_def)
  have below: "n \<le> last ns" if "n \<in> set ns" for n
    using that ns(2) by (induction ns) (auto simp: less_imp_le split: if_splits)
  have next_le: "?next \<le> hs_next hs" using ns(3) last_in_set [of ns] by (cases ns) (auto simp: Suc_le_eq)
  have "seg_paths hs'"
    unfolding seg_paths_def hs'_def using ns(1,2) below by (intro exI [of _ ns]) (auto simp: less_Suc_eq_le)
  then have "hs_rep (hs', d) rss"
    using D(1,3) by (simp add: hs_rep_iff hs'_def cache_ok_def lru_new_def)
  moreover have "hs_tidy (hs', d)"
    using tidy next_le by (auto simp: hs_tidy_def hs'_def)
  ultimately show thesis
    by (rule that [OF open_ok]) (simp add: hs'_def)
qed

subsection \<open>Compaction\<close>

lemma fold_live_enc:
  assumes "om_ok rs"
  shows "map_of (fold live_step (enc_recs rs) m) k
    = (case map_of rs k of Some slot \<Rightarrow> slot | None \<Rightarrow> map_of m k)"
  using assms
proof (induction rs arbitrary: m)
  case Nil
  then show ?case by simp
next
  case (Cons p rs)
  obtain k' slot where p: "p = (k', slot)" by (cases p)
  have ok: "om_ok rs" and lt: "\<forall>x \<in> fst ` set rs. k' < x" using Cons.prems p by (simp_all add: om_ok_Cons)
  from lt have none: "map_of rs k' = None" by (force simp: map_of_eq_None_iff)
  show ?case
    using Cons.IH [OF ok] none by (cases slot) (simp_all add: p enc_recs_def split: option.split)
qed

lemma fold_live_om_ok: "om_ok m \<Longrightarrow> om_ok (fold live_step rs m)"
proof (induction rs arbitrary: m)
  case (Cons r rs)
  have "om_ok (live_step r m)"
    using Cons.prems by (cases r) (auto intro: om_ok_insert om_ok_remove split: option.split)
  with Cons.IH show ?case by simp
qed simp

definition live_map :: "slots list \<Rightarrow> (string, bytes) omap" where
  "live_map rss = fold (fold live_step) (map enc_recs rss) []"

lemma live_map_snoc: "live_map (rss @ [rs]) = fold live_step (enc_recs rs) (live_map rss)"
  by (simp add: live_map_def)

lemma live_map_ok: "om_ok (live_map rss)"
  by (induction rss rule: rev_induct) (simp_all add: live_map_snoc fold_live_om_ok, simp add: live_map_def)

lemma map_of_live_map:
  "list_all om_ok rss \<Longrightarrow> map_of (live_map rss) k = flatten (layers rss k)"
proof (induction rss rule: rev_induct)
  case Nil
  then show ?case by (simp add: live_map_def)
next
  case (snoc rs rss)
  then show ?case
    by (simp add: live_map_snoc fold_live_enc map_add_def split: option.split)
qed

definition new_layer :: "(string, bytes) omap \<Rightarrow> slots" where
  "new_layer live = map (\<lambda>(k, v). (k, Some v)) live"

lemma map_of_new_layer [simp]: "map_of (new_layer live) k = map_option Some (map_of live k)"
  by (induction live) (auto simp: new_layer_def)

lemma enc_new_layer: "enc_recs (new_layer live) = map (\<lambda>(k, v). (k, encode_value (Some v))) live"
  by (simp add: enc_recs_def new_layer_def comp_def case_prod_beta)

text \<open>Dropping any number of oldest layers under the merged one loses nothing, and neither
  does dropping them when nothing is live.\<close>

lemma compact_layers:
  assumes "list_all om_ok rss"
  shows "flatten (layers (drop j rss @ [new_layer (live_map rss)]) k) = flatten (layers rss k)"
    and "live_map rss = [] \<Longrightarrow> flatten (layers (drop j rss) k) = flatten (layers rss k)"
proof -
  have old: "layers rss k = Some x" if "layers (drop j rss) k = Some x" for x
    using that by (rule layers_drop)
  show "flatten (layers (drop j rss @ [new_layer (live_map rss)]) k) = flatten (layers rss k)"
    using map_of_live_map [OF assms, of k] old
    by (cases "layers (drop j rss) k"; cases "map_of (live_map rss) k") (auto simp: map_add_def split: option.split)
  show "flatten (layers (drop j rss) k) = flatten (layers rss k)" if "live_map rss = []"
    using map_of_live_map [OF assms, of k] old that
    by (cases "layers (drop j rss) k") simp_all
qed

lemma map_of_removed:
  "map_of (d_files (fold disk_remove ps d)) q =
     (if q \<in> set ps \<and> q \<notin> set (d_stuck d) then None else map_of (d_files d) q)"
  "d_stuck (fold disk_remove ps d) = d_stuck d"
  by (induction ps arbitrary: d) (auto simp: map_of_disk_remove)

lemma om_ok_removed: "om_ok (d_files d) \<Longrightarrow> om_ok (d_files (fold disk_remove ps d))"
proof (induction ps arbitrary: d)
  case (Cons p ps)
  have "om_ok (d_files (disk_remove p d))"
    using Cons.prems by (auto simp: disk_remove_def intro: om_ok_remove)
  with Cons.IH show ?case by simp
qed simp

definition keep_oldest_removed :: "husk_store \<Rightarrow> disk \<Rightarrow> nat \<Rightarrow> bool" where
  \<comment> \<open>of the segment files exactly those of the first \<open>j\<close> segments can be removed\<close>
  "keep_oldest_removed hs d j \<longleftrightarrow>
     (\<forall>i < length (hs_segments hs). sg_path (hs_segments hs ! i) \<in> set (d_stuck d) \<longleftrightarrow> j \<le> i)"

lemma seg_paths_drop:
  assumes "seg_paths hs"
  shows "seg_paths (hs\<lparr>hs_segments := drop j (hs_segments hs), hs_cache := c\<rparr>)"
proof -
  obtain ns where "map sg_path (hs_segments hs) = map (\<lambda>n. (hs_dir hs, seg_name n)) ns"
    "sorted_wrt (<) ns" "\<forall>n \<in> set ns. n < hs_next hs"
    using assms by (auto simp: seg_paths_def)
  then show ?thesis
    unfolding seg_paths_def
    by (intro exI [of _ "drop j ns"]) (auto simp: drop_map [symmetric] sorted_wrt_drop dest: in_set_dropD)
qed

lemma seg_paths_distinct:
  assumes "seg_paths hs"
  shows "distinct (map sg_path (hs_segments hs))"
proof -
  obtain ns where ns: "map sg_path (hs_segments hs) = map (\<lambda>n. (hs_dir hs, seg_name n)) ns" "sorted_wrt (<) ns"
    using assms by (auto simp: seg_paths_def)
  have "distinct ns" using ns(2) by (rule sorted_wrt_less_distinct)
  moreover have "inj_on (\<lambda>n. (hs_dir hs, seg_name n)) (set ns)"
    by (auto simp: inj_on_def dest: seg_name_inj)
  ultimately show ?thesis by (simp only: ns(1) distinct_map simp_thms)
qed

lemma stuck_in_drop:
  assumes sp: "seg_paths hs" and k: "keep_oldest_removed hs d j" and sg: "sg \<in> set (hs_segments hs)"
  shows "sg_path sg \<in> set (d_stuck d) \<longleftrightarrow> sg \<in> set (drop j (hs_segments hs))"
proof -
  let ?ss = "hs_segments hs"
  obtain i where i: "i < length ?ss" "sg = ?ss ! i" using sg by (auto simp: in_set_conv_nth)
  have "sg \<in> set (drop j ?ss) \<longleftrightarrow> j \<le> i"
  proof
    assume "sg \<in> set (drop j ?ss)"
    then obtain m where m: "m < length ?ss - j" "sg = ?ss ! (j + m)" by (auto simp: in_set_conv_nth)
    then have "map sg_path ?ss ! i = map sg_path ?ss ! (j + m)" using i by simp
    with seg_paths_distinct [OF sp] i m have "i = j + m" by (auto simp: nth_eq_iff_index_eq simp del: nth_map)
    then show "j \<le> i" by simp
  next
    assume "j \<le> i"
    with i have "sg = drop j ?ss ! (i - j)" "i - j < length (drop j ?ss)" by simp_all
    then show "sg \<in> set (drop j ?ss)" by (metis nth_mem)
  qed
  with k i show ?thesis by (simp add: keep_oldest_removed_def)
qed

lemma rep_drop:
  assumes rep: "hs_rep (hs, d) rss" and b: "hs_buffer hs = []" and ok: "om_ok (d_files d')"
    and same: "\<And>sg. sg \<in> set (drop j (hs_segments hs)) \<Longrightarrow>
      map_of (d_files d') (sg_path sg) = map_of (d_files d) (sg_path sg)"
    and c: "cache_ok [] (drop j rss) c"
  shows "hs_rep (hs\<lparr>hs_segments := drop j (hs_segments hs), hs_cache := c\<rparr>, d') (drop j rss)"
proof -
  note D = hs_repD [OF rep]
  have sp: "seg_paths hs" using D(5) by (simp add: seg_paths_def)
  have "list_all2 (\<lambda>sg rs. seg_backed d sg (enc_recs rs)) (drop j (hs_segments hs)) (drop j rss)"
    using D(1) by (rule list_all2_dropI)
  then have "list_all2 (\<lambda>sg rs. seg_backed d' sg (enc_recs rs)) (drop j (hs_segments hs)) (drop j rss)"
    by (rule backed_frame) (rule same)
  then show ?thesis
    using b ok c seg_paths_drop [OF sp, where j = j and c = c] by (simp add: hs_rep_iff)
qed

lemma rep_snoc:
  assumes rep: "hs_rep (hs, d) rss" and b: "hs_buffer hs = []"
    and sg: "seg_backed d sg (enc_recs rs)" "sg_path sg = new_path hs"
    and c: "cache_ok [] (rss @ [rs]) c"
  shows "hs_rep (hs\<lparr>hs_segments := hs_segments hs @ [sg], hs_next := hs_next hs + 1, hs_cache := c\<rparr>, d) (rss @ [rs])"
proof -
  note D = hs_repD [OF rep]
  have "seg_paths hs" using D(5) by (simp add: seg_paths_def)
  from seg_paths_snoc [OF this sg(2), of "[]"] D sg(1) b c show ?thesis
    by (simp add: hs_rep_iff list_all2_appendI seg_paths_def)
qed

lemma cache_ok_new [simp]: "cache_ok b rss (lru_new n)"
  by (simp add: cache_ok_def lru_new_def)

lemma cache_ok_compact:
  assumes "cache_ok [] rss c" "list_all om_ok rss"
  shows "cache_ok [] [new_layer (live_map rss)] c"
proof -
  have "layers [new_layer (live_map rss)] k = Some (Some v)" if "map_of (lru_map c) k = Some (v, ts)" for k v ts
  proof -
    have "layers rss k = Some (Some v)" using assms(1) that unfolding cache_ok_def by blast
    then show ?thesis using map_of_live_map [OF assms(2), of k] by simp
  qed
  with assms(1) show ?thesis unfolding cache_ok_def by simp
qed

lemma rss_of_rep: "hs_rep (hs, d) rss \<Longrightarrow> list_all om_ok rss"
  using rss_om_ok hs_repD(1) by blast

text \<open>The states a compaction can end in. The handle describes the disk, and so does the
  handle extended by the old segments whose files are still there.\<close>

definition old_left :: "husk_store \<Rightarrow> nat \<Rightarrow> husk_store" where
  "old_left hs j = hs\<lparr>hs_segments := drop j (hs_segments hs), hs_cache := lru_new 0\<rparr>"

lemma compact_empty:
  assumes rep: "hs_rep (hs, d) rss" and b: "hs_buffer hs = []" and live: "live_map rss = []"
    and d': "d' = fold disk_remove (map sg_path (hs_segments hs)) d"
  shows "hs_rep (hs\<lparr>hs_segments := []\<rparr>, d') []"
    and "keep_oldest_removed hs d j \<Longrightarrow> hs_rep (old_left hs j, d') (drop j rss)"
proof -
  note D = hs_repD [OF rep]
  have ok: "om_ok (d_files d')" unfolding d' using D(3) by (rule om_ok_removed)
  have sp: "seg_paths hs" using D(5) by (simp add: seg_paths_def)
  have "lru_map (hs_cache hs) = []"
  proof (rule ccontr)
    assume "lru_map (hs_cache hs) \<noteq> []"
    then obtain k v ts m where "lru_map (hs_cache hs) = (k, (v, ts)) # m" by (cases "lru_map (hs_cache hs)") auto
    then have "layers rss k = Some (Some v)" using D(4) by (auto simp: cache_ok_def)
    then show False using map_of_live_map [OF rss_of_rep [OF rep], of k] live by simp
  qed
  then have c: "cache_ok [] (drop (length (hs_segments hs)) rss) (hs_cache hs)" by (simp add: cache_ok_def)
  have len: "length rss = length (hs_segments hs)" using D(1) by (simp add: list_all2_lengthD)
  have "hs_rep (hs\<lparr>hs_segments := drop (length (hs_segments hs)) (hs_segments hs), hs_cache := hs_cache hs\<rparr>, d')
      (drop (length (hs_segments hs)) rss)"
    by (rule rep_drop [OF rep b ok _ c]) simp
  then show "hs_rep (hs\<lparr>hs_segments := []\<rparr>, d') []" using len by simp
  show "hs_rep (old_left hs j, d') (drop j rss)" if k: "keep_oldest_removed hs d j"
    unfolding old_left_def
  proof (rule rep_drop [OF rep b ok _ cache_ok_new])
    fix sg assume "sg \<in> set (drop j (hs_segments hs))"
    with stuck_in_drop [OF sp k, of sg] show "map_of (d_files d') (sg_path sg) = map_of (d_files d) (sg_path sg)"
      by (simp add: d' map_of_removed in_set_dropD)
  qed
qed

lemma compact_merged:
  assumes rep: "hs_rep (hs, d) rss" and b: "hs_buffer hs = []"
    and w: "om_ok (d_files d1)" "d_stuck d1 = d_stuck d" "seg_backed d1 sg (enc_recs (new_layer (live_map rss)))"
      "sg_path sg = new_path hs"
      "\<And>q. q \<noteq> new_path hs \<Longrightarrow> q \<noteq> tmp_path (d_pid d) (new_path hs) \<Longrightarrow>
         map_of (d_files d1) q = map_of (d_files d) q"
    and d': "d' = fold disk_remove (map sg_path (hs_segments hs)) d1"
  shows "hs_rep (hs\<lparr>hs_segments := [sg], hs_next := hs_next hs + 1\<rparr>, d') [new_layer (live_map rss)]"
    and "keep_oldest_removed hs d j \<Longrightarrow>
      hs_rep (hs\<lparr>hs_segments := drop j (hs_segments hs) @ [sg], hs_next := hs_next hs + 1, hs_cache := lru_new 0\<rparr>, d')
        (drop j rss @ [new_layer (live_map rss)])"
proof -
  note D = hs_repD [OF rep]
  let ?n = "length (hs_segments hs)"
  have ok: "om_ok (d_files d')" unfolding d' using w(1) by (rule om_ok_removed)
  have sp: "seg_paths hs" using D(5) by (simp add: seg_paths_def)
  have "sg_path sg \<notin> set (map sg_path (hs_segments hs))"
    using w(4) by (auto dest: seg_path_not_new(1) [OF sp])
  then have sg: "seg_backed d' sg (enc_recs (new_layer (live_map rss)))"
    by (intro seg_backed_frame [OF w(3)]) (simp add: d' map_of_removed)
  have len: "length rss = ?n" using D(1) by (simp add: list_all2_lengthD)
  have old: "map_of (d_files d1) (sg_path s) = map_of (d_files d) (sg_path s)" if "s \<in> set (hs_segments hs)" for s
    by (rule w(5)) (rule seg_path_not_new [OF sp that])+
  have "hs_rep (hs\<lparr>hs_segments := drop ?n (hs_segments hs), hs_cache := lru_new 0\<rparr>, d') (drop ?n rss)"
    by (rule rep_drop [OF rep b ok _ cache_ok_new]) simp
  then have "hs_rep (hs\<lparr>hs_segments := [], hs_cache := lru_new 0\<rparr>, d') []" using len by simp
  from rep_snoc [OF this _ sg _, of "hs_cache hs"]
  show "hs_rep (hs\<lparr>hs_segments := [sg], hs_next := hs_next hs + 1\<rparr>, d') [new_layer (live_map rss)]"
    using b w(4) cache_ok_compact [OF D(4) [unfolded b] rss_of_rep [OF rep]] by (simp add: new_path_def)
  show "hs_rep (hs\<lparr>hs_segments := drop j (hs_segments hs) @ [sg], hs_next := hs_next hs + 1, hs_cache := lru_new 0\<rparr>, d')
        (drop j rss @ [new_layer (live_map rss)])" if k: "keep_oldest_removed hs d j"
  proof -
    have "hs_rep (old_left hs j, d') (drop j rss)"
      unfolding old_left_def
    proof (rule rep_drop [OF rep b ok _ cache_ok_new])
      fix s assume s: "s \<in> set (drop j (hs_segments hs))"
      then have s': "s \<in> set (hs_segments hs)" by (rule in_set_dropD)
      with stuck_in_drop [OF sp k s'] s old [OF s'] w(2)
      show "map_of (d_files d') (sg_path s) = map_of (d_files d) (sg_path s)"
        by (simp add: d' map_of_removed)
    qed
    from rep_snoc [OF this _ sg _, of "lru_new 0"] show ?thesis
      using b w(4) by (simp add: old_left_def new_path_def)
  qed
qed

definition compact_fits :: "store \<Rightarrow> bool" where
  \<comment> \<open>what is live fits one segment\<close>
  "compact_fits s = (case hs_live_entries s of
      Inl _ \<Rightarrow> False
    | Inr es \<Rightarrow> recs_ok (map (\<lambda>(k, v). (k, encode_value (Some v))) es))"

lemma compact_fits_live:
  assumes "hs_rep s rss" "hs_buffer (fst s) = []" "hs_contents s = hs_contents s0" "hs_ok s0" "compact_fits s0"
  shows "recs_ok (enc_recs (new_layer (live_map rss)))"
proof -
  obtain es where es: "hs_live_entries s0 = Inr es" "om_ok es" "map_of es = hs_contents s0"
    using hs_live_entries_eq [OF assms(4)] by blast
  have "map_of (live_map rss) k = map_of es k" for k
    using map_of_live_map [of rss k] hs_contents_rep [OF assms(1), of k] assms(2,3) es(3)
      rss_of_rep [of "fst s" "snd s" rss] assms(1) by (simp add: map_add_def)
  then have "live_map rss = es" by (intro om_ext live_map_ok es(2) ext)
  with assms(5) es(1) show ?thesis by (simp add: compact_fits_def enc_new_layer)
qed

lemma hs_flush_Inr:
  assumes ok: "hs_ok s" and fl: "hs_flush s = (Inr u, (hs, d))"
  shows "hs_buffer hs = []" "d_stuck d = d_stuck (snd s)" "hs_dir hs = hs_dir (fst s)"
    "hs_next (fst s) \<le> hs_next hs" "hs_next hs \<le> hs_next (fst s) + 1"
    "hs_tidy s \<Longrightarrow> hs_next (fst s) < 2 ^ 64 \<Longrightarrow> hs_tidy (hs, d)"
proof -
  obtain hs0 d0 where s: "s = (hs0, d0)" by (cases s)
  obtain rss where rep: "hs_rep (hs0, d0) rss" using ok s by (auto simp: hs_ok_def)
  have "hs_buffer hs = [] \<and> d_stuck d = d_stuck d0 \<and> hs_dir hs = hs_dir hs0
      \<and> hs_next hs0 \<le> hs_next hs \<and> hs_next hs \<le> hs_next hs0 + 1
      \<and> (hs_tidy (hs0, d0) \<longrightarrow> hs_next hs0 < 2 ^ 64 \<longrightarrow> hs_tidy (hs, d))"
    using rep fl [unfolded s]
  proof (cases rule: hs_flush_cases)
    case (kept d1)
    then show ?thesis by simp
  next
    case (flushed sg d1)
    have new: "hs = hs0\<lparr>hs_segments := hs_segments hs0 @ [sg], hs_next := hs_next hs0 + 1, hs_buffer := []\<rparr>"
      "d = d1" using flushed(2) by simp_all
    have "hs_tidy (hs, d)" if t: "hs_tidy (hs0, d0)" and n: "hs_next hs0 < 2 ^ 64"
    proof (rule hs_tidyI)
      show "om_ok (d_files d)" using flushed(2,3) by (simp add: hs_rep_def)
      show "hs_next hs \<le> 2 ^ 64" using n by (simp add: new(1))
      fix p b m assume p: "map_of (d_files d) p = Some b" "fst p = hs_dir hs" "seg_seq (snd p) = Some m"
      show "p \<in> set (map sg_path (hs_segments hs))"
      proof (cases "p = new_path hs0")
        case True
        then show ?thesis using flushed(5) by (simp add: new(1))
      next
        case False
        have "p \<noteq> tmp_path (d_pid d0) (new_path hs0)"
          using p(3) seg_seq_tmp by (auto simp: new_path_def)
        with flushed(6) [OF False] p(1) new(2) have "map_of (d_files d0) p = Some b" by simp
        from hs_tidyD [OF t this _ p(3)] p(2) show ?thesis by (auto simp: new(1))
      qed
    qed
    with flushed show ?thesis by (simp add: new)
  qed
  then show "hs_buffer hs = []" "d_stuck d = d_stuck (snd s)" "hs_dir hs = hs_dir (fst s)"
    "hs_next (fst s) \<le> hs_next hs" "hs_next hs \<le> hs_next (fst s) + 1"
    "hs_tidy s \<Longrightarrow> hs_next (fst s) < 2 ^ 64 \<Longrightarrow> hs_tidy (hs, d)" by (simp_all add: s)
qed

text \<open>The outcomes of a compaction over its flushed state \<open>(hs, d)\<close>.\<close>

lemma hs_compact_cases:
  assumes ok: "hs_ok s" and fits: "compact_fits s" and c: "hs_compact s = (r, s')"
  obtains (flush_failed) e where "hs_flush s = (Inl e, s')" "r = Inl e"
    | (single) hs d where "hs_flush s = (Inr (), (hs, d))" "r = Inr ()" "s' = (hs, d)"
        "length (hs_segments hs) < 2"
    | (all_dead) hs d rss where "hs_flush s = (Inr (), (hs, d))" "r = Inr ()" "hs_rep (hs, d) rss"
        "live_map rss = []" "s' = (hs\<lparr>hs_segments := []\<rparr>, fold disk_remove (map sg_path (hs_segments hs)) d)"
    | (write_failed) hs d rss e d1 where "hs_flush s = (Inr (), (hs, d))" "r = Inl e" "hs_rep (hs, d1) rss"
        "hs_rep (hs, d) rss" "s' = (hs, d1)"
    | (merged) hs d rss sg d1 where "hs_flush s = (Inr (), (hs, d))" "r = Inr ()" "hs_rep (hs, d) rss"
        "om_ok (d_files d1)" "d_stuck d1 = d_stuck d" "seg_backed d1 sg (enc_recs (new_layer (live_map rss)))"
        "sg_path sg = new_path hs"
        "\<And>q. q \<noteq> new_path hs \<Longrightarrow> q \<noteq> tmp_path (d_pid d) (new_path hs) \<Longrightarrow>
           map_of (d_files d1) q = map_of (d_files d) q"
        "s' = (hs\<lparr>hs_segments := [sg], hs_next := hs_next hs + 1\<rparr>,
           fold disk_remove (map sg_path (hs_segments hs)) d1)"
proof -
  obtain fr s1 where fl: "hs_flush s = (fr, s1)" by (cases "hs_flush s")
  note after = hs_flush_contents [OF ok fl]
  obtain hs d where s1: "s1 = (hs, d)" by (cases s1)
  show thesis
  proof (cases fr)
    case (Inl e)
    with c fl show thesis by (intro that(1)) (auto simp: hs_compact_def)
  next
    case (Inr u)
    have fl': "hs_flush s = (Inr (), (hs, d))" using fl Inr s1 by simp
    have b: "hs_buffer hs = []" using ok fl' by (rule hs_flush_Inr(1))
    obtain rss where rep: "hs_rep (hs, d) rss" using after s1 by (auto simp: hs_ok_def)
    note D = hs_repD [OF rep]
    have fit: "recs_ok (enc_recs (new_layer (live_map rss)))"
      using compact_fits_live [of "(hs, d)" rss s] rep b after ok fits s1 by simp
    show thesis
    proof (cases "length (hs_segments hs) < 2")
      case True
      with c fl' show thesis by (intro that(2)) (auto simp: hs_compact_def)
    next
      case False
      have step: "hs_compact s =
         (let live = live_map rss; old_paths = map sg_path (hs_segments hs) in
            if live = [] then (Inr (), hs\<lparr>hs_segments := []\<rparr>, fold disk_remove old_paths d)
            else (case write_segment (new_path hs) (enc_recs (new_layer live)) d of
                    (Inl e, d1) \<Rightarrow> (Inl e, hs, d1)
                  | (Inr _, d1) \<Rightarrow>
                      (case segment_open d1 (new_path hs) of
                         Inl e \<Rightarrow> (Inl e, hs, d1)
                       | Inr sg \<Rightarrow> (Inr (), hs\<lparr>hs_segments := [sg], hs_next := hs_next hs + 1\<rparr>,
                            fold disk_remove old_paths d1))))"
        using fl' False records_backed [OF D(1)]
        unfolding hs_compact_def live_map_def enc_new_layer new_path_def by (simp add: Let_def)
      show thesis
      proof (cases "live_map rss = []")
        case True
        with c step have "r = Inr ()" "s' = (hs\<lparr>hs_segments := []\<rparr>, fold disk_remove (map sg_path (hs_segments hs)) d)"
          by (simp_all add: Let_def)
        with fl' rep True show thesis by (intro that(3)) auto
      next
        case ne: False
        obtain w d1 where w: "write_segment (new_path hs) (enc_recs (new_layer (live_map rss))) d = (w, d1)"
          by (cases "write_segment (new_path hs) (enc_recs (new_layer (live_map rss))) d")
        from fit w D(3) show thesis
        proof (cases rule: write_segment_cases)
          case (ok sg)
          with c step ne w have res: "r = Inr ()"
            "s' = (hs\<lparr>hs_segments := [sg], hs_next := hs_next hs + 1\<rparr>,
              fold disk_remove (map sg_path (hs_segments hs)) d1)"
            by (simp_all add: Let_def)
          from fl' res(1) rep ok(5,6,3,4,7) res(2) show thesis by (rule that(5))
        next
          case (failed e)
          with c step ne w have res: "r = Inl e" "s' = (hs, d1)" by (simp_all add: Let_def)
          have "hs_rep (hs, d1) rss"
          proof -
            have sp: "seg_paths hs" using D(5) by (simp add: seg_paths_def)
            have "list_all2 (\<lambda>sg rs. seg_backed d1 sg (enc_recs rs)) (hs_segments hs) rss"
              by (rule backed_frame [OF D(1)]) (rule failed(4); rule seg_path_not_new [OF sp])
            with D(2,4) sp failed(2) show ?thesis by (simp only: hs_rep_iff simp_thms)
          qed
          from fl' res(1) this rep res(2) show thesis by (rule that(4))
        qed
      qed
    qed
  qed
qed

subsection \<open>What the operations promise\<close>

text \<open>
  C2. \<open>put\<close> is a map update whatever the disk does: after the call the store holds the new
  value for the key and what it held before for every other key, also when the flush it
  triggered failed and the call returned an error. The hypothesis is
  that the buffer still fits one segment.
\<close>

theorem hs_put_updates:
  assumes "hs_ok s" and "slots_ok (om_insert k (Some v) (hs_buffer (fst s)))"
    and "hs_put k v s = (r, s')"
  shows "hs_ok s' \<and> hs_contents s' = (hs_contents s)(k \<mapsto> v)"
  using hs_update [OF assms(1,2)] assms(3) by (simp add: hs_put_def)

text \<open>
  \<open>delete\<close> removes exactly its key from what the store holds, tombstone and failing flush
  included.
\<close>

theorem hs_delete_updates:
  assumes "hs_ok s" and "slots_ok (om_insert k None (hs_buffer (fst s)))"
    and "hs_delete k s = (r, s')"
  shows "hs_ok s' \<and> hs_contents s' = (hs_contents s)(k := None)"
  using hs_update [OF assms(1,2)] assms(3) by (simp add: hs_delete_def)

text \<open>
  \<open>get\<close> never fails on a well-formed store and returns what the store holds, through the
  buffer, the read cache or the segments; the cache it fills stays consistent and the
  contents do not change.
\<close>

theorem hs_get_reads:
  assumes "hs_ok s" and "hs_get k s = (r, s')"
  shows "r = Inr (hs_contents s k) \<and> hs_ok s' \<and> hs_contents s' = hs_contents s"
  using hs_get_contents [OF assms] by simp

text \<open>
  C3. Compaction keeps the contents, whichever of its writes and removals fail, and when it
  reports success the store is down to at most one segment with an empty buffer.
\<close>

theorem hs_compact_preserves:
  assumes "hs_ok s" and "compact_fits s" and "hs_compact s = (r, s')"
  shows "hs_ok s' \<and> hs_contents s' = hs_contents s
    \<and> (r = Inr () \<longrightarrow> length (hs_segments (fst s')) \<le> 1 \<and> hs_buffer (fst s') = [])"
  using assms
proof (cases rule: hs_compact_cases)
  case (flush_failed e)
  then show ?thesis using hs_flush_contents [OF assms(1)] by simp
next
  case (single hs d)
  then show ?thesis
    using hs_flush_contents [OF assms(1) single(1)] hs_flush_Inr(1) [OF assms(1) single(1)] by simp
next
  case (all_dead hs d rss)
  note fl = hs_flush_contents [OF assms(1) all_dead(1)]
  have b: "hs_buffer hs = []" using assms(1) all_dead(1) by (rule hs_flush_Inr(1))
  note rep' = compact_empty(1) [OF all_dead(3) b all_dead(4) refl, folded all_dead(5)]
  have "hs_contents s' = hs_contents (hs, d)"
    using hs_contents_rep [OF rep'] hs_contents_rep [OF all_dead(3)] b all_dead(4,5)
      map_of_live_map [OF rss_of_rep [OF all_dead(3)]] by (simp add: fun_eq_iff layers_append)
  with rep' fl b show ?thesis by (auto simp: hs_ok_def all_dead(5))
next
  case (write_failed hs d rss e d1)
  note fl = hs_flush_contents [OF assms(1) write_failed(1)]
  have "hs_contents s' = hs_contents (hs, d)"
    using hs_contents_rep [OF write_failed(3)] hs_contents_rep [OF write_failed(4)] write_failed(5)
    by (simp add: fun_eq_iff)
  with write_failed(2,3,5) fl show ?thesis by (auto simp: hs_ok_def)
next
  case (merged hs d rss sg d1)
  note fl = hs_flush_contents [OF assms(1) merged(1)]
  have b: "hs_buffer hs = []" using assms(1) merged(1) by (rule hs_flush_Inr(1))
  note rep' = compact_merged(1) [OF merged(3) b merged(4-8) refl, folded merged(9)]
  have "hs_contents s' = hs_contents (hs, d)"
    using hs_contents_rep [OF rep'] hs_contents_rep [OF merged(3)] b merged(9)
      compact_layers(1) [OF rss_of_rep [OF merged(3)], of "length rss"]
    by (simp add: fun_eq_iff layers_append)
  with rep' fl b show ?thesis by (auto simp: hs_ok_def merged(9))
qed

text \<open>
  The two scans agree with the contents: a full scan lists every live key with its value
  once, in key order, and a prefix scan lists exactly those whose key has the prefix.
\<close>

theorem hs_scans_exact:
  assumes "hs_ok s"
  shows "\<exists>es. hs_live_entries s = Inr es \<and> om_ok es \<and> map_of es = hs_contents s
    \<and> hs_scan_prefix prefix s = Inr (filter (\<lambda>(k, _). starts_with k prefix) es)"
proof -
  obtain es where es: "hs_live_entries s = Inr es" "om_ok es" "map_of es = hs_contents s"
    using hs_live_entries_eq [OF assms] by blast
  obtain ps where ps: "hs_scan_prefix prefix s = Inr ps" "om_ok ps"
    "map_of ps = (\<lambda>k. if starts_with k prefix then hs_contents s k else None)"
    using hs_scan_prefix_eq [OF assms] by blast
  have "ps = with_prefix prefix es"
    by (intro om_ext ps(2) om_ok_with_prefix es(2) ext) (simp only: ps(3) map_of_with_prefix es(3))
  then show ?thesis
    using es ps(1) by (intro exI [of _ es]) (simp only: with_prefix_def simp_thms)
qed


subsection \<open>The interface the clients use\<close>

definition hs_room :: "string \<Rightarrow> bytes option \<Rightarrow> store \<Rightarrow> bool" where
  "hs_room k slot s = slots_ok (om_insert k slot (hs_buffer (fst s)))"

interpretation husks: kv_store hs_ok hs_contents hs_room hs_put hs_delete hs_get hs_scan_prefix
proof unfold_locales
  fix s :: store and k v p
  assume ok: "hs_ok s"
  show "hs_ok (snd (hs_put k v s)) \<and> hs_contents (snd (hs_put k v s)) = (hs_contents s)(k \<mapsto> v)"
    if "hs_room k (Some v) s"
    using that ok hs_update [of s k "Some v"] unfolding hs_room_def hs_put_def by (metis prod.collapse)
  show "hs_ok (snd (hs_delete k s)) \<and> hs_contents (snd (hs_delete k s)) = (hs_contents s)(k := None)"
    if "hs_room k None s"
    using that ok hs_update [of s k None] unfolding hs_room_def hs_delete_def by (metis prod.collapse)
  show "fst (hs_get k s) = Inr (hs_contents s k) \<and> hs_ok (snd (hs_get k s)) \<and> hs_contents (snd (hs_get k s)) = hs_contents s"
    using hs_get_contents [OF ok prod.collapse [symmetric], of k] by simp
  show "\<exists>es. hs_scan_prefix p s = Inr es \<and> om_ok es
      \<and> map_of es = (\<lambda>k. if starts_with k p then hs_contents s k else None)"
    using ok by (rule hs_scan_prefix_eq)
qed

subsection \<open>Interrupted and incomplete compactions\<close>

definition removes_oldest_first :: "store \<Rightarrow> bool" where
  \<comment> \<open>the segment files that cannot be removed are the newest ones, which is what a crash
      during the removal loop leaves\<close>
  "removes_oldest_first s \<longleftrightarrow>
     (\<forall>n \<le> hs_next (fst s). \<forall>m < n.
        (hs_dir (fst s), seg_name m) \<in> set (d_stuck (snd s)) \<longrightarrow>
        (hs_dir (fst s), seg_name n) \<in> set (d_stuck (snd s)))"

lemma removes_oldest_firstD:
  assumes sp: "seg_paths hs" and next_le: "hs_next hs \<le> N + 1"
    and up: "\<And>m n. n \<le> N \<Longrightarrow> m < n \<Longrightarrow> (hs_dir hs, seg_name m) \<in> set (d_stuck d) \<Longrightarrow>
      (hs_dir hs, seg_name n) \<in> set (d_stuck d)"
  shows "\<exists>j. keep_oldest_removed hs d j"
proof -
  obtain ns where ns: "map sg_path (hs_segments hs) = map (\<lambda>n. (hs_dir hs, seg_name n)) ns"
    "sorted_wrt (<) ns" "\<forall>n \<in> set ns. n < hs_next hs"
    using sp by (auto simp: seg_paths_def)
  let ?free = "\<lambda>n. (hs_dir hs, seg_name n) \<notin> set (d_stuck d)"
  define j where "j = length (takeWhile ?free ns)"
  have len: "length ns = length (hs_segments hs)" using ns(1) by (metis length_map)
  have path: "sg_path (hs_segments hs ! i) = (hs_dir hs, seg_name (ns ! i))" if "i < length ns" for i
    using that len ns(1) by (metis nth_map)
  have "?free (ns ! i) \<longleftrightarrow> \<not> j \<le> i" if i: "i < length ns" for i
  proof (cases "i < j")
    case True
    then have "ns ! i \<in> set (takeWhile ?free ns)"
      using nth_mem [of i "takeWhile ?free ns"] by (simp add: j_def takeWhile_nth)
    then have "?free (ns ! i)" by (rule set_takeWhileD [THEN conjunct2])
    with True show ?thesis by simp
  next
    case False
    with i have j: "j < length ns" by simp
    have stuck: "\<not> ?free (ns ! j)" using nth_length_takeWhile [of ?free ns] j by (simp add: j_def)
    have "\<not> ?free (ns ! i)"
    proof (cases "i = j")
      case True
      with stuck show ?thesis by simp
    next
      case ne: False
      then have "ns ! j < ns ! i" using False i ns(2) by (simp add: sorted_wrt_iff_nth_less)
      moreover have "ns ! i < hs_next hs" using ns(3) i by simp
      ultimately show ?thesis using up [of "ns ! i" "ns ! j"] stuck next_le by simp
    qed
    with False show ?thesis by simp
  qed
  then show ?thesis using path len by (intro exI [of _ j]) (simp add: keep_oldest_removed_def)
qed

lemma flatten_layers_rep:
  "hs_rep (hs, d) rss \<Longrightarrow> hs_buffer hs = [] \<Longrightarrow> hs_contents (hs, d) = (\<lambda>k. flatten (layers rss k))"
  using hs_contents_rep [of "(hs, d)" rss] by (simp add: fun_eq_iff layers_append)

lemma reopen_from:
  assumes "hs_rep (hs, d) rss" "hs_tidy (hs, d)" "\<And>k. flatten (layers rss k) = c k"
  shows "\<exists>hs'. hs_open (hs_dir hs) limit cap d = Inr hs' \<and> hs_ok (hs', d) \<and> hs_contents (hs', d) = c"
proof -
  obtain hs' where hs': "hs_open (hs_dir hs) limit cap d = Inr hs'" "hs_rep (hs', d) rss" "hs_buffer hs' = []"
    using hs_reopen [OF assms(1,2)] by blast
  with flatten_layers_rep [OF hs'(2,3)] assms(3) show ?thesis by (auto simp: hs_ok_def)
qed

lemma tidy_after_removal:
  assumes t: "hs_tidy (hs, d)" and sp: "seg_paths hs" and k: "keep_oldest_removed hs d j"
    and d': "d' = fold disk_remove (map sg_path (hs_segments hs)) d1"
    and d1: "om_ok (d_files d1)" "d_stuck d1 = d_stuck d"
      "\<And>q. q \<noteq> new_path hs \<Longrightarrow> q \<noteq> tmp_path (d_pid d) (new_path hs) \<Longrightarrow>
         map_of (d_files d1) q = map_of (d_files d) q"
    and hs': "hs_dir hs' = hs_dir hs" "hs_next hs' \<le> 2 ^ 64"
      "set (drop j (hs_segments hs)) \<subseteq> set (hs_segments hs')"
      "map_of (d_files d1) (new_path hs) \<noteq> None \<Longrightarrow> new_path hs \<in> set (map sg_path (hs_segments hs'))"
  shows "hs_tidy (hs', d')"
proof (rule hs_tidyI)
  show "om_ok (d_files d')" unfolding d' using d1(1) by (rule om_ok_removed)
  show "hs_next hs' \<le> 2 ^ 64" by (rule hs'(2))
  fix p b m assume p: "map_of (d_files d') p = Some b" "fst p = hs_dir hs'" "seg_seq (snd p) = Some m"
  have p1: "map_of (d_files d1) p = Some b" and kept: "p \<in> set (map sg_path (hs_segments hs)) \<Longrightarrow> p \<in> set (d_stuck d)"
    using p(1) unfolding d' by (auto simp: map_of_removed d1(2) split: if_splits)
  show "p \<in> set (map sg_path (hs_segments hs'))"
  proof (cases "p = new_path hs")
    case True
    with p1 hs'(4) show ?thesis by simp
  next
    case False
    have "p \<noteq> tmp_path (d_pid d) (new_path hs)" using p(3) seg_seq_tmp by (auto simp: new_path_def)
    with d1(3) [OF False] p1 have "map_of (d_files d) p = Some b" by simp
    from hs_tidyD [OF t this _ p(3)] p(2) hs'(1) have in_old: "p \<in> set (map sg_path (hs_segments hs))" by simp
    then obtain sg where sg: "sg \<in> set (hs_segments hs)" "p = sg_path sg" by auto
    with kept [OF in_old] stuck_in_drop [OF sp k sg(1)] hs'(3) show ?thesis by auto
  qed
qed

text \<open>
  C4. Compaction is crash-safe: when it is interrupted anywhere in its removal loop (some
  prefix of the old files, oldest first, is gone), reopening the directory gives exactly the
  contents from before the compaction.
\<close>

theorem hs_compact_crash_safe:
  assumes ok: "hs_ok s" and tidy: "hs_tidy s" and fits: "compact_fits s"
    and order: "removes_oldest_first s" and room: "hs_next (fst s) + 2 \<le> 2 ^ 64"
    and c: "hs_compact s = (Inr (), (hs', d'))"
  shows "\<exists>hs''. hs_open (hs_dir (fst s)) limit cap d' = Inr hs'' \<and> hs_ok (hs'', d')
    \<and> hs_contents (hs'', d') = hs_contents s"
proof -
  have keep: "\<exists>j. keep_oldest_removed hs d j" "seg_paths hs" "hs_tidy (hs, d)" "hs_buffer hs = []"
    "hs_contents (hs, d) = hs_contents s" "hs_dir hs = hs_dir (fst s)" "hs_next hs + 1 \<le> 2 ^ 64"
    if "hs_flush s = (Inr (), (hs, d))" for hs d
  proof -
    note fl = hs_flush_Inr [OF ok that] and con = hs_flush_contents [OF ok that]
    show sp: "seg_paths hs" using con by (auto simp: hs_ok_def hs_rep_iff)
    have "hs_next hs \<le> hs_next (fst s) + 1" by (rule fl(5))
    from removes_oldest_firstD [OF sp this, of d] order fl(2,3)
    show "\<exists>j. keep_oldest_removed hs d j" by (simp add: removes_oldest_first_def)
    show "hs_tidy (hs, d)" using fl(6) tidy room by simp
    show "hs_next hs + 1 \<le> 2 ^ 64" using fl(5) room by simp
    show "hs_buffer hs = []" "hs_contents (hs, d) = hs_contents s" "hs_dir hs = hs_dir (fst s)"
      using fl con by simp_all
  qed
  from ok fits c show ?thesis
  proof (cases rule: hs_compact_cases)
    case (flush_failed e)
    then show ?thesis by simp
  next
    case (single hs d)
    note K = keep [OF single(1)]
    obtain rss where rep: "hs_rep (hs, d) rss"
      using hs_flush_contents [OF ok single(1)] by (auto simp: hs_ok_def)
    from reopen_from [OF rep K(3), of "hs_contents s"] flatten_layers_rep [OF rep K(4)] K(5,6) single(3)
    show ?thesis by simp
  next
    case (all_dead hs d rss)
    note K = keep [OF all_dead(1)]
    obtain j where j: "keep_oldest_removed hs d j" using K(1) by blast
    have d': "d' = fold disk_remove (map sg_path (hs_segments hs)) d" using all_dead(5) by simp
    note rep' = compact_empty(2) [OF all_dead(3) K(4) all_dead(4) d' j]
    note D = hs_repD [OF all_dead(3)]
    have "map_of (d_files d) (new_path hs) = None"
    proof (rule ccontr)
      assume "map_of (d_files d) (new_path hs) \<noteq> None"
      then obtain b where b: "map_of (d_files d) (new_path hs) = Some b" by blast
      have "seg_seq (snd (new_path hs)) = Some (hs_next hs)" using K(7) by (simp add: new_path_def)
      from hs_tidyD [OF K(3) b _ this] obtain sg where "sg \<in> set (hs_segments hs)" "sg_path sg = new_path hs"
        by (auto simp: new_path_def)
      with seg_path_not_new(1) [OF K(2)] show False by simp
    qed
    then have "hs_tidy (old_left hs j, d')"
      using K(7) by (intro tidy_after_removal [OF K(3,2) j d' D(3) refl refl]) (simp_all add: old_left_def)
    moreover have "flatten (layers (drop j rss) k) = hs_contents s k" for k
      using compact_layers(2) [OF rss_of_rep [OF all_dead(3)] all_dead(4), of j k] K(5)
        fun_cong [OF flatten_layers_rep [OF all_dead(3) K(4)], of k] by simp
    ultimately have "\<exists>hs''. hs_open (hs_dir (old_left hs j)) limit cap d' = Inr hs'' \<and> hs_ok (hs'', d')
        \<and> hs_contents (hs'', d') = hs_contents s"
      by (intro reopen_from [OF rep'])
    then show ?thesis using K(6) by (simp add: old_left_def)
  next
    case (write_failed hs d rss e d1)
    then show ?thesis by simp
  next
    case (merged hs d rss sg d1)
    note K = keep [OF merged(1)]
    obtain j where j: "keep_oldest_removed hs d j" using K(1) by blast
    have d': "d' = fold disk_remove (map sg_path (hs_segments hs)) d1" using merged(9) by simp
    let ?hs = "hs\<lparr>hs_segments := drop j (hs_segments hs) @ [sg], hs_next := hs_next hs + 1, hs_cache := lru_new 0\<rparr>"
    note rep' = compact_merged(2) [OF merged(3) K(4) merged(4-8) d' j]
    have "hs_tidy (?hs, d')"
      using K(7) merged(7) by (intro tidy_after_removal [OF K(3,2) j d' merged(4,5) merged(8)]) auto
    moreover have "flatten (layers (drop j rss @ [new_layer (live_map rss)]) k) = hs_contents s k" for k
      using compact_layers(1) [OF rss_of_rep [OF merged(3)], of j k] K(5)
        fun_cong [OF flatten_layers_rep [OF merged(3) K(4)], of k] by simp
    ultimately have "\<exists>hs''. hs_open (hs_dir ?hs) limit cap d' = Inr hs'' \<and> hs_ok (hs'', d')
        \<and> hs_contents (hs'', d') = hs_contents s"
      by (intro reopen_from [OF rep'])
    then show ?thesis using K(6) by simp
  qed
qed

text \<open>
  A removal that fails is ignored, and only the order of the removals protects deletes:
  when nothing is live, the oldest file cannot be removed and the others can, the compaction
  reports success and a restart brings back the deleted values of the oldest segment.
\<close>

theorem hs_compact_resurrects:
  assumes ok: "hs_ok (hs, d)" and tidy: "hs_tidy (hs, d)" and b: "hs_buffer hs = []"
    and dead: "hs_live_entries (hs, d) = Inr []"
    and segs: "hs_segments hs = sg # sgs" "sgs \<noteq> []"
    and stuck: "sg_path sg \<in> set (d_stuck d)" "\<And>x. x \<in> set sgs \<Longrightarrow> sg_path x \<notin> set (d_stuck d)"
    and old: "segment_get d sg k = Inr (Some (encode_value (Some v)))"
  shows "\<exists>hs' d' hs''. hs_compact (hs, d) = (Inr (), (hs', d')) \<and> hs_contents (hs', d') k = None
    \<and> hs_open (hs_dir hs) limit cap d' = Inr hs'' \<and> hs_contents (hs'', d') k = Some v"
proof -
  obtain rss where rep: "hs_rep (hs, d) rss" using ok by (auto simp: hs_ok_def)
  note D = hs_repD [OF rep]
  have sp: "seg_paths hs" using D(5) by (simp add: seg_paths_def)
  obtain rs qss where r: "rss = rs # qss" "seg_backed d sg (enc_recs rs)"
    using D(1) segs(1) by (auto simp: list_all2_Cons1)
  have fl: "hs_flush (hs, d) = (Inr (), (hs, d))" by (simp add: hs_flush_def b)
  have live: "live_map rss = []"
  proof -
    obtain es where es: "hs_live_entries (hs, d) = Inr es" "map_of es = hs_contents (hs, d)"
      using hs_live_entries_eq [OF ok] by blast
    then have "map_of (live_map rss) k = map_of [] k" for k
      using dead map_of_live_map [OF rss_of_rep [OF rep], of k]
        fun_cong [OF flatten_layers_rep [OF rep b], of k] by simp
    then show ?thesis by (intro om_ext live_map_ok ext) simp_all
  qed
  define d' where "d' = fold disk_remove (map sg_path (hs_segments hs)) d"
  have c: "hs_compact (hs, d) = (Inr (), (hs\<lparr>hs_segments := []\<rparr>, d'))"
    using fl segs live records_backed [OF D(1)]
    unfolding hs_compact_def live_map_def d'_def by (cases sgs) (simp_all add: Let_def)
  let ?hs = "hs\<lparr>hs_segments := [sg], hs_cache := lru_new 0\<rparr>"
  have ok': "om_ok (d_files d')" unfolding d'_def using D(3) by (rule om_ok_removed)
  have "seg_backed d' sg (enc_recs rs)"
    by (rule seg_backed_frame [OF r(2)]) (simp add: d'_def map_of_removed stuck(1))
  moreover have "seg_paths ?hs"
  proof -
    obtain n where "sg_path sg = (hs_dir hs, seg_name n)" "n < hs_next hs"
      using seg_pathsE [OF sp, of sg] segs(1) by auto
    then show ?thesis unfolding seg_paths_def by (intro exI [of _ "[n]"]) simp
  qed
  ultimately have rep': "hs_rep (?hs, d') [rs]" using ok' b by (simp add: hs_rep_iff)
  have "hs_tidy (?hs, d')"
  proof (rule hs_tidyI [OF ok'])
    show "hs_next ?hs \<le> 2 ^ 64" using tidy by (simp add: hs_tidy_def)
    fix p c m assume p: "map_of (d_files d') p = Some c" "fst p = hs_dir ?hs" "seg_seq (snd p) = Some m"
    then have "map_of (d_files d) p = Some c" "p \<in> set (map sg_path (hs_segments hs)) \<Longrightarrow> p \<in> set (d_stuck d)"
      by (auto simp: d'_def map_of_removed split: if_splits)
    with hs_tidyD [OF tidy this(1) _ p(3)] p(2) stuck(2) segs(1)
    show "p \<in> set (map sg_path (hs_segments ?hs))" by auto
  qed
  moreover have "map_of rs k = Some (Some v)"
    using old segment_get_backed [OF r(2), of k] by (auto dest: arg_cong [of _ _ decode_value])
  ultimately have "\<exists>hs''. hs_open (hs_dir ?hs) limit cap d' = Inr hs'' \<and> hs_ok (hs'', d')
      \<and> hs_contents (hs'', d') = (\<lambda>k. flatten (layers [rs] k))"
    by (intro reopen_from [OF rep']) simp_all
  then obtain hs'' where "hs_open (hs_dir hs) limit cap d' = Inr hs''" "hs_contents (hs'', d') k = Some v"
    using \<open>map_of rs k = Some (Some v)\<close> by auto
  moreover have "hs_contents (hs\<lparr>hs_segments := []\<rparr>, d') k = None"
    by (simp add: hs_contents_def b)
  ultimately show ?thesis using c by blast
qed

subsection \<open>Concrete instances\<close>

definition fresh_store :: store where
  "fresh_store =
     (\<lparr>hs_dir = ''h'', hs_buffer = [], hs_limit = 1, hs_segments = [], hs_next = 0, hs_cache = lru_new 4\<rparr>,
      \<lparr>d_files = [], d_pid = 1, d_faults = [], d_stuck = []\<rparr>)"

lemma fresh_store_ok: "hs_ok fresh_store" "hs_buffer (fst fresh_store) = []"
proof -
  have "hs_rep fresh_store []" by (simp add: fresh_store_def hs_rep_def)
  then show "hs_ok fresh_store" by (auto simp: hs_ok_def)
qed (simp add: fresh_store_def)

lemma slots_a: "slots_ok [(''a'', v)]" if "v = None \<or> v = Some [7]"
proof -
  have "str_valid ''a''" by (rule ascii_valid) simp
  with that show ?thesis
    by (auto simp: slots_ok_def recs_ok_def enc_recs_def om_ok_def encode_value_def)
qed

definition del_recs :: "nat \<Rightarrow> slots" where
  "del_recs n = [(''a'', if n = 0 then Some [7] else None)]"

definition del_seg :: "nat \<Rightarrow> segment" where
  "del_seg n = \<lparr>sg_path = (''h'', seg_name n), sg_sparse = [(''a'', 0)], sg_end = length (recs_enc (enc_recs (del_recs n)))\<rparr>"

text \<open>A store where \<open>a\<close> was put in the first segment and deleted in the second.\<close>

definition deleted_store :: "path list \<Rightarrow> store" where
  "deleted_store stuck =
     (\<lparr>hs_dir = ''h'', hs_buffer = [], hs_limit = 1, hs_segments = [del_seg 0, del_seg 1],
       hs_next = 2, hs_cache = lru_new 4\<rparr>,
      \<lparr>d_files = [((''h'', seg_name 0), segment_bytes (enc_recs (del_recs 0))),
                  ((''h'', seg_name 1), segment_bytes (enc_recs (del_recs 1)))],
       d_pid = 1, d_faults = [], d_stuck = stuck\<rparr>)"

lemma seg_names: "seg_name 0 < seg_name 1" "seg_seq (seg_name 0) = Some 0" "seg_seq (seg_name 1) = Some 1"
proof -
  have "(p @ s < p @ t) = (s < t)" for p s t :: string by (induction p) auto
  moreover have "dec_digits 0 = [char_of (48 :: nat)]" "dec_digits 1 = [char_of (49 :: nat)]"
    by (simp_all add: dec_digits.simps)
  moreover have "char_of (48 :: nat) < (char_of (49 :: nat) :: char)" by (simp add: less_char_def)
  ultimately show "seg_name 0 < seg_name 1"
    by (simp add: seg_name_def dec_padded_def Let_def del: One_nat_def)
qed simp_all

lemma deleted_rep: "hs_rep (deleted_store stuck) [del_recs 0, del_recs 1]"
proof -
  have ok: "slots_ok (del_recs 0)" "slots_ok (del_recs 1)" using slots_a by (simp_all add: del_recs_def)
  have sparse: "sparse_of 0 0 (enc_recs (del_recs n)) = [(''a'', 0)]" for n
    by (simp add: del_recs_def enc_recs_def)
  have "seg_backed (snd (deleted_store stuck)) (del_seg n) (enc_recs (del_recs n))" if "n = 0 \<or> n = 1" for n
    using that ok seg_names(1) sparse
    by (auto simp: seg_backed_def del_seg_def deleted_store_def disk_read_def slots_ok_def simp del: One_nat_def)
  moreover have "om_ok (d_files (snd (deleted_store stuck)))"
    using seg_names(1) by (simp add: deleted_store_def om_ok_def less_prod_def' del: One_nat_def)
  moreover have "map sg_path [del_seg 0, del_seg 1] = map (\<lambda>n. (''h'', seg_name n)) [0, 1]"
    by (simp add: del_seg_def)
  ultimately show ?thesis
    unfolding hs_rep_def deleted_store_def
    by (intro conjI exI [of _ "[0, 1]"]) (simp_all del: One_nat_def)
qed

lemma deleted_facts:
  "hs_ok (deleted_store stuck)" "hs_contents (deleted_store stuck) = Map.empty"
  "hs_tidy (deleted_store stuck)" "hs_live_entries (deleted_store stuck) = Inr []"
  "compact_fits (deleted_store stuck)"
proof -
  show ok: "hs_ok (deleted_store stuck)" using deleted_rep by (auto simp: hs_ok_def)
  have "hs_buffer (fst (deleted_store stuck)) = []" by (simp add: deleted_store_def)
  then show con: "hs_contents (deleted_store stuck) = Map.empty"
    using hs_contents_rep [OF deleted_rep] by (simp add: fun_eq_iff del_recs_def layers_def)
  show "hs_tidy (deleted_store stuck)"
    by (simp add: hs_tidy_def deleted_store_def del_seg_def)
  obtain es where es: "hs_live_entries (deleted_store stuck) = Inr es" "om_ok es"
    "map_of es = hs_contents (deleted_store stuck)"
    using hs_live_entries_eq [OF ok] by blast
  have "es = []" by (rule om_ext [OF es(2)]) (simp_all add: es(3) con)
  with es(1) show live: "hs_live_entries (deleted_store stuck) = Inr []" by simp
  then show "compact_fits (deleted_store stuck)"
    by (simp add: compact_fits_def recs_ok_def)
qed

lemma deleted_compacts:
  "\<exists>hs'. hs_compact (deleted_store stuck) =
     (Inr (), (hs', fold disk_remove [(''h'', seg_name 0), (''h'', seg_name 1)] (snd (deleted_store stuck))))"
proof -
  have rep: "hs_rep (fst (deleted_store stuck), snd (deleted_store stuck)) [del_recs 0, del_recs 1]"
    using deleted_rep by simp
  note D = hs_repD [OF rep]
  have live: "live_map [del_recs 0, del_recs 1] = []"
    by (simp add: live_map_def del_recs_def enc_recs_def om_remove_def)
  have fl: "hs_flush (deleted_store stuck) = (Inr (), deleted_store stuck)"
    by (simp add: hs_flush_def deleted_store_def)
  show ?thesis
    using fl live records_backed [OF D(1)]
    unfolding hs_compact_def live_map_def
    by (simp add: Let_def deleted_store_def del_seg_def)
qed

lemma hs_put_updates_witness:
  "hs_contents (snd (hs_put ''a'' [7] fresh_store)) ''a'' = Some [7]"
  using hs_put_updates [OF fresh_store_ok(1), of "''a''" "[7]"] fresh_store_ok(2) slots_a
  by (cases "hs_put ''a'' [7] fresh_store") simp

lemma hs_delete_updates_witness:
  "hs_contents (snd (hs_delete ''a'' (deleted_store []))) = Map.empty"
  using hs_delete_updates [OF deleted_facts(1), of "''a''" "[]"] slots_a [of None] deleted_facts(2) [of "[]"]
  by (cases "hs_delete ''a'' (deleted_store [])") (simp add: deleted_store_def)

lemma hs_get_reads_witness: "fst (hs_get ''a'' (deleted_store [])) = Inr None"
  using hs_get_reads [OF deleted_facts(1), of "''a''" "[]"] deleted_facts(2) [of "[]"]
  by (cases "hs_get ''a'' (deleted_store [])") simp

lemma hs_compact_preserves_witness:
  "hs_contents (snd (hs_compact (deleted_store []))) = Map.empty"
  using hs_compact_preserves [OF deleted_facts(1,5), of "[]"] deleted_facts(2) [of "[]"]
  by (cases "hs_compact (deleted_store [])") simp

lemma hs_scans_exact_witness:
  "\<exists>es. hs_live_entries (deleted_store []) = Inr es \<and> hs_scan_prefix ''a'' (deleted_store []) = Inr es \<and> es = []"
  using hs_scans_exact [OF deleted_facts(1), of "[]" "''a''"] deleted_facts(4) [of "[]"] by auto


lemma hs_compact_crash_safe_witness:
  "\<exists>d' hs''. hs_open ''h'' 8 2 d' = Inr hs'' \<and> hs_contents (hs'', d') = Map.empty
     \<and> map_of (d_files d') (''h'', seg_name 0) = None"
proof -
  let ?s = "deleted_store [(''h'', seg_name 1), (''h'', seg_name 2)]"
  obtain hs' where c: "hs_compact ?s = (Inr (), (hs', fold disk_remove [(''h'', seg_name 0), (''h'', seg_name 1)] (snd ?s)))"
    using deleted_compacts by blast
  have ne: "seg_name 0 \<noteq> seg_name 1" "seg_name 0 \<noteq> seg_name 2" by (auto dest: seg_name_inj)
  have order: "removes_oldest_first ?s"
    using ne by (auto simp: removes_oldest_first_def deleted_store_def le_Suc_eq numeral_2_eq_2 dest: seg_name_inj)
  have room: "hs_next (fst ?s) + 2 \<le> 2 ^ 64" and dir: "hs_dir (fst ?s) = ''h''"
    by (simp_all add: deleted_store_def)
  obtain d' where d': "d' = fold disk_remove [(''h'', seg_name 0), (''h'', seg_name 1)] (snd ?s)" by simp
  have "(''h'', seg_name 0) \<notin> set (d_stuck (snd ?s))" using ne by (simp add: deleted_store_def)
  then have "map_of (d_files d') (''h'', seg_name 0) = None"
    by (simp only: d' map_of_removed) simp
  with hs_compact_crash_safe [OF deleted_facts(1,3,5) order room c, of 8 2, folded d', unfolded dir deleted_facts(2)]
  show ?thesis by blast
qed

lemma hs_compact_resurrects_witness:
  "\<exists>hs' d' hs''. hs_compact (deleted_store [(''h'', seg_name 0)]) = (Inr (), (hs', d'))
     \<and> hs_contents (hs', d') ''a'' = None
     \<and> hs_open ''h'' 8 2 d' = Inr hs'' \<and> hs_contents (hs'', d') ''a'' = Some [7]"
proof -
  let ?s = "deleted_store [(''h'', seg_name 0)]"
  note F = deleted_facts [of "[(''h'', seg_name 0)]"]
  have F': "hs_ok (fst ?s, snd ?s)" "hs_tidy (fst ?s, snd ?s)" "hs_live_entries (fst ?s, snd ?s) = Inr []"
    using F by (simp_all only: prod.collapse)
  have "seg_backed (snd ?s) (del_seg 0) (enc_recs (del_recs 0))"
    using deleted_rep [of "[(''h'', seg_name 0)]"] by (simp add: hs_rep_def deleted_store_def)
  from segment_get_backed [OF this, of "''a''"]
  have old: "segment_get (snd ?s) (del_seg 0) ''a'' = Inr (Some (encode_value (Some [7])))"
    by (simp add: del_recs_def)
  have "seg_name 1 \<noteq> seg_name 0" by (auto dest: seg_name_inj)
  then have stuck: "x \<in> set [del_seg 1] \<Longrightarrow> sg_path x \<notin> set (d_stuck (snd ?s))" for x
    by (simp add: deleted_store_def del_seg_def)
  have shape: "hs_buffer (fst ?s) = []" "hs_segments (fst ?s) = del_seg 0 # [del_seg 1]" "hs_dir (fst ?s) = ''h''"
    "sg_path (del_seg 0) \<in> set (d_stuck (snd ?s))"
    by (simp_all add: deleted_store_def del_seg_def)
  from hs_compact_resurrects [OF F'(1,2) shape(1) F'(3) shape(2) _ shape(4) stuck old, of 8 2] show ?thesis
    unfolding shape(3) prod.collapse by blast
qed

end
