(* ===== verification/ColdTier.thy ===== *)
theory ColdTier
  imports HuskStore Lzss
begin

text \<open>
  The on-disk parts of the COLD tier in \<open>src/memory.rs\<close> below the graph itself: the
  content-addressed blob store \<open>ColdSpill\<close>, the packed neighbour list of a deep husk, and the
  reverse-adjacency index over a \<open>HuskStore\<close>. SHA-256 is a crate; it is the argument \<open>sha\<close>.
\<close>

subsection \<open>ColdSpill\<close>

type_synonym spill = "string \<times> disk"      \<comment> \<open>the directory, and the disk\<close>

definition fs_write :: "path \<Rightarrow> bytes \<Rightarrow> disk \<Rightarrow> unit io \<times> disk" where
  \<comment> \<open>\<open>std::fs::write\<close>: create or truncate, then write in place; not atomic\<close>
  "fs_write p b d0 =
     (let (f, d) = next_fault d0 in
        case f of
          Some AtMkdir \<Rightarrow> (Inl WriteDenied, d)
        | Some AtCreate \<Rightarrow> (Inl WriteDenied, d)
        | Some (AtWrite n) \<Rightarrow> (Inl WriteDenied, disk_put p (take n b) d)
        | _ \<Rightarrow> (Inr (), disk_put p b d))"

definition spill_path :: "string \<Rightarrow> bytes \<Rightarrow> path" where
  "spill_path dir hash = (dir, hex32 hash)"

definition spill_put :: "(bytes \<Rightarrow> bytes) \<Rightarrow> string \<Rightarrow> spill \<Rightarrow> bytes io \<times> spill" where
  "spill_put sha content s =
     (let (dir, d) = s; hash = sha (bytes_of content); p = spill_path dir hash in
        if om_contains (d_files d) p then (Inr hash, s)
        else (case fs_write p (compress (bytes_of content)) d of
                (Inl e, d1) \<Rightarrow> (Inl e, dir, d1)
              | (Inr _, d1) \<Rightarrow> (Inr hash, dir, d1)))"

definition spill_get :: "(bytes \<Rightarrow> bytes) \<Rightarrow> bytes \<Rightarrow> spill \<Rightarrow> string option" where
  "spill_get sha hash s =
     (case disk_read (snd s) (spill_path (fst s) hash) of
        Inl _ \<Rightarrow> None
      | Inr blob \<Rightarrow> Option.bind (decompress blob) (\<lambda>raw. Option.bind (from_utf8 raw) (\<lambda>text.
          if sha (bytes_of text) = hash then Some text else None)))"

definition spill_remove :: "bytes \<Rightarrow> spill \<Rightarrow> spill" where
  "spill_remove hash s = (fst s, disk_remove (spill_path (fst s) hash) (snd s))"

lemma fs_write_ok:
  "fs_write p b d = (Inr (), d') \<Longrightarrow> map_of (d_files d') = (map_of (d_files d))(p \<mapsto> b)"
  using next_fault_fields(1) [of d]
  by (cases "next_fault d") (auto simp: fs_write_def split: option.splits wd_point.splits)

lemma spill_get_intact:
  assumes "spill_get sha hash s = Some text"
  shows "sha (bytes_of text) = hash \<and> str_valid text
    \<and> (\<exists>blob. disk_read (snd s) (spill_path (fst s) hash) = Inr blob \<and> decompress blob = Some (bytes_of text))"
  using assms
  by (auto simp: spill_get_def bind_eq_Some_conv dest!: from_utf8_Some split: sum.splits if_splits)

text \<open>
  A blob comes back only if it is intact: whatever bytes are on disk, what \<open>get\<close> returns
  hashes to the requested address and is the decompression of the file.
\<close>

theorem spill_get_verified:
  assumes "spill_get sha hash s = Some text"
  shows "sha (bytes_of text) = hash \<and> str_valid text
    \<and> (\<exists>blob. disk_read (snd s) (spill_path (fst s) hash) = Inr blob \<and> decompress blob = Some (bytes_of text))"
  by (rule spill_get_intact [OF assms])

lemma spill_path_inj [simp]: "spill_path dir h = spill_path dir h' \<longleftrightarrow> h = h'"
  by (auto simp: spill_path_def hex32_def dest: hex_bytes_inj)

lemma spill_get_after:
  assumes "spill_put sha content (dir, d) = (Inr hash, s')"
    and "str_valid content" and "\<not> om_contains (d_files d) (spill_path dir (sha (bytes_of content)))"
  shows "hash = sha (bytes_of content) \<and> spill_get sha hash s' = Some content
    \<and> (\<forall>h. h \<noteq> hash \<longrightarrow> spill_get sha h s' = spill_get sha h (dir, d))"
proof -
  let ?p = "spill_path dir (sha (bytes_of content))"
  obtain d1 where w: "fs_write ?p (compress (bytes_of content)) d = (Inr (), d1)" "s' = (dir, d1)"
    "hash = sha (bytes_of content)"
    using assms(1,3) by (auto simp: spill_put_def Let_def split: prod.splits sum.splits)
  note files = fs_write_ok [OF w(1)]
  from files have "disk_read d1 ?p = Inr (compress (bytes_of content))"
    by (simp add: disk_read_def)
  moreover have "disk_read d1 (spill_path dir h) = disk_read d (spill_path dir h)" if "h \<noteq> hash" for h
    using files that w(3) by (simp add: disk_read_def)
  ultimately show ?thesis
    using w assms(2) by (simp add: spill_get_def)
qed

text \<open>
  What is spilled faults back: after a successful write of a new blob, reading its address
  gives the content, and every other address reads as before.
\<close>

theorem spill_round_trip:
  assumes "spill_put sha content (dir, d) = (Inr hash, s')"
    and "str_valid content" and "\<not> om_contains (d_files d) (spill_path dir (sha (bytes_of content)))"
  shows "hash = sha (bytes_of content) \<and> spill_get sha hash s' = Some content
    \<and> (\<forall>h. h \<noteq> hash \<longrightarrow> spill_get sha h s' = spill_get sha h (dir, d))"
  by (rule spill_get_after [OF assms])

text \<open>
  A write that fails after creating the file (a full disk) poisons the address: the next
  \<open>put\<close> of the same content finds the file, writes nothing and reports success, and the
  content, which the caller then drops from memory, cannot be read back.
\<close>

theorem spill_put_poisoned:
  assumes "\<not> om_contains (d_files d) (spill_path dir (sha (bytes_of content)))"
    and "d_faults d = Some (AtWrite 0) # fs"
  shows "\<exists>s' s'' hash. spill_put sha content (dir, d) = (Inl WriteDenied, s')
    \<and> spill_put sha content s' = (Inr hash, s'') \<and> spill_get sha hash s'' = None"
  using assms
  by (simp add: spill_put_def fs_write_def next_fault_def spill_get_def disk_read_def
      decompress_def disk_put_def Let_def)

definition toy_hash :: "bytes \<Rightarrow> bytes" where
  "toy_hash b = replicate 31 0 @ [word_of_nat (length b)]"

definition full_disk :: disk where
  "full_disk = \<lparr>d_files = [], d_pid = 1, d_faults = [Some (AtWrite 0)], d_stuck = []\<rparr>"

lemma spill_round_trip_witness:
  "\<exists>s' hash. spill_put toy_hash ''abc'' (''w'', full_disk\<lparr>d_faults := []\<rparr>) = (Inr hash, s')
     \<and> spill_get toy_hash hash s' = Some ''abc''"
proof -
  let ?d = "full_disk\<lparr>d_faults := []\<rparr>"
  have free: "\<not> om_contains (d_files ?d) (spill_path ''w'' (toy_hash (bytes_of ''abc'')))"
    by (simp add: full_disk_def)
  have valid: "str_valid ''abc''" by (rule ascii_valid) simp
  obtain s' where p: "spill_put toy_hash ''abc'' (''w'', ?d) = (Inr (toy_hash (bytes_of ''abc'')), s')"
    using free by (simp add: spill_put_def fs_write_def next_fault_def full_disk_def Let_def)
  with spill_round_trip [OF p valid free] show ?thesis by blast
qed

lemma spill_get_verified_witness:
  "\<exists>s' hash. spill_get toy_hash hash s' = Some ''abc'' \<and> toy_hash (bytes_of ''abc'') = hash"
proof -
  let ?h = "toy_hash (bytes_of ''abc'')"
  let ?s = "(''w'', disk_put (spill_path ''w'' ?h) (compress (bytes_of ''abc'')) full_disk)"
  have valid: "str_valid ''abc''" by (rule ascii_valid) simp
  have g: "spill_get toy_hash ?h ?s = Some ''abc''"
    using valid by (simp add: spill_get_def disk_read_def)
  from spill_get_verified [OF g] g show ?thesis by blast
qed

lemma spill_put_poisoned_witness:
  "\<exists>s' s'' hash. spill_put toy_hash ''abc'' (''w'', full_disk) = (Inl WriteDenied, s')
     \<and> spill_put toy_hash ''abc'' s' = (Inr hash, s'') \<and> spill_get toy_hash hash s'' = None"
  by (rule spill_put_poisoned [of _ _ _ _ "[]"]) (simp_all add: full_disk_def)

subsection \<open>Packed neighbour lists\<close>

definition pack_adj :: "string list \<Rightarrow> bytes" where
  "pack_adj ids = fold (\<lambda>i buf. buf @ le_bytes 4 (length (bytes_of i)) @ bytes_of i) ids []"

function unpack_adj :: "bytes \<Rightarrow> string list" where
  \<comment> \<open>the ids the iterator yields; a truncated or non-UTF-8 buffer ends it\<close>
  "unpack_adj packed =
     (if length packed < 4 then []
      else let len = of_le_bytes (take 4 packed); rest = drop 4 packed in
        if length rest < len then []
        else (case from_utf8 (take len rest) of
                None \<Rightarrow> []
              | Some s \<Rightarrow> s # unpack_adj (drop len rest)))"
  by pat_completeness auto
termination
  by (relation "measure length") auto

declare unpack_adj.simps [simp del]

lemma pack_adj_eq: "pack_adj ids = concat (map (\<lambda>i. le_bytes 4 (length i) @ bytes_of i) ids)"
proof -
  have "fold (\<lambda>i buf. buf @ le_bytes 4 (length (bytes_of i)) @ bytes_of i) ids buf
      = buf @ concat (map (\<lambda>i. le_bytes 4 (length i) @ bytes_of i) ids)" for buf
    by (induction ids arbitrary: buf) simp_all
  then show ?thesis by (simp add: pack_adj_def)
qed

lemma unpack_adj_Cons:
  assumes "str_valid i" "length i < 2 ^ 32"
  shows "unpack_adj ((le_bytes 4 (length i) @ bytes_of i) @ rest) = i # unpack_adj rest"
proof -
  have "of_le_bytes (le_bytes 4 (length i)) = length i" using assms(2) by (intro of_le_bytes_id) simp
  then show ?thesis
    using assms(1) by (subst unpack_adj.simps) simp
qed

text \<open>A packed neighbour list unpacks to the ids it was packed from, whatever follows it.\<close>

theorem pack_adj_round_trip:
  assumes "list_all (\<lambda>i. str_valid i \<and> length i < 2 ^ 32) ids"
  shows "unpack_adj (pack_adj ids @ rest) = ids @ unpack_adj rest"
  using assms
proof (induction ids)
  case Nil
  then show ?case by (simp add: pack_adj_eq)
next
  case (Cons i ids)
  then show ?case
    using unpack_adj_Cons [of i "pack_adj ids @ rest"] by (simp add: pack_adj_eq)
qed

lemma pack_adj_round_trip_witness: "unpack_adj (pack_adj [''a'', ''bc''] @ []) = [''a'', ''bc'']"
proof -
  have "str_valid ''a''" "str_valid ''bc''" by (rule ascii_valid; simp)+
  then have "unpack_adj (pack_adj [''a'', ''bc''] @ []) = [''a'', ''bc''] @ unpack_adj []"
    by (intro pack_adj_round_trip) simp
  then show ?thesis by (simp add: unpack_adj.simps)
qed

subsection \<open>The reverse-adjacency index\<close>

definition radj_key :: "string \<Rightarrow> string \<Rightarrow> string" where
  \<comment> \<open>\<open>format!("{}\u{1f}{}", a, b)\<close>\<close>
  "radj_key a b = a @ [CHR 0x1F] @ b"

definition radj_add_edge :: "string \<Rightarrow> string \<Rightarrow> store \<Rightarrow> store" where
  "radj_add_edge a b radj = snd (hs_put (radj_key b a) [] (snd (hs_put (radj_key a b) [] radj)))"

definition radj_del_edge :: "string \<Rightarrow> string \<Rightarrow> store \<Rightarrow> store" where
  "radj_del_edge a b radj = snd (hs_delete (radj_key b a) (snd (hs_delete (radj_key a b) radj)))"

definition radj_others :: "string \<Rightarrow> store \<Rightarrow> string list" where
  \<comment> \<open>the ids \<open>cold_neighbours\<close> reads off the prefix scan, before it keeps the cold ones\<close>
  "radj_others a radj =
     (let prefix = a @ [CHR 0x1F] in
        case hs_scan_prefix prefix radj of
          Inl _ \<Rightarrow> []
        | Inr es \<Rightarrow> map (\<lambda>(k, _). drop (length prefix) k) es)"

definition plain_id :: "string \<Rightarrow> bool" where
  \<comment> \<open>an id without the separator\<close>
  "plain_id a \<longleftrightarrow> CHR 0x1F \<notin> set a"

lemma radj_key_inj:
  assumes "plain_id a" "plain_id c"
  shows "radj_key a b = radj_key c d \<longleftrightarrow> a = c \<and> b = d"
proof
  have split: "takeWhile (\<lambda>x. x \<noteq> CHR 0x1F) (radj_key a b) = a" if "plain_id a" for a b
    using that by (simp add: radj_key_def plain_id_def takeWhile_tail)
      (metis (full_types) append_Nil2 takeWhile_append2 takeWhile.simps(2))
  assume eq: "radj_key a b = radj_key c d"
  with split [OF assms(1)] split [OF assms(2)] have "a = c" by metis
  with eq show "a = c \<and> b = d" by (simp add: radj_key_def)
qed simp

lemma radj_others_set:
  assumes "hs_ok radj"
  shows "set (radj_others a radj) = {b. hs_contents radj (radj_key a b) \<noteq> None}"
proof -
  obtain es where "hs_scan_prefix (a @ [CHR 0x1F]) radj = Inr es"
    "set (map (\<lambda>(k, _). drop (length (a @ [CHR 0x1F])) k) es) = {t. hs_contents radj ((a @ [CHR 0x1F]) @ t) \<noteq> None}"
    using husks.scan_suffixes [OF assms] by blast
  then show ?thesis by (simp add: radj_others_def radj_key_def Let_def)
qed

text \<open>
  The reverse-adjacency index is exact: recording an edge makes each endpoint a neighbour
  of the other and changes no other pair, and dropping it removes exactly that pair, for ids
  without the separator character and whatever flushes happen on the way.
\<close>

theorem radj_add_exact:
  assumes "hs_ok radj" "plain_id a" "plain_id b" "plain_id c"
    and "hs_room (radj_key a b) (Some []) radj"
    and "hs_room (radj_key b a) (Some []) (snd (hs_put (radj_key a b) [] radj))"
  shows "hs_ok (radj_add_edge a b radj) \<and> set (radj_others c (radj_add_edge a b radj)) =
    set (radj_others c radj) \<union> (if c = a then {b} else {}) \<union> (if c = b then {a} else {})"
proof -
  note two = husks.two_puts [OF assms(1,5,6), folded radj_add_edge_def]
  show ?thesis
    using radj_others_set [OF two(1)] radj_others_set [OF assms(1)] two radj_key_inj assms(2-4) by auto
qed

text \<open>Dropping a recorded edge removes exactly that pair, in both directions.\<close>

theorem radj_del_exact:
  assumes "hs_ok radj" "plain_id a" "plain_id b" "plain_id c"
    and "hs_room (radj_key a b) None radj"
    and "hs_room (radj_key b a) None (snd (hs_delete (radj_key a b) radj))"
  shows "hs_ok (radj_del_edge a b radj) \<and> set (radj_others c (radj_del_edge a b radj)) =
    set (radj_others c radj) - (if c = a then {b} else {}) - (if c = b then {a} else {})"
proof -
  note two = husks.two_deletes [OF assms(1,5,6), folded radj_del_edge_def]
  show ?thesis
    using radj_others_set [OF two(1)] radj_others_set [OF assms(1)] two radj_key_inj assms(2-4) by auto
qed

definition idx_store :: store where
  "idx_store = ((fst fresh_store)\<lparr>hs_limit := 8\<rparr>, snd fresh_store)"

lemma idx_store_facts:
  "hs_ok idx_store"
  "hs_room (radj_key ''a'' ''b'') (Some []) idx_store"
  "hs_room (radj_key ''b'' ''a'') (Some []) (snd (hs_put (radj_key ''a'' ''b'') [] idx_store))"
  "hs_room (radj_key ''a'' ''b'') None idx_store"
  "hs_room (radj_key ''b'' ''a'') None (snd (hs_delete (radj_key ''a'' ''b'') idx_store))"
proof -
  have valid: "str_valid (radj_key ''a'' ''b'')" "str_valid (radj_key ''b'' ''a'')"
    by (rule ascii_valid; simp add: radj_key_def)+
  have "radj_key ''a'' ''b'' < radj_key ''b'' ''a''" by (simp add: radj_key_def)
  then have slots: "slots_ok [(radj_key ''a'' ''b'', v)]" "slots_ok [(radj_key ''a'' ''b'', v), (radj_key ''b'' ''a'', v)]"
    if "v = None \<or> v = Some []" for v
    using that valid
    by (auto simp: slots_ok_def recs_ok_def enc_recs_def om_ok_def encode_value_def radj_key_def)
  have "hs_rep idx_store []" by (simp add: idx_store_def fresh_store_def hs_rep_def)
  then show "hs_ok idx_store" by (auto simp: hs_ok_def)
  show "hs_room (radj_key ''a'' ''b'') (Some []) idx_store" "hs_room (radj_key ''a'' ''b'') None idx_store"
    using slots(1) by (simp_all add: hs_room_def idx_store_def fresh_store_def)
  have ins: "om_insert (radj_key ''b'' ''a'') v [(radj_key ''a'' ''b'', v)]
      = [(radj_key ''a'' ''b'', v), (radj_key ''b'' ''a'', v)]" for v :: "bytes option"
    by (simp add: radj_key_def)
  show "hs_room (radj_key ''b'' ''a'') (Some []) (snd (hs_put (radj_key ''a'' ''b'') [] idx_store))"
    using slots(2) ins by (simp add: hs_room_def idx_store_def fresh_store_def hs_put_def hs_maybe_flush_def hs_slot_def)
  show "hs_room (radj_key ''b'' ''a'') None (snd (hs_delete (radj_key ''a'' ''b'') idx_store))"
    using slots(2) ins by (simp add: hs_room_def idx_store_def fresh_store_def hs_delete_def hs_maybe_flush_def hs_slot_def)
qed

lemma radj_add_exact_witness: "''a'' \<in> set (radj_others ''b'' (radj_add_edge ''a'' ''b'' idx_store))"
proof -
  have "plain_id ''a''" "plain_id ''b''" by (simp_all add: plain_id_def)
  from radj_add_exact [OF idx_store_facts(1) this this(2) idx_store_facts(2,3)] show ?thesis by simp
qed

lemma radj_del_exact_witness: "''a'' \<notin> set (radj_others ''b'' (radj_del_edge ''a'' ''b'' idx_store))"
proof -
  have "plain_id ''a''" "plain_id ''b''" by (simp_all add: plain_id_def)
  from radj_del_exact [OF idx_store_facts(1) this this(2) idx_store_facts(4,5)] show ?thesis by simp
qed

end
