(* ===== verification/EvictionPolicy.thy ===== *)
theory EvictionPolicy
  imports F64 "HOL-Library.Product_Lexorder"
begin

text \<open>
  \<open>src/eviction_policy.rs\<close>: the tabular Q-learner that may nudge paging. States are four
  bucket numbers in the order of the struct's fields (which \<open>derive(Ord)\<close> compares
  lexicographically), the table is an ordered map from state and action to a value, and the
  arithmetic is the exact binary64 of \<open>F64\<close>.
\<close>

datatype paging_state = PagingState (ps_score: u8) (ps_recency: u8) (ps_pressure: u8) (ps_size: u8)

definition ps_key :: "paging_state \<Rightarrow> u8 \<times> u8 \<times> u8 \<times> u8" where
  "ps_key s = (ps_score s, ps_recency s, ps_pressure s, ps_size s)"

lemma ps_key_inj: "ps_key a = ps_key b \<longleftrightarrow> a = b"
  by (cases a; cases b) (simp add: ps_key_def)

instantiation paging_state :: linorder
begin

definition less_eq_paging_state :: "paging_state \<Rightarrow> paging_state \<Rightarrow> bool" where
  "less_eq_paging_state a b \<longleftrightarrow> ps_key a \<le> ps_key b"

definition less_paging_state :: "paging_state \<Rightarrow> paging_state \<Rightarrow> bool" where
  "less_paging_state a b \<longleftrightarrow> ps_key a < ps_key b"

instance
proof
  fix a b c :: paging_state
  show "(a < b) = (a \<le> b \<and> \<not> b \<le> a)" "a \<le> a" "a \<le> b \<or> b \<le> a"
    by (auto simp: less_eq_paging_state_def less_paging_state_def)
  show "a \<le> b \<Longrightarrow> b \<le> c \<Longrightarrow> a \<le> c"
    unfolding less_eq_paging_state_def by (rule order_trans)
  show "a \<le> b \<Longrightarrow> b \<le> a \<Longrightarrow> a = b"
    unfolding less_eq_paging_state_def by (simp add: ps_key_inj [symmetric])
qed

end

definition KEEP :: u8 where "KEEP = 0"
definition EVICT :: u8 where "EVICT = 1"

subsection \<open>Buckets\<close>

definition bucket_score :: "f64 \<Rightarrow> u8" where
  "bucket_score score = (if f64_lt score (f64_rat 2 10) then 0 else if f64_lt score (f64_rat 5 10) then 1 else 2)"

definition bucket_recency :: "nat \<Rightarrow> nat \<Rightarrow> u8" where
  "bucket_recency rank n =
     (if n = 0 then 0
      else let frac = f64_div (f64_of_nat rank) (f64_of_nat n) in
        if f64_lt frac (f64_rat 33 100) then 0 else if f64_lt frac (f64_rat 66 100) then 1 else 2)"

definition bucket_pressure :: "f64 \<Rightarrow> u8" where
  "bucket_pressure fr = (if f64_lt fr (f64_rat 5 100) then 0 else if f64_lt fr (f64_rat 4 10) then 1 else 2)"

definition bucket_size :: "nat \<Rightarrow> u8" where
  "bucket_size tokens = (if tokens < 64 then 0 else if tokens < 512 then 1 else 2)"

subsection \<open>The learner\<close>

record eviction_policy =
  ep_q :: "(paging_state \<times> u8, f64) omap"
  ep_alpha :: f64
  ep_gamma :: f64
  ep_updates :: nat

definition policy_new :: eviction_policy where
  "policy_new = \<lparr>ep_q = [], ep_alpha = f64_rat 1 10, ep_gamma = f64_rat 9 10, ep_updates = 0\<rparr>"

definition is_trained :: "eviction_policy \<Rightarrow> bool" where
  "is_trained p \<longleftrightarrow> ep_q p \<noteq> []"

definition q_value :: "eviction_policy \<Rightarrow> paging_state \<Rightarrow> u8 \<Rightarrow> f64" where
  "q_value p s a = (case map_of (ep_q p) (s, a) of Some v \<Rightarrow> v | None \<Rightarrow> f64_zero False)"

definition greedy_action :: "eviction_policy \<Rightarrow> paging_state \<Rightarrow> u8" where
  "greedy_action p s = (if f64_lt (q_value p s KEEP) (q_value p s EVICT) then EVICT else KEEP)"

definition should_evict :: "eviction_policy \<Rightarrow> paging_state \<Rightarrow> bool" where
  "should_evict p s \<longleftrightarrow> is_trained p \<and> greedy_action p s = EVICT"

definition policy_update :: "paging_state \<Rightarrow> u8 \<Rightarrow> f64 \<Rightarrow> paging_state \<Rightarrow> eviction_policy \<Rightarrow> eviction_policy" where
  "policy_update s a r s_next p =
     (let q_sa = q_value p s a;
          max_next = f64_max (q_value p s_next KEEP) (q_value p s_next EVICT);
          td = f64_sub (f64_add r (f64_mul (ep_gamma p) max_next)) q_sa
      in p\<lparr>ep_q := om_insert (s, a) (f64_add q_sa (f64_mul (ep_alpha p) td)) (ep_q p),
           ep_updates := ep_updates p + 1\<rparr>)"

type_synonym transition = "paging_state \<times> u8 \<times> f64 \<times> paging_state"

definition policy_fit :: "transition list \<Rightarrow> eviction_policy \<Rightarrow> eviction_policy" where
  "policy_fit ts p = fold (\<lambda>(s, a, r, s_next). policy_update s a r s_next) ts p"

definition table_size :: "eviction_policy \<Rightarrow> nat" where
  "table_size p = length (ep_q p)"

definition reward_keep :: "bool \<Rightarrow> nat \<Rightarrow> f64" where
  "reward_keep was_recalled token_cost =
     (if was_recalled then f64_rat 1 1 else f64_mul (f64_neg (f64_rat 1 1000)) (f64_of_nat token_cost))"

definition reward_evict :: "bool \<Rightarrow> nat \<Rightarrow> f64" where
  "reward_evict was_re_paged token_cost =
     (if was_re_paged
      then f64_sub (f64_neg (f64_rat 5 10)) (f64_mul (f64_rat 2 1000) (f64_of_nat token_cost))
      else f64_rat 2 10)"

subsection \<open>Correctness\<close>

lemma untrained_q_value: "\<not> is_trained p \<Longrightarrow> q_value p s a = f64_zero False"
  by (simp add: is_trained_def q_value_def)

lemma q_value_update:
  "q_value (policy_update s a r s_next p) s' a' =
     (if s' = s \<and> a' = a
      then f64_add (q_value p s a) (f64_mul (ep_alpha p)
             (f64_sub (f64_add r (f64_mul (ep_gamma p) (f64_max (q_value p s_next KEEP) (q_value p s_next EVICT))))
                (q_value p s a)))
      else q_value p s' a')"
  by (auto simp: policy_update_def q_value_def Let_def)

lemma policy_fit_Cons [simp]:
  "policy_fit ((s, a, r, s_next) # ts) p = policy_fit ts (policy_update s a r s_next p)"
  "policy_fit [] p = p"
  by (simp_all add: policy_fit_def)

lemma policy_update_fields [simp]:
  "ep_updates (policy_update s a r s_next p) = ep_updates p + 1"
  "ep_alpha (policy_update s a r s_next p) = ep_alpha p"
  "ep_gamma (policy_update s a r s_next p) = ep_gamma p"
  "is_trained (policy_update s a r s_next p)"
  by (cases "ep_q p"; auto simp: policy_update_def Let_def is_trained_def split: if_splits)+

lemma om_ok_policy_update: "om_ok (ep_q p) \<Longrightarrow> om_ok (ep_q (policy_update s a r s_next p))"
  by (auto simp: policy_update_def Let_def intro: inv_intros)

text \<open>
  Training touches exactly the cells it is told about: after \<open>fit\<close> a cell that no
  transition names keeps its value, the named cells and the old ones are all the table holds,
  every transition counts as one update, and the policy is trained as soon as there was one.
\<close>

theorem policy_fit_local:
  assumes "om_ok (ep_q p)"
  shows "om_ok (ep_q (policy_fit ts p))
    \<and> fst ` set (ep_q (policy_fit ts p)) = fst ` set (ep_q p) \<union> (\<lambda>(s, a, r, t). (s, a)) ` set ts
    \<and> (\<forall>s a. (s, a) \<notin> (\<lambda>(s, a, r, t). (s, a)) ` set ts \<longrightarrow> q_value (policy_fit ts p) s a = q_value p s a)
    \<and> ep_updates (policy_fit ts p) = ep_updates p + length ts
    \<and> (is_trained (policy_fit ts p) \<longleftrightarrow> is_trained p \<or> ts \<noteq> [])"
  using assms
proof (induction ts arbitrary: p)
  case (Cons t ts)
  obtain s a r u where t: "t = (s, a, r, u)" by (cases t)
  let ?p = "policy_update s a r u p"
  have keys: "fst ` set (ep_q ?p) = insert (s, a) (fst ` set (ep_q p))"
    by (simp add: policy_update_def Let_def om_insert_keys)
  note IH = Cons.IH [OF om_ok_policy_update [OF Cons.prems, of s a r u]]
  show ?case
    using IH keys by (auto simp: t q_value_update)
qed simp

lemma f64_sub_zero: "f64_sub (f64_zero False) (f64_zero False) = f64_zero False"
proof -
  have z: "f64_zero False = 0" "f64_neg 0 = (9223372036854775808 :: f64)"
    by (simp_all add: f64_zero_def f64_of_mag_def f64_neg_def)
  have m: "f64_mag 0 = 0" "f64_mag (9223372036854775808 :: f64) = 0" "\<not> f64_neg_bit 0" "f64_neg_bit (9223372036854775808 :: f64)"
    by (simp_all add: f64_mag_def f64_neg_bit_def)
  show ?thesis
    unfolding f64_sub_def z(1) z(2)
    by (simp add: f64_add_def f64_is_nan_def f64_is_inf_def f64_inf_mag_def f64_int_def f64_num_def m z(1))
qed

text \<open>
  The policy is advisory: an untrained one has no opinion on any state (the keep-minus-evict
  nudge that paging adds to a score is zero and \<open>should_evict\<close> is false), and a trained one
  evicts exactly the states whose evict value is above their keep value.
\<close>

theorem policy_advisory:
  "(should_evict p s \<longleftrightarrow> is_trained p \<and> f64_lt (q_value p s KEEP) (q_value p s EVICT))
   \<and> (\<not> is_trained p \<longrightarrow> \<not> should_evict p s
        \<and> f64_sub (q_value p s KEEP) (q_value p s EVICT) = f64_zero False)"
  by (simp add: should_evict_def greedy_action_def KEEP_def EVICT_def untrained_q_value f64_sub_zero)

lemma policy_fit_local_witness:
  "om_ok (ep_q (policy_fit [(PagingState 0 0 0 0, KEEP, f64_rat 1 1, PagingState 0 0 0 1)] policy_new))
   \<and> ep_updates (policy_fit [(PagingState 0 0 0 0, KEEP, f64_rat 1 1, PagingState 0 0 0 1)] policy_new) = 1"
  using policy_fit_local [of policy_new "[(PagingState 0 0 0 0, KEEP, f64_rat 1 1, PagingState 0 0 0 1)]"]
  by (simp add: policy_new_def)

lemma policy_advisory_witness: "\<not> should_evict policy_new (PagingState 0 0 0 0)"
  using policy_advisory [of policy_new] by (simp add: policy_new_def is_trained_def)

end
