(* ===== verification/MemGraph.thy ===== *)
theory MemGraph
  imports ColdTier EvictionPolicy
begin

text \<open>
  The memory graph of \<open>src/memory.rs\<close>: its state, the causal score with its caches, and the
  operations that build the graph and move failure pressure and trust along its edges. The
  cold tier behind it is in \<open>ColdGraph\<close> and \<open>Paging\<close>.

  The node map is a \<open>HashMap\<close>; every use the code makes of its iteration order sorts or
  folds order-independently first, so the ordered map of the prelude stands for it. The
  \<open>RefCell\<close> caches are part of the state. \<open>mem_env\<close> holds what is not code of the repository
  (SHA-256, serde_json, \<open>ln\<close> and \<open>powi\<close>, whose last bit the platform chooses, and the struct
  sizes the compiler lays out) and the content compressor of \<open>src/compressor.rs\<close>.
\<close>

subsection \<open>State\<close>

datatype centrality_mode = InDegree | Eigenvector

record scoring_weights =
  w_base :: f64
  w_failure :: f64
  w_recency :: f64
  w_access :: f64
  w_centrality :: f64
  w_mode :: centrality_mode
  w_trust :: f64
  failure_decay :: f64
  failure_fanout :: f64

type_synonym spill_ref = "bytes \<times> nat"      \<comment> \<open>\<open>SpillRef\<close>: hash and original length\<close>

record cold_node =
  cn_node :: graph_node
  cn_edges :: "graph_edge list"
  cn_spill :: "spill_ref option"
  cn_compacted :: bool
  cn_at_floor :: bool

record deep_husk =
  dh_body :: spill_ref
  dh_adj :: bytes

record mem_env =
  en_sha :: "bytes \<Rightarrow> bytes"
  en_ln :: "f64 \<Rightarrow> f64"
  en_powi :: "f64 \<Rightarrow> nat \<Rightarrow> f64"
  en_cold_json :: "cold_node \<Rightarrow> string option"
  en_cold_parse :: "string \<Rightarrow> cold_node option"
  en_husk_json :: "deep_husk \<Rightarrow> bytes option"
  en_husk_parse :: "bytes \<Rightarrow> deep_husk option"
  en_compact :: "string \<Rightarrow> string \<Rightarrow> string"
  en_size_cold :: nat
  en_size_id :: nat
  en_size_edge :: nat
  en_size_husk :: nat

type_synonym edge_key = "node_id \<times> node_id \<times> edge_type"

record mem_graph =
  g_nodes :: "(node_id, graph_node) omap"
  g_edges :: "graph_edge list"
  g_threshold :: f64
  g_max :: nat
  g_clock :: nat
  g_weights :: scoring_weights
  g_policy :: eviction_policy
  g_cold :: "(node_id, cold_node) omap"
  g_spill :: "(string \<times> nat) option"       \<comment> \<open>\<open>SpillConfig\<close>: directory and inline budget\<close>
  g_husks :: "husk_store option"
  g_radj :: "husk_store option"
  g_content_budget :: "nat option"
  g_resident_budget :: "nat option"
  g_indegree :: "(nat \<times> (node_id, nat) omap) option"
  g_eigen :: "((nat \<times> nat) \<times> (node_id, f64) omap) option"
  g_edge_set :: "edge_key list"             \<comment> \<open>the \<open>HashSet\<close>, without duplicates\<close>
  g_disk :: disk                            \<comment> \<open>the file system behind the stores\<close>

definition weights_default :: scoring_weights where
  "weights_default = \<lparr>w_base = f64_rat 15 100, w_failure = f64_rat 50 100, w_recency = f64_rat 30 100,
     w_access = f64_rat 5 100, w_centrality = f64_zero False, w_mode = InDegree, w_trust = f64_zero False,
     failure_decay = f64_rat 8 10, failure_fanout = f64_rat 6 1\<rparr>"

definition graph_new :: "f64 \<Rightarrow> nat \<Rightarrow> disk \<Rightarrow> mem_graph" where
  "graph_new threshold max_nodes d =
     \<lparr>g_nodes = [], g_edges = [], g_threshold = threshold, g_max = max_nodes, g_clock = 0,
      g_weights = weights_default, g_policy = policy_new, g_cold = [], g_spill = None, g_husks = None,
      g_radj = None, g_content_budget = None, g_resident_budget = None, g_indegree = None,
      g_eigen = None, g_edge_set = [], g_disk = d\<rparr>"

abbreviation resident :: "mem_graph \<Rightarrow> node_id \<Rightarrow> bool" where
  "resident g i \<equiv> om_contains (g_nodes g) i"

definition set_eviction_policy :: "eviction_policy \<Rightarrow> mem_graph \<Rightarrow> mem_graph" where
  "set_eviction_policy p g = g\<lparr>g_policy := p\<rparr>"

definition train_eviction_policy :: "transition list \<Rightarrow> mem_graph \<Rightarrow> mem_graph" where
  "train_eviction_policy ts g = g\<lparr>g_policy := policy_fit ts (g_policy g)\<rparr>"

definition set_scoring_weights :: "scoring_weights \<Rightarrow> mem_graph \<Rightarrow> mem_graph" where
  "set_scoring_weights w g = g\<lparr>g_weights := w\<rparr>"

subsection \<open>The causal score\<close>

definition is_orphan :: "mem_graph \<Rightarrow> node_id \<Rightarrow> bool" where
  "is_orphan g i = (case map_of (g_nodes g) i of Some n \<Rightarrow> n_state n = Orphan | None \<Rightarrow> False)"

definition count_up :: "node_id \<Rightarrow> (node_id, nat) omap \<Rightarrow> (node_id, nat) omap" where
  \<comment> \<open>\<open>*m.entry(id).or_default() += 1\<close>\<close>
  "count_up i m = om_insert i (Suc (case map_of m i of Some n \<Rightarrow> n | None \<Rightarrow> 0)) m"

definition in_degrees :: "mem_graph \<Rightarrow> (node_id, nat) omap" where
  "in_degrees g = fold (\<lambda>e m. if is_orphan g (e_source e) \<or> is_orphan g (e_target e) then m
                              else count_up (e_target e) m) (g_edges g) []"

definition cached_degrees :: "mem_graph \<Rightarrow> (node_id, nat) omap" where
  \<comment> \<open>the cache counts as fresh while the number of edges is the one it was built for\<close>
  "cached_degrees g = (case g_indegree g of
      Some (k, m) \<Rightarrow> if k = length (g_edges g) then m else in_degrees g
    | None \<Rightarrow> in_degrees g)"

definition cache_degrees :: "mem_graph \<Rightarrow> mem_graph" where
  "cache_degrees g = g\<lparr>g_indegree := Some (length (g_edges g), cached_degrees g)\<rparr>"

definition degree_in :: "mem_graph \<Rightarrow> node_id \<Rightarrow> nat" where
  "degree_in g i = (case map_of (cached_degrees g) i of Some n \<Rightarrow> n | None \<Rightarrow> 0)"

definition node_in_degree :: "node_id \<Rightarrow> mem_graph \<Rightarrow> nat \<times> mem_graph" where
  "node_in_degree i g = (degree_in g i, cache_degrees g)"

definition f64_sum_at :: "nat \<Rightarrow> f64 \<Rightarrow> f64 list \<Rightarrow> f64 list" where
  \<comment> \<open>\<open>next[t] += v\<close>\<close>
  "f64_sum_at t v xs = xs[t := f64_add (xs ! t) v]"

definition power_step :: "f64 \<Rightarrow> (nat \<times> nat) list \<Rightarrow> nat list \<Rightarrow> f64 list \<Rightarrow> f64 list" where
  \<comment> \<open>one round of the damped power iteration\<close>
  "power_step base es outdeg x =
     fold (\<lambda>(s, t) nxt. f64_sum_at t
             (f64_div (f64_mul (f64_rat 85 100) (x ! s)) (f64_of_nat (outdeg ! s))) nxt)
       es (replicate (length x) base)"

definition index_of :: "'a list \<Rightarrow> 'a \<Rightarrow> nat option" where
  "index_of xs x = (if x \<in> set xs then Some (length (takeWhile (\<lambda>y. y \<noteq> x) xs)) else None)"

definition eigencentrality :: "mem_graph \<Rightarrow> (node_id, f64) omap" where
  "eigencentrality g =
     (let ids = map fst (filter (\<lambda>(_, n). n_state n \<noteq> Orphan) (g_nodes g)); n = length ids in
        if n = 0 then []
        else let pairs = List.map_filter (\<lambda>e. case (index_of ids (e_source e), index_of ids (e_target e)) of
                     (Some s, Some t) \<Rightarrow> Some (s, t) | _ \<Rightarrow> None) (g_edges g);
                 outdeg = map (\<lambda>i. length (filter (\<lambda>(s, _). s = i) pairs)) [0..<n];
                 es = sort pairs;
                 base = f64_div (f64_sub (f64_rat 1 1) (f64_rat 85 100)) (f64_of_nat n);
                 x = (power_step base es outdeg ^^ 64) (replicate n (f64_div (f64_rat 1 1) (f64_of_nat n)));
                 top = fold (\<lambda>v m. f64_max m v) x (f64_zero False);
                 inv = (if f64_lt (f64_zero False) top then f64_div (f64_rat 1 1) top else f64_rat 1 1)
             in om_extend [] (zip ids (map (\<lambda>v. f64_mul v inv) x)))"

definition eigen_key :: "mem_graph \<Rightarrow> nat \<times> nat" where
  "eigen_key g = (length (g_nodes g), length (g_edges g))"

definition cached_eigen :: "mem_graph \<Rightarrow> (node_id, f64) omap" where
  "cached_eigen g = (case g_eigen g of
      Some (k, m) \<Rightarrow> if k = eigen_key g then m else eigencentrality g
    | None \<Rightarrow> eigencentrality g)"

definition node_eigencentrality :: "node_id \<Rightarrow> mem_graph \<Rightarrow> f64 \<times> mem_graph" where
  "node_eigencentrality i g =
     ((case map_of (cached_eigen g) i of Some v \<Rightarrow> v | None \<Rightarrow> f64_zero False),
      g\<lparr>g_eigen := Some (eigen_key g, cached_eigen g)\<rparr>)"

definition centrality_on :: "mem_graph \<Rightarrow> bool" where
  "centrality_on g \<longleftrightarrow> \<not> f64_eq (w_centrality (g_weights g)) (f64_zero False)"

definition centrality_signal :: "mem_env \<Rightarrow> graph_node \<Rightarrow> mem_graph \<Rightarrow> f64 \<times> mem_graph" where
  "centrality_signal env n g =
     (if centrality_on g
      then let (signal, g') = (case w_mode (g_weights g) of
                 InDegree \<Rightarrow> (let (d, g') = node_in_degree (n_id n) g
                              in (en_ln env (f64_add (f64_rat 1 1) (f64_of_nat d)), g'))
               | Eigenvector \<Rightarrow> node_eigencentrality (n_id n) g)
           in (f64_mul signal (w_centrality (g_weights g)), g')
      else (f64_zero False, g))"

definition state_bias :: "node_state \<Rightarrow> f64" where
  "state_bias st = (case st of Stable \<Rightarrow> f64_zero False | Working \<Rightarrow> f64_rat 3 10 | Orphan \<Rightarrow> f64_neg (f64_rat 1 1))"

definition unit_clamp :: "f64 \<Rightarrow> f64" where
  \<comment> \<open>\<open>x.clamp(0.0, 1.0)\<close>\<close>
  "unit_clamp x = f64_clamp x (f64_zero False) (f64_rat 1 1)"

definition distrust_of :: "scoring_weights \<Rightarrow> graph_node \<Rightarrow> f64" where
  "distrust_of w n =
     (if \<not> f64_eq (w_trust w) (f64_zero False)
      then f64_mul (f64_sub (f64_rat 1 1) (unit_clamp (n_trust n))) (w_trust w)
      else f64_zero False)"

definition compute_node_score :: "mem_env \<Rightarrow> graph_node \<Rightarrow> mem_graph \<Rightarrow> f64 \<times> mem_graph" where
  "compute_node_score env n g =
     (let w = g_weights g;
          base = f64_mul (n_base_importance n) (w_base w);
          failure = f64_mul (n_failure_relevance n) (w_failure w);
          recency = f64_mul (n_recency n) (w_recency w);
          access = f64_mul (en_ln env (f64_of_nat (unat (max (n_access_count n) 1)))) (w_access w);
          (centrality, g') = centrality_signal env n g
      in (unit_clamp (f64_sub (f64_add (f64_add (f64_add (f64_add (f64_add base failure) recency) access)
             centrality) (state_bias (n_state n))) (distrust_of w n)), g'))"

definition node_score :: "mem_env \<Rightarrow> mem_graph \<Rightarrow> graph_node \<Rightarrow> f64" where
  "node_score env g n = fst (compute_node_score env n g)"

fun score_all :: "mem_env \<Rightarrow> (node_id \<times> graph_node) list \<Rightarrow> mem_graph \<Rightarrow> (node_id \<times> f64) list \<times> mem_graph" where
  \<comment> \<open>\<open>iter().map(|(id, n)| (id, self.compute_node_score(n))).collect()\<close>\<close>
  "score_all env [] g = ([], g)"
| "score_all env ((i, n) # ns) g =
     (let (v, g1) = compute_node_score env n g; (vs, g2) = score_all env ns g1 in ((i, v) # vs, g2))"

definition coldest_cmp :: "node_id \<times> f64 \<Rightarrow> node_id \<times> f64 \<Rightarrow> cmp" where
  \<comment> \<open>lowest score first, ties by id\<close>
  "coldest_cmp a b = cmp_then (f64_cmp (snd a) (snd b)) (ord_cmp (fst a) (fst b))"

definition select_context_window :: "mem_env \<Rightarrow> nat \<Rightarrow> mem_graph \<Rightarrow> node_id list \<times> mem_graph" where
  \<comment> \<open>the heap pops in descending order of score, then id\<close>
  "select_context_window env max_tokens g =
     (let (scored, g') = score_all env (g_nodes g) g
      in (map fst (take (max (max_tokens div 128) 1) (sort_by (\<lambda>a b. coldest_cmp b a) scored)), g'))"

subsection \<open>Nodes and edges\<close>

definition edge_key :: "graph_edge \<Rightarrow> edge_key" where
  "edge_key e = (e_source e, e_target e, e_type e)"

definition tick :: "mem_graph \<Rightarrow> mem_graph" where
  "tick g = g\<lparr>g_clock := g_clock g + 1,
     g_nodes := map (\<lambda>(i, n). (i, let r = f64_mul (n_recency n) (f64_rat 95 100)
        in n\<lparr>n_recency := if f64_lt r (f64_rat 1 100) then f64_rat 1 100 else r\<rparr>)) (g_nodes g)\<rparr>"

definition add_edge :: "node_id \<Rightarrow> node_id \<Rightarrow> f64 \<Rightarrow> edge_type \<Rightarrow> mem_graph \<Rightarrow> bool \<times> mem_graph" where
  "add_edge src tgt weight ty g =
     (if \<not> resident g src \<or> \<not> resident g tgt then (False, g)
      else let g1 = (if length (g_edge_set g) \<noteq> length (g_edges g)
                     then g\<lparr>g_edge_set := remdups (map edge_key (g_edges g))\<rparr> else g)
        in if (src, tgt, ty) \<in> set (g_edge_set g1) then (False, g1)
           else (True, g1\<lparr>g_edge_set := (src, tgt, ty) # g_edge_set g1,
              g_edges := g_edges g1 @ [\<lparr>e_source = src, e_target = tgt, e_weight = weight, e_type = ty,
                                         e_created_at = g_clock g1\<rparr>]\<rparr>))"

definition set_failure_relevance :: "node_id \<Rightarrow> f64 \<Rightarrow> mem_graph \<Rightarrow> mem_graph" where
  "set_failure_relevance i relevance g =
     g\<lparr>g_nodes := om_update i (\<lambda>n. n\<lparr>n_failure_relevance := unit_clamp relevance, n_recency := f64_rat 1 1,
         n_last_accessed := g_clock g\<rparr>) (g_nodes g)\<rparr>"

definition node_trust :: "mem_graph \<Rightarrow> node_id \<Rightarrow> f64" where
  "node_trust g i = (case map_of (g_nodes g) i of Some n \<Rightarrow> n_trust n | None \<Rightarrow> f64_rat 1 1)"

definition set_trust :: "node_id \<Rightarrow> f64 \<Rightarrow> mem_graph \<Rightarrow> mem_graph" where
  "set_trust i trust g = g\<lparr>g_nodes := om_update i (\<lambda>n. n\<lparr>n_trust := unit_clamp trust\<rparr>) (g_nodes g)\<rparr>"

definition of_file :: "string \<Rightarrow> node_id \<Rightarrow> bool" where
  "of_file file_path i \<longleftrightarrow> i = ''file:'' @ file_path
     \<or> starts_with i (''mod:'' @ file_path @ '':'')
     \<or> starts_with i (''use:'' @ file_path @ '':'')
     \<or> starts_with i (''sym:'' @ file_path @ '':'')"

definition stamp_file_trust :: "string \<Rightarrow> f64 \<Rightarrow> mem_graph \<Rightarrow> mem_graph" where
  "stamp_file_trust file_path trust g =
     g\<lparr>g_nodes := map (\<lambda>(i, n). (i, if of_file file_path i then n\<lparr>n_trust := unit_clamp trust\<rparr> else n)) (g_nodes g)\<rparr>"

definition touch :: "node_id \<Rightarrow> mem_graph \<Rightarrow> bool \<times> mem_graph" where
  "touch i g =
     (if resident g i
      then (True, g\<lparr>g_nodes := om_update i (\<lambda>n. n\<lparr>n_recency := f64_rat 1 1, n_last_accessed := g_clock g,
               n_access_count := (if n_access_count n = - 1 then - 1 else n_access_count n + 1)\<rparr>) (g_nodes g)\<rparr>)
      else (False, g))"

definition set_node_state :: "node_id \<Rightarrow> node_state \<Rightarrow> mem_graph \<Rightarrow> mem_graph" where
  "set_node_state i st g =
     (let changed = (case map_of (g_nodes g) i of Some n \<Rightarrow> n_state n \<noteq> st | None \<Rightarrow> False);
          g1 = g\<lparr>g_nodes := om_update i (\<lambda>n. n\<lparr>n_state := st\<rparr>) (g_nodes g)\<rparr>
      in if changed then g1\<lparr>g_indegree := None, g_eigen := None\<rparr> else g1)"

definition prune_dangling_edges :: "mem_graph \<Rightarrow> nat \<times> mem_graph" where
  "prune_dangling_edges g =
     (let g' = g\<lparr>g_edges := filter (\<lambda>e. resident g (e_source e) \<and> resident g (e_target e)) (g_edges g)\<rparr>
      in (length (g_edges g) - length (g_edges g'), g'))"

subsection \<open>Trust\<close>

definition carries_trust :: "edge_type \<Rightarrow> bool" where
  "carries_trust ty \<longleftrightarrow> ty = Calls \<or> ty = DependsOn \<or> ty = DataFlow"

definition pair_cmp :: "node_id \<times> node_id \<times> f64 \<Rightarrow> node_id \<times> node_id \<times> f64 \<Rightarrow> cmp" where
  "pair_cmp a b = cmp_then (ord_cmp (fst a) (fst b)) (ord_cmp (fst (snd a)) (fst (snd b)))"

definition inherited_trust :: "f64 \<Rightarrow> f64 \<Rightarrow> f64 \<Rightarrow> f64" where
  "inherited_trust dep_trust weight damping =
     f64_sub (f64_rat 1 1) (f64_mul (f64_mul (f64_sub (f64_rat 1 1) dep_trust) weight) damping)"

definition trust_update :: "mem_graph \<Rightarrow> f64 \<Rightarrow> node_id \<times> node_id \<times> f64 \<Rightarrow> (node_id, f64) omap \<Rightarrow> (node_id, f64) omap" where
  "trust_update g damping = (\<lambda>(dependent, dependency, weight) updates.
     (let dep_trust = node_trust g dependency in
        if f64_lt dep_trust (f64_rat 1 1)
        then let inherited = inherited_trust dep_trust weight damping;
                 entry = (case map_of updates dependent of Some v \<Rightarrow> v | None \<Rightarrow> node_trust g dependent)
             in om_insert dependent (if f64_lt inherited entry then inherited else entry) updates
        else updates))"

definition apply_trust :: "node_id \<times> f64 \<Rightarrow> nat \<times> mem_graph \<Rightarrow> nat \<times> mem_graph" where
  "apply_trust = (\<lambda>(i, t) (changed, g).
     (case map_of (g_nodes g) i of
        Some n \<Rightarrow> if f64_lt t (n_trust n)
          then (changed + 1, g\<lparr>g_nodes := om_update i (\<lambda>n. n\<lparr>n_trust := unit_clamp t\<rparr>) (g_nodes g)\<rparr>)
          else (changed, g)
      | None \<Rightarrow> (changed, g)))"

definition propagate_trust :: "f64 \<Rightarrow> mem_graph \<Rightarrow> nat \<times> mem_graph" where
  "propagate_trust damping0 g =
     (let damping = unit_clamp damping0;
          es = sort_by pair_cmp (map (\<lambda>e. (e_source e, e_target e, e_weight e))
                 (filter (\<lambda>e. carries_trust (e_type e)) (g_edges g)));
          updates = fold (trust_update g damping) es []
      in fold apply_trust updates (0, g))"

subsection \<open>Failure pressure\<close>

definition damp_of :: "mem_graph \<Rightarrow> nat \<Rightarrow> f64" where
  "damp_of g n =
     (let fanout = f64_max (failure_fanout (g_weights g)) (f64_rat 1 1)
      in f64_min (f64_div fanout (f64_max (f64_of_nat n) fanout)) (f64_rat 1 1))"

definition pressure_of :: "mem_graph \<Rightarrow> node_id \<Rightarrow> f64" where
  "pressure_of g i = (case map_of (g_nodes g) i of Some n \<Rightarrow> n_failure_relevance n | None \<Rightarrow> f64_zero False)"

definition add_pressure :: "node_id \<Rightarrow> f64 \<Rightarrow> mem_graph \<Rightarrow> mem_graph" where
  "add_pressure i p g =
     g\<lparr>g_nodes := om_update i (\<lambda>n. n\<lparr>n_failure_relevance := unit_clamp (f64_add (n_failure_relevance n) p),
         n_recency := f64_rat 1 1, n_last_accessed := g_clock g\<rparr>) (g_nodes g)\<rparr>"

definition hop_pressure :: "mem_env \<Rightarrow> mem_graph \<Rightarrow> nat \<Rightarrow> f64 \<Rightarrow> f64 \<Rightarrow> f64 \<Rightarrow> f64" where
  "hop_pressure env g depth base damp weight =
     f64_mul (f64_mul (f64_mul base weight) (en_powi env (failure_decay (g_weights g)) depth)) damp"

text \<open>The recursion of the code runs while \<open>depth \<le> max_depth\<close>; the first argument counts the
  levels that are left, so the two functions below are total.\<close>

fun pf_node :: "mem_env \<Rightarrow> nat \<Rightarrow> nat \<Rightarrow> node_id \<Rightarrow> mem_graph \<Rightarrow> mem_graph"
  and pf_targets :: "mem_env \<Rightarrow> nat \<Rightarrow> nat \<Rightarrow> f64 \<Rightarrow> f64 \<Rightarrow> (node_id \<times> f64) list \<Rightarrow> mem_graph \<Rightarrow> mem_graph" where
  "pf_node env 0 depth origin g = g"
| "pf_node env (Suc k) depth origin g =
     (let targets = map (\<lambda>e. (e_target e, e_weight e)) (filter (\<lambda>e. e_source e = origin) (g_edges g))
      in pf_targets env k depth (pressure_of g origin) (damp_of g (length targets)) targets g)"
| "pf_targets env k depth base damp [] g = g"
| "pf_targets env k depth base damp ((t, weight) # ts) g =
     (let p = hop_pressure env g depth base damp weight;
          g1 = add_pressure t p g;
          g2 = (if f64_lt (g_threshold g) p then pf_node env k (depth + 1) t g1 else g1)
      in pf_targets env k depth base damp ts g2)"

definition propagate_failure :: "mem_env \<Rightarrow> node_id \<Rightarrow> nat \<Rightarrow> nat \<Rightarrow> mem_graph \<Rightarrow> mem_graph" where
  "propagate_failure env origin depth max_depth g = pf_node env (Suc max_depth - depth) depth origin g"

definition both_ways :: "node_id \<Rightarrow> graph_edge list \<Rightarrow> (node_id \<times> f64) list" where
  "both_ways i es = List.map_filter (\<lambda>e.
     if e_source e = i then Some (e_target e, e_weight e)
     else if e_target e = i then Some (e_source e, e_weight e) else None) es"

fun pb_node :: "mem_env \<Rightarrow> nat \<Rightarrow> nat \<Rightarrow> node_id \<Rightarrow> mem_graph \<Rightarrow> mem_graph"
  and pb_targets :: "mem_env \<Rightarrow> nat \<Rightarrow> nat \<Rightarrow> f64 \<Rightarrow> f64 \<Rightarrow> (node_id \<times> f64) list \<Rightarrow> mem_graph \<Rightarrow> mem_graph" where
  "pb_node env 0 depth origin g = g"
| "pb_node env (Suc k) depth origin g =
     (let nbs = both_ways origin (g_edges g)
      in pb_targets env k depth (pressure_of g origin) (damp_of g (length nbs)) nbs g)"
| "pb_targets env k depth base damp [] g = g"
| "pb_targets env k depth base damp ((nb, weight) # ts) g =
     (let p = hop_pressure env g depth base damp weight;
          g1 = add_pressure nb p g;
          grew = resident g nb
            \<and> f64_lt (f64_add (pressure_of g nb) (f64_rat 1 1000000000)) (pressure_of g1 nb);
          g2 = (if grew \<and> f64_lt (g_threshold g) p then pb_node env k (depth + 1) nb g1 else g1)
      in pb_targets env k depth base damp ts g2)"

definition propagate_failure_bidirectional :: "mem_env \<Rightarrow> node_id \<Rightarrow> nat \<Rightarrow> nat \<Rightarrow> mem_graph \<Rightarrow> mem_graph" where
  "propagate_failure_bidirectional env origin depth max_depth g = pb_node env (Suc max_depth - depth) depth origin g"

end
