(* ===== verification/Paging.thy ===== *)
theory Paging
  imports MemGraph
begin

text \<open>
  Paging in \<open>src/memory.rs\<close>: demotion into the cold tier, the spill of cold content to the
  content-addressed store, deep spill of whole entries into the husk index, lossy compaction,
  page-in, and the operations that trigger them. Each takes and returns the whole graph state,
  disk included; an attached store works on that disk.
\<close>

subsection \<open>The stores behind the graph\<close>

definition with_husks :: "(store \<Rightarrow> 'a \<times> store) \<Rightarrow> 'a \<Rightarrow> mem_graph \<Rightarrow> 'a \<times> mem_graph" where
  \<comment> \<open>run an operation of the husk index, or give \<open>z\<close> without one\<close>
  "with_husks f z g = (case g_husks g of
      None \<Rightarrow> (z, g)
    | Some hs \<Rightarrow> (let (r, hs', d') = f (hs, g_disk g) in (r, g\<lparr>g_husks := Some hs', g_disk := d'\<rparr>)))"

definition with_radj :: "(store \<Rightarrow> store) \<Rightarrow> mem_graph \<Rightarrow> mem_graph" where
  "with_radj f g = (case g_radj g of
      None \<Rightarrow> g
    | Some hs \<Rightarrow> (let (hs', d') = f (hs, g_disk g) in g\<lparr>g_radj := Some hs', g_disk := d'\<rparr>))"

definition graph_radj_add :: "node_id \<Rightarrow> node_id \<Rightarrow> mem_graph \<Rightarrow> mem_graph" where
  "graph_radj_add a b = with_radj (radj_add_edge a b)"

definition graph_radj_del :: "node_id \<Rightarrow> node_id \<Rightarrow> mem_graph \<Rightarrow> mem_graph" where
  "graph_radj_del a b = with_radj (radj_del_edge a b)"

definition spill_fetch :: "mem_env \<Rightarrow> bytes \<Rightarrow> mem_graph \<Rightarrow> string option" where
  \<comment> \<open>\<open>self.spill.as_ref().and_then(|cfg| cfg.store.get(&hash))\<close>\<close>
  "spill_fetch env h g = (case g_spill g of
      None \<Rightarrow> None | Some (dir, _) \<Rightarrow> spill_get (en_sha env) h (dir, g_disk g))"

definition spill_store :: "mem_env \<Rightarrow> string \<Rightarrow> mem_graph \<Rightarrow> bytes option \<times> mem_graph" where
  \<comment> \<open>\<open>self.spill.as_ref().and_then(|cfg| cfg.store.put(&content).ok())\<close>\<close>
  "spill_store env content g = (case g_spill g of
      None \<Rightarrow> (None, g)
    | Some (dir, _) \<Rightarrow> (case spill_put (en_sha env) content (dir, g_disk g) of
          (Inl _, (_, d)) \<Rightarrow> (None, g\<lparr>g_disk := d\<rparr>)
        | (Inr h, (_, d)) \<Rightarrow> (Some h, g\<lparr>g_disk := d\<rparr>)))"

definition spill_delete :: "bytes \<Rightarrow> mem_graph \<Rightarrow> mem_graph" where
  "spill_delete h g = (case g_spill g of
      None \<Rightarrow> g | Some (dir, _) \<Rightarrow> g\<lparr>g_disk := snd (spill_remove h (dir, g_disk g))\<rparr>)"

definition deep_get :: "mem_env \<Rightarrow> node_id \<Rightarrow> mem_graph \<Rightarrow> deep_husk option \<times> mem_graph" where
  "deep_get env i g =
     (case with_husks (hs_get i) (Inr None) g of
        (Inr (Some b), g') \<Rightarrow> (en_husk_parse env b, g')
      | (_, g') \<Rightarrow> (None, g'))"

definition deep_contains :: "node_id \<Rightarrow> mem_graph \<Rightarrow> bool \<times> mem_graph" where
  "deep_contains i g =
     (case with_husks (hs_get i) (Inr None) g of
        (Inr (Some b), g') \<Rightarrow> (True, g')
      | (_, g') \<Rightarrow> (False, g'))"

definition deep_live :: "mem_graph \<Rightarrow> (string \<times> bytes) list" where
  \<comment> \<open>\<open>hs.live_entries().unwrap_or_default()\<close>\<close>
  "deep_live g = (case g_husks g of
      None \<Rightarrow> []
    | Some hs \<Rightarrow> (case hs_live_entries (hs, g_disk g) of Inl _ \<Rightarrow> [] | Inr es \<Rightarrow> es))"

definition deep_live_keys :: "mem_graph \<Rightarrow> node_id list" where
  "deep_live_keys g = map fst (deep_live g)"

definition deep_entries :: "mem_env \<Rightarrow> mem_graph \<Rightarrow> (node_id \<times> deep_husk) list" where
  "deep_entries env g = List.map_filter (\<lambda>(k, b). map_option (Pair k) (en_husk_parse env b)) (deep_live g)"

definition deep_count :: "mem_graph \<Rightarrow> nat" where
  "deep_count g = length (deep_live g)"

definition cold_count :: "mem_graph \<Rightarrow> nat" where
  "cold_count g = length (g_cold g) + deep_count g"

definition is_cold :: "node_id \<Rightarrow> mem_graph \<Rightarrow> bool \<times> mem_graph" where
  "is_cold i g = (if om_contains (g_cold g) i then (True, g) else deep_contains i g)"

definition cold_ids :: "mem_graph \<Rightarrow> node_id list" where
  "cold_ids g = remdups_adj (sort (map fst (g_cold g) @ deep_live_keys g))"

definition other_end :: "node_id \<Rightarrow> graph_edge \<Rightarrow> node_id" where
  "other_end i e = (if e_source e = i then e_target e else e_source e)"

fun keep_cold :: "node_id \<Rightarrow> node_id list \<Rightarrow> mem_graph \<Rightarrow> node_id list \<times> mem_graph" where
  \<comment> \<open>the neighbours that are themselves still cold\<close>
  "keep_cold i [] g = ([], g)"
| "keep_cold i (j # js) g =
     (let (cold, g1) = (if j = i then (False, g) else is_cold j g);
          (out, g2) = keep_cold i js g1
      in (if cold then j # out else out, g2))"

definition cold_neighbours :: "node_id \<Rightarrow> mem_graph \<Rightarrow> node_id list \<times> mem_graph" where
  "cold_neighbours i g =
     (case g_radj g of
        Some hs \<Rightarrow>
          (let (out, g') = keep_cold i (radj_others i (hs, g_disk g)) g
           in (remdups_adj (sort out), g'))
      | None \<Rightarrow>
          (let ends = concat (map (\<lambda>(_, c). map (other_end i)
                 (filter (\<lambda>e. e_source e = i \<or> e_target e = i) (cn_edges c))) (g_cold g))
           in (remdups_adj (sort (filter (\<lambda>j. j \<noteq> i \<and> om_contains (g_cold g) j) ends)), g)))"

subsection \<open>Accounting\<close>

definition cold_inline_bytes :: "mem_graph \<Rightarrow> nat" where
  "cold_inline_bytes g = sum_list (map (\<lambda>(_, c). length (n_content (cn_node c)))
     (filter (\<lambda>(_, c). cn_spill c = None) (g_cold g)))"

definition cold_spilled_count :: "mem_graph \<Rightarrow> nat" where
  "cold_spilled_count g = length (filter (\<lambda>(_, c). cn_spill c \<noteq> None) (g_cold g))"

definition is_spilled :: "node_id \<Rightarrow> mem_graph \<Rightarrow> bool" where
  "is_spilled i g = (case map_of (g_cold g) i of Some c \<Rightarrow> cn_spill c \<noteq> None | None \<Rightarrow> False)"

definition cold_spilled_bytes :: "mem_graph \<Rightarrow> nat" where
  "cold_spilled_bytes g = sum_list (List.map_filter (\<lambda>(_, c). map_option snd (cn_spill c)) (g_cold g))"

definition entry_resident_bytes :: "mem_env \<Rightarrow> node_id \<Rightarrow> cold_node \<Rightarrow> nat" where
  "entry_resident_bytes env key c =
     en_size_cold env + en_size_id env
     + (length key + length (n_id (cn_node c)) + length (n_label (cn_node c)) + length (n_content (cn_node c)))
     + sum_list (map (\<lambda>e. en_size_edge env + length (e_source e) + length (e_target e)) (cn_edges c))"

definition cold_resident_bytes :: "mem_env \<Rightarrow> mem_graph \<Rightarrow> nat" where
  "cold_resident_bytes env g =
     sum_list (map (\<lambda>(k, c). entry_resident_bytes env k c) (g_cold g))
     + (case g_husks g of None \<Rightarrow> 0 | Some hs \<Rightarrow> hs_resident_bytes hs)"

definition cold_compacted_count :: "mem_graph \<Rightarrow> nat" where
  "cold_compacted_count g = length (filter (\<lambda>(_, c). cn_compacted c) (g_cold g))"

definition is_compacted :: "node_id \<Rightarrow> mem_graph \<Rightarrow> bool" where
  "is_compacted i g = (case map_of (g_cold g) i of Some c \<Rightarrow> cn_compacted c | None \<Rightarrow> False)"

definition is_at_floor :: "node_id \<Rightarrow> mem_graph \<Rightarrow> bool" where
  "is_at_floor i g = (case map_of (g_cold g) i of Some c \<Rightarrow> cn_at_floor c | None \<Rightarrow> False)"

subsection \<open>Reclaiming blobs\<close>

definition content_referenced :: "bytes \<Rightarrow> mem_graph \<Rightarrow> bool" where
  "content_referenced h g = list_ex (\<lambda>(_, c). map_option fst (cn_spill c) = Some h) (g_cold g)"

definition release_content_blob_if_orphan :: "bytes \<Rightarrow> mem_graph \<Rightarrow> mem_graph" where
  "release_content_blob_if_orphan h g = (if content_referenced h g then g else spill_delete h g)"

definition release_blob_if_orphan :: "mem_env \<Rightarrow> bytes \<Rightarrow> mem_graph \<Rightarrow> mem_graph" where
  "release_blob_if_orphan env h g =
     (if g_spill g = None then g
      else if content_referenced h g \<or> list_ex (\<lambda>(_, hk). fst (dh_body hk) = h) (deep_entries env g)
      then g else spill_delete h g)"

definition forget_cold_shadow :: "mem_env \<Rightarrow> node_id \<Rightarrow> mem_graph \<Rightarrow> mem_graph" where
  "forget_cold_shadow env i g =
     (let (others1, g1) = (case map_of (g_cold g) i of
            Some old \<Rightarrow>
              (let ga = g\<lparr>g_cold := om_remove i (g_cold g)\<rparr>;
                   gb = (case cn_spill old of Some (h, _) \<Rightarrow> release_content_blob_if_orphan h ga | None \<Rightarrow> ga)
               in (map (other_end i) (cn_edges old), gb))
          | None \<Rightarrow> ([], g));
          (husk, g2) = deep_get env i g1;
          (others2, g3) = (case husk of
            Some hk \<Rightarrow>
              (let (_, ga) = with_husks (hs_delete i) (Inr ()) g2
               in (unpack_adj (dh_adj hk), release_blob_if_orphan env (fst (dh_body hk)) ga))
          | None \<Rightarrow> ([], g2))
      in fold (graph_radj_del i) (others1 @ others2) g3)"

subsection \<open>Budgets\<close>

fun spill_loop :: "mem_env \<Rightarrow> nat \<Rightarrow> node_id list \<Rightarrow> nat \<Rightarrow> mem_graph \<Rightarrow> mem_graph" where
  "spill_loop env budget [] res g = g"
| "spill_loop env budget (i # ids) res g =
     (if res \<le> budget then g
      else case map_of (g_cold g) i of
        None \<Rightarrow> spill_loop env budget ids res g
      | Some c \<Rightarrow>
          if cn_spill c \<noteq> None then spill_loop env budget ids res g
          else (case spill_store env (n_content (cn_node c)) g of
            (None, g1) \<Rightarrow> spill_loop env budget ids res g1
          | (Some h, g1) \<Rightarrow>
              (let len = length (n_content (cn_node c));
                   g2 = g1\<lparr>g_cold := om_update i (\<lambda>c. c\<lparr>cn_node := (cn_node c)\<lparr>n_content := []\<rparr>,
                              cn_spill := Some (h, len)\<rparr>) (g_cold g1)\<rparr>
               in spill_loop env budget ids (res - len) g2)))"

definition coldest_first :: "mem_env \<Rightarrow> (node_id \<times> cold_node) list \<Rightarrow> mem_graph \<Rightarrow> node_id list \<times> mem_graph" where
  "coldest_first env es g =
     (let (scored, g') = score_all env (map (\<lambda>(i, c). (i, cn_node c)) es) g
      in (map fst (sort_by coldest_cmp scored), g'))"

definition enforce_cold_budget :: "mem_env \<Rightarrow> mem_graph \<Rightarrow> mem_graph" where
  "enforce_cold_budget env g =
     (case g_spill g of
        None \<Rightarrow> g
      | Some (_, budget) \<Rightarrow>
          (let res = cold_inline_bytes g in
             if res \<le> budget then g
             else let (cands, g1) = coldest_first env
                    (filter (\<lambda>(_, c). cn_spill c = None \<and> n_content (cn_node c) \<noteq> []) (g_cold g)) g
                  in spill_loop env budget cands res g1))"

definition husk_adj :: "cold_node \<Rightarrow> node_id list" where
  "husk_adj c = remdups_adj (sort (filter (\<lambda>j. j \<noteq> n_id (cn_node c))
     (map (other_end (n_id (cn_node c))) (cn_edges c))))"

definition projected_bytes :: "mem_env \<Rightarrow> node_id list \<Rightarrow> nat" where
  "projected_bytes env adj =
     en_size_husk env + en_size_id env + sum_list (map (\<lambda>j. en_size_id env + length j) adj)"

definition fold_inline :: "mem_env \<Rightarrow> cold_node \<Rightarrow> mem_graph \<Rightarrow> cold_node option" where
  \<comment> \<open>the entry with any spilled content faulted back, for a body blob of its own\<close>
  "fold_inline env c g = (case cn_spill c of
      None \<Rightarrow> Some c
    | Some (h, _) \<Rightarrow> map_option (\<lambda>text. c\<lparr>cn_node := (cn_node c)\<lparr>n_content := text\<rparr>, cn_spill := None\<rparr>)
                      (spill_fetch env h g))"

definition deep_spill :: "mem_env \<Rightarrow> node_id \<Rightarrow> cold_node \<Rightarrow> mem_graph \<Rightarrow> bool \<times> mem_graph" where
  \<comment> \<open>the body of the candidate loop: whether the entry now lives in the husk index only\<close>
  "deep_spill env i c g =
     (let adj = husk_adj c in
        if entry_resident_bytes env i c \<le> projected_bytes env adj then (False, g)
        else case fold_inline env c g of
          None \<Rightarrow> (False, g)
        | Some entry \<Rightarrow>
            (case en_cold_json env entry of
               None \<Rightarrow> (False, g)
             | Some serialized \<Rightarrow>
                 (case spill_store env serialized g of
                    (None, g1) \<Rightarrow> (False, g1)
                  | (Some body, g1) \<Rightarrow>
                      (case en_husk_json env \<lparr>dh_body = (body, length serialized), dh_adj = pack_adj adj\<rparr> of
                         None \<Rightarrow> (False, g1)
                       | Some bytes \<Rightarrow>
                           (case with_husks (hs_put i bytes) (Inl NotFound) g1 of
                              (Inl _, g2) \<Rightarrow> (False, g2)
                            | (Inr _, g2) \<Rightarrow>
                                (let g3 = g2\<lparr>g_cold := om_remove i (g_cold g2)\<rparr>
                                 in (True, case cn_spill c of
                                       Some (h, _) \<Rightarrow> release_content_blob_if_orphan h g3
                                     | None \<Rightarrow> g3)))))))"

fun deep_loop :: "mem_env \<Rightarrow> nat \<Rightarrow> node_id list \<Rightarrow> nat \<Rightarrow> mem_graph \<Rightarrow> mem_graph" where
  "deep_loop env budget [] res g = g"
| "deep_loop env budget (i # ids) res g =
     (if res \<le> budget then g
      else case map_of (g_cold g) i of
        None \<Rightarrow> deep_loop env budget ids res g
      | Some c \<Rightarrow>
          (let (gone, g1) = deep_spill env i c g
           in deep_loop env budget ids (if gone then res - entry_resident_bytes env i c else res) g1))"

definition enforce_cold_resident_budget :: "mem_env \<Rightarrow> mem_graph \<Rightarrow> mem_graph" where
  "enforce_cold_resident_budget env g =
     (case g_resident_budget g of
        None \<Rightarrow> g
      | Some budget \<Rightarrow>
          if g_spill g = None then g
          else let res = cold_resident_bytes env g in
            if res \<le> budget then g
            else let (cands, g1) = coldest_first env (g_cold g) g
                 in deep_loop env budget cands res g1)"

definition node_type_debug :: "node_type \<Rightarrow> string" where
  \<comment> \<open>\<open>format!("{:?}", node_type)\<close>\<close>
  "node_type_debug ty = (case ty of Module \<Rightarrow> ''Module'' | Symbol \<Rightarrow> ''Symbol'' | ContextBlock \<Rightarrow> ''ContextBlock''
     | AnalysisResult \<Rightarrow> ''AnalysisResult'' | CodeRegion \<Rightarrow> ''CodeRegion'' | UnknownType \<Rightarrow> ''Unknown'')"

fun compact_loop :: "mem_env \<Rightarrow> nat \<Rightarrow> node_id list \<Rightarrow> nat \<Rightarrow> mem_graph \<Rightarrow> mem_graph" where
  "compact_loop env budget [] tot g = g"
| "compact_loop env budget (i # ids) tot g =
     (if tot \<le> budget then g
      else case map_of (g_cold g) i of
        None \<Rightarrow> compact_loop env budget ids tot g
      | Some c \<Rightarrow>
          if cn_compacted c then compact_loop env budget ids tot g
          else (case (case cn_spill c of
                        Some (h, len) \<Rightarrow> map_option (\<lambda>text. (text, len, Some h)) (spill_fetch env h g)
                      | None \<Rightarrow> Some (n_content (cn_node c), length (n_content (cn_node c)), None)) of
            None \<Rightarrow> compact_loop env budget ids tot g
          | Some (content, old_len, old_hash) \<Rightarrow>
              (let compact = en_compact env (node_type_debug (n_type (cn_node c))) content in
                 if length content \<le> length compact
                 then compact_loop env budget ids tot
                        (g\<lparr>g_cold := om_update i (\<lambda>c. c\<lparr>cn_at_floor := True\<rparr>) (g_cold g)\<rparr>)
                 else let g1 = g\<lparr>g_cold := om_update i (\<lambda>c. c\<lparr>cn_node := (cn_node c)\<lparr>n_content := compact\<rparr>,
                                   cn_spill := None, cn_compacted := True\<rparr>) (g_cold g)\<rparr>;
                          g2 = (case old_hash of Some h \<Rightarrow> release_content_blob_if_orphan h g1 | None \<Rightarrow> g1)
                      in compact_loop env budget ids (tot - old_len + length compact) g2)))"

definition enforce_cold_content_budget :: "mem_env \<Rightarrow> mem_graph \<Rightarrow> mem_graph" where
  "enforce_cold_content_budget env g =
     (case g_content_budget g of
        None \<Rightarrow> g
      | Some budget \<Rightarrow>
          (let tot = cold_inline_bytes g + cold_spilled_bytes g in
             if tot \<le> budget then g
             else let (cands, g1) = coldest_first env
                    (filter (\<lambda>(_, c). \<not> cn_compacted c \<and> \<not> cn_at_floor c) (g_cold g)) g
                  in compact_loop env budget cands tot g1))"

definition enforce_budgets :: "mem_env \<Rightarrow> mem_graph \<Rightarrow> mem_graph" where
  \<comment> \<open>the tail that \<open>enforce_paging\<close> and \<open>page_in\<close> share\<close>
  "enforce_budgets env g =
     enforce_cold_resident_budget env (enforce_cold_budget env (enforce_cold_content_budget env g))"

definition set_cold_content_budget :: "mem_env \<Rightarrow> nat option \<Rightarrow> mem_graph \<Rightarrow> mem_graph" where
  "set_cold_content_budget env budget g = enforce_cold_content_budget env (g\<lparr>g_content_budget := budget\<rparr>)"

definition set_cold_resident_budget :: "mem_env \<Rightarrow> nat option \<Rightarrow> mem_graph \<Rightarrow> mem_graph" where
  "set_cold_resident_budget env budget g = enforce_cold_resident_budget env (g\<lparr>g_resident_budget := budget\<rparr>)"

subsection \<open>Demotion and paging\<close>

definition incident :: "node_id \<Rightarrow> graph_edge \<Rightarrow> bool" where
  "incident i e \<longleftrightarrow> e_source e = i \<or> e_target e = i"

definition demote :: "node_id \<Rightarrow> mem_graph \<Rightarrow> mem_graph" where
  "demote i g = (case map_of (g_nodes g) i of
      None \<Rightarrow> g
    | Some n \<Rightarrow>
        (let arch = filter (incident i) (g_edges g);
             g1 = g\<lparr>g_nodes := om_remove i (g_nodes g),
                    g_edges := filter (\<lambda>e. \<not> incident i e) (g_edges g),
                    g_cold := om_insert i \<lparr>cn_node = n, cn_edges = arch, cn_spill = None,
                                           cn_compacted = False, cn_at_floor = False\<rparr> (g_cold g)\<rparr>
         in fold (graph_radj_add i) (map (other_end i) arch) g1))"

definition recency_order :: "mem_graph \<Rightarrow> node_id list" where
  "recency_order g = map fst (sort_by (\<lambda>a b. cmp_then (f64_cmp (snd b) (snd a)) (ord_cmp (fst a) (fst b)))
     (map (\<lambda>(i, n). (i, n_recency n)) (g_nodes g)))"

definition recency_rank :: "mem_graph \<Rightarrow> node_id \<Rightarrow> nat" where
  "recency_rank g i = length (takeWhile (\<lambda>j. j \<noteq> i) (recency_order g))"

definition paging_state_of :: "mem_graph \<Rightarrow> graph_node \<Rightarrow> node_id \<Rightarrow> f64 \<Rightarrow> paging_state" where
  "paging_state_of g n i base = PagingState (bucket_score base)
     (bucket_recency (recency_rank g i) (length (g_nodes g)))
     (bucket_pressure (n_failure_relevance n)) (bucket_size ((length (n_content n) + length (n_label n)) div 4))"

definition eviction_priority :: "mem_graph \<Rightarrow> node_id \<times> f64 \<Rightarrow> f64" where
  "eviction_priority g = (\<lambda>(i, base).
     f64_add base
       (if is_trained (g_policy g)
        then let st = paging_state_of g (the (map_of (g_nodes g) i)) i base
             in f64_sub (q_value (g_policy g) st KEEP) (q_value (g_policy g) st EVICT)
        else f64_zero False))"

definition evictions :: "mem_env \<Rightarrow> mem_graph \<Rightarrow> node_id list \<times> mem_graph" where
  "evictions env g =
     (let (scored, g') = score_all env (g_nodes g) g;
          entries = sort_by coldest_cmp (map (\<lambda>e. (fst e, eviction_priority g e)) scored)
      in (map fst (take (length (g_nodes g) - g_max g) entries), g'))"

definition enforce_paging :: "mem_env \<Rightarrow> mem_graph \<Rightarrow> mem_graph" where
  "enforce_paging env g =
     (if length (g_nodes g) \<le> g_max g then g
      else let (victims, g1) = evictions env g;
               g2 = fold demote victims g1
           in enforce_budgets env (snd (prune_dangling_edges g2)))"

definition upsert_node :: "mem_env \<Rightarrow> node_id \<Rightarrow> string \<Rightarrow> string \<Rightarrow> node_type \<Rightarrow> mem_graph \<Rightarrow> mem_graph" where
  "upsert_node env i label content ty g0 =
     (let now = g_clock g0;
          g = forget_cold_shadow env i g0;
          n = (case map_of (g_nodes g) i of
                 Some n \<Rightarrow> n\<lparr>n_label := label, n_content := content, n_type := ty, n_recency := f64_rat 1 1,
                             n_last_accessed := now, n_access_count := n_access_count n + 1\<rparr>
               | None \<Rightarrow> \<lparr>n_id = i, n_label = label, n_content = content, n_type = ty,
                         n_base_importance = f64_rat 5 10, n_failure_relevance = f64_zero False,
                         n_recency = f64_rat 1 1, n_access_count = 1, n_created_at = now, n_last_accessed = now,
                         n_state = Stable, n_trust = f64_rat 1 1\<rparr>)
      in enforce_paging env (g\<lparr>g_nodes := om_insert i n (g_nodes g)\<rparr>))"

definition remove_node :: "mem_env \<Rightarrow> node_id \<Rightarrow> mem_graph \<Rightarrow> mem_graph" where
  "remove_node env i g =
     (let g1 = forget_cold_shadow env i (g\<lparr>g_nodes := om_remove i (g_nodes g)\<rparr>)
      in g1\<lparr>g_edges := filter (\<lambda>e. \<not> incident i e) (g_edges g1)\<rparr>)"

definition fault_husk :: "mem_env \<Rightarrow> node_id \<Rightarrow> mem_graph \<Rightarrow> bool \<times> mem_graph" where
  \<comment> \<open>first part of \<open>page_in\<close>: a deep husk becomes a full cold entry; \<open>False\<close> is a cold miss\<close>
  "fault_husk env i g =
     (case deep_get env i g of
        (None, g1) \<Rightarrow> (True, g1)
      | (Some hk, g1) \<Rightarrow>
          (case Option.bind (spill_fetch env (fst (dh_body hk)) g1) (en_cold_parse env) of
             None \<Rightarrow> (False, g1)
           | Some c \<Rightarrow>
               (let (_, g2) = with_husks (hs_delete i) (Inr ()) g1
                in (True, release_blob_if_orphan env (fst (dh_body hk)) (g2\<lparr>g_cold := om_insert i c (g_cold g2)\<rparr>)))))"

definition fault_content :: "mem_env \<Rightarrow> node_id \<Rightarrow> mem_graph \<Rightarrow> bool \<times> mem_graph" where
  \<comment> \<open>second part: spilled content comes back from disk\<close>
  "fault_content env i g =
     (case Option.bind (map_of (g_cold g) i) cn_spill of
        None \<Rightarrow> (True, g)
      | Some (h, _) \<Rightarrow>
          (case spill_fetch env h g of
             None \<Rightarrow> (False, g)
           | Some text \<Rightarrow>
               (True, release_content_blob_if_orphan h
                  (g\<lparr>g_cold := om_update i (\<lambda>c. c\<lparr>cn_node := (cn_node c)\<lparr>n_content := text\<rparr>, cn_spill := None\<rparr>) (g_cold g)\<rparr>))))"

definition relink :: "graph_edge \<Rightarrow> mem_graph \<Rightarrow> mem_graph" where
  "relink e g =
     (if resident g (e_source e) \<and> resident g (e_target e) \<and> edge_key e \<notin> set (map edge_key (g_edges g))
      then g\<lparr>g_edges := g_edges g @ [e]\<rparr> else g)"

definition restore :: "node_id \<Rightarrow> cold_node \<Rightarrow> mem_graph \<Rightarrow> mem_graph" where
  \<comment> \<open>third part: the entry leaves the cold map and its edges are linked again\<close>
  "restore i c g =
     (let n = (cn_node c)\<lparr>n_recency := f64_rat 1 1, n_last_accessed := g_clock g,
                n_access_count := (if n_access_count (cn_node c) = - 1 then - 1 else n_access_count (cn_node c) + 1)\<rparr>;
          g1 = g\<lparr>g_cold := om_remove i (g_cold g), g_nodes := om_insert i n (g_nodes g)\<rparr>;
          g2 = fold relink (cn_edges c) g1
      in fold (graph_radj_del i) (map (other_end i) (cn_edges c)) g2)"

fun min_by :: "('a \<Rightarrow> 'a \<Rightarrow> cmp) \<Rightarrow> 'a list \<Rightarrow> 'a option" where
  \<comment> \<open>\<open>Iterator::min_by\<close>: the first of the least\<close>
  "min_by c [] = None"
| "min_by c (x # xs) = Some (fold (\<lambda>y m. if c m y = Greater then y else m) xs x)"

definition swap_victim :: "mem_env \<Rightarrow> node_id \<Rightarrow> mem_graph \<Rightarrow> node_id option \<times> mem_graph" where
  \<comment> \<open>a single candidate is not compared, hence not scored\<close>
  "swap_victim env i g =
     (let others = filter (\<lambda>(j, _). j \<noteq> i) (g_nodes g) in
        if length others \<le> 1 then (map_option fst (min_by (\<lambda>_ _. Equal) others), g)
        else let (scored, g1) = score_all env others g in (map_option fst (min_by coldest_cmp scored), g1))"

lemma with_radj_fields [simp]:
  "g_nodes (with_radj f g) = g_nodes g" "g_edges (with_radj f g) = g_edges g"
  "g_cold (with_radj f g) = g_cold g" "g_max (with_radj f g) = g_max g"
  "g_clock (with_radj f g) = g_clock g" "g_spill (with_radj f g) = g_spill g"
  "g_husks (with_radj f g) = g_husks g" "g_weights (with_radj f g) = g_weights g"
  "g_threshold (with_radj f g) = g_threshold g" "g_policy (with_radj f g) = g_policy g"
  "g_content_budget (with_radj f g) = g_content_budget g" "g_resident_budget (with_radj f g) = g_resident_budget g"
  "g_edge_set (with_radj f g) = g_edge_set g" "g_indegree (with_radj f g) = g_indegree g"
  "g_eigen (with_radj f g) = g_eigen g"
  by (auto simp: with_radj_def split: option.splits prod.splits)

lemma graph_radj_add_fields [simp]:
  "g_nodes (graph_radj_add a b g) = g_nodes g" "g_edges (graph_radj_add a b g) = g_edges g"
  "g_cold (graph_radj_add a b g) = g_cold g" "g_max (graph_radj_add a b g) = g_max g"
  by (simp_all add: graph_radj_add_def)

lemma fold_radj_add_fields [simp]:
  "g_nodes (fold (graph_radj_add a) bs g) = g_nodes g" "g_edges (fold (graph_radj_add a) bs g) = g_edges g"
  "g_cold (fold (graph_radj_add a) bs g) = g_cold g" "g_max (fold (graph_radj_add a) bs g) = g_max g"
  by (induction bs arbitrary: g) simp_all

lemma demote_nodes: "g_nodes (demote i g) = om_remove i (g_nodes g)"
  by (cases "map_of (g_nodes g) i")
    (auto simp: demote_def Let_def om_contains_def intro!: om_remove_id [symmetric])

lemma compute_node_score_nodes: "g_nodes (snd (compute_node_score env n g)) = g_nodes g"
  by (auto simp: compute_node_score_def centrality_signal_def node_in_degree_def cache_degrees_def
      node_eigencentrality_def Let_def split: prod.splits centrality_mode.splits)

lemma score_all_nodes: "score_all env ns g = (vs, g') \<Longrightarrow> g_nodes g' = g_nodes g \<and> map fst vs = map fst ns"
proof (induction ns arbitrary: g vs g')
  case (Cons p ns)
  obtain i n where p: "p = (i, n)" by (cases p)
  obtain v g1 where c: "compute_node_score env n g = (v, g1)" by (cases "compute_node_score env n g")
  obtain ws g2 where r: "score_all env ns g1 = (ws, g2)" by (cases "score_all env ns g1")
  show ?case
    using Cons.IH [OF r] Cons.prems compute_node_score_nodes [of env n g] by (auto simp: p c r)
qed simp

lemma min_by_in: "min_by c xs = Some x \<Longrightarrow> x \<in> set xs"
proof (cases xs)
  case (Cons y ys)
  have "fold (\<lambda>y m. if c m y = Greater then y else m) ys y \<in> insert y (set ys)" for y
    by (induction ys arbitrary: y) auto
  then show "min_by c xs = Some x \<Longrightarrow> x \<in> set xs" using Cons by auto
qed simp

lemma swap_victim_in:
  assumes "swap_victim env i g = (Some v, g1)"
  shows "g_nodes g1 = g_nodes g" "v \<noteq> i" "resident g v"
proof -
  let ?others = "filter (\<lambda>(j, _). j \<noteq> i) (g_nodes g)"
  have "g_nodes g1 = g_nodes g \<and> v \<in> fst ` set ?others"
  proof (cases "length ?others \<le> 1")
    case True
    then have "(map_option fst (min_by (\<lambda>_ _. Equal) ?others), g) = (Some v, g1)"
      using assms by (simp only: swap_victim_def Let_def if_True)
    then have e: "map_option fst (min_by (\<lambda>_ _. Equal) ?others) = Some v" "g1 = g" by blast+
    from e(1) obtain p where p: "min_by (\<lambda>_ _. Equal) ?others = Some p" "v = fst p"
      unfolding map_option_eq_Some by blast
    note p = p e(2)
    show ?thesis using imageI [OF min_by_in [OF p(1)], of fst] p(2,3) by simp
  next
    case False
    obtain vs g2 where s: "score_all env ?others g = (vs, g2)" by (cases "score_all env ?others g")
    then have "(map_option fst (min_by coldest_cmp vs), g2) = (Some v, g1)"
      using assms False by (simp only: swap_victim_def Let_def if_False prod.case)
    then have e: "map_option fst (min_by coldest_cmp vs) = Some v" "g1 = g2" by blast+
    from e(1) obtain p where p: "min_by coldest_cmp vs = Some p" "v = fst p"
      unfolding map_option_eq_Some by blast
    note p = p e(2)
    show ?thesis using imageI [OF min_by_in [OF p(1)], of fst] p(2,3) score_all_nodes [OF s]
      by (metis list.set_map)
  qed
  then show "g_nodes g1 = g_nodes g" "v \<noteq> i" "resident g v"
    by (auto simp: om_contains_iff rev_image_eqI)
qed

function swap_loop :: "mem_env \<Rightarrow> node_id \<Rightarrow> mem_graph \<Rightarrow> mem_graph" where
  \<comment> \<open>\<open>while self.nodes.len() > self.max_in_memory_nodes\<close>\<close>
  "swap_loop env i g =
     (if length (g_nodes g) \<le> g_max g then g
      else case swap_victim env i g of
        (Some v, g1) \<Rightarrow> swap_loop env i (demote v g1)
      | (None, g1) \<Rightarrow> g1)"
  by pat_completeness auto

termination
proof (relation "measure (\<lambda>(env, i, g). length (g_nodes g))")
  fix env i and g :: mem_graph and a b v
  assume ab: "(a, b) = swap_victim env i g" and v: "a = Some v"
  then have "swap_victim env i g = (Some v, b)" by simp
  note sv = swap_victim_in [OF this]
  then obtain n where "(v, n) \<in> set (g_nodes g)" by (auto simp: om_contains_iff)
  then have "length (om_remove v (g_nodes g)) < length (g_nodes g)"
    unfolding om_remove_def by (intro length_filter_less [of "(v, n)"]) simp_all
  then show "((env, i, demote v b), env, i, g) \<in> measure (\<lambda>(env, i, g). length (g_nodes g))"
    using sv(1) by (simp add: demote_nodes)
qed simp

declare swap_loop.simps [simp del]

definition page_in :: "mem_env \<Rightarrow> node_id \<Rightarrow> mem_graph \<Rightarrow> bool \<times> mem_graph" where
  "page_in env i g =
     (case fault_husk env i g of
        (False, g1) \<Rightarrow> (False, g1)
      | (True, g1) \<Rightarrow>
          (case fault_content env i g1 of
             (False, g2) \<Rightarrow> (False, g2)
           | (True, g2) \<Rightarrow>
               (case map_of (g_cold g2) i of
                  None \<Rightarrow> (False, g2)
                | Some c \<Rightarrow>
                    (True, enforce_budgets env (snd (prune_dangling_edges (swap_loop env i (restore i c g2))))))))"

subsection \<open>Attaching the stores\<close>

definition HUSK_BUFFER_LIMIT :: nat where "HUSK_BUFFER_LIMIT = 4096"
definition HUSK_CACHE_CAP :: nat where "HUSK_CACHE_CAP = 1024"

definition backfill_radj :: "mem_env \<Rightarrow> mem_graph \<Rightarrow> mem_graph" where
  "backfill_radj env g =
     fold (\<lambda>(a, b). graph_radj_add a b)
       (concat (map (\<lambda>(i, c). map (\<lambda>e. (i, other_end i e)) (cn_edges c)) (g_cold g))
        @ concat (map (\<lambda>(i, h). map (Pair i) (unpack_adj (dh_adj h))) (deep_entries env g))) g"

definition attach_cold_spill :: "mem_env \<Rightarrow> string \<Rightarrow> nat \<Rightarrow> io_err option \<Rightarrow> mem_graph \<Rightarrow> unit io \<times> mem_graph" where
  \<comment> \<open>\<open>mk\<close>: the error, if any, of the \<open>create_dir_all\<close> in \<open>ColdSpill::new\<close>\<close>
  "attach_cold_spill env dir inline_budget mk g =
     (case hs_open (dir @ ''.husks'') HUSK_BUFFER_LIMIT HUSK_CACHE_CAP (g_disk g) of
        Inl e \<Rightarrow> (Inl e, g)
      | Inr husks \<Rightarrow>
          (case hs_open (dir @ ''.radj'') HUSK_BUFFER_LIMIT HUSK_CACHE_CAP (g_disk g) of
             Inl e \<Rightarrow> (Inl e, g)
           | Inr radj \<Rightarrow>
               (case mk of
                  Some e \<Rightarrow> (Inl e, g)
                | None \<Rightarrow>
                    (let g1 = backfill_radj env
                           (g\<lparr>g_spill := Some (dir, inline_budget), g_husks := Some husks, g_radj := Some radj\<rparr>)
                     in (Inr (), enforce_cold_resident_budget env (enforce_cold_budget env g1))))))"

definition detach_cold_spill :: "mem_graph \<Rightarrow> mem_graph" where
  "detach_cold_spill g = g\<lparr>g_spill := None, g_husks := None, g_radj := None\<rparr>"

definition flush_cold_tier :: "mem_graph \<Rightarrow> unit io \<times> mem_graph" where
  "flush_cold_tier g =
     (case with_husks hs_flush (Inr ()) g of
        (Inl e, g1) \<Rightarrow> (Inl e, g1)
      | (Inr _, g1) \<Rightarrow>
          (case g_radj g1 of
             None \<Rightarrow> (Inr (), g1)
           | Some hs \<Rightarrow> (let (r, hs', d') = hs_flush (hs, g_disk g1)
                         in (r, g1\<lparr>g_radj := Some hs', g_disk := d'\<rparr>))))"

end
