(* ===== verification/GraphInv.thy ===== *)
theory GraphInv
  imports Paging
begin

text \<open>
  Invariants of the memory graph: scoring changes caches only, the store operations leave the
  resident graph alone, and in every state reachable through the graph's operations each
  edge joins resident nodes and the resident set stays within its limit.
\<close>

subsection \<open>Scoring\<close>

definition cache_eq :: "mem_graph \<Rightarrow> mem_graph \<Rightarrow> bool" where
  \<comment> \<open>the states differ in caches only, and would score alike\<close>
  "cache_eq g g' \<longleftrightarrow> (\<exists>a b. g' = g\<lparr>g_indegree := a, g_eigen := b\<rparr>)
     \<and> cached_degrees g' = cached_degrees g \<and> cached_eigen g' = cached_eigen g"

lemma cache_eq_refl [simp]: "cache_eq g g"
proof -
  have "g = g\<lparr>g_indegree := g_indegree g, g_eigen := g_eigen g\<rparr>" by simp
  then show ?thesis unfolding cache_eq_def by blast
qed

lemma cache_eq_trans: "cache_eq g g' \<Longrightarrow> cache_eq g' g'' \<Longrightarrow> cache_eq g g''"
proof -
  assume a: "cache_eq g g'" and b: "cache_eq g' g''"
  obtain p q where "g' = g\<lparr>g_indegree := p, g_eigen := q\<rparr>" using a unfolding cache_eq_def by blast
  moreover obtain r s where "g'' = g'\<lparr>g_indegree := r, g_eigen := s\<rparr>" using b unfolding cache_eq_def by blast
  ultimately have "g'' = g\<lparr>g_indegree := r, g_eigen := s\<rparr>" by simp
  then show ?thesis using a b unfolding cache_eq_def by metis
qed

lemma cache_eq_fields:
  assumes "cache_eq g g'"
  shows "g_nodes g' = g_nodes g" "g_edges g' = g_edges g" "g_cold g' = g_cold g" "g_max g' = g_max g"
    "g_weights g' = g_weights g" "g_spill g' = g_spill g" "g_husks g' = g_husks g" "g_disk g' = g_disk g"
    "g_policy g' = g_policy g" "g_clock g' = g_clock g" "g_content_budget g' = g_content_budget g"
    "g_resident_budget g' = g_resident_budget g" "g_radj g' = g_radj g" "g_edge_set g' = g_edge_set g"
    "g_threshold g' = g_threshold g"
  using assms unfolding cache_eq_def by auto

lemma eigen_frame:
  "in_degrees (g\<lparr>g_indegree := a, g_eigen := b\<rparr>) = in_degrees g"
  "eigencentrality (g\<lparr>g_indegree := a, g_eigen := b\<rparr>) = eigencentrality g"
  "eigen_key (g\<lparr>g_indegree := a, g_eigen := b\<rparr>) = eigen_key g"
proof -
  have sel: "g_nodes (g\<lparr>g_indegree := a, g_eigen := b\<rparr>) = g_nodes g"
    "g_edges (g\<lparr>g_indegree := a, g_eigen := b\<rparr>) = g_edges g" by simp_all
  have "is_orphan (g\<lparr>g_indegree := a, g_eigen := b\<rparr>) = is_orphan g" by (intro ext) (simp add: is_orphan_def)
  then show "in_degrees (g\<lparr>g_indegree := a, g_eigen := b\<rparr>) = in_degrees g"
    by (simp add: in_degrees_def)
  show "eigencentrality (g\<lparr>g_indegree := a, g_eigen := b\<rparr>) = eigencentrality g"
    unfolding eigencentrality_def sel ..
  show "eigen_key (g\<lparr>g_indegree := a, g_eigen := b\<rparr>) = eigen_key g"
    by (simp add: eigen_key_def)
qed

lemma node_in_degree_cache: "cache_eq g (snd (node_in_degree i g))"
proof -
  let ?c = "Some (length (g_edges g), cached_degrees g)"
  have u: "cache_degrees g = g\<lparr>g_indegree := ?c, g_eigen := g_eigen g\<rparr>"
    by (simp add: cache_degrees_def)
  have "cached_degrees (cache_degrees g) = cached_degrees g"
    by (simp add: cache_degrees_def cached_degrees_def)
  moreover have "g_eigen (cache_degrees g) = g_eigen g" by (simp add: cache_degrees_def)
  then have "cached_eigen (cache_degrees g) = cached_eigen g"
    unfolding cached_eigen_def using eigen_frame(2,3) [of "g_eigen g" ?c g] u by (simp only:)
  ultimately show ?thesis
    unfolding cache_eq_def node_in_degree_def snd_conv using u by blast
qed

lemma node_eigencentrality_cache: "cache_eq g (snd (node_eigencentrality i g))"
proof -
  let ?c = "Some (eigen_key g, cached_eigen g)"
  let ?g = "g\<lparr>g_eigen := ?c\<rparr>"
  have u: "?g = g\<lparr>g_indegree := g_indegree g, g_eigen := ?c\<rparr>" by simp
  have "eigen_key ?g = eigen_key g" by (simp add: eigen_key_def)
  then have "cached_eigen ?g = cached_eigen g" by (simp add: cached_eigen_def [where g = ?g])
  moreover have "g_indegree ?g = g_indegree g" "g_edges ?g = g_edges g" by simp_all
  then have "cached_degrees ?g = cached_degrees g"
    unfolding cached_degrees_def using eigen_frame(1) [of ?c "g_indegree g" g] u by (simp only:)
  ultimately show ?thesis
    unfolding cache_eq_def node_eigencentrality_def snd_conv using u by blast
qed

lemma compute_node_score_cache: "cache_eq g (snd (compute_node_score env n g))"
proof -
  have "cache_eq g (snd (centrality_signal env n g))"
    using node_in_degree_cache [of g "n_id n"] node_eigencentrality_cache [of g "n_id n"]
    by (auto simp: centrality_signal_def Let_def case_prod_beta split: centrality_mode.splits)
  then show ?thesis by (simp add: compute_node_score_def Let_def case_prod_beta)
qed

lemma centrality_signal_cong:
  assumes "cache_eq g g'"
  shows "fst (centrality_signal env n g') = fst (centrality_signal env n g)"
proof -
  have "cached_degrees g' = cached_degrees g" "cached_eigen g' = cached_eigen g"
    using assms by (simp_all add: cache_eq_def)
  then show ?thesis
    using cache_eq_fields(5) [OF assms]
    by (auto simp: centrality_signal_def centrality_on_def node_in_degree_def degree_in_def
        node_eigencentrality_def Let_def case_prod_beta split: centrality_mode.splits)
qed

lemma node_score_cong: "cache_eq g g' \<Longrightarrow> node_score env g' n = node_score env g n"
  using centrality_signal_cong [of g g' env n] cache_eq_fields(5) [of g g']
  by (simp add: node_score_def compute_node_score_def Let_def case_prod_beta)

lemma score_all_spec:
  assumes "score_all env ns g = (vs, g')"
  shows "vs = map (\<lambda>(i, n). (i, node_score env g n)) ns" "cache_eq g g'"
proof -
  have "vs = map (\<lambda>(i, n). (i, node_score env g n)) ns \<and> cache_eq g g'" using assms
  proof (induction ns arbitrary: g vs g')
    case (Cons p ns)
    obtain i n where p: "p = (i, n)" by (cases p)
    let ?g1 = "snd (compute_node_score env n g)"
    obtain ws g2 where r: "score_all env ns ?g1 = (ws, g2)" by (cases "score_all env ns ?g1")
    note c = compute_node_score_cache [of g env n]
    from Cons.IH [OF r] have "ws = map (\<lambda>(i, n). (i, node_score env g n)) ns" "cache_eq ?g1 g2"
      using node_score_cong [OF c] by (auto simp: case_prod_beta)
    moreover have "vs = (i, node_score env g n) # ws" "g' = g2"
      using Cons.prems r by (auto simp: p node_score_def Let_def case_prod_beta)
    ultimately show ?case using cache_eq_trans [OF c] by (simp add: p)
  qed simp
  then show "vs = map (\<lambda>(i, n). (i, node_score env g n)) ns" "cache_eq g g'" by simp_all
qed

subsection \<open>What the stores leave alone\<close>

definition core :: "mem_graph \<Rightarrow> mem_graph" where
  \<comment> \<open>the graph without caches, stores, disk and duplicate index\<close>
  "core g = g\<lparr>g_indegree := None, g_eigen := None, g_husks := None, g_radj := None, g_disk := g_disk g,
      g_edge_set := []\<rparr>\<lparr>g_disk := \<lparr>d_files = [], d_pid = 0, d_faults = [], d_stuck = []\<rparr>\<rparr>"

lemma core_fields:
  assumes "core g' = core g"
  shows "g_nodes g' = g_nodes g" "g_edges g' = g_edges g" "g_cold g' = g_cold g" "g_max g' = g_max g"
    "g_spill g' = g_spill g" "g_clock g' = g_clock g" "g_content_budget g' = g_content_budget g"
    "g_resident_budget g' = g_resident_budget g" "g_weights g' = g_weights g"
proof -
  have "g_nodes (core g') = g_nodes (core g)" "g_edges (core g') = g_edges (core g)"
    "g_cold (core g') = g_cold (core g)" "g_max (core g') = g_max (core g)"
    "g_spill (core g') = g_spill (core g)" "g_clock (core g') = g_clock (core g)"
    "g_content_budget (core g') = g_content_budget (core g)"
    "g_resident_budget (core g') = g_resident_budget (core g)" "g_weights (core g') = g_weights (core g)"
    using assms by simp_all
  then show "g_nodes g' = g_nodes g" "g_edges g' = g_edges g" "g_cold g' = g_cold g" "g_max g' = g_max g"
    "g_spill g' = g_spill g" "g_clock g' = g_clock g" "g_content_budget g' = g_content_budget g"
    "g_resident_budget g' = g_resident_budget g" "g_weights g' = g_weights g"
    by (simp_all add: core_def)
qed

lemma core_cache: "cache_eq g g' \<Longrightarrow> core g' = core g"
  by (auto simp: cache_eq_def core_def)

lemma core_with_husks: "core (snd (with_husks f z g)) = core g"
  by (auto simp: with_husks_def core_def Let_def split: option.splits prod.splits)

lemma core_with_radj: "core (with_radj f g) = core g"
  by (auto simp: with_radj_def core_def Let_def split: option.splits prod.splits)

lemma core_fold_radj:
  "core (fold (graph_radj_add i) js g) = core g" "core (fold (graph_radj_del i) js g) = core g"
  by (induction js arbitrary: g) (simp_all add: core_with_radj graph_radj_add_def graph_radj_del_def)

lemma core_spill_store: "core (snd (spill_store env content g)) = core g"
  by (auto simp: spill_store_def core_def split: option.splits prod.splits sum.splits)

lemma core_spill_delete: "core (spill_delete h g) = core g"
  by (auto simp: spill_delete_def core_def split: option.splits prod.splits)

lemma core_release: "core (release_content_blob_if_orphan h g) = core g"
  "core (release_blob_if_orphan env h g) = core g"
  by (simp_all add: release_content_blob_if_orphan_def release_blob_if_orphan_def core_spill_delete)

lemma core_deep_get: "core (snd (deep_get env i g)) = core g"
  using core_with_husks [of "hs_get i" "Inr None" g]
  by (auto simp: deep_get_def split: prod.splits sum.splits option.splits)

lemma core_deep_contains: "core (snd (deep_contains i g)) = core g"
  using core_with_husks [of "hs_get i" "Inr None" g]
  by (auto simp: deep_contains_def split: prod.splits sum.splits option.splits)

lemma core_keep_cold: "core (snd (keep_cold i js g)) = core g"
proof (induction js arbitrary: g)
  case (Cons j js)
  have "core (snd (if j = i then (False, g) else is_cold j g)) = core g"
    by (simp add: is_cold_def core_deep_contains)
  then show ?case using Cons.IH by (simp add: Let_def case_prod_beta)
qed simp

lemmas core_rules = core_with_husks core_with_radj core_fold_radj core_spill_store core_spill_delete
  core_release core_deep_get core_deep_contains core_keep_cold

subsection \<open>Operations that only move cold data\<close>

definition calm :: "mem_graph \<Rightarrow> mem_graph \<Rightarrow> bool" where
  "calm g g' \<longleftrightarrow> g_nodes g' = g_nodes g \<and> g_edges g' = g_edges g \<and> g_max g' = g_max g
     \<and> (om_ok (g_cold g) \<longrightarrow> om_ok (g_cold g')) \<and> fst ` set (g_cold g') \<subseteq> fst ` set (g_cold g)"

lemma calm_refl [simp]: "calm g g"
  by (simp add: calm_def)

lemma calm_trans: "calm g g' \<Longrightarrow> calm g' g'' \<Longrightarrow> calm g g''"
  unfolding calm_def by (intro conjI impI; elim conjE) (simp | blast)+

lemma calm_core: "core g' = core g \<Longrightarrow> calm g g'"
  using core_fields [of g' g] by (simp add: calm_def)

lemma calm_update: "calm g (g\<lparr>g_cold := om_update i f (g_cold g)\<rparr>)"
proof -
  have "fst ` set (om_update i f m) = fst ` set m" for m :: "(node_id, cold_node) omap"
    using om_update_keys [of i f m] by (metis list.set_map)
  then show ?thesis by (simp add: calm_def om_ok_update)
qed

lemma calm_remove: "calm g (g\<lparr>g_cold := om_remove i (g_cold g)\<rparr>)"
proof -
  have "fst ` set (om_remove i m) \<subseteq> fst ` set m" for m :: "(node_id, cold_node) omap"
    unfolding om_remove_def by auto
  then show ?thesis by (simp add: calm_def om_ok_remove)
qed

lemma calm_spill_loop: "calm g (spill_loop env budget ids res g)"
proof (induction ids arbitrary: res g)
  case (Cons i ids)
  show ?case
  proof (cases "map_of (g_cold g) i")
    case None
    with Cons show ?thesis by simp
  next
    case (Some c)
    obtain r g1 where w: "spill_store env (n_content (cn_node c)) g = (r, g1)"
      by (cases "spill_store env (n_content (cn_node c)) g")
    have c1: "calm g g1" using core_spill_store [of env "n_content (cn_node c)" g] w by (simp add: calm_core)
    show ?thesis
    proof (cases r)
      case None
      with Some w Cons.IH calm_trans [OF c1] show ?thesis by simp
    next
      case h: (Some h)
      show ?thesis
        using Some w h Cons.IH calm_trans [OF c1 calm_trans [OF calm_update Cons.IH]] by (simp add: Let_def)
    qed
  qed
qed simp

lemma coldest_first_spec:
  assumes "coldest_first env es g = (ids, g')"
  shows "cache_eq g g'"
    and "ids = map fst (sort_by coldest_cmp (map (\<lambda>(i, c). (i, node_score env g (cn_node c))) es))"
proof -
  let ?ns = "map (\<lambda>(i, c). (i, cn_node c)) es"
  obtain vs g1 where s: "score_all env ?ns g = (vs, g1)" by (cases "score_all env ?ns g")
  with assms have "ids = map fst (sort_by coldest_cmp vs)" "g' = g1" by (auto simp: coldest_first_def)
  with score_all_spec [OF s] show "cache_eq g g'"
    "ids = map fst (sort_by coldest_cmp (map (\<lambda>(i, c). (i, node_score env g (cn_node c))) es))"
    by (simp_all add: comp_def case_prod_unfold)
qed

lemma calm_coldest_first: "coldest_first env es g = (ids, g') \<Longrightarrow> calm g g'"
  by (rule calm_core, rule core_cache, rule coldest_first_spec(1))

lemma calm_cold_budget: "calm g (enforce_cold_budget env g)"
  using calm_trans [OF calm_coldest_first calm_spill_loop]
  by (auto simp: enforce_cold_budget_def Let_def split: option.splits prod.splits)

lemma calm_deep_spill: "calm g (snd (deep_spill env i c g))"
proof (cases "fold_inline env c g")
  case None
  then show ?thesis by (simp add: deep_spill_def Let_def)
next
  case (Some entry)
  show ?thesis
  proof (cases "en_cold_json env entry")
    case None
    with Some show ?thesis by (simp add: deep_spill_def Let_def)
  next
    case ser: (Some ser)
    obtain r g1 where w: "spill_store env ser g = (r, g1)" by (cases "spill_store env ser g")
    have c1: "calm g g1" using core_spill_store [of env ser g] w by (simp add: calm_core)
    show ?thesis
    proof (cases r)
      case None
      with Some ser w c1 show ?thesis by (simp add: deep_spill_def Let_def)
    next
      case body: (Some body)
      show ?thesis
      proof (cases "en_husk_json env \<lparr>dh_body = (body, length ser), dh_adj = pack_adj (husk_adj c)\<rparr>")
        case None
        with Some ser w body c1 show ?thesis by (simp add: deep_spill_def Let_def)
      next
        case bs: (Some bs)
        obtain p g2 where put: "with_husks (hs_put i bs) (Inl NotFound) g1 = (p, g2)"
          by (cases "with_husks (hs_put i bs) (Inl NotFound) g1")
        have c2: "calm g g2"
          using core_with_husks [of "hs_put i bs" "Inl NotFound" g1] put calm_trans [OF c1] by (simp add: calm_core)
        let ?g3 = "g2\<lparr>g_cold := om_remove i (g_cold g2)\<rparr>"
        note c3 = calm_trans [OF c2 calm_remove [of g2 i]]
        note c4 = calm_trans [OF c3 calm_core [OF core_release(1)]]
        from Some ser w body bs put c1 c2 c3 c4 show ?thesis
          by (auto simp: deep_spill_def Let_def split: sum.splits option.splits)
      qed
    qed
  qed
qed

lemma calm_deep_loop: "calm g (deep_loop env budget ids res g)"
proof (induction ids arbitrary: res g)
  case (Cons i ids)
  show ?case
  proof (cases "map_of (g_cold g) i")
    case None
    with Cons show ?thesis by simp
  next
    case (Some c)
    obtain b g1 where d: "deep_spill env i c g = (b, g1)" by (cases "deep_spill env i c g")
    then have "calm g g1" using calm_deep_spill [of g env i c] by simp
    with Some d Cons.IH show ?thesis by (auto intro: calm_trans)
  qed
qed simp

lemma calm_resident_budget: "calm g (enforce_cold_resident_budget env g)"
  using calm_trans [OF calm_coldest_first calm_deep_loop]
  by (auto simp: enforce_cold_resident_budget_def Let_def split: option.splits prod.splits)

lemma calm_compact_loop: "calm g (compact_loop env budget ids tot g)"
proof (induction ids arbitrary: tot g)
  case (Cons i ids)
  show ?case
  proof (cases "map_of (g_cold g) i")
    case None
    with Cons show ?thesis by simp
  next
    case (Some c)
    note up = calm_trans [OF calm_update Cons.IH]
    note up2 = calm_trans [OF calm_trans [OF calm_update calm_core [OF core_release(1)]] Cons.IH]
    from Some Cons.IH up up2 show ?thesis
      by (auto simp: Let_def split: option.splits)
  qed
qed simp

lemma calm_content_budget: "calm g (enforce_cold_content_budget env g)"
proof (cases "g_content_budget g")
  case (Some budget)
  obtain ids g1 where c: "coldest_first env (filter (\<lambda>(_, c). \<not> cn_compacted c \<and> \<not> cn_at_floor c) (g_cold g)) g = (ids, g1)"
    by (cases "coldest_first env (filter (\<lambda>(_, c). \<not> cn_compacted c \<and> \<not> cn_at_floor c) (g_cold g)) g")
  from Some c show ?thesis
    using calm_trans [OF calm_coldest_first [OF c] calm_compact_loop]
    unfolding enforce_cold_content_budget_def Let_def by simp
qed (simp add: enforce_cold_content_budget_def)

lemma calm_enforce_budgets: "calm g (enforce_budgets env g)"
  unfolding enforce_budgets_def
  by (rule calm_trans [OF calm_content_budget calm_trans [OF calm_cold_budget calm_resident_budget]])

subsection \<open>The invariant\<close>

definition graph_ok :: "mem_graph \<Rightarrow> bool" where
  "graph_ok g \<longleftrightarrow> om_ok (g_nodes g) \<and> om_ok (g_cold g)
     \<and> list_all (\<lambda>e. resident g (e_source e) \<and> resident g (e_target e)) (g_edges g)"

lemma graph_okD:
  assumes "graph_ok g"
  shows "om_ok (g_nodes g)" "om_ok (g_cold g)"
    "e \<in> set (g_edges g) \<Longrightarrow> resident g (e_source e) \<and> resident g (e_target e)"
  using assms by (auto simp: graph_ok_def list_all_iff)

lemma graph_ok_calm: "graph_ok g \<Longrightarrow> calm g g' \<Longrightarrow> graph_ok g'"
  by (simp add: graph_ok_def calm_def)

text \<open>Operations that change node fields and edge-free state only.\<close>

definition renode :: "mem_graph \<Rightarrow> mem_graph \<Rightarrow> bool" where
  "renode g g' \<longleftrightarrow> map fst (g_nodes g') = map fst (g_nodes g) \<and> g_edges g' = g_edges g
     \<and> g_cold g' = g_cold g \<and> g_max g' = g_max g"

lemma renode_refl [simp]: "renode g g"
  by (simp add: renode_def)

lemma renode_trans: "renode g g' \<Longrightarrow> renode g' g'' \<Longrightarrow> renode g g''"
  by (simp add: renode_def)

lemma contains_keys: "map fst m' = map fst m \<Longrightarrow> om_contains m' k = om_contains m k"
  by (metis list.set_map om_contains_iff)

lemma renode_resident: "renode g g' \<Longrightarrow> resident g' i = resident g i"
  by (auto simp: renode_def dest: contains_keys)

lemma graph_ok_renode: "graph_ok g \<Longrightarrow> renode g g' \<Longrightarrow> graph_ok g' \<and> length (g_nodes g') = length (g_nodes g)"
proof -
  assume ok: "graph_ok g" and r: "renode g g'"
  have "length (g_nodes g') = length (g_nodes g)" using r by (metis length_map renode_def)
  moreover have "om_ok (g_nodes g')" using ok r by (simp add: graph_ok_def renode_def om_ok_def)
  ultimately show ?thesis
    using ok r renode_resident [OF r] by (simp add: graph_ok_def renode_def)
qed

lemma renode_core: "core g' = core g \<Longrightarrow> renode g g'"
  using core_fields [of g' g] by (simp add: renode_def)

lemma renode_update: "renode g (g\<lparr>g_nodes := om_update i f (g_nodes g)\<rparr>)"
  by (simp add: renode_def)

lemma renode_map: "renode g (g\<lparr>g_nodes := map (\<lambda>(i, n). (i, f i n)) (g_nodes g)\<rparr>)"
  by (simp add: renode_def comp_def case_prod_beta)

lemma renode_touch: "renode g (snd (touch i g))"
  by (simp add: touch_def renode_update)

lemma renode_tick: "renode g (tick g)"
  by (simp add: tick_def renode_def comp_def case_prod_beta)

lemma renode_state: "renode g (set_node_state i st g)"
  by (simp add: set_node_state_def renode_def Let_def)

lemma renode_stamp: "renode g (stamp_file_trust p t g)"
  by (simp add: stamp_file_trust_def renode_def comp_def case_prod_beta)

lemma renode_apply_trust: "renode g (snd (fold apply_trust us (c, g)))"
proof (induction us arbitrary: c g)
  case (Cons u us)
  obtain i t where u: "u = (i, t)" by (cases u)
  have "renode g (snd (apply_trust u (c, g)))"
    using renode_update by (auto simp: u apply_trust_def split: option.splits)
  then show ?case using Cons.IH renode_trans by (cases "apply_trust u (c, g)") fastforce
qed simp

lemma renode_propagate_trust: "renode g (snd (propagate_trust d g))"
  by (simp only: propagate_trust_def Let_def renode_apply_trust)

lemma renode_pressure: "renode g (add_pressure i p g)"
  by (simp add: add_pressure_def renode_update)

lemma renode_pf:
  "renode g (pf_node env k depth origin g)"
  "renode g (pf_targets env k depth base damp ts g)"
proof (induction env k depth origin g and env k depth base damp ts g rule: pf_node_pf_targets.induct)
  case (4 env k depth base damp t weight ts g)
  let ?p = "hop_pressure env g depth base damp weight"
  let ?g1 = "add_pressure t ?p g"
  let ?g2 = "if f64_lt (g_threshold g) ?p then pf_node env k (depth + 1) t ?g1 else ?g1"
  have "renode g ?g2"
    using "4.IH"(1) [OF refl refl] renode_trans [OF renode_pressure] renode_pressure by auto
  from renode_trans [OF this "4.IH"(2) [OF refl refl refl]] show ?case
    by (simp only: pf_targets.simps Let_def)
qed (simp_all add: Let_def)

lemma renode_pb:
  "renode g (pb_node env k depth origin g)"
  "renode g (pb_targets env k depth base damp ts g)"
proof (induction env k depth origin g and env k depth base damp ts g rule: pb_node_pb_targets.induct)
  case (4 env k depth base damp t weight ts g)
  let ?p = "hop_pressure env g depth base damp weight"
  let ?g1 = "add_pressure t ?p g"
  let ?c = "resident g t \<and> f64_lt (f64_add (pressure_of g t) (f64_rat 1 1000000000)) (pressure_of ?g1 t)"
  let ?g2 = "if ?c \<and> f64_lt (g_threshold g) ?p then pb_node env k (depth + 1) t ?g1 else ?g1"
  have "renode g ?g2"
    using "4.IH"(1) [OF refl refl refl] renode_trans [OF renode_pressure] renode_pressure by auto
  from renode_trans [OF this "4.IH"(2) [OF refl refl refl refl]] show ?case
    by (simp only: pb_targets.simps Let_def)
qed (simp_all add: Let_def)

subsection \<open>Demotion\<close>

lemma demote_some:
  assumes "map_of (g_nodes g) i = Some n"
  shows "g_nodes (demote i g) = om_remove i (g_nodes g)"
    "g_edges (demote i g) = filter (\<lambda>e. \<not> incident i e) (g_edges g)"
    "g_cold (demote i g) = om_insert i \<lparr>cn_node = n, cn_edges = filter (incident i) (g_edges g), cn_spill = None,
                                        cn_compacted = False, cn_at_floor = False\<rparr> (g_cold g)"
    "g_max (demote i g) = g_max g"
  using assms by (simp_all add: demote_def Let_def)

lemma demote_none: "map_of (g_nodes g) i = None \<Longrightarrow> demote i g = g"
  by (simp add: demote_def)

lemma graph_ok_demote: "graph_ok g \<Longrightarrow> graph_ok (demote i g)"
proof (cases "map_of (g_nodes g) i")
  case (Some n)
  assume ok: "graph_ok g"
  show ?thesis
    using ok by (auto simp: graph_ok_def demote_some [OF Some] list_all_iff incident_def intro: inv_intros)
qed (simp add: demote_none)

lemma demote_max [simp]: "g_max (demote i g) = g_max g"
  by (cases "map_of (g_nodes g) i") (simp_all add: demote_some demote_none)

lemma graph_ok_fold_demote: "graph_ok g \<Longrightarrow> graph_ok (fold demote is g) \<and> g_max (fold demote is g) = g_max g"
  by (induction "is" arbitrary: g) (simp_all add: graph_ok_demote)

lemma fold_demote_nodes: "g_nodes (fold demote is g) = filter (\<lambda>(j, _). j \<notin> set is) (g_nodes g)"
proof (induction "is" arbitrary: g)
  case (Cons i "is")
  show ?case
    by (simp add: Cons.IH demote_nodes om_remove_def) (rule filter_cong, auto)
qed simp

lemma graph_ok_prune:
  assumes "om_ok (g_nodes g)" "om_ok (g_cold g)"
  shows "graph_ok (snd (prune_dangling_edges g))"
  using assms by (auto simp: graph_ok_def prune_dangling_edges_def Let_def list_all_iff)

lemma prune_fields:
  "g_nodes (snd (prune_dangling_edges g)) = g_nodes g" "g_cold (snd (prune_dangling_edges g)) = g_cold g"
  "g_max (snd (prune_dangling_edges g)) = g_max g"
  by (simp_all add: prune_dangling_edges_def Let_def)

lemma prune_id: "graph_ok g \<Longrightarrow> snd (prune_dangling_edges g) = g"
proof -
  assume "graph_ok g"
  then have "filter (\<lambda>e. resident g (e_source e) \<and> resident g (e_target e)) (g_edges g) = g_edges g"
    by (simp add: graph_ok_def list_all_iff filter_id_conv)
  then show ?thesis by (simp add: prune_dangling_edges_def Let_def)
qed

subsection \<open>Paging\<close>

lemma evictions_spec:
  assumes "evictions env g = (vs, g')"
  shows "cache_eq g g'"
    and "vs = map fst (take (length (g_nodes g) - g_max g) (sort_by coldest_cmp
           (map (\<lambda>(i, n). (i, eviction_priority g (i, node_score env g n))) (g_nodes g))))"
proof -
  obtain sc g1 where s: "score_all env (g_nodes g) g = (sc, g1)" by (cases "score_all env (g_nodes g) g")
  from score_all_spec [OF s] have
    "map (\<lambda>e. (fst e, eviction_priority g e)) sc
      = map (\<lambda>(i, n). (i, eviction_priority g (i, node_score env g n))) (g_nodes g)"
    by (simp add: comp_def case_prod_unfold)
  with assms s score_all_spec(2) [OF s] show "cache_eq g g'"
    "vs = map fst (take (length (g_nodes g) - g_max g) (sort_by coldest_cmp
           (map (\<lambda>(i, n). (i, eviction_priority g (i, node_score env g n))) (g_nodes g))))"
    by (auto simp: evictions_def Let_def)
qed

end
