(* ===== verification/Resolve.thy ===== *)
theory Resolve
  imports MemGraph
begin

text \<open>
  Name resolution over the graph (\<open>src/memory.rs\<close>, the resolve passes): paths to crates and
  modules, import targets, qualified and bare names, and the three passes that turn imports,
  recorded call sites and recorded data references into edges, with the prune-and-rebuild driver
  \<open>resolve_all\<close>. The pending tables of \<open>MemoryGraph\<close> are the record \<open>pending\<close>.
\<close>

subsection \<open>String functions of the standard library\<close>

fun find_sub :: "string \<Rightarrow> string \<Rightarrow> nat option" where
  \<comment> \<open>\<open>s.find(pat)\<close>\<close>
  "find_sub pat [] = (if pat = [] then Some 0 else None)"
| "find_sub pat (c # s) = (if starts_with (c # s) pat then Some 0 else map_option Suc (find_sub pat s))"

fun rfind_sub :: "string \<Rightarrow> string \<Rightarrow> nat option" where
  \<comment> \<open>\<open>s.rfind(pat)\<close>\<close>
  "rfind_sub pat [] = (if pat = [] then Some 0 else None)"
| "rfind_sub pat (c # s) = (case rfind_sub pat s of Some i \<Rightarrow> Some (Suc i)
     | None \<Rightarrow> if starts_with (c # s) pat then Some 0 else None)"

definition split_once :: "string \<Rightarrow> string \<Rightarrow> (string \<times> string) option" where
  "split_once pat s = map_option (\<lambda>i. (take i s, drop (i + length pat) s)) (find_sub pat s)"

definition rsplit_once :: "string \<Rightarrow> string \<Rightarrow> (string \<times> string) option" where
  "rsplit_once pat s = map_option (\<lambda>i. (take i s, drop (i + length pat) s)) (rfind_sub pat s)"

lemma starts_with_length: "starts_with s p \<Longrightarrow> length p \<le> length s"
  by (auto simp: starts_with_iff)

lemma find_sub_le: "find_sub pat s = Some i \<Longrightarrow> i + length pat \<le> length s"
  by (induction s arbitrary: i) (auto dest: starts_with_length split: if_splits)

function split_on :: "string \<Rightarrow> string \<Rightarrow> string list" where
  \<comment> \<open>\<open>s.split(pat)\<close> for a pattern that is not empty\<close>
  "split_on pat s = (case find_sub pat s of
      None \<Rightarrow> [s]
    | Some i \<Rightarrow> if pat = [] then [s] else take i s # split_on pat (drop (i + length pat) s))"
  by pat_completeness auto
termination
proof (relation "measure (length \<circ> snd)")
  fix pat s i
  assume "find_sub pat s = Some i" "pat \<noteq> []"
  with find_sub_le [OF this(1)] show "((pat, drop (i + length pat) s), pat, s) \<in> measure (length \<circ> snd)"
    by (cases pat) auto
qed simp

declare split_on.simps [simp del]

definition first_seg :: "string \<Rightarrow> string" where
  \<comment> \<open>\<open>s.split("::").next()\<close>\<close>
  "first_seg s = (case split_once ''::'' s of Some (a, _) \<Rightarrow> a | None \<Rightarrow> s)"

definition last_seg :: "string \<Rightarrow> string" where
  \<comment> \<open>\<open>s.rsplit("::").next()\<close>\<close>
  "last_seg s = (case rsplit_once ''::'' s of Some (_, b) \<Rightarrow> b | None \<Rightarrow> s)"

definition strip_suffix :: "string \<Rightarrow> string \<Rightarrow> string option" where
  "strip_suffix s pat = map_option rev (strip_prefix (rev s) (rev pat))"

fun join_with :: "string \<Rightarrow> string list \<Rightarrow> string" where
  "join_with sep [] = []"
| "join_with sep [x] = x"
| "join_with sep (x # y # xs) = x @ sep @ join_with sep (y # xs)"

subsection \<open>Paths\<close>

definition module_of :: "string \<Rightarrow> string option" where
  "module_of after = (case strip_suffix after ''.rs'' of
      None \<Rightarrow> None
    | Some p \<Rightarrow> (let segs = filter (\<lambda>s. s \<noteq> []) (split_on ''/'' p) in
        if segs = [] then None
        else Some (if last segs \<in> {''mod'', ''lib'', ''main''} then join_with ''::'' (butlast segs)
                   else join_with ''::'' segs)))"

definition sym_file :: "node_id \<Rightarrow> string option" where
  "sym_file i = (case strip_prefix i ''sym:'' of
      None \<Rightarrow> None | Some r \<Rightarrow> map_option fst (rsplit_once '':'' r))"

definition crate_and_module :: "string \<Rightarrow> (string \<times> string) option" where
  "crate_and_module file_path =
     (let (krate, after) = (case find_sub ''/src/'' file_path of
            Some idx \<Rightarrow> (map (\<lambda>c. if c = CHR ''-'' then CHR ''_'' else c)
                (case rsplit_once ''/'' (take idx file_path) of Some (_, b) \<Rightarrow> b | None \<Rightarrow> take idx file_path),
              drop (idx + 5) file_path)
          | None \<Rightarrow> (case strip_prefix file_path ''src/'' of
              Some after \<Rightarrow> ([], after) | None \<Rightarrow> ([], file_path)))
      in map_option (Pair krate) (module_of after))"

definition path_root :: "string \<Rightarrow> string \<Rightarrow> string \<times> string" where
  \<comment> \<open>the target crate and the text after its root\<close>
  "path_root importer_crate usepath =
     (case strip_prefix usepath ''crate::'' of Some r \<Rightarrow> (importer_crate, r)
      | None \<Rightarrow> (case strip_prefix usepath ''self::'' of Some r \<Rightarrow> (importer_crate, r)
      | None \<Rightarrow> (case strip_prefix usepath ''super::'' of Some r \<Rightarrow> (importer_crate, r)
      | None \<Rightarrow> if usepath \<in> {''crate'', ''self'', ''super''} then (importer_crate, [])
                else (case split_once ''::'' usepath of Some (c, r) \<Rightarrow> (c, r) | None \<Rightarrow> (usepath, [])))))"

definition parse_modpath :: "string \<Rightarrow> string \<Rightarrow> string \<times> string list" where
  "parse_modpath importer_crate usepath =
     (case path_root importer_crate usepath of
        (target_crate, rest) \<Rightarrow> (target_crate, filter (\<lambda>s. s \<noteq> []) (split_on ''::'' rest)))"

type_synonym file_index = "(string \<times> string, node_id) omap"
type_synonym def_index = "(string \<times> string \<times> string, node_id) omap"

definition resolve_use :: "string \<Rightarrow> string \<Rightarrow> file_index \<Rightarrow> node_id option" where
  "resolve_use importer_crate usepath index =
     (let (target_crate, segs) = parse_modpath importer_crate usepath;
          min_len = (if target_crate = importer_crate then 1 else 0)
      in case List.map_filter (\<lambda>len. map_of index (target_crate, join_with ''::'' (take len segs)))
               (rev [min_len ..< Suc (length segs)]) of
           [] \<Rightarrow> None | t # _ \<Rightarrow> Some t)"

definition resolve_module_exact :: "string \<Rightarrow> string \<Rightarrow> file_index \<Rightarrow> node_id option" where
  "resolve_module_exact importer_crate path index =
     (case parse_modpath importer_crate path of
        (target_crate, segs) \<Rightarrow> map_of index (target_crate, join_with ''::'' segs))"

definition resolve_bare_modpath :: "string \<Rightarrow> string \<Rightarrow> string \<Rightarrow> file_index \<Rightarrow> def_index \<Rightarrow> node_id option" where
  "resolve_bare_modpath prefix nm fcrate index defs =
     (if map_of index (fcrate, prefix) = None then None else map_of defs (fcrate, prefix, nm))"

subsection \<open>Names\<close>

definition file_def :: "node_id option \<Rightarrow> string \<Rightarrow> def_index \<Rightarrow> node_id option" where
  \<comment> \<open>the symbol of that name in a defining file\<close>
  "file_def deffile nm defs =
     (case deffile of None \<Rightarrow> None
      | Some df \<Rightarrow> (case strip_prefix df ''file:'' of None \<Rightarrow> None
      | Some f \<Rightarrow> (case crate_and_module f of None \<Rightarrow> None
      | Some (c, m) \<Rightarrow> map_of defs (c, m, nm))))"

definition paths_of :: "string \<Rightarrow> (string, string list) omap \<Rightarrow> string list" where
  "paths_of file scope = (case map_of scope file of Some us \<Rightarrow> us | None \<Rightarrow> [])"

definition resolve_qualified :: "string \<Rightarrow> string \<Rightarrow> string \<Rightarrow> (string, string list) omap \<Rightarrow> file_index
    \<Rightarrow> def_index \<Rightarrow> node_id option" where
  "resolve_qualified file path fcrate scope index defs =
     (case rsplit_once ''::'' path of
        None \<Rightarrow> None
      | Some (prefix, nm) \<Rightarrow>
          if prefix = ''crate'' \<or> starts_with prefix ''crate::''
          then file_def (resolve_module_exact fcrate prefix index) nm defs
          else let first = first_seg prefix; rest = drop (length first) prefix in
            (case filter (\<lambda>u. last_seg u = first) (paths_of file scope) of
               [] \<Rightarrow> resolve_bare_modpath prefix nm fcrate index defs
             | [use_path] \<Rightarrow> file_def (resolve_module_exact fcrate (use_path @ rest) index) nm defs
             | _ \<Rightarrow> None))"

definition import_candidates :: "string \<Rightarrow> string \<Rightarrow> string \<Rightarrow> (string, string list) omap \<Rightarrow> file_index
    \<Rightarrow> def_index \<Rightarrow> node_id list" where
  \<comment> \<open>Tier A: the definitions the imports of this name pin, a set\<close>
  "import_candidates nm file fcrate scope index defs =
     remdups (List.map_filter (\<lambda>usepath.
        if last_seg usepath \<noteq> nm then None
        else case rsplit_once ''::'' usepath of
          None \<Rightarrow> None
        | Some (module_path, _) \<Rightarrow> file_def (resolve_use fcrate module_path index) nm defs)
       (paths_of file scope))"

definition resolve_bare :: "string \<Rightarrow> string \<Rightarrow> string \<Rightarrow> string \<Rightarrow> (string, string list) omap \<Rightarrow> file_index
    \<Rightarrow> def_index \<Rightarrow> (string, nat) omap \<Rightarrow> (string, node_id) omap \<Rightarrow> node_id option" where
  \<comment> \<open>the ladder: import scope, own module, unique in the graph\<close>
  "resolve_bare nm file fcrate fmodule scope index defs name_count name_first =
     (case import_candidates nm file fcrate scope index defs of
        [t] \<Rightarrow> Some t
      | _ # _ # _ \<Rightarrow> None
      | [] \<Rightarrow> (case map_of defs (fcrate, fmodule, nm) of
          Some t \<Rightarrow> Some t
        | None \<Rightarrow> if map_of name_count nm = Some 1 then map_of name_first nm else None))"

definition rewrite_alias :: "(string, string) omap \<Rightarrow> string \<Rightarrow> string" where
  \<comment> \<open>a leading segment that is a renamed import is replaced by its target, once\<close>
  "rewrite_alias aliases nm = (case map_of aliases (first_seg nm) of
      None \<Rightarrow> nm
    | Some target \<Rightarrow> (case split_once ''::'' nm of
        Some (_, rest) \<Rightarrow> target @ ''::'' @ rest | None \<Rightarrow> target))"

record name_tables =
  nt_files :: file_index
  nt_defs :: def_index
  nt_count :: "(string, nat) omap"
  nt_first :: "(string, node_id) omap"
  nt_scope :: "(string, string list) omap"

definition type_method_hit :: "string \<Rightarrow> (string \<times> string, node_id) omap \<Rightarrow> (string \<times> string, nat) omap \<Rightarrow> node_id option" where
  "type_method_hit callee type_method tm_count =
     (case rsplit_once ''::'' callee of
        None \<Rightarrow> None
      | Some (ty, method) \<Rightarrow>
          if find_sub ''::'' ty \<noteq> None then None
          else if map_of tm_count (ty, method) = Some 1 then map_of type_method (ty, method) else None)"

definition resolve_plain :: "string \<Rightarrow> string \<Rightarrow> string \<Rightarrow> string \<Rightarrow> name_tables
    \<Rightarrow> (string \<times> string, node_id) omap \<Rightarrow> (string \<times> string, nat) omap \<Rightarrow> node_id option" where
  \<comment> \<open>\<open>resolve_call\<close> once aliases are out of the way\<close>
  "resolve_plain file callee fcrate fmodule nt type_method tm_count =
     (case strip_prefix callee ''Self::'' of
        Some method \<Rightarrow> map_of (nt_defs nt) (fcrate, fmodule, method)
      | None \<Rightarrow>
          if find_sub ''::'' callee \<noteq> None
          then (case (resolve_qualified file callee fcrate (nt_scope nt) (nt_files nt) (nt_defs nt),
                      type_method_hit callee type_method tm_count) of
                  (Some m, Some t) \<Rightarrow> if m = t then Some m else None
                | (Some m, None) \<Rightarrow> Some m
                | (None, t) \<Rightarrow> t)
          else resolve_bare callee file fcrate fmodule (nt_scope nt) (nt_files nt) (nt_defs nt) (nt_count nt) (nt_first nt))"

definition resolve_call :: "string \<Rightarrow> string \<Rightarrow> string \<Rightarrow> string \<Rightarrow> name_tables \<Rightarrow> (string, string) omap
    \<Rightarrow> (string \<times> string, node_id) omap \<Rightarrow> (string \<times> string, nat) omap \<Rightarrow> node_id option" where
  "resolve_call file callee fcrate fmodule nt aliases type_method tm_count =
     resolve_plain file (rewrite_alias aliases callee) fcrate fmodule nt type_method tm_count"

subsection \<open>The pending tables\<close>

type_synonym site = "string \<times> string \<times> nat"   \<comment> \<open>caller, callee, line\<close>

record pending =
  p_calls :: "(string, site list) omap"
  p_data_refs :: "(string, site list) omap"
  p_aliases :: "(string, (string \<times> string) list) omap"
  p_methods :: "(string, (string \<times> string) list) omap"
  p_data_symbols :: "(node_id, unit) omap"

definition pending_empty :: pending where
  "pending_empty = \<lparr>p_calls = [], p_data_refs = [], p_aliases = [], p_methods = [], p_data_symbols = []\<rparr>"

definition put_or_drop :: "string \<Rightarrow> 'a list \<Rightarrow> (string, 'a list) omap \<Rightarrow> (string, 'a list) omap" where
  "put_or_drop file xs m = (if xs = [] then om_remove file m else om_insert file xs m)"

definition set_pending_calls :: "string \<Rightarrow> site list \<Rightarrow> pending \<Rightarrow> pending" where
  "set_pending_calls file calls p = p\<lparr>p_calls := put_or_drop file calls (p_calls p)\<rparr>"

definition set_pending_data_refs :: "string \<Rightarrow> site list \<Rightarrow> pending \<Rightarrow> pending" where
  "set_pending_data_refs file refs p = p\<lparr>p_data_refs := put_or_drop file refs (p_data_refs p)\<rparr>"

definition set_pending_aliases :: "string \<Rightarrow> (string \<times> string) list \<Rightarrow> pending \<Rightarrow> pending" where
  "set_pending_aliases file aliases p = p\<lparr>p_aliases := put_or_drop file aliases (p_aliases p)\<rparr>"

definition set_pending_methods :: "string \<Rightarrow> (string \<times> string) list \<Rightarrow> pending \<Rightarrow> pending" where
  "set_pending_methods file methods p = p\<lparr>p_methods := put_or_drop file methods (p_methods p)\<rparr>"

definition mark_data_symbol :: "node_id \<Rightarrow> pending \<Rightarrow> pending" where
  "mark_data_symbol i p = p\<lparr>p_data_symbols := om_insert i () (p_data_symbols p)\<rparr>"

subsection \<open>The indices\<close>

definition index_file :: "node_id \<Rightarrow> string \<Rightarrow> file_index \<Rightarrow> file_index" where
  "index_file i path index = (case crate_and_module path of None \<Rightarrow> index | Some km \<Rightarrow> om_insert km i index)"

definition index_use :: "string \<Rightarrow> (string, string list) omap \<Rightarrow> (string, string list) omap" where
  "index_use rest scope = (case split_once '':'' rest of None \<Rightarrow> scope
     | Some (f, usepath) \<Rightarrow> om_insert f (paths_of f scope @ [usepath]) scope)"

definition index_name :: "string \<Rightarrow> node_id \<Rightarrow> name_tables \<Rightarrow> name_tables" where
  \<comment> \<open>\<open>*count.entry(name).or_default() += 1; first.entry(name).or_insert(id)\<close>\<close>
  "index_name nm i nt =
     nt\<lparr>nt_count := om_insert nm (Suc (case map_of (nt_count nt) nm of Some k \<Rightarrow> k | None \<Rightarrow> 0)) (nt_count nt),
        nt_first := (if om_contains (nt_first nt) nm then nt_first nt else om_insert nm i (nt_first nt))\<rparr>"

definition index_def :: "string \<Rightarrow> string \<Rightarrow> node_id \<Rightarrow> def_index \<Rightarrow> def_index" where
  "index_def file nm i defs =
     (case crate_and_module file of None \<Rightarrow> defs | Some (c, m) \<Rightarrow> om_insert (c, m, nm) i defs)"

definition nt_empty :: name_tables where
  "nt_empty = \<lparr>nt_files = [], nt_defs = [], nt_count = [], nt_first = [], nt_scope = []\<rparr>"

definition index_paths :: "node_id \<Rightarrow> name_tables \<Rightarrow> name_tables" where
  \<comment> \<open>the \<open>file:\<close> and \<open>use:\<close> nodes\<close>
  "index_paths i nt = (case strip_prefix i ''file:'' of
      Some path \<Rightarrow> nt\<lparr>nt_files := index_file i path (nt_files nt)\<rparr>
    | None \<Rightarrow> (case strip_prefix i ''use:'' of
        Some rest \<Rightarrow> nt\<lparr>nt_scope := index_use rest (nt_scope nt)\<rparr>
      | None \<Rightarrow> nt))"

definition index_symbol :: "node_id \<Rightarrow> name_tables \<Rightarrow> name_tables" where
  \<comment> \<open>the \<open>sym:\<close> nodes\<close>
  "index_symbol i nt = (case strip_prefix i ''sym:'' of None \<Rightarrow> nt
    | Some rest \<Rightarrow> (case rsplit_once '':'' rest of None \<Rightarrow> nt
    | Some (file, nm) \<Rightarrow> index_name nm i (nt\<lparr>nt_defs := index_def file nm i (nt_defs nt)\<rparr>)))"

definition call_tables :: "node_id list \<Rightarrow> name_tables" where
  "call_tables ids = fold (\<lambda>i nt. index_symbol i (index_paths i nt)) ids nt_empty"

definition index_data :: "node_id \<Rightarrow> name_tables \<Rightarrow> name_tables" where
  \<comment> \<open>a marked data symbol\<close>
  "index_data i nt =
     (let nt1 = (case strip_prefix i ''sym:'' of None \<Rightarrow> nt
           | Some rest \<Rightarrow> (case rsplit_once '':'' rest of None \<Rightarrow> nt
           | Some (file, nm) \<Rightarrow> nt\<lparr>nt_defs := index_def file nm i (nt_defs nt)\<rparr>))
      in case rsplit_once '':'' i of None \<Rightarrow> nt1 | Some (_, nm) \<Rightarrow> index_name nm i nt1)"

definition data_tables :: "pending \<Rightarrow> node_id list \<Rightarrow> name_tables" where
  "data_tables p ids = fold index_paths ids
     (fold index_data (filter (\<lambda>i. i \<in> set ids) (map fst (p_data_symbols p))) nt_empty)"

definition aliases_of :: "pending \<Rightarrow> string \<Rightarrow> (string, string) omap" where
  \<comment> \<open>the alias index of a file; the first binding wins\<close>
  "aliases_of p file = fold (\<lambda>(local, target) m. if om_contains m local then m else om_insert local target m)
     (case map_of (p_aliases p) file of Some xs \<Rightarrow> xs | None \<Rightarrow> []) []"

definition sym_of :: "string \<Rightarrow> string \<Rightarrow> node_id" where
  "sym_of file nm = ''sym:'' @ file @ '':'' @ nm"

definition method_facts :: "pending \<Rightarrow> (string \<times> string \<times> string) list" where
  "method_facts p = concat (map (\<lambda>(file, ms). map (\<lambda>(ty, m). (file, ty, m)) ms) (p_methods p))"

definition method_counts :: "pending \<Rightarrow> (string \<times> string, nat) omap" where
  "method_counts p = fold (\<lambda>(file, ty, m) c.
     om_insert (ty, m) (Suc (case map_of c (ty, m) of Some k \<Rightarrow> k | None \<Rightarrow> 0)) c) (method_facts p) []"

definition method_symbols :: "pending \<Rightarrow> node_id list \<Rightarrow> (string \<times> string, node_id) omap" where
  "method_symbols p ids = fold (\<lambda>(file, ty, m) t.
     if sym_of file m \<in> set ids \<and> \<not> om_contains t (ty, m) then om_insert (ty, m) (sym_of file m) t else t)
     (method_facts p) []"

subsection \<open>The passes\<close>

type_synonym link = "node_id \<times> node_id"

definition home_of :: "string \<Rightarrow> string \<times> string" where
  \<comment> \<open>\<open>crate_and_module(file).unwrap_or_default()\<close>\<close>
  "home_of file = (case crate_and_module file of Some km \<Rightarrow> km | None \<Rightarrow> ([], []))"

definition site_link :: "node_id list \<Rightarrow> string \<Rightarrow> (string \<Rightarrow> node_id option) \<Rightarrow> site \<Rightarrow> link option" where
  "site_link ids file resolve = (\<lambda>(caller, callee, _).
     (if sym_of file caller \<notin> set ids then None
      else case resolve callee of None \<Rightarrow> None
        | Some t \<Rightarrow> if t = sym_of file caller then None else Some (sym_of file caller, t)))"

definition site_links :: "node_id list \<Rightarrow> (string, site list) omap \<Rightarrow> (string \<Rightarrow> string \<Rightarrow> node_id option) \<Rightarrow> link list" where
  \<comment> \<open>\<open>to_add.sort(); to_add.dedup()\<close>\<close>
  "site_links ids table resolve = remdups_adj (sort (concat (map (\<lambda>(file, sites).
     List.map_filter (site_link ids file (resolve file)) sites) table)))"

definition call_target :: "pending \<Rightarrow> node_id list \<Rightarrow> string \<Rightarrow> string \<Rightarrow> node_id option" where
  "call_target p ids file callee =
     resolve_call file callee (fst (home_of file)) (snd (home_of file)) (call_tables ids) (aliases_of p file)
       (method_symbols p ids) (method_counts p)"

definition data_target :: "pending \<Rightarrow> node_id list \<Rightarrow> string \<Rightarrow> string \<Rightarrow> node_id option" where
  "data_target p ids file nm =
     (let nt = data_tables p ids; rewritten = rewrite_alias (aliases_of p file) nm
      in if find_sub ''::'' rewritten \<noteq> None
         then resolve_qualified file rewritten (fst (home_of file)) (nt_scope nt) (nt_files nt) (nt_defs nt)
         else resolve_bare rewritten file (fst (home_of file)) (snd (home_of file)) (nt_scope nt) (nt_files nt)
                (nt_defs nt) (nt_count nt) (nt_first nt))"

definition link_add :: "f64 \<Rightarrow> node_id \<times> node_id \<times> edge_type \<Rightarrow> nat \<times> mem_graph \<Rightarrow> nat \<times> mem_graph" where
  \<comment> \<open>\<open>if self.add_edge(s, t, w, ty) { added += 1 }\<close>\<close>
  "link_add w = (\<lambda>(s, t, ty) (added, g). (case add_edge s t w ty g of
      (ok, g') \<Rightarrow> (if ok then added + 1 else added, g')))"

definition add_links :: "f64 \<Rightarrow> (node_id \<times> node_id \<times> edge_type) list \<Rightarrow> mem_graph \<Rightarrow> nat \<times> mem_graph" where
  "add_links w ls g = fold (link_add w) ls (0, g)"

abbreviation ids_of_graph :: "mem_graph \<Rightarrow> node_id list" where
  "ids_of_graph g \<equiv> map fst (g_nodes g)"

definition use_links :: "node_id list \<Rightarrow> file_index \<Rightarrow> (node_id \<times> node_id \<times> edge_type) list" where
  \<comment> \<open>importer to defining file\<close>
  "use_links ids index = List.map_filter (\<lambda>i.
     (case strip_prefix i ''use:'' of None \<Rightarrow> None
      | Some rest \<Rightarrow> (case split_once '':'' rest of None \<Rightarrow> None
      | Some (file, usepath) \<Rightarrow>
          if ''file:'' @ file \<notin> set ids then None
          else (case resolve_use (fst (home_of file)) usepath index of None \<Rightarrow> None
            | Some target \<Rightarrow> if target = ''file:'' @ file then None
                             else Some (''file:'' @ file, target, DependsOn))))) ids"

definition module_links :: "file_index \<Rightarrow> (node_id \<times> node_id \<times> edge_type) list" where
  \<comment> \<open>parent module to sub-module\<close>
  "module_links index = List.map_filter (\<lambda>((krate, module), child).
     if module = [] then None
     else (case map_of index (krate, case rsplit_once ''::'' module of Some (p, _) \<Rightarrow> p | None \<Rightarrow> []) of
        None \<Rightarrow> None
      | Some parent \<Rightarrow> if parent = child then None else Some (parent, child, Contains))) index"

definition import_index :: "node_id list \<Rightarrow> file_index" where
  "import_index ids = fold (\<lambda>i index. case strip_prefix i ''file:'' of
      None \<Rightarrow> index | Some path \<Rightarrow> index_file i path index) ids []"

definition import_links :: "node_id list \<Rightarrow> (node_id \<times> node_id \<times> edge_type) list" where
  "import_links ids = use_links ids (import_index ids) @ module_links (import_index ids)"

definition link_module_imports :: "mem_graph \<Rightarrow> nat \<times> mem_graph" where
  "link_module_imports g = add_links (f64_rat 85 100) (import_links (ids_of_graph g)) g"

definition call_links :: "pending \<Rightarrow> node_id list \<Rightarrow> link list" where
  "call_links p ids = site_links ids (p_calls p) (call_target p ids)"

definition resolve_symbol_calls :: "pending \<Rightarrow> mem_graph \<Rightarrow> nat \<times> mem_graph" where
  "resolve_symbol_calls p g =
     add_links (f64_rat 75 100) (map (\<lambda>(s, t). (s, t, Calls)) (call_links p (ids_of_graph g))) g"

definition data_links :: "pending \<Rightarrow> node_id list \<Rightarrow> link list" where
  "data_links p ids = site_links ids (p_data_refs p) (data_target p ids)"

definition resolve_data_flow :: "pending \<Rightarrow> mem_graph \<Rightarrow> nat \<times> mem_graph" where
  "resolve_data_flow p g =
     add_links (f64_rat 6 10) (map (\<lambda>(s, t). (s, t, DataFlow)) (data_links p (ids_of_graph g))) g"

definition pending_source :: "node_id \<Rightarrow> (string, 'a) omap \<Rightarrow> bool" where
  "pending_source i table = (case sym_file i of None \<Rightarrow> False | Some f \<Rightarrow> om_contains table f)"

definition resolution_owned :: "pending \<Rightarrow> edge_key \<Rightarrow> bool" where
  "resolution_owned p = (\<lambda>(s, t, ty).
     (if ty = DependsOn \<or> ty = Contains then starts_with s ''file:'' \<and> starts_with t ''file:''
      else if ty = Calls then pending_source s (p_calls p)
      else if ty = DataFlow then pending_source s (p_data_refs p)
      else False))"

definition prune_resolution_edges :: "pending \<Rightarrow> mem_graph \<Rightarrow> nat \<times> mem_graph" where
  "prune_resolution_edges p g =
     (let g' = g\<lparr>g_edges := filter (\<lambda>e. \<not> resolution_owned p (edge_key e)) (g_edges g)\<rparr>
      in (length (g_edges g) - length (g_edges g'), g'))"

definition resolve_all :: "pending \<Rightarrow> mem_graph \<Rightarrow> nat \<times> mem_graph" where
  "resolve_all p g =
     (let (_, g1) = prune_resolution_edges p g;
          (cross, g2) = link_module_imports g1;
          (_, g3) = resolve_symbol_calls p g2;
          (_, g4) = resolve_data_flow p g3
      in (cross, g4))"

end
