(* ===== verification/GraphReach.thy ===== *)
theory GraphReach
  imports GraphInv Resolve
begin

text \<open>
  The operations of the memory graph as a step relation, and the invariant of every state it
  reaches: ordered maps, edges between resident nodes only, and a bounded resident set.
\<close>

lemma forget_shadow_calm: "calm g (forget_cold_shadow env i g)"
proof -
  define p1 where "p1 = (case map_of (g_cold g) i of
      Some old \<Rightarrow>
        (let ga = g\<lparr>g_cold := om_remove i (g_cold g)\<rparr>;
             gb = (case cn_spill old of Some (h, _) \<Rightarrow> release_content_blob_if_orphan h ga | None \<Rightarrow> ga)
         in (map (other_end i) (cn_edges old), gb))
    | None \<Rightarrow> ([], g))"
  obtain os1 g1 where p1': "p1 = (os1, g1)" by (cases p1)
  obtain husk g2 where d: "deep_get env i g1 = (husk, g2)" by (cases "deep_get env i g1")
  define p3 where "p3 = (case husk of
      Some hk \<Rightarrow>
        (let (_, ga) = with_husks (hs_delete i) (Inr ()) g2
         in (unpack_adj (dh_adj hk), release_blob_if_orphan env (fst (dh_body hk)) ga))
    | None \<Rightarrow> ([], g2))"
  obtain os2 g3 where p3': "p3 = (os2, g3)" by (cases p3)
  have c1: "calm g g1"
    using p1' calm_trans [OF calm_remove [of g i] calm_core [OF core_release(1)]] calm_remove [of g i]
    by (auto simp: p1_def Let_def split: option.splits)
  have c2: "calm g1 g2" using core_deep_get [of env i g1] d by (simp add: calm_core)
  have "core g3 = core g2"
    using p3' core_with_husks [of "hs_delete i" "Inr ()" g2] core_release(2)
    by (auto simp: p3_def Let_def split: option.splits prod.splits)
  then have c3: "calm g2 g3" by (rule calm_core)
  have "forget_cold_shadow env i g = fold (graph_radj_del i) (os1 @ os2) g3"
    unfolding forget_cold_shadow_def Let_def p1_def [unfolded Let_def, symmetric] p1' prod.case d
      p3_def [unfolded Let_def, symmetric] p3' ..
  moreover have "calm g3 (fold (graph_radj_del i) (os1 @ os2) g3)" by (rule calm_core [OF core_fold_radj(2)])
  ultimately show ?thesis using calm_trans [OF c1 calm_trans [OF c2 c3]] calm_trans by metis
qed

lemma enforce_paging_ok:
  assumes "graph_ok g"
  shows "graph_ok (enforce_paging env g)" "length (g_nodes (enforce_paging env g)) \<le> g_max g"
    "g_max (enforce_paging env g) = g_max g"
proof -
  have "graph_ok (enforce_paging env g) \<and> length (g_nodes (enforce_paging env g)) \<le> g_max g
    \<and> g_max (enforce_paging env g) = g_max g"
  proof (cases "length (g_nodes g) \<le> g_max g")
    case True
    with assms show ?thesis by (simp add: enforce_paging_def)
  next
    case False
    obtain vs g1 where ev: "evictions env g = (vs, g1)" by (cases "evictions env g")
    let ?g2 = "fold demote vs g1"
    let ?es = "map (\<lambda>(i, n). (i, eviction_priority g (i, node_score env g n))) (g_nodes g)"
    note spec = evictions_spec [OF ev]
    note f = cache_eq_fields [OF spec(1)]
    have ok1: "graph_ok g1" using graph_ok_calm [OF assms calm_core [OF core_cache [OF spec(1)]]] .
    note ok2 = graph_ok_fold_demote [OF ok1, of vs]
    have keys: "map fst ?es = map fst (g_nodes g)" by (simp add: comp_def case_prod_unfold)
    have dist: "distinct (map fst (sort_by coldest_cmp ?es))"
    proof -
      have "distinct (map fst ?es)" unfolding keys by (rule om_ok_distinct [OF graph_okD(1) [OF assms]])
      then have "inj_on fst (set ?es)" "distinct ?es" by (simp_all only: distinct_map)
      then show ?thesis by (simp add: distinct_map)
    qed
    have lv: "length vs = length (g_nodes g) - g_max g" by (simp add: spec(2))
    have dv: "distinct vs" unfolding spec(2) take_map [symmetric] by (rule distinct_take [OF dist])
    have sv: "set vs \<subseteq> fst ` set (g_nodes g)"
    proof -
      have "set vs \<subseteq> set (map fst (sort_by coldest_cmp ?es))"
        unfolding spec(2) take_map [symmetric] by (rule set_take_subset)
      also have "\<dots> = set (map fst (g_nodes g))" unfolding set_map set_sort_by keys [symmetric] by simp
      finally show ?thesis by simp
    qed
    have "length (g_nodes ?g2) = length (filter (\<lambda>j. j \<notin> set vs) (map fst (g_nodes g)))"
      by (simp add: fold_demote_nodes f(1) filter_map comp_def case_prod_unfold)
    also have "\<dots> = length (g_nodes g) - length vs"
    proof -
      have d: "distinct (map fst (g_nodes g))" by (rule om_ok_distinct [OF graph_okD(1) [OF assms]])
      have "length (filter (\<lambda>j. j \<notin> set vs) (map fst (g_nodes g))) = card (set (map fst (g_nodes g)) - set vs)"
        using d by (metis distinct_card distinct_filter set_diff_eq set_filter)
      also have "\<dots> = length (g_nodes g) - length vs"
        using card_Diff_subset [of "set vs" "set (map fst (g_nodes g))"] sv distinct_card [OF dv] distinct_card [OF d]
        by simp
      finally show ?thesis .
    qed
    finally have len: "length (g_nodes ?g2) \<le> g_max g" using lv False by simp
    have p: "snd (prune_dangling_edges ?g2) = ?g2" by (rule prune_id) (use ok2 in blast)
    have e: "enforce_paging env g = enforce_budgets env ?g2"
      using False ev p by (simp add: enforce_paging_def)
    have c: "calm ?g2 (enforce_paging env g)" unfolding e by (rule calm_enforce_budgets)
    show ?thesis
      using graph_ok_calm [OF conjunct1 [OF ok2] c] c len ok2 f(4) by (simp add: calm_def)
  qed
  then show "graph_ok (enforce_paging env g)" "length (g_nodes (enforce_paging env g)) \<le> g_max g"
    "g_max (enforce_paging env g) = g_max g" by simp_all
qed

lemma upsert_ok:
  assumes "graph_ok g"
  shows "graph_ok (upsert_node env i label content ty g)"
    "length (g_nodes (upsert_node env i label content ty g)) \<le> g_max g"
    "g_max (upsert_node env i label content ty g) = g_max g"
proof -
  let ?g = "forget_cold_shadow env i g"
  note c = forget_shadow_calm [of g env i]
  have ok: "graph_ok ?g" by (rule graph_ok_calm [OF assms c])
  have ins: "graph_ok (?g\<lparr>g_nodes := om_insert i n (g_nodes ?g)\<rparr>)" for n
    using ok by (auto simp: graph_ok_def list_all_iff intro: inv_intros)
  have m: "g_max (?g\<lparr>g_nodes := om_insert i n (g_nodes ?g)\<rparr>) = g_max g" for n
    using c by (simp add: calm_def)
  obtain n where u: "upsert_node env i label content ty g = enforce_paging env (?g\<lparr>g_nodes := om_insert i n (g_nodes ?g)\<rparr>)"
    unfolding upsert_node_def Let_def by blast
  show "graph_ok (upsert_node env i label content ty g)"
    "length (g_nodes (upsert_node env i label content ty g)) \<le> g_max g"
    "g_max (upsert_node env i label content ty g) = g_max g"
    unfolding u using enforce_paging_ok [OF ins [of n], of env] m [of n] by simp_all
qed

lemma remove_node_ok:
  assumes "graph_ok g"
  shows "graph_ok (remove_node env i g)" "length (g_nodes (remove_node env i g)) \<le> length (g_nodes g)"
    "g_max (remove_node env i g) = g_max g"
proof -
  let ?g0 = "g\<lparr>g_nodes := om_remove i (g_nodes g)\<rparr>"
  let ?g1 = "forget_cold_shadow env i ?g0"
  have c: "calm ?g0 ?g1" by (rule forget_shadow_calm)
  have f: "g_nodes ?g1 = om_remove i (g_nodes g)" "g_edges ?g1 = g_edges g" "g_max ?g1 = g_max g" "om_ok (g_cold ?g1)"
    using c graph_okD(2) [OF assms] by (simp_all add: calm_def)
  have len: "length (om_remove i (g_nodes g)) \<le> length (g_nodes g)" by (simp add: om_remove_def)
  show "graph_ok (remove_node env i g)"
    using assms by (auto simp: remove_node_def graph_ok_def f list_all_iff incident_def intro: inv_intros)
  show "length (g_nodes (remove_node env i g)) \<le> length (g_nodes g)" "g_max (remove_node env i g) = g_max g"
    using len by (simp_all add: remove_node_def Let_def f)
qed

lemma add_edge_ok:
  assumes "graph_ok g"
  shows "graph_ok (snd (add_edge s t w ty g))" "g_nodes (snd (add_edge s t w ty g)) = g_nodes g"
    "g_max (snd (add_edge s t w ty g)) = g_max g"
  using assms by (auto simp: add_edge_def graph_ok_def Let_def)

lemma link_add_ok:
  assumes "graph_ok g"
  shows "graph_ok (snd (fold (link_add w) ls (n, g))) \<and> g_nodes (snd (fold (link_add w) ls (n, g))) = g_nodes g
    \<and> g_max (snd (fold (link_add w) ls (n, g))) = g_max g"
  using assms
proof (induction ls arbitrary: n g)
  case (Cons l ls)
  obtain s t ty where l: "l = (s, t, ty)" by (cases l)
  obtain ok g1 where a: "add_edge s t w ty g = (ok, g1)" by (cases "add_edge s t w ty g")
  have "graph_ok g1" "g_nodes g1 = g_nodes g" "g_max g1 = g_max g"
    using add_edge_ok [OF Cons.prems, of s t w ty] a by simp_all
  with Cons.IH [of g1] show ?case by (simp add: l link_add_def a)
qed simp

lemma add_links_ok:
  assumes "graph_ok g"
  shows "graph_ok (snd (add_links w ls g))" "g_nodes (snd (add_links w ls g)) = g_nodes g"
    "g_max (snd (add_links w ls g)) = g_max g"
  using link_add_ok [OF assms, of w ls 0] by (simp_all add: add_links_def)

lemma prune_resolution_ok:
  assumes "graph_ok g"
  shows "graph_ok (snd (prune_resolution_edges p g))" "g_nodes (snd (prune_resolution_edges p g)) = g_nodes g"
    "g_max (snd (prune_resolution_edges p g)) = g_max g"
  using assms by (auto simp: prune_resolution_edges_def graph_ok_def Let_def list_all_iff)

lemmas pass_defs = link_module_imports_def resolve_symbol_calls_def resolve_data_flow_def

lemma resolve_all_ok:
  assumes "graph_ok g"
  shows "graph_ok (snd (resolve_all p g))" "g_nodes (snd (resolve_all p g)) = g_nodes g"
    "g_max (snd (resolve_all p g)) = g_max g"
  using add_links_ok prune_resolution_ok [OF assms, of p]
  by (simp_all add: resolve_all_def pass_defs case_prod_unfold Let_def)

subsection \<open>Page-in\<close>

text \<open>The fault steps may add one entry to the cold map, whatever its blob parses to.\<close>

definition cold_only :: "mem_graph \<Rightarrow> mem_graph \<Rightarrow> bool" where
  "cold_only g g' \<longleftrightarrow> g_nodes g' = g_nodes g \<and> g_edges g' = g_edges g \<and> g_max g' = g_max g
     \<and> (om_ok (g_cold g) \<longrightarrow> om_ok (g_cold g'))"

lemma cold_only_refl [simp]: "cold_only g g"
  by (simp add: cold_only_def)

lemma cold_only_trans: "cold_only g g' \<Longrightarrow> cold_only g' g'' \<Longrightarrow> cold_only g g''"
  by (auto simp: cold_only_def)

lemma cold_only_calm: "calm g g' \<Longrightarrow> cold_only g g'"
  by (simp add: calm_def cold_only_def)

lemma cold_only_ok: "graph_ok g \<Longrightarrow> cold_only g g' \<Longrightarrow> graph_ok g'"
  by (simp add: graph_ok_def cold_only_def)

lemma cold_only_core: "core g' = core g \<Longrightarrow> cold_only g g'"
  by (rule cold_only_calm, rule calm_core)

lemma cold_only_insert: "cold_only g (g\<lparr>g_cold := om_insert i c (g_cold g)\<rparr>)"
  by (auto simp: cold_only_def intro: inv_intros)

lemma fault_husk_cold_only: "cold_only g (snd (fault_husk env i g))"
proof -
  obtain husk g1 where d: "deep_get env i g = (husk, g1)" by (cases "deep_get env i g")
  have c1: "cold_only g g1" using core_deep_get [of env i g] d by (simp add: cold_only_core)
  show ?thesis
  proof (cases husk)
    case None
    with d c1 show ?thesis by (simp add: fault_husk_def)
  next
    case (Some hk)
    show ?thesis
    proof (cases "Option.bind (spill_fetch env (fst (dh_body hk)) g1) (en_cold_parse env)")
      case None
      with d Some c1 show ?thesis by (simp add: fault_husk_def)
    next
      case c: (Some c)
      obtain r g2 where del: "with_husks (hs_delete i) (Inr ()) g1 = (r, g2)"
        by (cases "with_husks (hs_delete i) (Inr ()) g1")
      have c2: "cold_only g g2"
        using core_with_husks [of "hs_delete i" "Inr ()" g1] del cold_only_trans [OF c1] by (simp add: cold_only_core)
      from d Some c del show ?thesis
        using cold_only_trans [OF c2 cold_only_trans [OF cold_only_insert cold_only_core [OF core_release(2)]]]
        by (simp add: fault_husk_def)
    qed
  qed
qed

lemma fault_content_cold_only: "cold_only g (snd (fault_content env i g))"
  using cold_only_trans [OF cold_only_calm [OF calm_update] cold_only_core [OF core_release(1)]]
  by (auto simp: fault_content_def split: option.splits)

lemma graph_ok_relink: "graph_ok g \<Longrightarrow> graph_ok (relink e g)"
  by (auto simp: relink_def graph_ok_def)

lemma relink_fields: "g_nodes (relink e g) = g_nodes g" "g_cold (relink e g) = g_cold g" "g_max (relink e g) = g_max g"
  by (simp_all add: relink_def)

lemma fold_relink: "graph_ok g \<Longrightarrow> graph_ok (fold relink es g)"
  "g_nodes (fold relink es g) = g_nodes g" "g_cold (fold relink es g) = g_cold g"
  "g_max (fold relink es g) = g_max g"
  by (induction es arbitrary: g) (simp_all add: graph_ok_relink relink_fields)

lemma restore_ok:
  assumes "graph_ok g"
  shows "graph_ok (restore i c g)" "g_max (restore i c g) = g_max g" "resident (restore i c g) i"
proof -
  let ?n = "(cn_node c)\<lparr>n_recency := f64_rat 1 1, n_last_accessed := g_clock g,
      n_access_count := (if n_access_count (cn_node c) = - 1 then - 1 else n_access_count (cn_node c) + 1)\<rparr>"
  let ?g1 = "g\<lparr>g_cold := om_remove i (g_cold g), g_nodes := om_insert i ?n (g_nodes g)\<rparr>"
  have ok1: "graph_ok ?g1" using assms by (auto simp: graph_ok_def list_all_iff intro: inv_intros)
  have r: "core (restore i c g) = core (fold relink (cn_edges c) ?g1)"
    unfolding restore_def Let_def by (rule core_fold_radj(2))
  note f = core_fields [OF r]
  show "graph_ok (restore i c g)"
    using fold_relink(1) [OF ok1, of "cn_edges c"] graph_ok_calm [OF _ calm_core [OF r]] by blast
  show "g_max (restore i c g) = g_max g" "resident (restore i c g) i"
    by (simp_all add: f fold_relink(2,4))
qed

lemma swap_victim_cache: "swap_victim env i g = (v, g1) \<Longrightarrow> cache_eq g g1"
  by (auto simp: swap_victim_def Let_def score_all_spec(2) split: if_splits prod.splits)

lemma swap_victim_none: "swap_victim env i g = (None, g1) \<Longrightarrow> length (filter (\<lambda>(j, _). j \<noteq> i) (g_nodes g)) = 0"
proof -
  assume a: "swap_victim env i g = (None, g1)"
  let ?o = "filter (\<lambda>(j, _). j \<noteq> i) (g_nodes g)"
  have n: "min_by c xs = None \<Longrightarrow> xs = []" for c :: "'a \<Rightarrow> 'a \<Rightarrow> cmp" and xs by (cases xs) simp_all
  show ?thesis
  proof (cases "length ?o \<le> 1")
    case True
    with a show ?thesis by (cases ?o) (auto simp: swap_victim_def Let_def)
  next
    case False
    obtain sc g2 where s: "score_all env ?o g = (sc, g2)" by (cases "score_all env ?o g")
    have "map_option fst (min_by coldest_cmp sc) = None"
      using a False s unfolding swap_victim_def Let_def by (simp only: if_False prod.case prod.inject) 
    then have "sc = []" using n by simp
    then show ?thesis using score_all_spec(1) [OF s] by simp
  qed
qed

lemma swap_loop_ok:
  "graph_ok g \<Longrightarrow> graph_ok (swap_loop env i g) \<and> length (g_nodes (swap_loop env i g)) \<le> max 1 (g_max g)
     \<and> g_max (swap_loop env i g) = g_max g"
proof (induction env i g rule: swap_loop.induct)
  case (1 env i g)
  show ?case
  proof (cases "length (g_nodes g) \<le> g_max g")
    case True
    with "1.prems" show ?thesis by (simp add: swap_loop.simps [of env i g])
  next
    case False
    obtain v g1 where sv: "swap_victim env i g = (v, g1)" by (cases "swap_victim env i g")
    note ce = swap_victim_cache [OF sv]
    have ok1: "graph_ok g1" by (rule graph_ok_calm [OF "1.prems" calm_core [OF core_cache [OF ce]]])
    show ?thesis
    proof (cases v)
      case None
      have "length (g_nodes g) \<le> 1"
      proof -
        have "set (map fst (g_nodes g)) \<subseteq> {i}"
          using swap_victim_none [OF sv [unfolded None]] by (auto simp: filter_empty_conv)
        then have "card (set (map fst (g_nodes g))) \<le> card {i}" by (intro card_mono) simp_all
        moreover have "distinct (map fst (g_nodes g))" by (rule om_ok_distinct [OF graph_okD(1) [OF "1.prems"]])
        ultimately have "length (map fst (g_nodes g)) \<le> card {i}" using distinct_card by metis
        then show ?thesis by simp
      qed
      with False None sv ok1 cache_eq_fields [OF ce] show ?thesis
        by (simp add: swap_loop.simps [of env i g])
    next
      case (Some w)
      have "g_max (demote w g1) = g_max g" using cache_eq_fields(4) [OF ce] by simp
      with "1.IH" [OF False sv [symmetric] Some graph_ok_demote [OF ok1]] False Some sv show ?thesis
        by (simp add: swap_loop.simps [of env i g])
    qed
  qed
qed

lemma page_in_ok:
  assumes "graph_ok g"
  shows "graph_ok (snd (page_in env i g))" "g_max (snd (page_in env i g)) = g_max g"
    "length (g_nodes (snd (page_in env i g))) \<le> max (length (g_nodes g)) (max 1 (g_max g))"
proof -
  obtain b1 g1 where h: "fault_husk env i g = (b1, g1)" by (cases "fault_husk env i g")
  obtain b2 g2 where c: "fault_content env i g1 = (b2, g2)" by (cases "fault_content env i g1")
  have o1: "cold_only g g1" using fault_husk_cold_only [of g env i] h by simp
  have o2: "cold_only g g2" using cold_only_trans [OF o1] fault_content_cold_only [of g1 env i] c by simp
  have ok: "graph_ok g1" "graph_ok g2" using cold_only_ok [OF assms] o1 o2 by blast+
  have "graph_ok (snd (page_in env i g)) \<and> g_max (snd (page_in env i g)) = g_max g
    \<and> length (g_nodes (snd (page_in env i g))) \<le> max (length (g_nodes g)) (max 1 (g_max g))"
  proof (cases "b1 \<and> b2 \<and> map_of (g_cold g2) i \<noteq> None")
    case False
    then have "snd (page_in env i g) = g1 \<or> snd (page_in env i g) = g2"
      using h c by (cases b1; cases b2; cases "map_of (g_cold g2) i") (simp_all add: page_in_def)
    then show ?thesis using o1 o2 ok by (auto simp: cold_only_def)
  next
    case True
    then obtain cn where cn: "map_of (g_cold g2) i = Some cn" by blast
    note r = restore_ok [OF ok(2), of i cn]
    let ?s = "swap_loop env i (restore i cn g2)"
    have s: "graph_ok ?s" "length (g_nodes ?s) \<le> max 1 (g_max g2)" "g_max ?s = g_max g2"
      using swap_loop_ok [OF r(1), of env i] r(2) by simp_all
    have "snd (page_in env i g) = enforce_budgets env ?s"
      using True h c cn prune_id [OF s(1)] by (simp add: page_in_def)
    then have cl: "calm ?s (snd (page_in env i g))" using calm_enforce_budgets by simp
    have "g_max g2 = g_max g" using o2 by (simp add: cold_only_def)
    then show ?thesis using graph_ok_calm [OF s(1) cl] cl s by (simp add: calm_def le_max_iff_disj)
  qed
  then show "graph_ok (snd (page_in env i g))" "g_max (snd (page_in env i g)) = g_max g"
    "length (g_nodes (snd (page_in env i g))) \<le> max (length (g_nodes g)) (max 1 (g_max g))" by simp_all
qed

subsection \<open>Attaching and flushing\<close>

lemma core_backfill: "core (backfill_radj env g) = core g"
proof -
  have "core (fold (\<lambda>(a, b). graph_radj_add a b) ps g) = core g" for ps
    by (induction ps arbitrary: g) (auto simp: core_with_radj graph_radj_add_def)
  then show ?thesis by (simp only: backfill_radj_def)
qed

lemma cold_only_attach: "cold_only g (snd (attach_cold_spill env dir b mk g))"
proof -
  have "cold_only g (enforce_cold_resident_budget env (enforce_cold_budget env (backfill_radj env
      (g\<lparr>g_spill := sp, g_husks := h, g_radj := r\<rparr>))))" for sp h r
  proof -
    let ?g = "g\<lparr>g_spill := sp, g_husks := h, g_radj := r\<rparr>"
    have "cold_only g ?g" by (simp add: cold_only_def)
    moreover have "cold_only ?g (backfill_radj env ?g)" by (rule cold_only_core [OF core_backfill])
    ultimately show ?thesis
      using cold_only_calm [OF calm_trans [OF calm_cold_budget calm_resident_budget]] cold_only_trans by metis
  qed
  then show ?thesis by (simp add: attach_cold_spill_def Let_def split: sum.splits option.splits)
qed

lemma cold_only_flush: "cold_only g (snd (flush_cold_tier g))"
proof -
  obtain r g1 where w: "with_husks hs_flush (Inr ()) g = (r, g1)" by (cases "with_husks hs_flush (Inr ()) g")
  have c: "core g1 = core g" using core_with_husks [of hs_flush "Inr ()" g] w by simp
  have "core (g1\<lparr>g_radj := a, g_disk := d\<rparr>) = core g1" for a d by (simp add: core_def)
  with c w show ?thesis
    by (auto simp: flush_cold_tier_def case_prod_beta Let_def intro!: cold_only_core split: sum.splits option.splits)
qed

lemma core_cold_neighbours: "core (snd (cold_neighbours i g)) = core g"
  using core_keep_cold by (auto simp: cold_neighbours_def Let_def case_prod_beta split: option.splits)

lemma cache_select: "cache_eq g (snd (select_context_window env m g))"
  using score_all_spec(2) [of env "g_nodes g" g]
  by (cases "score_all env (g_nodes g) g") (simp add: select_context_window_def)

subsection \<open>Reachable states\<close>

inductive graph_step :: "mem_env \<Rightarrow> mem_graph \<Rightarrow> mem_graph \<Rightarrow> bool" for env :: mem_env where
  tick: "graph_step env g (tick g)"
| upsert: "graph_step env g (upsert_node env i label content ty g)"
| add_edge: "graph_step env g (snd (add_edge s t w ety g))"
| remove: "graph_step env g (remove_node env i g)"
| set_failure: "graph_step env g (set_failure_relevance i r g)"
| set_trust: "graph_step env g (set_trust i r g)"
| stamp: "graph_step env g (stamp_file_trust p r g)"
| propagate_trust: "graph_step env g (snd (propagate_trust d g))"
| touch: "graph_step env g (snd (touch i g))"
| set_state: "graph_step env g (set_node_state i st g)"
| failure: "graph_step env g (propagate_failure env i depth max_depth g)"
| failure_both: "graph_step env g (propagate_failure_bidirectional env i depth max_depth g)"
| select: "graph_step env g (snd (select_context_window env m g))"
| degree: "graph_step env g (snd (node_in_degree i g))"
| enforce: "graph_step env g (enforce_paging env g)"
| page_in: "graph_step env g (snd (page_in env i g))"
| neighbours: "graph_step env g (snd (cold_neighbours i g))"
| content_budget: "graph_step env g (set_cold_content_budget env b g)"
| resident_budget: "graph_step env g (set_cold_resident_budget env b g)"
| attach: "graph_step env g (snd (attach_cold_spill env dir budget mk g))"
| detach: "graph_step env g (detach_cold_spill g)"
| flush: "graph_step env g (snd (flush_cold_tier g))"
| prune: "graph_step env g (snd (prune_dangling_edges g))"
| set_policy: "graph_step env g (set_eviction_policy p g)"
| train: "graph_step env g (train_eviction_policy ts g)"
| prune_owned: "graph_step env g (snd (prune_resolution_edges p g))"
| link_imports: "graph_step env g (snd (link_module_imports g))"
| calls: "graph_step env g (snd (resolve_symbol_calls p g))"
| data_flow: "graph_step env g (snd (resolve_data_flow p g))"
| resolve: "graph_step env g (snd (resolve_all p g))"
| set_weights: "graph_step env g (set_scoring_weights sw g)"

inductive graph_reach :: "mem_env \<Rightarrow> mem_graph \<Rightarrow> bool" for env :: mem_env where
  start: "graph_reach env (graph_new threshold max_nodes d)"
| step: "graph_reach env g \<Longrightarrow> graph_step env g g' \<Longrightarrow> graph_reach env g'"

inductive_cases graph_stepE: "graph_step env g g'"

definition bounded :: "mem_graph \<Rightarrow> bool" where
  "bounded g \<longleftrightarrow> length (g_nodes g) \<le> max 1 (g_max g)"

lemma safe_cold_only: "graph_ok g \<Longrightarrow> bounded g \<Longrightarrow> cold_only g g' \<Longrightarrow> graph_ok g' \<and> bounded g'"
  using cold_only_ok by (auto simp: bounded_def cold_only_def)

lemma safe_renode: "graph_ok g \<Longrightarrow> bounded g \<Longrightarrow> renode g g' \<Longrightarrow> graph_ok g' \<and> bounded g'"
  using graph_ok_renode [of g g'] by (auto simp: bounded_def renode_def)

lemma step_safe:
  assumes "graph_step env g g'" "graph_ok g" "bounded g"
  shows "graph_ok g' \<and> bounded g'"
  using assms(1)
proof (cases rule: graph_step.cases)
  case (upsert i label content ty)
  with upsert_ok [OF assms(2)] show ?thesis by (simp add: bounded_def) (metis le_max_iff_disj)
next
  case (add_edge s t w ety)
  with add_edge_ok [OF assms(2)] assms(3) show ?thesis by (simp add: bounded_def)
next
  case (remove i)
  from remove_node_ok [OF assms(2), of env i] assms(3) show ?thesis unfolding remove bounded_def by (simp del: max.absorb1)
next
  case enforce
  with enforce_paging_ok [OF assms(2)] show ?thesis by (simp add: bounded_def le_max_iff_disj)
next
  case (page_in i)
  from page_in_ok [OF assms(2), of env i] assms(3) show ?thesis unfolding page_in bounded_def by simp
next
  case prune
  then show ?thesis
    using assms(3) graph_ok_prune [OF graph_okD(1,2) [OF assms(2)]] by (simp add: bounded_def prune_fields)
next
  case (select m)
  with safe_cold_only [OF assms(2,3)] show ?thesis using cold_only_core [OF core_cache [OF cache_select]] by blast
next
  case (degree i)
  with safe_cold_only [OF assms(2,3)] show ?thesis using cold_only_core [OF core_cache [OF node_in_degree_cache]] by blast
next
  case (neighbours i)
  with safe_cold_only [OF assms(2,3)] show ?thesis using cold_only_core [OF core_cold_neighbours] by blast
next
  case (content_budget b)
  have "cold_only g (g\<lparr>g_content_budget := b\<rparr>)" by (simp add: cold_only_def)
  with content_budget safe_cold_only [OF assms(2,3)] show ?thesis
    unfolding set_cold_content_budget_def using cold_only_trans cold_only_calm [OF calm_content_budget] by blast
next
  case (resident_budget b)
  have "cold_only g (g\<lparr>g_resident_budget := b\<rparr>)" by (simp add: cold_only_def)
  with resident_budget safe_cold_only [OF assms(2,3)] show ?thesis
    unfolding set_cold_resident_budget_def using cold_only_trans cold_only_calm [OF calm_resident_budget] by blast
next
  case (attach dir budget mk)
  with safe_cold_only [OF assms(2,3)] cold_only_attach show ?thesis by blast
next
  case detach
  with safe_cold_only [OF assms(2,3), of g'] show ?thesis by (simp add: detach_cold_spill_def cold_only_def)
next
  case flush
  with safe_cold_only [OF assms(2,3)] cold_only_flush show ?thesis by blast
next
  case (failure i depth max_depth)
  with safe_renode [OF assms(2,3)] show ?thesis by (simp only: propagate_failure_def renode_pf)
next
  case (failure_both i depth max_depth)
  with safe_renode [OF assms(2,3)] show ?thesis by (simp only: propagate_failure_bidirectional_def renode_pb)
next
  case (prune_owned p)
  with prune_resolution_ok [OF assms(2)] assms(3) show ?thesis by (simp add: bounded_def)
next
  case link_imports
  with add_links_ok [OF assms(2)] assms(3) show ?thesis by (simp add: bounded_def pass_defs)
next
  case (calls p)
  with add_links_ok [OF assms(2)] assms(3) show ?thesis by (simp add: bounded_def pass_defs)
next
  case (data_flow p)
  with add_links_ok [OF assms(2)] assms(3) show ?thesis by (simp add: bounded_def pass_defs)
next
  case (resolve p)
  with resolve_all_ok [OF assms(2)] assms(3) show ?thesis by (simp add: bounded_def)
qed (use safe_renode [OF assms(2,3)] renode_tick renode_touch renode_state renode_stamp renode_propagate_trust
      renode_update in \<open>simp_all add: set_failure_relevance_def set_trust_def set_eviction_policy_def
        train_eviction_policy_def set_scoring_weights_def renode_def\<close>)

lemma reach_ok: "graph_reach env g \<Longrightarrow> graph_ok g \<and> bounded g"
proof (induction rule: graph_reach.induct)
  case (start threshold max_nodes d)
  show ?case by (simp add: graph_new_def graph_ok_def bounded_def)
next
  case (step g g')
  then show ?case using step_safe by blast
qed

text \<open>
  C1. In every state the graph can reach from an empty one, whatever operations ran in whatever
  order and whatever disk faults they met, no edge dangles, the node and cold maps are proper
  ordered maps, and at most \<open>max_in_memory_nodes\<close> nodes are resident (one, if that limit is 0,
  since a node paged in is never bounced out).
\<close>

theorem reachable_graph_safe:
  assumes "graph_reach env g"
  shows "om_ok (g_nodes g) \<and> om_ok (g_cold g) \<and> length (g_nodes g) \<le> max 1 (g_max g)
    \<and> (\<forall>e \<in> set (g_edges g). resident g (e_source e) \<and> resident g (e_target e))"
proof -
  have "graph_ok g \<and> bounded g" by (rule reach_ok [OF assms])
  then show ?thesis by (simp add: graph_ok_def bounded_def list_all_iff)
qed

end
