(* ===== verification/GraphPaging.thy ===== *)
theory GraphPaging
  imports GraphReach
begin

text \<open>
  What paging promises about the graph's contents: which nodes it demotes, that nothing is lost
  on the way to the cold tier, that a page-in undoes a demotion, and what the window selection
  returns.
\<close>

subsection \<open>Sorted selections\<close>

definition keyed :: "(node_id \<Rightarrow> graph_node \<Rightarrow> f64) \<Rightarrow> mem_graph \<Rightarrow> node_id \<Rightarrow> f64" where
  "keyed f g i = f i (the (map_of (g_nodes g) i))"

lemma keyed_nodes:
  assumes "om_ok (g_nodes g)"
  shows "map (\<lambda>(i, n). (i, f i n)) (g_nodes g) = map (\<lambda>i. (i, keyed f g i)) (map fst (g_nodes g))"
  using om_ok_distinct [OF assms] by (auto simp: keyed_def)

lemma sort_nodes:
  assumes "om_ok (g_nodes g)"
  shows "map fst (sort_by coldest_cmp (map (\<lambda>(i, n). (i, f i n)) (g_nodes g)))
           = sort_by (score_cmp (keyed f g)) (map fst (g_nodes g))"
    and "map fst (sort_by (\<lambda>a b. coldest_cmp b a) (map (\<lambda>(i, n). (i, f i n)) (g_nodes g)))
           = sort_by (\<lambda>a b. score_cmp (keyed f g) b a) (map fst (g_nodes g))"
  unfolding keyed_nodes [OF assms] sort_by_map
  by (simp_all add: comp_def coldest_cmp_def score_cmp_def [abs_def])

lemma in_drop_iff:
  assumes "distinct xs"
  shows "x \<in> set (drop n xs) \<longleftrightarrow> x \<in> set xs \<and> x \<notin> set (take n xs)"
proof -
  have "set xs = set (take n xs) \<union> set (drop n xs)"
    using set_append [of "take n xs" "drop n xs"] by simp
  moreover have "distinct (take n xs @ drop n xs)" using assms by simp
  ultimately show ?thesis unfolding distinct_append by blast
qed

lemma prefix_before_rest:
  assumes "total_cmp c (set xs)" "distinct xs" "d \<in> set (take k (sort_by c xs))" "e \<in> set (drop k (sort_by c xs))"
  shows "c d e \<noteq> Greater" "d \<noteq> e" "d \<in> set xs" "e \<in> set xs"
proof -
  let ?s = "sort_by c xs"
  have "sorted_wrt (\<lambda>a b. c a b \<noteq> Greater) (take k ?s @ drop k ?s)"
    using sorted_sort_by [OF assms(1)] by simp
  with assms(3,4) show "c d e \<noteq> Greater" unfolding sorted_wrt_append by blast
  have "distinct (take k ?s @ drop k ?s)" using assms(2) by simp
  with assms(3,4) show "d \<noteq> e" unfolding distinct_append by blast
  show "d \<in> set xs" "e \<in> set xs" using in_set_takeD [OF assms(3)] in_set_dropD [OF assms(4)] by simp_all
qed

subsection \<open>Greedy eviction\<close>

lemma f64_add_zero:
  assumes "\<not> f64_is_nan x"
  shows "\<not> f64_is_nan (f64_add x (f64_zero False))" "f64_key (f64_add x (f64_zero False)) = f64_key x"
proof -
  have z: "f64_mag (f64_zero False) = 0" "\<not> f64_neg_bit (f64_zero False)"
    by (simp_all add: f64_zero_def f64_mag_def f64_of_mag_def f64_neg_bit_def)
  then have zero: "\<not> f64_is_nan (f64_zero False)" "\<not> f64_is_inf (f64_zero False)" "f64_int (f64_zero False) = 0"
    "f64_key (f64_zero False) = 0"
    by (simp_all add: f64_is_nan_def f64_is_inf_def f64_inf_mag_def f64_int_def f64_num_def f64_key_def)
  show "\<not> f64_is_nan (f64_add x (f64_zero False))" "f64_key (f64_add x (f64_zero False)) = f64_key x"
  proof -
    have "\<not> f64_is_nan (f64_add x (f64_zero False)) \<and> f64_key (f64_add x (f64_zero False)) = f64_key x"
    proof (cases "f64_is_inf x")
      case True
      with zero assms show ?thesis by (simp add: f64_add_def)
    next
      case False
      then have fin: "f64_is_finite x" using assms by (simp add: f64_is_nan_def f64_is_inf_def f64_is_finite_def)
      show ?thesis
      proof (cases "f64_int x = 0")
        case True
        then have "f64_num x = 0" by (simp add: f64_int_def split: if_splits)
        then have "f64_mag x = 0"
          using div_mult_mod_eq [of "f64_mag x" "2 ^ 52"] by (simp add: f64_num_def Let_def split: if_splits)
        then have "f64_key x = 0" by (simp add: f64_key_def)
        with True False zero z assms show ?thesis by (simp add: f64_add_def)
      next
        case neq: False
        have "f64_round (f64_int x < 0) (nat \<bar>f64_int x\<bar>) 1 = x"
        proof -
          have "(f64_int x < 0) = f64_neg_bit x" "nat \<bar>f64_int x\<bar> = f64_num x"
            using neq by (auto simp: f64_int_def)
          then show ?thesis using f64_round_num [OF fin] by simp
        qed
        with neq False zero assms show ?thesis by (simp add: f64_add_def Let_def)
      qed
    qed
    then show "\<not> f64_is_nan (f64_add x (f64_zero False))" "f64_key (f64_add x (f64_zero False)) = f64_key x"
      by simp_all
  qed
qed

definition plain_score :: "mem_env \<Rightarrow> mem_graph \<Rightarrow> node_id \<Rightarrow> f64" where
  "plain_score env g = keyed (\<lambda>_ n. node_score env g n) g"

definition priority :: "mem_env \<Rightarrow> mem_graph \<Rightarrow> node_id \<Rightarrow> f64" where
  "priority env g = keyed (\<lambda>i n. eviction_priority g (i, node_score env g n)) g"

lemma evictions_sorted:
  assumes "graph_ok g"
  shows "fst (evictions env g)
    = take (length (g_nodes g) - g_max g) (sort_by (score_cmp (priority env g)) (map fst (g_nodes g)))"
proof -
  obtain vs g1 where ev: "evictions env g = (vs, g1)" by (cases "evictions env g")
  show ?thesis
    using evictions_spec(2) [OF ev] ev sort_nodes(1) [OF graph_okD(1) [OF assms]]
    by (simp add: priority_def take_map [symmetric])
qed

lemma untrained_priority:
  assumes "\<not> is_trained (g_policy g)" "\<And>i. i \<in> set is \<Longrightarrow> \<not> f64_is_nan (plain_score env g i)"
  shows "sort_by (score_cmp (priority env g)) is = sort_by (score_cmp (plain_score env g)) is"
    and "\<And>i. i \<in> set is \<Longrightarrow> \<not> f64_is_nan (priority env g i)"
proof -
  have p: "priority env g i = f64_add (plain_score env g i) (f64_zero False)" for i
    using assms(1) by (simp add: priority_def plain_score_def keyed_def eviction_priority_def)
  show n: "\<not> f64_is_nan (priority env g i)" if "i \<in> set is" for i
    unfolding p by (rule f64_add_zero(1) [OF assms(2) [OF that]])
  have "score_cmp (priority env g) i j = score_cmp (plain_score env g) i j" if "i \<in> set is" "j \<in> set is" for i j
    using f64_cmp_key [OF n [OF that(1)] n [OF that(2)]] f64_cmp_key [OF assms(2) [OF that(1)] assms(2) [OF that(2)]]
      f64_add_zero(2) [OF assms(2) [OF that(1)]] f64_add_zero(2) [OF assms(2) [OF that(2)]]
    by (simp add: score_cmp_def p)
  then show "sort_by (score_cmp (priority env g)) is = sort_by (score_cmp (plain_score env g)) is"
    by (rule sort_by_cong)
qed

lemma enforce_paging_nodes:
  assumes "\<not> length (g_nodes g) \<le> g_max g"
  shows "g_nodes (enforce_paging env g) = filter (\<lambda>(j, _). j \<notin> set (fst (evictions env g))) (g_nodes g)"
proof -
  obtain vs g1 where ev: "evictions env g = (vs, g1)" by (cases "evictions env g")
  note f = cache_eq_fields [OF evictions_spec(1) [OF ev]]
  let ?g2 = "snd (prune_dangling_edges (fold demote vs g1))"
  have "calm ?g2 (enforce_paging env g)"
    using assms ev calm_enforce_budgets by (simp add: enforce_paging_def)
  then have "g_nodes (enforce_paging env g) = g_nodes ?g2" by (simp add: calm_def)
  then show ?thesis by (simp add: prune_fields fold_demote_nodes f(1) ev)
qed

text \<open>
  Eviction is the deterministic greedy: when the resident set is over its limit and the
  policy is untrained, paging leaves exactly the limit resident, untouched, and every demoted
  node precedes every kept one in the order by score, then id.
\<close>

theorem enforce_paging_greedy:
  assumes "graph_ok g" "g_max g < length (g_nodes g)" "\<not> is_trained (g_policy g)"
    and "\<forall>i. resident g i \<longrightarrow> \<not> f64_is_nan (plain_score env g i)"
  defines "g' \<equiv> enforce_paging env g"
  shows "length (g_nodes g') = g_max g
    \<and> (\<forall>k. resident g' k \<longrightarrow> map_of (g_nodes g') k = map_of (g_nodes g) k)
    \<and> (\<forall>d k. resident g d \<and> \<not> resident g' d \<and> resident g' k
          \<longrightarrow> score_cmp (plain_score env g) d k = Less)"
proof -
  let ?ids = "map fst (g_nodes g)"
  let ?n = "length (g_nodes g) - g_max g"
  let ?s = "sort_by (score_cmp (plain_score env g)) ?ids"
  have nan: "\<not> f64_is_nan (plain_score env g i)" if "i \<in> set ?ids" for i
    using assms(4) that by (auto simp: om_contains_iff)
  have dist: "distinct ?ids" by (rule om_ok_distinct [OF graph_okD(1) [OF assms(1)]])
  have vs: "fst (evictions env g) = take ?n ?s"
    unfolding evictions_sorted [OF assms(1)] by (subst untrained_priority(1) [OF assms(3) nan]) simp_all
  have nodes: "g_nodes g' = filter (\<lambda>(j, _). j \<notin> set (take ?n ?s)) (g_nodes g)"
    unfolding g'_def using assms(2) vs by (subst enforce_paging_nodes) simp_all
  have res: "resident g' k \<longleftrightarrow> resident g k \<and> k \<notin> set (take ?n ?s)" for k
    unfolding nodes by (auto simp: om_contains_iff)
  have kept: "resident g' k \<longleftrightarrow> k \<in> set (drop ?n ?s)" for k
  proof -
    have "distinct ?s" using dist by simp
    from in_drop_iff [OF this, of k ?n] res [of k] show ?thesis by (simp add: om_contains_iff)
  qed
  have "map fst (g_nodes g') = filter (\<lambda>j. j \<notin> set (take ?n ?s)) ?ids"
    unfolding nodes by (simp add: filter_map comp_def case_prod_unfold)
  then have "distinct (map fst (g_nodes g'))" using dist by simp
  moreover have "set (map fst (g_nodes g')) = set (drop ?n ?s)"
    using kept unfolding om_contains_iff set_map by blast
  ultimately have "set (map fst (g_nodes g')) = set (drop ?n ?s)" "distinct (map fst (g_nodes g'))" by blast+
  then have "length (g_nodes g') = length (drop ?n ?s)"
    using dist by (metis distinct_card distinct_drop distinct_sort_by length_map)
  then have len: "length (g_nodes g') = g_max g" using assms(2) by simp
  have same: "map_of (g_nodes g') k = map_of (g_nodes g) k" if "resident g' k" for k
  proof -
    have "map_of (filter (\<lambda>(j, _). P j) m) k = (if P k then map_of m k else None)"
      for P and m :: "(node_id, graph_node) omap" by (induction m) auto
    then show ?thesis using that res by (simp add: nodes)
  qed
  have "score_cmp (plain_score env g) d k = Less"
    if d: "resident g d" "\<not> resident g' d" and k: "resident g' k" for d k
  proof -
    have "d \<in> set (take ?n ?s)" using d res by simp
    moreover have "k \<in> set (drop ?n ?s)" using k kept by simp
    moreover have "total_cmp (score_cmp (plain_score env g)) (set ?ids)"
      by (rule total_score_cmp(1)) (rule nan)
    ultimately have c: "score_cmp (plain_score env g) d k \<noteq> Greater" "d \<noteq> k" "d \<in> set ?ids" "k \<in> set ?ids"
      using prefix_before_rest [OF _ dist] by blast+
    note le = score_cmp_le [of "plain_score env g", OF nan [OF c(3)] nan [OF c(4)]]
    from c(1,2) show ?thesis using le(1,2) by (auto simp: less_le)
  qed
  with len same show ?thesis by blast
qed

subsection \<open>Nothing is lost\<close>

definition kept_node :: "mem_graph \<Rightarrow> node_id \<Rightarrow> graph_node option" where
  \<comment> \<open>the node wherever it is: resident, or a full cold entry\<close>
  "kept_node g i = (case map_of (g_nodes g) i of Some n \<Rightarrow> Some n | None \<Rightarrow> map_option cn_node (map_of (g_cold g) i))"

definition kept_edges :: "mem_graph \<Rightarrow> graph_edge set" where
  "kept_edges g = set (g_edges g) \<union> (\<Union>(_, c) \<in> set (g_cold g). set (cn_edges c))"

definition all_inline :: "mem_graph \<Rightarrow> bool" where
  \<comment> \<open>no spill store and no compaction budget: the default configuration\<close>
  "all_inline g \<longleftrightarrow> g_spill g = None \<and> g_content_budget g = None"

lemma budgets_inline:
  assumes "all_inline g"
  shows "enforce_budgets env g = g"
proof -
  have n: "g_spill g = None" "g_content_budget g = None" using assms by (simp_all add: all_inline_def)
  have "enforce_cold_content_budget env g = g" by (simp add: enforce_cold_content_budget_def n)
  moreover have "enforce_cold_budget env g = g" by (simp add: enforce_cold_budget_def n)
  moreover have "enforce_cold_resident_budget env g = g"
    by (simp add: enforce_cold_resident_budget_def n split: option.split)
  ultimately show ?thesis by (simp add: enforce_budgets_def)
qed

lemma demote_budgets: "g_spill (demote i g) = g_spill g" "g_content_budget (demote i g) = g_content_budget g"
proof -
  have r: "g_spill (fold (graph_radj_add i) js h) = g_spill h"
    "g_content_budget (fold (graph_radj_add i) js h) = g_content_budget h" for js h
    using core_fields(5,7) [OF core_fold_radj(1) [of i js h]] by simp_all
  have "g_spill (demote i g) = g_spill g \<and> g_content_budget (demote i g) = g_content_budget g"
  proof (cases "map_of (g_nodes g) i")
    case (Some n)
    then show ?thesis unfolding demote_def Some option.case Let_def r by simp
  qed (simp add: demote_none)
  then show "g_spill (demote i g) = g_spill g" "g_content_budget (demote i g) = g_content_budget g" by simp_all
qed

lemma all_inline_demote: "all_inline g \<Longrightarrow> all_inline (demote i g)"
  by (simp add: all_inline_def demote_budgets)

lemma kept_node_demote: "kept_node (demote i g) = kept_node g"
proof (cases "map_of (g_nodes g) i")
  case (Some n)
  show ?thesis by (rule ext) (auto simp: kept_node_def demote_some [OF Some] Some split: option.splits)
qed (simp add: demote_none)

lemma om_insert_set: "om_ok m \<Longrightarrow> set (om_insert k v m) = insert (k, v) {p \<in> set m. fst p \<noteq> k}"
  by (induction k v m rule: om_insert.induct) (auto simp: om_ok_Cons)

lemma kept_edges_demote:
  assumes "om_ok (g_cold g)" "\<not> om_contains (g_cold g) i"
  shows "kept_edges (demote i g) = kept_edges g"
proof (cases "map_of (g_nodes g) i")
  case (Some n)
  have "set (g_cold (demote i g)) = insert (i, \<lparr>cn_node = n, cn_edges = filter (incident i) (g_edges g), cn_spill = None,
      cn_compacted = False, cn_at_floor = False\<rparr>) (set (g_cold g))"
    using assms by (auto simp: demote_some(3) [OF Some] om_insert_set om_contains_iff rev_image_eqI)
  then show ?thesis by (auto simp: kept_edges_def demote_some(2) [OF Some])
qed (simp add: demote_none)

definition tiers_apart :: "mem_graph \<Rightarrow> bool" where
  "tiers_apart g \<longleftrightarrow> list_all (\<lambda>(i, _). \<not> om_contains (g_cold g) i) (g_nodes g)"

lemma tiers_apart_demote: "graph_ok g \<Longrightarrow> tiers_apart g \<Longrightarrow> tiers_apart (demote i g)"
proof (cases "map_of (g_nodes g) i")
  case (Some n)
  assume "tiers_apart g"
  then show ?thesis
    by (auto simp: tiers_apart_def list_all_iff demote_some [OF Some] om_remove_def)
qed (simp add: demote_none)

lemma tiers_apartD: "tiers_apart g \<Longrightarrow> resident g i \<Longrightarrow> \<not> om_contains (g_cold g) i"
  unfolding tiers_apart_def list_all_iff om_contains_iff [of "g_nodes g"] by auto

lemma fold_demote_keeps:
  assumes "graph_ok g" "tiers_apart g" "all_inline g"
  shows "kept_node (fold demote is g) = kept_node g \<and> kept_edges (fold demote is g) = kept_edges g
    \<and> tiers_apart (fold demote is g) \<and> all_inline (fold demote is g) \<and> graph_ok (fold demote is g)"
  using assms
proof (induction "is" arbitrary: g)
  case (Cons i "is")
  have e: "kept_edges (demote i g) = kept_edges g"
  proof (cases "resident g i")
    case True
    with Cons.prems tiers_apartD [OF Cons.prems(2)] graph_okD(2) [OF Cons.prems(1)] show ?thesis
      by (intro kept_edges_demote) auto
  next
    case False
    then show ?thesis by (simp add: om_contains_def demote_none)
  qed
  from Cons.IH [OF graph_ok_demote [OF Cons.prems(1)] tiers_apart_demote [OF Cons.prems(1,2)] all_inline_demote [OF Cons.prems(3)]]
  show ?case by (simp add: kept_node_demote e)
qed simp

text \<open>
  C8. Paging is non-destructive: without a spill store and a compaction budget, \<open>enforce_paging\<close>
  keeps every node with all its fields and every edge, resident or in the cold tier.
\<close>

theorem enforce_paging_keeps_all:
  assumes "graph_ok g" "tiers_apart g" "all_inline g"
  shows "kept_node (enforce_paging env g) = kept_node g \<and> kept_edges (enforce_paging env g) = kept_edges g
    \<and> tiers_apart (enforce_paging env g)"
proof (cases "length (g_nodes g) \<le> g_max g")
  case True
  with assms show ?thesis by (simp add: enforce_paging_def)
next
  case False
  obtain vs g1 where ev: "evictions env g = (vs, g1)" by (cases "evictions env g")
  note ce = evictions_spec(1) [OF ev]
  note f = cache_eq_fields [OF ce]
  have ok1: "graph_ok g1" by (rule graph_ok_calm [OF assms(1) calm_core [OF core_cache [OF ce]]])
  have "tiers_apart g1" "all_inline g1" using assms by (simp_all add: tiers_apart_def all_inline_def f)
  note k = fold_demote_keeps [OF ok1 this, of vs]
  have "enforce_paging env g = fold demote vs g1"
    using False ev prune_id k budgets_inline by (simp add: enforce_paging_def)
  moreover have "kept_node g1 = kept_node g" unfolding kept_node_def [abs_def] f ..
  moreover have "kept_edges g1 = kept_edges g" unfolding kept_edges_def f ..
  ultimately show ?thesis using k by simp
qed

end
