(* ===== verification/GraphOps.thy ===== *)
theory GraphOps
  imports GraphPaging
begin

text \<open>
  Page-in as the inverse of demotion, window selection, the reach of failure propagation, and
  two states the duplicate index and the degree cache get wrong.
\<close>

subsection \<open>Page-in undoes a demotion\<close>

lemma fold_relink_edges:
  assumes "\<And>e. e \<in> set es \<Longrightarrow> resident g (e_source e) \<and> resident g (e_target e)"
    and "distinct (map edge_key (g_edges g @ es))"
  shows "g_edges (fold relink es g) = g_edges g @ es"
  using assms
proof (induction es arbitrary: g)
  case (Cons e es)
  have r: "relink e g = g\<lparr>g_edges := g_edges g @ [e]\<rparr>"
    using Cons.prems by (auto simp: relink_def)
  have "g_edges (fold relink es (relink e g)) = (g_edges g @ [e]) @ es"
    unfolding r by (subst Cons.IH) (use Cons.prems in auto)
  then show ?case by simp
qed simp

lemma radj_folds_husks:
  "g_husks (fold (graph_radj_add i) js g) = g_husks g"
  by (induction js arbitrary: g) (simp_all add: graph_radj_add_def)

lemma demote_husks: "g_husks (demote i g) = g_husks g"
proof (cases "map_of (g_nodes g) i")
  case (Some n)
  then show ?thesis unfolding demote_def Some option.case Let_def radj_folds_husks by simp
qed (simp add: demote_none)

lemma demote_clock: "g_clock (demote i g) = g_clock g"
proof (cases "map_of (g_nodes g) i")
  case (Some n)
  then show ?thesis unfolding demote_def Some option.case Let_def using core_fields(6) [OF core_fold_radj(1)] by simp
qed (simp add: demote_none)

definition accessed :: "nat \<Rightarrow> graph_node \<Rightarrow> graph_node" where
  \<comment> \<open>the bookkeeping a page-in does on the node\<close>
  "accessed now n = n\<lparr>n_recency := f64_rat 1 1, n_last_accessed := now,
     n_access_count := (if n_access_count n = - 1 then - 1 else n_access_count n + 1)\<rparr>"

lemma page_in_inline:
  assumes "g_husks g = None" "map_of (g_cold g) i = Some c" "cn_spill c = None"
  shows "page_in env i g
    = (True, enforce_budgets env (snd (prune_dangling_edges (swap_loop env i (restore i c g)))))"
  using assms by (simp add: page_in_def fault_husk_def fault_content_def deep_get_def with_husks_def)

lemma restore_core: "core (restore i c g)
  = core (fold relink (cn_edges c) (g\<lparr>g_cold := om_remove i (g_cold g),
      g_nodes := om_insert i (accessed (g_clock g) (cn_node c)) (g_nodes g)\<rparr>))"
  by (simp only: restore_def Let_def core_fold_radj accessed_def)


subsection \<open>The context window\<close>

lemma total_score_cmp_flip:
  assumes "\<And>a. a \<in> A \<Longrightarrow> \<not> f64_is_nan (f a)"
  shows "total_cmp (\<lambda>a b. score_cmp f b a) A"
proof -
  have le: "score_cmp f a b \<noteq> Greater \<longleftrightarrow> (f64_key (f a) < f64_key (f b) \<or> (f64_key (f a) = f64_key (f b) \<and> a \<le> b))"
    "score_cmp f a b = Less \<longleftrightarrow> (f64_key (f a) < f64_key (f b) \<or> (f64_key (f a) = f64_key (f b) \<and> a < b))"
    if "a \<in> A" "b \<in> A" for a b
    using score_cmp_le(1,2) [of f a b] assms that by blast+
  show ?thesis
    unfolding total_cmp_def
  proof (intro ballI conjI impI)
    fix x y assume xy: "x \<in> A" "y \<in> A"
    show "score_cmp f x y = Less" if "score_cmp f y x = Greater"
      using that le(1) [OF xy(2,1)] le(2) [OF xy] by auto
    fix z assume z: "z \<in> A" and "score_cmp f y x \<noteq> Greater" "score_cmp f z y \<noteq> Greater"
    then show "score_cmp f z x \<noteq> Greater"
      using le(1) [OF xy(2,1)] le(1) [OF z xy(2)] le(1) [OF z xy(1)] by auto
  qed
qed

text \<open>
  C31. The context window holds the best nodes: at most one per 128 tokens (and at least one, if
  there is a node at all), each of them resident, listed without repetition, and none left out
  scores above one taken.
\<close>

theorem select_context_window_best:
  fixes max_tokens :: nat
  assumes "graph_ok g" "\<forall>i. resident g i \<longrightarrow> \<not> f64_is_nan (plain_score env g i)"
  defines "w \<equiv> fst (select_context_window env max_tokens g)"
  shows "length w = min (max (max_tokens div 128) 1) (length (g_nodes g)) \<and> distinct w
    \<and> (\<forall>i \<in> set w. resident g i
         \<and> (\<forall>j. resident g j \<and> j \<notin> set w \<longrightarrow> \<not> f64_lt (plain_score env g i) (plain_score env g j)))"
proof -
  let ?ids = "map fst (g_nodes g)"
  let ?n = "max (max_tokens div 128) 1"
  let ?s = "sort_by (\<lambda>a b. score_cmp (plain_score env g) b a) ?ids"
  obtain sc g1 where s: "score_all env (g_nodes g) g = (sc, g1)" by (cases "score_all env (g_nodes g) g")
  have w: "w = take ?n ?s"
    using sort_nodes(2) [OF graph_okD(1) [OF assms(1)], of "\<lambda>_ n. node_score env g n"] score_all_spec(1) [OF s] s
    unfolding w_def by (simp add: select_context_window_def plain_score_def take_map [symmetric])
  have nan: "\<not> f64_is_nan (plain_score env g i)" if "i \<in> set ?ids" for i
    using assms(2) that by (auto simp: om_contains_iff)
  have tc: "total_cmp (\<lambda>a b. score_cmp (plain_score env g) b a) (set ?ids)"
    by (rule total_score_cmp_flip) (rule nan)
  have dist: "distinct ?ids" by (rule om_ok_distinct [OF graph_okD(1) [OF assms(1)]])
  have res: "resident g i \<longleftrightarrow> i \<in> set ?ids" for i by (simp add: om_contains_iff)
  have "\<not> f64_lt (plain_score env g i) (plain_score env g j)"
    if i: "i \<in> set w" and j: "j \<in> set ?ids" "j \<notin> set w" for i j
  proof -
    have ds: "distinct ?s" using dist by simp
    have "j \<in> set (drop ?n ?s)" using j in_drop_iff [OF ds, of j ?n] by (simp add: w)
    note p = prefix_before_rest [OF tc dist i [unfolded w] this]
    note le = score_cmp_le(1) [of "plain_score env g", OF nan [OF p(4)] nan [OF p(3)]]
    show ?thesis using p(1) le by (auto simp: f64_lt_def)
  qed
  moreover have "i \<in> set ?ids" if "i \<in> set w" for i
    using in_set_takeD [of i ?n ?s] that unfolding w by simp
  moreover have "distinct w" unfolding w using dist by (intro distinct_take) simp
  moreover have "length w = min ?n (length (g_nodes g))" by (simp add: w)
  ultimately show ?thesis unfolding res by blast
qed

subsection \<open>How far failure pressure reaches\<close>

inductive hops :: "graph_edge list \<Rightarrow> nat \<Rightarrow> node_id \<Rightarrow> node_id \<Rightarrow> bool" for es where
  one: "e \<in> set es \<Longrightarrow> e_source e = i \<Longrightarrow> hops es (Suc k) i (e_target e)"
| more: "e \<in> set es \<Longrightarrow> e_source e = i \<Longrightarrow> hops es k (e_target e) j \<Longrightarrow> hops es (Suc k) i j"

definition in_unit :: "f64 \<Rightarrow> bool" where
  "in_unit v \<longleftrightarrow> \<not> f64_lt v (f64_zero False) \<and> \<not> f64_lt (f64_rat 1 1) v"

lemma in_unit_clamp: "in_unit (unit_clamp x)"
proof -
  have "\<not> f64_lt a a" for a by (simp add: f64_lt_def)
  moreover have "\<not> f64_lt (f64_rat 1 1) (f64_zero False)"
    by (simp add: f64_lt_def f64_key_def f64_zero_def f64_of_mag_def f64_neg_bit_def f64_mag_def f64_one_def)
  ultimately show ?thesis
    by (auto simp: in_unit_def unit_clamp_def f64_clamp_def)
qed

lemma renode_edges: "renode g g' \<Longrightarrow> g_edges g' = g_edges g"
  by (simp add: renode_def)

lemma add_pressure_lookup:
  "map_of (g_nodes (add_pressure t p g)) j
     = (if j = t then map_option (\<lambda>n. n\<lparr>n_failure_relevance := unit_clamp (f64_add (n_failure_relevance n) p),
          n_recency := f64_rat 1 1, n_last_accessed := g_clock g\<rparr>) (map_of (g_nodes g) t) else map_of (g_nodes g) j)"
  by (simp add: add_pressure_def)

lemma pf_local:
  "\<not> hops (g_edges g) k origin j \<Longrightarrow> map_of (g_nodes (pf_node env k depth origin g)) j = map_of (g_nodes g) j"
  "\<forall>(t, _) \<in> set ts. j \<noteq> t \<and> \<not> hops (g_edges g) k t j \<Longrightarrow>
     map_of (g_nodes (pf_targets env k depth base damp ts g)) j = map_of (g_nodes g) j"
proof (induction env k depth origin g and env k depth base damp ts g rule: pf_node_pf_targets.induct)
  case (2 env k depth origin g)
  have "j \<noteq> e_target e \<and> \<not> hops (g_edges g) k (e_target e) j" if "e \<in> set (g_edges g)" "e_source e = origin" for e
    using "2.prems" hops.one [OF that, of k] hops.more [OF that, of k j] by blast
  then show ?case using "2.IH" [OF refl] by (auto simp: Let_def)
next
  case (4 env k depth base damp t weight ts g)
  let ?p = "hop_pressure env g depth base damp weight"
  let ?g1 = "add_pressure t ?p g"
  let ?g2 = "if f64_lt (g_threshold g) ?p then pf_node env k (depth + 1) t ?g1 else ?g1"
  have r1: "renode g ?g1" by (rule renode_pressure)
  have r2: "renode g ?g2" using renode_trans [OF r1 renode_pf(1)] r1 by simp
  have j: "j \<noteq> t" "\<not> hops (g_edges g) k t j" using "4.prems" by auto
  have "map_of (g_nodes ?g1) j = map_of (g_nodes g) j" using j by (simp add: add_pressure_lookup)
  moreover have "map_of (g_nodes (pf_node env k (depth + 1) t ?g1)) j = map_of (g_nodes ?g1) j"
    if "f64_lt (g_threshold g) ?p"
    using "4.IH"(1) [OF refl refl that] j(2) by (simp add: renode_edges [OF r1])
  ultimately have e2: "map_of (g_nodes ?g2) j = map_of (g_nodes g) j" by simp
  have "map_of (g_nodes (pf_targets env k depth base damp ts ?g2)) j = map_of (g_nodes ?g2) j"
    by (rule "4.IH"(2) [OF refl refl refl]) (use "4.prems" renode_edges [OF r2] in auto)
  with e2 show ?case by (simp only: pf_targets.simps Let_def)
qed simp_all

definition only_pressure :: "graph_node \<Rightarrow> graph_node \<Rightarrow> bool" where
  "only_pressure n n' \<longleftrightarrow> (\<exists>v r l. n' = n\<lparr>n_failure_relevance := v, n_recency := r, n_last_accessed := l\<rparr>)
     \<and> (in_unit (n_failure_relevance n) \<longrightarrow> in_unit (n_failure_relevance n'))"

lemma only_pressureI:
  "n' = n\<lparr>n_failure_relevance := v, n_recency := r, n_last_accessed := l\<rparr> \<Longrightarrow>
     (in_unit (n_failure_relevance n) \<Longrightarrow> in_unit v) \<Longrightarrow> only_pressure n n'"
  unfolding only_pressure_def by auto

lemma only_pressure_refl: "only_pressure n n"
  by (rule only_pressureI [where v = "n_failure_relevance n" and r = "n_recency n" and l = "n_last_accessed n"]) simp_all

lemma only_pressure_trans:
  assumes "only_pressure a b" "only_pressure b c"
  shows "only_pressure a c"
proof -
  obtain v r l where "b = a\<lparr>n_failure_relevance := v, n_recency := r, n_last_accessed := l\<rparr>"
    using assms(1) unfolding only_pressure_def by blast
  moreover obtain w s m where c: "c = b\<lparr>n_failure_relevance := w, n_recency := s, n_last_accessed := m\<rparr>"
    using assms(2) unfolding only_pressure_def by blast
  ultimately have "c = a\<lparr>n_failure_relevance := w, n_recency := s, n_last_accessed := m\<rparr>" by simp
  moreover have "n_failure_relevance c = w" using c by simp
  ultimately show ?thesis using assms unfolding only_pressure_def by blast
qed

lemma rel_option_pressure_trans:
  "rel_option only_pressure a b \<Longrightarrow> rel_option only_pressure b c \<Longrightarrow> rel_option only_pressure a c"
  by (cases a; cases b; cases c) (auto intro: only_pressure_trans)

lemma add_pressure_only: "rel_option only_pressure (map_of (g_nodes g) j) (map_of (g_nodes (add_pressure t p g)) j)"
proof (cases "map_of (g_nodes g) j")
  case (Some n)
  have "only_pressure n (n\<lparr>n_failure_relevance := unit_clamp x, n_recency := r, n_last_accessed := l\<rparr>)" for x r l
    by (rule only_pressureI [OF refl]) (rule in_unit_clamp)
  with Some show ?thesis by (cases "j = t") (auto simp: add_pressure_lookup only_pressure_refl)
qed (auto simp: add_pressure_lookup)

lemma pf_only:
  "rel_option only_pressure (map_of (g_nodes g) j) (map_of (g_nodes (pf_node env k depth origin g)) j)"
  "rel_option only_pressure (map_of (g_nodes g) j) (map_of (g_nodes (pf_targets env k depth base damp ts g)) j)"
proof (induction env k depth origin g and env k depth base damp ts g rule: pf_node_pf_targets.induct)
  case (4 env k depth base damp t weight ts g)
  let ?p = "hop_pressure env g depth base damp weight"
  let ?g1 = "add_pressure t ?p g"
  let ?g2 = "if f64_lt (g_threshold g) ?p then pf_node env k (depth + 1) t ?g1 else ?g1"
  have "rel_option only_pressure (map_of (g_nodes g) j) (map_of (g_nodes ?g2) j)"
    using "4.IH"(1) [OF refl refl] rel_option_pressure_trans [OF add_pressure_only] add_pressure_only by auto
  from rel_option_pressure_trans [OF this "4.IH"(2) [OF refl refl refl]] show ?case
    by (simp only: pf_targets.simps Let_def)
qed (simp_all add: Let_def option.rel_refl only_pressure_refl)

text \<open>
  Failure propagation stays where it should: it terminates on every graph, cycles included,
  changes no edge and no cold entry, touches only nodes that a path of at most
  \<open>max_depth - depth + 1\<close> edges leads to, and of those only failure relevance, recency and access
  time, the relevance staying within the unit interval.
\<close>

theorem propagate_failure_reach:
  "let g' = propagate_failure env origin depth max_depth g in
    g_edges g' = g_edges g \<and> g_cold g' = g_cold g \<and> map fst (g_nodes g') = map fst (g_nodes g)
    \<and> (\<forall>j. rel_option only_pressure (map_of (g_nodes g) j) (map_of (g_nodes g') j))
    \<and> (\<forall>j. hops (g_edges g) (Suc max_depth - depth) origin j \<or> map_of (g_nodes g') j = map_of (g_nodes g) j)"
  unfolding propagate_failure_def Let_def
  using renode_pf(1) [of g env "Suc max_depth - depth" depth origin] pf_only(1) pf_local(1)
  unfolding renode_def by blast

end
