(* ===== verification/GraphFindings.thy ===== *)
theory GraphFindings
  imports GraphOps
begin

text \<open>
  Two indexes of the memory graph are trusted by a count: \<open>edge_set\<close> while it has as many
  members as there are edges, the degree cache while the number of edges is the one it was
  built for. Removing one edge and adding another keeps the count, and both then lie. The
  states below are reached through the graph's own operations.
\<close>

definition demo_node :: "node_id \<Rightarrow> graph_node" where
  "demo_node i = \<lparr>n_id = i, n_label = [], n_content = [], n_type = Symbol, n_base_importance = f64_rat 5 10,
     n_failure_relevance = f64_zero False, n_recency = f64_rat 1 1, n_access_count = 1, n_created_at = 0,
     n_last_accessed = 0, n_state = Stable, n_trust = f64_rat 1 1\<rparr>"

definition demo_edge :: "node_id \<Rightarrow> node_id \<Rightarrow> graph_edge" where
  "demo_edge s t = \<lparr>e_source = s, e_target = t, e_weight = f64_rat 1 1, e_type = Calls, e_created_at = 0\<rparr>"

definition demo :: "disk \<Rightarrow> (node_id, graph_node) omap \<Rightarrow> graph_edge list \<Rightarrow> (node_id, cold_node) omap
    \<Rightarrow> edge_key list \<Rightarrow> mem_graph" where
  "demo d ns es cold keys = (graph_new (f64_zero False) 3 d)\<lparr>g_nodes := ns, g_edges := es, g_cold := cold,
     g_edge_set := keys\<rparr>"

lemma demo_fields [simp]:
  "g_nodes (demo d ns es cold keys) = ns" "g_edges (demo d ns es cold keys) = es"
  "g_cold (demo d ns es cold keys) = cold" "g_edge_set (demo d ns es cold keys) = keys"
  "g_max (demo d ns es cold keys) = 3" "g_clock (demo d ns es cold keys) = 0"
  "g_husks (demo d ns es cold keys) = None" "g_radj (demo d ns es cold keys) = None"
  "g_spill (demo d ns es cold keys) = None" "g_content_budget (demo d ns es cold keys) = None"
  "g_weights (demo d ns es cold keys) = weights_default" "g_policy (demo d ns es cold keys) = policy_new"
  "g_indegree (demo d ns es cold keys) = None"
  "(demo d ns es cold keys)\<lparr>g_nodes := ns'\<rparr> = demo d ns' es cold keys"
  "(demo d ns es cold keys)\<lparr>g_edges := es'\<rparr> = demo d ns es' cold keys"
  "(demo d ns es cold keys)\<lparr>g_cold := cold'\<rparr> = demo d ns es cold' keys"
  "(demo d ns es cold keys)\<lparr>g_edge_set := keys'\<rparr> = demo d ns es cold keys'"
  by (simp_all add: demo_def graph_new_def)

lemma demo_inline: "all_inline (demo d ns es cold keys)"
  by (simp add: all_inline_def)

lemma demo_new: "demo d [] [] [] [] = graph_new (f64_zero False) 3 d"
  by (simp add: demo_def graph_new_def)

lemma weights_off: "\<not> centrality_on g" if "g_weights g = weights_default"
proof -
  have "\<not> f64_is_nan (f64_zero False)"
    by (simp add: f64_zero_def f64_is_nan_def f64_mag_def f64_of_mag_def f64_inf_mag_def)
  then show ?thesis using that by (simp add: centrality_on_def weights_default_def f64_eq_def)
qed

lemma score_off: "\<not> centrality_on g \<Longrightarrow> snd (compute_node_score env n g) = g"
  by (simp add: compute_node_score_def centrality_signal_def Let_def)

lemma score_all_off: "\<not> centrality_on g \<Longrightarrow> snd (score_all env ns g) = g"
proof (induction ns)
  case (Cons p ns)
  then show ?case using score_off [of g env "snd p"]
    by (cases p; cases "compute_node_score env (snd p) g"; cases "score_all env ns g") simp
qed simp

lemma demo_score: "node_score env (demo d ns es cold keys) (demo_node i) = node_score env (demo d ns es cold keys) (demo_node j)"
  using weights_off [of "demo d ns es cold keys"]
  by (simp add: node_score_def compute_node_score_def centrality_signal_def distrust_of_def demo_node_def Let_def)

subsection \<open>Steps\<close>

lemma plain_forget: "g_husks g = None \<Longrightarrow> map_of (g_cold g) i = None \<Longrightarrow> forget_cold_shadow env i g = g"
  by (simp add: forget_cold_shadow_def deep_get_def with_husks_def)

lemma demo_forget: "map_of cold i = None \<Longrightarrow> forget_cold_shadow env i (demo d ns es cold keys) = demo d ns es cold keys"
  by (rule plain_forget) simp_all

lemma demo_upsert:
  assumes "map_of ns i = None" "map_of cold i = None"
  shows "upsert_node env i [] [] Symbol (demo d ns es cold keys)
    = enforce_paging env (demo d (om_insert i (demo_node i) ns) es cold keys)"
  using assms by (simp add: upsert_node_def demo_forget demo_node_def)

lemma demo_room: "length ns \<le> 3 \<Longrightarrow> enforce_paging env (demo d ns es cold keys) = demo d ns es cold keys"
  by (simp add: enforce_paging_def)

lemma demo_add:
  assumes "om_contains ns s" "om_contains ns t"
  shows "snd (add_edge s t (f64_rat 1 1) Calls (demo d ns es cold keys)) =
    (let ks = (if length keys \<noteq> length es then remdups (map edge_key es) else keys) in
       if (s, t, Calls) \<in> set ks then demo d ns es cold ks
       else demo d ns (es @ [demo_edge s t]) cold ((s, t, Calls) # ks))"
  using assms by (simp add: add_edge_def demo_edge_def Let_def del: f64_rat_one)

lemma demo_remove: "map_of cold i = None \<Longrightarrow>
    remove_node env i (demo d ns es cold keys) = demo d (om_remove i ns) (filter (\<lambda>e. \<not> incident i e) es) cold keys"
  by (simp add: remove_node_def demo_forget)

lemma reach_upsert: "graph_reach env g \<Longrightarrow> graph_reach env (upsert_node env i label content ty g)"
  and reach_add: "graph_reach env g \<Longrightarrow> graph_reach env (snd (add_edge s t w ety g))"
  and reach_remove: "graph_reach env g \<Longrightarrow> graph_reach env (remove_node env i g)"
  and reach_degree: "graph_reach env g \<Longrightarrow> graph_reach env (snd (node_in_degree i g))"
  and reach_page_in: "graph_reach env g \<Longrightarrow> graph_reach env (snd (page_in env i g))"
  by (rule graph_reach.step, assumption, rule graph_step.intros)+

lemma reach_three: "graph_reach env (demo d (map (\<lambda>i. (i, demo_node i)) [''a'', ''b'', ''c'']) [] [] [])"
proof -
  have r0: "graph_reach env (demo d [] [] [] [])" unfolding demo_new by (rule graph_reach.start)
  have r1: "graph_reach env (demo d [(''a'', demo_node ''a'')] [] [] [])"
    using reach_upsert [OF r0, of "''a''" "[]" "[]" Symbol] by (simp add: demo_upsert demo_room)
  have r2: "graph_reach env (demo d [(''a'', demo_node ''a''), (''b'', demo_node ''b'')] [] [] [])"
    using reach_upsert [OF r1, of "''b''" "[]" "[]" Symbol] by (simp add: demo_upsert demo_room)
  show ?thesis
    using reach_upsert [OF r2, of "''c''" "[]" "[]" Symbol] by (simp add: demo_upsert demo_room)
qed

lemmas edge_simps = demo_edge_def edge_key_def incident_def

lemma degree_count:
  "in_degrees (demo d ns es cold keys) = fold (\<lambda>e m. if is_orphan (demo d ns es cold keys) (e_source e)
     \<or> is_orphan (demo d ns es cold keys) (e_target e) then m else count_up (e_target e) m) es []"
  by (simp add: in_degrees_def)

lemma demo_degrees:
  "cached_degrees (demo d [(''a'', demo_node ''a''), (''b'', demo_node ''b''), (''c'', demo_node ''c'')] [demo_edge ''a'' ''b''] []
     [(''a'', ''b'', Calls)]) = [(''b'', Suc 0)]"
  unfolding cached_degrees_def
  by (simp add: degree_count) (simp add: demo_edge_def is_orphan_def demo_node_def count_up_def)

text \<open>
  The degree cache goes stale: there is a reachable graph whose reported in-degree of a node
  is 0 although an edge points to it, because an edge was removed and another one added since
  the cache was filled.
\<close>

theorem degree_cache_stale:
  "\<exists>g i. graph_reach env g \<and> degree_in g i = 0 \<and> map_of (in_degrees g) i = Some 1"
proof -
  let ?n = "\<lambda>is. map (\<lambda>i. (i, demo_node i)) is"
  obtain d :: disk where True by simp
  have r3: "graph_reach env (demo d (?n [''a'', ''b'', ''c'']) [] [] [])" by (rule reach_three)
  have r4: "graph_reach env (demo d (?n [''a'', ''b'', ''c'']) [demo_edge ''a'' ''b''] [] [(''a'', ''b'', Calls)])"
    (is "graph_reach env ?g4")
    using reach_add [OF r3, of "''a''" "''b''" "f64_rat 1 1" Calls]
    by (subst (asm) demo_add) (simp_all add: om_contains_def Let_def)
  note deg4 = demo_degrees [of d]
  let ?g5 = "snd (node_in_degree ''b'' ?g4)"
  have g5: "g_nodes ?g5 = ?n [''a'', ''b'', ''c'']" "g_edges ?g5 = [demo_edge ''a'' ''b'']" "g_cold ?g5 = []"
    "g_husks ?g5 = None" "g_indegree ?g5 = Some (1, [(''b'', 1)])" "g_edge_set ?g5 = [(''a'', ''b'', Calls)]"
    by (simp_all add: node_in_degree_def cache_degrees_def deg4)
  let ?g6 = "remove_node env ''b'' ?g5"
  have g6: "g_nodes ?g6 = ?n [''a'', ''c'']" "g_edges ?g6 = []" "g_indegree ?g6 = Some (1, [(''b'', 1)])"
    "g_edge_set ?g6 = [(''a'', ''b'', Calls)]"
    using g5 by (simp_all add: remove_node_def plain_forget Let_def om_remove_def demo_edge_def incident_def)
  let ?g7 = "snd (add_edge ''a'' ''c'' (f64_rat 1 1) Calls ?g6)"
  have "\<exists>e. e_source e = ''a'' \<and> e_target e = ''c'' \<and> g_edges ?g7 = [e]"
    using g6 by (simp add: add_edge_def om_contains_def Let_def)
  moreover have "g_nodes ?g7 = ?n [''a'', ''c'']" "g_indegree ?g7 = Some (1, [(''b'', 1)])"
    using g6 by (simp_all add: add_edge_def om_contains_def Let_def)
  ultimately have "degree_in ?g7 ''c'' = 0" "map_of (in_degrees ?g7) ''c'' = Some 1"
    by (auto simp: degree_in_def cached_degrees_def in_degrees_def is_orphan_def demo_node_def count_up_def)
  moreover have "graph_reach env ?g7" by (rule reach_add [OF reach_remove [OF reach_degree [OF r4]]])
  ultimately show ?thesis by blast
qed

lemma demo_overflow:
  fixes d :: disk
  defines "g \<equiv> demo d [(''0'', demo_node ''0''), (''a'', demo_node ''a''), (''b'', demo_node ''b''), (''c'', demo_node ''c'')]
    [demo_edge ''0'' ''a''] [] [(''0'', ''a'', Calls)]"
  shows "enforce_paging env g = demo d [(''a'', demo_node ''a''), (''b'', demo_node ''b''), (''c'', demo_node ''c'')] []
    [(''0'', \<lparr>cn_node = demo_node ''0'', cn_edges = [demo_edge ''0'' ''a''], cn_spill = None,
       cn_compacted = False, cn_at_floor = False\<rparr>)] [(''0'', ''a'', Calls)]"
proof -
  have nodes: "g_nodes g = map (\<lambda>i. (i, demo_node i)) [''0'', ''a'', ''b'', ''c'']" by (simp add: g_def)
  have ok: "graph_ok g"
    by (simp add: g_def graph_ok_def om_ok_def om_contains_def demo_edge_def)
  have ns: "node_score env g (demo_node i) = node_score env g (demo_node ''0'')" for i
    unfolding g_def by (rule demo_score)
  have pol: "ep_q (g_policy g) = []" by (simp add: g_def policy_new_def)
  have "map_of (g_nodes g) i = Some (demo_node i)" if "i \<in> set [''0'', ''a'', ''b'', ''c'']" for i
    using that by (auto simp: g_def)
  then have prio: "priority env g i = priority env g ''0''" if "i \<in> set [''0'', ''a'', ''b'', ''c'']" for i
    using that ns [of i] pol by (simp add: priority_def keyed_def eviction_priority_def is_trained_def)
  have "score_cmp (priority env g) i j = ord_cmp i j"
    if "i \<in> set [''0'', ''a'', ''b'', ''c'']" "j \<in> set [''0'', ''a'', ''b'', ''c'']" for i j
    unfolding score_cmp_def prio [OF that(1)] prio [OF that(2)] by (simp add: cmp_then_def)
  then have "sort_by (score_cmp (priority env g)) [''0'', ''a'', ''b'', ''c''] = sort_by ord_cmp [''0'', ''a'', ''b'', ''c'']"
    by (rule sort_by_cong)
  also have "\<dots> = [''0'', ''a'', ''b'', ''c'']" by (simp add: ord_cmp_def)
  finally have "fst (evictions env g) = [''0'']"
    unfolding evictions_sorted [OF ok] nodes by (simp add: comp_def g_def)
  moreover have "snd (evictions env g) = g"
    using score_all_off [OF weights_off, of g env "g_nodes g"]
    by (cases "score_all env (g_nodes g) g") (simp add: evictions_def Let_def g_def)
  ultimately have ev: "evictions env g = ([''0''], g)" by (metis prod.collapse)
  have dem: "demote ''0'' g = demo d [(''a'', demo_node ''a''), (''b'', demo_node ''b''), (''c'', demo_node ''c'')] []
    [(''0'', \<lparr>cn_node = demo_node ''0'', cn_edges = [demo_edge ''0'' ''a''], cn_spill = None,
       cn_compacted = False, cn_at_floor = False\<rparr>)] [(''0'', ''a'', Calls)]"
    by (simp add: g_def demote_def Let_def om_remove_def demo_edge_def incident_def graph_radj_add_def with_radj_def)
  show ?thesis
    using ev dem budgets_inline [OF demo_inline] prune_id [OF graph_ok_demote [OF ok, of "''0''"]]
    by (simp add: enforce_paging_def g_def)
qed

text \<open>
  The duplicate check can miss: there is a reachable graph with two edges of the same
  source, target and type. A page-in links edges without entering them in \<open>edge_set\<close>; after a
  removal the two counts agree again and the index is not rebuilt.
\<close>

theorem duplicate_edge_reachable:
  "\<exists>g. graph_reach env g \<and> \<not> distinct (map edge_key (g_edges g))"
proof -
  let ?a = "(''a'', demo_node ''a'')" and ?b = "(''b'', demo_node ''b'')" and ?c = "(''c'', demo_node ''c'')"
  let ?z = "(''0'', demo_node ''0'')"
  let ?cn = "\<lparr>cn_node = demo_node ''0'', cn_edges = [demo_edge ''0'' ''a''], cn_spill = None,
       cn_compacted = False, cn_at_floor = False\<rparr>"
  let ?cold = "[(''0'', ?cn)]"
  obtain d :: disk where True by simp
  have r0: "graph_reach env (demo d [] [] [] [])" unfolding demo_new by (rule graph_reach.start)
  have r1: "graph_reach env (demo d [?z] [] [] [])"
    using reach_upsert [OF r0, of "''0''" "[]" "[]" Symbol] by (simp add: demo_upsert demo_room)
  have r2: "graph_reach env (demo d [?z, ?a] [] [] [])"
    using reach_upsert [OF r1, of "''a''" "[]" "[]" Symbol] by (simp add: demo_upsert demo_room)
  have r3: "graph_reach env (demo d [?z, ?a] [demo_edge ''0'' ''a''] [] [(''0'', ''a'', Calls)])"
    using reach_add [OF r2, of "''0''" "''a''" "f64_rat 1 1" Calls]
    by (subst (asm) demo_add) (simp_all add: om_contains_def Let_def)
  have r4: "graph_reach env (demo d [?z, ?a, ?b] [demo_edge ''0'' ''a''] [] [(''0'', ''a'', Calls)])"
    using reach_upsert [OF r3, of "''b''" "[]" "[]" Symbol] by (simp add: demo_upsert demo_room)
  have r5: "graph_reach env (demo d [?a, ?b, ?c] [] ?cold [(''0'', ''a'', Calls)])"
    using reach_upsert [OF r4, of "''c''" "[]" "[]" Symbol] by (simp add: demo_upsert demo_overflow)
  have r6: "graph_reach env (demo d [?a, ?b, ?c] [demo_edge ''a'' ''b''] ?cold [(''a'', ''b'', Calls)])"
    using reach_add [OF r5, of "''a''" "''b''" "f64_rat 1 1" Calls]
    by (subst (asm) demo_add) (simp_all add: om_contains_def Let_def)
  have r7: "graph_reach env (demo d [?a, ?b, ?c] [demo_edge ''a'' ''b'', demo_edge ''a'' ''c''] ?cold
      [(''a'', ''c'', Calls), (''a'', ''b'', Calls)])"
    using reach_add [OF r6, of "''a''" "''c''" "f64_rat 1 1" Calls]
    by (subst (asm) demo_add) (simp_all add: om_contains_def Let_def)
  have r8: "graph_reach env (demo d [?a, ?c] [demo_edge ''a'' ''c''] ?cold [(''a'', ''c'', Calls), (''a'', ''b'', Calls)])"
    (is "graph_reach env ?g8")
    using reach_remove [OF r7, of "''b''"]
    by (simp add: demo_remove om_remove_def demo_edge_def incident_def)
  have ok8: "graph_ok ?g8"
    using reachable_graph_safe [OF r8] by (simp add: graph_ok_def list_all_iff)
  let ?r = "restore ''0'' ?cn ?g8"
  have re: "g_edges ?r = [demo_edge ''a'' ''c'', demo_edge ''0'' ''a'']" "map fst (g_nodes ?r) = [''0'', ''a'', ''c'']"
    "g_edge_set ?r = [(''a'', ''c'', Calls), (''a'', ''b'', Calls)]" "all_inline ?r" "g_max ?r = 3"
    by (simp_all add: restore_def Let_def relink_def demo_edge_def edge_key_def om_contains_def
        graph_radj_del_def with_radj_def all_inline_def)
  have okr: "graph_ok ?r" by (rule restore_ok(1) [OF ok8])
  have "length (g_nodes ?r) = 3" using arg_cong [OF re(2), of length] by simp
  then have "swap_loop env ''0'' ?r = ?r" using re(5) by (simp add: swap_loop.simps)
  then have pin: "page_in env ''0'' ?g8 = (True, ?r)"
    by (subst page_in_inline [of ?g8 "''0''" ?cn])
      (simp_all add: prune_id [OF okr] budgets_inline [OF re(4)])
  have r9: "graph_reach env ?r" using reach_page_in [OF r8, of "''0''"] by (simp only: pin snd_conv)
  let ?g10 = "snd (add_edge ''0'' ''a'' (f64_rat 1 1) Calls ?r)"
  have "resident ?r ''0''" "resident ?r ''a''"
    unfolding om_contains_iff set_map [symmetric] re(2) by simp_all
  then have "map edge_key (g_edges ?g10) = [(''a'', ''c'', Calls), (''0'', ''a'', Calls), (''0'', ''a'', Calls)]"
    using re by (simp add: add_edge_def Let_def demo_edge_def edge_key_def)
  then have "\<not> distinct (map edge_key (g_edges ?g10))" by simp
  with reach_add [OF r9] show ?thesis by blast
qed

end
