(* ===== verification/SpillFacts.thy ===== *)
theory SpillFacts
  imports GraphReach
begin

text \<open>
  The spill of cold content and the blob store it relies on. The locale states what the graph
  needs of a content-addressed store: a put of storable text succeeds under its address,
  disturbs no other address, and finds or makes the blob. \<open>ColdSpill\<close> keeps this while no
  write fails and no blob on disk is corrupt; on it rests that spilling is lossless and brings
  the inline bytes under the budget.
\<close>

locale blob_store =
  fixes inv :: "'s \<Rightarrow> bool"
    and storable :: "string \<Rightarrow> bool"
    and addr :: "string \<Rightarrow> 'h"
    and put :: "string \<Rightarrow> 's \<Rightarrow> ('e + 'h) \<times> 's"
    and get :: "'h \<Rightarrow> 's \<Rightarrow> string option"
  assumes put_law: "inv s \<Longrightarrow> storable c \<Longrightarrow> \<exists>s'. put c s = (Inr (addr c), s') \<and> inv s'
      \<and> get (addr c) s' = (case get (addr c) s of None \<Rightarrow> Some c | Some t \<Rightarrow> Some t)
      \<and> (\<forall>h. h \<noteq> addr c \<longrightarrow> get h s' = get h s)"
    and get_law: "get h s = Some t \<Longrightarrow> storable t \<and> addr t = h"
begin

definition unambiguous :: "string \<Rightarrow> bool" where
  "unambiguous c \<longleftrightarrow> (\<forall>t. storable t \<longrightarrow> addr t = addr c \<longrightarrow> t = c)"

lemma put_reads_back:
  assumes "inv s" "storable c" "unambiguous c"
  obtains s' where "put c s = (Inr (addr c), s')" "inv s'" "get (addr c) s' = Some c"
    "\<And>h t. get h s = Some t \<Longrightarrow> get h s' = Some t"
proof -
  obtain s' where s': "put c s = (Inr (addr c), s')" "inv s'"
    "get (addr c) s' = (case get (addr c) s of None \<Rightarrow> Some c | Some t \<Rightarrow> Some t)"
    "\<forall>h. h \<noteq> addr c \<longrightarrow> get h s' = get h s"
    using put_law [OF assms(1,2)] by blast
  have "get (addr c) s' = Some c"
  proof (cases "get (addr c) s")
    case (Some t)
    with get_law [OF Some] assms(3) s'(3) show ?thesis by (simp add: unambiguous_def)
  qed (simp add: s'(3))
  moreover have "get h s' = Some t" if "get h s = Some t" for h t
    using s'(3,4) that by (cases "h = addr c") simp_all
  ultimately show thesis using that s'(1,2) by blast
qed

end

subsection \<open>The store of the code keeps the contract\<close>

definition blobs_ok :: "(bytes \<Rightarrow> bytes) \<Rightarrow> spill \<Rightarrow> bool" where
  \<comment> \<open>no fault is pending, and every blob that exists reads back\<close>
  "blobs_ok sha s \<longleftrightarrow> d_faults (snd s) = []
     \<and> (\<forall>h. om_contains (d_files (snd s)) (spill_path (fst s) h) \<longrightarrow> spill_get sha h s \<noteq> None)"

definition blob_addr :: "(bytes \<Rightarrow> bytes) \<Rightarrow> string \<Rightarrow> bytes" where
  "blob_addr sha c = sha (bytes_of c)"

lemma spill_put_law:
  assumes "blobs_ok sha s" "str_valid c"
  shows "\<exists>s'. spill_put sha c s = (Inr (blob_addr sha c), s') \<and> blobs_ok sha s'
    \<and> spill_get sha (blob_addr sha c) s' = (case spill_get sha (blob_addr sha c) s of None \<Rightarrow> Some c | Some t \<Rightarrow> Some t)
    \<and> (\<forall>h. h \<noteq> blob_addr sha c \<longrightarrow> spill_get sha h s' = spill_get sha h s) \<and> fst s' = fst s"
proof -
  obtain dir d where s: "s = (dir, d)" by (cases s)
  let ?a = "blob_addr sha c"
  show ?thesis
  proof (cases "om_contains (d_files d) (spill_path dir ?a)")
    case True
    then obtain t where "spill_get sha ?a s = Some t" using assms(1) by (auto simp: blobs_ok_def s)
    with True assms(1) show ?thesis by (auto simp: spill_put_def s blob_addr_def)
  next
    case False
    have "d_faults d = []" using assms(1) by (simp add: blobs_ok_def s)
    then obtain d1 where w: "fs_write (spill_path dir ?a) (compress (bytes_of c)) d = (Inr (), d1)" "d_faults d1 = []"
      by (simp add: fs_write_def next_fault_def)
    with False have put: "spill_put sha c (dir, d) = (Inr ?a, dir, d1)"
      by (simp add: spill_put_def blob_addr_def Let_def)
    from spill_get_after [OF put assms(2)] False have rt:
      "spill_get sha ?a (dir, d1) = Some c" "\<And>h. h \<noteq> ?a \<Longrightarrow> spill_get sha h (dir, d1) = spill_get sha h (dir, d)"
      by (simp_all add: blob_addr_def)
    have none: "spill_get sha ?a (dir, d) = None"
      using False by (auto simp: spill_get_def disk_read_def om_contains_def)
    have "om_contains (d_files d1) (spill_path dir h) \<longleftrightarrow> h = ?a \<or> om_contains (d_files d) (spill_path dir h)" for h
      using fs_write_ok [OF w(1)] by (auto simp: om_contains_def)
    moreover have "spill_get sha h (dir, d1) \<noteq> None" if "h = ?a \<or> om_contains (d_files d) (spill_path dir h)" for h
      using that rt assms(1) by (cases "h = ?a") (auto simp: blobs_ok_def s)
    ultimately have "blobs_ok sha (dir, d1)"
      using w(2) by (simp add: blobs_ok_def)
    with put rt none show ?thesis by (auto simp: s)
  qed
qed


lemma blobs_get_law: "spill_get sha h s = Some t \<Longrightarrow> str_valid t \<and> blob_addr sha t = h"
  using spill_get_intact [of sha h s t] by (simp add: blob_addr_def)

interpretation blobs: blob_store "blobs_ok sha" str_valid "blob_addr sha" "spill_put sha" "spill_get sha"
  for sha
proof unfold_locales
  fix s c
  assume "blobs_ok sha s" "str_valid c"
  from spill_put_law [OF this] show "\<exists>s'. spill_put sha c s = (Inr (blob_addr sha c), s') \<and> blobs_ok sha s'
    \<and> spill_get sha (blob_addr sha c) s' = (case spill_get sha (blob_addr sha c) s of None \<Rightarrow> Some c | Some t \<Rightarrow> Some t)
    \<and> (\<forall>h. h \<noteq> blob_addr sha c \<longrightarrow> spill_get sha h s' = spill_get sha h s)" by blast
qed (rule blobs_get_law)

subsection \<open>The graph as a client\<close>

definition cold_text :: "mem_env \<Rightarrow> mem_graph \<Rightarrow> node_id \<Rightarrow> string option" where
  \<comment> \<open>the content of a cold entry, read from RAM or from disk\<close>
  "cold_text env g i = (case map_of (g_cold g) i of
      None \<Rightarrow> None
    | Some c \<Rightarrow> (case cn_spill c of None \<Rightarrow> Some (n_content (cn_node c)) | Some (h, _) \<Rightarrow> spill_fetch env h g))"

definition inline_len :: "cold_node \<Rightarrow> nat" where
  "inline_len c = (if cn_spill c = None then length (n_content (cn_node c)) else 0)"

definition spilled_as :: "bytes \<Rightarrow> cold_node \<Rightarrow> cold_node" where
  "spilled_as h c = c\<lparr>cn_node := (cn_node c)\<lparr>n_content := []\<rparr>, cn_spill := Some (h, length (n_content (cn_node c)))\<rparr>"

lemma inline_bytes_sum: "cold_inline_bytes g = sum_list (map (\<lambda>(_, c). inline_len c) (g_cold g))"
proof -
  have "sum_list (map (\<lambda>(_, c). length (n_content (cn_node c))) (filter (\<lambda>(_, c). cn_spill c = None) m))
      = sum_list (map (\<lambda>(_, c). inline_len c) m)" for m :: "(node_id, cold_node) omap"
    by (induction m) (auto simp: inline_len_def)
  then show ?thesis by (simp add: cold_inline_bytes_def)
qed

lemma sum_om_update:
  assumes "om_ok m" "map_of m i = Some c"
  shows "sum_list (map (\<lambda>(_, c). f c) (om_update i u m)) + f c = sum_list (map (\<lambda>(_, c). f c) m) + (f (u c) :: nat)"
  using assms
proof (induction m)
  case (Cons p m)
  obtain k v where p: "p = (k, v)" by (cases p)
  show ?case
  proof (cases "k = i")
    case True
    have "i \<notin> fst ` set m" using Cons.prems(1) True by (auto simp: p om_ok_Cons)
    then have "om_update i u m = m" unfolding om_update_def by (intro map_idI) force
    with True Cons.prems(2) show ?thesis by (simp add: p om_update_def)
  next
    case False
    with Cons show ?thesis by (simp add: p om_ok_Cons om_update_def)
  qed
qed simp

lemma om_update_cong:
  assumes "om_ok m" "map_of m i = Some c" "u c = v c"
  shows "om_update i u m = om_update i v m"
proof -
  have "b = c" if "(i, b) \<in> set m" for b using om_get_iff [OF assms(1), of i b] that assms(2) by simp
  then show ?thesis using assms(3) by (auto simp: om_update_def)
qed

definition spillable :: "mem_env \<Rightarrow> mem_graph \<Rightarrow> bool" where
  \<comment> \<open>every inline content is valid UTF-8 and no other text shares its hash\<close>
  "spillable env g \<longleftrightarrow> (\<forall>i c. map_of (g_cold g) i = Some c \<and> cn_spill c = None \<longrightarrow>
     str_valid (n_content (cn_node c)) \<and> blobs.unambiguous (en_sha env) (n_content (cn_node c)))"

lemma spill_one:
  assumes "g_spill g = Some (dir, b)" "blobs_ok (en_sha env) (dir, g_disk g)" "om_ok (g_cold g)" "spillable env g"
    and "map_of (g_cold g) i = Some c" "cn_spill c = None"
  obtains h g1 where "spill_store env (n_content (cn_node c)) g = (Some h, g1)"
    and "core g1 = core g" "blobs_ok (en_sha env) (dir, g_disk g1)"
    and "\<And>j t. cold_text env g j = Some t \<Longrightarrow>
       cold_text env (g1\<lparr>g_cold := om_update i (spilled_as h) (g_cold g1)\<rparr>) j = Some t"
proof -
  let ?t = "n_content (cn_node c)"
  have v: "str_valid ?t" "blobs.unambiguous (en_sha env) ?t" using assms(4-6) by (simp_all add: spillable_def)
  obtain s' where s': "spill_put (en_sha env) ?t (dir, g_disk g) = (Inr (blob_addr (en_sha env) ?t), s')"
    "blobs_ok (en_sha env) s'" "spill_get (en_sha env) (blob_addr (en_sha env) ?t) s' = Some ?t"
    "\<And>h t. spill_get (en_sha env) h (dir, g_disk g) = Some t \<Longrightarrow> spill_get (en_sha env) h s' = Some t"
    using blobs.put_reads_back [OF assms(2) v] by blast
  have "fst s' = dir" using spill_put_law [OF assms(2) v(1)] s'(1) by auto
  then obtain d1 where d1: "s' = (dir, d1)" by (cases s') auto
  let ?h = "blob_addr (en_sha env) ?t"
  let ?g1 = "g\<lparr>g_disk := d1\<rparr>"
  have st: "spill_store env ?t g = (Some ?h, ?g1)"
    using s'(1) assms(1) by (simp add: spill_store_def d1)
  have fetch: "spill_fetch env h (?g1\<lparr>g_cold := x\<rparr>) = spill_get (en_sha env) h (dir, d1)" for h x
    using assms(1) by (simp add: spill_fetch_def)
  have old: "spill_fetch env h g = spill_get (en_sha env) h (dir, g_disk g)" for h
    using assms(1) by (simp add: spill_fetch_def)
  have keep: "cold_text env (?g1\<lparr>g_cold := om_update i (spilled_as ?h) (g_cold ?g1)\<rparr>) j = Some t"
    if j: "cold_text env g j = Some t" for j t
  proof (cases "j = i")
    case True
    with j assms(5,6) have "t = ?t" by (simp add: cold_text_def)
    with True assms(5) s'(3) show ?thesis by (simp add: cold_text_def spilled_as_def fetch d1)
  next
    case False
    with j s'(4) show ?thesis
      by (auto simp: cold_text_def fetch old d1 split: option.splits)
  qed
  have "core ?g1 = core g" by (simp add: core_def)
  then show thesis using that [OF st _ _ keep] s'(2) d1 by simp
qed

lemma spill_loop_lossless:
  assumes "g_spill g = Some (dir, b)" "blobs_ok (en_sha env) (dir, g_disk g)" "om_ok (g_cold g)" "spillable env g"
    and "\<And>i c. map_of (g_cold g) i = Some c \<Longrightarrow> i \<notin> set ids \<Longrightarrow> inline_len c = 0"
  shows "(\<forall>j t. cold_text env g j = Some t \<longrightarrow> cold_text env (spill_loop env budget ids (cold_inline_bytes g) g) j = Some t)
    \<and> cold_inline_bytes (spill_loop env budget ids (cold_inline_bytes g) g) \<le> budget"
  using assms
proof (induction ids arbitrary: g)
  case Nil
  have "inline_len c = 0" if "(i, c) \<in> set (g_cold g)" for i c
    using Nil.prems(5) [of i c] Nil.prems(3) that by (simp add: om_get_iff)
  then have "cold_inline_bytes g = 0" unfolding inline_bytes_sum by (auto simp: sum_list_eq_0_iff)
  then show ?case by simp
next
  case (Cons i ids)
  show ?case
  proof (cases "cold_inline_bytes g \<le> budget")
    case True
    then show ?thesis by simp
  next
    case False
    show ?thesis
    proof (cases "map_of (g_cold g) i")
      case None
      have "inline_len c = 0" if "map_of (g_cold g) j = Some c" "j \<notin> set ids" for j c
        using Cons.prems(5) that None by (cases "j = i") auto
      from Cons.IH [OF Cons.prems(1-4) this] False None show ?thesis by simp
    next
      case (Some c)
      show ?thesis
      proof (cases "cn_spill c = None")
        case sp: False
        have "inline_len c = 0" if "map_of (g_cold g) j = Some c" "j \<notin> set ids" for j c
          using Cons.prems(5) that Some sp by (cases "j = i") (auto simp: inline_len_def)
        from Cons.IH [OF Cons.prems(1-4) this] False Some sp show ?thesis by simp
      next
        case sp: True
        obtain h g1 where g1: "spill_store env (n_content (cn_node c)) g = (Some h, g1)"
          "core g1 = core g" "blobs_ok (en_sha env) (dir, g_disk g1)"
          "\<And>j t. cold_text env g j = Some t \<Longrightarrow>
             cold_text env (g1\<lparr>g_cold := om_update i (spilled_as h) (g_cold g1)\<rparr>) j = Some t"
          using spill_one [OF Cons.prems(1-4) Some sp] by blast
        let ?g2 = "g1\<lparr>g_cold := om_update i (spilled_as h) (g_cold g1)\<rparr>"
        note cf = core_fields [OF g1(2)]
        have sum: "cold_inline_bytes ?g2 = cold_inline_bytes g - length (n_content (cn_node c))"
        proof -
          have "inline_len c = length (n_content (cn_node c))" "inline_len (spilled_as h c) = 0"
            using sp by (simp_all add: inline_len_def spilled_as_def)
          with sum_om_update [OF Cons.prems(3) Some, of inline_len "spilled_as h"] show ?thesis
            unfolding inline_bytes_sum by (simp add: cf)
        qed
        have lookup: "map_of (g_cold ?g2) j = Some c' \<Longrightarrow>
            (j = i \<and> c' = spilled_as h c) \<or> (j \<noteq> i \<and> map_of (g_cold g) j = Some c')" for j c'
          using Some by (auto simp: cf split: if_splits)
        have ok: "spillable env ?g2"
          unfolding spillable_def
        proof (intro allI impI)
          fix j c' assume "map_of (g_cold ?g2) j = Some c' \<and> cn_spill c' = None"
          then have "map_of (g_cold g) j = Some c'" "cn_spill c' = None"
            using lookup [of j c'] by (auto simp: spilled_as_def)
          then show "str_valid (n_content (cn_node c')) \<and> blobs.unambiguous (en_sha env) (n_content (cn_node c'))"
            using Cons.prems(4) by (simp add: spillable_def)
        qed
        have zero: "inline_len c' = 0" if "map_of (g_cold ?g2) j = Some c'" "j \<notin> set ids" for j c'
          using lookup [OF that(1)] Cons.prems(5) [of j c'] that(2) by (auto simp: spilled_as_def inline_len_def)
        have sp2: "g_spill ?g2 = Some (dir, b)" using Cons.prems(1) cf by simp
        have bl: "blobs_ok (en_sha env) (dir, g_disk ?g2)" using g1(3) by simp
        have om: "om_ok (g_cold ?g2)" using Cons.prems(3) cf by (simp add: om_ok_update)
        have step: "spill_loop env budget (i # ids) (cold_inline_bytes g) g
            = spill_loop env budget ids (cold_inline_bytes ?g2) ?g2"
        proof -
          have "om_update i (\<lambda>e. e\<lparr>cn_node := (cn_node e)\<lparr>n_content := []\<rparr>,
              cn_spill := Some (h, length (n_content (cn_node c)))\<rparr>) (g_cold g1) = om_update i (spilled_as h) (g_cold g1)"
            by (rule om_update_cong [of _ _ c]) (use Cons.prems(3) Some in \<open>simp_all add: cf spilled_as_def\<close>)
          with False Some sp g1(1) show ?thesis unfolding sum by (simp add: Let_def)
        qed
        show ?thesis
        proof -
          have "(\<forall>j t. cold_text env ?g2 j = Some t \<longrightarrow>
              cold_text env (spill_loop env budget ids (cold_inline_bytes ?g2) ?g2) j = Some t)
            \<and> cold_inline_bytes (spill_loop env budget ids (cold_inline_bytes ?g2) ?g2) \<le> budget"
            by (rule Cons.IH [OF sp2 bl om ok]) (rule zero)
          then show ?thesis unfolding step using g1(4) by blast
        qed
      qed
    qed
  qed
qed


end
