(* ===== verification/GraphWitness.thy ===== *)
theory GraphWitness
  imports GraphFindings SpillFacts
begin

text \<open>
  The graph theorems at concrete states: nodes whose scores are all zero, weights zero, and an
  environment in which SHA-256 is replaced by the identity, which has no collisions.
\<close>

definition plain_env :: mem_env where
  "plain_env = \<lparr>en_sha = (\<lambda>b. b), en_ln = (\<lambda>_. 0), en_powi = (\<lambda>_ _. 0), en_cold_json = (\<lambda>_. None),
     en_cold_parse = (\<lambda>_. None), en_husk_json = (\<lambda>_. None), en_husk_parse = (\<lambda>_. None),
     en_compact = (\<lambda>_ s. s), en_size_cold = 0, en_size_id = 0, en_size_edge = 0, en_size_husk = 0\<rparr>"

definition zero_node :: "node_id \<Rightarrow> graph_node" where
  "zero_node i = \<lparr>n_id = i, n_label = [], n_content = ''abc'', n_type = Symbol, n_base_importance = 0,
     n_failure_relevance = 0, n_recency = 0, n_access_count = 1, n_created_at = 0,
     n_last_accessed = 0, n_state = Stable, n_trust = 0\<rparr>"

definition zero_graph :: "node_id list \<Rightarrow> nat \<Rightarrow> mem_graph" where
  "zero_graph is m = (graph_new 0 m \<lparr>d_files = [], d_pid = 1, d_faults = [], d_stuck = []\<rparr>)
     \<lparr>g_nodes := map (\<lambda>i. (i, zero_node i)) is,
      g_weights := \<lparr>w_base = 0, w_failure = 0, w_recency = 0, w_access = 0, w_centrality = 0, w_mode = InDegree,
                    w_trust = 0, failure_decay = 0, failure_fanout = 0\<rparr>\<rparr>"

lemma f64_zero_0: "f64_zero False = 0"
  by (simp add: f64_zero_def f64_of_mag_def)

lemma f64_0_facts: "f64_mag 0 = 0" "\<not> f64_neg_bit 0" "\<not> f64_is_nan 0" "\<not> f64_is_inf 0" "f64_num 0 = 0" "f64_int 0 = 0"
  "f64_key 0 = 0"
  by (simp_all add: f64_mag_def f64_neg_bit_def f64_is_nan_def f64_is_inf_def f64_inf_mag_def f64_num_def
      f64_int_def f64_key_def)

lemma f64_0_ops: "f64_mul 0 0 = 0" "f64_add 0 0 = 0" "f64_sub 0 0 = 0" "unit_clamp 0 = 0" "f64_eq 0 0"
proof -
  have "0 < f64_scale" by (simp add: f64_scale_def)
  then show "f64_mul 0 0 = 0" by (simp add: f64_mul_def f64_0_facts f64_round_def Let_def f64_of_mag_def f64_inf_mag_def)
  show "f64_add 0 0 = 0" by (simp add: f64_add_def f64_0_facts f64_zero_0)
  show "f64_sub 0 0 = 0" using f64_sub_zero by (simp add: f64_zero_0)
  have "\<not> f64_lt f64_one 0"
    by (simp add: f64_lt_def f64_key_def f64_one_def f64_neg_bit_def f64_mag_def)
  moreover have "\<not> f64_lt 0 0" by (simp add: f64_lt_def)
  ultimately show "unit_clamp 0 = 0"
    unfolding unit_clamp_def f64_clamp_def f64_zero_0 by simp
  show "f64_eq 0 0" by (simp add: f64_eq_def f64_0_facts)
qed

lemma zero_score: "node_score plain_env (zero_graph is m) (zero_node i) = 0"
  by (simp add: node_score_def compute_node_score_def centrality_signal_def centrality_on_def distrust_of_def
      zero_graph_def zero_node_def plain_env_def graph_new_def Let_def f64_zero_0 f64_0_ops state_bias_def)

lemma zero_fields [simp]:
  "g_nodes (zero_graph is m) = map (\<lambda>i. (i, zero_node i)) is" "g_edges (zero_graph is m) = []"
  "g_cold (zero_graph is m) = []" "g_max (zero_graph is m) = m" "g_husks (zero_graph is m) = None"
  "g_spill (zero_graph is m) = None" "g_content_budget (zero_graph is m) = None"
  "g_policy (zero_graph is m) = policy_new"
  by (simp_all add: zero_graph_def graph_new_def)

lemma zero_plain_score: "i \<in> set is \<Longrightarrow> plain_score plain_env (zero_graph is m) i = 0"
proof -
  assume i: "i \<in> set is"
  have "map_of (map (\<lambda>i. (i, zero_node i)) is) i = Some (zero_node i)"
    using i by (induction "is") auto
  then show ?thesis by (simp add: plain_score_def keyed_def zero_score)
qed

lemma zero_ok: "sorted_wrt (<) is \<Longrightarrow> graph_ok (zero_graph is m)"
  by (simp add: graph_ok_def om_ok_def comp_def)

lemma zero_apart: "tiers_apart (zero_graph is m)" "all_inline (zero_graph is m)"
  by (simp_all add: tiers_apart_def all_inline_def list_all_iff)

lemma zero_untrained: "\<not> is_trained (g_policy (zero_graph is m))"
  by (simp add: is_trained_def policy_new_def)

lemma zero_nan: "\<forall>i. resident (zero_graph is m) i \<longrightarrow> \<not> f64_is_nan (plain_score plain_env (zero_graph is m) i)"
  by (auto simp: om_contains_iff zero_plain_score f64_0_facts)

lemma reachable_graph_safe_witness:
  "length (g_nodes (upsert_node plain_env ''a'' [] [] Symbol (graph_new 0 1 full_disk))) \<le> 1"
proof -
  have "graph_reach plain_env (upsert_node plain_env ''a'' [] [] Symbol (graph_new 0 1 full_disk))"
    by (rule reach_upsert [OF graph_reach.start])
  moreover have "g_max (upsert_node plain_env ''a'' [] [] Symbol (graph_new 0 1 full_disk)) = 1"
    by (subst upsert_ok(3)) (simp_all add: graph_new_def graph_ok_def)
  ultimately show ?thesis using reachable_graph_safe by fastforce
qed

lemma enforce_paging_greedy_witness:
  "length (g_nodes (enforce_paging plain_env (zero_graph [''a'', ''b''] 1))) = 1"
  using enforce_paging_greedy [of "zero_graph [''a'', ''b''] 1" plain_env] zero_nan zero_untrained
    zero_ok [of "[''a'', ''b'']" 1] by simp

lemma enforce_paging_keeps_all_witness:
  "kept_node (enforce_paging plain_env (zero_graph [''a'', ''b''] 1)) = kept_node (zero_graph [''a'', ''b''] 1)"
  using enforce_paging_keeps_all [of "zero_graph [''a'', ''b''] 1" plain_env] zero_apart
    zero_ok [of "[''a'', ''b'']" 1] by simp


lemma select_context_window_best_witness:
  "length (fst (select_context_window plain_env 100 (zero_graph [''a'', ''b''] 4))) = 1"
  using select_context_window_best [of "zero_graph [''a'', ''b''] 4" plain_env 100] zero_nan
    zero_ok [of "[''a'', ''b'']" 4] by simp

definition cold_graph :: mem_graph where
  "cold_graph = (zero_graph [] 1)\<lparr>g_spill := Some (''w'', 0),
     g_cold := [(''a'', \<lparr>cn_node = zero_node ''a'', cn_edges = [], cn_spill = None, cn_compacted = False,
                       cn_at_floor = False\<rparr>)]\<rparr>"


end
