(* ===== verification/F64Order.thy ===== *)
theory F64Order
  imports F64
begin

text \<open>
  Order facts of the binary64 arithmetic: rounding is monotone (\<open>round_mag_mono\<close>), sums of
  non-negative values stay non-negative, a quotient whose numerator is not above its
  denominator is at most one; \<open>f64::sqrt\<close>, correctly rounded from the integer square root,
  and \<open>f64::abs\<close>.
\<close>

subsection \<open>Square root and absolute value\<close>

function isqrt :: "nat \<Rightarrow> nat" where
  \<comment> \<open>the integer part of the square root, two bits at a time\<close>
  "isqrt n = (if n = 0 then 0 else let r = 2 * isqrt (n div 4) in if (r + 1) * (r + 1) \<le> n then r + 1 else r)"
  by pat_completeness auto
termination by (relation "measure id") simp_all

declare isqrt.simps [simp del]

lemma isqrt_bounds: "isqrt n * isqrt n \<le> n \<and> n < Suc (isqrt n) * Suc (isqrt n)"
proof (induction n rule: isqrt.induct)
  case (1 n)
  show ?case
  proof (cases "n = 0")
    case True
    then show ?thesis by (simp add: isqrt.simps [of 0])
  next
    case False
    let ?s = "isqrt (n div 4)"
    have IH: "?s * ?s \<le> n div 4" "n div 4 < Suc ?s * Suc ?s" using "1.IH" [OF False] by simp_all
    have lo: "(2 * ?s) * (2 * ?s) \<le> n"
    proof -
      have "4 * (?s * ?s) \<le> n" using IH(1) by presburger
      then show ?thesis by (simp add: mult.assoc mult.left_commute)
    qed
    have hi: "n < (2 * ?s + 2) * (2 * ?s + 2)"
    proof -
      have "n < 4 * (Suc ?s * Suc ?s)" using IH(2) by presburger
      also have "4 * (Suc ?s * Suc ?s) = (2 * ?s + 2) * (2 * ?s + 2)" by (simp add: algebra_simps)
      finally show ?thesis .
    qed
    show ?thesis using lo hi False by (subst (1 2 3 4) isqrt.simps) (auto simp: Let_def algebra_simps)
  qed
qed

definition f64_sqrt :: "f64 \<Rightarrow> f64" where
  \<comment> \<open>one sticky bit below the integer root decides the rounding as the exact root would\<close>
  "f64_sqrt x =
     (if f64_is_nan x then f64_nan
      else if f64_mag x = 0 then x
      else if f64_neg_bit x then f64_nan
      else if f64_is_inf x then x
      else let n = f64_num x * f64_scale; r = isqrt n
        in f64_round False (2 * r + (if r * r = n then 0 else 1)) 2)"

definition f64_abs :: "f64 \<Rightarrow> f64" where
  "f64_abs x = f64_of_mag False (f64_mag x)"

subsection \<open>Rounding is monotone\<close>

definition rne :: "nat \<Rightarrow> nat \<Rightarrow> nat" where
  \<comment> \<open>the quotient rounded to the nearest integer, ties to even\<close>
  "rne num d = (let q = num div d; r = num mod d in
     if 2 * r > d \<or> (2 * r = d \<and> odd q) then q + 1 else q)"

definition round_exp :: "nat \<Rightarrow> nat \<Rightarrow> nat" where
  "round_exp num den = bitlen (num div den) - 53"

definition round_mag :: "nat \<Rightarrow> nat \<Rightarrow> nat" where
  "round_mag num den = min f64_inf_mag (round_exp num den * 2 ^ 52 + rne num (den * 2 ^ round_exp num den))"

lemma f64_round_mag: "f64_round neg num den = f64_of_mag neg (round_mag num den)"
  by (auto simp: f64_round_def round_mag_def round_exp_def rne_def Let_def min_def)

lemma rne_bounds: "num div d \<le> rne num d" "rne num d \<le> Suc (num div d)"
  by (simp_all add: rne_def Let_def)

lemma rne_mono:
  assumes "0 < d" "0 < e" "a * e \<le> b * d"
  shows "rne a d \<le> rne b e"
proof -
  have q: "a div d \<le> b div e"
  proof -
    have "(a div d) * d * e \<le> b * d"
      using assms(3) by (meson div_times_less_eq_dividend le_trans mult_le_mono1)
    then have "(a div d) * e * d \<le> b * d" by (simp add: mult.commute mult.left_commute)
    then have "(a div d) * e \<le> b" using assms(1) by simp
    then show ?thesis using assms(2) by (simp add: less_eq_div_iff_mult_less_eq)
  qed
  show ?thesis
  proof (cases "a div d = b div e")
    case False
    with q have "Suc (a div d) \<le> b div e" by simp
    then show ?thesis using rne_bounds(2) [of a d] rne_bounds(1) [of b e] by linarith
  next
    case True
    define Q where "Q = a div d"
    have a: "a = Q * d + a mod d" by (simp add: Q_def)
    have b: "b = Q * e + b mod e" unfolding Q_def True by simp
    have "(Q * d + a mod d) * e \<le> (Q * e + b mod e) * d" using assms(3) a b by simp
    then have r: "a mod d * e \<le> b mod e * d" by (simp add: algebra_simps)
    have gt: "e < 2 * (b mod e)" if "d < 2 * (a mod d)"
    proof -
      have "d * e < 2 * (a mod d) * e" using that assms(2) by simp
      also have "\<dots> \<le> 2 * (b mod e) * d" using r by simp
      finally show ?thesis using assms(1) by (simp add: mult.commute)
    qed
    have ge: "e \<le> 2 * (b mod e)" if "d = 2 * (a mod d)"
    proof -
      have "d * e \<le> 2 * (b mod e) * d" using r that by (metis mult.assoc mult_le_mono2)
      then show ?thesis using assms(1) by (simp add: mult.commute)
    qed
    have "rne a d = Q + (if d < 2 * (a mod d) \<or> (2 * (a mod d) = d \<and> odd Q) then 1 else 0)"
      by (simp add: rne_def Q_def Let_def)
    moreover have "rne b e = Q + (if e < 2 * (b mod e) \<or> (2 * (b mod e) = e \<and> odd Q) then 1 else 0)"
      by (simp add: rne_def Q_def True Let_def)
    moreover have "e < 2 * (b mod e) \<or> (2 * (b mod e) = e \<and> odd Q)"
      if "d < 2 * (a mod d) \<or> (2 * (a mod d) = d \<and> odd Q)"
      using that gt ge by (metis le_neq_implies_less)
    ultimately show ?thesis by simp
  qed
qed

lemma bitlen_mono: "a \<le> b \<Longrightarrow> bitlen a \<le> bitlen b"
proof (cases "a = 0")
  case False
  assume ab: "a \<le> b"
  then have "b < 2 ^ bitlen b" using bitlen_bounds [of b] False by simp
  with ab show ?thesis by (intro bitlen_le) simp
qed simp

lemma round_mag_mono:
  assumes "0 < d" "0 < e" "a * e \<le> b * d"
  shows "round_mag a d \<le> round_mag b e"
proof -
  let ?k = "round_exp a d" and ?l = "round_exp b e"
  have q: "a div d \<le> b div e"
  proof -
    have "a div d = a * e div (d * e)" using assms(2) by simp
    also have "\<dots> \<le> b * d div (d * e)" using assms(3) by (rule div_le_mono)
    also have "\<dots> = b div e" using assms(1) by (simp add: mult.commute)
    finally show ?thesis .
  qed
  have kl: "?k \<le> ?l" using bitlen_mono [OF q] by (simp add: round_exp_def)
  have "?k * 2 ^ 52 + rne a (d * 2 ^ ?k) \<le> ?l * 2 ^ 52 + rne b (e * 2 ^ ?l)"
  proof (cases "?k = ?l")
    case True
    have "a * (e * 2 ^ ?l) \<le> b * (d * 2 ^ ?l)" using assms(3) by (simp add: mult.assoc [symmetric])
    then have "rne a (d * 2 ^ ?l) \<le> rne b (e * 2 ^ ?l)" using assms by (intro rne_mono) simp_all
    with True show ?thesis by simp
  next
    case False
    with kl have lt: "?k < ?l" by simp
    have "a div d < 2 ^ bitlen (a div d)" using bitlen_bounds [of "a div d"] by (cases "a div d = 0") simp_all
    also have "\<dots> \<le> 2 ^ (53 + ?k)" by (intro power_increasing) (simp_all add: round_exp_def)
    finally have "a div d < 2 ^ 53 * 2 ^ ?k" by (simp only: power_add)
    then have "a div (d * 2 ^ ?k) < 2 ^ 53" by (simp add: div_mult2_eq less_mult_imp_div_less)
    then have up: "rne a (d * 2 ^ ?k) \<le> 2 ^ 53" using rne_bounds(2) [of a "d * 2 ^ ?k"] by linarith
    have bl: "bitlen (b div e) = 53 + ?l" using lt by (simp add: round_exp_def)
    then have "b div e \<noteq> 0" by (metis add_is_0 bitlen_0 zero_neq_numeral)
    then have "2 ^ (53 + ?l - 1) \<le> b div e" using bitlen_bounds [of "b div e"] bl by simp
    then have "2 ^ 52 * 2 ^ ?l \<le> b div e" unfolding power_add [symmetric] by simp
    then have "2 ^ 52 \<le> b div (e * 2 ^ ?l)"
      by (simp add: div_mult2_eq less_eq_div_iff_mult_less_eq)
    then have lo: "2 ^ 52 \<le> rne b (e * 2 ^ ?l)" using rne_bounds(1) [of b "e * 2 ^ ?l"] by linarith
    have "?k * 2 ^ 52 + 2 ^ 53 = (?k + 2) * 2 ^ 52" by (simp add: algebra_simps)
    also have "\<dots> \<le> (?l + 1) * 2 ^ 52" using lt by (intro mult_le_mono1) simp
    also have "\<dots> = ?l * 2 ^ 52 + 2 ^ 52" by simp
    finally show ?thesis using up lo by linarith
  qed
  then show ?thesis unfolding round_mag_def by (rule min.mono [OF order.refl])
qed

subsection \<open>Sums and quotients\<close>

lemma round_mag_num: "f64_is_finite x \<Longrightarrow> round_mag (f64_num x) 1 = f64_mag x"
proof -
  assume x: "f64_is_finite x"
  have "round_mag (f64_num x) 1 \<le> f64_inf_mag" by (simp add: round_mag_def)
  then have small: "round_mag (f64_num x) 1 < 2 ^ 63" by (simp add: f64_inf_mag_def)
  have "f64_of_mag (f64_neg_bit x) (round_mag (f64_num x) 1) = x"
    using f64_round_num [OF x] by (simp only: f64_round_mag)
  then show ?thesis using f64_mag_of_mag [OF small] by metis
qed

lemma round_mag_small: "round_mag n d < 2 ^ 63"
proof -
  have "round_mag n d \<le> f64_inf_mag" by (simp add: round_mag_def)
  then show ?thesis by (simp add: f64_inf_mag_def)
qed

lemma f64_round_facts [simp]:
  "f64_mag (f64_round neg n d) = round_mag n d" "\<not> f64_neg_bit (f64_round False n d)"
  "\<not> f64_is_nan (f64_round neg n d)"
proof -
  show m: "f64_mag (f64_round neg n d) = round_mag n d"
    unfolding f64_round_mag by (rule f64_mag_of_mag [OF round_mag_small])
  show "\<not> f64_neg_bit (f64_round False n d)"
    unfolding f64_round_mag by (rule f64_pos_of_mag [OF round_mag_small])
  have "round_mag n d \<le> f64_inf_mag" by (simp add: round_mag_def)
  then show "\<not> f64_is_nan (f64_round neg n d)" by (simp add: f64_is_nan_def m)
qed

lemma f64_num_mono: "f64_mag x \<le> f64_mag y \<Longrightarrow> f64_num x \<le> f64_num y"
proof -
  assume le: "f64_mag x \<le> f64_mag y"
  define e f where "e = f64_mag x div 2 ^ 52" and "f = f64_mag x mod 2 ^ 52"
  define e' f' where "e' = f64_mag y div 2 ^ 52" and "f' = f64_mag y mod 2 ^ 52"
  note defs = e_def f_def e'_def f'_def
  have x: "f64_mag x = e * 2 ^ 52 + f" "f < 2 ^ 52" by (simp_all add: defs)
  have y: "f64_mag y = e' * 2 ^ 52 + f'" "f' < 2 ^ 52" by (simp_all add: defs)
  have num: "f64_num x = (if e = 0 then f else (2 ^ 52 + f) * 2 ^ (e - 1))"
    "f64_num y = (if e' = 0 then f' else (2 ^ 52 + f') * 2 ^ (e' - 1))"
    by (simp_all only: f64_num_def defs Let_def)
  have e: "e \<le> e'" unfolding defs using le by (rule div_le_mono)
  show ?thesis
  proof (cases "e = e'")
    case True
    have "f \<le> f'" using le unfolding x(1) y(1) True by simp
    with True show ?thesis by (simp add: num)
  next
    case False
    with e have lt: "e < e'" by simp
    then have y': "f64_num y = (2 ^ 52 + f') * 2 ^ (e' - 1)" by (simp add: num)
    show ?thesis
    proof (cases "e = 0")
      case True
      then have "f64_num x = f" by (simp add: num)
      moreover have "2 ^ 52 * 1 \<le> (2 ^ 52 + f') * 2 ^ (e' - 1)" by (intro mult_le_mono) simp_all
      ultimately show ?thesis using x(2) y' by linarith
    next
      case False
      then have x': "f64_num x = (2 ^ 52 + f) * 2 ^ (e - 1)" by (simp add: num)
      have "(2 ^ 52 + f) * 2 ^ (e - 1) \<le> (2 * 2 ^ 52) * 2 ^ (e - 1)" using x(2) by (intro mult_le_mono1) simp
      also have "\<dots> = 2 ^ 52 * 2 ^ Suc (e - 1)" by simp
      also have "\<dots> \<le> 2 ^ 52 * 2 ^ (e' - 1)"
        using lt False by (intro mult_le_mono2 power_increasing) simp_all
      also have "\<dots> \<le> (2 ^ 52 + f') * 2 ^ (e' - 1)" by (intro mult_le_mono1) simp
      finally show ?thesis using x' y' by simp
    qed
  qed
qed

lemma f64_num_pos: "0 < f64_mag x \<Longrightarrow> 0 < f64_num x"
proof -
  assume "0 < f64_mag x"
  then have "f64_mag x div 2 ^ 52 = 0 \<Longrightarrow> 0 < f64_mag x mod 2 ^ 52"
    by (metis div_mult_mod_eq gr0I add_0 mult_0)
  then show ?thesis by (simp add: f64_num_def Let_def)
qed

definition f64_nonneg :: "f64 \<Rightarrow> bool" where
  \<comment> \<open>a value at or above +0.0, infinity allowed\<close>
  "f64_nonneg x \<longleftrightarrow> \<not> f64_is_nan x \<and> \<not> f64_neg_bit x"

lemma f64_nonneg_zero [simp]: "f64_nonneg (f64_zero False)" "\<not> f64_neg_bit (f64_zero False)"
  "f64_mag (f64_zero False) = 0" "\<not> f64_is_nan (f64_zero False)"
  by (simp_all add: f64_nonneg_def f64_zero_def f64_of_mag_def f64_is_nan_def f64_mag_def f64_neg_bit_def)

lemma f64_finite_or_inf: "\<not> f64_is_nan x \<Longrightarrow> \<not> f64_is_inf x \<Longrightarrow> f64_is_finite x"
  by (simp add: f64_is_finite_def f64_is_nan_def f64_is_inf_def)

lemma f64_num_zero: "f64_mag x = 0 \<Longrightarrow> f64_num x = 0"
  by (simp add: f64_num_def)

lemma round_mag_0 [simp]: "round_mag 0 d = 0"
  by (simp add: round_mag_def round_exp_def rne_def Let_def f64_inf_mag_def)

lemma f64_add_mag:
  assumes "f64_nonneg x" "f64_nonneg y" "f64_is_finite x" "f64_is_finite y"
  shows "f64_mag (f64_add x y) = round_mag (f64_num x + f64_num y) 1"
proof -
  note fin = f64_finite_cases [OF assms(3)] f64_finite_cases [OF assms(4)]
  have i: "f64_int x + f64_int y = int (f64_num x + f64_num y)"
    using assms by (simp add: f64_int_def f64_nonneg_def)
  show ?thesis
  proof (cases "f64_num x + f64_num y = 0")
    case True
    then show ?thesis using fin assms(1) by (simp add: f64_add_def Let_def f64_nonneg_def i)
  next
    case False
    then show ?thesis using fin by (auto simp: f64_add_def Let_def i simp del: of_nat_add)
  qed
qed

lemma f64_add_nonneg:
  assumes "f64_nonneg x" "f64_nonneg y"
  shows "f64_nonneg (f64_add x y)" "f64_mag x \<le> f64_mag (f64_add x y)" "f64_mag y \<le> f64_mag (f64_add x y)"
proof -
  have "f64_nonneg (f64_add x y) \<and> f64_mag x \<le> f64_mag (f64_add x y) \<and> f64_mag y \<le> f64_mag (f64_add x y)"
  proof (cases "f64_is_finite x \<and> f64_is_finite y")
    case True
    note fin = f64_finite_cases [of x] f64_finite_cases [of y]
    have i: "f64_int x = int (f64_num x)" "f64_int y = int (f64_num y)"
      using assms by (simp_all add: f64_int_def f64_nonneg_def)
    have "round_mag (f64_num x) 1 \<le> round_mag (f64_num x + f64_num y) 1"
      "round_mag (f64_num y) 1 \<le> round_mag (f64_num x + f64_num y) 1" by (rule round_mag_mono; simp)+
    then have "f64_mag x \<le> f64_mag (f64_add x y)" "f64_mag y \<le> f64_mag (f64_add x y)"
      using f64_add_mag [OF assms] True round_mag_num by simp_all
    moreover have "f64_nonneg (f64_add x y)"
    proof (cases "f64_num x + f64_num y = 0")
      case True': True
      then show ?thesis using True fin i assms by (simp add: f64_add_def Let_def f64_nonneg_def)
    next
      case False
      then have "f64_add x y = f64_round False (f64_num x + f64_num y) 1"
        using True fin i by (auto simp: f64_add_def Let_def nat_add_distrib)
      then show ?thesis by (simp add: f64_nonneg_def)
    qed
    ultimately show ?thesis by simp
  next
    case False
    then have "f64_is_inf x \<or> f64_is_inf y"
      using assms f64_finite_or_inf by (auto simp: f64_nonneg_def)
    then show ?thesis
      using assms by (auto simp: f64_add_def f64_nonneg_def f64_is_nan_def f64_is_inf_def)
  qed
  then show "f64_nonneg (f64_add x y)" "f64_mag x \<le> f64_mag (f64_add x y)" "f64_mag y \<le> f64_mag (f64_add x y)"
    by simp_all
qed

lemma f64_neg_facts [simp]: "f64_mag (f64_neg x) = f64_mag x" "f64_neg_bit (f64_neg x) \<longleftrightarrow> \<not> f64_neg_bit x"
proof -
  have bit: "bit (2 ^ 63 :: f64) i \<longleftrightarrow> i = 63" for i
    by (simp only: bit_exp_iff) (auto simp: possible_bit_def)
  have u: "unat x < 2 ^ 64" using unsigned_less [of x] by simp
  have top: "f64_neg_bit y \<longleftrightarrow> bit y 63" for y :: f64
  proof -
    have "unat y < 2 ^ 64" using unsigned_less [of y] by simp
    then have "unat y div 2 ^ 63 < 2" by (simp add: less_mult_imp_div_less)
    then have "odd (unat y div 2 ^ 63) \<longleftrightarrow> unat y div 2 ^ 63 \<noteq> 0" by (auto simp: less_2_cases_iff)
    then have "(2 ^ 63 \<le> unat y) \<longleftrightarrow> odd (unat y div 2 ^ 63)" by (simp add: div_eq_0_iff not_less)
    moreover have "bit y 63 \<longleftrightarrow> bit (unat y) 63" by (simp add: bit_unsigned_iff)
    moreover have "bit (unat y) 63 \<longleftrightarrow> odd (unat y div 2 ^ 63)" by (rule bit_iff_odd)
    ultimately show ?thesis unfolding f64_neg_bit_def by blast
  qed
  show "f64_neg_bit (f64_neg x) \<longleftrightarrow> \<not> f64_neg_bit x"
    unfolding top f64_neg_def bit_xor_iff bit by simp
  have "take_bit 63 (f64_neg x) = take_bit 63 x"
    unfolding f64_neg_def by (rule bit_eqI) (unfold bit_take_bit_iff bit_xor_iff bit, auto)
  then have "take_bit 63 (unat (f64_neg x)) = take_bit 63 (unat x)"
    by (simp only: unsigned_take_bit_eq [symmetric])
  then show "f64_mag (f64_neg x) = f64_mag x"
    unfolding f64_mag_def take_bit_eq_mod .
qed

lemma f64_sub_mag:
  assumes "f64_nonneg x" "f64_nonneg y" "f64_is_finite x" "f64_is_finite y"
  shows "f64_mag (f64_sub x y) \<le> f64_mag (f64_add x y)" "\<not> f64_is_nan (f64_sub x y)"
    "f64_num y \<le> f64_num x \<Longrightarrow> \<not> f64_neg_bit (f64_sub x y)"
proof -
  let ?s = "f64_int x + f64_int (f64_neg y)"
  have n: "f64_num (f64_neg y) = f64_num y" by (simp add: f64_num_def)
  have fin: "\<not> f64_is_nan x" "\<not> f64_is_inf x" "\<not> f64_is_nan (f64_neg y)" "\<not> f64_is_inf (f64_neg y)"
    using assms(3,4) by (simp_all add: f64_is_finite_def f64_is_nan_def f64_is_inf_def)
  have s: "?s = int (f64_num x) - int (f64_num y)"
    using assms(1,2) by (simp add: f64_int_def f64_nonneg_def n)
  have e: "f64_sub x y = (if ?s = 0 then f64_zero False else f64_round (?s < 0) (nat \<bar>?s\<bar>) 1)"
    using fin assms(1) by (simp add: f64_sub_def f64_add_def Let_def f64_nonneg_def)
  have "round_mag (nat \<bar>?s\<bar>) 1 \<le> round_mag (f64_num x + f64_num y) 1"
    using s by (intro round_mag_mono) simp_all
  then show "f64_mag (f64_sub x y) \<le> f64_mag (f64_add x y)"
    using f64_add_mag [OF assms] e by auto
  show "\<not> f64_is_nan (f64_sub x y)"
    using e f64_nonneg_zero(1) by (auto simp: f64_nonneg_def)
  show "\<not> f64_neg_bit (f64_sub x y)" if "f64_num y \<le> f64_num x"
    using that s e by auto
qed

lemma f64_div_le_one:
  assumes "f64_mag x \<le> f64_mag y" "0 < f64_mag y" "f64_is_finite x" "\<not> f64_is_nan y"
  shows "f64_mag (f64_div x y) \<le> f64_mag f64_one" "\<not> f64_is_nan (f64_div x y)"
proof -
  note fx = f64_finite_cases [OF assms(3)]
  have "f64_mag (f64_div x y) \<le> f64_mag f64_one \<and> \<not> f64_is_nan (f64_div x y)"
  proof (cases "f64_is_inf y")
    case True
    have "f64_zero n = f64_round n 0 1" for n by (simp add: f64_round_mag f64_zero_def)
    then show ?thesis using True fx assms(4) by (simp add: f64_div_def Let_def)
  next
    case False
    have pos: "0 < f64_num y" by (rule f64_num_pos [OF assms(2)])
    have "round_mag (f64_num x * f64_scale) (f64_num y) \<le> round_mag (f64_num f64_one) 1"
      using f64_num_mono [OF assms(1)] pos by (intro round_mag_mono) (simp_all add: f64_one_facts)
    also have "\<dots> = f64_mag f64_one" by (rule round_mag_num [OF f64_one_facts(1)])
    finally show ?thesis using False fx assms(2,4) by (simp add: f64_div_def Let_def)
  qed
  then show "f64_mag (f64_div x y) \<le> f64_mag f64_one" "\<not> f64_is_nan (f64_div x y)" by simp_all
qed

end
