(* ===== verification/Beliefs.thy ===== *)
theory Beliefs
  imports F64Order MemGraph
begin

text \<open>
  The belief layer of \<open>src/memory.rs\<close>: the two evidence surfaces of a claim and the belief and
  conflict derived from them, belief propagation along \<open>Causes\<close> edges, and the two dependency
  walks, \<open>intervene\<close> (who is forced by a change) and \<open>blame\<close> (what a failure can come from).
  \<open>powf\<close> of the mathematical library is a parameter of the decayed variant.
\<close>

subsection \<open>Evidence\<close>

record QBelief =
  q_support :: f64
  q_contradiction :: f64
  q_belief :: f64
  q_conflict :: f64

definition BELIEF_EPS :: f64 where "BELIEF_EPS = f64_rat 1 1"

definition is_validated :: "f64 \<Rightarrow> f64 \<Rightarrow> QBelief \<Rightarrow> bool" where
  "is_validated min_belief max_conflict q \<longleftrightarrow> f64_le min_belief (q_belief q) \<and> f64_le (q_conflict q) max_conflict"

definition belief_from_sums :: "f64 \<Rightarrow> f64 \<Rightarrow> QBelief" where
  "belief_from_sums support contradiction =
     (let denom = f64_add (f64_add support contradiction) BELIEF_EPS
      in \<lparr>q_support = support, q_contradiction = contradiction,
          q_belief = f64_div (f64_sub support contradiction) denom,
          q_conflict = f64_div (f64_mul (f64_rat 2 1) (f64_sqrt (f64_mul support contradiction))) denom\<rparr>)"

definition is_evidence :: "edge_type \<Rightarrow> bool" where
  "is_evidence ty \<longleftrightarrow> ty = Supports \<or> ty = Contradicts"

definition add_evidence :: "edge_type \<Rightarrow> f64 \<Rightarrow> f64 \<times> f64 \<Rightarrow> f64 \<times> f64" where
  \<comment> \<open>the \<open>match\<close> on the edge type\<close>
  "add_evidence ty w = (\<lambda>(s, c). if ty = Supports then (f64_add s w, c)
     else if ty = Contradicts then (s, f64_add c w) else (s, c))"

definition qbelief :: "mem_graph \<Rightarrow> node_id \<Rightarrow> QBelief" where
  "qbelief g claim =
     (case fold (\<lambda>e sc. if e_target e \<noteq> claim then sc else add_evidence (e_type e) (e_weight e) sc)
        (g_edges g) (f64_zero False, f64_zero False)
      of (support, contradiction) \<Rightarrow> belief_from_sums support contradiction)"

definition sum_evidence :: "graph_edge \<Rightarrow> (node_id, f64 \<times> f64) omap \<Rightarrow> (node_id, f64 \<times> f64) omap" where
  \<comment> \<open>\<open>sums.entry(e.target).or_default()\<close>, for evidence edges only\<close>
  "sum_evidence e sums =
     (if is_evidence (e_type e)
      then om_insert (e_target e) (add_evidence (e_type e) (e_weight e)
             (case map_of sums (e_target e) of Some sc \<Rightarrow> sc | None \<Rightarrow> (f64_zero False, f64_zero False))) sums
      else sums)"

definition qbeliefs :: "mem_graph \<Rightarrow> (node_id, QBelief) omap" where
  "qbeliefs g = map (\<lambda>(i, sc). (i, belief_from_sums (fst sc) (snd sc))) (fold sum_evidence (g_edges g) [])"

definition qbelief_decayed :: "(f64 \<Rightarrow> f64 \<Rightarrow> f64) \<Rightarrow> node_id \<Rightarrow> f64 \<Rightarrow> mem_graph \<Rightarrow> QBelief" where
  \<comment> \<open>\<open>powf\<close>: the library's power function\<close>
  "qbelief_decayed powf claim half_life g =
     (if f64_le half_life (f64_zero False) then qbelief g claim
      else (case fold (\<lambda>e sc. if e_target e \<noteq> claim \<or> \<not> is_evidence (e_type e) then sc
               else let age = f64_of_nat (g_clock g - e_created_at e);
                        decayed = f64_mul (e_weight e) (powf (f64_rat 1 2) (f64_div age half_life))
                    in add_evidence (e_type e) decayed sc)
             (g_edges g) (f64_zero False, f64_zero False)
           of (support, contradiction) \<Rightarrow> belief_from_sums support contradiction))"

definition evidence_of :: "node_id \<Rightarrow> edge_type \<Rightarrow> mem_graph \<Rightarrow> node_id list" where
  "evidence_of claim polarity g =
     remdups_adj (sort (map e_source (filter (\<lambda>e. e_target e = claim \<and> e_type e = polarity) (g_edges g))))"

definition conflict_cmp :: "node_id \<times> QBelief \<Rightarrow> node_id \<times> QBelief \<Rightarrow> cmp" where
  "conflict_cmp a b = cmp_then (f64_cmp (q_conflict (snd b)) (q_conflict (snd a))) (ord_cmp (fst a) (fst b))"

definition claim_beliefs :: "mem_graph \<Rightarrow> (node_id \<times> QBelief) list" where
  "claim_beliefs g =
     (let claims = remdups_adj (sort (map e_target (filter (\<lambda>e. is_evidence (e_type e)) (g_edges g))))
      in sort_by conflict_cmp (map (\<lambda>c. (c, qbelief g c)) claims))"

definition dangling_edge_count :: "mem_graph \<Rightarrow> nat" where
  "dangling_edge_count g =
     length (filter (\<lambda>e. \<not> resident g (e_source e) \<or> \<not> resident g (e_target e)) (g_edges g))"

subsection \<open>Belief propagation\<close>

type_synonym derived = "node_id \<times> node_id \<times> bool \<times> f64"

definition derived_key :: "derived \<Rightarrow> node_id \<times> node_id \<times> bool" where
  "derived_key = (\<lambda>(s, t, p, w). (s, t, p))"

definition derived_cmp :: "derived \<Rightarrow> derived \<Rightarrow> cmp" where
  "derived_cmp = (\<lambda>(s, t, p, _) (s', t', p', _).
     cmp_then (cmp_then (ord_cmp s s') (ord_cmp t t')) (ord_cmp p p'))"

fun dedup_by_key :: "('a \<Rightarrow> 'b) \<Rightarrow> 'a list \<Rightarrow> 'a list" where
  \<comment> \<open>\<open>Vec::dedup_by\<close>: of neighbours with equal keys the first stays\<close>
  "dedup_by_key k [] = []"
| "dedup_by_key k [x] = [x]"
| "dedup_by_key k (x # y # xs) = (if k x = k y then dedup_by_key k (x # xs) else x # dedup_by_key k (y # xs))"

definition derive :: "mem_graph \<Rightarrow> f64 \<Rightarrow> f64 \<Rightarrow> graph_edge \<Rightarrow> derived list" where
  \<comment> \<open>one iteration of the collecting loop\<close>
  "derive g resolve_threshold damping e =
     (if e_type e \<noteq> Causes \<or> e_source e = e_target e then []
      else let belief = q_belief (qbelief g (e_source e)) in
        if f64_lt (f64_abs belief) resolve_threshold then []
        else [(e_source e, e_target e, f64_lt (f64_zero False) belief,
               f64_mul (f64_mul (e_weight e) damping) (f64_abs belief))])"

definition polarity :: "bool \<Rightarrow> edge_type" where
  "polarity supports = (if supports then Supports else Contradicts)"

fun add_derived :: "derived list \<Rightarrow> mem_graph \<Rightarrow> nat \<times> mem_graph" where
  "add_derived [] g = (0, g)"
| "add_derived ((src, tgt, supports, weight) # ds) g =
     (let (fresh, g1) = add_edge src tgt weight (polarity supports) g; (n, g2) = add_derived ds g1
      in (if fresh then n + 1 else n, g2))"

definition to_add :: "f64 \<Rightarrow> f64 \<Rightarrow> mem_graph \<Rightarrow> derived list" where
  "to_add resolve_threshold damping g =
     dedup_by_key derived_key (sort_by derived_cmp
       (concat (map (derive g (unit_clamp resolve_threshold) (unit_clamp damping)) (g_edges g))))"

definition propagate_beliefs :: "f64 \<Rightarrow> f64 \<Rightarrow> mem_graph \<Rightarrow> nat \<times> mem_graph" where
  "propagate_beliefs resolve_threshold damping g = add_derived (to_add resolve_threshold damping g) g"

fun propagate_beliefs_converge :: "f64 \<Rightarrow> f64 \<Rightarrow> nat \<Rightarrow> mem_graph \<Rightarrow> nat \<times> mem_graph" where
  "propagate_beliefs_converge resolve_threshold damping 0 g = (0, g)"
| "propagate_beliefs_converge resolve_threshold damping (Suc max_rounds) g =
     (let (added, g1) = propagate_beliefs resolve_threshold damping g in
        if added = 0 then (0, g1)
        else let (rest, g2) = propagate_beliefs_converge resolve_threshold damping max_rounds g1
             in (added + rest, g2))"

subsection \<open>Dependency walks\<close>

definition walk_orphan :: "mem_graph \<Rightarrow> node_id \<Rightarrow> bool" where
  "walk_orphan g i = (case map_of (g_nodes g) i of Some n \<Rightarrow> n_state n = Orphan | None \<Rightarrow> True)"

definition dep_cmp :: "graph_edge \<Rightarrow> graph_edge \<Rightarrow> cmp" where
  "dep_cmp a b = cmp_then (ord_cmp (e_source a) (e_source b)) (ord_cmp (e_target a) (e_target b))"

definition dep_edges :: "mem_graph \<Rightarrow> graph_edge list" where
  "dep_edges g = sort_by dep_cmp (filter (\<lambda>e. carries_trust (e_type e)
     \<and> \<not> walk_orphan g (e_source e) \<and> \<not> walk_orphan g (e_target e)) (g_edges g))"

definition add_mass :: "node_id \<Rightarrow> f64 \<Rightarrow> (node_id, f64) omap \<Rightarrow> (node_id, f64) omap" where
  \<comment> \<open>\<open>*m.entry(i).or_insert(0.0) += v\<close>\<close>
  "add_mass i v m = om_insert i (f64_add (case map_of m i of Some x \<Rightarrow> x | None \<Rightarrow> f64_zero False) v) m"

definition force :: "(node_id, f64) omap \<Rightarrow> f64 \<Rightarrow> node_id \<Rightarrow> node_id \<Rightarrow> f64 \<Rightarrow> (node_id, f64) omap \<Rightarrow> (node_id, f64) omap" where
  \<comment> \<open>the body of the edge loop: mass flows from \<open>src\<close> to \<open>dst\<close>\<close>
  "force current damping src dst weight next =
     (case map_of current src of
        Some mass \<Rightarrow> (let contrib = f64_mul (f64_mul mass weight) damping in
            if f64_lt (f64_zero False) contrib then add_mass dst contrib next else next)
      | None \<Rightarrow> next)"

fun intervene_rounds :: "graph_edge list \<Rightarrow> f64 \<Rightarrow> node_id \<Rightarrow> nat \<Rightarrow> (node_id, f64) omap \<Rightarrow> (node_id, f64) omap
    \<Rightarrow> (node_id, f64) omap" where
  "intervene_rounds es damping origin 0 current impact = impact"
| "intervene_rounds es damping origin (Suc k) current impact =
     (let next = om_remove origin
            (fold (\<lambda>e. force current damping (e_target e) (e_source e) (e_weight e)) es [])
      in if next = [] then impact
         else intervene_rounds es damping origin k next (fold (\<lambda>(n, v). add_mass n v) next impact))"

fun blame_rounds :: "graph_edge list \<Rightarrow> f64 \<Rightarrow> node_id \<Rightarrow> nat \<Rightarrow> (node_id, f64) omap \<Rightarrow> (node_id, f64) omap
    \<Rightarrow> (node_id, f64) omap" where
  "blame_rounds es damping origin 0 current blamed = blamed"
| "blame_rounds es damping origin (Suc k) current blamed =
     (let next = om_remove origin
            (fold (\<lambda>e. force current damping (e_source e) (e_target e) (e_weight e)) es [])
      in if next = [] then blamed
         else blame_rounds es damping origin k next (fold (\<lambda>(n, v). add_mass n v) next blamed))"

definition impact_cmp :: "node_id \<times> f64 \<Rightarrow> node_id \<times> f64 \<Rightarrow> cmp" where
  "impact_cmp a b = cmp_then (f64_cmp (snd b) (snd a)) (ord_cmp (fst a) (fst b))"

definition intervene :: "node_id \<Rightarrow> f64 \<Rightarrow> f64 \<Rightarrow> nat \<Rightarrow> mem_graph \<Rightarrow> (node_id \<times> f64) list" where
  "intervene origin magnitude damping max_depth g =
     (if \<not> resident g origin then []
      else sort_by impact_cmp (intervene_rounds (dep_edges g) (unit_clamp damping) origin max_depth
             [(origin, f64_max magnitude (f64_zero False))] []))"

definition blame :: "node_id \<Rightarrow> f64 \<Rightarrow> nat \<Rightarrow> mem_graph \<Rightarrow> (node_id \<times> f64) list" where
  "blame origin damping max_depth g =
     (if \<not> resident g origin then []
      else sort_by impact_cmp (blame_rounds (dep_edges g) (unit_clamp damping) origin max_depth
             [(origin, f64_rat 1 1)] []))"

subsection \<open>The batch of beliefs is the belief of each claim\<close>

lemma add_evidence_other: "\<not> is_evidence ty \<Longrightarrow> add_evidence ty w sc = sc"
  by (simp add: add_evidence_def is_evidence_def case_prod_beta)

definition evidence_for :: "node_id \<Rightarrow> graph_edge list \<Rightarrow> graph_edge list" where
  "evidence_for i es = filter (\<lambda>e. e_target e = i \<and> is_evidence (e_type e)) es"

lemma qbelief_evidence:
  "qbelief g i = (case fold (\<lambda>e. add_evidence (e_type e) (e_weight e)) (evidence_for i (g_edges g))
     (f64_zero False, f64_zero False) of (s, c) \<Rightarrow> belief_from_sums s c)"
proof -
  have "fold (\<lambda>e sc. if e_target e \<noteq> i then sc else add_evidence (e_type e) (e_weight e) sc) es sc
     = fold (\<lambda>e. add_evidence (e_type e) (e_weight e)) (evidence_for i es) sc" for es sc
    by (induction es arbitrary: sc) (simp_all add: evidence_for_def add_evidence_other)
  then show ?thesis by (simp add: qbelief_def)
qed

lemma map_of_sum_evidence:
  "map_of (fold sum_evidence es m) i =
     (if evidence_for i es = [] then map_of m i
      else Some (fold (\<lambda>e. add_evidence (e_type e) (e_weight e)) (evidence_for i es)
             (case map_of m i of Some sc \<Rightarrow> sc | None \<Rightarrow> (f64_zero False, f64_zero False))))"
proof (induction es arbitrary: m)
  case (Cons e es)
  have "fold sum_evidence (e # es) m = fold sum_evidence es (sum_evidence e m)" by simp
  moreover have "evidence_for i (e # es) = (if e_target e = i \<and> is_evidence (e_type e) then [e] else []) @ evidence_for i es"
    by (simp add: evidence_for_def)
  moreover have "map_of (sum_evidence e m) i = (if e_target e = i \<and> is_evidence (e_type e)
      then Some (add_evidence (e_type e) (e_weight e)
             (case map_of m i of Some sc \<Rightarrow> sc | None \<Rightarrow> (f64_zero False, f64_zero False))) else map_of m i)"
    by (auto simp: sum_evidence_def)
  ultimately show ?case by (simp only: Cons.IH) auto
qed (simp add: evidence_for_def)

lemma belief_denom:
  assumes "f64_nonneg s" "f64_nonneg c"
  defines "d \<equiv> f64_add (f64_add s c) BELIEF_EPS"
  shows "f64_nonneg d" "f64_mag (f64_add s c) \<le> f64_mag d" "0 < f64_mag d"
proof -
  have one: "f64_nonneg BELIEF_EPS" "0 < f64_mag BELIEF_EPS"
    using f64_one_facts f64_num_zero [of f64_one]
    by (auto simp: BELIEF_EPS_def f64_nonneg_def f64_finite_cases f64_scale_def)
  note a = f64_add_nonneg [OF f64_add_nonneg(1) [OF assms(1,2)] one(1)]
  show "f64_nonneg d" "f64_mag (f64_add s c) \<le> f64_mag d" unfolding d_def by (rule a)+
  show "0 < f64_mag d" unfolding d_def using a(3) one(2) by simp
qed

lemma f64_div_zero_mag:
  "f64_mag x = 0 \<Longrightarrow> f64_nonneg y \<Longrightarrow> 0 < f64_mag y \<Longrightarrow> f64_mag (f64_div x y) = 0"
proof -
  assume x: "f64_mag x = 0" and y: "f64_nonneg y" "0 < f64_mag y"
  have z: "f64_mag (f64_zero n) = 0" for n by (simp add: f64_zero_def f64_mag_of_mag)
  have "\<not> f64_is_nan x" "\<not> f64_is_inf x" using x by (simp_all add: f64_is_nan_def f64_is_inf_def f64_inf_mag_def)
  with x y z show ?thesis by (simp add: f64_div_def Let_def f64_nonneg_def f64_num_zero)
qed

lemma f64_mul_zero_mag: "f64_mag x = 0 \<Longrightarrow> f64_is_finite y \<Longrightarrow> f64_mag (f64_mul y x) = 0"
  using f64_finite_cases [of y]
  by (simp add: f64_mul_def Let_def f64_is_nan_def f64_is_inf_def f64_inf_mag_def f64_num_zero)

lemma belief_zero:
  "f64_mag (q_belief (belief_from_sums (f64_zero False) (f64_zero False))) = 0"
  "f64_mag (q_conflict (belief_from_sums (f64_zero False) (f64_zero False))) = 0"
proof -
  note d = belief_denom [OF f64_nonneg_zero(1) f64_nonneg_zero(1)]
  have fin: "f64_is_finite (f64_zero False)" "f64_is_finite (f64_rat 2 1)"
    using f64_of_nat_num(2) [of 2] by (simp_all add: f64_is_finite_def f64_inf_mag_def f64_of_nat_def)
  have "f64_mag (f64_sqrt (f64_mul (f64_zero False) (f64_zero False))) = 0"
    using f64_mul_zero_mag [OF f64_nonneg_zero(3) fin(1)]
    by (simp add: f64_sqrt_def f64_is_nan_def)
  then have "f64_mag (f64_mul (f64_rat 2 1) (f64_sqrt (f64_mul (f64_zero False) (f64_zero False)))) = 0"
    by (rule f64_mul_zero_mag [OF _ fin(2)])
  then show "f64_mag (q_conflict (belief_from_sums (f64_zero False) (f64_zero False))) = 0"
    using d by (simp add: belief_from_sums_def Let_def f64_div_zero_mag)
  show "f64_mag (q_belief (belief_from_sums (f64_zero False) (f64_zero False))) = 0"
    using d by (simp add: belief_from_sums_def Let_def f64_sub_zero f64_div_zero_mag)
qed

text \<open>
  The batch \<open>qbeliefs\<close> and the per-claim \<open>qbelief\<close> agree node for node: the batch holds
  exactly the nodes an evidence edge points to, each with the belief the scan computes, and a
  node it leaves out has no evidence, belief zero and conflict zero.
\<close>

theorem qbeliefs_agree:
  "map_of (qbeliefs g) i =
     (if \<exists>e \<in> set (g_edges g). e_target e = i \<and> is_evidence (e_type e) then Some (qbelief g i) else None)
   \<and> (map_of (qbeliefs g) i = None \<longrightarrow> qbelief g i = belief_from_sums (f64_zero False) (f64_zero False)
        \<and> f64_mag (q_belief (qbelief g i)) = 0 \<and> f64_mag (q_conflict (qbelief g i)) = 0)"
proof -
  have ev: "(\<exists>e \<in> set (g_edges g). e_target e = i \<and> is_evidence (e_type e)) \<longleftrightarrow> evidence_for i (g_edges g) \<noteq> []"
    by (auto simp: evidence_for_def filter_empty_conv)
  have b: "map_of (qbeliefs g) i = map_option (\<lambda>sc. belief_from_sums (fst sc) (snd sc))
      (map_of (fold sum_evidence (g_edges g) []) i)"
    unfolding qbeliefs_def by (simp add: map_of_map [of "\<lambda>sc. belief_from_sums (fst sc) (snd sc)"])
  note z = belief_zero
  show ?thesis
    unfolding ev b map_of_sum_evidence qbelief_evidence by (simp add: case_prod_beta z)
qed

subsection \<open>Bounds of the belief\<close>

lemma add_evidence_nonneg:
  assumes "\<forall>e \<in> set es. f64_nonneg (e_weight e)" "f64_nonneg (fst sc)" "f64_nonneg (snd sc)"
  defines "r \<equiv> fold (\<lambda>e. add_evidence (e_type e) (e_weight e)) es sc"
  shows "f64_nonneg (fst r) \<and> f64_nonneg (snd r)"
  using assms(1-3) unfolding r_def
proof (induction es arbitrary: sc)
  case (Cons e es)
  have "f64_nonneg (fst (add_evidence (e_type e) (e_weight e) sc))"
    "f64_nonneg (snd (add_evidence (e_type e) (e_weight e) sc))"
    using Cons.prems f64_add_nonneg(1) by (auto simp: add_evidence_def case_prod_beta)
  with Cons.IH Cons.prems(1) show ?case by simp
qed simp

text \<open>
  The belief of a claim is a signed fraction: when the authorities of its evidence are
  non-negative and their sum does not overflow, support and contradiction are non-negative, the
  belief lies between -1 and 1, rounding included, and it is not negative when the support is
  not below the contradiction.
\<close>

theorem belief_bounds:
  assumes "\<forall>e \<in> set (g_edges g). e_target e = i \<and> is_evidence (e_type e) \<longrightarrow> f64_nonneg (e_weight e)"
    and "f64_is_finite (f64_add (q_support (qbelief g i)) (q_contradiction (qbelief g i)))"
  shows "f64_nonneg (q_support (qbelief g i)) \<and> f64_nonneg (q_contradiction (qbelief g i))
    \<and> f64_le (f64_neg f64_one) (q_belief (qbelief g i)) \<and> f64_le (q_belief (qbelief g i)) f64_one
    \<and> (f64_le (q_contradiction (qbelief g i)) (q_support (qbelief g i))
         \<longrightarrow> \<not> f64_neg_bit (q_belief (qbelief g i)))"
proof -
  obtain s c where sc: "fold (\<lambda>e. add_evidence (e_type e) (e_weight e)) (evidence_for i (g_edges g))
      (f64_zero False, f64_zero False) = (s, c)" by fastforce
  have q: "qbelief g i = belief_from_sums s c" by (simp add: qbelief_evidence sc)
  let ?a = "f64_sub s c" and ?d = "f64_add (f64_add s c) BELIEF_EPS"
  have b: "q_support (qbelief g i) = s" "q_contradiction (qbelief g i) = c" "q_belief (qbelief g i) = f64_div ?a ?d"
    by (simp_all add: q belief_from_sums_def Let_def)
  have "\<forall>e \<in> set (evidence_for i (g_edges g)). f64_nonneg (e_weight e)"
    using assms(1) by (auto simp: evidence_for_def)
  from add_evidence_nonneg [OF this, of "(f64_zero False, f64_zero False)"]
  have nn: "f64_nonneg s" "f64_nonneg c" by (simp_all add: sc)
  have sum: "f64_is_finite (f64_add s c)" using assms(2) by (simp add: b)
  have fin: "f64_is_finite s" "f64_is_finite c"
    using f64_add_nonneg(2,3) [OF nn] sum by (simp_all add: f64_is_finite_def)
  note d = belief_denom [OF nn]
  note a = f64_sub_mag [OF nn fin]
  have "f64_is_finite ?a" using a(1) sum by (simp add: f64_is_finite_def)
  note le = f64_div_le_one [OF le_trans [OF a(1) d(2)] d(3) this] d(1)
  have le: "f64_mag (f64_div ?a ?d) \<le> f64_mag f64_one" "\<not> f64_is_nan (f64_div ?a ?d)"
    using le by (simp_all add: f64_nonneg_def)
  have one: "\<not> f64_is_nan f64_one" "\<not> f64_is_nan (f64_neg f64_one)" "\<not> f64_neg_bit f64_one"
    using f64_finite_cases [OF f64_one_facts(1)] f64_one_facts(2) by (simp_all add: f64_is_nan_def)
  have range: "f64_le (f64_neg f64_one) (f64_div ?a ?d)" "f64_le (f64_div ?a ?d) f64_one"
    using le one by (auto simp: f64_le_def f64_key_def)
  have "\<not> f64_neg_bit (f64_div ?a ?d)" if "f64_le c s"
  proof -
    have "f64_mag c \<le> f64_mag s" using that nn by (simp add: f64_le_def f64_key_def f64_nonneg_def)
    then have "\<not> f64_neg_bit ?a" by (intro a(3) f64_num_mono)
    moreover have "\<not> f64_neg_bit ?d" "\<not> f64_is_nan ?d" using d(1) by (simp_all add: f64_nonneg_def)
    moreover note \<open>f64_is_finite ?a\<close> [THEN f64_finite_cases] d(3)
    ultimately show ?thesis by (simp add: f64_div_def Let_def)
  qed
  with nn range show ?thesis by (simp add: b)
qed

subsection \<open>Propagation converges\<close>

definition known_edges :: "mem_graph \<Rightarrow> edge_key set" where
  \<comment> \<open>the keys the duplicate check of \<open>add_edge\<close> sees\<close>
  "known_edges g = (if length (g_edge_set g) = length (g_edges g) then set (g_edge_set g)
     else edge_key ` set (g_edges g))"

lemma add_edge_known:
  assumes "add_edge src tgt w ty g = (fresh, g')"
  shows "fresh \<longleftrightarrow> resident g src \<and> resident g tgt \<and> (src, tgt, ty) \<notin> known_edges g"
    and "known_edges g' = (if fresh then insert (src, tgt, ty) (known_edges g) else known_edges g)"
    and "g_nodes g' = g_nodes g"
    and "g_edges g' = g_edges g @ (if fresh then [\<lparr>e_source = src, e_target = tgt, e_weight = w, e_type = ty,
      e_created_at = g_clock g\<rparr>] else [])"
proof -
  let ?k = "(src, tgt, ty)"
  show "fresh \<longleftrightarrow> resident g src \<and> resident g tgt \<and> ?k \<notin> known_edges g"
    using assms by (auto simp: add_edge_def known_edges_def Let_def split: if_splits)
  show "g_nodes g' = g_nodes g"
    using assms by (auto simp: add_edge_def Let_def split: if_splits)
  show "g_edges g' = g_edges g @ (if fresh then [\<lparr>e_source = src, e_target = tgt, e_weight = w, e_type = ty,
      e_created_at = g_clock g\<rparr>] else [])"
    using assms by (auto simp: add_edge_def Let_def split: if_splits)
  show "known_edges g' = (if fresh then insert ?k (known_edges g) else known_edges g)"
    using assms by (auto simp: add_edge_def known_edges_def Let_def edge_key_def split: if_splits)
qed

definition evidence_edge :: "graph_edge \<Rightarrow> bool" where
  "evidence_edge e \<longleftrightarrow> is_evidence (e_type e)"

lemma polarity_evidence [simp]: "is_evidence (polarity p)" "polarity p \<noteq> Causes" "polarity p = polarity q \<longleftrightarrow> p = q"
  by (simp_all add: polarity_def is_evidence_def)

definition open_keys :: "derived list \<Rightarrow> mem_graph \<Rightarrow> bool" where
  \<comment> \<open>some candidate would be added\<close>
  "open_keys ds g \<longleftrightarrow> (\<exists>(s, t, p, w) \<in> set ds. resident g s \<and> resident g t \<and> (s, t, polarity p) \<notin> known_edges g)"

lemma add_derived_spec:
  assumes "add_derived ds g = (n, g')"
  shows "g_nodes g' = g_nodes g"
    and "\<exists>new. g_edges g' = g_edges g @ new \<and> length new = n
      \<and> (\<forall>e \<in> set new. \<exists>(s, t, p, w) \<in> set ds. edge_key e = (s, t, polarity p) \<and> e_weight e = w)"
    and "known_edges g \<subseteq> known_edges g'" "n = 0 \<longleftrightarrow> \<not> open_keys ds g"
    and "n = 0 \<Longrightarrow> known_edges g' = known_edges g"
    and "finite (known_edges g') \<and> card (known_edges g') = card (known_edges g) + n"
    and "known_edges g' \<subseteq> known_edges g \<union> (\<lambda>(s, t, p, w). (s, t, polarity p)) ` set ds"
proof -
  have "g_nodes g' = g_nodes g
    \<and> (\<exists>new. g_edges g' = g_edges g @ new \<and> length new = n
      \<and> (\<forall>e \<in> set new. \<exists>(s, t, p, w) \<in> set ds. edge_key e = (s, t, polarity p) \<and> e_weight e = w))
    \<and> known_edges g \<subseteq> known_edges g' \<and> (n = 0 \<longleftrightarrow> \<not> open_keys ds g)
    \<and> (n = 0 \<longrightarrow> known_edges g' = known_edges g)
    \<and> finite (known_edges g') \<and> card (known_edges g') = card (known_edges g) + n
    \<and> known_edges g' \<subseteq> known_edges g \<union> (\<lambda>(s, t, p, w). (s, t, polarity p)) ` set ds"
    using assms
  proof (induction ds arbitrary: g n g')
    case Nil
    then show ?case by (auto simp: open_keys_def known_edges_def)
  next
    case (Cons d ds)
    obtain s t p w where d: "d = (s, t, p, w)" by (cases d) auto
    obtain fresh g1 where a: "add_edge s t w (polarity p) g = (fresh, g1)" by fastforce
    obtain m g2 where r: "add_derived ds g1 = (m, g2)" by fastforce
    have res: "n = (if fresh then m + 1 else m)" "g' = g2"
      using Cons.prems a r by (auto simp: d Let_def split: if_splits)
    note k = add_edge_known [OF a]
    obtain new where new: "g_edges g2 = g_edges g1 @ new" "length new = m"
      "\<forall>e \<in> set new. \<exists>(s, t, p, w) \<in> set ds. edge_key e = (s, t, polarity p) \<and> e_weight e = w"
      using Cons.IH [OF r] by blast
    have IH: "g_nodes g2 = g_nodes g1" "known_edges g1 \<subseteq> known_edges g2" "m = 0 \<longleftrightarrow> \<not> open_keys ds g1"
      "m = 0 \<Longrightarrow> known_edges g2 = known_edges g1" "finite (known_edges g2)"
      "card (known_edges g2) = card (known_edges g1) + m"
      "known_edges g2 \<subseteq> known_edges g1 \<union> (\<lambda>(s, t, p, w). (s, t, polarity p)) ` set ds"
      using Cons.IH [OF r] by blast+
    have finite: "finite (known_edges g)" by (simp add: known_edges_def)
    show ?case
    proof (cases fresh)
      case True
      let ?e = "\<lparr>e_source = s, e_target = t, e_weight = w, e_type = polarity p, e_created_at = g_clock g\<rparr>"
      have "edge_key ?e = (s, t, polarity p)" by (simp add: edge_key_def)
      then have "\<forall>e \<in> set (?e # new). \<exists>(s, t, p, w) \<in> set (d # ds). edge_key e = (s, t, polarity p) \<and> e_weight e = w"
        using new(3) d by fastforce
      moreover have "g_edges g' = g_edges g @ (?e # new)" using new(1) k(4) True res by simp
      moreover have "length (?e # new) = n" using new(2) True res by simp
      ultimately have "\<exists>new. g_edges g' = g_edges g @ new \<and> length new = n
        \<and> (\<forall>e \<in> set new. \<exists>(s, t, p, w) \<in> set (d # ds). edge_key e = (s, t, polarity p) \<and> e_weight e = w)"
        by blast
      moreover have "open_keys (d # ds) g" using k(1) True by (auto simp: open_keys_def d)
      moreover have "card (known_edges g1) = Suc (card (known_edges g))" using k(1,2) True finite by simp
      ultimately show ?thesis using IH k res True by (auto simp: d)
    next
      case False
      then have "open_keys (d # ds) g \<longleftrightarrow> open_keys ds g1" using k by (auto simp: open_keys_def d)
      moreover have "\<exists>new. g_edges g' = g_edges g @ new \<and> length new = n
        \<and> (\<forall>e \<in> set new. \<exists>(s, t, p, w) \<in> set (d # ds). edge_key e = (s, t, polarity p) \<and> e_weight e = w)"
        using new k(4) False res by fastforce
      ultimately show ?thesis using IH k res False by auto
    qed
  qed
  then show "g_nodes g' = g_nodes g"
    "\<exists>new. g_edges g' = g_edges g @ new \<and> length new = n
      \<and> (\<forall>e \<in> set new. \<exists>(s, t, p, w) \<in> set ds. edge_key e = (s, t, polarity p) \<and> e_weight e = w)"
    "known_edges g \<subseteq> known_edges g'" "n = 0 \<longleftrightarrow> \<not> open_keys ds g"
    "n = 0 \<Longrightarrow> known_edges g' = known_edges g"
    "finite (known_edges g') \<and> card (known_edges g') = card (known_edges g) + n"
    "known_edges g' \<subseteq> known_edges g \<union> (\<lambda>(s, t, p, w). (s, t, polarity p)) ` set ds"
    by blast+
qed

definition causes :: "mem_graph \<Rightarrow> graph_edge list" where
  "causes g = filter (\<lambda>e. e_type e = Causes) (g_edges g)"

definition cause_keys :: "mem_graph \<Rightarrow> edge_key set" where
  \<comment> \<open>what propagation may ever derive: one edge per cause, effect and polarity\<close>
  "cause_keys g = (\<lambda>(e, p). (e_source e, e_target e, polarity p)) ` (set (causes g) \<times> UNIV)"

lemma card_cause_keys: "card (cause_keys g) \<le> 2 * length (causes g)" "finite (cause_keys g)"
proof -
  have "card (cause_keys g) \<le> card (set (causes g) \<times> (UNIV :: bool set))"
    unfolding cause_keys_def by (rule card_image_le) simp
  also have "\<dots> = card (set (causes g)) * 2" by (simp add: card_cartesian_product)
  finally show "card (cause_keys g) \<le> 2 * length (causes g)" using card_length [of "causes g"] by linarith
  show "finite (cause_keys g)" by (simp add: cause_keys_def)
qed

lemma set_dedup_by_key: "set (dedup_by_key k xs) \<subseteq> set xs"
  by (induction k xs rule: dedup_by_key.induct) auto

lemma to_add_keys: "(s, t, p, w) \<in> set (to_add thr damping g) \<Longrightarrow> (s, t, polarity p) \<in> cause_keys g \<and> s \<noteq> t"
proof -
  assume "(s, t, p, w) \<in> set (to_add thr damping g)"
  then have "\<exists>e \<in> set (g_edges g). (s, t, p, w) \<in> set (derive g (unit_clamp thr) (unit_clamp damping) e)"
    unfolding to_add_def using set_dedup_by_key by fastforce
  then show ?thesis
    by (force simp: derive_def Let_def cause_keys_def causes_def split: if_splits)
qed

lemma propagate_step:
  assumes "propagate_beliefs thr damping g = (n, g1)"
  shows "g_nodes g1 = g_nodes g" "causes g1 = causes g" "cause_keys g1 = cause_keys g"
    and "\<exists>new. g_edges g1 = g_edges g @ new \<and> length new = n \<and> edge_key ` set new \<subseteq> cause_keys g"
    and "card (cause_keys g1 - known_edges g1) + n = card (cause_keys g - known_edges g)"
    and "n = 0 \<Longrightarrow> fst (propagate_beliefs thr damping g1) = 0"
proof -
  let ?ds = "to_add thr damping g"
  have a: "add_derived ?ds g = (n, g1)" using assms by (simp add: propagate_beliefs_def)
  note spec = add_derived_spec [OF a]
  show nodes: "g_nodes g1 = g_nodes g" by (rule spec(1))
  obtain new where new: "g_edges g1 = g_edges g @ new" "length new = n"
    "\<forall>e \<in> set new. \<exists>(s, t, p, w) \<in> set ?ds. edge_key e = (s, t, polarity p) \<and> e_weight e = w"
    using spec(2) by blast
  have keys: "edge_key e \<in> cause_keys g \<and> e_type e \<noteq> Causes" if e: "e \<in> set new" for e
  proof -
    obtain d where "d \<in> set ?ds" "case d of (s, t, p, w) \<Rightarrow> edge_key e = (s, t, polarity p) \<and> e_weight e = w"
      by (rule bexE [OF bspec [OF new(3) e]])
    moreover obtain s t p w where "d = (s, t, p, w)" by (cases d) auto
    ultimately have "(s, t, p, w) \<in> set ?ds" "edge_key e = (s, t, polarity p)" by simp_all
    with to_add_keys [OF this(1)] show ?thesis by (simp add: edge_key_def)
  qed
  then show "\<exists>new. g_edges g1 = g_edges g @ new \<and> length new = n \<and> edge_key ` set new \<subseteq> cause_keys g"
    using new(1,2) by blast
  show c: "causes g1 = causes g" using keys new(1) by (simp add: causes_def)
  then show ck: "cause_keys g1 = cause_keys g" by (simp add: cause_keys_def)
  have sub: "known_edges g1 \<subseteq> known_edges g \<union> cause_keys g" using spec(7) to_add_keys by fastforce
  have fin: "finite (known_edges g1)" "card (known_edges g1) = card (known_edges g) + n" using spec(6) by simp_all
  have split: "cause_keys g - known_edges g = (cause_keys g - known_edges g1) \<union> (known_edges g1 - known_edges g)"
    using sub spec(3) by blast
  have "card (cause_keys g - known_edges g) = card (cause_keys g - known_edges g1) + card (known_edges g1 - known_edges g)"
    unfolding split by (rule card_Un_disjoint) (use fin(1) card_cause_keys(2) in auto)
  moreover have "card (known_edges g1 - known_edges g) = n"
    using spec(3) fin by (simp add: card_Diff_subset finite_subset [OF spec(3)])
  ultimately show "card (cause_keys g1 - known_edges g1) + n = card (cause_keys g - known_edges g)" by (simp add: ck)
  show "fst (propagate_beliefs thr damping g1) = 0" if "n = 0"
  proof -
    have e: "g_edges g1 = g_edges g" using new that by simp
    have "qbelief g1 = qbelief g" by (intro ext) (simp add: qbelief_def e)
    then have "derive g1 = derive g" by (intro ext) (simp add: derive_def)
    then have ds: "to_add thr damping g1 = ?ds" by (simp add: to_add_def e)
    obtain m g2 where r: "add_derived ?ds g1 = (m, g2)" by fastforce
    have "open_keys ?ds g1 \<longleftrightarrow> open_keys ?ds g" unfolding open_keys_def nodes spec(5) [OF that] ..
    then have "m = 0" using add_derived_spec(4) [OF r] spec(4) that by simp
    then show ?thesis by (simp add: propagate_beliefs_def ds r)
  qed
qed

lemma converge_within:
  "\<exists>n g'. (\<forall>K > card (cause_keys g - known_edges g). propagate_beliefs_converge thr damping K g = (n, g'))
     \<and> n \<le> card (cause_keys g - known_edges g) \<and> fst (propagate_beliefs thr damping g') = 0
     \<and> g_nodes g' = g_nodes g
     \<and> (\<exists>new. g_edges g' = g_edges g @ new \<and> length new = n \<and> edge_key ` set new \<subseteq> cause_keys g)"
proof (induction "card (cause_keys g - known_edges g)" arbitrary: g rule: less_induct)
  case less
  obtain a g1 where p: "propagate_beliefs thr damping g = (a, g1)" by fastforce
  note st = propagate_step [OF p]
  let ?m = "card (cause_keys g - known_edges g)"
  show ?case
  proof (cases "a = 0")
    case True
    have "propagate_beliefs_converge thr damping K g = (0, g1)" if "?m < K" for K
      using that p True by (cases K) (simp_all add: Let_def)
    then show ?thesis using st(1,4) st(6) [OF True] True by blast
  next
    case False
    then have "card (cause_keys g1 - known_edges g1) < ?m" using st(5) by linarith
    from less [OF this] obtain n g' where IH:
      "\<forall>K > card (cause_keys g1 - known_edges g1). propagate_beliefs_converge thr damping K g1 = (n, g')"
      "n \<le> card (cause_keys g1 - known_edges g1)" "fst (propagate_beliefs thr damping g') = 0"
      "g_nodes g' = g_nodes g1"
      "\<exists>new. g_edges g' = g_edges g1 @ new \<and> length new = n \<and> edge_key ` set new \<subseteq> cause_keys g1" by blast
    have "propagate_beliefs_converge thr damping K g = (a + n, g')" if "?m < K" for K
    proof (cases K)
      case (Suc k)
      have "card (cause_keys g1 - known_edges g1) < k" using that Suc st(5) False by linarith
      with IH(1) p False Suc show ?thesis by (simp add: Let_def)
    qed (use that in simp)
    moreover have "a + n \<le> ?m" using IH(2) st(5) by linarith
    moreover have "\<exists>new. g_edges g' = g_edges g @ new \<and> length new = a + n \<and> edge_key ` set new \<subseteq> cause_keys g"
    proof -
      obtain n1 n2 where "g_edges g1 = g_edges g @ n1" "length n1 = a" "edge_key ` set n1 \<subseteq> cause_keys g"
        "g_edges g' = g_edges g1 @ n2" "length n2 = n" "edge_key ` set n2 \<subseteq> cause_keys g"
        using st(3,4) IH(5) by auto
      then have "g_edges g' = g_edges g @ (n1 @ n2)" "length (n1 @ n2) = a + n"
        "edge_key ` set (n1 @ n2) \<subseteq> cause_keys g" by auto
      then show ?thesis by blast
    qed
    ultimately show ?thesis using IH(3,4) st(1) by metis
  qed
qed

text \<open>
  C30. Belief propagation reaches a fixpoint on every graph, causal cycles included: from a number
  of rounds that depends on the \<open>Causes\<close> edges alone (one more than twice as many) the result
  no longer changes with the cap, another sweep derives nothing, and all it did was append at
  most one support and one contradiction edge per cause and effect.
\<close>

theorem propagate_beliefs_converges:
  "\<exists>n g'. (\<forall>K > 2 * length (causes g). propagate_beliefs_converge thr damping K g = (n, g'))
     \<and> n \<le> 2 * length (causes g) \<and> fst (propagate_beliefs thr damping g') = 0
     \<and> g_nodes g' = g_nodes g
     \<and> (\<exists>new. g_edges g' = g_edges g @ new \<and> length new = n \<and> edge_key ` set new \<subseteq> cause_keys g)"
proof -
  have "card (cause_keys g - known_edges g) \<le> 2 * length (causes g)"
    using card_cause_keys [of g] by (meson Diff_subset card_mono le_trans)
  moreover obtain n g' where "\<forall>K > card (cause_keys g - known_edges g). propagate_beliefs_converge thr damping K g = (n, g')"
    "n \<le> card (cause_keys g - known_edges g)" "fst (propagate_beliefs thr damping g') = 0" "g_nodes g' = g_nodes g"
    "\<exists>new. g_edges g' = g_edges g @ new \<and> length new = n \<and> edge_key ` set new \<subseteq> cause_keys g"
    using converge_within [of g thr damping] by blast
  ultimately show ?thesis by (intro exI [of _ n] exI [of _ g']) simp
qed

subsection \<open>Blame is the dual of intervention\<close>

definition flip_edge :: "graph_edge \<Rightarrow> graph_edge" where
  "flip_edge e = e\<lparr>e_source := e_target e, e_target := e_source e\<rparr>"

definition flip_graph :: "mem_graph \<Rightarrow> mem_graph" where
  \<comment> \<open>the same graph with every dependency turned around\<close>
  "flip_graph g = g\<lparr>g_edges := map flip_edge (g_edges g)\<rparr>"

lemma flip_fields [simp]: "e_source (flip_edge e) = e_target e" "e_target (flip_edge e) = e_source e"
  "e_type (flip_edge e) = e_type e" "e_weight (flip_edge e) = e_weight e"
  by (simp_all add: flip_edge_def)

lemma dep_cmp_order:
  "dep_cmp a b \<noteq> Greater \<longleftrightarrow> (e_source a, e_target a) \<le> (e_source b, e_target b)"
  "dep_cmp a b = Greater \<longleftrightarrow> (e_source b, e_target b) < (e_source a, e_target a)"
  "dep_cmp b a = Less \<longleftrightarrow> (e_source b, e_target b) < (e_source a, e_target a)"
  by (auto simp: dep_cmp_def cmp_then_def ord_cmp_def less_eq_prod_def less_prod_def)

text \<open>Both walks add, for one receiving node, the same contributions in the same order.\<close>

lemma flip_dep_edges:
  "map flip_edge (filter (\<lambda>e. e_target e = t) (dep_edges g)) = filter (\<lambda>e. e_source e = t) (dep_edges (flip_graph g))"
proof -
  let ?P = "\<lambda>e. carries_trust (e_type e) \<and> \<not> walk_orphan g (e_source e) \<and> \<not> walk_orphan g (e_target e)"
  have tr: "dep_cmp a d \<noteq> Greater" if "dep_cmp a b \<noteq> Greater" "dep_cmp b d \<noteq> Greater" for a b d
    using that unfolding dep_cmp_order(1) by order
  have an: "dep_cmp b a = Less" if "dep_cmp a b = Greater" for a b
    using that unfolding dep_cmp_order(2,3) .
  have fs: "filter P (sort_by dep_cmp xs) = sort_by dep_cmp (filter P xs)" for P xs
    by (rule filter_sort_by) (erule (1) tr, erule an)
  have o: "walk_orphan (flip_graph g) = walk_orphan g" by (intro ext) (simp add: walk_orphan_def flip_graph_def)
  have e: "g_edges (flip_graph g) = map flip_edge (g_edges g)" by (simp add: flip_graph_def)
  have "filter (\<lambda>e. e_source e = t) (dep_edges (flip_graph g))
      = sort_by dep_cmp (map flip_edge (filter (\<lambda>e. e_target e = t) (filter ?P (g_edges g))))"
    unfolding dep_edges_def o fs e by (simp add: filter_map comp_def conj_commute conj_left_commute)
  also have "\<dots> = map flip_edge (sort_by (\<lambda>a b. dep_cmp (flip_edge a) (flip_edge b))
      (filter (\<lambda>e. e_target e = t) (filter ?P (g_edges g))))" by (rule sort_by_map)
  also have "sort_by (\<lambda>a b. dep_cmp (flip_edge a) (flip_edge b)) (filter (\<lambda>e. e_target e = t) (filter ?P (g_edges g)))
      = sort_by dep_cmp (filter (\<lambda>e. e_target e = t) (filter ?P (g_edges g)))"
    by (rule sort_by_cong) (auto simp: dep_cmp_def cmp_then_def ord_cmp_def)
  also have "\<dots> = filter (\<lambda>e. e_target e = t) (dep_edges g)" by (simp only: dep_edges_def fs)
  finally show ?thesis by simp
qed

lemma map_of_forced:
  "map_of (fold (\<lambda>e. force current damping (src e) (dst e) (e_weight e)) es m) i
   = map_of (fold (\<lambda>e. force current damping (src e) (dst e) (e_weight e)) (filter (\<lambda>e. dst e = i) es) m) i"
proof -
  have agree: "map_of m i = map_of m' i \<Longrightarrow>
    map_of (fold (\<lambda>e. force current damping (src e) (dst e) (e_weight e)) es m) i
   = map_of (fold (\<lambda>e. force current damping (src e) (dst e) (e_weight e)) (filter (\<lambda>e. dst e = i) es) m') i" for m'
  proof (induction es arbitrary: m m')
    case (Cons e es)
    let ?f = "force current damping (src e) (dst e) (e_weight e)"
    have "map_of (?f m) i = (if dst e = i then map_of (?f m') i else map_of m' i)"
      using Cons.prems by (auto simp: force_def add_mass_def Let_def split: option.splits)
    then have "map_of (?f m) i = map_of ((if dst e = i then ?f else id) m') i" by simp
    from Cons.IH [OF this] show ?case by (cases "dst e = i") simp_all
  qed simp
  show ?thesis by (rule agree) simp
qed

lemma om_ok_forced: "om_ok m \<Longrightarrow> om_ok (fold (\<lambda>e. force current damping (src e) (dst e) (e_weight e)) es m)"
  by (induction es arbitrary: m) (auto simp: force_def add_mass_def Let_def intro: om_ok_insert split: option.splits)

lemma blame_spread:
  "fold (\<lambda>e. force current damping (e_source e) (e_target e) (e_weight e)) (dep_edges g) []
   = fold (\<lambda>e. force current damping (e_target e) (e_source e) (e_weight e)) (dep_edges (flip_graph g)) []"
proof (rule om_ext, simp add: om_ok_forced, simp add: om_ok_forced, rule ext)
  fix i
  let ?b = "\<lambda>e. force current damping (e_source e) (e_target e) (e_weight e)"
  let ?f = "\<lambda>e. force current damping (e_target e) (e_source e) (e_weight e)"
  have c: "fold ?f (map flip_edge es) m = fold ?b es m" for es m
    by (induction es arbitrary: m) simp_all
  have "map_of (fold ?b (dep_edges g) []) i = map_of (fold ?b (filter (\<lambda>e. e_target e = i) (dep_edges g)) []) i"
    by (rule map_of_forced)
  also have "\<dots> = map_of (fold ?f (filter (\<lambda>e. e_source e = i) (dep_edges (flip_graph g))) []) i"
    by (simp only: c flip: flip_dep_edges)
  also have "\<dots> = map_of (fold ?f (dep_edges (flip_graph g)) []) i" by (rule map_of_forced [symmetric])
  finally show "map_of (fold ?b (dep_edges g) []) i = map_of (fold ?f (dep_edges (flip_graph g)) []) i" .
qed

text \<open>
  Blame is the dual of intervention, bit for bit: the causes a failure is blamed on are the
  nodes that forcing it in the graph with all dependencies turned around would reach, with the
  same weights in the same order.
\<close>

theorem blame_intervene_dual:
  "blame origin damping max_depth g = intervene origin (f64_rat 1 1) damping max_depth (flip_graph g)"
proof -
  have "blame_rounds (dep_edges g) d origin k current m = intervene_rounds (dep_edges (flip_graph g)) d origin k current m"
    for d k current m
    by (induction k arbitrary: current m) (simp_all add: blame_spread Let_def)
  moreover have "f64_max (f64_rat 1 1) (f64_zero False) = f64_rat 1 1"
    using f64_one_facts(2) f64_finite_cases [OF f64_one_facts(1)]
    by (simp add: f64_max_def f64_lt_def f64_key_def)
  ultimately show ?thesis by (simp add: blame_def intervene_def flip_graph_def)
qed

subsection \<open>What an intervention reaches\<close>

inductive forced_by :: "mem_graph \<Rightarrow> node_id \<Rightarrow> nat \<Rightarrow> node_id \<Rightarrow> bool" for g origin where
  \<comment> \<open>a chain of dependents that ends in the origin and never passes it again\<close>
  start: "forced_by g origin 0 origin"
| dependent: "forced_by g origin k (e_target e) \<Longrightarrow> e \<in> set (dep_edges g) \<Longrightarrow> e_source e \<noteq> origin
    \<Longrightarrow> forced_by g origin (Suc k) (e_source e)"

definition f64_pos :: "f64 \<Rightarrow> bool" where
  "f64_pos v \<longleftrightarrow> f64_nonneg v \<and> 0 < f64_mag v"

lemma f64_pos_lt: "f64_lt (f64_zero False) v \<Longrightarrow> f64_pos v"
  by (auto simp: f64_pos_def f64_lt_def f64_key_def f64_nonneg_def split: if_splits)

lemma f64_pos_add: "f64_nonneg x \<Longrightarrow> f64_pos v \<Longrightarrow> f64_pos (f64_add x v)"
  using f64_add_nonneg [of x v] by (simp add: f64_pos_def)

lemma add_mass_all:
  assumes "\<forall>(j, x) \<in> set m. P j \<and> f64_pos x" "P i" "f64_pos v"
  shows "\<forall>(j, x) \<in> set (add_mass i v m). P j \<and> f64_pos x"
proof -
  have pos: "f64_pos (f64_add (case map_of m i of Some x \<Rightarrow> x | None \<Rightarrow> f64_zero False) v)"
    using assms(1,3) by (auto intro!: f64_pos_add simp: f64_pos_def [of "the _"] split: option.split)
      (auto simp: f64_pos_def dest!: map_of_SomeD)
  have "set (om_insert i w m) \<subseteq> insert (i, w) (set m)" for w
    by (induction i w m rule: om_insert.induct) auto
  with pos assms(1,2) show ?thesis unfolding add_mass_def by blast
qed

lemma forced_all:
  assumes "\<forall>e \<in> set es. om_contains current (e_target e) \<longrightarrow> P (e_source e)"
    and "\<forall>(j, x) \<in> set m. P j \<and> f64_pos x"
  shows "\<forall>(j, x) \<in> set (fold (\<lambda>e. force current damping (e_target e) (e_source e) (e_weight e)) es m). P j \<and> f64_pos x"
  using assms
proof (induction es arbitrary: m)
  case (Cons e es)
  have "\<forall>(j, x) \<in> set (force current damping (e_target e) (e_source e) (e_weight e) m). P j \<and> f64_pos x"
  proof (cases "map_of current (e_target e)")
    case None
    then show ?thesis using Cons.prems(2) by (simp add: force_def)
  next
    case (Some mass)
    then have "P (e_source e)" using Cons.prems(1) by (simp add: om_contains_def)
    then have "\<forall>(j, x) \<in> set (add_mass (e_source e) v m). P j \<and> f64_pos x" if "f64_lt (f64_zero False) v" for v
      using add_mass_all [OF Cons.prems(2) _ f64_pos_lt [OF that]] by blast
    with Some Cons.prems(2) show ?thesis by (simp add: force_def Let_def)
  qed
  with Cons.IH Cons.prems(1) show ?case by simp
qed simp

lemma merged_all:
  assumes "\<forall>(j, x) \<in> set next. P j \<and> f64_pos x" "\<forall>(j, x) \<in> set m. P j \<and> f64_pos x"
  shows "\<forall>(j, x) \<in> set (fold (\<lambda>(n, v). add_mass n v) next m). P j \<and> f64_pos x"
  using assms
proof (induction "next" arbitrary: m)
  case (Cons p ps)
  obtain j x where p: "p = (j, x)" by (cases p)
  have "\<forall>(j, x) \<in> set (add_mass j x m). P j \<and> f64_pos x" using Cons.prems p by (intro add_mass_all) auto
  with Cons.IH Cons.prems(1) show ?case by (simp add: p)
qed simp

lemma om_ok_merged: "om_ok m \<Longrightarrow> om_ok (fold (\<lambda>(n, v). add_mass n v) ps m)"
proof (induction ps arbitrary: m)
  case (Cons p ps)
  have "om_ok (add_mass i v m)" for i v unfolding add_mass_def by (rule om_ok_insert [OF Cons.prems])
  with Cons.IH show ?case by (simp add: case_prod_beta)
qed simp

definition reached :: "mem_graph \<Rightarrow> node_id \<Rightarrow> nat \<Rightarrow> node_id \<Rightarrow> bool" where
  "reached g origin depth i \<longleftrightarrow> i \<noteq> origin \<and> (\<exists>k. 0 < k \<and> k \<le> depth \<and> forced_by g origin k i)"

lemma intervene_rounds_all:
  fixes damping :: f64
  assumes "\<forall>(j, x) \<in> set current. forced_by g origin k j"
    and "\<forall>(j, x) \<in> set impact. reached g origin (k + n) j \<and> f64_pos x" "om_ok impact"
  defines "r \<equiv> intervene_rounds (dep_edges g) damping origin n current impact"
  shows "(\<forall>(j, x) \<in> set r. reached g origin (k + n) j \<and> f64_pos x) \<and> om_ok r"
  using assms(1-3) unfolding r_def
proof (induction n arbitrary: current impact k)
  case (Suc n)
  let ?raw = "fold (\<lambda>e. force current damping (e_target e) (e_source e) (e_weight e)) (dep_edges g) []"
  let ?next = "om_remove origin ?raw"
  let ?P = "\<lambda>j. j \<noteq> origin \<longrightarrow> forced_by g origin (Suc k) j"
  have "\<forall>e \<in> set (dep_edges g). om_contains current (e_target e) \<longrightarrow> ?P (e_source e)"
    using Suc.prems(1) by (fastforce simp: om_contains_iff intro: forced_by.dependent)
  from forced_all [OF this, of "[]" damping]
  have raw: "\<forall>(j, x) \<in> set ?raw. ?P j \<and> f64_pos x" by simp
  then have nx: "\<forall>(j, x) \<in> set ?next. forced_by g origin (Suc k) j"
    "\<forall>(j, x) \<in> set ?next. reached g origin (k + Suc n) j \<and> f64_pos x"
    by (auto simp: om_remove_def reached_def intro!: exI [of _ "Suc k"])
  show ?case
  proof (cases "?next = []")
    case True
    then show ?thesis using Suc.prems by (simp add: Let_def)
  next
    case False
    let ?m = "fold (\<lambda>(n, v). add_mass n v) ?next impact"
    have "\<forall>(j, x) \<in> set ?m. reached g origin (Suc k + n) j \<and> f64_pos x"
      using merged_all [OF nx(2) Suc.prems(2)] by simp
    from Suc.IH [OF nx(1) this om_ok_merged [OF Suc.prems(3)]] False show ?thesis by (simp add: Let_def)
  qed
qed simp

lemma total_impact_cmp: "(\<And>a. a \<in> A \<Longrightarrow> \<not> f64_is_nan (snd a)) \<Longrightarrow> total_cmp impact_cmp A"
  unfolding total_cmp_def impact_cmp_def cmp_then_def
  by (simp add: f64_cmp_key ord_cmp_def split: if_splits) (auto split: if_splits)

text \<open>
  An intervention reports only what the change can force: every node it lists is another
  node that depends on the origin through a chain of at most \<open>max_depth\<close> live dependency edges
  (the origin severed, so no chain passes it twice), with a positive impact; no node is listed
  twice and the list is ranked by impact, ties by id.
\<close>

theorem intervene_sound:
  "(\<forall>(i, v) \<in> set (intervene origin magnitude damping max_depth g). reached g origin max_depth i \<and> f64_pos v)
   \<and> distinct (map fst (intervene origin magnitude damping max_depth g))
   \<and> sorted_wrt (\<lambda>a b. impact_cmp a b \<noteq> Greater) (intervene origin magnitude damping max_depth g)"
proof (cases "resident g origin")
  case True
  let ?r = "intervene_rounds (dep_edges g) (unit_clamp damping) origin max_depth
      [(origin, f64_max magnitude (f64_zero False))] []"
  have r: "\<forall>(j, x) \<in> set ?r. reached g origin max_depth j \<and> f64_pos x" "om_ok ?r"
    using intervene_rounds_all [of "[(origin, f64_max magnitude (f64_zero False))]" g origin 0 "[]" max_depth "unit_clamp damping"]
    by (auto intro: forced_by.start)
  have i: "intervene origin magnitude damping max_depth g = sort_by impact_cmp ?r"
    using True by (simp add: intervene_def)
  have "total_cmp impact_cmp (set ?r)"
    using r(1) by (intro total_impact_cmp) (auto simp: f64_pos_def f64_nonneg_def)
  from sorted_sort_by [OF this] have "sorted_wrt (\<lambda>a b. impact_cmp a b \<noteq> Greater) (sort_by impact_cmp ?r)" .
  moreover have "distinct (map fst (sort_by impact_cmp ?r))"
  proof -
    have "inj_on fst (set ?r)" "distinct ?r" using om_ok_distinct [OF r(2)] by (simp_all add: distinct_map)
    then show ?thesis by (simp add: distinct_map)
  qed
  ultimately show ?thesis using r(1) by (simp add: i)
qed (simp add: intervene_def)

subsection \<open>An instance\<close>

definition one_support :: mem_graph where
  \<comment> \<open>a claim with one piece of evidence of full authority\<close>
  "one_support = (graph_new 0 4 \<lparr>d_files = [], d_pid = 1, d_faults = [], d_stuck = []\<rparr>)
     \<lparr>g_edges := [\<lparr>e_source = ''e'', e_target = ''c'', e_weight = f64_one, e_type = Supports, e_created_at = 0\<rparr>]\<rparr>"

lemma belief_bounds_witness:
  "f64_le (q_belief (qbelief one_support ''c'')) f64_one \<and> f64_nonneg (q_support (qbelief one_support ''c''))"
proof -
  let ?z = "f64_zero False"
  have e: "g_edges one_support = [\<lparr>e_source = ''e'', e_target = ''c'', e_weight = f64_one, e_type = Supports,
      e_created_at = 0\<rparr>]" by (simp add: one_support_def)
  have sc: "q_support (qbelief one_support ''c'') = f64_add ?z f64_one" "q_contradiction (qbelief one_support ''c'') = ?z"
    by (simp_all add: qbelief_def e add_evidence_def belief_from_sums_def Let_def)
  have one: "f64_nonneg f64_one" using f64_one_facts f64_finite_cases by (simp add: f64_nonneg_def)
  have z: "f64_is_finite ?z" "f64_num ?z = 0"
    by (simp_all add: f64_is_finite_def f64_inf_mag_def f64_num_zero)
  have "f64_mag (f64_add ?z f64_one) = f64_mag f64_one"
    using f64_add_mag [OF f64_nonneg_zero(1) one z(1) f64_one_facts(1)] round_mag_num [OF f64_one_facts(1)] z(2) by simp
  then have s: "f64_is_finite (f64_add ?z f64_one)" using f64_one_facts(1) by (simp add: f64_is_finite_def)
  have "f64_mag (f64_add (f64_add ?z f64_one) ?z) = f64_mag (f64_add ?z f64_one)"
    using f64_add_mag [OF f64_add_nonneg(1) [OF f64_nonneg_zero(1) one] f64_nonneg_zero(1) s z(1)]
      round_mag_num [OF s] z(2) by simp
  then have "f64_is_finite (f64_add (f64_add ?z f64_one) ?z)" using s by (simp add: f64_is_finite_def)
  then show ?thesis using belief_bounds [of one_support "''c''"] one by (simp add: e sc)
qed

lemma qbeliefs_agree_witness: "map_of (qbeliefs one_support) ''c'' = Some (qbelief one_support ''c'')"
  using qbeliefs_agree [of one_support "''c''"] by (simp add: one_support_def is_evidence_def)

lemma propagate_beliefs_converges_witness:
  "fst (propagate_beliefs f64_one f64_one (snd (propagate_beliefs_converge f64_one f64_one 1 one_support))) = 0"
proof -
  have c: "causes one_support = []" by (simp add: causes_def one_support_def)
  obtain n g' where "\<forall>K > 2 * length (causes one_support). propagate_beliefs_converge f64_one f64_one K one_support = (n, g')"
    "fst (propagate_beliefs f64_one f64_one g') = 0"
    using propagate_beliefs_converges [of one_support f64_one f64_one] by blast
  moreover from this(1) have "propagate_beliefs_converge f64_one f64_one 1 one_support = (n, g')"
    by (rule allE [of _ 1]) (simp only: c list.size mult_0_right zero_less_one simp_thms)
  ultimately show ?thesis by (simp only: snd_conv)
qed

lemma intervene_sound_witness:
  "distinct (map fst (intervene ''c'' f64_one f64_one 3 one_support))"
  using intervene_sound [of "''c''" f64_one f64_one 3 one_support] by blast

end
