(* ===== verification/Sanitizer.thy ===== *)
theory Sanitizer
  imports OrdMap Bytes "HOL-Library.Multiset" "HOL-Library.Sublist"
begin

text \<open>
  The Unicode sanitizer (\<open>src/sanitizer.rs\<close>): classification of hidden characters, the
  per-token scan for mixed-script confusables, the merged report and the defanged copy. Text is
  a list of Unicode scalar values here, since the pass walks \<open>char_indices\<close>; byte offsets are
  sums of UTF-8 lengths. \<open>alnum\<close> stands for the Unicode table behind \<open>char::is_alphanumeric\<close>.
\<close>

type_synonym uchar = nat
type_synonym ustr = "uchar list"

definition asc :: "string \<Rightarrow> ustr" where
  \<comment> \<open>an ASCII literal of the source\<close>
  "asc = map of_char"

definition utf8_len :: "uchar \<Rightarrow> nat" where
  \<comment> \<open>\<open>char::len_utf8\<close>\<close>
  "utf8_len c = (if c < 0x80 then 1 else if c < 0x800 then 2 else if c < 0x10000 then 3 else 4)"

fun char_indices :: "nat \<Rightarrow> nat \<Rightarrow> ustr \<Rightarrow> (nat \<times> nat \<times> uchar) list" where
  \<comment> \<open>\<open>char_indices().enumerate()\<close>: character index, byte offset, character\<close>
  "char_indices i off [] = []"
| "char_indices i off (c # cs) = (i, off, c) # char_indices (Suc i) (off + utf8_len c) cs"

subsection \<open>Kinds, findings, reports\<close>

datatype anomaly_kind = BidiControl | TagChar | ZeroWidth | Control | OtherFormat | Confusable

datatype severity = Low | Medium | High

fun severity_rank :: "severity \<Rightarrow> nat" where
  "severity_rank Low = 0" | "severity_rank Medium = 1" | "severity_rank High = 2"

lemma severity_rank_inj: "severity_rank a = severity_rank b \<longleftrightarrow> a = b"
  by (cases a; cases b) simp_all

instantiation severity :: linorder
begin

definition less_eq_severity :: "severity \<Rightarrow> severity \<Rightarrow> bool" where
  "less_eq_severity a b \<longleftrightarrow> severity_rank a \<le> severity_rank b"

definition less_severity :: "severity \<Rightarrow> severity \<Rightarrow> bool" where
  "less_severity a b \<longleftrightarrow> severity_rank a < severity_rank b"

instance
  by standard (auto simp: less_eq_severity_def less_severity_def severity_rank_inj)

end

fun kind_as_str :: "anomaly_kind \<Rightarrow> string" where
  "kind_as_str BidiControl = ''bidi-control''"
| "kind_as_str TagChar = ''tag-char''"
| "kind_as_str ZeroWidth = ''zero-width''"
| "kind_as_str Control = ''control''"
| "kind_as_str OtherFormat = ''other-format''"
| "kind_as_str Confusable = ''confusable''"

fun kind_severity :: "anomaly_kind \<Rightarrow> severity" where
  "kind_severity BidiControl = High"
| "kind_severity TagChar = High"
| "kind_severity Confusable = High"
| "kind_severity ZeroWidth = Medium"
| "kind_severity Control = Medium"
| "kind_severity OtherFormat = Low"

record scan_finding =
  f_byte_offset :: nat
  f_char_index :: nat
  f_codepoint :: uchar
  f_kind :: anomaly_kind
  f_label :: ustr

definition hex_digit :: "nat \<Rightarrow> char" where
  "hex_digit n = ''0123456789ABCDEF'' ! n"

fun hex_digits :: "nat \<Rightarrow> string" where
  "hex_digits n = (if n < 16 then [hex_digit n] else hex_digits (n div 16) @ [hex_digit (n mod 16)])"

declare hex_digits.simps [simp del]

definition hex4 :: "nat \<Rightarrow> string" where
  \<comment> \<open>\<open>{:04X}\<close>\<close>
  "hex4 n = replicate (4 - length (hex_digits n)) (CHR ''0'') @ hex_digits n"

definition literal :: "scan_finding \<Rightarrow> ustr" where
  "literal f = asc (''[U+'' @ hex4 (f_codepoint f) @ '' '') @ f_label f @ asc '']''"

record scan_report =
  r_findings :: "scan_finding list"
  r_counts :: "(string, nat) omap"

definition is_clean :: "scan_report \<Rightarrow> bool" where
  "is_clean r \<longleftrightarrow> r_findings r = []"

definition highest_severity :: "scan_report \<Rightarrow> severity option" where
  "highest_severity r = (case map (\<lambda>f. kind_severity (f_kind f)) (r_findings r) of
      [] \<Rightarrow> None | s # ss \<Rightarrow> Some (fold max ss s))"

definition summary :: "scan_report \<Rightarrow> string" where
  "summary r =
     (if is_clean r then ''clean''
      else butlast (dec_digits (length (r_findings r)) @ '' hidden char(s):''
        @ concat (map (\<lambda>(kind, n). '' '' @ dec_digits n @ '' '' @ kind @ '','') (r_counts r))))"

datatype action = Surface | Strip | Keep

record sanitizer_config =
  c_action :: action
  c_allow_tab :: bool
  c_allow_newline :: bool

definition config_default :: sanitizer_config where
  "config_default = \<lparr>c_action = Surface, c_allow_tab = True, c_allow_newline = True\<rparr>"

subsection \<open>Classification\<close>

definition C0_names :: "string list" where
  "C0_names = [''NUL'', ''SOH'', ''STX'', ''ETX'', ''EOT'', ''ENQ'', ''ACK'', ''BEL'', ''BS'', ''HT'', ''LF'', ''VT'',
     ''FF'', ''CR'', ''SO'', ''SI'', ''DLE'', ''DC1'', ''DC2'', ''DC3'', ''DC4'', ''NAK'', ''SYN'', ''ETB'', ''CAN'',
     ''EM'', ''SUB'', ''ESC'', ''FS'', ''GS'', ''RS'', ''US'']"

definition control_name :: "uchar \<Rightarrow> string" where
  "control_name cp = (if cp \<le> 0x1F then C0_names ! cp else if cp = 0x7F then ''DEL'' else ''C1'')"

definition bidi_names :: "(uchar \<times> string) list" where
  "bidi_names = [(0x202A, ''LRE''), (0x202B, ''RLE''), (0x202C, ''PDF''), (0x202D, ''LRO''), (0x202E, ''RLO''),
     (0x2066, ''LRI''), (0x2067, ''RLI''), (0x2068, ''FSI''), (0x2069, ''PDI''),
     (0x200E, ''LRM''), (0x200F, ''RLM''), (0x061C, ''ALM'')]"

definition zw_names :: "(uchar \<times> string) list" where
  "zw_names = [(0x200B, ''ZWSP''), (0x200C, ''ZWNJ''), (0x200D, ''ZWJ''), (0x2060, ''WJ''), (0xFEFF, ''BOM''),
     (0x00AD, ''SHY''), (0x180E, ''MVS'')]"

definition classify_other :: "uchar \<Rightarrow> string option" where
  "classify_other cp =
     (if 0x2061 \<le> cp \<and> cp \<le> 0x2064 then Some ''INVIS-MATH''
      else if 0xFFF9 \<le> cp \<and> cp \<le> 0xFFFB then Some ''ANNOT''
      else if cp = 0x115F \<or> cp = 0x1160 \<or> cp = 0x3164 \<or> cp = 0xFFA0 then Some ''HANGUL-FILLER''
      else if 0xFE00 \<le> cp \<and> cp \<le> 0xFE0F then Some ''VS''
      else if 0xE0100 \<le> cp \<and> cp \<le> 0xE01EF then Some ''VS-SUPP''
      else if cp = 0x2028 \<or> cp = 0x2029 then Some ''LINE-SEP''
      else None)"

definition classify_tag :: "uchar \<Rightarrow> ustr option" where
  "classify_tag cp =
     (if cp = 0xE0001 then Some (asc ''TAG:LANG'')
      else if cp = 0xE007F then Some (asc ''TAG:END'')
      else if 0xE0020 \<le> cp \<and> cp \<le> 0xE007E then Some (asc ''TAG:'' @ [cp - 0xE0000])
      else if cp = 0xE0000 \<or> 0xE0080 \<le> cp \<and> cp \<le> 0xE00FF then Some (asc ''TAG'')
      else None)"

definition classify :: "sanitizer_config \<Rightarrow> uchar \<Rightarrow> (anomaly_kind \<times> ustr) option" where
  "classify cfg cp =
     (if cp = 0x09 \<and> c_allow_tab cfg then None
      else if (cp = 0x0A \<or> cp = 0x0D) \<and> c_allow_newline cfg then None
      else if cp \<le> 0x1F \<or> 0x7F \<le> cp \<and> cp \<le> 0x9F then Some (Control, asc (control_name cp))
      else case map_of bidi_names cp of Some l \<Rightarrow> Some (BidiControl, asc l)
      | None \<Rightarrow> (case map_of zw_names cp of Some l \<Rightarrow> Some (ZeroWidth, asc l)
      | None \<Rightarrow> (case classify_tag cp of Some l \<Rightarrow> Some (TagChar, l)
      | None \<Rightarrow> (case classify_other cp of Some l \<Rightarrow> Some (OtherFormat, asc l)
      | None \<Rightarrow> None))))"

definition skeleton_table :: "(uchar \<times> char) list" where
  "skeleton_table =
     [(0x0430, CHR ''a''), (0x0435, CHR ''e''), (0x043E, CHR ''o''), (0x0440, CHR ''p''), (0x0441, CHR ''c''),
      (0x0443, CHR ''y''), (0x0445, CHR ''x''), (0x0456, CHR ''i''), (0x0455, CHR ''s''), (0x0458, CHR ''j''),
      (0x04BB, CHR ''h''),
      (0x0410, CHR ''A''), (0x0412, CHR ''B''), (0x0415, CHR ''E''), (0x041A, CHR ''K''), (0x041C, CHR ''M''),
      (0x041D, CHR ''H''), (0x041E, CHR ''O''), (0x0420, CHR ''P''), (0x0421, CHR ''C''), (0x0422, CHR ''T''),
      (0x0423, CHR ''Y''), (0x0425, CHR ''X''),
      (0x03BF, CHR ''o''), (0x03B1, CHR ''a''), (0x03C1, CHR ''p''), (0x03BD, CHR ''v''), (0x0391, CHR ''A''),
      (0x039F, CHR ''O''), (0x03A1, CHR ''P''), (0x0392, CHR ''B''), (0x0397, CHR ''H''), (0x039A, CHR ''K''),
      (0x03A4, CHR ''T''), (0x03A7, CHR ''X'')]"

definition confusable_skeleton :: "uchar \<Rightarrow> char option" where
  "confusable_skeleton c = map_of skeleton_table c"

definition is_token_char :: "(uchar \<Rightarrow> bool) \<Rightarrow> uchar \<Rightarrow> bool" where
  "is_token_char alnum c \<longleftrightarrow> alnum c \<or> c = 0x2E \<or> c = 0x2D \<or> c = 0x5F"

definition ascii_alphabetic :: "uchar \<Rightarrow> bool" where
  "ascii_alphabetic c \<longleftrightarrow> 0x41 \<le> c \<and> c \<le> 0x5A \<or> 0x61 \<le> c \<and> c \<le> 0x7A"

subsection \<open>Passes\<close>

definition hidden_finding :: "sanitizer_config \<Rightarrow> nat \<times> nat \<times> uchar \<Rightarrow> scan_finding list" where
  "hidden_finding cfg = (\<lambda>(i, off, c). case classify cfg c of
      Some (kind, label) \<Rightarrow> [\<lparr>f_byte_offset = off, f_char_index = i, f_codepoint = c, f_kind = kind, f_label = label\<rparr>]
    | None \<Rightarrow> [])"

definition confusable_finding :: "nat \<times> nat \<times> uchar \<times> char \<Rightarrow> scan_finding" where
  "confusable_finding = (\<lambda>(off, i, c, skel). \<lparr>f_byte_offset = off, f_char_index = i, f_codepoint = c,
      f_kind = Confusable, f_label = [0x2192, of_char skel]\<rparr>)"

type_synonym token_state = "bool \<times> (nat \<times> nat \<times> uchar \<times> char) list \<times> scan_finding list"

definition flush :: "token_state \<Rightarrow> token_state" where
  "flush = (\<lambda>(has_ascii_latin, confusables, out).
     (False, [], if has_ascii_latin then out @ map confusable_finding confusables else out))"

definition confusable_step :: "(uchar \<Rightarrow> bool) \<Rightarrow> nat \<times> nat \<times> uchar \<Rightarrow> token_state \<Rightarrow> token_state" where
  "confusable_step alnum = (\<lambda>(i, off, c) (has_ascii_latin, confusables, out).
     if is_token_char alnum c
     then (has_ascii_latin \<or> ascii_alphabetic c,
           (case confusable_skeleton c of Some skel \<Rightarrow> confusables @ [(off, i, c, skel)] | None \<Rightarrow> confusables), out)
     else flush (has_ascii_latin, confusables, out))"

definition scan_confusables :: "(uchar \<Rightarrow> bool) \<Rightarrow> ustr \<Rightarrow> scan_finding list" where
  "scan_confusables alnum input =
     snd (snd (flush (fold (confusable_step alnum) (char_indices 0 0 input) (False, [], []))))"

definition count_kind :: "scan_finding \<Rightarrow> (string, nat) omap \<Rightarrow> (string, nat) omap" where
  "count_kind f counts = (let k = kind_as_str (f_kind f)
     in om_insert k ((case map_of counts k of Some n \<Rightarrow> n | None \<Rightarrow> 0) + 1) counts)"

definition scan_with :: "(uchar \<Rightarrow> bool) \<Rightarrow> sanitizer_config \<Rightarrow> ustr \<Rightarrow> scan_report" where
  "scan_with alnum cfg input =
     (let hidden = concat (map (hidden_finding cfg) (char_indices 0 0 input));
          confusables = scan_confusables alnum input
      in \<lparr>r_findings = sort_key f_byte_offset (hidden @ confusables),
          r_counts = fold count_kind (hidden @ confusables) []\<rparr>)"

definition scan :: "(uchar \<Rightarrow> bool) \<Rightarrow> ustr \<Rightarrow> scan_report" where
  "scan alnum input = scan_with alnum config_default input"

fun defang_loop :: "action \<Rightarrow> scan_finding list \<Rightarrow> (nat \<times> nat \<times> uchar) list \<Rightarrow> ustr" where
  \<comment> \<open>the findings from index \<open>next\<close> on, and the characters still to copy\<close>
  "defang_loop act fs [] = []"
| "defang_loop act [] ((i, off, c) # cs) = c # defang_loop act [] cs"
| "defang_loop act (f # fs) ((i, off, c) # cs) =
     (if f_byte_offset f = off
      then (case act of Surface \<Rightarrow> literal f | Strip \<Rightarrow> [] | Keep \<Rightarrow> [c]) @ defang_loop act fs cs
      else c # defang_loop act (f # fs) cs)"

definition defang_with :: "(uchar \<Rightarrow> bool) \<Rightarrow> sanitizer_config \<Rightarrow> ustr \<Rightarrow> ustr \<times> scan_report" where
  "defang_with alnum cfg input =
     (let report = scan_with alnum cfg input in
        if is_clean report \<or> c_action cfg = Keep then (input, report)
        else (defang_loop (c_action cfg) (r_findings report) (char_indices 0 0 input), report))"

definition defang :: "(uchar \<Rightarrow> bool) \<Rightarrow> ustr \<Rightarrow> ustr \<times> scan_report" where
  "defang alnum input = defang_with alnum config_default input"

subsection \<open>What the passes compute\<close>

type_synonym place = "nat \<times> nat \<times> uchar"

definition token_place :: "(uchar \<Rightarrow> bool) \<Rightarrow> place \<Rightarrow> bool" where
  "token_place alnum p \<longleftrightarrow> is_token_char alnum (snd (snd p))"

definition mixed :: "place list \<Rightarrow> bool" where
  \<comment> \<open>the token holds an ASCII letter\<close>
  "mixed ps \<longleftrightarrow> (\<exists>p \<in> set ps. ascii_alphabetic (snd (snd p)))"

definition look_alike :: "place \<Rightarrow> scan_finding list" where
  "look_alike = (\<lambda>(i, off, c). case confusable_skeleton c of
      Some skel \<Rightarrow> [confusable_finding (off, i, c, skel)] | None \<Rightarrow> [])"

definition mark :: "sanitizer_config \<Rightarrow> bool \<Rightarrow> place \<Rightarrow> scan_finding list" where
  \<comment> \<open>the finding at a place, if any: a hidden character, or a look-alike in a mixed token\<close>
  "mark cfg b p = hidden_finding cfg p @ (if b then look_alike p else [])"

function marks :: "(uchar \<Rightarrow> bool) \<Rightarrow> sanitizer_config \<Rightarrow> place list \<Rightarrow> (place \<times> scan_finding list) list" where
  \<comment> \<open>token by token\<close>
  "marks alnum cfg ps =
     (let t = takeWhile (token_place alnum) ps in
        map (\<lambda>p. (p, mark cfg (mixed t) p)) t
        @ (case dropWhile (token_place alnum) ps of
             [] \<Rightarrow> [] | q # qs \<Rightarrow> (q, mark cfg False q) # marks alnum cfg qs))"
  by pat_completeness auto
termination
proof (relation "measure (\<lambda>(_, _, ps). length ps)")
  fix alnum cfg and ps :: "place list" and q qs
  assume "dropWhile (token_place alnum) ps = q # qs"
  then have "length (q # qs) \<le> length ps" by (metis length_dropWhile_le)
  then show "((alnum, cfg, qs), alnum, cfg, ps) \<in> measure (\<lambda>(_, _, ps). length ps)" by simp
qed simp

declare marks.simps [simp del]

lemma marks_places: "map fst (marks alnum cfg ps) = ps"
proof (induction alnum cfg ps rule: marks.induct)
  case (1 alnum cfg ps)
  define t d where "t = takeWhile (token_place alnum) ps" and "d = dropWhile (token_place alnum) ps"
  have ps: "t @ d = ps" by (simp add: t_def d_def)
  have m: "marks alnum cfg ps = map (\<lambda>p. (p, mark cfg (mixed t) p)) t
      @ (case d of [] \<Rightarrow> [] | q # qs \<Rightarrow> (q, mark cfg False q) # marks alnum cfg qs)"
    by (subst marks.simps) (simp only: Let_def t_def d_def)
  have "map fst (marks alnum cfg qs) = qs" if "d = q # qs" for q qs
    using "1" [OF refl] that unfolding d_def by blast
  then have "map fst (marks alnum cfg ps) = t @ d" unfolding m by (cases d) (simp_all add: comp_def)
  then show ?case by (simp only: ps)
qed

lemma skeleton_not_hidden: "confusable_skeleton c = Some sk \<Longrightarrow> classify cfg c = None"
proof -
  assume "confusable_skeleton c = Some sk"
  then have "(c, sk) \<in> set skeleton_table" unfolding confusable_skeleton_def by (rule map_of_SomeD)
  then have "c \<in> {0x0430, 0x0435, 0x043E, 0x0440, 0x0441, 0x0443, 0x0445, 0x0456, 0x0455, 0x0458, 0x04BB,
     0x0410, 0x0412, 0x0415, 0x041A, 0x041C, 0x041D, 0x041E, 0x0420, 0x0421, 0x0422, 0x0423, 0x0425,
     0x03BF, 0x03B1, 0x03C1, 0x03BD, 0x0391, 0x039F, 0x03A1, 0x0392, 0x0397, 0x039A, 0x03A4, 0x03A7}"
    by (auto simp: skeleton_table_def)
  then have "0x391 \<le> c" "c \<le> 0x4BB" by auto
  then show ?thesis
    by (simp add: classify_def bidi_names_def zw_names_def classify_tag_def classify_other_def)
qed

lemma mark_one: "length (mark cfg b p) \<le> 1"
proof (cases p)
  case (fields i off c)
  then show ?thesis
    using skeleton_not_hidden [of c _ cfg]
    by (cases "confusable_skeleton c")
       (auto simp: mark_def hidden_finding_def look_alike_def split: option.splits)
qed

lemma mark_offset: "f \<in> set (mark cfg b (i, off, c)) \<Longrightarrow> f_byte_offset f = off \<and> f_char_index f = i \<and> f_codepoint f = c"
  by (auto simp: mark_def hidden_finding_def look_alike_def confusable_finding_def split: option.splits if_splits)

subsection \<open>The confusable scan, token by token\<close>

definition confusables_from :: "(uchar \<Rightarrow> bool) \<Rightarrow> place list \<Rightarrow> scan_finding list" where
  "confusables_from alnum ps = snd (snd (flush (fold (confusable_step alnum) ps (False, [], []))))"

lemma confusable_step_place:
  "confusable_step alnum (i, off, c) (lat, cf, out) =
     (if is_token_char alnum c
      then (lat \<or> ascii_alphabetic c,
            (case confusable_skeleton c of Some skel \<Rightarrow> cf @ [(off, i, c, skel)] | None \<Rightarrow> cf), out)
      else (False, [], if lat then out @ map confusable_finding cf else out))"
  by (simp add: confusable_step_def flush_def)

lemma flush_out: "snd (snd (flush (fold (confusable_step alnum) ps (lat, cf, out @ out'))))
  = out @ snd (snd (flush (fold (confusable_step alnum) ps (lat, cf, out'))))"
proof (induction ps arbitrary: lat cf out')
  case (Cons p ps)
  obtain i off c where p: "p = (i, off, c)" by (cases p)
  show ?case
  proof (cases "is_token_char alnum c")
    case True
    then show ?thesis by (simp add: p confusable_step_place Cons.IH)
  next
    case False
    then show ?thesis
      using Cons.IH [of False "[]" out'] Cons.IH [of False "[]" "out' @ map confusable_finding cf"]
      by (cases lat) (simp_all add: p confusable_step_place)
  qed
qed (simp add: flush_def)

lemma confusables_token:
  "snd (snd (flush (fold (confusable_step alnum) ps (lat, cf, []))))
   = (if lat \<or> mixed (takeWhile (token_place alnum) ps)
      then map confusable_finding cf @ concat (map look_alike (takeWhile (token_place alnum) ps)) else [])
     @ (case dropWhile (token_place alnum) ps of [] \<Rightarrow> [] | q # qs \<Rightarrow> confusables_from alnum qs)"
proof (induction ps arbitrary: lat cf)
  case (Cons p ps)
  obtain i off c where p: "p = (i, off, c)" by (cases p)
  show ?case
  proof (cases "is_token_char alnum c")
    case True
    then show ?thesis
      using Cons.IH
      by (simp add: p confusable_step_place token_place_def mixed_def look_alike_def split: option.splits)
  next
    case False
    have "fold (confusable_step alnum) (p # ps) (lat, cf, [])
        = fold (confusable_step alnum) ps (False, [], (if lat then map confusable_finding cf else []) @ [])"
      using False by (simp add: p confusable_step_place)
    then show ?thesis using False
      by (simp only: flush_out) (simp add: p token_place_def mixed_def confusables_from_def)
  qed
qed (simp add: flush_def mixed_def)

lemmas confusables_from_rec =
  confusables_token [of _ _ False "[]", folded confusables_from_def, simplified list.map append_Nil]

lemma mset_marks:
  "mset (concat (map snd (marks alnum cfg ps)))
   = mset (concat (map (hidden_finding cfg) ps)) + mset (confusables_from alnum ps)"
proof (induction alnum cfg ps rule: marks.induct)
  case (1 alnum cfg ps)
  define t d where "t = takeWhile (token_place alnum) ps" and "d = dropWhile (token_place alnum) ps"
  have ps: "ps = t @ d" by (simp add: t_def d_def)
  have tok: "mset (concat (map (mark cfg b) qs))
      = mset (concat (map (hidden_finding cfg) qs)) + mset (if b then concat (map look_alike qs) else [])" for b qs
    by (induction qs) (auto simp: mark_def)
  have m: "marks alnum cfg ps = map (\<lambda>p. (p, mark cfg (mixed t) p)) t
      @ (case d of [] \<Rightarrow> [] | q # qs \<Rightarrow> (q, mark cfg False q) # marks alnum cfg qs)"
    by (subst marks.simps) (simp only: Let_def t_def d_def)
  have c: "confusables_from alnum ps = (if mixed t then concat (map look_alike t) else [])
      @ (case d of [] \<Rightarrow> [] | q # qs \<Rightarrow> confusables_from alnum qs)"
    by (subst confusables_from_rec) (simp only: t_def d_def simp_thms)
  have IH: "mset (concat (map snd (marks alnum cfg qs)))
     = mset (concat (map (hidden_finding cfg) qs)) + mset (confusables_from alnum qs)" if "d = q # qs" for q qs
    using "1" [OF refl] that unfolding d_def by blast
  have h: "mset (concat (map (hidden_finding cfg) ps))
      = mset (concat (map (hidden_finding cfg) t)) + mset (concat (map (hidden_finding cfg) d))"
    by (simp add: ps)
  have "mset (concat (map snd (map (\<lambda>p. (p, mark cfg (mixed t) p)) t))) =
      mset (concat (map (hidden_finding cfg) t)) + mset (if mixed t then concat (map look_alike t) else [])"
    using tok [of "mixed t" t] by (simp add: comp_def)
  then show ?case unfolding m c h using IH by (cases d) (simp_all add: mark_def)
qed

subsection \<open>The report and the copy\<close>

lemma char_indices_offsets: "sorted_wrt (<) (map (\<lambda>p. fst (snd p)) (char_indices i off cs))
    \<and> (\<forall>(i, o', c) \<in> set (char_indices i off cs). off \<le> o')"
proof (induction cs arbitrary: i off)
  case (Cons c cs)
  have "0 < utf8_len c" by (simp add: utf8_len_def)
  with Cons.IH [of "Suc i" "off + utf8_len c"] show ?case by fastforce
qed simp

lemma char_indices_chars: "map (\<lambda>p. snd (snd p)) (char_indices i off cs) = cs"
  by (induction cs arbitrary: i off) auto

definition text_marks :: "(uchar \<Rightarrow> bool) \<Rightarrow> sanitizer_config \<Rightarrow> ustr \<Rightarrow> (place \<times> scan_finding list) list" where
  "text_marks alnum cfg input = marks alnum cfg (char_indices 0 0 input)"

lemma marks_marked:
  "(p, fs) \<in> set (marks alnum cfg ps) \<Longrightarrow> p \<in> set ps \<and> (\<exists>b. fs = mark cfg b p)"
proof (induction alnum cfg ps rule: marks.induct)
  case (1 alnum cfg ps)
  define t d where "t = takeWhile (token_place alnum) ps" and "d = dropWhile (token_place alnum) ps"
  have ps: "set ps = set t \<union> set d" by (metis d_def set_append t_def takeWhile_dropWhile_id)
  have m: "marks alnum cfg ps = map (\<lambda>p. (p, mark cfg (mixed t) p)) t
      @ (case d of [] \<Rightarrow> [] | q # qs \<Rightarrow> (q, mark cfg False q) # marks alnum cfg qs)"
    by (subst marks.simps) (simp only: Let_def t_def d_def)
  have IH: "p \<in> set qs \<and> (\<exists>b. fs = mark cfg b p)" if "d = q # qs" "(p, fs) \<in> set (marks alnum cfg qs)" for q qs
    using "1.IH" [OF refl] that unfolding d_def by blast
  show ?case using "1.prems" IH unfolding m ps by (cases d) auto
qed

lemma marks_sorted:
  assumes "sorted_wrt (<) (map (\<lambda>p. fst (snd p)) (map fst ms))"
    and "\<forall>(p, fs) \<in> set ms. \<exists>b. fs = mark cfg b p"
  shows "sorted_wrt (<) (map f_byte_offset (concat (map snd ms)))"
  using assms
proof (induction ms)
  case (Cons m ms)
  obtain i off c fs where m: "m = ((i, off, c), fs)" by (cases m) auto
  obtain b where b: "fs = mark cfg b (i, off, c)" using Cons.prems(2) m by auto
  have tail: "f_byte_offset f \<in> (\<lambda>p. fst (snd p)) ` fst ` set ms" if f: "f \<in> set (concat (map snd ms))" for f
  proof -
    obtain p gs where pg: "(p, gs) \<in> set ms" "f \<in> set gs" using f by auto
    then obtain b' where "gs = mark cfg b' p" using Cons.prems(2) by auto
    with pg mark_offset [of f cfg b' "fst p" "fst (snd p)" "snd (snd p)"] have "f_byte_offset f = fst (snd p)" by simp
    with imageI [OF imageI [OF pg(1), of fst], of "\<lambda>p. fst (snd p)"] show ?thesis by simp
  qed
  have up: "off < o'" if "o' \<in> (\<lambda>p. fst (snd p)) ` fst ` set ms" for o'
    using Cons.prems(1) m that by auto
  have "sorted_wrt (<) (map f_byte_offset (concat (map snd ms)))" using Cons by simp
  moreover have "fs = [] \<or> (\<exists>f. fs = [f] \<and> f_byte_offset f = off)"
  proof (cases fs)
    case (Cons f gs)
    then have "gs = []" using mark_one [of cfg b "(i, off, c)"] b by simp
    then show ?thesis using Cons mark_offset [of f cfg b i off c] b by simp
  qed simp
  moreover have "off < f_byte_offset f" if "f \<in> set (concat (map snd ms))" for f
    using up tail that by blast
  ultimately show ?case by (auto simp: m sorted_wrt_append simp del: set_concat)
qed simp

lemma scan_findings:
  "r_findings (scan_with alnum cfg input) = concat (map snd (text_marks alnum cfg input))"
proof -
  let ?ps = "char_indices 0 0 input"
  let ?fs = "concat (map snd (marks alnum cfg ?ps))"
  have "sorted_wrt (<) (map f_byte_offset ?fs)"
    using char_indices_offsets [of 0 0 input] marks_marked [of _ _ alnum cfg ?ps]
    by (intro marks_sorted [where cfg = cfg]) (auto simp: marks_places)
  then have s: "sorted (map f_byte_offset ?fs)" "distinct (map f_byte_offset ?fs)"
    using sorted_wrt_less_distinct strict_sorted_imp_sorted by blast+
  have ms: "mset ?fs = mset (concat (map (hidden_finding cfg) ?ps) @ scan_confusables alnum input)"
    by (simp add: mset_marks scan_confusables_def confusables_from_def)
  have "inj_on f_byte_offset (set ?fs)" using s(2) by (simp add: distinct_map)
  then have "inj_on f_byte_offset (set (concat (map (hidden_finding cfg) ?ps) @ scan_confusables alnum input))"
    using mset_eq_setD [OF ms] by simp
  from sort_key_inj_key_eq [OF ms [symmetric] this s(1)]
  show ?thesis by (simp add: scan_with_def text_marks_def Let_def)
qed

definition render :: "action \<Rightarrow> place \<times> scan_finding list \<Rightarrow> ustr" where
  \<comment> \<open>the characters that stand for one input character\<close>
  "render act m = (case snd m of [] \<Rightarrow> [snd (snd (fst m))]
     | f # _ \<Rightarrow> (case act of Surface \<Rightarrow> literal f | Strip \<Rightarrow> [] | Keep \<Rightarrow> [snd (snd (fst m))]))"

lemma render_simps:
  "render act (p, []) = [snd (snd p)]"
  "render act (p, f # fs) = (case act of Surface \<Rightarrow> literal f | Strip \<Rightarrow> [] | Keep \<Rightarrow> [snd (snd p)])"
  by (simp_all add: render_def split: action.split)

lemma defang_loop_render:
  assumes "sorted_wrt (<) (map (\<lambda>p. fst (snd p)) (map fst ms))"
    and "\<forall>(p, fs) \<in> set ms. \<exists>b. fs = mark cfg b p"
  shows "defang_loop act (concat (map snd ms)) (map fst ms) = concat (map (render act) ms)"
  using assms
proof (induction ms)
  case (Cons m ms)
  obtain i off c fs where m: "m = ((i, off, c), fs)" by (cases m) auto
  obtain b where b: "fs = mark cfg b (i, off, c)" using Cons.prems(2) m by auto
  have IH: "defang_loop act (concat (map snd ms)) (map fst ms) = concat (map (render act) ms)" using Cons by simp
  show ?case
  proof (cases fs)
    case Nil
    have "f_byte_offset f \<noteq> off" if "concat (map snd ms) = f # gs" for f gs
    proof -
      have "f \<in> set (concat (map snd ms))" using that by simp
      then obtain p hs where p: "(p, hs) \<in> set ms" "f \<in> set hs" by auto
      then obtain b' where "hs = mark cfg b' p" using Cons.prems(2) by auto
      then have "f_byte_offset f = fst (snd p)" using p mark_offset [of f cfg b' "fst p" "fst (snd p)" "snd (snd p)"] by simp
      moreover have "off < fst (snd p)" using Cons.prems(1) p(1) by (fastforce simp: m)
      ultimately show ?thesis by simp
    qed
    then have "defang_loop act (concat (map snd ms)) ((i, off, c) # map fst ms)
        = c # defang_loop act (concat (map snd ms)) (map fst ms)"
    proof (cases "concat (map snd ms)")
      case Nil
      then show ?thesis by (simp only: Nil defang_loop.simps)
    qed simp
    then show ?thesis using Nil IH by (simp add: m render_simps)
  next
    case (Cons f gs)
    then have "gs = []" "f_byte_offset f = off"
      using mark_one [of cfg b "(i, off, c)"] mark_offset [of f cfg b i off c] b by simp_all
    then show ?thesis using Cons IH by (cases act) (simp_all add: m render_simps)
  qed
qed simp

lemma render_clean: "concat (map snd ms) = [] \<Longrightarrow> concat (map (render act) ms) = map (\<lambda>p. snd (snd p)) (map fst ms)"
  by (induction ms) (auto simp: render_def)

lemma render_keep: "concat (map (render Keep) ms) = map (\<lambda>p. snd (snd p)) (map fst ms)"
  by (induction ms) (auto simp: render_def split: list.splits)

lemma defang_text: "fst (defang_with alnum cfg input) = concat (map (render (c_action cfg)) (text_marks alnum cfg input))"
proof -
  let ?ms = "text_marks alnum cfg input"
  have fst: "map fst ?ms = char_indices 0 0 input" by (simp add: text_marks_def marks_places)
  have "defang_loop (c_action cfg) (concat (map snd ?ms)) (map fst ?ms) = concat (map (render (c_action cfg)) ?ms)"
    using char_indices_offsets [of 0 0 input] marks_marked [of _ _ alnum cfg "char_indices 0 0 input"] fst
    by (intro defang_loop_render [where cfg = cfg]) (auto simp: text_marks_def)
  moreover have "map (\<lambda>p. snd (snd p)) (map fst ?ms) = input" by (simp add: fst char_indices_chars)
  ultimately show ?thesis
    using render_clean [of ?ms "c_action cfg"] render_keep [of ?ms] fst
    by (auto simp: defang_with_def scan_findings is_clean_def Let_def)
qed

text \<open>
  C28. The sanitizer does per character what it promises: the report lists, in text order, exactly
  the finding of every hidden character and of every look-alike in a token that also holds an
  ASCII letter, with its byte offset, index and code point; the merge of the two scans never
  collides; and the copy is the text with each marked character, and no other, replaced by its
  literal, removed or kept.
\<close>

theorem sanitizer_exact:
  "r_findings (scan_with alnum cfg input) = concat (map snd (text_marks alnum cfg input))
   \<and> fst (defang_with alnum cfg input) = concat (map (render (c_action cfg)) (text_marks alnum cfg input))
   \<and> map (\<lambda>m. snd (snd (fst m))) (text_marks alnum cfg input) = input
   \<and> (\<forall>m \<in> set (text_marks alnum cfg input). length (snd m) \<le> 1
        \<and> (\<forall>f \<in> set (snd m). fst m = (f_char_index f, f_byte_offset f, f_codepoint f)))"
proof -
  have "map (\<lambda>m. snd (snd (fst m))) (text_marks alnum cfg input) = input"
  proof -
    have "map (\<lambda>p. snd (snd p)) (map fst (text_marks alnum cfg input)) = input"
      using char_indices_chars [of 0 0 input] by (simp add: text_marks_def marks_places)
    then show ?thesis by (simp add: comp_def)
  qed
  moreover have "length (snd m) \<le> 1 \<and> (\<forall>f \<in> set (snd m). fst m = (f_char_index f, f_byte_offset f, f_codepoint f))"
    if mm: "m \<in> set (text_marks alnum cfg input)" for m
  proof -
    obtain i off c fs where m: "m = ((i, off, c), fs)" by (cases m) auto
    then obtain b where "fs = mark cfg b (i, off, c)"
      using marks_marked [of "(i, off, c)" fs alnum cfg "char_indices 0 0 input"] mm
      unfolding text_marks_def by blast
    then show ?thesis using mark_one [of cfg b "(i, off, c)"] mark_offset [of _ cfg b i off c] by (simp add: m)
  qed
  ultimately show ?thesis by (simp add: scan_findings defang_text)
qed

subsection \<open>Surfaced text is clean\<close>

definition printable :: "uchar \<Rightarrow> bool" where
  "printable c \<longleftrightarrow> 0x20 \<le> c \<and> c \<le> 0x7E \<or> c = 0x2192"

lemma printable_plain: "printable c \<Longrightarrow> classify cfg c = None \<and> confusable_skeleton c = None"
proof (cases "c = 0x2192")
  case True
  then show ?thesis
    by (simp add: classify_def bidi_names_def zw_names_def classify_tag_def classify_other_def
        confusable_skeleton_def skeleton_table_def)
next
  case False
  assume "printable c"
  with False have c: "0x20 \<le> c" "c \<le> 0x7E" by (simp_all add: printable_def)
  have "\<forall>k \<in> fst ` set bidi_names \<union> fst ` set zw_names \<union> fst ` set skeleton_table. 0x7E < k"
    by (simp add: bidi_names_def zw_names_def skeleton_table_def)
  then have "c \<notin> fst ` set bidi_names" "c \<notin> fst ` set zw_names" "c \<notin> fst ` set skeleton_table"
    using c(2) by (meson UnI1 UnI2 leD)+
  then have "map_of bidi_names c = None" "map_of zw_names c = None" "map_of skeleton_table c = None"
    by (simp_all only: map_of_eq_None_iff not_False_eq_True)
  with c show ?thesis
    by (simp add: classify_def classify_tag_def classify_other_def confusable_skeleton_def)
qed

lemma asc_printable: "\<forall>ch \<in> set s. 0x20 \<le> (of_char ch :: nat) \<and> (of_char ch :: nat) \<le> 0x7E \<Longrightarrow> \<forall>c \<in> set (asc s). printable c"
  by (simp add: asc_def printable_def)

lemma C0_names_printable: "\<forall>n \<in> set C0_names. \<forall>ch \<in> set n. 0x20 \<le> (of_char ch :: nat) \<and> (of_char ch :: nat) \<le> 0x7E"
  by (simp add: C0_names_def)

lemma classify_label:
  assumes "classify cfg c = Some (k, l)"
  shows "\<forall>x \<in> set l. printable x"
proof -
  have ctl: "\<forall>x \<in> set (asc (control_name c)). printable x"
  proof (cases "c \<le> 0x1F")
    case True
    have "C0_names ! c \<in> set C0_names" by (rule nth_mem) (use True in \<open>simp add: C0_names_def\<close>)
    with True C0_names_printable show ?thesis by (intro asc_printable) (simp add: control_name_def)
  next
    case False
    then show ?thesis by (intro asc_printable) (simp add: control_name_def)
  qed
  have tab: "\<forall>x \<in> set (asc n). printable x" if "map_of bidi_names c = Some n \<or> map_of zw_names c = Some n" for n
  proof -
    have "n \<in> snd ` set bidi_names \<union> snd ` set zw_names"
      using that by (auto dest!: map_of_SomeD intro: rev_image_eqI)
    then show ?thesis by (intro asc_printable) (auto simp: bidi_names_def zw_names_def)
  qed
  have tag: "\<forall>x \<in> set n. printable x" if "classify_tag c = Some n" for n
    using that by (auto simp: classify_tag_def asc_def printable_def split: if_splits)
  have oth: "\<forall>x \<in> set (asc n). printable x" if "classify_other c = Some n" for n
    using that by (intro asc_printable) (auto simp: classify_other_def split: if_splits)
  show ?thesis
    using assms ctl tab tag oth by (auto simp: classify_def split: if_splits option.splits)
qed

lemma mark_label: "f \<in> set (mark cfg b p) \<Longrightarrow> \<forall>x \<in> set (f_label f). printable x"
proof -
  assume f: "f \<in> set (mark cfg b p)"
  obtain i off c where p: "p = (i, off, c)" by (cases p)
  have "f \<in> set (hidden_finding cfg p) \<or> f \<in> set (look_alike p)" using f by (auto simp: mark_def split: if_splits)
  then show ?thesis
  proof
    assume "f \<in> set (hidden_finding cfg p)"
    then obtain k where "classify cfg c = Some (k, f_label f)"
      by (cases "classify cfg c") (auto simp: p hidden_finding_def)
    then show ?thesis by (rule classify_label)
  next
    assume "f \<in> set (look_alike p)"
    then obtain skel where "confusable_skeleton c = Some skel" "f = confusable_finding (off, i, c, skel)"
      by (cases "confusable_skeleton c") (auto simp: p look_alike_def)
    moreover from this(1) have "skel \<in> snd ` set skeleton_table"
      unfolding confusable_skeleton_def by (force dest!: map_of_SomeD intro: rev_image_eqI)
    then have "0x20 \<le> (of_char skel :: nat) \<and> (of_char skel :: nat) \<le> 0x7E" by (auto simp: skeleton_table_def)
    ultimately show ?thesis by (simp add: confusable_finding_def printable_def)
  qed
qed

lemma hex_digits_set: "set (hex_digits n) \<subseteq> set ''0123456789ABCDEF''"
proof (induction n rule: hex_digits.induct)
  case (1 n)
  have "hex_digit k \<in> set ''0123456789ABCDEF''" if "k < 16" for k
    unfolding hex_digit_def by (rule nth_mem) (use that in simp)
  with "1" show ?case by (subst hex_digits.simps) auto
qed

definition literal_middle :: "scan_finding \<Rightarrow> ustr" where
  "literal_middle f = asc (''U+'' @ hex4 (f_codepoint f) @ '' '') @ f_label f"

lemma literal_split: "literal f = 0x5B # literal_middle f @ [0x5D]"
  by (simp add: literal_def literal_middle_def asc_def)

lemma literal_printable:
  assumes "f \<in> set (mark cfg b p)"
  shows "\<forall>x \<in> set (literal_middle f). printable x" "\<forall>x \<in> set (literal f). printable x"
proof -
  have "\<forall>ch \<in> set ''0123456789ABCDEF''. 0x20 \<le> (of_char ch :: nat) \<and> (of_char ch :: nat) \<le> 0x7E" by simp
  moreover have "set (hex4 n) \<subseteq> set ''0123456789ABCDEF''" for n
    using hex_digits_set [of n] by (auto simp: hex4_def)
  ultimately have h: "\<forall>ch \<in> set (hex4 n). 0x20 \<le> (of_char ch :: nat) \<and> (of_char ch :: nat) \<le> 0x7E" for n by blast
  have "\<forall>ch \<in> set (''U+'' @ hex4 n @ '' ''). 0x20 \<le> (of_char ch :: nat) \<and> (of_char ch :: nat) \<le> 0x7E" for n
    unfolding set_append ball_Un using h [of n] by simp
  from asc_printable [OF this] show m: "\<forall>x \<in> set (literal_middle f). printable x"
    using mark_label [OF assms] by (auto simp: literal_middle_def)
  then show "\<forall>x \<in> set (literal f). printable x" by (auto simp: literal_split printable_def)
qed

definition calm_text :: "(uchar \<Rightarrow> bool) \<Rightarrow> ustr \<Rightarrow> bool" where
  \<comment> \<open>no run of token characters mixes an ASCII letter with a look-alike\<close>
  "calm_text alnum s \<longleftrightarrow> \<not> (\<exists>t. sublist t s \<and> (\<forall>c \<in> set t. is_token_char alnum c)
     \<and> (\<exists>c \<in> set t. ascii_alphabetic c) \<and> (\<exists>c \<in> set t. confusable_skeleton c \<noteq> None))"

lemma calm_sublist: "calm_text alnum s \<Longrightarrow> sublist t s \<Longrightarrow> calm_text alnum t"
  unfolding calm_text_def by (meson sublist_order.order_trans)

lemma calm_plain:
  "\<forall>c \<in> set s. \<not> ascii_alphabetic c \<Longrightarrow> calm_text alnum s"
  "\<forall>c \<in> set s. confusable_skeleton c = None \<Longrightarrow> calm_text alnum s"
  unfolding calm_text_def by (metis set_mono_sublist subsetD)+

lemma calm_sep:
  assumes "\<not> is_token_char alnum x" "calm_text alnum a" "calm_text alnum b"
  shows "calm_text alnum (a @ x # b)"
  unfolding calm_text_def
proof (rule notI, elim exE conjE)
  fix t
  assume sub: "sublist t (a @ x # b)" and tok: "\<forall>c \<in> set t. is_token_char alnum c"
    and m: "\<exists>c \<in> set t. ascii_alphabetic c" "\<exists>c \<in> set t. confusable_skeleton c \<noteq> None"
  have x: "x \<notin> set t" using tok assms(1) by blast
  have bad: "sublist t a \<Longrightarrow> False" "sublist t b \<Longrightarrow> False"
    using assms(2,3) tok m unfolding calm_text_def by blast+
  from sub consider "sublist t a" | "sublist t (x # b)"
    | u v where "t = u @ v" "suffix u a" "prefix v (x # b)"
    unfolding sublist_append by blast
  then show False
  proof cases
    case 2
    then have "prefix t (x # b) \<or> sublist t b" by (simp add: sublist_Cons_right)
    then show False
    proof
      assume "prefix t (x # b)"
      then have "t = []" using x by (auto simp: prefix_Cons)
      then show False using m by simp
    qed (rule bad(2))
  next
    case 3
    then have "v = []" using x by (auto simp: prefix_Cons)
    then show False using 3 bad(1) by (simp add: suffix_imp_sublist)
  qed (rule bad(1))
qed

lemma calm_marks:
  "calm_text alnum (map (\<lambda>p. snd (snd p)) ps) \<Longrightarrow> \<forall>p \<in> set ps. hidden_finding cfg p = []
    \<Longrightarrow> concat (map snd (marks alnum cfg ps)) = []"
proof (induction alnum cfg ps rule: marks.induct)
  case (1 alnum cfg ps)
  define t d where "t = takeWhile (token_place alnum) ps" and "d = dropWhile (token_place alnum) ps"
  have ps: "ps = t @ d" by (simp add: t_def d_def)
  have m: "marks alnum cfg ps = map (\<lambda>p. (p, mark cfg (mixed t) p)) t
      @ (case d of [] \<Rightarrow> [] | q # qs \<Rightarrow> (q, mark cfg False q) # marks alnum cfg qs)"
    by (subst marks.simps) (simp only: Let_def t_def d_def)
  have none: "mark cfg (mixed t) p = []" if p: "p \<in> set t" for p
  proof -
    have "look_alike p = []" if "mixed t"
    proof (rule ccontr)
      let ?c = "\<lambda>p. snd (snd p)"
      assume "look_alike p \<noteq> []"
      then have "confusable_skeleton (?c p) \<noteq> None" by (auto simp: look_alike_def split: option.splits prod.splits)
      then have "\<exists>c \<in> set (map ?c t). confusable_skeleton c \<noteq> None" using p by auto
      moreover have "\<exists>c \<in> set (map ?c t). ascii_alphabetic c" using that by (auto simp: mixed_def)
      moreover have "sublist (map ?c t) (map ?c ps)" by (simp add: ps prefix_imp_sublist)
      moreover have "\<forall>c \<in> set (map ?c t). is_token_char alnum c"
        by (auto simp: t_def token_place_def dest!: set_takeWhileD)
      ultimately show False using "1.prems"(1) unfolding calm_text_def by blast
    qed
    moreover have "hidden_finding cfg p = []" using "1.prems"(2) p by (simp add: ps)
    ultimately show ?thesis by (simp add: mark_def)
  qed
  have IH: "concat (map snd (marks alnum cfg qs)) = []" if d: "d = q # qs" for q qs
  proof (rule "1.IH" [OF refl d [unfolded d_def]])
    have "sublist qs ps" unfolding ps d by (metis append_Cons append_assoc append_Nil suffixI suffix_imp_sublist)
    then show "calm_text alnum (map (\<lambda>p. snd (snd p)) qs)"
      using "1.prems"(1) calm_sublist map_mono_sublist by blast
    show "\<forall>p \<in> set qs. hidden_finding cfg p = []" using "1.prems"(2) by (simp add: ps d)
  qed
  have "mark cfg False q = []" if "d = q # qs" for q qs using "1.prems"(2) that by (simp add: ps mark_def)
  then show ?case unfolding m using none IH by (cases d) auto
qed

definition brackets_apart :: "(uchar \<Rightarrow> bool) \<Rightarrow> bool" where
  \<comment> \<open>the square brackets are not alphanumeric\<close>
  "brackets_apart alnum \<longleftrightarrow> \<not> alnum 0x5B \<and> \<not> alnum 0x5D"

lemma calm_literal:
  assumes "brackets_apart alnum" "calm_text alnum a" "calm_text alnum b" "f \<in> set (mark cfg m p)"
  shows "calm_text alnum (a @ literal f @ b)"
proof -
  have sep: "\<not> is_token_char alnum 0x5B" "\<not> is_token_char alnum 0x5D"
    using assms(1) by (simp_all add: brackets_apart_def is_token_char_def)
  have "calm_text alnum (literal_middle f)"
    using literal_printable(1) [OF assms(4)] printable_plain by (intro calm_plain(2)) blast
  from calm_sep [OF sep(1) assms(2) calm_sep [OF sep(2) this assms(3)]]
  show ?thesis by (simp add: literal_split)
qed

lemma render_mark:
  "render Surface (p, mark cfg b p) = [snd (snd p)] \<and> mark cfg b p = []
   \<or> (\<exists>f. mark cfg b p = [f] \<and> render Surface (p, mark cfg b p) = literal f)"
  using mark_one [of cfg b p] by (cases "mark cfg b p") (auto simp: render_simps)

lemma render_plain: "c \<in> set (render Surface (p, mark cfg b p)) \<Longrightarrow> classify cfg c = None"
  using render_mark [of p cfg b]
proof
  assume "render Surface (p, mark cfg b p) = [snd (snd p)] \<and> mark cfg b p = []" "c \<in> set (render Surface (p, mark cfg b p))"
  then show ?thesis by (auto simp: mark_def hidden_finding_def split: option.splits prod.splits)
next
  assume "\<exists>f. mark cfg b p = [f] \<and> render Surface (p, mark cfg b p) = literal f" "c \<in> set (render Surface (p, mark cfg b p))"
  then obtain f where "f \<in> set (mark cfg b p)" "c \<in> set (literal f)" by auto
  then show ?thesis using literal_printable(2) printable_plain by blast
qed

lemma calm_mixed: "calm_text alnum (concat (map (\<lambda>p. render Surface (p, mark cfg True p)) t))"
proof (rule calm_plain(2), rule ballI)
  fix c assume "c \<in> set (concat (map (\<lambda>p. render Surface (p, mark cfg True p)) t))"
  then obtain p where c: "c \<in> set (render Surface (p, mark cfg True p))" by auto
  from render_mark [of p cfg True] show "confusable_skeleton c = None"
  proof
    assume "render Surface (p, mark cfg True p) = [snd (snd p)] \<and> mark cfg True p = []"
    with c show ?thesis by (auto simp: mark_def look_alike_def split: option.splits prod.splits)
  next
    assume "\<exists>f. mark cfg True p = [f] \<and> render Surface (p, mark cfg True p) = literal f"
    then obtain f where f: "f \<in> set (mark cfg True p)" "render Surface (p, mark cfg True p) = literal f" by auto
    with c show ?thesis using literal_printable(2) [OF f(1)] printable_plain by fastforce
  qed
qed

lemma calm_unmixed:
  assumes "brackets_apart alnum"
  shows "\<not> mixed t \<Longrightarrow> \<forall>c \<in> set a. \<not> ascii_alphabetic c
    \<Longrightarrow> calm_text alnum (a @ concat (map (\<lambda>p. render Surface (p, mark cfg False p)) t))"
proof (induction t arbitrary: a)
  case (Cons p t)
  have t: "\<not> mixed t" "\<not> ascii_alphabetic (snd (snd p))" using Cons.prems(1) by (simp_all add: mixed_def)
  from render_mark [of p cfg False] show ?case
  proof
    assume "render Surface (p, mark cfg False p) = [snd (snd p)] \<and> mark cfg False p = []"
    moreover have "calm_text alnum ((a @ [snd (snd p)]) @ concat (map (\<lambda>p. render Surface (p, mark cfg False p)) t))"
      using Cons.prems(2) t by (intro Cons.IH) auto
    ultimately show ?thesis by (simp add: render_simps)
  next
    assume "\<exists>f. mark cfg False p = [f] \<and> render Surface (p, mark cfg False p) = literal f"
    then obtain f where f: "f \<in> set (mark cfg False p)" "render Surface (p, mark cfg False p) = literal f" by auto
    have "calm_text alnum ([] @ concat (map (\<lambda>p. render Surface (p, mark cfg False p)) t))"
      using t by (intro Cons.IH) auto
    with calm_literal [OF assms calm_plain(1) [OF Cons.prems(2)] _ f(1)] f(2) show ?thesis by simp
  qed
qed (simp add: calm_plain(1))

lemma calm_rendered:
  assumes "brackets_apart alnum"
  shows "calm_text alnum (concat (map (render Surface) (marks alnum cfg ps)))"
  using assms
proof (induction alnum cfg ps rule: marks.induct)
  case (1 alnum cfg ps)
  define t d where "t = takeWhile (token_place alnum) ps" and "d = dropWhile (token_place alnum) ps"
  have m: "marks alnum cfg ps = map (\<lambda>p. (p, mark cfg (mixed t) p)) t
      @ (case d of [] \<Rightarrow> [] | q # qs \<Rightarrow> (q, mark cfg False q) # marks alnum cfg qs)"
    by (subst marks.simps) (simp only: Let_def t_def d_def)
  let ?t = "concat (map (\<lambda>p. render Surface (p, mark cfg (mixed t) p)) t)"
  have ct: "calm_text alnum ?t"
    using calm_mixed [of alnum cfg t] calm_unmixed [OF "1.prems", of t "[]" cfg] by (cases "mixed t") simp_all
  show ?case
  proof (cases d)
    case Nil
    then show ?thesis using ct by (simp add: m comp_def)
  next
    case (Cons q qs)
    have IH: "calm_text alnum (concat (map (render Surface) (marks alnum cfg qs)))"
      by (rule "1.IH" [OF refl Cons [unfolded d_def] "1.prems"])
    have q: "\<not> is_token_char alnum (snd (snd q))"
      using Cons hd_dropWhile [of "token_place alnum" ps] by (simp add: d_def token_place_def)
    have e: "concat (map (render Surface) (marks alnum cfg ps))
        = ?t @ render Surface (q, mark cfg False q) @ concat (map (render Surface) (marks alnum cfg qs))"
      by (simp add: m comp_def Cons)
    from render_mark [of q cfg False] show ?thesis
    proof
      assume "render Surface (q, mark cfg False q) = [snd (snd q)] \<and> mark cfg False q = []"
      with calm_sep [OF q ct IH] show ?thesis by (simp add: e render_simps)
    next
      assume "\<exists>f. mark cfg False q = [f] \<and> render Surface (q, mark cfg False q) = literal f"
      then obtain f where "f \<in> set (mark cfg False q)" "render Surface (q, mark cfg False q) = literal f" by auto
      with calm_literal [OF "1.prems" ct IH] show ?thesis by (simp add: e)
    qed
  qed
qed

lemma clean_scan:
  assumes "\<forall>c \<in> set s. classify cfg c = None" "calm_text alnum s"
  shows "is_clean (scan_with alnum cfg s)"
proof -
  let ?ps = "char_indices 0 0 s"
  have c: "map (\<lambda>p. snd (snd p)) ?ps = s" by (rule char_indices_chars)
  have "hidden_finding cfg p = []" if "p \<in> set ?ps" for p
  proof -
    have "snd (snd p) \<in> set s" using that c by (metis imageI list.set_map)
    then show ?thesis using assms(1) by (auto simp: hidden_finding_def split: option.splits prod.splits)
  qed
  then show ?thesis
    using calm_marks [of alnum ?ps cfg] assms(2) by (simp add: is_clean_def scan_findings text_marks_def c)
qed

text \<open>
  C29. Surfacing really clears the text: as long as the square brackets of the literals are not
  alphanumeric, the defanged copy has no hidden character and no mixed token left, so scanning
  it is clean and defanging it again changes nothing.
\<close>

theorem defang_surface_clean:
  fixes input :: ustr
  assumes "c_action cfg = Surface" "brackets_apart alnum"
  defines "out \<equiv> fst (defang_with alnum cfg input)"
  shows "is_clean (scan_with alnum cfg out) \<and> fst (defang_with alnum cfg out) = out"
proof -
  have out: "out = concat (map (render Surface) (text_marks alnum cfg input))"
    using assms(1) by (simp add: out_def defang_text)
  have "classify cfg c = None" if c: "c \<in> set out" for c
  proof -
    obtain p fs where m: "(p, fs) \<in> set (text_marks alnum cfg input)" "c \<in> set (render Surface (p, fs))"
      using c unfolding out by auto
    then obtain b where "fs = mark cfg b p" using marks_marked unfolding text_marks_def by blast
    with m(2) show ?thesis by (simp add: render_plain)
  qed
  moreover have "calm_text alnum out" unfolding out text_marks_def by (rule calm_rendered [OF assms(2)])
  ultimately have "is_clean (scan_with alnum cfg out)" by (intro clean_scan) blast+
  then show ?thesis by (simp add: defang_with_def Let_def)
qed

lemma defang_surface_clean_witness:
  "is_clean (scan (\<lambda>c. ascii_alphabetic c \<or> c = 0x430) (fst (defang (\<lambda>c. ascii_alphabetic c \<or> c = 0x430) [0x70, 0x430, 0x202E])))"
  using defang_surface_clean [of config_default "\<lambda>c. ascii_alphabetic c \<or> c = 0x430" "[0x70, 0x430, 0x202E]"]
  by (simp add: scan_def defang_def config_default_def brackets_apart_def ascii_alphabetic_def)

text \<open>
  Part of the Tags block passes: the code points U+E0002 to U+E001F, which the module promises
  to report with the rest of U+E0000 to U+E007F, are not classified under any configuration, and
  a text made of them is found clean and copied unchanged.
\<close>

theorem tag_block_gap:
  "\<forall>cp. 0xE0002 \<le> cp \<and> cp \<le> 0xE001F \<longrightarrow> classify cfg cp = None \<and> defang alnum [cp] = ([cp], scan alnum [cp])
     \<and> is_clean (scan alnum [cp])"
proof (intro allI impI)
  fix cp :: nat assume cp: "0xE0002 \<le> cp \<and> cp \<le> 0xE001F"
  have "\<forall>k \<in> fst ` set bidi_names \<union> fst ` set zw_names \<union> fst ` set skeleton_table. k < 0xE0000"
    by (simp add: bidi_names_def zw_names_def skeleton_table_def)
  moreover have "cp \<notin> A" if "\<forall>k \<in> A. k < 0xE0000" for A
  proof
    assume "cp \<in> A"
    with that have "cp < 0xE0000" by blast
    with cp show False by simp
  qed
  ultimately have "cp \<notin> fst ` set bidi_names" "cp \<notin> fst ` set zw_names" "cp \<notin> fst ` set skeleton_table"
    unfolding ball_Un by blast+
  then have "map_of bidi_names cp = None" "map_of zw_names cp = None" "map_of skeleton_table cp = None"
    by (simp_all only: map_of_eq_None_iff not_False_eq_True)
  with cp have c: "classify cfg cp = None" "confusable_skeleton cp = None" for cfg
    by (simp_all add: classify_def classify_tag_def classify_other_def confusable_skeleton_def)
  then have "is_clean (scan alnum [cp])"
    unfolding scan_def by (intro clean_scan calm_plain(2)) simp_all
  then show "classify cfg cp = None \<and> defang alnum [cp] = ([cp], scan alnum [cp]) \<and> is_clean (scan alnum [cp])"
    using c(1) by (simp add: defang_def defang_with_def scan_def Let_def)
qed

lemma tag_block_gap_witness: "classify config_default 0xE0010 = None"
  using tag_block_gap [of config_default "\<lambda>_. False"] by simp

text \<open>
  Stripping can build the spoof it should remove: an invisible character inside a mixed-script
  word splits its token, so the look-alike is not reported, and once the invisible character is
  stripped the copy is a mixed token that a second scan flags.
\<close>

theorem strip_joins_tokens:
  assumes "alnum 0x70" "alnum 0x430" "\<not> alnum 0x200B"
  defines "cfg \<equiv> config_default\<lparr>c_action := Strip\<rparr>"
  shows "map f_kind (r_findings (scan_with alnum cfg [0x70, 0x200B, 0x430])) = [ZeroWidth]
    \<and> fst (defang_with alnum cfg [0x70, 0x200B, 0x430]) = [0x70, 0x430]
    \<and> map f_kind (r_findings (scan_with alnum cfg [0x70, 0x430])) = [Confusable]"
proof -
  have tok: "is_token_char alnum 0x70" "is_token_char alnum 0x430" "\<not> is_token_char alnum 0x200B"
    using assms(1-3) by (simp_all add: is_token_char_def)
  have cl: "classify cfg 0x70 = None" "classify cfg 0x430 = None" "classify cfg 0x200B = Some (ZeroWidth, asc ''ZWSP'')"
    by (simp_all add: classify_def bidi_names_def zw_names_def classify_tag_def classify_other_def)
  have sk: "confusable_skeleton 0x70 = None" "confusable_skeleton 0x430 = Some (CHR ''a'')" "confusable_skeleton 0x200B = None"
    by (simp_all add: confusable_skeleton_def skeleton_table_def)
  have al: "ascii_alphabetic 0x70" "\<not> ascii_alphabetic 0x430" by (simp_all add: ascii_alphabetic_def)
  note defs = scan_findings text_marks_def defang_text marks.simps token_place_def tok mixed_def mark_def
    hidden_finding_def look_alike_def cl sk al Let_def utf8_len_def render_def
  show ?thesis
    by (simp add: defs) (simp add: cfg_def config_default_def confusable_finding_def)
qed

lemma strip_joins_tokens_witness:
  "map f_kind (r_findings (scan_with (\<lambda>c. c = 0x70 \<or> c = 0x430) (config_default\<lparr>c_action := Strip\<rparr>) [0x70, 0x430]))
   = [Confusable]"
  using strip_joins_tokens [of "\<lambda>c. c = 0x70 \<or> c = 0x430"] by simp

lemma sanitizer_exact_witness:
  "fst (defang_with ascii_alphabetic config_default [0x70, 0x202E])
     = concat (map (render Surface) (text_marks ascii_alphabetic config_default [0x70, 0x202E]))
   \<and> length (text_marks ascii_alphabetic config_default [0x70, 0x202E]) = 2"
proof -
  note e = sanitizer_exact [of ascii_alphabetic config_default "[0x70, 0x202E]"]
  then have "map (\<lambda>m. snd (snd (fst m))) (text_marks ascii_alphabetic config_default [0x70, 0x202E]) = [0x70, 0x202E]"
    by blast
  then have "length (text_marks ascii_alphabetic config_default [0x70, 0x202E]) = 2"
    by (metis length_map length_Cons list.size(3) numeral_2_eq_2)
  with e show ?thesis by (simp add: config_default_def)
qed

end
