(* ===== verification/ResolveFacts.thy ===== *)
theory ResolveFacts
  imports Resolve
begin

text \<open>
  What the resolve passes guarantee: every call or data-flow edge comes from a recorded site and
  ends in a resident definition whose name is the last segment of the recorded path; the edges
  after \<open>resolve_all\<close> are a function of the node ids, the pending tables, the clock and the edges
  the passes do not own; and running it again changes no edge.
\<close>

subsection \<open>Splitting\<close>

lemma rfind_sub_split: "rfind_sub pat s = Some i \<Longrightarrow> s = take i s @ pat @ drop (i + length pat) s"
proof (induction s arbitrary: i)
  case Nil
  then show ?case by (auto split: if_splits)
next
  case (Cons c s)
  show ?case
  proof (cases "rfind_sub pat s")
    case None
    with Cons.prems have "starts_with (c # s) pat" "i = 0" by (auto split: if_splits)
    then show ?thesis by (auto simp: starts_with_iff)
  next
    case (Some j)
    with Cons.IH [OF Some] Cons.prems show ?thesis by auto
  qed
qed

lemma rsplit_once_eq: "rsplit_once pat s = Some (a, b) \<Longrightarrow> s = a @ pat @ b"
  using rfind_sub_split by (auto simp: rsplit_once_def)

lemma find_rfind_None: "find_sub pat s = None \<longleftrightarrow> rfind_sub pat s = None"
  by (induction s) (auto split: option.splits)

lemma rfind_sub_append:
  "rfind_sub pat s = Some i \<Longrightarrow> rfind_sub pat (x @ s) = Some (length x + i)"
  by (induction x) auto

lemma rfind_colon: "rfind_sub '':'' s = None \<longleftrightarrow> CHR '':'' \<notin> set s"
  by (induction s) (auto simp: starts_with_def split: option.splits)

lemma rfind_colons_None: "CHR '':'' \<notin> set s \<Longrightarrow> rfind_sub ''::'' s = None"
  by (induction s) (auto simp: starts_with_def)

lemma rsplit_once_tail:
  assumes "CHR '':'' \<notin> set b"
  shows "rsplit_once '':'' (a @ '':'' @ b) = Some (a, b)" and "rsplit_once ''::'' (a @ ''::'' @ b) = Some (a, b)"
proof -
  have "rfind_sub '':'' ('':'' @ b) = Some 0"
    using assms by (simp add: rfind_colon [THEN iffD2] starts_with_def)
  from rfind_sub_append [OF this, of a] show "rsplit_once '':'' (a @ '':'' @ b) = Some (a, b)"
    by (simp add: rsplit_once_def)
  have "rfind_sub ''::'' (CHR '':'' # b) = None"
    using assms by (cases b) (auto simp: starts_with_def rfind_colons_None)
  then have "rfind_sub ''::'' (''::'' @ b) = Some 0" by (simp add: starts_with_def)
  from rfind_sub_append [OF this, of a] show "rsplit_once ''::'' (a @ ''::'' @ b) = Some (a, b)"
    by (simp add: rsplit_once_def)
qed

lemma rsplit_colon_tail: "rsplit_once '':'' s = Some (a, b) \<Longrightarrow> CHR '':'' \<notin> set b"
proof (induction s arbitrary: a)
  case Nil
  then show ?case by (simp add: rsplit_once_def)
next
  case (Cons c s)
  show ?case
  proof (cases "rfind_sub '':'' s")
    case None
    with Cons.prems have "b = s" by (auto simp: rsplit_once_def split: if_splits)
    with None show ?thesis by (simp add: rfind_colon)
  next
    case (Some j)
    then have "rsplit_once '':'' s = Some (take j s, b)" using Cons.prems by (auto simp: rsplit_once_def)
    then show ?thesis by (rule Cons.IH)
  qed
qed

lemma strip_prefix_eq: "strip_prefix s p = Some t \<longleftrightarrow> s = p @ t"
  by (auto simp: strip_prefix_def starts_with_iff)

lemma last_seg_split: "rsplit_once ''::'' s = Some (a, b) \<Longrightarrow> last_seg s = b"
  by (simp add: last_seg_def)

lemma last_seg_whole: "find_sub ''::'' s = None \<Longrightarrow> last_seg s = s"
  by (simp add: last_seg_def rsplit_once_def find_rfind_None)

subsection \<open>The links of a pass\<close>

definition named :: "node_id list \<Rightarrow> string \<Rightarrow> node_id \<Rightarrow> bool" where
  "named ids nm i \<longleftrightarrow> i \<in> set ids \<and> (\<exists>f. i = f @ '':'' @ nm)"

definition tables_in :: "node_id list \<Rightarrow> name_tables \<Rightarrow> bool" where
  "tables_in ids nt \<longleftrightarrow> (\<forall>c m nm i. map_of (nt_defs nt) (c, m, nm) = Some i \<longrightarrow> named ids nm i \<and> CHR '':'' \<notin> set nm)
     \<and> (\<forall>nm i. map_of (nt_first nt) nm = Some i \<longrightarrow> named ids nm i)"

lemma tables_in_empty [intro]: "tables_in ids nt_empty"
  by (simp add: tables_in_def nt_empty_def)

lemma tables_in_paths: "tables_in ids nt \<Longrightarrow> tables_in ids (index_paths i nt)"
  by (auto simp: tables_in_def index_paths_def split: option.splits)

lemma tables_in_def_name:
  assumes "tables_in ids nt" "named ids nm i" "CHR '':'' \<notin> set nm"
  shows "tables_in ids (nt\<lparr>nt_defs := index_def file nm i (nt_defs nt)\<rparr>)" and "tables_in ids (index_name nm i nt)"
  using assms by (auto simp: tables_in_def index_def_def index_name_def split: option.splits prod.splits if_splits)

lemma tables_in_symbol:
  assumes "tables_in ids nt" "i \<in> set ids"
  shows "tables_in ids (index_symbol i nt)"
proof (cases "strip_prefix i ''sym:''")
  case (Some rest)
  show ?thesis
  proof (cases "rsplit_once '':'' rest")
    case sp: (Some r)
    obtain fl nm where r: "r = (fl, nm)" by (cases r)
    have "i = (''sym:'' @ fl) @ '':'' @ nm"
      using Some rsplit_once_eq [of "'':''" rest fl nm] sp r by (simp add: strip_prefix_eq)
    then have "named ids nm i" using assms(2) unfolding named_def by blast
    moreover have "CHR '':'' \<notin> set nm" using rsplit_colon_tail [of rest fl nm] sp r by simp
    ultimately show ?thesis
      using tables_in_def_name(2) [OF tables_in_def_name(1) [OF assms(1)]] Some sp r by (simp add: index_symbol_def)
  qed (simp add: index_symbol_def Some assms)
qed (simp add: index_symbol_def assms)

lemma tables_in_data:
  assumes "tables_in ids nt" "i \<in> set ids"
  shows "tables_in ids (index_data i nt)"
proof -
  define nt1 where "nt1 = (case strip_prefix i ''sym:'' of None \<Rightarrow> nt
           | Some rest \<Rightarrow> (case rsplit_once '':'' rest of None \<Rightarrow> nt
           | Some (file, nm) \<Rightarrow> nt\<lparr>nt_defs := index_def file nm i (nt_defs nt)\<rparr>))"
  have nm: "named ids nm i" if "rsplit_once '':'' i = Some (a, nm)" for a nm
    using rsplit_once_eq [OF that] assms(2) unfolding named_def by blast
  have nm': "named ids nm i" if "i = ''sym:'' @ rest" "rsplit_once '':'' rest = Some (a, nm)" for a rest nm
  proof -
    have "i = (''sym:'' @ a) @ '':'' @ nm" using rsplit_once_eq [OF that(2)] that(1) by simp
    then show ?thesis using assms(2) unfolding named_def by blast
  qed
  have "tables_in ids nt1"
    unfolding nt1_def using assms(1) nm' tables_in_def_name(1) [OF assms(1)] rsplit_colon_tail
    by (auto simp: strip_prefix_eq split: option.splits)
  then show ?thesis
    using nm tables_in_def_name(2) rsplit_colon_tail
    by (auto simp: index_data_def nt1_def [symmetric] Let_def split: option.splits)
qed

lemma tables_in_fold:
  assumes "\<And>i nt. i \<in> set is \<Longrightarrow> tables_in ids nt \<Longrightarrow> tables_in ids (f i nt)" "tables_in ids nt"
  shows "tables_in ids (fold f is nt)"
  using assms by (induction "is" arbitrary: nt) auto

lemma tables_in_call: "tables_in ids (call_tables ids)"
  unfolding call_tables_def by (rule tables_in_fold) (auto intro: tables_in_symbol tables_in_paths)

lemma tables_in_datas: "tables_in ids (data_tables p ids)"
  unfolding data_tables_def
  by (rule tables_in_fold [OF tables_in_paths]) (auto intro!: tables_in_fold tables_in_data)

lemma defs_named: "tables_in ids nt \<Longrightarrow> map_of (nt_defs nt) (c, m, nm) = Some t \<Longrightarrow> named ids nm t"
  by (auto simp: tables_in_def)

lemma file_def_named: "tables_in ids nt \<Longrightarrow> file_def df nm (nt_defs nt) = Some t \<Longrightarrow> named ids nm t"
  by (auto simp: file_def_def dest: defs_named split: option.splits)

lemma bare_modpath_named:
  "tables_in ids nt \<Longrightarrow> resolve_bare_modpath pre nm c ix (nt_defs nt) = Some t \<Longrightarrow> named ids nm t"
  by (auto simp: resolve_bare_modpath_def dest: defs_named split: if_splits)

lemma qualified_named:
  assumes "tables_in ids nt" "resolve_qualified fl path c scope ix (nt_defs nt) = Some t"
  shows "named ids (last_seg path) t"
proof (cases "rsplit_once ''::'' path")
  case (Some r)
  obtain pre nm where r: "r = (pre, nm)" by (cases r)
  with Some have nm: "last_seg path = nm" by (simp add: last_seg_split)
  show ?thesis
    using assms(2) Some r file_def_named [OF assms(1)] bare_modpath_named [OF assms(1)] unfolding nm
    by (auto simp: resolve_qualified_def Let_def split: if_splits list.splits)
qed (use assms in \<open>simp add: resolve_qualified_def\<close>)

lemma candidates_named:
  assumes "tables_in ids nt" "t \<in> set (import_candidates nm fl c scope ix (nt_defs nt))"
  shows "named ids nm t"
  using assms(2) file_def_named [OF assms(1)]
  by (auto simp: import_candidates_def List.map_filter_def split: if_splits option.splits)

lemma bare_named:
  assumes "tables_in ids nt" "resolve_bare nm fl c m scope ix (nt_defs nt) cnt (nt_first nt) = Some t"
  shows "named ids nm t"
proof (cases "import_candidates nm fl c scope ix (nt_defs nt)")
  case Nil
  show ?thesis
  proof (cases "map_of (nt_defs nt) (c, m, nm)")
    case None
    with Nil assms(2) have "map_of (nt_first nt) nm = Some t" by (simp add: resolve_bare_def split: if_splits)
    with assms(1) show ?thesis by (simp add: tables_in_def)
  next
    case (Some u)
    with Nil assms(2) defs_named [OF assms(1)] show ?thesis by (simp add: resolve_bare_def)
  qed
next
  case (Cons u us)
  with assms(2) have "t = u" by (cases us) (simp_all add: resolve_bare_def)
  with Cons candidates_named [OF assms(1), of t nm fl c scope ix] show ?thesis by simp
qed

lemma method_symbols_named:
  assumes "map_of (method_symbols p ids) (ty, m) = Some i"
  shows "named ids m i"
proof -
  have "(\<forall>ty m i. map_of t (ty, m) = Some i \<longrightarrow> named ids m i) \<Longrightarrow>
    map_of (fold (\<lambda>(fl, ty, m) t. if sym_of fl m \<in> set ids \<and> \<not> om_contains t (ty, m)
       then om_insert (ty, m) (sym_of fl m) t else t) xs t) (ty, m) = Some i \<Longrightarrow> named ids m i" for xs t
  proof (induction xs arbitrary: t)
    case (Cons x xs)
    obtain fl ty' m' where x: "x = (fl, ty', m')" by (cases x)
    have "sym_of fl m' = (''sym:'' @ fl) @ '':'' @ m'" by (simp add: sym_of_def)
    then have "\<exists>f. sym_of fl m' = f @ '':'' @ m'" by blast
    then have "\<forall>ty m i. map_of (if sym_of fl m' \<in> set ids \<and> \<not> om_contains t (ty', m')
       then om_insert (ty', m') (sym_of fl m') t else t) (ty, m) = Some i \<longrightarrow> named ids m i"
      using Cons.prems(1) by (auto simp: named_def)
    from Cons.IH [OF this] Cons.prems(2) x show ?case by simp
  qed simp
  from this [of "[]"] show ?thesis using assms by (simp add: method_symbols_def)
qed

lemma type_method_named: "type_method_hit callee (method_symbols p ids) cnt = Some t \<Longrightarrow> named ids (last_seg callee) t"
  by (auto simp: type_method_hit_def last_seg_split dest: method_symbols_named split: option.splits if_splits)

lemma self_named:
  assumes "tables_in ids nt" "map_of (nt_defs nt) (c, m, meth) = Some t"
  shows "named ids (last_seg (''Self::'' @ meth)) t"
proof -
  have "CHR '':'' \<notin> set meth" using assms by (auto simp: tables_in_def)
  then have "last_seg (''Self::'' @ meth) = meth"
    using rsplit_once_tail(2) [of meth "''Self''"] last_seg_split by simp
  with assms show ?thesis using defs_named by simp
qed

lemma plain_named:
  assumes "tables_in ids nt" "resolve_plain fl callee c m nt (method_symbols p ids) cnt = Some t"
  shows "named ids (last_seg callee) t"
proof (cases "strip_prefix callee ''Self::''")
  case None
  note plain = assms(2) [unfolded resolve_plain_def None option.case]
  show ?thesis
  proof (cases "find_sub ''::'' callee")
    case nf: None
    with plain bare_named [OF assms(1)] show ?thesis by (simp add: last_seg_whole)
  next
    case (Some k)
    show ?thesis
      using plain Some qualified_named [OF assms(1), of fl callee c "nt_scope nt" "nt_files nt"]
        type_method_named [of callee p ids cnt]
      by (auto split: option.splits if_splits)
  qed
next
  case (Some meth)
  then show ?thesis
    using assms self_named [OF assms(1)] by (simp add: resolve_plain_def) (simp add: strip_prefix_eq)
qed

lemma call_target_named:
  "call_target p ids fl callee = Some t \<Longrightarrow> named ids (last_seg (rewrite_alias (aliases_of p fl) callee)) t"
  unfolding call_target_def resolve_call_def by (rule plain_named [OF tables_in_call])

lemma data_target_named:
  assumes "data_target p ids fl nm = Some t"
  shows "named ids (last_seg (rewrite_alias (aliases_of p fl) nm)) t"
  using assms qualified_named [OF tables_in_datas] bare_named [OF tables_in_datas]
  by (auto simp: data_target_def Let_def last_seg_whole split: if_splits)

lemma set_remdups_adj_sort [simp]: "set (remdups_adj (sort xs)) = set xs"
  by simp

lemma site_links_iff:
  "(s, t) \<in> set (site_links ids table resolve) \<longleftrightarrow>
     (\<exists>fl sites caller callee line. (fl, sites) \<in> set table \<and> (caller, callee, line) \<in> set sites
        \<and> s = sym_of fl caller \<and> s \<in> set ids \<and> resolve fl callee = Some t \<and> t \<noteq> s)"
proof -
  have "site_link ids fl r (caller, callee, line) = Some (s, t) \<longleftrightarrow>
      s = sym_of fl caller \<and> s \<in> set ids \<and> r callee = Some t \<and> t \<noteq> s" for fl r caller callee line
    by (auto simp: site_link_def split: option.splits)
  then have one: "(s, t) \<in> set (List.map_filter (site_link ids fl r) sites) \<longleftrightarrow>
      (\<exists>caller callee line. (caller, callee, line) \<in> set sites
        \<and> s = sym_of fl caller \<and> s \<in> set ids \<and> r callee = Some t \<and> t \<noteq> s)" for fl r sites
    by (simp add: in_map_filter Bex_def split_paired_Ex)
  show ?thesis
    unfolding site_links_def set_remdups_adj_sort by (simp add: Bex_def split_paired_Ex one)
qed

text \<open>
  C13. Call edges are never invented: every \<open>Calls\<close> link of the pass starts at the resident symbol
  of a recorded caller, and ends at another resident node whose name is the last segment of the
  recorded callee path (after one renaming by the file's aliases); it is exactly what the
  precision ladder resolves that callee to.
\<close>

theorem calls_resolve_soundly:
  assumes "(s, t) \<in> set (call_links p ids)"
  shows "\<exists>fl sites caller callee line. (fl, sites) \<in> set (p_calls p) \<and> (caller, callee, line) \<in> set sites
    \<and> s = sym_of fl caller \<and> s \<in> set ids \<and> t \<in> set ids \<and> t \<noteq> s \<and> call_target p ids fl callee = Some t
    \<and> (\<exists>f. t = f @ '':'' @ last_seg (rewrite_alias (aliases_of p fl) callee))"
proof -
  from assms [unfolded call_links_def site_links_iff]
  obtain fl sites caller callee line where h: "(fl, sites) \<in> set (p_calls p)" "(caller, callee, line) \<in> set sites"
    "s = sym_of fl caller" "s \<in> set ids" "call_target p ids fl callee = Some t" "t \<noteq> s" by blast
  moreover have "t \<in> set ids" "\<exists>f. t = f @ '':'' @ last_seg (rewrite_alias (aliases_of p fl) callee)"
    using call_target_named [OF h(5)] by (simp_all add: named_def)
  ultimately show ?thesis by blast
qed

subsection \<open>The bare ladder without counters\<close>

definition sym_name :: "node_id \<Rightarrow> string option" where
  "sym_name i = (case strip_prefix i ''sym:'' of None \<Rightarrow> None | Some rest \<Rightarrow> map_option snd (rsplit_once '':'' rest))"

definition counted :: "node_id list \<Rightarrow> name_tables \<Rightarrow> bool" where
  \<comment> \<open>the counter and the first id of a name are those of the ids seen\<close>
  "counted is nt \<longleftrightarrow> (\<forall>nm. let hits = filter (\<lambda>i. sym_name i = Some nm) is in
     map_of (nt_count nt) nm = (if hits = [] then None else Some (length hits))
     \<and> map_of (nt_first nt) nm = (if hits = [] then None else Some (hd hits)))"

lemma counted_step:
  assumes "counted is nt"
  shows "counted (is @ [i]) (index_symbol i (index_paths i nt))"
proof -
  have p: "nt_count (index_paths i nt) = nt_count nt" "nt_first (index_paths i nt) = nt_first nt"
    by (simp_all add: index_paths_def split: option.splits)
  show ?thesis
  proof (cases "sym_name i")
    case None
    then have "nt_count (index_symbol i (index_paths i nt)) = nt_count nt"
      "nt_first (index_symbol i (index_paths i nt)) = nt_first nt"
      by (simp_all add: index_symbol_def sym_name_def p split: option.splits)
    with None assms show ?thesis by (simp add: counted_def)
  next
    case (Some nm)
    then obtain rest fl where "strip_prefix i ''sym:'' = Some rest" "rsplit_once '':'' rest = Some (fl, nm)"
      by (auto simp: sym_name_def split: option.splits)
    then have e: "nt_count (index_symbol i (index_paths i nt)) =
        om_insert nm (Suc (case map_of (nt_count nt) nm of Some k \<Rightarrow> k | None \<Rightarrow> 0)) (nt_count nt)"
      "nt_first (index_symbol i (index_paths i nt)) =
        (if om_contains (nt_first nt) nm then nt_first nt else om_insert nm i (nt_first nt))"
      by (simp_all add: index_symbol_def index_name_def p)
    show ?thesis
      unfolding counted_def
    proof (intro allI)
      fix x
      let ?h = "filter (\<lambda>j. sym_name j = Some x) is"
      have "map_of (nt_count nt) x = (if ?h = [] then None else Some (length ?h))"
        "map_of (nt_first nt) x = (if ?h = [] then None else Some (hd ?h))"
        using assms by (simp_all add: counted_def Let_def)
      then show "let hits = filter (\<lambda>j. sym_name j = Some x) (is @ [i]) in
        map_of (nt_count (index_symbol i (index_paths i nt))) x = (if hits = [] then None else Some (length hits))
        \<and> map_of (nt_first (index_symbol i (index_paths i nt))) x = (if hits = [] then None else Some (hd hits))"
        using Some by (cases "x = nm"; cases "?h = []") (auto simp: e om_contains_def)
    qed
  qed
qed

lemma counted_fold: "counted is nt \<Longrightarrow> counted (is @ js) (fold (\<lambda>i nt. index_symbol i (index_paths i nt)) js nt)"
proof (induction js arbitrary: "is" nt)
  case (Cons j js)
  from Cons.IH [OF counted_step [OF Cons.prems, of j]] show ?case by simp
qed simp

lemma counted_call: "counted ids (call_tables ids)"
  using counted_fold [of "[]" nt_empty ids] by (simp add: counted_def nt_empty_def call_tables_def)

lemma unique_hit:
  "(if map_of (nt_count (call_tables ids)) nm = Some 1 then map_of (nt_first (call_tables ids)) nm else None)
    = (case filter (\<lambda>i. sym_name i = Some nm) ids of [t] \<Rightarrow> Some t | _ \<Rightarrow> None)"
  using counted_call [of ids]
  by (cases "filter (\<lambda>i. sym_name i = Some nm) ids"; cases "tl (filter (\<lambda>i. sym_name i = Some nm) ids)")
    (auto simp: counted_def Let_def dest: spec [of _ nm])

text \<open>
  A bare call resolves by the ladder the code promises: to the one definition its imports pin,
  to nothing when they pin several, else to the definition in the caller's own module, else to
  the only resident symbol of that name, and to nothing when there are several.
\<close>

theorem bare_call_ladder:
  assumes "map_of (aliases_of p fl) callee = None" "find_sub ''::'' callee = None"
  shows "call_target p ids fl callee =
    (case import_candidates callee fl (fst (home_of fl)) (nt_scope (call_tables ids)) (nt_files (call_tables ids))
            (nt_defs (call_tables ids)) of
       [t] \<Rightarrow> Some t
     | _ # _ # _ \<Rightarrow> None
     | [] \<Rightarrow> (case map_of (nt_defs (call_tables ids)) (fst (home_of fl), snd (home_of fl), callee) of
         Some t \<Rightarrow> Some t
       | None \<Rightarrow> (case filter (\<lambda>i. sym_name i = Some callee) ids of [t] \<Rightarrow> Some t | _ \<Rightarrow> None)))"
proof -
  have "split_once ''::'' callee = None" using assms(2) by (simp add: split_once_def)
  then have "first_seg callee = callee" by (simp add: first_seg_def)
  with assms(1) have ali: "rewrite_alias (aliases_of p fl) callee = callee" by (simp add: rewrite_alias_def)
  have "strip_prefix callee ''Self::'' = None"
  proof (cases "strip_prefix callee ''Self::''")
    case (Some m)
    with assms(2) show ?thesis by (simp add: strip_prefix_eq starts_with_def)
  qed
  with assms(2) show ?thesis
    unfolding unique_hit [symmetric]
    by (simp add: call_target_def resolve_call_def ali resolve_plain_def resolve_bare_def)
qed

subsection \<open>Prune and rebuild\<close>

definition synced :: "mem_graph \<Rightarrow> bool" where
  \<comment> \<open>no duplicate edge, and every edge is in the duplicate index\<close>
  "synced g \<longleftrightarrow> distinct (map edge_key (g_edges g)) \<and> distinct (g_edge_set g)
     \<and> set (map edge_key (g_edges g)) \<subseteq> set (g_edge_set g)"

definition new_edge :: "f64 \<Rightarrow> nat \<Rightarrow> edge_key \<Rightarrow> graph_edge" where
  "new_edge w t = (\<lambda>(s, d, ty). \<lparr>e_source = s, e_target = d, e_weight = w, e_type = ty, e_created_at = t\<rparr>)"

definition append_link :: "f64 \<Rightarrow> nat \<Rightarrow> edge_key \<Rightarrow> graph_edge list \<Rightarrow> graph_edge list" where
  "append_link w t k es = (if k \<in> edge_key ` set es then es else es @ [new_edge w t k])"

lemma key_new [simp]: "edge_key (new_edge w t k) = k"
  by (cases k) (simp add: new_edge_def edge_key_def)

lemma synced_index:
  assumes "synced g" "length (g_edge_set g) = length (g_edges g)"
  shows "set (g_edge_set g) = edge_key ` set (g_edges g)"
proof -
  have "card (edge_key ` set (g_edges g)) = length (g_edges g)"
    using assms(1) distinct_card [of "map edge_key (g_edges g)"] by (simp add: synced_def)
  moreover have "card (set (g_edge_set g)) = length (g_edge_set g)"
    using assms(1) by (simp add: synced_def distinct_card)
  ultimately show ?thesis
    using assms card_subset_eq [of "set (g_edge_set g)" "edge_key ` set (g_edges g)"] by (simp add: synced_def)
qed

lemma add_edge_synced:
  assumes "synced g" "resident g s" "resident g d" "add_edge s d w ty g = (ok, g')"
  shows "g_edges g' = append_link w (g_clock g) (s, d, ty) (g_edges g)" and "g_nodes g' = g_nodes g"
    and "g_clock g' = g_clock g" and "synced g'" and "ok \<longleftrightarrow> (s, d, ty) \<notin> edge_key ` set (g_edges g)"
proof -
  define ks where "ks = (if length (g_edge_set g) \<noteq> length (g_edges g)
      then remdups (map edge_key (g_edges g)) else g_edge_set g)"
  have ks: "set ks = edge_key ` set (g_edges g)" "distinct ks"
    using synced_index [OF assms(1)] assms(1) by (auto simp: ks_def synced_def)
  have e: "add_edge s d w ty g = (if (s, d, ty) \<in> set ks then (False, g\<lparr>g_edge_set := ks\<rparr>)
      else (True, g\<lparr>g_edge_set := (s, d, ty) # ks, g_edges := g_edges g @ [new_edge w (g_clock g) (s, d, ty)]\<rparr>))"
    using assms(2,3) by (simp add: add_edge_def ks_def new_edge_def Let_def)
  show "g_edges g' = append_link w (g_clock g) (s, d, ty) (g_edges g)" "g_nodes g' = g_nodes g"
    "g_clock g' = g_clock g" "ok \<longleftrightarrow> (s, d, ty) \<notin> edge_key ` set (g_edges g)"
    using assms(4) e ks by (auto simp: append_link_def split: if_splits)
  show "synced g'"
    using assms(1,4) e ks by (auto simp: synced_def split: if_splits)
qed

lemma add_links_fold:
  assumes "synced g" "\<And>s d ty. (s, d, ty) \<in> set ls \<Longrightarrow> resident g s \<and> resident g d"
    "fold (link_add w) ls (n, g) = (m, g')"
  shows "g_edges g' = fold (append_link w (g_clock g)) ls (g_edges g) \<and> g_nodes g' = g_nodes g
    \<and> g_clock g' = g_clock g \<and> synced g'
    \<and> m = n + (length (fold (append_link w (g_clock g)) ls (g_edges g)) - length (g_edges g))
    \<and> length (g_edges g) \<le> length (fold (append_link w (g_clock g)) ls (g_edges g))"
  using assms
proof (induction ls arbitrary: n g)
  case (Cons k ls)
  obtain s d ty where k: "k = (s, d, ty)" by (cases k)
  obtain ok g1 where a: "add_edge s d w ty g = (ok, g1)" by (cases "add_edge s d w ty g")
  have rs: "resident g s" "resident g d" using Cons.prems(2) [of s d ty] k by auto
  note r = add_edge_synced [OF Cons.prems(1) rs a]
  have "fold (link_add w) ls ((if ok then n + 1 else n), g1) = (m, g')"
    using Cons.prems(3) by (simp add: k link_add_def a)
  note ih = Cons.IH [OF r(4) _ this]
  have "g_edges g' = fold (append_link w (g_clock g)) ls (g_edges g1) \<and> g_nodes g' = g_nodes g1
    \<and> g_clock g' = g_clock g1 \<and> synced g'
    \<and> m = (if ok then n + 1 else n) + (length (fold (append_link w (g_clock g)) ls (g_edges g1)) - length (g_edges g1))
    \<and> length (g_edges g1) \<le> length (fold (append_link w (g_clock g)) ls (g_edges g1))"
  proof -
    have "resident g1 a \<and> resident g1 b" if "(a, b, c) \<in> set ls" for a b c
      using Cons.prems(2) [of a b c] that by (simp add: r(2))
    from ih [OF this] show ?thesis by (simp only: r(3))
  qed
  moreover have "append_link w (g_clock g) k (g_edges g)
      = (if ok then g_edges g @ [new_edge w (g_clock g) k] else g_edges g)"
    by (simp add: append_link_def k r(5))
  ultimately show ?case by (cases ok) (simp_all add: k r(1,2,3), linarith)
qed simp

lemma add_links_synced:
  assumes "synced g" "\<And>s d ty. (s, d, ty) \<in> set ls \<Longrightarrow> s \<in> set (ids_of_graph g) \<and> d \<in> set (ids_of_graph g)"
    "add_links w ls g = (m, g')"
  shows "g_edges g' = fold (append_link w (g_clock g)) ls (g_edges g)" "g_nodes g' = g_nodes g"
    "g_clock g' = g_clock g" "synced g'" "m = length (g_edges g') - length (g_edges g)"
  using add_links_fold [of g ls w 0 m g'] assms by (auto simp: add_links_def om_contains_iff)

lemma append_links_keys: "edge_key ` set (fold (append_link w t) ls es) = edge_key ` set es \<union> set ls"
proof (induction ls arbitrary: es)
  case (Cons k ls)
  have "edge_key ` set (append_link w t k es) = insert k (edge_key ` set es)" by (auto simp: append_link_def)
  with Cons.IH [of "append_link w t k es"] show ?case by simp
qed simp

lemma append_links_filter:
  assumes "\<And>k. k \<in> set ls \<Longrightarrow> \<not> P k"
  shows "filter (\<lambda>e. P (edge_key e)) (fold (append_link w t) ls es) = filter (\<lambda>e. P (edge_key e)) es"
  using assms
proof (induction ls arbitrary: es)
  case (Cons k ls)
  then show ?case by (simp add: append_link_def)
qed simp

subsection \<open>The links stay inside the graph\<close>

definition files_in :: "node_id list \<Rightarrow> file_index \<Rightarrow> bool" where
  "files_in ids index \<longleftrightarrow> (\<forall>x \<in> set index. snd x \<in> set ids \<and> starts_with (snd x) ''file:'')"

lemma set_om_insert_sub: "set (om_insert k v m) \<subseteq> insert (k, v) (set m)"
  by (induction k v m rule: om_insert.induct) auto

lemma files_in_import: "files_in ids (import_index ids)"
proof -
  have "set is \<subseteq> set ids \<Longrightarrow> files_in ids ix \<Longrightarrow> files_in ids (fold (\<lambda>i index. case strip_prefix i ''file:'' of
      None \<Rightarrow> index | Some path \<Rightarrow> index_file i path index) is ix)" for "is" ix
  proof (induction "is" arbitrary: ix)
    case (Cons i "is")
    have "files_in ids (case strip_prefix i ''file:'' of None \<Rightarrow> ix | Some path \<Rightarrow> index_file i path ix)"
    proof (cases "strip_prefix i ''file:''")
      case (Some path)
      have "files_in ids (om_insert km i ix)" for km
        using Cons.prems Some set_om_insert_sub [of km i ix] unfolding files_in_def
        by (auto simp: strip_prefix_eq starts_with_iff)
      with Some Cons.prems show ?thesis by (simp add: index_file_def split: option.splits)
    qed (use Cons.prems in simp)
    with Cons.IH [OF _ this] Cons.prems show ?case by simp
  qed simp
  from this [of ids "[]"] show ?thesis by (simp add: import_index_def files_in_def)
qed

lemma files_in_get: "files_in ids ix \<Longrightarrow> map_of ix k = Some i \<Longrightarrow> i \<in> set ids \<and> starts_with i ''file:''"
  by (drule map_of_SomeD) (auto simp: files_in_def)

lemma resolve_use_in: "files_in ids ix \<Longrightarrow> resolve_use c u ix = Some t \<Longrightarrow> t \<in> set ids \<and> starts_with t ''file:''"
proof -
  assume ix: "files_in ids ix" and r: "resolve_use c u ix = Some t"
  obtain tc segs where "parse_modpath c u = (tc, segs)" by (cases "parse_modpath c u")
  define f where "f = (\<lambda>l. join_with ''::'' (take l segs))"
  define ls where "ls = rev [if tc = c then 1 else 0 ..< Suc (length segs)]"
  have "resolve_use c u ix = (case List.map_filter (\<lambda>l. map_of ix (tc, f l)) ls of [] \<Rightarrow> None | t # _ \<Rightarrow> Some t)"
    using \<open>parse_modpath c u = (tc, segs)\<close> by (simp only: resolve_use_def Let_def prod.case f_def ls_def)
  with r have "t \<in> set (List.map_filter (\<lambda>l. map_of ix (tc, f l)) ls)" by (simp split: list.splits)
  then show ?thesis using files_in_get [OF ix] by (auto simp: in_map_filter)
qed

lemma import_links_in:
  assumes "(s, t, ty) \<in> set (import_links ids)"
  shows "s \<in> set ids" "t \<in> set ids" "starts_with s ''file:''" "starts_with t ''file:''" "ty = DependsOn \<or> ty = Contains" "s \<noteq> t"
proof -
  note ix = files_in_import [of ids]
  have u: "s \<in> set ids \<and> t \<in> set ids \<and> starts_with s ''file:'' \<and> starts_with t ''file:'' \<and> ty = DependsOn \<and> s \<noteq> t"
    if "(s, t, ty) \<in> set (use_links ids (import_index ids))"
  proof -
    from that obtain i where "i \<in> set ids" and i: "(case strip_prefix i ''use:'' of None \<Rightarrow> None
      | Some rest \<Rightarrow> (case split_once '':'' rest of None \<Rightarrow> None
      | Some (fl, usepath) \<Rightarrow>
          if ''file:'' @ fl \<notin> set ids then None
          else (case resolve_use (fst (home_of fl)) usepath (import_index ids) of None \<Rightarrow> None
            | Some target \<Rightarrow> if target = ''file:'' @ fl then None
                             else Some (''file:'' @ fl, target, DependsOn)))) = Some (s, t, ty)"
      unfolding use_links_def in_map_filter by blast
    from i show ?thesis
      using resolve_use_in [OF ix] by (auto simp: starts_with_iff split: option.splits if_splits prod.splits)
  qed
  have "s \<in> set ids \<and> t \<in> set ids \<and> starts_with s ''file:'' \<and> starts_with t ''file:'' \<and> ty = Contains \<and> s \<noteq> t"
    if m: "(s, t, ty) \<in> set (module_links (import_index ids))"
  proof -
    from m obtain x where x: "x \<in> set (import_index ids)" and e: "(\<lambda>((krate, module), child).
      if module = [] then None
      else (case map_of (import_index ids) (krate, case rsplit_once ''::'' module of Some (p, _) \<Rightarrow> p | None \<Rightarrow> []) of
        None \<Rightarrow> None
      | Some parent \<Rightarrow> if parent = child then None else Some (parent, child, Contains))) x = Some (s, t, ty)"
      unfolding module_links_def in_map_filter by blast
    from e obtain k where "map_of (import_index ids) k = Some s" "snd x = t" "ty = Contains" "s \<noteq> t"
      by (auto split: option.splits if_splits prod.splits)
    with x files_in_get [OF ix] ix show ?thesis by (auto simp: files_in_def)
  qed
  with u assms show "s \<in> set ids" "t \<in> set ids" "starts_with s ''file:''" "starts_with t ''file:''"
    "ty = DependsOn \<or> ty = Contains" "s \<noteq> t" by (auto simp: import_links_def)
qed

lemma call_links_in: "(s, t) \<in> set (call_links p ids) \<Longrightarrow> s \<in> set ids \<and> t \<in> set ids"
  unfolding call_links_def site_links_iff using call_target_named by (auto simp: named_def)

lemma data_links_in: "(s, t) \<in> set (data_links p ids) \<Longrightarrow> s \<in> set ids \<and> t \<in> set ids"
  unfolding data_links_def site_links_iff using data_target_named by (auto simp: named_def)

subsection \<open>The driver\<close>

definition kept_edges :: "pending \<Rightarrow> mem_graph \<Rightarrow> graph_edge list" where
  "kept_edges p g = filter (\<lambda>e. \<not> resolution_owned p (edge_key e)) (g_edges g)"

definition rebuilt :: "pending \<Rightarrow> nat \<Rightarrow> node_id list \<Rightarrow> graph_edge list \<Rightarrow> graph_edge list" where
  "rebuilt p t ids es =
     fold (append_link (f64_rat 6 10) t) (map (\<lambda>(s, d). (s, d, DataFlow)) (data_links p ids))
       (fold (append_link (f64_rat 75 100) t) (map (\<lambda>(s, d). (s, d, Calls)) (call_links p ids))
         (fold (append_link (f64_rat 85 100) t) (import_links ids) es))"

lemma prune_resolution_synced:
  assumes "synced g"
  shows "synced (snd (prune_resolution_edges p g))"
  using assms by (auto simp: synced_def prune_resolution_edges_def Let_def distinct_map_filter)

lemma resolve_all_edges:
  assumes "synced g"
  shows "g_edges (snd (resolve_all p g)) = rebuilt p (g_clock g) (ids_of_graph g) (kept_edges p g)"
    and "g_nodes (snd (resolve_all p g)) = g_nodes g" and "g_clock (snd (resolve_all p g)) = g_clock g"
    and "synced (snd (resolve_all p g))"
    and "fst (resolve_all p g) =
      length (fold (append_link (f64_rat 85 100) (g_clock g)) (import_links (ids_of_graph g)) (kept_edges p g))
        - length (kept_edges p g)"
proof -
  obtain n1 g1 where 1: "prune_resolution_edges p g = (n1, g1)" by (cases "prune_resolution_edges p g")
  obtain n2 g2 where 2: "link_module_imports g1 = (n2, g2)" by (cases "link_module_imports g1")
  obtain n3 g3 where 3: "resolve_symbol_calls p g2 = (n3, g3)" by (cases "resolve_symbol_calls p g2")
  obtain n4 g4 where 4: "resolve_data_flow p g3 = (n4, g4)" by (cases "resolve_data_flow p g3")
  have f1: "g_edges g1 = kept_edges p g" "g_nodes g1 = g_nodes g" "g_clock g1 = g_clock g"
    using 1 by (auto simp: prune_resolution_edges_def kept_edges_def Let_def)
  have s1: "synced g1" using prune_resolution_synced [OF assms, of p] 1 by simp
  have "\<And>s d ty. (s, d, ty) \<in> set (import_links (ids_of_graph g1)) \<Longrightarrow> s \<in> set (ids_of_graph g1) \<and> d \<in> set (ids_of_graph g1)"
    using import_links_in by blast
  note f2 = add_links_synced [OF s1 this 2 [unfolded link_module_imports_def]]
  have "\<And>s d ty. (s, d, ty) \<in> set (map (\<lambda>(s, t). (s, t, Calls)) (call_links p (ids_of_graph g2)))
      \<Longrightarrow> s \<in> set (ids_of_graph g2) \<and> d \<in> set (ids_of_graph g2)"
    using call_links_in [of _ _ p "ids_of_graph g2"] by auto
  note f3 = add_links_synced [OF f2(4) this 3 [unfolded resolve_symbol_calls_def]]
  have "\<And>s d ty. (s, d, ty) \<in> set (map (\<lambda>(s, t). (s, t, DataFlow)) (data_links p (ids_of_graph g3)))
      \<Longrightarrow> s \<in> set (ids_of_graph g3) \<and> d \<in> set (ids_of_graph g3)"
    using data_links_in [of _ _ p "ids_of_graph g3"] by auto
  note f4 = add_links_synced [OF f3(4) this 4 [unfolded resolve_data_flow_def]]
  have r: "resolve_all p g = (n2, g4)" by (simp add: resolve_all_def 1 2 3 4)
  show "g_edges (snd (resolve_all p g)) = rebuilt p (g_clock g) (ids_of_graph g) (kept_edges p g)"
    "g_nodes (snd (resolve_all p g)) = g_nodes g" "g_clock (snd (resolve_all p g)) = g_clock g"
    "synced (snd (resolve_all p g))"
    using f1 f2 f3 f4 by (simp_all add: r rebuilt_def)
  show "fst (resolve_all p g) =
      length (fold (append_link (f64_rat 85 100) (g_clock g)) (import_links (ids_of_graph g)) (kept_edges p g))
        - length (kept_edges p g)"
    using f1 f2 by (simp add: r)
qed

lemma rebuilt_kept:
  assumes "\<And>fl sites caller callee line. (fl, sites) \<in> set (p_calls p) \<or> (fl, sites) \<in> set (p_data_refs p) \<Longrightarrow>
      (caller, callee, line) \<in> set sites \<Longrightarrow> CHR '':'' \<notin> set caller"
  shows "filter (\<lambda>e. \<not> resolution_owned p (edge_key e)) (rebuilt p t ids es)
    = filter (\<lambda>e. \<not> resolution_owned p (edge_key e)) es"
proof -
  have src: "pending_source s table"
    if l: "(s, d) \<in> set (site_links ids table r)"
      and c: "\<And>fl sites caller callee line. (fl, sites) \<in> set table \<Longrightarrow> (caller, callee, line) \<in> set sites
        \<Longrightarrow> CHR '':'' \<notin> set caller" for s d table r
  proof -
    from l obtain fl sites caller callee line where h: "(fl, sites) \<in> set table" "(caller, callee, line) \<in> set sites"
      "s = sym_of fl caller"
      unfolding site_links_iff by blast
    have "rsplit_once '':'' (fl @ '':'' @ caller) = Some (fl, caller)"
      by (rule rsplit_once_tail) (rule c [OF h(1,2)])
    then have "sym_file s = Some fl"
      unfolding h(3) sym_of_def sym_file_def by (simp add: strip_prefix_def starts_with_def)
    moreover have "om_contains table fl" using h(1) by (force simp: om_contains_iff)
    ultimately show ?thesis by (simp add: pending_source_def)
  qed
  have i: "\<not> \<not> resolution_owned p k" if "k \<in> set (import_links ids)" for k
    using that import_links_in [of "fst k" "fst (snd k)" "snd (snd k)" ids]
    by (auto simp: resolution_owned_def split: prod.splits)
  have c: "\<not> \<not> resolution_owned p k" if "k \<in> set (map (\<lambda>(s, d). (s, d, Calls)) (call_links p ids))" for k
  proof -
    from that obtain s d where k: "k = (s, d, Calls)" and l: "(s, d) \<in> set (call_links p ids)" by auto
    have "pending_source s (p_calls p)"
      by (rule src [OF l [unfolded call_links_def]]) (use assms in blast)
    then show ?thesis by (simp add: k resolution_owned_def)
  qed
  have d: "\<not> \<not> resolution_owned p k" if "k \<in> set (map (\<lambda>(s, d). (s, d, DataFlow)) (data_links p ids))" for k
  proof -
    from that obtain s d where k: "k = (s, d, DataFlow)" and l: "(s, d) \<in> set (data_links p ids)" by auto
    have "pending_source s (p_data_refs p)"
      by (rule src [OF l [unfolded data_links_def]]) (use assms in blast)
    then show ?thesis by (simp add: k resolution_owned_def)
  qed
  show ?thesis
    unfolding rebuilt_def
    by (simp only: append_links_filter [of _ "\<lambda>k. \<not> resolution_owned p k", OF i]
        append_links_filter [of _ "\<lambda>k. \<not> resolution_owned p k", OF c]
        append_links_filter [of _ "\<lambda>k. \<not> resolution_owned p k", OF d])
qed



end
