(* ===== verification/ResolveWitness.thy ===== *)
theory ResolveWitness
  imports ResolveFacts
begin

text \<open>
  Two files, one importing and calling the other: the resolve passes evaluated, and a state in
  which \<open>resolve_all\<close> loses an import edge because the duplicate index is trusted by its size.
\<close>

definition rs_node :: "node_id \<Rightarrow> graph_node" where
  "rs_node i = \<lparr>n_id = i, n_label = [], n_content = [], n_type = Symbol, n_base_importance = f64_rat 5 10,
     n_failure_relevance = f64_zero False, n_recency = f64_rat 1 1, n_access_count = 1, n_created_at = 0,
     n_last_accessed = 0, n_state = Stable, n_trust = f64_rat 1 1\<rparr>"

definition rs_ids :: "node_id list" where
  "rs_ids = [''file:src/a.rs'', ''file:src/b.rs'', ''sym:src/a.rs:f'', ''sym:src/b.rs:g'', ''use:src/a.rs:crate::b'']"

definition rs_import :: edge_key where
  "rs_import = (''file:src/a.rs'', ''file:src/b.rs'', DependsOn)"

definition rs_call :: edge_key where
  "rs_call = (''sym:src/a.rs:f'', ''sym:src/b.rs:g'', Calls)"

definition rs_other :: "edge_key list" where
  "rs_other = [(''file:src/a.rs'', ''sym:src/a.rs:f'', References), (''file:src/b.rs'', ''sym:src/b.rs:g'', References)]"

definition rs_graph :: "disk \<Rightarrow> edge_key list \<Rightarrow> edge_key list \<Rightarrow> mem_graph" where
  "rs_graph d ks index = (graph_new (f64_zero False) 9 d)\<lparr>g_nodes := map (\<lambda>i. (i, rs_node i)) rs_ids,
     g_edges := map (new_edge (f64_zero False) 0) ks, g_edge_set := index\<rparr>"

definition rs_pending :: pending where
  "rs_pending = set_pending_calls ''src/a.rs'' [(''f'', ''b::g'', 3)] pending_empty"

lemma rs_fields [simp]:
  "ids_of_graph (rs_graph d ks index) = rs_ids" "g_edges (rs_graph d ks index) = map (new_edge (f64_zero False) 0) ks"
  "g_edge_set (rs_graph d ks index) = index" "g_clock (rs_graph d ks index) = 0"
  by (simp_all add: rs_graph_def graph_new_def comp_def)

lemma rs_links:
  "import_links rs_ids = [rs_import]" "call_links rs_pending rs_ids = [(''sym:src/a.rs:f'', ''sym:src/b.rs:g'')]"
  "data_links rs_pending rs_ids = []"
  by code_simp+

lemma rs_owned: "resolution_owned rs_pending rs_import" "resolution_owned rs_pending rs_call"
  "\<not> resolution_owned rs_pending (rs_other ! 0)" "\<not> resolution_owned rs_pending (rs_other ! 1)"
  by code_simp+

lemma rs_kept: "kept_edges p (rs_graph d ks index) = map (new_edge (f64_zero False) 0) (filter (\<lambda>k. \<not> resolution_owned p k) ks)"
  by (simp add: kept_edges_def filter_map comp_def)

lemma rs_synced: "distinct ks \<Longrightarrow> synced (rs_graph d ks ks)"
  by (simp add: synced_def comp_def)

lemma rs_rebuilt: "map edge_key (rebuilt rs_pending 0 rs_ids []) = [rs_import, rs_call]"
  by (simp add: rebuilt_def rs_links append_link_def rs_call_def) (simp add: rs_import_def)



lemma calls_resolve_soundly_witness:
  "\<exists>fl callee. call_target rs_pending rs_ids fl callee = Some ''sym:src/b.rs:g''"
  using calls_resolve_soundly [of "''sym:src/a.rs:f''" "''sym:src/b.rs:g''" rs_pending rs_ids]
  by (auto simp: rs_links)

lemma rs_bare: "map_of (aliases_of rs_pending ''src/a.rs'') ''g'' = None" "find_sub ''::'' ''g'' = None"
  "import_candidates ''g'' ''src/a.rs'' (fst (home_of ''src/a.rs'')) (nt_scope (call_tables rs_ids))
     (nt_files (call_tables rs_ids)) (nt_defs (call_tables rs_ids)) = []"
  "map_of (nt_defs (call_tables rs_ids)) (fst (home_of ''src/a.rs''), snd (home_of ''src/a.rs''), ''g'') = None"
  "filter (\<lambda>i. sym_name i = Some ''g'') rs_ids = [''sym:src/b.rs:g'']"
  by code_simp+

lemma bare_call_ladder_witness: "call_target rs_pending rs_ids ''src/a.rs'' ''g'' = Some ''sym:src/b.rs:g''"
  using bare_call_ladder [OF rs_bare(1,2), of rs_ids] by (simp only: rs_bare list.case option.case)


end
