(* ===== verification/GraphAnalysis.thy ===== *)
theory GraphAnalysis
  imports Paging
begin

text \<open>
  The read-only analyses of the graph (\<open>src/memory.rs\<close>): the cycle search, the structural diff,
  the counts, the orphan and dead-symbol reports, the ranked scores and the Graphviz text. The
  depth-first search of \<open>find_cycles\<close> keeps its explicit stack; it is total because every turn
  paints a white node or shortens what is left of the stack.
\<close>

subsection \<open>The cycle search\<close>

definition children_of :: "mem_graph \<Rightarrow> node_id \<Rightarrow> node_id list" where
  \<comment> \<open>\<open>adj[&node]\<close>, sorted and deduplicated\<close>
  "children_of g v = remdups_adj (sort (map e_target
     (filter (\<lambda>e. e_source e = v \<and> resident g (e_source e) \<and> resident g (e_target e)) (g_edges g))))"

record dfs =
  df_color :: "(node_id, nat) omap"      \<comment> \<open>0 unvisited, 1 on the path, 2 done\<close>
  df_cycles :: "node_id list list"
  df_stack :: "(node_id \<times> nat) list"     \<comment> \<open>the top first\<close>
  df_path :: "node_id list"

definition color_of :: "dfs \<Rightarrow> node_id \<Rightarrow> nat" where
  "color_of st v = (case map_of (df_color st) v of Some c \<Rightarrow> c | None \<Rightarrow> 0)"

definition paint :: "node_id \<Rightarrow> nat \<Rightarrow> dfs \<Rightarrow> dfs" where
  "paint v c st = st\<lparr>df_color := om_insert v c (df_color st)\<rparr>"

definition enter :: "node_id \<Rightarrow> dfs \<Rightarrow> dfs" where
  "enter v st = (paint v 1 st)\<lparr>df_stack := (v, 0) # df_stack st, df_path := df_path st @ [v]\<rparr>"

definition leave :: "node_id \<Rightarrow> dfs \<Rightarrow> dfs" where
  "leave v st = (paint v 2 st)\<lparr>df_stack := tl (df_stack st), df_path := butlast (df_path st)\<rparr>"

definition advance :: "dfs \<Rightarrow> dfs" where
  \<comment> \<open>\<open>stack.last_mut().unwrap().1 += 1\<close>\<close>
  "advance st = st\<lparr>df_stack := (case df_stack st of [] \<Rightarrow> [] | (v, i) # s \<Rightarrow> (v, Suc i) # s)\<rparr>"

definition report :: "node_id \<Rightarrow> dfs \<Rightarrow> dfs" where
  \<comment> \<open>a back edge: the cycle spans \<open>path[pos..]\<close>\<close>
  "report c st = (case index_of (df_path st) c of
      Some pos \<Rightarrow> st\<lparr>df_cycles := df_cycles st @ [drop pos (df_path st)]\<rparr>
    | None \<Rightarrow> st)"

definition visit :: "node_id \<Rightarrow> dfs \<Rightarrow> dfs" where
  "visit c st = (if color_of st c = 0 then enter c st
     else if color_of st c = 1 then report c st else st)"

definition dfs_step :: "mem_graph \<Rightarrow> node_id \<Rightarrow> nat \<Rightarrow> dfs \<Rightarrow> dfs" where
  "dfs_step g v i st =
     (if i < length (children_of g v) then visit (children_of g v ! i) (advance st) else leave v st)"

definition white :: "mem_graph \<Rightarrow> dfs \<Rightarrow> nat" where
  "white g st = length (filter (\<lambda>v. color_of st v = 0) (map fst (g_nodes g)))"

definition pending_work :: "mem_graph \<Rightarrow> dfs \<Rightarrow> nat" where
  "pending_work g st = sum_list (map (\<lambda>(v, i). Suc (length (children_of g v) - i)) (df_stack st))"

lemma children_resident: "c \<in> set (children_of g v) \<Longrightarrow> resident g c \<and> resident g v"
  by (auto simp: children_of_def)

lemma color_paint [simp]: "color_of (paint v c st) w = (if w = v then c else color_of st w)"
  by (simp add: color_of_def paint_def)

lemma color_fields [simp]:
  "color_of (st\<lparr>df_stack := s\<rparr>) w = color_of st w" "color_of (st\<lparr>df_path := p\<rparr>) w = color_of st w"
  "color_of (st\<lparr>df_cycles := cs\<rparr>) w = color_of st w" "color_of (advance st) w = color_of st w"
  "color_of (report c st) w = color_of st w"
  by (simp_all add: color_of_def advance_def report_def split: option.splits)

lemma color_enter [simp]: "color_of (enter v st) w = (if w = v then 1 else color_of st w)"
  and color_leave [simp]: "color_of (leave v st) w = (if w = v then 2 else color_of st w)"
  by (simp_all add: enter_def leave_def)

lemma white_enter: "resident g c \<Longrightarrow> color_of st c = 0 \<Longrightarrow> white g (enter c st) < white g st"
proof -
  assume "resident g c" and w: "color_of st c = 0"
  then have "c \<in> set (map fst (g_nodes g))" by (simp add: om_contains_iff)
  moreover have "length (filter (\<lambda>v. color_of (enter c st) v = 0) xs) \<le> length (filter (\<lambda>v. color_of st v = 0) xs)
    \<and> (c \<in> set xs \<longrightarrow> length (filter (\<lambda>v. color_of (enter c st) v = 0) xs) < length (filter (\<lambda>v. color_of st v = 0) xs))" for xs
    by (induction xs) (auto simp: w)
  ultimately show ?thesis unfolding white_def by blast
qed

lemma white_mono: "(\<And>v. color_of st v \<noteq> 0 \<Longrightarrow> color_of st' v \<noteq> 0) \<Longrightarrow> white g st' \<le> white g st"
proof -
  assume m: "\<And>v. color_of st v \<noteq> 0 \<Longrightarrow> color_of st' v \<noteq> 0"
  have "length (filter (\<lambda>v. color_of st' v = 0) xs) \<le> length (filter (\<lambda>v. color_of st v = 0) xs)" for xs
  proof (induction xs)
    case (Cons a xs)
    then show ?case using m [of a] by auto
  qed simp
  then show ?thesis unfolding white_def .
qed

lemma dfs_step_decreases:
  assumes "df_stack st = (v, i) # s"
  shows "white g (dfs_step g v i st) < white g st
    \<or> white g (dfs_step g v i st) \<le> white g st \<and> pending_work g (dfs_step g v i st) < pending_work g st"
proof (cases "i < length (children_of g v)")
  case False
  have "white g (leave v st) \<le> white g st" by (rule white_mono) simp
  then show ?thesis using False assms by (simp add: dfs_step_def pending_work_def leave_def)
next
  case True
  let ?c = "children_of g v ! i"
  show ?thesis
  proof (cases "color_of st ?c = 0")
    case t: True
    have "resident g ?c" using children_resident [OF nth_mem [OF True]] by simp
    then have "white g (enter ?c (advance st)) < white g (advance st)" by (rule white_enter) (simp add: t)
    moreover have "white g (advance st) = white g st" by (simp add: white_def)
    ultimately show ?thesis using True t by (simp add: dfs_step_def visit_def)
  next
    case False
    then have "df_stack (dfs_step g v i st) = (v, Suc i) # s"
      using True assms by (simp add: dfs_step_def visit_def report_def advance_def split: option.splits)
    moreover have "white g (dfs_step g v i st) \<le> white g st"
      by (rule white_mono) (use True False in \<open>simp add: dfs_step_def visit_def\<close>)
    moreover from calculation(1) have "pending_work g (dfs_step g v i st) < pending_work g st"
      using True assms by (simp add: pending_work_def)
    ultimately show ?thesis by blast
  qed
qed

function dfs_loop :: "mem_graph \<Rightarrow> dfs \<Rightarrow> dfs" where
  "dfs_loop g st = (case df_stack st of [] \<Rightarrow> st | (v, i) # _ \<Rightarrow> dfs_loop g (dfs_step g v i st))"
  by pat_completeness auto
termination
proof (relation "inv_image (less_than <*lex*> less_than) (\<lambda>(g, st). (white g st, pending_work g st))")
  fix g :: mem_graph and st :: dfs and p s v i
  assume "df_stack st = p # s" "(v, i) = p"
  with dfs_step_decreases [of st v i s g]
  show "((g, dfs_step g v i st), (g, st))
    \<in> inv_image (less_than <*lex*> less_than) (\<lambda>(g, st). (white g st, pending_work g st))"
    by auto
qed (simp add: wf_lex_prod)

declare dfs_loop.simps [simp del]

definition dfs_start :: "mem_graph \<Rightarrow> node_id \<Rightarrow> dfs \<Rightarrow> dfs" where
  "dfs_start g v st =
     (if color_of st v \<noteq> 0 then st else dfs_loop g (enter v (st\<lparr>df_stack := [], df_path := []\<rparr>)))"

definition dfs_init :: dfs where
  "dfs_init = \<lparr>df_color = [], df_cycles = [], df_stack = [], df_path = []\<rparr>"

definition find_cycles :: "mem_graph \<Rightarrow> node_id list list" where
  "find_cycles g = df_cycles (fold (dfs_start g) (map fst (g_nodes g)) dfs_init)"

subsection \<open>Correctness of the search\<close>

definition edges_of :: "mem_graph \<Rightarrow> (node_id \<times> node_id) set" where
  "edges_of g = {(u, v). v \<in> set (children_of g u)}"

lemma edges_of_iff: "(u, v) \<in> edges_of g \<longleftrightarrow>
    resident g u \<and> resident g v \<and> (\<exists>e \<in> set (g_edges g). e_source e = u \<and> e_target e = v)"
  by (auto simp: edges_of_def children_of_def)

definition cycle_in :: "mem_graph \<Rightarrow> node_id list \<Rightarrow> bool" where
  "cycle_in g c \<longleftrightarrow> c \<noteq> [] \<and> distinct c \<and> successively (\<lambda>u v. (u, v) \<in> edges_of g) c \<and> (last c, hd c) \<in> edges_of g"

lemma successively_rtrancl: "successively (\<lambda>u v. (u, v) \<in> E) c \<Longrightarrow> c \<noteq> [] \<Longrightarrow> (hd c, last c) \<in> E\<^sup>*"
proof (induction c)
  case (Cons a c)
  then show ?case by (cases c) (auto intro: converse_rtrancl_into_rtrancl)
qed simp

lemma cycle_trancl: "cycle_in g c \<Longrightarrow> (hd c, hd c) \<in> (edges_of g)\<^sup>+"
  unfolding cycle_in_def using successively_rtrancl rtrancl_into_trancl1 by metis

fun stack_ok :: "mem_graph \<Rightarrow> dfs \<Rightarrow> node_id option \<Rightarrow> (node_id \<times> nat) list \<Rightarrow> bool" where
  \<comment> \<open>every child already taken is done, or is the next node of the path\<close>
  "stack_ok g st nxt [] \<longleftrightarrow> True"
| "stack_ok g st nxt ((v, i) # s) \<longleftrightarrow>
     (\<forall>j < i. j < length (children_of g v) \<longrightarrow>
        color_of st (children_of g v ! j) = 2 \<or> nxt = Some (children_of g v ! j))
     \<and> stack_ok g st (Some v) s"

definition black_ok :: "mem_graph \<Rightarrow> dfs \<Rightarrow> bool" where
  "black_ok g st \<longleftrightarrow> (\<forall>v. color_of st v = 2 \<longrightarrow> (v, v) \<notin> (edges_of g)\<^sup>+
     \<and> (\<forall>w. (v, w) \<in> edges_of g \<longrightarrow> color_of st w = 2))"

definition dfs_ok :: "mem_graph \<Rightarrow> dfs \<Rightarrow> bool" where
  "dfs_ok g st \<longleftrightarrow> df_path st = rev (map fst (df_stack st)) \<and> distinct (df_path st)
     \<and> (\<forall>v. color_of st v \<in> {0, 1, 2} \<and> (color_of st v = 1 \<longleftrightarrow> v \<in> set (df_path st)))
     \<and> successively (\<lambda>u v. (u, v) \<in> edges_of g) (df_path st)
     \<and> (\<forall>c \<in> set (df_cycles st). cycle_in g c)
     \<and> (df_cycles st = [] \<longrightarrow> black_ok g st \<and> stack_ok g st None (df_stack st))"

lemma stack_ok_mono:
  "stack_ok g st nxt s \<Longrightarrow> (\<And>v. color_of st v = 2 \<Longrightarrow> color_of st' v = 2) \<Longrightarrow> stack_ok g st' nxt s"
  by (induction g st nxt s rule: stack_ok.induct) auto

lemma black_closed:
  assumes "black_ok g st" "color_of st u = 2" "(u, w) \<in> (edges_of g)\<^sup>*"
  shows "color_of st w = 2"
  using assms(3,2) by (induction) (use assms(1) in \<open>auto simp: black_ok_def\<close>)

lemma dfs_okD:
  assumes "dfs_ok g st"
  shows "df_path st = rev (map fst (df_stack st))" "distinct (df_path st)" "color_of st v \<in> {0, 1, 2}"
    "color_of st v = 1 \<longleftrightarrow> v \<in> set (df_path st)" "successively (\<lambda>u v. (u, v) \<in> edges_of g) (df_path st)"
    "c \<in> set (df_cycles st) \<Longrightarrow> cycle_in g c" "df_cycles st = [] \<Longrightarrow> black_ok g st"
    "df_cycles st = [] \<Longrightarrow> stack_ok g st None (df_stack st)"
  using assms unfolding dfs_ok_def by blast+

lemma dfs_okI:
  assumes "df_path st = rev (map fst (df_stack st))" "distinct (df_path st)" "\<And>v. color_of st v \<in> {0, 1, 2}"
    "\<And>v. color_of st v = 1 \<longleftrightarrow> v \<in> set (df_path st)" "successively (\<lambda>u v. (u, v) \<in> edges_of g) (df_path st)"
    "\<And>c. c \<in> set (df_cycles st) \<Longrightarrow> cycle_in g c" "df_cycles st = [] \<Longrightarrow> black_ok g st"
    "df_cycles st = [] \<Longrightarrow> stack_ok g st None (df_stack st)"
  shows "dfs_ok g st"
  using assms unfolding dfs_ok_def by blast

lemma top_path: "dfs_ok g st \<Longrightarrow> df_stack st = (v, i) # s \<Longrightarrow> df_path st = rev (map fst s) @ [v]"
  using dfs_okD(1) by fastforce

lemma child_edge: "i < length (children_of g v) \<Longrightarrow> (v, children_of g v ! i) \<in> edges_of g"
  by (simp add: edges_of_def)

lemma dfs_ok_push:
  assumes ok: "dfs_ok g st" and st: "df_stack st = (v, i) # s" and i: "i < length (children_of g v)"
    and w: "color_of st (children_of g v ! i) = 0"
  shows "dfs_ok g (enter (children_of g v ! i) (advance st))"
proof -
  define c where "c = children_of g v ! i"
  define st' where "st' = enter c (advance st)"
  note o = dfs_okD [OF ok] and path = top_path [OF ok st]
  have w: "color_of st c = 0" using w by (simp add: c_def)
  have new: "df_stack st' = (c, 0) # (v, Suc i) # s" "df_path st' = df_path st @ [c]" "df_cycles st' = df_cycles st"
    by (simp_all add: st'_def enter_def advance_def paint_def st)
  have col: "color_of st' u = (if u = c then 1 else color_of st u)" for u by (simp add: st'_def)
  have fresh: "c \<notin> set (df_path st)" using o(4) [of c] w by simp
  have "dfs_ok g st'"
  proof (rule dfs_okI)
    show "df_path st' = rev (map fst (df_stack st'))" using path by (simp add: new)
    show "distinct (df_path st')" using o(2) fresh by (simp add: new)
    show "color_of st' u \<in> {0, 1, 2}" for u using o(3) [of u] by (simp add: col)
    show "color_of st' u = 1 \<longleftrightarrow> u \<in> set (df_path st')" for u using o(4) [of u] by (simp add: col new)
    show "successively (\<lambda>u v. (u, v) \<in> edges_of g) (df_path st')"
      using o(5) child_edge [OF i] by (simp add: new path successively_append_iff c_def)
    show "cycle_in g k" if "k \<in> set (df_cycles st')" for k using o(6) that by (simp add: new)
    show "black_ok g st'" if "df_cycles st' = []"
      using o(7) that w unfolding black_ok_def new col by auto
    show "stack_ok g st' None (df_stack st')" if "df_cycles st' = []"
    proof -
      have b: "stack_ok g st None ((v, i) # s)" using o(8) that by (simp add: new st)
      have "stack_ok g st' (Some v) s" by (rule stack_ok_mono [where st = st]) (use b w in \<open>auto simp: col\<close>)
      moreover have "color_of st' (children_of g v ! j) = 2" if "j < i" "j < length (children_of g v)" for j
        using b w that by (auto simp: col)
      ultimately show ?thesis unfolding new by (auto simp: less_Suc_eq c_def)
    qed
  qed
  then show ?thesis by (simp add: st'_def c_def)
qed

lemma dfs_ok_report:
  assumes ok: "dfs_ok g st" and st: "df_stack st = (v, i) # s" and i: "i < length (children_of g v)"
    and w: "color_of st (children_of g v ! i) = 1"
  shows "dfs_ok g (report (children_of g v ! i) (advance st))"
proof -
  define c where "c = children_of g v ! i"
  define st' where "st' = report c (advance st)"
  note o = dfs_okD [OF ok] and path = top_path [OF ok st]
  have "c \<in> set (df_path st)" using o(4) [of c] w by (simp add: c_def)
  then obtain as bs where sp: "df_path st = as @ c # bs" "c \<notin> set as" by (meson split_list_first)
  then have "takeWhile (\<lambda>y. y \<noteq> c) (df_path st) = as"
    using takeWhile_append2 [of as "\<lambda>y. y \<noteq> c" "c # bs"] by fastforce
  then have "index_of (df_path st) c = Some (length as)" using sp by (simp add: index_of_def)
  then have st': "st' = (advance st)\<lparr>df_cycles := df_cycles st @ [c # bs]\<rparr>"
    using sp by (simp add: report_def advance_def st'_def)
  then have new: "df_stack st' = (v, Suc i) # s" "df_path st' = df_path st" "df_cycles st' = df_cycles st @ [c # bs]"
    by (simp_all add: advance_def st)
  have col: "color_of st' u = color_of st u" for u by (simp add: st'_def)
  have last: "last (c # bs) = v" using path sp by (metis last_appendR last_snoc list.distinct(1))
  have cyc: "cycle_in g (c # bs)"
    using o(2,5) last child_edge [OF i] unfolding cycle_in_def sp by (simp add: successively_append_iff c_def)
  have "dfs_ok g st'"
  proof (rule dfs_okI)
    show "df_path st' = rev (map fst (df_stack st'))" using path by (simp add: new)
    show "distinct (df_path st')" "successively (\<lambda>u v. (u, v) \<in> edges_of g) (df_path st')"
      using o(2,5) by (simp_all add: new)
    show "color_of st' u \<in> {0, 1, 2}" "color_of st' u = 1 \<longleftrightarrow> u \<in> set (df_path st')" for u
      using o(3,4) [of u] by (simp_all add: col new)
    show "cycle_in g k" if "k \<in> set (df_cycles st')" for k using o(6) that cyc by (auto simp: new)
  qed (simp_all add: new)
  then show ?thesis by (simp add: st'_def c_def)
qed

lemma dfs_ok_skip:
  assumes ok: "dfs_ok g st" and st: "df_stack st = (v, i) # s"
    and w: "color_of st (children_of g v ! i) = 2"
  shows "dfs_ok g (advance st)"
proof (rule dfs_okI)
  note o = dfs_okD [OF ok] and path = top_path [OF ok st]
  have new: "df_stack (advance st) = (v, Suc i) # s" "df_path (advance st) = df_path st" "df_cycles (advance st) = df_cycles st"
    by (simp_all add: advance_def st)
  show "df_path (advance st) = rev (map fst (df_stack (advance st)))" using path by (simp add: new)
  show "distinct (df_path (advance st))" "successively (\<lambda>u v. (u, v) \<in> edges_of g) (df_path (advance st))"
    using o(2,5) by (simp_all add: new)
  show "color_of (advance st) u \<in> {0, 1, 2}" "color_of (advance st) u = 1 \<longleftrightarrow> u \<in> set (df_path (advance st))" for u
    using o(3,4) [of u] by (simp_all add: new)
  show "cycle_in g k" if "k \<in> set (df_cycles (advance st))" for k using o(6) that by (simp add: new)
  show "black_ok g (advance st)" if "df_cycles (advance st) = []" using o(7) that by (simp add: new black_ok_def)
  show "stack_ok g (advance st) None (df_stack (advance st))" if "df_cycles (advance st) = []"
  proof -
    have b: "stack_ok g st None ((v, i) # s)" using o(8) that by (simp add: new st)
    have "stack_ok g (advance st) (Some v) s" by (rule stack_ok_mono [where st = st]) (use b in auto)
    then show ?thesis unfolding new using b w by (auto simp: less_Suc_eq)
  qed
qed

lemma dfs_ok_leave:
  assumes ok: "dfs_ok g st" and st: "df_stack st = (v, i) # s" and i: "\<not> i < length (children_of g v)"
  shows "dfs_ok g (leave v st)"
proof (rule dfs_okI)
  note o = dfs_okD [OF ok] and path = top_path [OF ok st]
  have new: "df_stack (leave v st) = s" "df_path (leave v st) = rev (map fst s)" "df_cycles (leave v st) = df_cycles st"
    by (simp_all add: leave_def paint_def st path)
  have v: "v \<notin> fst ` set s" using o(2) path by simp
  have gray: "color_of st v = 1" using o(4) path by simp
  show "df_path (leave v st) = rev (map fst (df_stack (leave v st)))" by (simp add: new)
  show "distinct (df_path (leave v st))" using o(2) path by (simp add: new)
  show "color_of (leave v st) u \<in> {0, 1, 2}" for u using o(3) [of u] by simp
  show "color_of (leave v st) u = 1 \<longleftrightarrow> u \<in> set (df_path (leave v st))" for u
    using o(4) [of u] v path by (auto simp: new)
  show "successively (\<lambda>u v. (u, v) \<in> edges_of g) (df_path (leave v st))"
    using o(5) unfolding new path by (simp only: successively_append_iff)
  show "cycle_in g k" if "k \<in> set (df_cycles (leave v st))" for k using o(6) that by (simp add: new)
  show "black_ok g (leave v st)" if e: "df_cycles (leave v st) = []"
  proof -
    have b: "black_ok g st" "stack_ok g st None ((v, i) # s)" using o(7,8) e by (simp_all add: new st)
    have kids: "color_of st w = 2" if "(v, w) \<in> edges_of g" for w
      using that b(2) i by (auto simp: edges_of_def in_set_conv_nth)
    have "(v, v) \<notin> (edges_of g)\<^sup>+"
    proof
      assume "(v, v) \<in> (edges_of g)\<^sup>+"
      then obtain w where "(v, w) \<in> edges_of g" "(w, v) \<in> (edges_of g)\<^sup>*" by (meson tranclD)
      with black_closed [OF b(1) kids] have "color_of st v = 2" by blast
      with gray show False by simp
    qed
    with b(1) kids show ?thesis by (auto simp: black_ok_def)
  qed
  show "stack_ok g (leave v st) None (df_stack (leave v st))" if e: "df_cycles (leave v st) = []"
  proof -
    have b: "stack_ok g st None ((v, i) # s)" using o(8) e by (simp add: new st)
    have "stack_ok g (leave v st) (Some v) s" by (rule stack_ok_mono [where st = st]) (use b in auto)
    then show ?thesis unfolding new by (cases s) (auto split: if_splits)
  qed
qed

lemma dfs_ok_step:
  assumes "dfs_ok g st" "df_stack st = (v, i) # s"
  shows "dfs_ok g (dfs_step g v i st)"
proof (cases "i < length (children_of g v)")
  case True
  consider "color_of st (children_of g v ! i) = 0" | "color_of st (children_of g v ! i) = 1" | "color_of st (children_of g v ! i) = 2"
    using dfs_okD(3) [OF assms(1), of "children_of g v ! i"] by fastforce
  then show ?thesis
    using True dfs_ok_push [OF assms True] dfs_ok_report [OF assms True] dfs_ok_skip [OF assms]
    by cases (simp_all add: dfs_step_def visit_def)
next
  case False
  then show ?thesis using dfs_ok_leave [OF assms] by (simp add: dfs_step_def)
qed

lemma dfs_loop_ok: "dfs_ok g st \<Longrightarrow> dfs_ok g (dfs_loop g st) \<and> df_stack (dfs_loop g st) = []"
proof (induction g st rule: dfs_loop.induct)
  case (1 g st)
  show ?case
  proof (cases "df_stack st")
    case Nil
    with 1 show ?thesis by (simp add: dfs_loop.simps [of g st])
  next
    case (Cons p s)
    obtain v i where p: "p = (v, i)" by (cases p)
    have "dfs_ok g (dfs_step g v i st)" using dfs_ok_step 1(2) Cons p by blast
    with 1(1) [OF Cons p [symmetric]] show ?thesis by (simp add: dfs_loop.simps [of g st] Cons p)
  qed
qed

lemma dfs_loop_nonwhite: "color_of st u \<noteq> 0 \<Longrightarrow> color_of (dfs_loop g st) u \<noteq> 0"
proof (induction g st rule: dfs_loop.induct)
  case (1 g st)
  show ?case
  proof (cases "df_stack st")
    case Nil
    with 1 show ?thesis by (simp add: dfs_loop.simps [of g st])
  next
    case (Cons p s)
    obtain v i where p: "p = (v, i)" by (cases p)
    have "color_of (dfs_step g v i st) u \<noteq> 0" using 1(2) by (auto simp: dfs_step_def visit_def)
    with 1(1) [OF Cons p [symmetric]] show ?thesis by (simp add: dfs_loop.simps [of g st] Cons p)
  qed
qed

lemma dfs_start_ok:
  assumes "dfs_ok g st" "df_stack st = []"
  shows "dfs_ok g (dfs_start g v st) \<and> df_stack (dfs_start g v st) = [] \<and> color_of (dfs_start g v st) v \<noteq> 0
    \<and> (\<forall>u. color_of st u \<noteq> 0 \<longrightarrow> color_of (dfs_start g v st) u \<noteq> 0)"
proof (cases "color_of st v = 0")
  case True
  let ?st = "enter v (st\<lparr>df_stack := [], df_path := []\<rparr>)"
  note o = dfs_okD [OF assms(1)]
  have path: "df_path st = []" using o(1) assms(2) by simp
  have new: "df_stack ?st = [(v, 0)]" "df_path ?st = [v]" "df_cycles ?st = df_cycles st"
    by (simp_all add: enter_def paint_def)
  have ok: "dfs_ok g ?st"
  proof (rule dfs_okI)
    show "color_of ?st u \<in> {0, 1, 2}" "color_of ?st u = 1 \<longleftrightarrow> u \<in> set (df_path ?st)" for u
      using o(3,4) [of u] path by (simp_all add: new)
    show "cycle_in g k" if "k \<in> set (df_cycles ?st)" for k using o(6) that by (simp add: new)
    show "black_ok g ?st" if "df_cycles ?st = []" using o(7) that True unfolding black_ok_def new by auto
  qed (simp_all add: new)
  have "color_of (dfs_loop g ?st) v \<noteq> 0" by (rule dfs_loop_nonwhite) simp
  moreover have "color_of (dfs_loop g ?st) u \<noteq> 0" if "color_of st u \<noteq> 0" for u
    by (rule dfs_loop_nonwhite) (use that in simp)
  ultimately show ?thesis using dfs_loop_ok [OF ok] True by (simp add: dfs_start_def)
qed (use assms in \<open>simp add: dfs_start_def\<close>)

lemma dfs_all_ok:
  assumes "dfs_ok g st" "df_stack st = []"
  shows "dfs_ok g (fold (dfs_start g) vs st) \<and> df_stack (fold (dfs_start g) vs st) = []
    \<and> (\<forall>u. u \<in> set vs \<or> color_of st u \<noteq> 0 \<longrightarrow> color_of (fold (dfs_start g) vs st) u \<noteq> 0)"
  using assms
proof (induction vs arbitrary: st)
  case (Cons v vs)
  note s = dfs_start_ok [OF Cons.prems, of v]
  with Cons.IH [of "dfs_start g v st"] show ?case by auto
qed simp

text \<open>
  C14. The cycle search is sound and complete, and always returns: every list it reports is a
  directed cycle of distinct resident nodes joined by edges of the graph, and it reports nothing
  exactly when the graph has no directed cycle.
\<close>

theorem find_cycles_exact:
  "(\<forall>c \<in> set (find_cycles g). cycle_in g c) \<and> (find_cycles g = [] \<longleftrightarrow> acyclic (edges_of g))"
proof -
  let ?st = "fold (dfs_start g) (map fst (g_nodes g)) dfs_init"
  have "dfs_ok g dfs_init" by (rule dfs_okI) (simp_all add: dfs_init_def color_of_def black_ok_def)
  from dfs_all_ok [OF this, of "map fst (g_nodes g)"]
  have ok: "dfs_ok g ?st" "df_stack ?st = []" and seen: "\<And>u. resident g u \<Longrightarrow> color_of ?st u \<noteq> 0"
    by (auto simp: dfs_init_def om_contains_iff)
  note o = dfs_okD [OF ok(1)]
  have path: "df_path ?st = []" using o(1) ok(2) by simp
  have black: "color_of ?st u = 2" if "resident g u" for u
    using o(3,4) [of u] seen [OF that] path by auto
  have "acyclic (edges_of g)" if "find_cycles g = []"
  proof -
    have "black_ok g ?st" using o(7) that by (simp add: find_cycles_def)
    moreover have "resident g u" if "(u, u) \<in> (edges_of g)\<^sup>+" for u
      using that by (meson edges_of_iff tranclD)
    ultimately show ?thesis using black unfolding acyclic_def black_ok_def by blast
  qed
  moreover have "find_cycles g = []" if "acyclic (edges_of g)"
  proof (rule ccontr)
    assume "find_cycles g \<noteq> []"
    then obtain c where "c \<in> set (df_cycles ?st)" unfolding find_cycles_def by (cases "df_cycles ?st") auto
    with o(6) cycle_trancl that show False unfolding acyclic_def by blast
  qed
  ultimately show ?thesis using o(6) unfolding find_cycles_def by blast
qed

definition ring :: "disk \<Rightarrow> mem_graph" where
  \<comment> \<open>two nodes that call each other\<close>
  "ring d = (let n = \<lambda>i. \<lparr>n_id = i, n_label = [], n_content = [], n_type = Symbol, n_base_importance = 0,
       n_failure_relevance = 0, n_recency = 0, n_access_count = 1, n_created_at = 0, n_last_accessed = 0,
       n_state = Stable, n_trust = 0\<rparr>;
      e = \<lambda>s t. \<lparr>e_source = s, e_target = t, e_weight = 0, e_type = Calls, e_created_at = 0\<rparr>
    in (graph_new 0 9 d)\<lparr>g_nodes := [(''a'', n ''a''), (''b'', n ''b'')], g_edges := [e ''a'' ''b'', e ''b'' ''a'']\<rparr>)"

lemma find_cycles_exact_witness:
  "\<forall>d. find_cycles (graph_new 0 9 d) = [] \<and> (\<exists>c \<in> set (find_cycles (ring d)). cycle_in (ring d) c)"
proof (intro allI conjI)
  fix d
  have "edges_of (graph_new 0 9 d) = {}" by (auto simp: edges_of_def children_of_def graph_new_def)
  then show "find_cycles (graph_new 0 9 d) = []" using find_cycles_exact [of "graph_new 0 9 d"] by (simp add: acyclic_def)
  have "(''a'', ''b'') \<in> edges_of (ring d)" "(''b'', ''a'') \<in> edges_of (ring d)"
    by (simp_all add: edges_of_iff ring_def Let_def om_contains_def)
  then have "(''a'', ''a'') \<in> (edges_of (ring d))\<^sup>+" by (rule trancl.r_into_trancl [THEN trancl.trancl_into_trancl])
  then have "\<not> acyclic (edges_of (ring d))" unfolding acyclic_def by blast
  with find_cycles_exact [of "ring d"] show "\<exists>c \<in> set (find_cycles (ring d)). cycle_in (ring d) c"
    by (metis list.set_intros(1) neq_Nil_conv)
qed

subsection \<open>Reports\<close>

record graph_diff =
  nodes_added :: "node_id list"
  nodes_removed :: "node_id list"
  edges_added :: nat
  edges_removed :: nat
  common_nodes :: nat

fun edge_type_debug :: "edge_type \<Rightarrow> string" where
  \<comment> \<open>\<open>format!("{:?}", t)\<close>\<close>
  "edge_type_debug DependsOn = ''DependsOn''"
| "edge_type_debug Contains = ''Contains''"
| "edge_type_debug References = ''References''"
| "edge_type_debug Causes = ''Causes''"
| "edge_type_debug RelatedTo = ''RelatedTo''"
| "edge_type_debug Calls = ''Calls''"
| "edge_type_debug DataFlow = ''DataFlow''"
| "edge_type_debug Supports = ''Supports''"
| "edge_type_debug Contradicts = ''Contradicts''"

definition diff_keys :: "mem_graph \<Rightarrow> (node_id \<times> node_id \<times> string) list" where
  "diff_keys g = remdups (map (\<lambda>e. (e_source e, e_target e, edge_type_debug (e_type e))) (g_edges g))"

definition graph_diff_of :: "mem_graph \<Rightarrow> mem_graph \<Rightarrow> graph_diff" where
  "graph_diff_of g other =
     (let a = map fst (g_nodes g); b = map fst (g_nodes other); ea = diff_keys g; eb = diff_keys other
      in \<lparr>nodes_added = sort (filter (\<lambda>i. i \<notin> set a) b), nodes_removed = sort (filter (\<lambda>i. i \<notin> set b) a),
          edges_added = length (filter (\<lambda>k. k \<notin> set ea) eb), edges_removed = length (filter (\<lambda>k. k \<notin> set eb) ea),
          common_nodes = length (filter (\<lambda>i. i \<in> set b) a)\<rparr>)"

definition type_count_cmp :: "string \<times> nat \<Rightarrow> string \<times> nat \<Rightarrow> cmp" where
  "type_count_cmp a b = cmp_then (ord_cmp (snd b) (snd a)) (ord_cmp (fst a) (fst b))"

definition node_type_counts :: "mem_graph \<Rightarrow> (string \<times> nat) list" where
  "node_type_counts g = sort_by type_count_cmp
     (fold (\<lambda>(_, n). count_up (node_type_debug (n_type n))) (g_nodes g) [])"

definition orphan_nodes :: "mem_graph \<Rightarrow> node_id list" where
  "orphan_nodes g = sort (filter (\<lambda>i. \<not> list_ex (\<lambda>e. e_source e = i \<or> e_target e = i) (g_edges g)) (map fst (g_nodes g)))"

definition dead_symbols :: "mem_graph \<Rightarrow> node_id list" where
  "dead_symbols g = sort (map fst (filter (\<lambda>(i, n). n_type n = Symbol \<and> starts_with i ''sym:''
     \<and> \<not> list_ex (\<lambda>e. e_type e \<noteq> Contains \<and> e_target e = i) (g_edges g)) (g_nodes g)))"

definition get_node_scores :: "mem_env \<Rightarrow> mem_graph \<Rightarrow> (node_id \<times> f64) list \<times> mem_graph" where
  "get_node_scores env g = (let (scored, g') = score_all env (g_nodes g) g
     in (sort_by (\<lambda>a b. cmp_then (f64_cmp (snd b) (snd a)) (ord_cmp (fst a) (fst b))) scored, g'))"

definition dot_esc :: "string \<Rightarrow> string" where
  "dot_esc s = concat (map (\<lambda>c. if c = CHR 0x22 then [CHR 0x5C, CHR 0x22] else [c])
     (concat (map (\<lambda>c. if c = CHR 0x5C then [CHR 0x5C, CHR 0x5C] else [c]) s)))"

fun dot_color :: "node_type \<Rightarrow> string" where
  "dot_color Module = ''#cfe2ff''"
| "dot_color Symbol = ''#d1e7dd''"
| "dot_color ContextBlock = ''#fff3cd''"
| "dot_color AnalysisResult = ''#f8d7da''"
| "dot_color CodeRegion = ''#e2e3e5''"
| "dot_color UnknownType = ''#ffffff''"

definition dot_quote :: "string \<Rightarrow> string" where
  "dot_quote s = CHR 0x22 # s @ [CHR 0x22]"

definition dot_edge_cmp :: "graph_edge \<Rightarrow> graph_edge \<Rightarrow> cmp" where
  "dot_edge_cmp a b = cmp_then (ord_cmp (e_source a) (e_source b)) (cmp_then (ord_cmp (e_target a) (e_target b))
     (ord_cmp (edge_type_debug (e_type a)) (edge_type_debug (e_type b))))"

definition dot_node :: "node_id \<times> graph_node \<Rightarrow> string" where
  "dot_node = (\<lambda>(i, n). ''  '' @ dot_quote (dot_esc i) @ '' [label='' @ dot_quote (dot_esc (n_label n))
     @ '', fillcolor='' @ dot_quote (dot_color (n_type n)) @ ''];'' @ [CHR 0x0A])"

definition dot_edge :: "graph_edge \<Rightarrow> string" where
  "dot_edge e = ''  '' @ dot_quote (dot_esc (e_source e)) @ '' -> '' @ dot_quote (dot_esc (e_target e))
     @ '' [label='' @ dot_quote (edge_type_debug (e_type e)) @ ''];'' @ [CHR 0x0A]"

definition to_dot :: "mem_graph \<Rightarrow> string" where
  "to_dot g = ''digraph ccos {'' @ [CHR 0x0A] @ ''  rankdir=LR;'' @ [CHR 0x0A]
     @ ''  node [shape=box, style='' @ dot_quote ''rounded,filled'' @ '', fontname=monospace];'' @ [CHR 0x0A]
     @ concat (map dot_node (g_nodes g)) @ concat (map dot_edge (sort_by dot_edge_cmp (g_edges g))) @ ''}'' @ [CHR 0x0A]"

lemma filter_out_empty: "filter (\<lambda>x. x \<notin> A) ys = [] \<longleftrightarrow> set ys \<subseteq> A"
  by (auto simp: filter_empty_conv)

text \<open>
  The diff is empty exactly when the two graphs have the same node ids and the same edges, up
  to weights, times and repetitions.
\<close>

theorem graph_diff_empty:
  "(let d = graph_diff_of g h in nodes_added d = [] \<and> nodes_removed d = [] \<and> edges_added d = 0 \<and> edges_removed d = 0)
    \<longleftrightarrow> fst ` set (g_nodes g) = fst ` set (g_nodes h) \<and> edge_key ` set (g_edges g) = edge_key ` set (g_edges h)"
proof -
  let ?k = "\<lambda>e. (e_source e, e_target e, edge_type_debug (e_type e))"
  have inj: "edge_type_debug a = edge_type_debug b \<longleftrightarrow> a = b" for a b by (cases a; cases b) simp_all
  have "?k = (\<lambda>(s, t, ty). (s, t, edge_type_debug ty)) \<circ> edge_key" by (auto simp: edge_key_def)
  then have "?k ` A = (\<lambda>(s, t, ty). (s, t, edge_type_debug ty)) ` edge_key ` A" for A by (simp only: image_comp)
  moreover have "inj (\<lambda>(s :: node_id, t :: node_id, ty). (s, t, edge_type_debug ty))" by (auto simp: inj_def inj)
  ultimately have k: "?k ` A = ?k ` B \<longleftrightarrow> edge_key ` A = edge_key ` B" for A B by (simp add: inj_image_eq_iff)
  have srt: "sort xs = [] \<longleftrightarrow> xs = []" for xs :: "node_id list" by (metis length_0_conv length_sort)
  have keys: "set (diff_keys f) = ?k ` set (g_edges f)" for f by (simp add: diff_keys_def)
  have "(let d = graph_diff_of g h in nodes_added d = [] \<and> nodes_removed d = [] \<and> edges_added d = 0 \<and> edges_removed d = 0)
    \<longleftrightarrow> fst ` set (g_nodes h) \<subseteq> fst ` set (g_nodes g) \<and> fst ` set (g_nodes g) \<subseteq> fst ` set (g_nodes h)
      \<and> set (diff_keys h) \<subseteq> set (diff_keys g) \<and> set (diff_keys g) \<subseteq> set (diff_keys h)"
    by (simp add: graph_diff_of_def Let_def srt filter_out_empty)
  also have "\<dots> \<longleftrightarrow> fst ` set (g_nodes g) = fst ` set (g_nodes h) \<and> set (diff_keys g) = set (diff_keys h)" by blast
  finally show ?thesis unfolding keys k .
qed

end
