(* ===== verification/SourceText.thy ===== *)
theory SourceText
  imports Resolve
begin

text \<open>
  Source text as the line-based parser reads it (\<open>src/parser.rs\<close>): lines, Unicode trimming,
  comment stripping and the span of an item. Text is UTF-8, so the white space of \<open>str::trim\<close>
  is a set of byte sequences and the ASCII tests of the code are tests on bytes.
\<close>

subsection \<open>Trimming and lines\<close>

text \<open>The white space characters (\<open>char::is_whitespace\<close>) of one, two and three bytes.\<close>

definition ws1 :: "char \<Rightarrow> bool" where
  "ws1 a \<longleftrightarrow> a \<in> {CHR 0x09, CHR 0x0A, CHR 0x0B, CHR 0x0C, CHR 0x0D, CHR 0x20}"

definition ws2 :: "char \<Rightarrow> char \<Rightarrow> bool" where
  "ws2 a b \<longleftrightarrow> a = CHR 0xC2 \<and> (b = CHR 0x85 \<or> b = CHR 0xA0)"

definition ws3 :: "char \<Rightarrow> char \<Rightarrow> char \<Rightarrow> bool" where
  "ws3 a b c \<longleftrightarrow> [a, b, c] \<in> {[CHR 0xE1, CHR 0x9A, CHR 0x80], [CHR 0xE2, CHR 0x81, CHR 0x9F], [CHR 0xE3, CHR 0x80, CHR 0x80],
       [CHR 0xE2, CHR 0x80, CHR 0xA8], [CHR 0xE2, CHR 0x80, CHR 0xA9], [CHR 0xE2, CHR 0x80, CHR 0xAF]}
     \<or> a = CHR 0xE2 \<and> b = CHR 0x80 \<and> CHR 0x80 \<le> c \<and> c \<le> CHR 0x8A"

definition ws_len :: "string \<Rightarrow> nat" where
  \<comment> \<open>the bytes of the white space the text starts with, or 0\<close>
  "ws_len s = (case s of [] \<Rightarrow> 0 | a # s1 \<Rightarrow> if ws1 a then 1
     else (case s1 of [] \<Rightarrow> 0 | b # s2 \<Rightarrow> if ws2 a b then 2
     else (case s2 of [] \<Rightarrow> 0 | c # _ \<Rightarrow> if ws3 a b c then 3 else 0)))"

lemma ws_quote: "\<not> ws1 (CHR 0x22)" "ws2 a b \<Longrightarrow> a \<noteq> CHR 0x22 \<and> b \<noteq> CHR 0x22"
  "ws3 a b c \<Longrightarrow> a \<noteq> CHR 0x22 \<and> b \<noteq> CHR 0x22 \<and> c \<noteq> CHR 0x22"
  by (auto simp: ws1_def ws2_def ws3_def)

lemma ws_len_le: "ws_len s \<le> length s"
  by (auto simp: ws_len_def split: list.splits)

function trim_start :: "string \<Rightarrow> string" where
  "trim_start s = (if ws_len s = 0 then s else trim_start (drop (ws_len s) s))"
  by pat_completeness auto
termination
proof (relation "measure length")
  fix s
  assume "ws_len s \<noteq> 0"
  with ws_len_le [of s] show "(drop (ws_len s) s, s) \<in> measure length" by simp
qed simp

declare trim_start.simps [simp del]

definition ws_end :: "string \<Rightarrow> nat" where
  \<comment> \<open>the same at the end of the text\<close>
  "ws_end s = (if ws_len (drop (length s - 1) s) = 1 then 1
     else if 2 \<le> length s \<and> ws_len (drop (length s - 2) s) = 2 then 2
     else if 3 \<le> length s \<and> ws_len (drop (length s - 3) s) = 3 then 3 else 0)"

lemma ws_end_le: "ws_end s \<le> length s"
  by (cases s) (auto simp: ws_end_def ws_len_def)

function trim_end :: "string \<Rightarrow> string" where
  "trim_end s = (if ws_end s = 0 then s else trim_end (take (length s - ws_end s) s))"
  by pat_completeness auto
termination
proof (relation "measure length")
  fix s
  assume "ws_end s \<noteq> 0"
  with ws_end_le [of s] show "(take (length s - ws_end s) s, s) \<in> measure length" by simp
qed simp

declare trim_end.simps [simp del]

definition trim :: "string \<Rightarrow> string" where
  "trim s = trim_end (trim_start s)"

fun lines_from :: "string \<Rightarrow> string \<Rightarrow> string list" where
  \<comment> \<open>the line read so far, reversed; a carriage return belongs to the line end only before a newline\<close>
  "lines_from acc [] = (if acc = [] then [] else [rev acc])"
| "lines_from acc (c # s) =
     (if c = CHR 0x0A then rev (if acc \<noteq> [] \<and> hd acc = CHR 0x0D then tl acc else acc) # lines_from [] s
      else lines_from (c # acc) s)"

definition lines_of :: "string \<Rightarrow> string list" where
  "lines_of s = lines_from [] s"

subsection \<open>Comments\<close>

fun block_skip :: "char \<Rightarrow> string \<Rightarrow> string" where
  \<comment> \<open>what follows the end of the block comment\<close>
  "block_skip prev [] = []"
| "block_skip prev (d # s) = (if prev = CHR ''*'' \<and> d = CHR ''/'' then s else block_skip d s)"

lemma block_skip_le: "length (block_skip p s) \<le> length s"
  by (induction p s rule: block_skip.induct) auto

function strip_loop :: "bool \<Rightarrow> bool \<Rightarrow> string \<Rightarrow> string" where
  \<comment> \<open>\<open>in_string\<close>, \<open>escaped\<close>\<close>
  "strip_loop ins esc [] = []"
| "strip_loop True esc (c # s) =
     c # (if esc then strip_loop True False s
          else if c = CHR 0x5C then strip_loop True True s
          else if c = CHR 0x22 then strip_loop False False s
          else strip_loop True False s)"
| "strip_loop False esc (c # s) =
     (if c = CHR 0x22 then c # strip_loop True esc s
      else if c = CHR ''/'' \<and> starts_with s ''/'' then []
      else if c = CHR ''/'' \<and> starts_with s ''*'' then strip_loop False esc (block_skip (CHR 0x00) (tl s))
      else c # strip_loop False esc s)"
  by pat_completeness auto
termination
  by (relation "measure (\<lambda>(_, _, s). length s)")
    (auto simp: less_Suc_eq_le intro: order_trans [OF block_skip_le])

definition strip_comments :: "string \<Rightarrow> string" where
  "strip_comments line = trim (strip_loop False False line)"

subsection \<open>The span of an item\<close>

fun open_search :: "nat \<Rightarrow> string list \<Rightarrow> (nat + nat) option" where
  \<comment> \<open>\<open>Inl\<close> the line of the opening brace, or \<open>Inr\<close> the line that ends in a semicolon\<close>
  "open_search i [] = None"
| "open_search i (l # ls) =
     (if CHR ''{'' \<in> set (strip_comments l) then Some (Inl i)
      else if strip_suffix (trim_end (strip_comments l)) '';'' \<noteq> None then Some (Inr i)
      else open_search (Suc i) ls)"

fun brace_line :: "int \<Rightarrow> string \<Rightarrow> int option" where
  \<comment> \<open>the depth after the line, or \<open>None\<close> where it comes back to zero\<close>
  "brace_line depth [] = Some depth"
| "brace_line depth (c # s) =
     (if c = CHR ''{'' then brace_line (depth + 1) s
      else if c = CHR ''}'' then (if depth - 1 = 0 then None else brace_line (depth - 1) s)
      else brace_line depth s)"

fun brace_close :: "int \<Rightarrow> nat \<Rightarrow> string list \<Rightarrow> nat option" where
  "brace_close depth i [] = None"
| "brace_close depth i (l # ls) = (case brace_line depth (strip_comments l) of
      None \<Rightarrow> Some i | Some d \<Rightarrow> brace_close d (Suc i) ls)"

definition symbol_span :: "string list \<Rightarrow> nat \<Rightarrow> nat \<times> nat" where
  "symbol_span ls start_line =
     (let n = length ls in
        if start_line = 0 \<or> n < start_line
        then (let line = min (max start_line 1) (max n 1) in (line, line))
        else let s0 = start_line - 1 in
          case open_search s0 (take (min (s0 + 8) n - s0) (drop s0 ls)) of
            None \<Rightarrow> (start_line, start_line)
          | Some (Inr i) \<Rightarrow> (start_line, i + 1)
          | Some (Inl opn) \<Rightarrow> (case brace_close 0 opn (drop opn ls) of
              Some i \<Rightarrow> (start_line, i + 1)
            | None \<Rightarrow> (start_line, n)))"

lemma open_search_bounds:
  "open_search i ls = Some r \<Longrightarrow> i \<le> (case r of Inl j \<Rightarrow> j | Inr j \<Rightarrow> j) \<and> (case r of Inl j \<Rightarrow> j | Inr j \<Rightarrow> j) < i + length ls"
  by (induction i ls rule: open_search.induct) (fastforce split: if_splits)+

lemma brace_close_bounds: "brace_close d i ls = Some j \<Longrightarrow> i \<le> j \<and> j < i + length ls"
  by (induction d i ls rule: brace_close.induct) (fastforce split: option.splits)+

text \<open>
  The span of a symbol never leaves the file: whatever line the parser reports, the span is a
  non-empty range of lines of the file, so slicing it cannot panic; and it starts at the reported
  line when that line exists.
\<close>

theorem symbol_span_in_file:
  assumes "ls \<noteq> []"
  shows "let (a, b) = symbol_span ls start in 1 \<le> a \<and> a \<le> b \<and> b \<le> length ls
    \<and> (start \<in> {1..length ls} \<longrightarrow> a = start)"
proof (cases "start = 0 \<or> length ls < start")
  case True
  with assms show ?thesis by (auto simp: symbol_span_def Let_def Suc_le_eq)
next
  case False
  define s0 where "s0 = start - 1"
  define win where "win = take (min (s0 + 8) (length ls) - s0) (drop s0 ls)"
  have start: "start = Suc s0" "s0 < length ls" using False by (auto simp: s0_def)
  have win: "s0 + length win \<le> length ls" using start by (simp add: win_def)
  have sp: "symbol_span ls start = (case open_search s0 win of
            None \<Rightarrow> (start, start)
          | Some (Inr i) \<Rightarrow> (start, i + 1)
          | Some (Inl opn) \<Rightarrow> (case brace_close 0 opn (drop opn ls) of
              Some i \<Rightarrow> (start, i + 1) | None \<Rightarrow> (start, length ls)))"
    using False by (simp add: symbol_span_def s0_def win_def Let_def)
  show ?thesis
  proof (cases "open_search s0 win")
    case None
    then show ?thesis unfolding sp using start by simp
  next
    case (Some r)
    note b = open_search_bounds [OF Some]
    show ?thesis
    proof (cases r)
      case (Inr i)
      then show ?thesis unfolding sp using Some b start win by simp
    next
      case (Inl opn)
      show ?thesis
        unfolding sp using Some b start win Inl brace_close_bounds [of 0 opn "drop opn ls"] by (auto split: option.splits)
    qed
  qed
qed

subsection \<open>Stripping twice\<close>

text \<open>\<open>plain\<close> is what the loop leaves alone: outside strings no slash is followed by a slash or
  a star.\<close>

fun plain :: "bool \<Rightarrow> bool \<Rightarrow> string \<Rightarrow> bool" where
  "plain ins esc [] \<longleftrightarrow> True"
| "plain True esc (c # s) \<longleftrightarrow>
     (if esc then plain True False s else if c = CHR 0x5C then plain True True s
      else if c = CHR 0x22 then plain False False s else plain True False s)"
| "plain False esc (c # s) \<longleftrightarrow>
     (if c = CHR 0x22 then plain True esc s
      else \<not> (c = CHR ''/'' \<and> (starts_with s ''/'' \<or> starts_with s ''*'')) \<and> plain False esc s)"

lemma starts_with_one: "starts_with s [c] \<longleftrightarrow> (\<exists>t. s = c # t)"
  by (auto simp: starts_with_iff)

lemma strip_head:
  "starts_with (strip_loop False esc s) [c] \<Longrightarrow> c \<in> {CHR ''/'', CHR ''*''} \<Longrightarrow> \<not> starts_with s ''/'' \<Longrightarrow> \<not> starts_with s ''*''
    \<Longrightarrow> False"
  by (cases s) (auto simp: starts_with_one split: if_splits)

lemma plain_strip: "plain ins esc (strip_loop ins esc s)"
proof (induction ins esc s rule: strip_loop.induct)
  case (3 esc c s)
  then show ?case
    using strip_head [of esc s "CHR ''/''"] strip_head [of esc s "CHR ''*''"] by auto
qed auto

lemma strip_plain: "plain ins esc s \<Longrightarrow> strip_loop ins esc s = s"
  by (induction ins esc s rule: plain.induct) (auto split: if_splits)

lemma plain_prefix: "plain ins esc (s @ t) \<Longrightarrow> plain ins esc s"
proof (induction ins esc s rule: plain.induct)
  case (3 esc c s)
  then show ?case by (auto simp: starts_with_one)
qed (auto split: if_splits)

lemma plain_drop: "plain False esc (s @ t) \<Longrightarrow> CHR 0x22 \<notin> set s \<Longrightarrow> plain False esc t"
  by (induction s) (auto split: if_splits)

lemma ws_no_quote: "CHR 0x22 \<notin> set (take (ws_len s) s)"
  by (auto simp: ws_len_def numeral_3_eq_3 numeral_2_eq_2 ws_quote(1) dest: ws_quote(2,3) split: list.splits if_splits)

lemma plain_trim_start: "plain False esc s \<Longrightarrow> plain False esc (trim_start s)"
proof (induction s rule: trim_start.induct)
  case (1 s)
  show ?case
  proof (cases "ws_len s = 0")
    case True
    with 1 show ?thesis by (simp add: trim_start.simps [of s])
  next
    case False
    have "plain False esc (take (ws_len s) s @ drop (ws_len s) s)" using 1(2) by simp
    from plain_drop [OF this ws_no_quote] 1(1) [OF False] False show ?thesis by (simp add: trim_start.simps [of s])
  qed
qed

lemma trim_end_prefix: "\<exists>n. trim_end s = take n s"
proof (induction s rule: trim_end.induct)
  case (1 s)
  show ?case
  proof (cases "ws_end s = 0")
    case True
    then have "trim_end s = take (length s) s" by (simp add: trim_end.simps [of s])
    then show ?thesis by blast
  next
    case False
    from 1 [OF False] False show ?thesis by (auto simp: trim_end.simps [of s])
  qed
qed

lemma plain_trim: "plain False False s \<Longrightarrow> plain False False (trim s)"
proof -
  assume "plain False False s"
  then have p: "plain False False (trim_start s)" by (rule plain_trim_start)
  obtain n where "trim s = take n (trim_start s)" using trim_end_prefix unfolding trim_def by blast
  moreover have "plain False False (take n (trim_start s) @ drop n (trim_start s))" using p by simp
  ultimately show ?thesis using plain_prefix by metis
qed

lemma trim_start_none [simp]: "ws_len (trim_start s) = 0"
proof (induction s rule: trim_start.induct)
  case (1 s)
  then show ?case by (cases "ws_len s = 0") (simp_all add: trim_start.simps [of s])
qed

lemma trim_end_none: "ws_end (trim_end s) = 0"
proof (induction s rule: trim_end.induct)
  case (1 s)
  then show ?case by (cases "ws_end s = 0") (simp_all add: trim_end.simps [of s])
qed

lemma ws_len_append: "ws_len s \<noteq> 0 \<Longrightarrow> ws_len (s @ t) \<noteq> 0"
  by (auto simp: ws_len_def split: list.splits if_splits)

lemma ws_len_take: "ws_len (take n s) \<noteq> 0 \<Longrightarrow> ws_len s \<noteq> 0"
  using ws_len_append [of "take n s" "drop n s"] by simp

lemma trim_trim [simp]: "trim (trim s) = trim s"
proof -
  obtain n where n: "trim s = take n (trim_start s)" using trim_end_prefix unfolding trim_def by blast
  then have "ws_len (trim s) = 0" using ws_len_take [of n "trim_start s"] by (metis trim_start_none)
  then have "trim_start (trim s) = trim s" by (simp add: trim_start.simps [of "trim s"])
  moreover have "ws_end (trim s) = 0" by (simp add: trim_def trim_end_none)
  ultimately show ?thesis by (simp add: trim_def [of "trim s"] trim_end.simps [of "trim s"])
qed

text \<open>
  Stripping comments is idempotent: what is left of a line contains no comment any more, in
  particular the pieces around a removed block comment never form a new one.
\<close>

theorem strip_comments_idempotent: "strip_comments (strip_comments l) = strip_comments l"
proof -
  have "plain False False (strip_comments l)"
    unfolding strip_comments_def by (rule plain_trim) (rule plain_strip)
  then show ?thesis
    unfolding strip_comments_def [of "strip_comments l"] by (simp only: strip_plain) (simp add: strip_comments_def)
qed

end
