(* ===== verification/Parser.thy ===== *)
theory Parser
  imports SourceText Paging
begin

text \<open>
  The line-based parser and the ingestion of one file (\<open>src/parser.rs\<close>). \<open>syn\<close> stands for the
  parser of the optional \<open>syn-parser\<close> feature, which is built on a third-party crate; without
  the feature, and where it fails, it is the function that always returns \<open>None\<close>. SHA-256 is
  that of \<open>mem_env\<close>. Ingestion acts on the graph and on its pending tables.
\<close>

subsection \<open>Data\<close>

datatype module_decl = ModuleDecl (md_name: string) (md_line: nat) (md_public: bool) (md_children: "module_decl list")

record use_statement =
  us_path :: string
  us_line :: nat
  us_import :: bool
  us_components :: "string list"

datatype symbol_kind = KFunction | KStruct | KEnum | KTrait | KImpl | KConst | KStatic | KType | KMacro | KOther

record code_symbol =
  sy_name :: string
  sy_line :: nat
  sy_kind :: symbol_kind

record extracted =
  x_modules :: "module_decl list"
  x_uses :: "use_statement list"
  x_symbols :: "code_symbol list"
  x_calls :: "site list"                       \<comment> \<open>\<open>CallSite\<close>: caller, callee, line\<close>
  x_data_refs :: "site list"                   \<comment> \<open>\<open>DataRef\<close>: reader, name, line\<close>
  x_aliases :: "(string \<times> string) list"       \<comment> \<open>\<open>ImportAlias\<close>: local, target\<close>
  x_methods :: "(string \<times> string) list"       \<comment> \<open>\<open>MethodDef\<close>: type, method\<close>

record parse_result =
  pr_path :: string
  pr_hash :: string
  pr_found :: extracted
  pr_nodes :: nat
  pr_edges :: nat

subsection \<open>Extraction\<close>

definition numbered :: "string \<Rightarrow> (nat \<times> string) list" where
  \<comment> \<open>the lines with their numbers, trimmed and stripped of comments\<close>
  "numbered source = (let ls = lines_of source
     in zip [1 ..< Suc (length ls)] (map (\<lambda>l. strip_comments (trim l)) ls))"

definition until :: "string \<Rightarrow> string \<Rightarrow> string" where
  \<comment> \<open>\<open>s.split([..]).next()\<close>\<close>
  "until stops s = takeWhile (\<lambda>c. c \<notin> set stops) s"

definition module_line :: "nat \<times> string \<Rightarrow> module_decl option" where
  "module_line = (\<lambda>(n, s).
     (let is_pub = starts_with s ''pub mod '';
          is_mod = ((starts_with s ''mod '' \<or> is_pub) \<and> (strip_suffix s '';'' \<noteq> None \<or> strip_suffix s ''{'' \<noteq> None));
          rest = drop (if is_pub then 8 else 4) s;
          nm = until '' {;'' (trim rest)
      in if is_mod \<and> nm \<noteq> [] \<and> find_sub ''//'' nm = None then Some (ModuleDecl nm n is_pub []) else None))"

definition extract_modules :: "string \<Rightarrow> module_decl list" where
  "extract_modules source = List.map_filter module_line (numbered source)"

definition use_line :: "nat \<times> string \<Rightarrow> use_statement option" where
  "use_line = (\<lambda>(n, s).
     (if starts_with s ''use ''
      then let path = trim (rev (dropWhile (\<lambda>c. c = CHR '';'') (rev (trim (drop 4 s)))));
               components = filter (\<lambda>c. c \<noteq> []) (map trim (split_on ''::'' path));
               full = join_with ''::'' components
           in if full \<noteq> [] then Some \<lparr>us_path = full, us_line = n, us_import = True, us_components = components\<rparr>
              else None
      else None))"

definition extract_uses :: "string \<Rightarrow> use_statement list" where
  "extract_uses source = List.map_filter use_line (numbered source)"

text \<open>The chain of tests in the order of the code: the keyword, what ends the name, the kind.\<close>

definition item_rules :: "(string \<times> string \<times> symbol_kind) list" where
  "item_rules =
     [(''fn '', ''(<{;'', KFunction), (''pub fn '', ''(<{;'', KFunction),
      (''struct '', ''<{(;'', KStruct), (''pub struct '', ''<{(;'', KStruct),
      (''enum '', ''<{;'', KEnum), (''pub enum '', ''<{;'', KEnum),
      (''trait '', ''<{;'', KTrait), (''pub trait '', ''<{;'', KTrait),
      (''impl '', ''<{ ;'', KImpl)]"

definition value_rules :: "(string \<times> string \<times> symbol_kind) list" where
  "value_rules =
     [(''const '', '':=;'', KConst), (''pub const '', '':=;'', KConst), (''static '', '':=;'', KStatic),
      (''type '', ''=;<'', KType), (''macro_rules!'', ''{( '', KMacro)]"

definition kind_and_name :: "string \<Rightarrow> (symbol_kind \<times> string) option" where
  "kind_and_name s = (case filter (\<lambda>(kw, _, _). starts_with s kw) (item_rules @ value_rules) of
      [] \<Rightarrow> None
    | (kw, stops, kind) # _ \<Rightarrow>
        (let rest = drop (length kw) s;
             nm = trim (until stops (if kind = KMacro then trim rest else rest))
         in if nm = [] \<or> kw = ''fn '' \<and> starts_with nm ''//'' then None else Some (kind, nm)))"

definition add_symbol :: "nat \<times> string \<Rightarrow> code_symbol list \<Rightarrow> code_symbol list" where
  \<comment> \<open>\<open>if seen.insert((kind, name))\<close>\<close>
  "add_symbol = (\<lambda>(n, s) syms. (case kind_and_name s of
      None \<Rightarrow> syms
    | Some (kind, nm) \<Rightarrow>
        if list_ex (\<lambda>y. sy_kind y = kind \<and> sy_name y = nm) syms then syms
        else syms @ [\<lparr>sy_name = nm, sy_line = n, sy_kind = kind\<rparr>]))"

definition extract_symbols :: "string \<Rightarrow> code_symbol list" where
  "extract_symbols source = sort_key sy_line (fold add_symbol (numbered source) [])"

definition extract_all :: "(string \<Rightarrow> extracted option) \<Rightarrow> string \<Rightarrow> extracted" where
  "extract_all syn source = (case syn source of Some x \<Rightarrow> x
    | None \<Rightarrow> \<lparr>x_modules = extract_modules source, x_uses = extract_uses source, x_symbols = extract_symbols source,
               x_calls = [], x_data_refs = [], x_aliases = [], x_methods = []\<rparr>)"

definition source_hash :: "mem_env \<Rightarrow> string \<Rightarrow> string" where
  \<comment> \<open>\<open>sha256_hex\<close>\<close>
  "source_hash env source = hex_bytes (en_sha env (bytes_of source))"

definition parse_source :: "mem_env \<Rightarrow> (string \<Rightarrow> extracted option) \<Rightarrow> string \<Rightarrow> string \<Rightarrow> parse_result" where
  "parse_source env syn file_path source =
     (let x = extract_all syn source
      in \<lparr>pr_path = file_path, pr_hash = source_hash env source, pr_found = x,
          pr_nodes = length (x_modules x) + length (x_uses x) + length (x_symbols x),
          pr_edges = length (x_uses x) + length (x_modules x)\<rparr>)"

subsection \<open>Ingestion\<close>

type_synonym knowledge = "pending \<times> mem_graph"   \<comment> \<open>the two parts of \<open>MemoryGraph\<close>\<close>

definition line_at :: "string list \<Rightarrow> nat \<Rightarrow> string" where
  "line_at ls n = (if n - 1 < length ls then trim (ls ! (n - 1)) else [])"

fun header_lines :: "nat \<Rightarrow> string list \<Rightarrow> code_symbol list \<Rightarrow> string \<times> nat" where
  \<comment> \<open>the signature lines, at most \<open>cap\<close>, and how many were shown\<close>
  "header_lines cap ls [] = ([], 0)"
| "header_lines 0 ls (s # ss) = ([], 0)"
| "header_lines (Suc cap) ls (s # ss) =
     (if line_at ls (sy_line s) = [] then header_lines (Suc cap) ls ss
      else let (t, k) = header_lines cap ls ss in (line_at ls (sy_line s) @ [CHR 0x0A] @ t, Suc k))"

definition file_header :: "nat \<Rightarrow> string list \<Rightarrow> string \<Rightarrow> code_symbol list \<Rightarrow> string" where
  "file_header cap ls path syms =
     (let (shown_lines, shown) = header_lines cap ls syms
      in ''// '' @ path @ '' '' @ [CHR 0xE2, CHR 0x80, CHR 0x94] @ '' '' @ dec_digits (length syms) @ '' symbols'' @ [CHR 0x0A]
         @ shown_lines
         @ (if shown < length syms
            then ''// '' @ [CHR 0xE2, CHR 0x80, CHR 0xA6] @ '' (+'' @ dec_digits (length syms - shown) @ '' more)'' @ [CHR 0x0A]
            else []))"

definition symbol_body :: "string list \<Rightarrow> nat \<Rightarrow> string" where
  "symbol_body ls line =
     (let (start, last_line) = symbol_span ls line
      in if ls = [] then []
         else let s = min (max start 1) (length ls); e = min (max last_line s) (length ls)
              in join_with [CHR 0x0A] (take (e - (s - 1)) (drop (s - 1) ls)))"

definition put_node :: "mem_env \<Rightarrow> node_id \<Rightarrow> string \<Rightarrow> string \<Rightarrow> node_type \<Rightarrow> node_id \<Rightarrow> f64 \<Rightarrow> edge_type \<Rightarrow> mem_graph \<Rightarrow> mem_graph" where
  \<comment> \<open>\<open>upsert_node\<close>, then the edge from its parent\<close>
  "put_node env i label content ty parent w ety g = snd (add_edge parent i w ety (upsert_node env i label content ty g))"

definition mod_id :: "string \<Rightarrow> string \<Rightarrow> node_id" where
  "mod_id path nm = ''mod:'' @ path @ '':'' @ nm"

fun add_module_tree :: "mem_env \<Rightarrow> string \<Rightarrow> string list \<Rightarrow> node_id \<Rightarrow> module_decl \<Rightarrow> mem_graph \<Rightarrow> mem_graph"
  and add_module_trees :: "mem_env \<Rightarrow> string \<Rightarrow> string list \<Rightarrow> node_id \<Rightarrow> module_decl list \<Rightarrow> mem_graph \<Rightarrow> mem_graph" where
  "add_module_tree env path ls parent (ModuleDecl nm line _ children) g =
     add_module_trees env path ls (mod_id path nm) children
       (put_node env (mod_id path nm) nm (line_at ls line) Module parent (f64_rat 85 100) Contains g)"
| "add_module_trees env path ls parent [] g = g"
| "add_module_trees env path ls parent (c # cs) g =
     add_module_trees env path ls parent cs (add_module_tree env path ls parent c g)"

definition ingest_module :: "mem_env \<Rightarrow> string \<Rightarrow> string list \<Rightarrow> module_decl \<Rightarrow> mem_graph \<Rightarrow> mem_graph" where
  "ingest_module env path ls md g =
     add_module_trees env path ls (mod_id path (md_name md)) (md_children md)
       (put_node env (mod_id path (md_name md)) (md_name md) (line_at ls (md_line md)) Module (''file:'' @ path)
          (f64_rat 9 10) Contains g)"

definition ingest_use :: "mem_env \<Rightarrow> string \<Rightarrow> string list \<Rightarrow> use_statement \<Rightarrow> mem_graph \<Rightarrow> mem_graph" where
  "ingest_use env path ls u g =
     (let use_id = ''use:'' @ path @ '':'' @ us_path u;
          g1 = put_node env use_id (''use '' @ us_path u) (line_at ls (us_line u)) Symbol (''file:'' @ path)
                 (f64_rat 5 10) DependsOn g
      in case us_components u of
           [] \<Rightarrow> g1
         | root # _ \<Rightarrow> put_node env (''dep:'' @ root) root (''External dependency: '' @ root) Symbol use_id
                         (f64_rat 7 10) DependsOn g1)"

definition ingest_symbol :: "mem_env \<Rightarrow> string \<Rightarrow> string list \<Rightarrow> code_symbol \<Rightarrow> knowledge \<Rightarrow> knowledge" where
  "ingest_symbol env path ls s = (\<lambda>(p, g).
     (if sy_kind s = KStatic \<or> sy_kind s = KConst then mark_data_symbol (sym_of path (sy_name s)) p else p,
      put_node env (sym_of path (sy_name s)) (sy_name s) (symbol_body ls (sy_line s)) Symbol (''file:'' @ path)
        (f64_rat 6 10) Contains g))"

definition hand_over :: "string \<Rightarrow> extracted \<Rightarrow> pending \<Rightarrow> pending" where
  \<comment> \<open>the four pending tables of the file are replaced\<close>
  "hand_over path x p = set_pending_methods path (x_methods x) (set_pending_aliases path (x_aliases x)
     (set_pending_data_refs path (x_data_refs x) (set_pending_calls path (x_calls x) p)))"

definition update_memory_graph :: "mem_env \<Rightarrow> nat \<Rightarrow> parse_result \<Rightarrow> string \<Rightarrow> knowledge \<Rightarrow> knowledge" where
  \<comment> \<open>\<open>cap\<close> is \<open>header_symbol_cap()\<close>, 24 unless the environment says otherwise\<close>
  "update_memory_graph env cap r source = (\<lambda>(p, g).
     (let ls = lines_of source; path = pr_path r; x = pr_found r;
          g1 = upsert_node env (''file:'' @ path) path (file_header cap ls path (x_symbols x)) Module g;
          g2 = fold (ingest_module env path ls) (x_modules x) g1;
          g3 = fold (ingest_use env path ls) (x_uses x) g2;
          (p4, g4) = fold (ingest_symbol env path ls) (x_symbols x) (p, g3)
      in (hand_over path x p4, g4)))"

end
