(* ===== verification/ParserFacts.thy ===== *)
theory ParserFacts
  imports Parser GraphReach ResolveFacts
begin

text \<open>
  What parsing and ingestion promise: the symbols of a file are the first occurrences of each
  kind and name, and ingesting a file into a graph with room for it leaves every declared item
  resident and linked to its file.
\<close>

subsection \<open>Extraction\<close>

lemma add_symbol_cases:
  "add_symbol (n, s) syms = (case kind_and_name s of None \<Rightarrow> syms
    | Some kn \<Rightarrow> if kn \<in> (\<lambda>y. (sy_kind y, sy_name y)) ` set syms then syms
        else syms @ [\<lparr>sy_name = snd kn, sy_line = n, sy_kind = fst kn\<rparr>])"
  by (auto simp: add_symbol_def list_ex_iff image_iff split: option.splits)

definition first_hit :: "(nat \<times> string) list \<Rightarrow> code_symbol \<Rightarrow> bool" where
  \<comment> \<open>the symbol is declared on its line, and no earlier line declares that kind and name\<close>
  "first_hit ls y \<longleftrightarrow> (\<exists>i < length ls. fst (ls ! i) = sy_line y \<and> kind_and_name (snd (ls ! i)) = Some (sy_kind y, sy_name y)
     \<and> (\<forall>j < i. kind_and_name (snd (ls ! j)) \<noteq> Some (sy_kind y, sy_name y)))"

lemma first_hit_snoc:
  "first_hit (ls @ [(n, s)]) y \<longleftrightarrow> first_hit ls y
    \<or> sy_line y = n \<and> kind_and_name s = Some (sy_kind y, sy_name y)
       \<and> (\<forall>l \<in> set ls. kind_and_name (snd l) \<noteq> Some (sy_kind y, sy_name y))"
  unfolding first_hit_def by (auto simp: nth_append less_Suc_eq all_set_conv_all_nth)

lemma first_hit_declared: "kn \<in> (\<lambda>y. (sy_kind y, sy_name y)) ` {y. first_hit ls y} \<longleftrightarrow> (\<exists>l \<in> set ls. kind_and_name (snd l) = Some kn)"
proof
  assume "\<exists>l \<in> set ls. kind_and_name (snd l) = Some kn"
  then obtain i where i: "i < length ls" "kind_and_name (snd (ls ! i)) = Some kn" by (auto simp: in_set_conv_nth)
  define k where "k = (LEAST i. i < length ls \<and> kind_and_name (snd (ls ! i)) = Some kn)"
  have k: "k < length ls \<and> kind_and_name (snd (ls ! k)) = Some kn" unfolding k_def by (rule LeastI) (use i in blast)
  have "kind_and_name (snd (ls ! j)) \<noteq> Some kn" if "j < k" for j
    using not_less_Least [of j "\<lambda>i. i < length ls \<and> kind_and_name (snd (ls ! i)) = Some kn"] that k
    by (auto simp: k_def [symmetric])
  with k have "first_hit ls \<lparr>sy_name = snd kn, sy_line = fst (ls ! k), sy_kind = fst kn\<rparr>"
    unfolding first_hit_def by auto
  then show "kn \<in> (\<lambda>y. (sy_kind y, sy_name y)) ` {y. first_hit ls y}" by (force simp: image_iff)
qed (auto simp: first_hit_def)

lemma fold_add_symbol:
  "set (fold add_symbol ls []) = {y. first_hit ls y} \<and> distinct (map (\<lambda>y. (sy_kind y, sy_name y)) (fold add_symbol ls []))"
proof (induction ls rule: rev_induct)
  case Nil
  then show ?case by (simp add: first_hit_def)
next
  case (snoc l ls)
  obtain n s where l: "l = (n, s)" by (cases l)
  let ?f = "fold add_symbol ls []"
  have ih: "set ?f = {y. first_hit ls y}" "distinct (map (\<lambda>y. (sy_kind y, sy_name y)) ?f)" using snoc by auto
  show ?case
  proof (cases "kind_and_name s")
    case None
    then show ?thesis using ih by (simp add: l add_symbol_cases first_hit_snoc)
  next
    case (Some kn)
    have seen: "kn \<in> (\<lambda>y. (sy_kind y, sy_name y)) ` set ?f \<longleftrightarrow> (\<exists>l \<in> set ls. kind_and_name (snd l) = Some kn)"
      using first_hit_declared ih(1) by simp
    show ?thesis
    proof (cases "kn \<in> (\<lambda>y. (sy_kind y, sy_name y)) ` set ?f")
      case True
      then have "first_hit (ls @ [(n, s)]) y \<longleftrightarrow> first_hit ls y" for y
        using Some seen by (auto simp: first_hit_snoc)
      then show ?thesis using True Some ih by (simp add: l add_symbol_cases)
    next
      case False
      let ?y = "\<lparr>sy_name = snd kn, sy_line = n, sy_kind = fst kn\<rparr>"
      have "first_hit (ls @ [(n, s)]) y \<longleftrightarrow> first_hit ls y \<or> y = ?y" for y
        using Some seen False by (auto simp: first_hit_snoc)
      then show ?thesis using False Some ih by (auto simp: l add_symbol_cases)
    qed
  qed
qed

text \<open>
  The heuristic parser finds each declaration once: its symbols are exactly the first
  occurrences of each kind and name the line rules recognise, with their line numbers, in the
  order of the file.
\<close>

theorem extract_symbols_exact:
  "set (extract_symbols source) = {y. first_hit (numbered source) y}
    \<and> distinct (map (\<lambda>y. (sy_kind y, sy_name y)) (extract_symbols source))
    \<and> sorted (map sy_line (extract_symbols source))"
proof -
  have "distinct (map (\<lambda>y. (sy_kind y, sy_name y)) xs) \<Longrightarrow> distinct (map (\<lambda>y. (sy_kind y, sy_name y)) (sort_key sy_line xs))"
    for xs :: "code_symbol list"
    by (simp add: distinct_map)
  then show ?thesis using fold_add_symbol [of "numbered source"] by (simp add: extract_symbols_def)
qed

text \<open>
  A public static is invisible to the heuristic parser although a public constant and a private
  static are not, so it can never become the target of a data-flow edge.
\<close>

theorem pub_static_missed:
  "extract_symbols ''pub static N: u8 = 1;'' = []
    \<and> extract_symbols ''static N: u8 = 1;'' = [\<lparr>sy_name = ''N'', sy_line = 1, sy_kind = KStatic\<rparr>]
    \<and> extract_symbols ''pub const N: u8 = 1;'' = [\<lparr>sy_name = ''N'', sy_line = 1, sy_kind = KConst\<rparr>]"
  by code_simp

subsection \<open>Ingestion\<close>

definition index_of_graph :: "mem_graph \<Rightarrow> edge_key list \<times> nat" where
  "index_of_graph g = (g_edge_set g, g_clock g)"

lemma index_with_husks: "index_of_graph (snd (with_husks f z g)) = index_of_graph g"
  by (auto simp: with_husks_def index_of_graph_def Let_def split: option.splits prod.splits)

lemma index_deep_get: "index_of_graph (snd (deep_get env i g)) = index_of_graph g"
  using index_with_husks [of "hs_get i" "Inr None" g]
  by (auto simp: deep_get_def split: prod.splits sum.splits option.splits)

lemma index_release: "index_of_graph (release_content_blob_if_orphan h g) = index_of_graph g"
  "index_of_graph (release_blob_if_orphan env h g) = index_of_graph g"
  by (auto simp: release_content_blob_if_orphan_def release_blob_if_orphan_def spill_delete_def index_of_graph_def
      split: option.splits prod.splits)

lemma index_fold_radj: "index_of_graph (fold (graph_radj_del i) js g) = index_of_graph g"
  by (induction js arbitrary: g)
    (auto simp: graph_radj_del_def with_radj_def index_of_graph_def Let_def split: option.splits prod.splits)

lemma index_forget: "index_of_graph (forget_cold_shadow env i g) = index_of_graph g"
proof -
  define p1 where "p1 = (case map_of (g_cold g) i of
      Some old \<Rightarrow>
        (let ga = g\<lparr>g_cold := om_remove i (g_cold g)\<rparr>;
             gb = (case cn_spill old of Some (h, _) \<Rightarrow> release_content_blob_if_orphan h ga | None \<Rightarrow> ga)
         in (map (other_end i) (cn_edges old), gb))
    | None \<Rightarrow> ([], g))"
  obtain os1 g1 where p1': "p1 = (os1, g1)" by (cases p1)
  obtain husk g2 where d: "deep_get env i g1 = (husk, g2)" by (cases "deep_get env i g1")
  define p3 where "p3 = (case husk of
      Some hk \<Rightarrow>
        (let (_, ga) = with_husks (hs_delete i) (Inr ()) g2
         in (unpack_adj (dh_adj hk), release_blob_if_orphan env (fst (dh_body hk)) ga))
    | None \<Rightarrow> ([], g2))"
  obtain os2 g3 where p3': "p3 = (os2, g3)" by (cases p3)
  have "index_of_graph (g\<lparr>g_cold := m\<rparr>) = index_of_graph g" for m by (simp add: index_of_graph_def)
  then have "index_of_graph g1 = index_of_graph g"
    using p1' index_release(1) by (auto simp: p1_def Let_def split: option.splits)
  moreover have "index_of_graph g2 = index_of_graph g1" using index_deep_get [of env i g1] d by simp
  moreover have "index_of_graph g3 = index_of_graph g2"
    using p3' index_with_husks [of "hs_delete i" "Inr ()" g2] index_release(2)
    by (auto simp: p3_def Let_def split: option.splits prod.splits)
  moreover have "forget_cold_shadow env i g = fold (graph_radj_del i) (os1 @ os2) g3"
    unfolding forget_cold_shadow_def Let_def p1_def [unfolded Let_def, symmetric] p1' prod.case d
      p3_def [unfolded Let_def, symmetric] p3' ..
  ultimately show ?thesis using index_fold_radj by simp
qed

definition sound :: "mem_graph \<Rightarrow> bool" where
  "sound g \<longleftrightarrow> graph_ok g \<and> synced g"

definition room :: "nat \<Rightarrow> mem_graph \<Rightarrow> bool" where
  "room k g \<longleftrightarrow> length (g_nodes g) + k \<le> g_max g"

abbreviation keys_of :: "mem_graph \<Rightarrow> edge_key set" where
  "keys_of g \<equiv> edge_key ` set (g_edges g)"

definition grown :: "nat \<Rightarrow> node_id set \<Rightarrow> edge_key set \<Rightarrow> mem_graph \<Rightarrow> mem_graph \<Rightarrow> bool" where
  \<comment> \<open>at most so many nodes more, these nodes and these edges among them, and none lost\<close>
  "grown k ns ks g g' \<longleftrightarrow> sound g' \<and> g_max g' = g_max g \<and> length (g_nodes g') \<le> length (g_nodes g) + k
     \<and> (\<forall>i. resident g i \<or> i \<in> ns \<longrightarrow> resident g' i) \<and> keys_of g \<union> ks \<subseteq> keys_of g'"

lemma grown_refl: "sound g \<Longrightarrow> grown 0 {} {} g g"
  by (simp add: grown_def)

lemma grown_trans:
  "grown k ns ks g g1 \<Longrightarrow> grown k' ns' ks' g1 g2 \<Longrightarrow> grown (k + k') (ns \<union> ns') (ks \<union> ks') g g2"
proof -
  assume a: "grown k ns ks g g1" and b: "grown k' ns' ks' g1 g2"
  have "keys_of g \<union> ks \<subseteq> keys_of g1" "keys_of g1 \<union> ks' \<subseteq> keys_of g2" using a b unfolding grown_def by blast+
  then have "keys_of g \<union> (ks \<union> ks') \<subseteq> keys_of g2" by blast
  then show ?thesis using a b unfolding grown_def by simp
qed

lemma grown_room: "grown k ns ks g g' \<Longrightarrow> room (k + l) g \<Longrightarrow> room l g'"
  by (simp add: grown_def room_def)

lemma grown_resident: "grown k ns ks g g' \<Longrightarrow> resident g i \<or> i \<in> ns \<Longrightarrow> resident g' i"
  unfolding grown_def by blast

lemma grown_sound: "grown k ns ks g g' \<Longrightarrow> sound g'"
  by (simp add: grown_def)

lemma grown_upsert:
  assumes "sound g" "room 1 g"
  shows "grown 1 {i} {} g (upsert_node env i label content ty g)"
proof -
  let ?f = "forget_cold_shadow env i g"
  have c: "calm g ?f" by (rule forget_shadow_calm)
  have f: "g_nodes ?f = g_nodes g" "g_edges ?f = g_edges g" "g_max ?f = g_max g" using c by (simp_all add: calm_def)
  have ix: "g_edge_set ?f = g_edge_set g" using index_forget [of env i g] by (simp add: index_of_graph_def)
  have ok: "graph_ok g" "synced g" using assms(1) by (simp_all add: sound_def)
  obtain n where u: "upsert_node env i label content ty g = enforce_paging env (?f\<lparr>g_nodes := om_insert i n (g_nodes g)\<rparr>)"
    unfolding upsert_node_def Let_def f(1) by blast
  let ?g = "?f\<lparr>g_nodes := om_insert i n (g_nodes g)\<rparr>"
  have len: "length (om_insert i n (g_nodes g)) \<le> Suc (length (g_nodes g))" by (rule length_om_insert_le)
  then have e: "enforce_paging env ?g = ?g" using assms(2) by (simp add: enforce_paging_def room_def f)
  have "graph_ok ?f" by (rule graph_ok_calm [OF ok(1) c])
  then have "graph_ok ?g"
    using f by (auto simp: graph_ok_def list_all_iff intro: inv_intros)
  moreover have "synced ?g" using ok(2) f ix by (simp add: synced_def)
  ultimately show ?thesis using len f by (simp add: u e grown_def sound_def)
qed

lemma grown_edge:
  assumes "sound g" "resident g s" "resident g d"
  shows "grown 0 {} {(s, d, ty)} g (snd (add_edge s d w ty g))"
proof -
  obtain ok g' where a: "add_edge s d w ty g = (ok, g')" by (cases "add_edge s d w ty g")
  note r = add_edge_synced [OF _ assms(2,3) a]
  have "graph_ok g'" "g_max g' = g_max g" using add_edge_ok [of g s d w ty] assms(1) a by (simp_all add: sound_def)
  moreover have "keys_of g' = insert (s, d, ty) (keys_of g)"
    using r(1) assms(1) by (auto simp: sound_def append_link_def)
  ultimately show ?thesis using r(2,4) assms(1) by (simp add: a grown_def sound_def)
qed

lemma grown_put:
  assumes "sound g" "room 1 g" "resident g parent"
  shows "grown 1 {i} {(parent, i, ety)} g (put_node env i label content ty parent w ety g)"
proof -
  note u = grown_upsert [OF assms(1,2), of i env label content ty]
  let ?u = "upsert_node env i label content ty g"
  have "grown 0 {} {(parent, i, ety)} ?u (snd (add_edge parent i w ety ?u))"
    by (rule grown_edge [OF grown_sound [OF u]]) (use grown_resident [OF u] assms(3) in auto)
  from grown_trans [OF u this] show ?thesis by (simp add: put_node_def)
qed

lemma grown_fold:
  assumes step: "\<And>x g. x \<in> set xs \<Longrightarrow> sound g \<Longrightarrow> room (k x) g \<Longrightarrow> resident g root \<Longrightarrow> grown (k x) (ns x) (ks x) g (f x g)"
    and "sound g" "room (sum_list (map k xs)) g" "resident g root"
  shows "grown (sum_list (map k xs)) (\<Union>x \<in> set xs. ns x) (\<Union>x \<in> set xs. ks x) g (fold f xs g)"
  using assms
proof (induction xs arbitrary: g)
  case Nil
  then show ?case using grown_refl by simp
next
  case (Cons x xs)
  have "room (k x) g" using Cons.prems(3) by (simp add: room_def)
  then have s: "grown (k x) (ns x) (ks x) g (f x g)" using Cons.prems by simp
  have "grown (sum_list (map k xs)) (\<Union>x \<in> set xs. ns x) (\<Union>x \<in> set xs. ks x) (f x g) (fold f xs (f x g))"
  proof (rule Cons.IH)
    show "room (sum_list (map k xs)) (f x g)" by (rule grown_room [OF s]) (use Cons.prems(3) in simp)
    show "resident (f x g) root" by (rule grown_resident [OF s]) (use Cons.prems(4) in simp)
  qed (use Cons.prems(1) grown_sound [OF s] in auto)
  from grown_trans [OF s this] show ?case by simp
qed

fun module_count :: "module_decl \<Rightarrow> nat" where
  "module_count (ModuleDecl nm line pub children) = Suc (sum_list (map module_count children))"

lemma grown_modules:
  "sound g \<Longrightarrow> room (module_count c) g \<Longrightarrow> resident g parent \<Longrightarrow>
     grown (module_count c) {mod_id path (md_name c)} {(parent, mod_id path (md_name c), Contains)} g
       (add_module_tree env path ls parent c g)"
  "sound g \<Longrightarrow> room (sum_list (map module_count cs)) g \<Longrightarrow> resident g parent \<Longrightarrow>
     grown (sum_list (map module_count cs)) {} {} g (add_module_trees env path ls parent cs g)"
proof (induction env path ls parent c g and env path ls parent cs g rule: add_module_tree_add_module_trees.induct)
  case (1 env path ls parent nm line pub children g)
  let ?p = "put_node env (mod_id path nm) nm (line_at ls line) Module parent (f64_rat 85 100) Contains g"
  have s: "grown 1 {mod_id path nm} {(parent, mod_id path nm, Contains)} g ?p"
    by (rule grown_put) (use 1(2-) in \<open>simp_all add: room_def\<close>)
  have "grown (sum_list (map module_count children)) {} {} ?p
     (add_module_trees env path ls (mod_id path nm) children ?p)"
    by (rule 1(1) [OF grown_sound [OF s] grown_room [OF s] grown_resident [OF s]]) (use 1(3) in simp_all)
  from grown_trans [OF s this] show ?case by simp
next
  case (2 env path ls parent g)
  then show ?case using grown_refl by simp
next
  case (3 env path ls parent c cs g)
  have s: "grown (module_count c) {mod_id path (md_name c)} {(parent, mod_id path (md_name c), Contains)} g
       (add_module_tree env path ls parent c g)"
    by (rule 3(1)) (use 3(3-) in \<open>simp_all add: room_def\<close>)
  have "grown (sum_list (map module_count cs)) {} {} (add_module_tree env path ls parent c g)
      (add_module_trees env path ls parent cs (add_module_tree env path ls parent c g))"
    by (rule 3(2) [OF grown_sound [OF s] grown_room [OF s] grown_resident [OF s]]) (use 3(4,5) in simp_all)
  from grown_trans [OF s this] show ?case by (auto simp: grown_def)
qed

definition use_count :: "use_statement \<Rightarrow> nat" where
  "use_count u = (if us_components u = [] then 1 else 2)"

definition file_nodes :: "extracted \<Rightarrow> nat" where
  \<comment> \<open>what a file may add: itself, its modules, its imports with their crates, its symbols\<close>
  "file_nodes x = 1 + sum_list (map module_count (x_modules x)) + sum_list (map use_count (x_uses x)) + length (x_symbols x)"

lemma grown_ingest_module:
  assumes "sound g" "room (module_count md) g" "resident g (''file:'' @ path)"
  shows "grown (module_count md) {mod_id path (md_name md)} {(''file:'' @ path, mod_id path (md_name md), Contains)} g
    (ingest_module env path ls md g)"
proof -
  obtain nm line pub ch where md: "md = ModuleDecl nm line pub ch" by (cases md)
  let ?p = "put_node env (mod_id path nm) nm (line_at ls line) Module (''file:'' @ path) (f64_rat 9 10) Contains g"
  have s: "grown 1 {mod_id path nm} {(''file:'' @ path, mod_id path nm, Contains)} g ?p"
    by (rule grown_put) (use assms md in \<open>simp_all add: room_def\<close>)
  have "grown (sum_list (map module_count ch)) {} {} ?p (add_module_trees env path ls (mod_id path nm) ch ?p)"
    by (rule grown_modules(2) [OF grown_sound [OF s] grown_room [OF s] grown_resident [OF s]]) (use assms(2) md in simp_all)
  from grown_trans [OF s this] show ?thesis by (simp add: md ingest_module_def)
qed

definition use_id :: "string \<Rightarrow> use_statement \<Rightarrow> node_id" where
  "use_id path u = ''use:'' @ path @ '':'' @ us_path u"

lemma grown_ingest_use:
  assumes "sound g" "room (use_count u) g" "resident g (''file:'' @ path)"
  shows "grown (use_count u) {use_id path u} {(''file:'' @ path, use_id path u, DependsOn)} g (ingest_use env path ls u g)"
proof -
  let ?p = "put_node env (use_id path u) (''use '' @ us_path u) (line_at ls (us_line u)) Symbol (''file:'' @ path) (f64_rat 5 10) DependsOn g"
  have r: "room 1 g" using assms(2) by (simp add: room_def use_count_def split: if_splits)
  have s: "grown 1 {use_id path u} {(''file:'' @ path, use_id path u, DependsOn)} g ?p"
    by (rule grown_put [OF assms(1) r assms(3)])
  show ?thesis
  proof (cases "us_components u")
    case Nil
    then show ?thesis using s by (simp add: ingest_use_def use_count_def use_id_def Let_def)
  next
    case (Cons root cs)
    let ?q = "put_node env (''dep:'' @ root) root (''External dependency: '' @ root) Symbol (use_id path u) (f64_rat 7 10) DependsOn ?p"
    have "grown 1 {''dep:'' @ root} {(use_id path u, ''dep:'' @ root, DependsOn)} ?p ?q"
      by (rule grown_put [OF grown_sound [OF s] grown_room [OF s] grown_resident [OF s]])
        (use assms(2) Cons in \<open>simp_all add: use_count_def numeral_2_eq_2\<close>)
    from grown_trans [OF s this] show ?thesis
      unfolding grown_def by (simp add: ingest_use_def use_count_def use_id_def Let_def Cons)
  qed
qed

lemma ingest_symbols_graph:
  "snd (fold (ingest_symbol env path ls) ss (p, g)) = fold (\<lambda>s. put_node env (sym_of path (sy_name s)) (sy_name s)
     (symbol_body ls (sy_line s)) Symbol (''file:'' @ path) (f64_rat 6 10) Contains) ss g"
  by (induction ss arbitrary: p g) (simp_all add: ingest_symbol_def)


subsection \<open>Instances\<close>

definition one_fn :: extracted where
  "one_fn = extract_all (\<lambda>_. None) ''fn f() {}''"

lemma one_fn_eq: "one_fn = \<lparr>x_modules = [], x_uses = [], x_symbols = [\<lparr>sy_name = ''f'', sy_line = 1, sy_kind = KFunction\<rparr>],
    x_calls = [], x_data_refs = [], x_aliases = [], x_methods = []\<rparr>"
  by code_simp

lemma new_graph_sound: "graph_ok (graph_new t n d)" "synced (graph_new t n d)"
  by (simp_all add: graph_new_def graph_ok_def synced_def)


lemma symbol_span_in_file_witness:
  "symbol_span [''fn f() {'', ''}''] 1 = (1, 2) \<and> (let (a, b) = symbol_span [''fn f() {'', ''}''] 9 in 1 \<le> a \<and> b \<le> 2)"
proof
  show "symbol_span [''fn f() {'', ''}''] 1 = (1, 2)" by code_simp
  show "let (a, b) = symbol_span [''fn f() {'', ''}''] 9 in 1 \<le> a \<and> b \<le> 2"
    using symbol_span_in_file [of "[''fn f() {'', ''}'']" 9] by (auto simp: Let_def)
qed

lemma put_node_content:
  assumes "sound g" "room 1 g"
  shows "map_option n_content (map_of (g_nodes (put_node env i label content ty parent w ety g)) i) = Some content"
proof -
  have f: "g_nodes (forget_cold_shadow env i g) = g_nodes g" "g_max (forget_cold_shadow env i g) = g_max g"
    using forget_shadow_calm [of g env i] by (simp_all add: calm_def)
  obtain n where u: "upsert_node env i label content ty g
      = enforce_paging env ((forget_cold_shadow env i g)\<lparr>g_nodes := om_insert i n (g_nodes g)\<rparr>)" and n: "n_content n = content"
    unfolding upsert_node_def Let_def f(1) by (cases "map_of (g_nodes g) i") auto
  have "length (om_insert i n (g_nodes g)) \<le> Suc (length (g_nodes g))" by (rule length_om_insert_le)
  then have "g_nodes (upsert_node env i label content ty g) = om_insert i n (g_nodes g)"
    using assms(2) f by (simp add: u enforce_paging_def room_def)
  moreover have "g_nodes (snd (add_edge parent i w ety h)) = g_nodes h" for h by (auto simp: add_edge_def Let_def)
  ultimately show ?thesis using n by (simp add: put_node_def)
qed

definition struct_impl :: string where
  "struct_impl = ''struct A {}'' @ [CHR 0x0A] @ ''impl A {}''"

lemma struct_impl_found:
  "extract_all (\<lambda>_. None) struct_impl = \<lparr>x_modules = [], x_uses = [],
     x_symbols = [\<lparr>sy_name = ''A'', sy_line = 1, sy_kind = KStruct\<rparr>, \<lparr>sy_name = ''A'', sy_line = 2, sy_kind = KImpl\<rparr>],
     x_calls = [], x_data_refs = [], x_aliases = [], x_methods = []\<rparr>"
  "symbol_body (lines_of struct_impl) 1 = ''struct A {}''" "symbol_body (lines_of struct_impl) 2 = ''impl A {}''"
  by code_simp+

text \<open>
  A struct and its impl block share one node: the node id holds the name but not the kind, so
  ingesting a file that declares both leaves the text of the impl block in the node and the text
  of the struct nowhere in the symbol nodes.
\<close>

theorem impl_overwrites_struct:
  "\<forall>env d. map_option n_content (map_of (g_nodes (snd (update_memory_graph env 24
      (parse_source env (\<lambda>_. None) ''a.rs'' struct_impl) struct_impl (pending_empty, graph_new (f64_zero False) 9 d))))
        ''sym:a.rs:A'') = Some ''impl A {}''"
proof (intro allI)
  fix env :: mem_env and d :: disk
  let ?g = "graph_new (f64_zero False) 9 d"
  define g1 where "g1 = upsert_node env (''file:'' @ ''a.rs'') ''a.rs''
    (file_header 24 (lines_of struct_impl) ''a.rs'' [\<lparr>sy_name = ''A'', sy_line = 1, sy_kind = KStruct\<rparr>,
       \<lparr>sy_name = ''A'', sy_line = 2, sy_kind = KImpl\<rparr>]) Module ?g"
  define g2 where "g2 = put_node env (sym_of ''a.rs'' ''A'') ''A'' ''struct A {}'' Symbol (''file:'' @ ''a.rs'') (f64_rat 6 10) Contains g1"
  have snd: "sound ?g" using new_graph_sound by (simp add: sound_def)
  have rm: "room (1 + (1 + 1)) ?g" by (simp add: room_def graph_new_def)
  have s1: "grown 1 {''file:'' @ ''a.rs''} {} ?g g1" unfolding g1_def by (rule grown_upsert [OF snd]) (use rm in \<open>simp add: room_def\<close>)
  note r1 = grown_room [OF s1 rm] and f1 = grown_resident [OF s1]
  have s2: "grown 1 {sym_of ''a.rs'' ''A''} {(''file:'' @ ''a.rs'', sym_of ''a.rs'' ''A'', Contains)} g1 g2"
    unfolding g2_def by (rule grown_put [OF grown_sound [OF s1]]) (use r1 f1 in \<open>simp_all add: room_def\<close>)
  have "snd (update_memory_graph env 24 (parse_source env (\<lambda>_. None) ''a.rs'' struct_impl) struct_impl (pending_empty, ?g))
      = put_node env (sym_of ''a.rs'' ''A'') ''A'' ''impl A {}'' Symbol (''file:'' @ ''a.rs'') (f64_rat 6 10) Contains g2"
    by (simp add: update_memory_graph_def parse_source_def Let_def struct_impl_found struct_impl_found(2) [unfolded One_nat_def] ingest_symbol_def g1_def g2_def)
  moreover have "sym_of ''a.rs'' ''A'' = ''sym:a.rs:A''" by (simp add: sym_of_def)
  ultimately show "map_option n_content (map_of (g_nodes (snd (update_memory_graph env 24
      (parse_source env (\<lambda>_. None) ''a.rs'' struct_impl) struct_impl (pending_empty, ?g)))) ''sym:a.rs:A'') = Some ''impl A {}''"
    using put_node_content [OF grown_sound [OF s2] grown_room [OF s2 r1], of env "sym_of ''a.rs'' ''A''"] by metis
qed

end
