(* ===== verification/Incremental.thy ===== *)
theory Incremental
  imports ParserFacts
begin

text \<open>
  The incremental engine (\<open>src/incremental.rs\<close>): the state it keeps per file, and
  \<open>process_delta\<close>, which replaces the nodes of one file. The clock readings of a call are its
  arguments; the iteration order of the map of current sources is that of the list given.
\<close>

record file_state =
  fs_path :: string
  fs_hash :: string
  fs_parsed_at :: nat
  fs_modules :: nat
  fs_uses :: nat
  fs_symbols :: nat

datatype mutation_op = FileAdded | FileModified | FileRemoved | NoChange

record delta_mutation =
  dm_time :: nat
  dm_path :: string
  dm_op :: mutation_op
  dm_nodes_added :: nat
  dm_nodes_removed :: nat
  dm_edges_added :: nat
  dm_edges_removed :: nat

record engine =
  ig_states :: "(string, file_state) omap"
  ig_log :: "delta_mutation list"

definition engine_new :: engine where
  "engine_new = \<lparr>ig_states = [], ig_log = []\<rparr>"

definition store_file_state :: "nat \<Rightarrow> string \<Rightarrow> string \<Rightarrow> parse_result \<Rightarrow> engine \<Rightarrow> engine" where
  "store_file_state now file_path hash r en = en\<lparr>ig_states := om_insert file_path
     \<lparr>fs_path = file_path, fs_hash = hash, fs_parsed_at = now, fs_modules = length (x_modules (pr_found r)),
      fs_uses = length (x_uses (pr_found r)), fs_symbols = length (x_symbols (pr_found r))\<rparr> (ig_states en)\<rparr>"

definition register_file :: "mem_env \<Rightarrow> (string \<Rightarrow> extracted option) \<Rightarrow> nat \<Rightarrow> string \<Rightarrow> string \<Rightarrow> engine \<Rightarrow> parse_result \<times> engine" where
  "register_file env syn now file_path source en =
     (let r = parse_source env syn file_path source
      in (r, store_file_state now file_path (source_hash env source) r en))"

definition evict_file_nodes :: "mem_env \<Rightarrow> string \<Rightarrow> mem_graph \<Rightarrow> mem_graph" where
  "evict_file_nodes env file_path g = fold (remove_node env) (filter (of_file file_path) (map fst (g_nodes g))) g"

definition delta_op :: "mem_env \<Rightarrow> string option \<Rightarrow> string \<Rightarrow> mutation_op" where
  "delta_op env old new = (case old of
      None \<Rightarrow> FileAdded
    | Some prior \<Rightarrow> if source_hash env prior = source_hash env new then NoChange else FileModified)"

definition reparse :: "mem_env \<Rightarrow> (string \<Rightarrow> extracted option) \<Rightarrow> nat \<Rightarrow> nat \<Rightarrow> string \<Rightarrow> string \<Rightarrow> engine \<times> knowledge \<Rightarrow> engine \<times> knowledge" where
  \<comment> \<open>parse, update the graph, store the state of the file\<close>
  "reparse env syn cap now file_path source = (\<lambda>(en, kb).
     (let r = parse_source env syn file_path source
      in (store_file_state now file_path (source_hash env source) r en, update_memory_graph env cap r source kb)))"

definition apply_delta :: "mem_env \<Rightarrow> (string \<Rightarrow> extracted option) \<Rightarrow> nat \<Rightarrow> nat \<Rightarrow> mutation_op \<Rightarrow> string \<Rightarrow> string
    \<Rightarrow> engine \<times> knowledge \<Rightarrow> engine \<times> knowledge" where
  "apply_delta env syn cap now op file_path source = (\<lambda>(en, p, g).
     (case op of
        FileAdded \<Rightarrow> reparse env syn cap now file_path source (en, p, g)
      | FileModified \<Rightarrow> reparse env syn cap now file_path source (en, p, evict_file_nodes env file_path g)
      | NoChange \<Rightarrow> (en, p, g)
      | FileRemoved \<Rightarrow> (en\<lparr>ig_states := om_remove file_path (ig_states en)\<rparr>, p, evict_file_nodes env file_path g)))"

definition process_delta :: "mem_env \<Rightarrow> (string \<Rightarrow> extracted option) \<Rightarrow> nat \<Rightarrow> nat \<Rightarrow> nat \<Rightarrow> string \<Rightarrow> string option \<Rightarrow> string
    \<Rightarrow> engine \<times> knowledge \<Rightarrow> delta_mutation \<times> engine \<times> knowledge" where
  "process_delta env syn cap timestamp now file_path old new = (\<lambda>(en, p, g).
     (let op = delta_op env old new;
          (en1, p1, g1) = apply_delta env syn cap now op file_path new (en, p, g);
          nb = length (g_nodes g); na = length (g_nodes g1); eb = length (g_edges g); ea = length (g_edges g1);
          mu = \<lparr>dm_time = timestamp, dm_path = file_path, dm_op = op, dm_nodes_added = na - nb, dm_nodes_removed = nb - na,
                 dm_edges_added = ea - eb, dm_edges_removed = eb - ea\<rparr>
      in (mu, en1\<lparr>ig_log := ig_log en1 @ [mu]\<rparr>, p1, g1)))"

definition has_file_changed :: "mem_env \<Rightarrow> string \<Rightarrow> string \<Rightarrow> engine \<Rightarrow> bool" where
  "has_file_changed env file_path new en = (case map_of (ig_states en) file_path of
      Some st \<Rightarrow> fs_hash st \<noteq> source_hash env new
    | None \<Rightarrow> True)"

definition changed_files :: "mem_env \<Rightarrow> (string \<times> string) list \<Rightarrow> engine \<Rightarrow> string list" where
  "changed_files env sources en = map fst (filter (\<lambda>(path, source). has_file_changed env path source en) sources)"

definition get_state :: "string \<Rightarrow> engine \<Rightarrow> file_state option" where
  "get_state file_path en = map_of (ig_states en) file_path"

definition total_mutations :: "engine \<Rightarrow> nat" where
  "total_mutations en = length (ig_log en)"

subsection \<open>Where nodes come from\<close>

abbreviation nodes_of :: "mem_graph \<Rightarrow> node_id set" where
  "nodes_of g \<equiv> {i. resident g i}"

lemma nodes_enforce: "nodes_of (enforce_paging env g) \<subseteq> nodes_of g"
proof (cases "length (g_nodes g) \<le> g_max g")
  case True
  then show ?thesis by (simp add: enforce_paging_def)
next
  case False
  obtain vs g1 where ev: "evictions env g = (vs, g1)" by (cases "evictions env g")
  have n1: "g_nodes g1 = g_nodes g" using cache_eq_fields(1) [OF evictions_spec(1) [OF ev]] .
  have "g_nodes (enforce_paging env g) = g_nodes (fold demote vs g1)"
    using False ev calm_enforce_budgets [of "snd (prune_dangling_edges (fold demote vs g1))" env] prune_fields(1)
    by (simp add: enforce_paging_def calm_def)
  then show ?thesis by (auto simp: fold_demote_nodes n1 om_contains_iff)
qed

lemma nodes_upsert: "nodes_of (upsert_node env i label content ty g) \<subseteq> insert i (nodes_of g)"
proof -
  have f: "g_nodes (forget_cold_shadow env i g) = g_nodes g"
    using forget_shadow_calm [of g env i] by (simp add: calm_def)
  obtain n where u: "upsert_node env i label content ty g
      = enforce_paging env ((forget_cold_shadow env i g)\<lparr>g_nodes := om_insert i n (g_nodes g)\<rparr>)"
    unfolding upsert_node_def Let_def f by blast
  show ?thesis unfolding u using nodes_enforce by fastforce
qed

lemma nodes_add_edge: "g_nodes (snd (add_edge s d w ty g)) = g_nodes g"
  by (auto simp: add_edge_def Let_def)

lemma nodes_put: "nodes_of (put_node env i label content ty parent w ety g) \<subseteq> insert i (nodes_of g)"
  using nodes_upsert [of env i label content ty g] by (simp add: put_node_def nodes_add_edge)

fun module_ids :: "string \<Rightarrow> module_decl \<Rightarrow> node_id set" where
  "module_ids path (ModuleDecl nm line pub children) = insert (mod_id path nm) (\<Union>c \<in> set children. module_ids path c)"

lemma nodes_modules:
  "nodes_of (add_module_tree env path ls parent c g) \<subseteq> nodes_of g \<union> module_ids path c"
  "nodes_of (add_module_trees env path ls parent cs g) \<subseteq> nodes_of g \<union> (\<Union>c \<in> set cs. module_ids path c)"
proof (induction env path ls parent c g and env path ls parent cs g rule: add_module_tree_add_module_trees.induct)
  case (1 env path ls parent nm line pub children g)
  show ?case unfolding add_module_tree.simps module_ids.simps
    using 1 nodes_put [of env "mod_id path nm" nm "line_at ls line" Module parent "f64_rat 85 100" Contains g] by blast
qed auto

lemma nodes_ingest_module: "nodes_of (ingest_module env path ls md g) \<subseteq> nodes_of g \<union> module_ids path md"
  using nodes_modules(2) [of env path ls "mod_id path (md_name md)" "md_children md"]
    nodes_put [of env "mod_id path (md_name md)" "md_name md" "line_at ls (md_line md)" Module "''file:'' @ path" "f64_rat 9 10" Contains g]
  unfolding ingest_module_def by (cases md) (simp, blast)

definition dep_ids :: "use_statement \<Rightarrow> node_id set" where
  "dep_ids u = (\<lambda>root. ''dep:'' @ root) ` set (take 1 (us_components u))"

lemma nodes_ingest_use: "nodes_of (ingest_use env path ls u g) \<subseteq> nodes_of g \<union> insert (use_id path u) (dep_ids u)"
proof (cases "us_components u")
  case Nil
  then have "ingest_use env path ls u g = put_node env (use_id path u) (''use '' @ us_path u) (line_at ls (us_line u))
      Symbol (''file:'' @ path) (f64_rat 5 10) DependsOn g"
    by (simp add: ingest_use_def use_id_def Let_def)
  then show ?thesis
    using nodes_put [of env "use_id path u" "''use '' @ us_path u" "line_at ls (us_line u)" Symbol "''file:'' @ path" "f64_rat 5 10" DependsOn g]
    by (simp only:) blast
next
  case (Cons root cs)
  let ?p = "put_node env (use_id path u) (''use '' @ us_path u) (line_at ls (us_line u)) Symbol (''file:'' @ path) (f64_rat 5 10) DependsOn g"
  have e: "ingest_use env path ls u g = put_node env (''dep:'' @ root) root (''External dependency: '' @ root) Symbol
      (use_id path u) (f64_rat 7 10) DependsOn ?p"
    by (simp add: ingest_use_def use_id_def Let_def Cons)
  have "dep_ids u = {''dep:'' @ root}" by (simp add: dep_ids_def Cons)
  then show ?thesis
    unfolding e using nodes_put [of env "''dep:'' @ root" root "''External dependency: '' @ root" Symbol "use_id path u" "f64_rat 7 10" DependsOn ?p]
      nodes_put [of env "use_id path u" "''use '' @ us_path u" "line_at ls (us_line u)" Symbol "''file:'' @ path" "f64_rat 5 10" DependsOn g]
    by blast
qed

lemma nodes_fold: "(\<And>x g. nodes_of (f x g) \<subseteq> nodes_of g \<union> A x) \<Longrightarrow> nodes_of (fold f xs g) \<subseteq> nodes_of g \<union> (\<Union>x \<in> set xs. A x)"
proof (induction xs arbitrary: g)
  case (Cons x xs)
  show ?case using Cons.IH [OF Cons.prems, of "f x g"] Cons.prems [of x g] by simp blast
qed simp

definition declared_ids :: "parse_result \<Rightarrow> node_id set" where
  \<comment> \<open>every id the ingestion of a file may touch\<close>
  "declared_ids r = insert (''file:'' @ pr_path r) ((\<Union>md \<in> set (x_modules (pr_found r)). module_ids (pr_path r) md)
     \<union> (\<Union>u \<in> set (x_uses (pr_found r)). insert (use_id (pr_path r) u) (dep_ids u))
     \<union> (\<lambda>s. sym_of (pr_path r) (sy_name s)) ` set (x_symbols (pr_found r)))"

lemma nodes_update:
  "nodes_of (snd (update_memory_graph env cap r source (p, g))) \<subseteq> nodes_of g \<union> declared_ids r"
proof -
  define ls where "ls = lines_of source"
  define path where "path = pr_path r"
  define x where "x = pr_found r"
  define g1 where "g1 = upsert_node env (''file:'' @ path) path (file_header cap ls path (x_symbols x)) Module g"
  define g2 where "g2 = fold (ingest_module env path ls) (x_modules x) g1"
  define g3 where "g3 = fold (ingest_use env path ls) (x_uses x) g2"
  have up: "snd (update_memory_graph env cap r source (p, g)) = fold (\<lambda>s. put_node env (sym_of path (sy_name s)) (sy_name s)
     (symbol_body ls (sy_line s)) Symbol (''file:'' @ path) (f64_rat 6 10) Contains) (x_symbols x) g3"
    using ingest_symbols_graph [of env path ls "x_symbols x" p g3]
    by (simp add: update_memory_graph_def Let_def g1_def g2_def g3_def ls_def path_def x_def case_prod_unfold)
  define M where "M = (\<Union>md \<in> set (x_modules x). module_ids path md)"
  define U where "U = (\<Union>u \<in> set (x_uses x). insert (use_id path u) (dep_ids u))"
  define S where "S = (\<Union>s \<in> set (x_symbols x). {sym_of path (sy_name s)})"
  have d: "declared_ids r = {''file:'' @ path} \<union> M \<union> U \<union> S"
    by (auto simp only: declared_ids_def M_def U_def S_def path_def x_def)
  have 1: "nodes_of g1 \<subseteq> nodes_of g \<union> {''file:'' @ path}" unfolding g1_def using nodes_upsert by fastforce
  have 2: "nodes_of g2 \<subseteq> nodes_of g1 \<union> M"
    unfolding g2_def M_def by (rule nodes_fold) (rule nodes_ingest_module)
  have 3: "nodes_of g3 \<subseteq> nodes_of g2 \<union> U"
    unfolding g3_def U_def by (rule nodes_fold) (rule nodes_ingest_use)
  have 4: "nodes_of (snd (update_memory_graph env cap r source (p, g))) \<subseteq> nodes_of g3 \<union> S"
    unfolding up S_def
  proof (rule nodes_fold)
    fix s g
    show "nodes_of (put_node env (sym_of path (sy_name s)) (sy_name s) (symbol_body ls (sy_line s)) Symbol (''file:'' @ path)
        (f64_rat 6 10) Contains g) \<subseteq> nodes_of g \<union> {sym_of path (sy_name s)}"
      using nodes_put [of env "sym_of path (sy_name s)" "sy_name s" "symbol_body ls (sy_line s)" Symbol "''file:'' @ path" "f64_rat 6 10" Contains g]
      by blast
  qed
  show ?thesis unfolding d by (rule order_trans [OF 4]) (use 1 2 3 in blast)
qed

subsection \<open>What a delta does\<close>

lemma nodes_remove: "nodes_of (remove_node env i g) = nodes_of g - {i}"
proof -
  have "g_nodes (forget_cold_shadow env i (g\<lparr>g_nodes := om_remove i (g_nodes g)\<rparr>)) = om_remove i (g_nodes g)"
    using forget_shadow_calm [of "g\<lparr>g_nodes := om_remove i (g_nodes g)\<rparr>" env i] by (simp add: calm_def)
  then have "g_nodes (remove_node env i g) = om_remove i (g_nodes g)" by (simp add: remove_node_def Let_def)
  then show ?thesis by auto
qed

lemma nodes_evict: "nodes_of (evict_file_nodes env path g) = {i \<in> nodes_of g. \<not> of_file path i}"
proof -
  have "nodes_of (fold (remove_node env) is g) = nodes_of g - set is" for "is" g
    by (induction "is" arbitrary: g) (auto simp: nodes_remove)
  then show ?thesis by (auto simp: evict_file_nodes_def om_contains_iff)
qed

lemma hash_after_store [simp]:
  "map_of (ig_states (store_file_state now path h r en)) path = Some \<lparr>fs_path = path, fs_hash = h, fs_parsed_at = now,
     fs_modules = length (x_modules (pr_found r)), fs_uses = length (x_uses (pr_found r)), fs_symbols = length (x_symbols (pr_found r))\<rparr>"
  by (simp add: store_file_state_def)

text \<open>
  C27. A modified file leaves nothing stale in the resident graph: after \<open>process_delta\<close> every
  resident node of the file is one the new text declares, and every other resident node was
  resident before or is an external dependency the new text names.
\<close>

theorem delta_replaces_file:
  assumes "delta_op env (Some old) new = FileModified"
    and "process_delta env syn cap t now path (Some old) new (en, p, g) = (mu, en', p', g')"
  shows "\<forall>i. resident g' i \<longrightarrow> i \<in> declared_ids (parse_source env syn path new) \<or> \<not> of_file path i \<and> resident g i"
proof -
  let ?r = "parse_source env syn path new"
  obtain q h where u: "update_memory_graph env cap ?r new (p, evict_file_nodes env path g) = (q, h)"
    by (cases "update_memory_graph env cap ?r new (p, evict_file_nodes env path g)")
  have "g' = h"
    using assms u by (auto simp: process_delta_def apply_delta_def reparse_def Let_def)
  then have "nodes_of g' \<subseteq> {i \<in> nodes_of g. \<not> of_file path i} \<union> declared_ids ?r"
    using nodes_update [of env cap ?r new p "evict_file_nodes env path g"] u by (simp add: nodes_evict)
  then show ?thesis by auto
qed

text \<open>
  Change detection closes the loop: after a file was added or modified, the same text counts as
  unchanged and any text with another hash as changed; after a no-change delta the graph, its
  pending tables and the recorded states are what they were.
\<close>

theorem delta_change_detection:
  assumes "process_delta env syn cap t now path old new (en, p, g) = (mu, en', p', g')"
  shows "dm_op mu \<noteq> FileRemoved
    \<and> (dm_op mu = NoChange \<longrightarrow> p' = p \<and> g' = g \<and> ig_states en' = ig_states en)
    \<and> (dm_op mu \<noteq> NoChange \<longrightarrow> (\<forall>text'. has_file_changed env path text' en' \<longleftrightarrow> source_hash env text' \<noteq> source_hash env new))
    \<and> total_mutations en' = Suc (total_mutations en)"
proof -
  obtain en1 p1 g1 where a: "apply_delta env syn cap now (delta_op env old new) path new (en, p, g) = (en1, p1, g1)"
    by (cases "apply_delta env syn cap now (delta_op env old new) path new (en, p, g)")
  have r: "dm_op mu = delta_op env old new" "en' = en1\<lparr>ig_log := ig_log en1 @ [mu]\<rparr>" "p' = p1" "g' = g1"
    using assms a by (auto simp: process_delta_def Let_def)
  have l: "ig_log en1 = ig_log en"
    using a by (auto simp: apply_delta_def reparse_def store_file_state_def Let_def split: mutation_op.splits)
  have nr: "delta_op env old new \<noteq> FileRemoved" by (simp add: delta_op_def split: option.splits)
  have same: "delta_op env old new = NoChange \<longrightarrow> p1 = p \<and> g1 = g \<and> en1 = en"
    and new: "delta_op env old new \<noteq> NoChange \<longrightarrow> (\<exists>r. en1 = store_file_state now path (source_hash env new) r en)"
    using a nr by (auto simp: apply_delta_def reparse_def Let_def split: mutation_op.splits)
  show ?thesis
  proof (cases "delta_op env old new = NoChange")
    case True
    with same r l nr show ?thesis by (simp add: total_mutations_def)
  next
    case False
    then obtain q where q: "en1 = store_file_state now path (source_hash env new) q en" using new by blast
    have "has_file_changed env path text' en' \<longleftrightarrow> source_hash env text' \<noteq> source_hash env new" for text'
      unfolding r(2) q has_file_changed_def by (simp, metis)
    with False r l nr show ?thesis by (simp add: total_mutations_def)
  qed
qed

text \<open>
  The eviction of a file misses its cold nodes: a node of the file that paging had demoted is
  still in the cold tier after \<open>evict_file_nodes\<close>, with its old text, ready to be paged in.
\<close>

theorem evict_misses_cold:
  assumes "\<not> resident g i"
  shows "map_of (g_cold (evict_file_nodes env path g)) i = map_of (g_cold g) i"
proof -
  have one: "map_of (g_cold (remove_node env j h)) i = map_of (g_cold h) i" if "j \<noteq> i" for j h
  proof -
    define g0 where "g0 = h\<lparr>g_nodes := om_remove j (g_nodes h)\<rparr>"
    define p1 where "p1 = (case map_of (g_cold g0) j of
        Some old \<Rightarrow>
          (let ga = g0\<lparr>g_cold := om_remove j (g_cold g0)\<rparr>;
               gb = (case cn_spill old of Some (h, _) \<Rightarrow> release_content_blob_if_orphan h ga | None \<Rightarrow> ga)
           in (map (other_end j) (cn_edges old), gb))
      | None \<Rightarrow> ([], g0))"
    obtain os1 g1 where p1': "p1 = (os1, g1)" by (cases p1)
    obtain husk g2 where d: "deep_get env j g1 = (husk, g2)" by (cases "deep_get env j g1")
    define p3 where "p3 = (case husk of
        Some hk \<Rightarrow>
          (let (_, ga) = with_husks (hs_delete j) (Inr ()) g2
           in (unpack_adj (dh_adj hk), release_blob_if_orphan env (fst (dh_body hk)) ga))
      | None \<Rightarrow> ([], g2))"
    obtain os2 g3 where p3': "p3 = (os2, g3)" by (cases p3)
    have "map_of (g_cold g1) i = map_of (g_cold g0) i"
      using p1' that core_fields(3) [OF core_release(1)] by (auto simp: p1_def Let_def split: option.splits)
    moreover have "g_cold g2 = g_cold g1" using core_fields(3) [OF core_deep_get [of env j g1]] d by simp
    moreover have "core g3 = core g2"
      using p3' core_with_husks [of "hs_delete j" "Inr ()" g2] core_release(2)
      by (auto simp: p3_def Let_def split: option.splits prod.splits)
    moreover have "forget_cold_shadow env j g0 = fold (graph_radj_del j) (os1 @ os2) g3"
      unfolding forget_cold_shadow_def Let_def p1_def [unfolded Let_def, symmetric] p1' prod.case d
        p3_def [unfolded Let_def, symmetric] p3' ..
    ultimately show ?thesis
      using core_fields(3) [OF core_fold_radj(2) [of j "os1 @ os2" g3]] core_fields(3) [of g3 g2]
      by (simp add: remove_node_def Let_def g0_def)
  qed
  have "i \<notin> set is \<Longrightarrow> map_of (g_cold (fold (remove_node env) is h)) i = map_of (g_cold h) i" for "is" h
    by (induction "is" arbitrary: h) (auto simp: one)
  moreover have "i \<notin> set (filter (of_file path) (map fst (g_nodes g)))" using assms by (auto simp: om_contains_iff)
  ultimately show ?thesis unfolding evict_file_nodes_def by blast
qed

subsection \<open>Instances\<close>

text \<open>A hash that is injective, so that two texts differ in it.\<close>

definition plain_hash :: "mem_env \<Rightarrow> mem_env" where
  "plain_hash env = env\<lparr>en_sha := \<lambda>b. b\<rparr>"

lemma plain_hash_of: "source_hash (plain_hash env) s = hex_bytes (bytes_of s)"
  by (simp add: source_hash_def plain_hash_def)

lemma hashes_differ: "hex_bytes (bytes_of ''fn f() {}'') \<noteq> hex_bytes (bytes_of ''fn g() {}'')"
  by code_simp

definition two_fns :: "mem_env \<Rightarrow> disk \<Rightarrow> knowledge" where
  "two_fns env d = snd (snd (process_delta (plain_hash env) (\<lambda>_. None) 24 0 0 ''a.rs'' None ''fn f() {}''
     (engine_new, pending_empty, graph_new (f64_zero False) 9 d)))"

lemma delta_replaces_file_witness:
  "\<forall>env d. \<not> resident (snd (snd (snd (process_delta (plain_hash env) (\<lambda>_. None) 24 0 0 ''a.rs'' (Some ''fn f() {}'') ''fn g() {}''
     (engine_new, two_fns env d))))) ''sym:a.rs:f''"
proof (intro allI)
  fix env d
  let ?r = "parse_source (plain_hash env) (\<lambda>_. None) ''a.rs'' ''fn g() {}''"
  obtain p g where k: "two_fns env d = (p, g)" by (cases "two_fns env d")
  obtain mu en' p' g' where q: "process_delta (plain_hash env) (\<lambda>_. None) 24 0 0 ''a.rs'' (Some ''fn f() {}'') ''fn g() {}''
     (engine_new, p, g) = (mu, en', p', g')" by (metis prod_cases4)
  have "delta_op (plain_hash env) (Some ''fn f() {}'') ''fn g() {}'' = FileModified"
    using hashes_differ by (simp add: delta_op_def plain_hash_of)
  note r = delta_replaces_file [OF this q]
  have x: "extract_all (\<lambda>_. None) ''fn g() {}'' = \<lparr>x_modules = [], x_uses = [],
      x_symbols = [\<lparr>sy_name = ''g'', sy_line = 1, sy_kind = KFunction\<rparr>], x_calls = [], x_data_refs = [], x_aliases = [], x_methods = []\<rparr>"
    by code_simp
  have "declared_ids ?r = {''file:a.rs'', ''sym:a.rs:g''}"
    by (simp add: declared_ids_def parse_source_def Let_def x sym_of_def)
  moreover have "of_file ''a.rs'' ''sym:a.rs:f''" by code_simp
  ultimately have "\<not> resident g' ''sym:a.rs:f''" using r by auto
  then show "\<not> resident (snd (snd (snd (process_delta (plain_hash env) (\<lambda>_. None) 24 0 0 ''a.rs'' (Some ''fn f() {}'') ''fn g() {}''
     (engine_new, two_fns env d))))) ''sym:a.rs:f''" by (simp add: k q)
qed

lemma delta_change_detection_witness:
  "\<forall>env kb. let en' = fst (snd (process_delta (plain_hash env) (\<lambda>_. None) 24 0 0 ''a.rs'' None ''fn f() {}'' (engine_new, kb)))
     in has_file_changed (plain_hash env) ''a.rs'' ''fn g() {}'' en' \<and> \<not> has_file_changed (plain_hash env) ''a.rs'' ''fn f() {}'' en'"
proof (intro allI)
  fix env :: mem_env and kb :: knowledge
  obtain p g where k: "kb = (p, g)" by (cases kb)
  obtain mu en' p' g' where q: "process_delta (plain_hash env) (\<lambda>_. None) 24 0 0 ''a.rs'' None ''fn f() {}''
     (engine_new, p, g) = (mu, en', p', g')" by (metis prod_cases4)
  have "dm_op mu = FileAdded"
    using q by (auto simp: process_delta_def Let_def delta_op_def split: prod.splits)
  then show "let en' = fst (snd (process_delta (plain_hash env) (\<lambda>_. None) 24 0 0 ''a.rs'' None ''fn f() {}'' (engine_new, kb)))
     in has_file_changed (plain_hash env) ''a.rs'' ''fn g() {}'' en' \<and> \<not> has_file_changed (plain_hash env) ''a.rs'' ''fn f() {}'' en'"
    using delta_change_detection [OF q] hashes_differ by (auto simp: k q plain_hash_of)
qed

lemma evict_misses_cold_witness:
  "\<forall>env d c. map_of (g_cold (evict_file_nodes env ''a.rs''
     ((graph_new (f64_zero False) 9 d)\<lparr>g_cold := [(''sym:a.rs:f'', c)]\<rparr>))) ''sym:a.rs:f'' = Some c"
proof (intro allI)
  fix env d c
  let ?g = "(graph_new (f64_zero False) 9 d)\<lparr>g_cold := [(''sym:a.rs:f'', c)]\<rparr>"
  have "\<not> resident ?g ''sym:a.rs:f''" by (simp add: graph_new_def)
  from evict_misses_cold [OF this] show "map_of (g_cold (evict_file_nodes env ''a.rs'' ?g)) ''sym:a.rs:f'' = Some c" by simp
qed

end
