(* ===== verification/Consensus.thy ===== *)
theory Consensus
  imports F64 OrdMap "HOL-Library.Multiset"
begin

text \<open>
  The vote of several models (\<open>src/consensus.rs\<close>). The tally is a \<open>HashMap\<close> whose iteration
  order the code does observe: \<open>max_by_key\<close> takes the last maximum it meets. The order is the
  argument \<open>perm\<close>, and the theorems say what holds for every permutation.
\<close>

record llm_vote =
  v_model :: string
  v_output :: string
  v_confidence :: u64      \<comment> \<open>\<open>f64\<close>\<close>

record consensus_result =
  cr_output :: string
  cr_votes :: nat
  cr_total :: nat
  cr_ratio :: u64
  cr_models :: "string list"
  cr_reached :: bool

record consensus_engine =
  min_agreement :: u64

definition consensus_new :: consensus_engine where
  "consensus_new = \<lparr>min_agreement = f64_rat 5 10\<rparr>"

definition with_threshold :: "u64 \<Rightarrow> consensus_engine" where
  "with_threshold t = \<lparr>min_agreement = f64_clamp t (f64_zero False) (f64_rat 1 1)\<rparr>"

definition no_consensus :: consensus_result where
  "no_consensus = \<lparr>cr_output = ''NO_CONSENSUS'', cr_votes = 0, cr_total = 0, cr_ratio = f64_zero False, cr_models = [],
     cr_reached = False\<rparr>"

definition tally_vote :: "llm_vote \<Rightarrow> (string, nat \<times> string list) omap \<Rightarrow> (string, nat \<times> string list) omap" where
  "tally_vote v m = (let (n, ms) = (case map_of m (v_output v) of Some e \<Rightarrow> e | None \<Rightarrow> (0, []))
     in om_insert (v_output v) (n + 1, ms @ [v_model v]) m)"

definition tally :: "llm_vote list \<Rightarrow> (string, nat \<times> string list) omap" where
  "tally votes = fold tally_vote votes []"

fun last_max :: "('a \<Rightarrow> 'a \<Rightarrow> bool) \<Rightarrow> 'a list \<Rightarrow> 'a option" where
  \<comment> \<open>\<open>max_by\<close>: the later of two elements wins unless the earlier is greater\<close>
  "last_max gt [] = None"
| "last_max gt (x # xs) = Some (fold (\<lambda>y best. if gt best y then best else y) xs x)"

definition consensus_resolve :: "((string \<times> nat \<times> string list) list \<Rightarrow> (string \<times> nat \<times> string list) list)
    \<Rightarrow> llm_vote list \<Rightarrow> consensus_engine \<Rightarrow> consensus_result" where
  "consensus_resolve perm votes en =
     (if votes = [] then no_consensus
      else let (best, count, models) = (case last_max (\<lambda>a b. fst (snd b) < fst (snd a)) (perm (tally votes)) of
                  Some e \<Rightarrow> e | None \<Rightarrow> (''NO_CONSENSUS'', 0, []));
               ratio = f64_div (f64_of_nat count) (f64_of_nat (max (length votes) 1))
           in \<lparr>cr_output = best, cr_votes = count, cr_total = length votes, cr_ratio = ratio, cr_models = models,
               cr_reached = f64_le (min_agreement en) ratio\<rparr>)"

definition positive_part :: "u64 \<Rightarrow> u64" where
  "positive_part c = f64_max c (f64_zero False)"

definition weigh_vote :: "llm_vote \<Rightarrow> (string, u64 \<times> string list) omap \<Rightarrow> (string, u64 \<times> string list) omap" where
  "weigh_vote v m = (let (w, ms) = (case map_of m (v_output v) of Some e \<Rightarrow> e | None \<Rightarrow> (f64_zero False, []))
     in om_insert (v_output v) (f64_add w (positive_part (v_confidence v)), ms @ [v_model v]) m)"

definition resolve_weighted :: "((string \<times> u64 \<times> string list) list \<Rightarrow> (string \<times> u64 \<times> string list) list)
    \<Rightarrow> llm_vote list \<Rightarrow> consensus_engine \<Rightarrow> consensus_result" where
  "resolve_weighted perm votes en =
     (if votes = [] then no_consensus
      else let (best, score, models) = (case last_max (\<lambda>a b. f64_cmp (fst (snd a)) (fst (snd b)) = Greater)
                    (perm (fold weigh_vote votes [])) of
                  Some e \<Rightarrow> e | None \<Rightarrow> (''NO_CONSENSUS'', f64_zero False, []));
               total = fold (\<lambda>v s. f64_add s (positive_part (v_confidence v))) votes (f64_zero False);
               ratio = (if f64_lt (f64_zero False) total then f64_div score total else f64_zero False)
           in \<lparr>cr_output = best, cr_votes = length models, cr_total = length votes, cr_ratio = ratio, cr_models = models,
               cr_reached = f64_le (min_agreement en) ratio\<rparr>)"

subsection \<open>The tally\<close>

definition votes_for :: "string \<Rightarrow> llm_vote list \<Rightarrow> llm_vote list" where
  "votes_for out votes = filter (\<lambda>v. v_output v = out) votes"

lemma votes_for_empty: "votes_for out votes = [] \<longleftrightarrow> out \<notin> v_output ` set votes"
  by (auto simp: votes_for_def filter_empty_conv)

lemma tally_ok: "om_ok (tally votes)"
proof -
  have "om_ok m \<Longrightarrow> om_ok (fold tally_vote votes m)" for m
    by (induction votes arbitrary: m) (auto simp: tally_vote_def Let_def case_prod_unfold intro: inv_intros)
  then show ?thesis by (simp add: tally_def)
qed

lemma tally_lookup:
  "map_of (tally votes) out = (if votes_for out votes = [] then None
     else Some (length (votes_for out votes), map v_model (votes_for out votes)))"
proof (induction votes rule: rev_induct)
  case Nil
  then show ?case by (simp add: tally_def votes_for_def)
next
  case (snoc v votes)
  then show ?case by (auto simp: tally_def votes_for_def tally_vote_def Let_def case_prod_unfold)
qed

lemma last_max_spec:
  fixes f :: "'a \<Rightarrow> nat"
  assumes "last_max (\<lambda>a b. f b < f a) xs = Some x"
  shows "x \<in> set xs" "y \<in> set xs \<Longrightarrow> f y \<le> f x"
proof -
  have "fold (\<lambda>y best. if f y < f best then best else y) zs z \<in> set (z # zs)
     \<and> (\<forall>y \<in> set (z # zs). f y \<le> f (fold (\<lambda>y best. if f y < f best then best else y) zs z))" for z zs
  proof (induction zs arbitrary: z)
    case (Cons a zs)
    have "f z \<le> f (if f a < f z then z else a)" "f a \<le> f (if f a < f z then z else a)" by simp_all
    with Cons.IH [of "if f a < f z then z else a"] show ?case by (auto split: if_splits intro: order_trans)
  qed simp
  then show "x \<in> set xs" "y \<in> set xs \<Longrightarrow> f y \<le> f x" using assms by (cases xs; fastforce)+
qed

definition top_count :: "llm_vote list \<Rightarrow> nat" where
  "top_count votes = Max ((\<lambda>out. length (votes_for out votes)) ` v_output ` set votes)"

lemma consensus_sound_aux:
  assumes "mset (perm (tally votes)) = mset (tally votes)" "votes \<noteq> []"
  shows "let r = consensus_resolve perm votes en in
     cr_votes r = top_count votes \<and> length (votes_for (cr_output r) votes) = top_count votes
     \<and> cr_models r = map v_model (votes_for (cr_output r) votes)
     \<and> cr_ratio r = f64_div (f64_of_nat (top_count votes)) (f64_of_nat (length votes))
     \<and> cr_reached r = f64_le (min_agreement en) (cr_ratio r)"
proof -
  have set: "set (perm (tally votes)) = set (tally votes)" using assms(1) by (metis set_mset_mset)
  have entry: "(out, n, ms) \<in> set (tally votes) \<longleftrightarrow> out \<in> v_output ` set votes
      \<and> n = length (votes_for out votes) \<and> ms = map v_model (votes_for out votes)" for out n ms
  proof -
    have "(out, n, ms) \<in> set (tally votes) \<longleftrightarrow> map_of (tally votes) out = Some (n, ms)"
      by (simp add: om_get_iff [OF tally_ok])
    also have "\<dots> \<longleftrightarrow> votes_for out votes \<noteq> [] \<and> n = length (votes_for out votes) \<and> ms = map v_model (votes_for out votes)"
      by (auto simp: tally_lookup)
    finally show ?thesis using votes_for_empty [of out votes] by simp
  qed
  obtain v where "v \<in> set votes" using assms(2) by (cases votes) auto
  with entry [of "v_output v"] have ne: "perm (tally votes) \<noteq> []" using set by (metis empty_iff imageI list.set(1))
  then obtain e where "last_max (\<lambda>a b. fst (snd b) < fst (snd a)) (perm (tally votes)) = Some e"
    by (cases "perm (tally votes)") auto
  moreover obtain out n ms where "e = (out, n, ms)" by (cases e)
  ultimately have m: "last_max (\<lambda>a b. fst (snd b) < fst (snd a)) (perm (tally votes)) = Some (out, n, ms)" by simp
  note best = last_max_spec [of "\<lambda>e. fst (snd e)", OF m]
  have o: "out \<in> v_output ` set votes" "n = length (votes_for out votes)" "ms = map v_model (votes_for out votes)"
    using best(1) set entry by auto
  have top: "top_count votes = n"
    unfolding top_count_def
  proof (rule Max_eqI)
    fix y
    assume "y \<in> (\<lambda>out. length (votes_for out votes)) ` v_output ` set votes"
    then obtain w where "w \<in> v_output ` set votes" "y = length (votes_for w votes)" by blast
    then have "(w, y, map v_model (votes_for w votes)) \<in> set (perm (tally votes))" using entry set by simp
    from best(2) [OF this] show "y \<le> n" by simp
  qed (use o in auto)
  have "max (length votes) 1 = length votes" using assms(2) by (cases votes) auto
  then show ?thesis using assms(2) o top by (simp add: consensus_resolve_def m Let_def)
qed

text \<open>
  The vote is sound in every iteration order of the tally: the count is that of the most voted
  output, the reported output has it, the models are those that voted for it, and the count, the
  ratio and the verdict do not depend on the order.
\<close>

theorem consensus_sound:
  assumes "mset (perm (tally votes)) = mset (tally votes)" "votes \<noteq> []"
  shows "let r = consensus_resolve perm votes en in
     cr_votes r = top_count votes \<and> length (votes_for (cr_output r) votes) = top_count votes
     \<and> cr_models r = map v_model (votes_for (cr_output r) votes)
     \<and> cr_ratio r = f64_div (f64_of_nat (top_count votes)) (f64_of_nat (length votes))
     \<and> cr_reached r = f64_le (min_agreement en) (cr_ratio r)"
  by (rule consensus_sound_aux [where perm = perm, OF assms])

text \<open>
  A strict majority always wins: an output with more than half of the votes is the result in
  every iteration order, with all its voters listed.
\<close>

theorem consensus_majority:
  assumes "mset (perm (tally votes)) = mset (tally votes)" "length votes < 2 * length (votes_for out votes)"
  shows "cr_output (consensus_resolve perm votes en) = out"
proof (rule ccontr)
  let ?r = "consensus_resolve perm votes en"
  assume ne: "cr_output ?r \<noteq> out"
  have v: "votes \<noteq> []" using assms(2) by (auto simp: votes_for_def)
  have sound: "length (votes_for (cr_output ?r) votes) = top_count votes"
    using consensus_sound_aux [where perm = perm and en = en, OF assms(1) v] by (simp add: Let_def)
  have "votes_for out votes \<noteq> []" using assms(2) by auto
  then have "out \<in> v_output ` set votes" by (simp add: votes_for_empty)
  then have top: "length (votes_for out votes) \<le> top_count votes" unfolding top_count_def by (intro Max_ge) auto
  have "length (votes_for out vs) + length (votes_for (cr_output ?r) vs) \<le> length vs" for vs
    using ne by (induction vs) (auto simp: votes_for_def)
  from this [of votes] have "length (votes_for out votes) + top_count votes \<le> length votes" by (simp only: sound)
  with top show False using assms(2) by linarith
qed


subsection \<open>Ties\<close>

definition tie :: "llm_vote list" where
  "tie = [\<lparr>v_model = ''m'', v_output = ''A'', v_confidence = 0\<rparr>, \<lparr>v_model = ''n'', v_output = ''B'', v_confidence = 0\<rparr>]"

lemma tie_tally: "tally tie = [(''A'', 1, [''m'']), (''B'', 1, [''n''])]"
  by (simp add: tally_def tie_def tally_vote_def)

text \<open>
  A tie is decided by the iteration order of a hash map: for the same two votes and the default
  engine, one order reports the first output and another the second.
\<close>

theorem tie_depends_on_order:
  "\<exists>perm perm'. mset (perm (tally tie)) = mset (tally tie) \<and> mset (perm' (tally tie)) = mset (tally tie)
     \<and> cr_output (consensus_resolve perm tie consensus_new) = ''B''
     \<and> cr_output (consensus_resolve perm' tie consensus_new) = ''A''"
proof (intro exI conjI)
  show "mset (id (tally tie)) = mset (tally tie)" by simp
  show "mset (rev (tally tie)) = mset (tally tie)" by simp
  have "tie \<noteq> []" by (simp add: tie_def)
  then show "cr_output (consensus_resolve id tie consensus_new) = ''B''"
    "cr_output (consensus_resolve rev tie consensus_new) = ''A''"
    by (simp_all add: consensus_resolve_def tie_tally Let_def)
qed

lemma consensus_sound_witness:
  "cr_votes (consensus_resolve rev tie consensus_new) = 1"
proof -
  have ne: "tie \<noteq> []" by (simp add: tie_def)
  have "cr_votes (consensus_resolve rev tie consensus_new) = top_count tie"
    using consensus_sound [of rev, OF _ ne, of consensus_new] by (simp add: Let_def)
  also have "top_count tie = 1" by (simp add: top_count_def tie_def votes_for_def)
  finally show ?thesis .
qed

definition two_to_one :: "llm_vote list" where
  "two_to_one = \<lparr>v_model = ''k'', v_output = ''A'', v_confidence = 0\<rparr> # tie"

lemma consensus_majority_witness:
  "cr_output (consensus_resolve id two_to_one consensus_new) = ''A'' \<and> cr_output (consensus_resolve rev two_to_one consensus_new) = ''A''"
proof -
  have m: "length two_to_one < 2 * length (votes_for ''A'' two_to_one)" by (simp add: two_to_one_def tie_def votes_for_def)
  show ?thesis
    using consensus_majority [of id, OF _ m, of consensus_new] consensus_majority [of rev, OF _ m, of consensus_new] by simp
qed

end
