(* ===== verification/Bfs.thy ===== *)
theory Bfs
  imports OrdMap
begin

text \<open>
  Breadth-first search with a queue, as the causal walks (\<open>src/query.rs\<close>), the hop distances
  (\<open>src/external_memory.rs\<close>) and the region clustering (\<open>src/region_engine.rs\<close>) run it: a table
  of neighbours, a test that stops the search from relaying through some nodes, an optional
  depth bound. The list of what was found carries the distance of each node; \<open>bfs_exact\<close> says
  that it is the shortest one and that nothing within the bound is missing.
\<close>

subsection \<open>The search\<close>

definition nbrs :: "('a \<times> 'b list) list \<Rightarrow> 'a \<Rightarrow> 'b list" where
  "nbrs adj v = (case map_of adj v of Some ns \<Rightarrow> ns | None \<Rightarrow> [])"

definition om_push :: "'k :: linorder \<Rightarrow> 'v \<Rightarrow> ('k, 'v list) omap \<Rightarrow> ('k, 'v list) omap" where
  \<comment> \<open>\<open>m.entry(k).or_default().push(v)\<close>\<close>
  "om_push k v m = om_insert k (nbrs m k @ [v]) m"

lemma nbrs_push [simp]: "nbrs (om_push k v m) a = (if a = k then nbrs m k @ [v] else nbrs m a)"
  by (auto simp: nbrs_def om_push_def)

lemma nbrs_Nil [simp]: "nbrs [] a = []"
  by (simp add: nbrs_def)

lemma nbrs_map: "f [] = [] \<Longrightarrow> nbrs (map (\<lambda>(k, ns). (k, f ns)) m) a = f (nbrs m a)"
  by (induction m) (auto simp: nbrs_def)

definition below :: "nat option \<Rightarrow> nat \<Rightarrow> bool" where
  "below lim d = (case lim of None \<Rightarrow> True | Some n \<Rightarrow> d < n)"

fun discover :: "nat \<Rightarrow> 'a list \<Rightarrow> ('a \<times> nat) list \<Rightarrow> ('a \<times> nat) list" where
  \<comment> \<open>\<open>for nb in neighbours { if visited.insert(nb) { queue.push_back((nb, d)) } }\<close>\<close>
  "discover d [] found = []"
| "discover d (b # bs) found =
     (if b \<in> fst ` set found then discover d bs found else (b, d) # discover d bs (found @ [(b, d)]))"

lemma discover_set: "set (discover d bs found) = (\<lambda>b. (b, d)) ` (set bs - fst ` set found)"
  by (induction d bs found rule: discover.induct) (auto simp: image_iff)

lemma discover_distinct: "distinct (map fst (discover d bs found))"
  by (induction d bs found rule: discover.induct) (auto simp: discover_set)

lemma discover_labels: "map snd (discover d bs found) = replicate (length (discover d bs found)) d"
  by (induction d bs found rule: discover.induct) auto

definition unseen :: "('a \<times> 'a list) list \<Rightarrow> ('a \<times> nat) list \<Rightarrow> 'a set" where
  "unseen adj found = (\<Union> (set ` snd ` set adj)) - fst ` set found"

lemma nbrs_in: "set (nbrs adj v) \<subseteq> \<Union> (set ` snd ` set adj)"
proof (cases "map_of adj v")
  case (Some ns)
  then have "(v, ns) \<in> set adj" by (rule map_of_SomeD)
  then show ?thesis using Some by (force simp: nbrs_def)
qed (simp add: nbrs_def)

function bfs_loop ::
    "('a \<times> 'a list) list \<Rightarrow> ('a \<Rightarrow> bool) \<Rightarrow> nat option \<Rightarrow> ('a \<times> nat) list \<Rightarrow> ('a \<times> nat) list \<Rightarrow> ('a \<times> nat) list" where
  "bfs_loop adj ok lim [] found = found"
| "bfs_loop adj ok lim ((v, d) # queue) found =
     (let new = (if below lim d \<and> ok v then discover (Suc d) (nbrs adj v) found else [])
      in bfs_loop adj ok lim (queue @ new) (found @ new))"
  by pat_completeness auto
termination
proof (relation "(\<lambda>(adj, ok, lim, queue, found). card (unseen adj found)) <*mlex*>
    (\<lambda>(adj, ok, lim, queue, found). length queue) <*mlex*> {}", goal_cases)
  case 1 show ?case by (intro wf_mlex) simp
next
  case (2 adj ok lim v d queue found new)
  let ?U = "\<Union> (set ` snd ` set adj)"
  have fin: "finite (unseen adj found)" by (simp add: unseen_def)
  show ?case
  proof (cases "new = []")
    case True then show ?thesis by (intro mlex_leq mlex_less) auto
  next
    case False
    from 2 have "set new \<subseteq> (\<lambda>b. (b, Suc d)) ` (set (nbrs adj v) - fst ` set found)"
      by (auto simp: discover_set split: if_splits)
    then have sub: "fst ` set new \<subseteq> unseen adj found" using nbrs_in [of adj v] unfolding unseen_def by force
    moreover have "unseen adj (found @ new) = unseen adj found - fst ` set new" by (auto simp: unseen_def)
    ultimately have "unseen adj (found @ new) \<subset> unseen adj found" using False by (cases new) auto
    then have "card (unseen adj (found @ new)) < card (unseen adj found)" using fin by (simp add: psubset_card_mono)
    then show ?thesis by (intro mlex_less) simp
  qed
qed

definition bfs :: "('a \<times> 'a list) list \<Rightarrow> ('a \<Rightarrow> bool) \<Rightarrow> nat option \<Rightarrow> 'a \<Rightarrow> ('a \<times> nat) list" where
  "bfs adj ok lim s = bfs_loop adj ok lim [(s, 0)] [(s, 0)]"

subsection \<open>Distances\<close>

definition arcs :: "('a \<times> 'a list) list \<Rightarrow> ('a \<Rightarrow> bool) \<Rightarrow> ('a \<times> 'a) set" where
  "arcs adj ok = {(a, b). ok a \<and> b \<in> set (nbrs adj a)}"

definition dist_is :: "('a \<times> 'a) set \<Rightarrow> 'a set \<Rightarrow> nat \<Rightarrow> 'a \<Rightarrow> bool" where
  \<comment> \<open>the shortest path from the sources has length \<open>k\<close>\<close>
  "dist_is R S k y \<longleftrightarrow> (\<exists>s\<in>S. (s, y) \<in> R ^^ k) \<and> (\<forall>j<k. \<forall>s\<in>S. (s, y) \<notin> R ^^ j)"

definition within :: "nat option \<Rightarrow> nat \<Rightarrow> bool" where
  "within lim k = (case lim of None \<Rightarrow> True | Some n \<Rightarrow> k \<le> n)"

lemma dist_is_0 [simp]: "dist_is R S 0 y \<longleftrightarrow> y \<in> S"
  by (auto simp: dist_is_def)

lemma dist_is_unique: "dist_is R S k y \<Longrightarrow> dist_is R S j y \<Longrightarrow> k = j"
  unfolding dist_is_def by (meson linorder_neqE_nat)

lemma dist_is_pred: "dist_is R S (Suc k) y \<Longrightarrow> \<exists>x. dist_is R S k x \<and> (x, y) \<in> R"
  unfolding dist_is_def by (metis Suc_less_eq relpow_Suc_E relpow_Suc_I)

lemma dist_is_least: "s \<in> S \<Longrightarrow> (s, y) \<in> R ^^ n \<Longrightarrow> \<exists>k\<le>n. dist_is R S k y"
proof -
  assume s: "s \<in> S" and n: "(s, y) \<in> R ^^ n"
  let ?P = "\<lambda>k. \<exists>s\<in>S. (s, y) \<in> R ^^ k"
  have "?P n" using s n by blast
  then have "?P (LEAST k. ?P k)" "(LEAST k. ?P k) \<le> n" by (rule LeastI, rule Least_le)
  moreover have "\<forall>j < (LEAST k. ?P k). \<not> ?P j" using not_less_Least by blast
  ultimately show ?thesis unfolding dist_is_def by blast
qed

lemma dist_is_step: "dist_is R S k x \<Longrightarrow> (x, y) \<in> R \<Longrightarrow> \<exists>j\<le>Suc k. dist_is R S j y"
  by (metis dist_is_def dist_is_least relpow_Suc_I)

lemma dist_is_reach: "(\<exists>k. dist_is R S k y) \<longleftrightarrow> (\<exists>s\<in>S. (s, y) \<in> R\<^sup>*)"
  by (metis dist_is_def dist_is_least relpow_imp_rtrancl rtrancl_imp_relpow)

subsection \<open>Correctness\<close>

definition bfs_inv :: "('a \<times> 'a list) list \<Rightarrow> ('a \<Rightarrow> bool) \<Rightarrow> nat option \<Rightarrow> 'a \<Rightarrow> ('a \<times> nat) list \<Rightarrow> ('a \<times> nat) list \<Rightarrow> bool" where
  \<comment> \<open>\<open>relayed\<close> has been popped, \<open>queue\<close> is found and waiting\<close>
  "bfs_inv adj ok lim s relayed queue \<longleftrightarrow>
     distinct (map fst (relayed @ queue)) \<and> sorted (map snd (relayed @ queue)) \<and> s \<in> fst ` set (relayed @ queue) \<and>
     (\<forall>(y, k) \<in> set (relayed @ queue). dist_is (arcs adj ok) {s} k y \<and> within lim k) \<and>
     (\<forall>(y, k) \<in> set queue. k \<le> Suc (snd (hd queue))) \<and>
     (\<forall>(a, k) \<in> set relayed. below lim k \<longrightarrow> ok a \<longrightarrow> set (nbrs adj a) \<subseteq> fst ` set (relayed @ queue))"

lemma bfs_inv_relayed: "bfs_inv adj ok lim s relayed queue \<Longrightarrow> (a, k) \<in> set relayed \<Longrightarrow> below lim k \<Longrightarrow> ok a \<Longrightarrow>
    set (nbrs adj a) \<subseteq> fst ` set (relayed @ queue)"
  unfolding bfs_inv_def by blast

lemma bfs_inv_exact: "bfs_inv adj ok lim s relayed queue \<Longrightarrow> (y, k) \<in> set (relayed @ queue) \<Longrightarrow>
    dist_is (arcs adj ok) {s} k y \<and> within lim k"
  unfolding bfs_inv_def by blast

lemma bfs_covered:
  assumes inv: "bfs_inv adj ok lim s relayed queue" and "dist_is (arcs adj ok) {s} k y" "within lim k"
    and "queue = [] \<or> k \<le> snd (hd queue)"
  shows "y \<in> fst ` set (relayed @ queue)"
  using assms(2-)
proof (induction k arbitrary: y)
  case 0
  then show ?case using inv by (simp add: bfs_inv_def)
next
  case (Suc k)
  obtain x where x: "dist_is (arcs adj ok) {s} k x" and xy: "(x, y) \<in> arcs adj ok"
    using dist_is_pred [OF Suc.prems(1)] by blast
  have k: "within lim k" "below lim k" using Suc.prems(2) by (auto simp: within_def below_def split: option.splits)
  have "x \<in> fst ` set (relayed @ queue)" using Suc.IH [OF x k(1)] Suc.prems(3) by auto
  then obtain j where j: "(x, j) \<in> set (relayed @ queue)" by (metis imageE prod.collapse)
  then have "dist_is (arcs adj ok) {s} j x" using inv unfolding bfs_inv_def by blast
  then have "j = k" using x dist_is_unique by metis
  have "(x, j) \<notin> set queue"
  proof
    assume q: "(x, j) \<in> set queue"
    then have "snd (hd queue) \<le> j" using inv by (cases queue) (auto simp: bfs_inv_def sorted_append)
    then show False using Suc.prems(3) q \<open>j = k\<close> by auto
  qed
  then have "(x, k) \<in> set relayed" using j \<open>j = k\<close> by auto
  then have "ok x \<Longrightarrow> set (nbrs adj x) \<subseteq> fst ` set (relayed @ queue)" using inv k(2) unfolding bfs_inv_def by blast
  then show ?case using xy by (auto simp: arcs_def)
qed
lemma bfs_inv_step:
  assumes inv: "bfs_inv adj ok lim s relayed ((v, d) # queue)"
    and new: "new = (if below lim d \<and> ok v then discover (Suc d) (nbrs adj v) (relayed @ (v, d) # queue) else [])"
  shows "bfs_inv adj ok lim s (relayed @ [(v, d)]) (queue @ new)"
proof -
  let ?found = "relayed @ (v, d) # queue"
  let ?R = "arcs adj ok"
  have labels: "k = Suc d" if "(b, k) \<in> set new" for b k
    using that new by (auto simp: discover_set split: if_splits)
  have fresh: "b \<in> set (nbrs adj v) \<and> b \<notin> fst ` set ?found \<and> below lim d \<and> ok v" if "(b, k) \<in> set new" for b k
    using that unfolding new by (simp add: discover_set split: if_splits) blast
  have v: "dist_is ?R {s} d v" using inv by (simp add: bfs_inv_def)
  have exact: "dist_is ?R {s} (Suc d) b \<and> within lim (Suc d)" if b: "(b, k) \<in> set new" for b k
  proof -
    have "(v, b) \<in> ?R" using fresh [OF b] by (simp add: arcs_def)
    then obtain j where j: "j \<le> Suc d" "dist_is ?R {s} j b" using dist_is_step [OF v] by blast
    have lim: "within lim (Suc d)" "within lim d" using fresh [OF b] by (auto simp: within_def below_def split: option.splits)
    have "j = Suc d"
    proof (rule ccontr)
      assume "j \<noteq> Suc d"
      then have "j \<le> d" "within lim j" using j lim(2) by (auto simp: within_def split: option.splits)
      then have "b \<in> fst ` set ?found" using bfs_covered [OF inv j(2)] by simp
      then show False using fresh [OF b] by blast
    qed
    then show ?thesis using j lim by simp
  qed
  have low: "k \<le> d" if "(y, k) \<in> set relayed" for y k
    using that inv by (auto simp: bfs_inv_def sorted_append)
  have mid: "d \<le> k \<and> k \<le> Suc d" if "(y, k) \<in> set queue" for y k
    using that inv by (auto simp: bfs_inv_def sorted_append)
  have "sorted (map snd new)" using new by (simp add: discover_labels)
  moreover have "sorted (map snd ?found)" using inv by (simp add: bfs_inv_def)
  moreover have "x \<le> y" if "x \<in> snd ` set ?found" "y \<in> snd ` set new" for x y
  proof -
    have "y = Suc d" using that(2) labels by auto
    moreover have "x \<le> Suc d" using that(1) by (auto dest: low mid)
    ultimately show ?thesis by simp
  qed
  ultimately have srt: "sorted (map snd (?found @ new))" unfolding map_append [of snd ?found new] sorted_append set_map by (intro conjI ballI) assumption+
  have "distinct (map fst new)" using new by (simp add: discover_distinct)
  moreover have "distinct (map fst ?found)" using inv by (simp add: bfs_inv_def)
  moreover have "fst ` set ?found \<inter> fst ` set new = {}"
  proof -
    have "x \<notin> fst ` set new" if "x \<in> fst ` set ?found" for x using fresh that by (metis imageE prod.collapse)
    then show ?thesis unfolding disjoint_iff by (intro allI impI)
  qed
  ultimately have dst: "distinct (map fst (?found @ new))" unfolding map_append [of fst ?found new] distinct_append set_map by (intro conjI) assumption+
  have hd: "\<forall>(y, k) \<in> set (queue @ new). k \<le> Suc (snd (hd (queue @ new)))"
  proof (clarify)
    fix y k assume yk: "(y, k) \<in> set (queue @ new)"
    then have "hd (queue @ new) \<in> set (queue @ new)" by (intro hd_in_set) auto
    then obtain z j where z: "hd (queue @ new) = (z, j)" "(z, j) \<in> set queue \<or> (z, j) \<in> set new"
      by (metis prod.collapse set_append Un_iff)
    have "k \<le> Suc d" using yk mid labels by fastforce
    moreover have "d \<le> j" using z mid labels by fastforce
    ultimately show "k \<le> Suc (snd (hd (queue @ new)))" using z by simp
  qed
  have rel: "set (nbrs adj a) \<subseteq> fst ` set (?found @ new)"
    if "(a, k) \<in> set (relayed @ [(v, d)])" "below lim k" "ok a" for a k
  proof (cases "(a, k) \<in> set relayed")
    case True
    then have "set (nbrs adj a) \<subseteq> fst ` set ?found" by (rule bfs_inv_relayed [OF inv]) (rule that)+
    then show ?thesis by auto
  next
    case False
    then have "a = v" "k = d" using that by auto
    then have "set new = (\<lambda>b. (b, Suc d)) ` (set (nbrs adj v) - fst ` set ?found)"
      using that new by (simp only: discover_set simp_thms if_True)
    then have "fst ` set new = set (nbrs adj v) - fst ` set ?found" by (simp only: image_image fst_conv image_ident)
    then show ?thesis unfolding \<open>a = v\<close> set_append [of ?found new] image_Un by blast
  qed
  show ?thesis unfolding bfs_inv_def
  proof (intro conjI)
    show "distinct (map fst ((relayed @ [(v, d)]) @ queue @ new))" using dst by simp
    show "sorted (map snd ((relayed @ [(v, d)]) @ queue @ new))" using srt by simp
    show "s \<in> fst ` set ((relayed @ [(v, d)]) @ queue @ new)" using inv by (auto simp: bfs_inv_def)
    show "\<forall>(y, k) \<in> set ((relayed @ [(v, d)]) @ queue @ new). dist_is ?R {s} k y \<and> within lim k"
    proof (clarify)
      fix y k assume "(y, k) \<in> set ((relayed @ [(v, d)]) @ queue @ new)"
      then consider "(y, k) \<in> set ?found" | "(y, k) \<in> set new" by auto
      then show "dist_is ?R {s} k y \<and> within lim k"
        by cases (rule bfs_inv_exact [OF inv], assumption, use exact labels in blast)
    qed
    show "\<forall>(y, k) \<in> set (queue @ new). k \<le> Suc (snd (hd (queue @ new)))" by (rule hd)
    show "\<forall>(a, k) \<in> set (relayed @ [(v, d)]). below lim k \<longrightarrow> ok a \<longrightarrow>
        set (nbrs adj a) \<subseteq> fst ` set ((relayed @ [(v, d)]) @ queue @ new)" using rel by auto
  qed
qed

lemma bfs_loop_inv: "bfs_inv adj ok lim s relayed queue \<Longrightarrow> found = relayed @ queue \<Longrightarrow>
    bfs_inv adj ok lim s (bfs_loop adj ok lim queue found) []"
proof (induction adj ok lim queue found arbitrary: relayed rule: bfs_loop.induct)
  case (1 adj ok lim found)
  then show ?case by simp
next
  case (2 adj ok lim v d queue found)
  let ?new = "if below lim d \<and> ok v then discover (Suc d) (nbrs adj v) found else []"
  have "bfs_inv adj ok lim s (relayed @ [(v, d)]) (queue @ ?new)"
    by (rule bfs_inv_step [OF 2(2)]) (simp add: 2(3))
  from 2(1) [OF refl this] show ?case by (simp only: bfs_loop.simps Let_def 2(3)) (simp only: append.assoc append_Cons append_Nil)
qed

lemma bfs_final: "bfs_inv adj ok lim s (bfs adj ok lim s) []"
  unfolding bfs_def
  by (rule bfs_loop_inv [of _ _ _ _ "[]"]) (auto simp: bfs_inv_def within_def split: option.splits)

theorem bfs_exact:
  shows bfs_iff: "(y, k) \<in> set (bfs adj ok lim s) \<longleftrightarrow> dist_is (arcs adj ok) {s} k y \<and> within lim k"
    and bfs_distinct: "distinct (map fst (bfs adj ok lim s))"
    and bfs_sorted: "sorted (map snd (bfs adj ok lim s))"
proof -
  note inv = bfs_final [of adj ok lim s]
  show "distinct (map fst (bfs adj ok lim s))" "sorted (map snd (bfs adj ok lim s))"
    using inv by (simp_all add: bfs_inv_def)
  have sound: "dist_is (arcs adj ok) {s} k y \<and> within lim k" if "(y, k) \<in> set (bfs adj ok lim s)" for y k
    by (rule bfs_inv_exact [OF inv]) (simp add: that)
  show "(y, k) \<in> set (bfs adj ok lim s) \<longleftrightarrow> dist_is (arcs adj ok) {s} k y \<and> within lim k" (is "?l \<longleftrightarrow> ?r")
  proof
    assume ?r
    then have "y \<in> fst ` set (bfs adj ok lim s @ [])" using bfs_covered [OF inv] by blast
    then obtain j where j: "(y, j) \<in> set (bfs adj ok lim s)" by auto
    with sound [OF j] \<open>?r\<close> show ?l using dist_is_unique by metis
  qed (rule sound)
qed

lemma bfs_origin: "bfs adj ok lim s = (s, 0) # tl (bfs adj ok lim s)"
proof -
  have ext: "\<exists>new. bfs_loop adj ok lim queue found = found @ new" for queue found
  proof (induction adj ok lim queue found rule: bfs_loop.induct)
    case (2 adj ok lim v d queue found)
    then show ?case by (fastforce simp: Let_def)
  qed simp
  from ext [of "[(s, 0)]" "[(s, 0)]"] show ?thesis by (auto simp: bfs_def)
qed

end
