(* ===== verification/Query.thy ===== *)
theory Query
  imports Bfs GraphAnalysis
begin

text \<open>
  The inspection queries (\<open>src/query.rs\<close>): the causal walk in both directions with the blast
  radius and the causes of a node, the hottest nodes, and the GraphML text. A walk is the search
  of \<open>Bfs\<close> over a sorted table of neighbours, so its result is exact: every node within the
  depth, once, at its shortest distance (\<open>walk_exact\<close>).
\<close>

subsection \<open>The walk\<close>

datatype walk_direction = Downstream | Upstream

record reached_node =
  r_id :: node_id
  r_distance :: nat
  r_score :: f64

fun arrow :: "walk_direction \<Rightarrow> graph_edge \<Rightarrow> node_id \<times> node_id" where
  "arrow Downstream e = (e_source e, e_target e)"
| "arrow Upstream e = (e_target e, e_source e)"

definition walk_adj :: "walk_direction \<Rightarrow> mem_graph \<Rightarrow> (node_id, node_id list) omap" where
  "walk_adj dir g = map (\<lambda>(k, ns). (k, remdups_adj (sort ns)))
     (fold (\<lambda>e m. let (a, b) = arrow dir e in om_push a b m) (g_edges g) [])"

fun score_reached :: "mem_env \<Rightarrow> (node_id \<times> nat) list \<Rightarrow> mem_graph \<Rightarrow> reached_node list \<times> mem_graph" where
  \<comment> \<open>the scores, in the order of discovery; a read fills the centrality caches\<close>
  "score_reached env [] g = ([], g)"
| "score_reached env ((i, d) # ids) g =
     (let (v, g1) = (case map_of (g_nodes g) i of Some n \<Rightarrow> compute_node_score env n g | None \<Rightarrow> (f64_zero False, g));
          (rs, g2) = score_reached env ids g1
      in (\<lparr>r_id = i, r_distance = d, r_score = v\<rparr> # rs, g2))"

definition reached_cmp :: "reached_node \<Rightarrow> reached_node \<Rightarrow> cmp" where
  "reached_cmp a b = cmp_then (ord_cmp (r_distance a) (r_distance b))
     (cmp_then (f64_cmp (r_score b) (r_score a)) (ord_cmp (r_id a) (r_id b)))"

definition walk :: "mem_env \<Rightarrow> node_id \<Rightarrow> nat \<Rightarrow> walk_direction \<Rightarrow> mem_graph \<Rightarrow> reached_node list \<times> mem_graph" where
  \<comment> \<open>the origin is the first node found and is not reported\<close>
  "walk env origin max_depth dir g =
     (if \<not> resident g origin then ([], g)
      else let (out, g') = score_reached env (tl (bfs (walk_adj dir g) (\<lambda>_. True) (Some max_depth) origin)) g
        in (sort_by reached_cmp out, g'))"

definition impact_set :: "mem_env \<Rightarrow> node_id \<Rightarrow> nat \<Rightarrow> mem_graph \<Rightarrow> reached_node list \<times> mem_graph" where
  "impact_set env origin max_depth g = walk env origin max_depth Downstream g"

definition source_set :: "mem_env \<Rightarrow> node_id \<Rightarrow> nat \<Rightarrow> mem_graph \<Rightarrow> reached_node list \<times> mem_graph" where
  "source_set env origin max_depth g = walk env origin max_depth Upstream g"

definition hot_set :: "mem_env \<Rightarrow> nat \<Rightarrow> mem_graph \<Rightarrow> (node_id \<times> f64) list \<times> mem_graph" where
  "hot_set env limit g = (let (scored, g') = get_node_scores env g in (take limit scored, g'))"

subsection \<open>GraphML\<close>

definition replace_char :: "char \<Rightarrow> string \<Rightarrow> string \<Rightarrow> string" where
  \<comment> \<open>\<open>s.replace(c, r)\<close>\<close>
  "replace_char c r s = concat (map (\<lambda>x. if x = c then r else [x]) s)"

definition xml_escape :: "string \<Rightarrow> string" where
  "xml_escape s = replace_char (CHR 0x27) ''&apos;'' (replace_char (CHR 0x22) ''&quot;''
     (replace_char (CHR 0x3E) ''&gt;'' (replace_char (CHR 0x3C) ''&lt;'' (replace_char (CHR 0x26) ''&amp;'' s))))"

fun node_type_name :: "node_type \<Rightarrow> string" where
  "node_type_name Module = ''Module''"
| "node_type_name Symbol = ''Symbol''"
| "node_type_name ContextBlock = ''ContextBlock''"
| "node_type_name AnalysisResult = ''AnalysisResult''"
| "node_type_name CodeRegion = ''CodeRegion''"
| "node_type_name UnknownType = ''Unknown''"

definition nl :: string where "nl = [CHR 0x0A]"
definition dq :: "string \<Rightarrow> string" where "dq s = CHR 0x22 # s @ [CHR 0x22]"

definition graphml_key :: "string \<Rightarrow> string \<Rightarrow> string \<Rightarrow> string \<Rightarrow> string" where
  "graphml_key i for nm ty =
     ''  <key id='' @ dq i @ '' for='' @ dq for @ '' attr.name='' @ dq nm @ '' attr.type='' @ dq ty @ ''/>'' @ nl"

definition graphml_head :: string where
  "graphml_head = ''<?xml version='' @ dq ''1.0'' @ '' encoding='' @ dq ''UTF-8'' @ ''?>'' @ nl
     @ ''<graphml xmlns='' @ dq ''http://graphml.graphdrawing.org/xmlns'' @ ''>'' @ nl
     @ graphml_key ''label'' ''node'' ''label'' ''string'' @ graphml_key ''type'' ''node'' ''type'' ''string''
     @ graphml_key ''score'' ''node'' ''score'' ''double'' @ graphml_key ''weight'' ''edge'' ''weight'' ''double''
     @ graphml_key ''etype'' ''edge'' ''type'' ''string''
     @ ''  <graph id='' @ dq ''ccos'' @ '' edgedefault='' @ dq ''directed'' @ ''>'' @ nl"

definition graphml_data :: "string \<Rightarrow> string \<Rightarrow> string" where
  "graphml_data key v = ''      <data key='' @ dq key @ ''>'' @ v @ ''</data>'' @ nl"

fun graphml_nodes :: "mem_env \<Rightarrow> (f64 \<Rightarrow> string) \<Rightarrow> (node_id \<times> graph_node) list \<Rightarrow> mem_graph \<Rightarrow> string \<times> mem_graph" where
  "graphml_nodes env fmt [] g = ([], g)"
| "graphml_nodes env fmt ((i, n) # ns) g =
     (let (score, g1) = compute_node_score env n g; (rest, g2) = graphml_nodes env fmt ns g1
      in (''    <node id='' @ dq (xml_escape i) @ ''>'' @ nl @ graphml_data ''label'' (xml_escape (n_label n))
          @ graphml_data ''type'' (node_type_name (n_type n)) @ graphml_data ''score'' (fmt score)
          @ ''    </node>'' @ nl @ rest, g2))"

definition graphml_edge :: "(f64 \<Rightarrow> string) \<Rightarrow> nat \<times> graph_edge \<Rightarrow> string" where
  "graphml_edge fmt = (\<lambda>(i, e). ''    <edge id='' @ dq (''e'' @ dec_digits i) @ '' source='' @ dq (xml_escape (e_source e))
     @ '' target='' @ dq (xml_escape (e_target e)) @ ''>'' @ nl @ graphml_data ''weight'' (fmt (e_weight e))
     @ graphml_data ''etype'' (edge_type_debug (e_type e)) @ ''    </edge>'' @ nl)"

definition to_graphml :: "mem_env \<Rightarrow> (f64 \<Rightarrow> string) \<Rightarrow> mem_graph \<Rightarrow> string \<times> mem_graph" where
  \<comment> \<open>\<open>fmt\<close> is the decimal form \<open>{:.6}\<close>\<close>
  "to_graphml env fmt g =
     (let (nodes, g') = graphml_nodes env fmt (g_nodes g) g
      in (graphml_head @ nodes @ concat (map (graphml_edge fmt) (enumerate 0 (sort_by dot_edge_cmp (g_edges g))))
          @ ''  </graph>'' @ nl @ ''</graphml>'' @ nl, g'))"

subsection \<open>The walk is exact\<close>

definition arrows :: "walk_direction \<Rightarrow> mem_graph \<Rightarrow> (node_id \<times> node_id) set" where
  "arrows dir g = arrow dir ` set (g_edges g)"

lemma arcs_walk_adj: "arcs (walk_adj dir g) (\<lambda>_. True) = arrows dir g"
proof -
  let ?push = "\<lambda>e m. let (a, b) = arrow dir e in om_push a b m"
  have "set (nbrs (fold ?push es m) a) = set (nbrs m a) \<union> {b. (a, b) \<in> arrow dir ` set es}" for es m a
  proof (induction es arbitrary: m)
    case (Cons e es)
    obtain x y where "arrow dir e = (x, y)" by fastforce
    then show ?case using Cons by auto
  qed simp
  then have "set (nbrs (fold ?push (g_edges g) []) a) = {b. (a, b) \<in> arrow dir ` set (g_edges g)}" for a
    by simp
  moreover have "set (nbrs (walk_adj dir g) a) = set (nbrs (fold ?push (g_edges g) []) a)" for a
    by (simp add: walk_adj_def nbrs_map)
  ultimately show ?thesis by (auto simp: arcs_def arrows_def)
qed

lemma score_reached_ids: "map (\<lambda>r. (r_id r, r_distance r)) (fst (score_reached env ids g)) = ids"
  by (induction env ids g rule: score_reached.induct) (auto simp: Let_def split: prod.splits)

lemma walk_found:
  assumes "resident g origin"
  shows "(\<lambda>r. (r_id r, r_distance r)) ` set (fst (walk env origin n dir g))
      = {(y, k). 1 \<le> k \<and> k \<le> n \<and> dist_is (arrows dir g) {origin} k y}"
    and "distinct (map r_id (fst (walk env origin n dir g)))"
proof -
  let ?found = "bfs (walk_adj dir g) (\<lambda>_. True) (Some n) origin"
  let ?out = "fst (score_reached env (tl ?found) g)"
  let ?pair = "\<lambda>r. (r_id r, r_distance r)"
  have w: "fst (walk env origin n dir g) = sort_by reached_cmp ?out"
    using assms by (simp add: walk_def split: prod.splits)
  have all: "(y, k) \<in> set ?found \<longleftrightarrow> dist_is (arrows dir g) {origin} k y \<and> k \<le> n" for y k
    by (simp add: bfs_iff arcs_walk_adj within_def)
  have dst: "distinct (map fst ?found)" by (rule bfs_distinct)
  have split: "?found = (origin, 0) # tl ?found" by (rule bfs_origin)
  have tl: "(y, k) \<in> set (tl ?found) \<longleftrightarrow> 1 \<le> k \<and> k \<le> n \<and> dist_is (arrows dir g) {origin} k y" for y k
  proof -
    have "(y, k) \<in> set (tl ?found) \<longleftrightarrow> (y, k) \<in> set ?found \<and> y \<noteq> origin"
      using dst by (subst (asm) split, subst (2) split) force
    moreover have "y \<noteq> origin \<longleftrightarrow> 1 \<le> k" if "dist_is (arrows dir g) {origin} k y"
      using that dist_is_unique [of "arrows dir g" "{origin}" k y 0] by (cases k) auto
    ultimately show ?thesis by (auto simp: all)
  qed
  have "?pair ` set ?out = set (tl ?found)"
    using arg_cong [OF score_reached_ids [of env "tl ?found" g], of set] by simp
  then show "?pair ` set (fst (walk env origin n dir g)) = {(y, k). 1 \<le> k \<and> k \<le> n \<and> dist_is (arrows dir g) {origin} k y}"
    unfolding w using tl by auto
  have "map r_id ?out = map fst (tl ?found)"
    using arg_cong [OF score_reached_ids [of env "tl ?found" g], of "map fst"] by (simp add: comp_def)
  then have "distinct (map r_id ?out)" using dst by (simp add: map_tl distinct_tl)
  moreover have "set (sort_by reached_cmp ?out) = set ?out" "distinct (sort_by reached_cmp ?out) = distinct ?out" by simp_all
  ultimately show "distinct (map r_id (fst (walk env origin n dir g)))" unfolding w by (simp add: distinct_map)
qed

text \<open>
  C36. The walk reports exactly the nodes whose shortest distance from the origin along the edges of
  its direction is between one and the bound, each once and with that distance.
\<close>

theorem walk_exact:
  assumes "resident g origin"
  shows "(\<lambda>r. (r_id r, r_distance r)) ` set (fst (walk env origin max_depth dir g))
      = {(y, k). 1 \<le> k \<and> k \<le> max_depth \<and> dist_is (arrow dir ` set (g_edges g)) {origin} k y}
    \<and> distinct (map r_id (fst (walk env origin max_depth dir g)))"
  using walk_found [OF assms] by (simp add: arrows_def)

lemma relpow_conv: "(a, b) \<in> ((R :: ('a \<times> 'a) set)\<inverse>) ^^ k \<longleftrightarrow> (b, a) \<in> R ^^ k"
proof (induction k arbitrary: a b)
  case (Suc k)
  have "(a, b) \<in> (R\<inverse>) ^^ Suc k \<longleftrightarrow> (\<exists>c. (a, c) \<in> (R\<inverse>) ^^ k \<and> (b, c) \<in> R)" by auto
  also have "\<dots> \<longleftrightarrow> (\<exists>c. (b, c) \<in> R \<and> (c, a) \<in> R ^^ k)" by (auto simp: Suc)
  also have "\<dots> \<longleftrightarrow> (b, a) \<in> R ^^ Suc k" by (metis relpow_Suc_D2 relpow_Suc_I2)
  finally show ?case .
qed auto

lemma dist_is_converse: "dist_is (R\<inverse>) {x} k y \<longleftrightarrow> dist_is R {y} k x"
  by (simp add: dist_is_def relpow_conv)

lemma arrows_converse: "arrows Upstream g = (arrows Downstream g)\<inverse>"
  by (force simp: arrows_def image_iff)

lemma walk_member:
  "(\<exists>r \<in> set (fst (walk env x n dir g)). r_id r = y \<and> r_distance r = k)
    \<longleftrightarrow> resident g x \<and> 1 \<le> k \<and> k \<le> n \<and> dist_is (arrows dir g) {x} k y"
proof (cases "resident g x")
  case True
  have "(\<exists>r \<in> A. r_id r = y \<and> r_distance r = k) \<longleftrightarrow> (y, k) \<in> (\<lambda>r. (r_id r, r_distance r)) ` A" for A :: "reached_node set"
    by force
  then show ?thesis using walk_found(1) [OF True] True by auto
qed (simp add: walk_def)

text \<open>
  The two directions are dual: between resident nodes, one is in the blast radius of another at a
  distance exactly when the other is among its causes at the same distance.
\<close>

theorem walk_dual:
  assumes "resident g x" "resident g y"
  shows "(\<exists>r \<in> set (fst (impact_set env x n g)). r_id r = y \<and> r_distance r = k)
    \<longleftrightarrow> (\<exists>r \<in> set (fst (source_set env y n g)). r_id r = x \<and> r_distance r = k)"
  using assms unfolding impact_set_def source_set_def walk_member
  by (simp add: arrows_converse dist_is_converse)

text \<open>
  Both walks on the two nodes that call each other.
\<close>

lemma ring_facts:
  "resident (ring d) ''a''" "resident (ring d) ''b''" "arrow dir ` set (g_edges (ring d)) = {(''a'', ''b''), (''b'', ''a'')}"
  by (cases dir; auto simp: ring_def Let_def om_contains_def)+

lemma walk_exact_witness:
  "\<forall>env d. (\<lambda>r. (r_id r, r_distance r)) ` set (fst (walk env ''a'' 3 Downstream (ring d))) = {(''b'', 1)}"
proof (intro allI)
  fix env d
  let ?R = "{(''a'', ''b''), (''b'', ''a'')} :: (node_id \<times> node_id) set"
  have b: "dist_is ?R {''a''} 1 ''b''" by (simp add: dist_is_def)
  have dom: "(x, y) \<in> ?R ^^ k \<Longrightarrow> x = ''a'' \<Longrightarrow> y = ''a'' \<or> y = ''b''" for x y :: node_id and k
    by (induction k arbitrary: y) auto
  have "dist_is ?R {''a''} k y \<Longrightarrow> 1 \<le> k \<Longrightarrow> y = ''b'' \<and> k = 1" for k y
  proof -
    assume *: "dist_is ?R {''a''} k y" "1 \<le> k"
    then have "y \<noteq> ''a''" using dist_is_unique [of ?R "{''a''}" k y 0] by auto
    moreover have "y = ''a'' \<or> y = ''b''" using * dom unfolding dist_is_def by blast
    ultimately show ?thesis using * dist_is_unique [OF b] by auto
  qed
  then have "{(y, k). 1 \<le> k \<and> k \<le> 3 \<and> dist_is ?R {''a''} k y} = {(''b'', 1)}" using b by auto
  then show "(\<lambda>r. (r_id r, r_distance r)) ` set (fst (walk env ''a'' 3 Downstream (ring d))) = {(''b'', 1)}"
    using walk_exact [of "ring d" "''a''" env 3 Downstream] ring_facts(1) unfolding ring_facts(3) by simp
qed

lemma walk_dual_witness:
  "\<forall>env d. resident (ring d) ''a'' \<and> resident (ring d) ''b'' \<and>
    ((\<exists>r \<in> set (fst (impact_set env ''a'' 1 (ring d))). r_id r = ''b'' \<and> r_distance r = 1)
      \<longleftrightarrow> (\<exists>r \<in> set (fst (source_set env ''b'' 1 (ring d))). r_id r = ''a'' \<and> r_distance r = 1))"
  using walk_dual [OF ring_facts(1) ring_facts(2)] ring_facts by blast

end
