(* ===== verification/CausalFlash.thy ===== *)
theory CausalFlash
  imports Bfs GraphReach
begin

text \<open>
  The causal cone (\<open>src/causal_flash.rs\<close>): a bounded window of nodes around the working set, its
  dependencies by layers up to a horizon, a ring of callers, and a budget that only drops
  callers. The adjacency index is cached next to the graph and keyed on the number of edges
  (\<open>with_causal_adjacency\<close> of \<open>src/memory.rs\<close>), so the cache is an argument and a result here.
\<close>

subsection \<open>Configuration and result\<close>

record flash_config =
  f_horizon :: nat
  f_low_trust_seeds :: bool
  f_trust_threshold :: f64
  f_decay :: f64
  f_callers :: bool
  f_max_nodes :: "nat option"

datatype causal_role = Seed | Dependency | Caller

record window_node =
  cw_id :: node_id
  cw_state :: node_state
  cw_trust :: f64
  cw_role :: causal_role
  cw_depth :: nat
  cw_relevance :: f64

record causal_window =
  win_nodes :: "window_node list"
  win_complete :: bool
  win_omitted :: nat
  win_seeds :: nat

definition flash_default :: flash_config where
  "flash_default = \<lparr>f_horizon = 3, f_low_trust_seeds = False, f_trust_threshold = f64_rat 1 2,
     f_decay = f64_rat 1 2, f_callers = True, f_max_nodes = None\<rparr>"

definition is_dependency_edge :: "edge_type \<Rightarrow> bool" where
  "is_dependency_edge t \<longleftrightarrow> t \<in> {DependsOn, Contains, References, Causes, Calls, DataFlow}"

definition f64_total_key :: "f64 \<Rightarrow> int" where
  "f64_total_key x = (if f64_neg_bit x then - int (f64_mag x) - 1 else int (f64_mag x))"

definition f64_total_cmp :: "f64 \<Rightarrow> f64 \<Rightarrow> cmp" where
  \<comment> \<open>\<open>f64::total_cmp\<close>: the order of the bit patterns\<close>
  "f64_total_cmp x y = ord_cmp (f64_total_key x) (f64_total_key y)"

definition f64_min_positive :: f64 where "f64_min_positive = 0x0010000000000000"

definition bset :: "'a :: linorder list \<Rightarrow> 'a list" where
  \<comment> \<open>\<open>collect::<BTreeSet<_>>()\<close>, in iteration order\<close>
  "bset xs = sort (remdups xs)"

subsection \<open>The adjacency index\<close>

record causal_adjacency =
  ca_fwd :: "(node_id, (node_id \<times> f64) list) omap"
  ca_rev :: "(node_id, node_id list) omap"

definition index_edge :: "graph_edge \<Rightarrow> causal_adjacency \<Rightarrow> causal_adjacency" where
  "index_edge e adj =
     (if \<not> is_dependency_edge (e_type e) then adj
      else \<lparr>ca_fwd = om_push (e_source e) (e_target e, e_weight e) (ca_fwd adj),
            ca_rev = om_push (e_target e) (e_source e) (ca_rev adj)\<rparr>)"

definition causal_adjacency_of :: "mem_graph \<Rightarrow> causal_adjacency" where
  "causal_adjacency_of g =
     (let adj = fold index_edge (g_edges g) \<lparr>ca_fwd = [], ca_rev = []\<rparr>
      in \<lparr>ca_fwd = map (\<lambda>(k, v). (k, sort_key fst v)) (ca_fwd adj), ca_rev = map (\<lambda>(k, v). (k, sort v)) (ca_rev adj)\<rparr>)"

type_synonym flash_cache = "(nat \<times> causal_adjacency) option"

definition cached_adjacency :: "flash_cache \<Rightarrow> mem_graph \<Rightarrow> causal_adjacency" where
  \<comment> \<open>rebuilt only when the number of edges differs from the one the cache was built for\<close>
  "cached_adjacency cache g = (case cache of
      Some (k, adj) \<Rightarrow> if k = length (g_edges g) then adj else causal_adjacency_of g
    | None \<Rightarrow> causal_adjacency_of g)"

subsection \<open>The cone\<close>

record cone =
  c_depth :: "(node_id, nat) omap"
  c_rel :: "(node_id, f64) omap"
  c_next :: "node_id list"

definition rel_of :: "cone \<Rightarrow> node_id \<Rightarrow> f64" where
  "rel_of st i = (case map_of (c_rel st) i of Some r \<Rightarrow> r | None \<Rightarrow> f64_zero False)"

definition reach_child :: "mem_graph \<Rightarrow> nat \<Rightarrow> f64 \<Rightarrow> f64 \<Rightarrow> node_id \<times> f64 \<Rightarrow> cone \<Rightarrow> cone" where
  "reach_child g d prel decay = (\<lambda>(child, w) st.
     if is_orphan g child then st
     else let st1 = st\<lparr>c_rel := om_insert child (f64_add (rel_of st child) (f64_mul (f64_mul prel decay) w)) (c_rel st)\<rparr>
       in if om_contains (c_depth st) child then st1
          else st1\<lparr>c_depth := om_insert child d (c_depth st), c_next := insort_insert child (c_next st)\<rparr>)"

definition expand_parent :: "mem_graph \<Rightarrow> causal_adjacency \<Rightarrow> nat \<Rightarrow> f64 \<Rightarrow> node_id \<Rightarrow> cone \<Rightarrow> cone" where
  \<comment> \<open>\<open>relevance[parent]\<close> is there: every frontier node got one when it was reached (\<open>frontier_relevance\<close>)\<close>
  "expand_parent g adj d decay parent st =
     fold (reach_child g d (rel_of st parent) decay) (nbrs (ca_fwd adj) parent) st"

fun cone_layers :: "mem_graph \<Rightarrow> causal_adjacency \<Rightarrow> f64 \<Rightarrow> nat \<Rightarrow> nat \<Rightarrow> node_id list \<Rightarrow> cone \<Rightarrow> node_id list \<times> cone" where
  \<comment> \<open>\<open>for d in 1..=horizon\<close>: layers left, depth of the next layer, frontier\<close>
  "cone_layers g adj decay 0 d frontier st = (frontier, st)"
| "cone_layers g adj decay (Suc n) d frontier st =
     (let st' = fold (expand_parent g adj d decay) frontier (st\<lparr>c_next := []\<rparr>)
      in if c_next st' = [] then ([], st') else cone_layers g adj decay n (Suc d) (c_next st') st')"

definition cut_deps :: "mem_graph \<Rightarrow> causal_adjacency \<Rightarrow> node_id list \<Rightarrow> cone \<Rightarrow> node_id list" where
  "cut_deps g adj frontier st =
     bset (filter (\<lambda>c. \<not> is_orphan g c \<and> \<not> om_contains (c_depth st) c)
       (concat (map (\<lambda>p. map fst (nbrs (ca_fwd adj) p)) frontier)))"

definition cone_nodes :: "mem_graph \<Rightarrow> node_id list \<Rightarrow> cone \<Rightarrow> window_node list" where
  "cone_nodes g seeds st = List.map_filter (\<lambda>(i, d). case map_of (g_nodes g) i of None \<Rightarrow> None
     | Some n \<Rightarrow> Some \<lparr>cw_id = i, cw_state = n_state n, cw_trust = n_trust n,
         cw_role = (if i \<in> set seeds then Seed else Dependency), cw_depth = d, cw_relevance = rel_of st i\<rparr>) (c_depth st)"

definition add_caller :: "mem_graph \<Rightarrow> cone \<Rightarrow> f64 \<Rightarrow> node_id \<times> nat \<Rightarrow> node_id \<Rightarrow> window_node list \<Rightarrow> window_node list" where
  "add_caller g st decay = (\<lambda>(member, d) caller ring.
     if om_contains (c_depth st) caller \<or> caller \<in> cw_id ` set ring then ring
     else case map_of (g_nodes g) caller of None \<Rightarrow> ring
       | Some n \<Rightarrow> if n_state n = Orphan then ring
           else ring @ [\<lparr>cw_id = caller, cw_state = n_state n, cw_trust = n_trust n, cw_role = Caller, cw_depth = d,
                         cw_relevance = f64_mul (rel_of st member) decay\<rparr>])"

definition caller_ring :: "mem_graph \<Rightarrow> causal_adjacency \<Rightarrow> f64 \<Rightarrow> cone \<Rightarrow> window_node list" where
  "caller_ring g adj decay st =
     fold (\<lambda>(i, d). fold (add_caller g st decay (i, d)) (nbrs (ca_rev adj) i)) (c_depth st) []"

fun role_rank :: "causal_role \<Rightarrow> nat" where
  "role_rank Seed = 0" | "role_rank Dependency = 1" | "role_rank Caller = 2"

definition reading_cmp :: "window_node \<Rightarrow> window_node \<Rightarrow> cmp" where
  "reading_cmp a b = cmp_then (ord_cmp (role_rank (cw_role a)) (role_rank (cw_role b)))
     (cmp_then (ord_cmp (cw_depth a) (cw_depth b))
     (cmp_then (f64_total_cmp (cw_relevance b) (cw_relevance a)) (ord_cmp (cw_id a) (cw_id b))))"

definition drop_cmp :: "window_node list \<Rightarrow> nat \<Rightarrow> nat \<Rightarrow> cmp" where
  "drop_cmp out i j = cmp_then (f64_total_cmp (cw_relevance (out ! i)) (cw_relevance (out ! j)))
     (ord_cmp (cw_id (out ! i)) (cw_id (out ! j)))"

definition dropped :: "nat option \<Rightarrow> window_node list \<Rightarrow> nat list" where
  \<comment> \<open>the indices the budget removes: callers, least relevant first\<close>
  "dropped cap out = (case cap of None \<Rightarrow> [] | Some c \<Rightarrow>
     if length out > c
     then take (length out - c) (sort_by (drop_cmp out) (filter (\<lambda>i. cw_role (out ! i) = Caller) [0..<length out]))
     else [])"

definition keep_rest :: "nat list \<Rightarrow> window_node list \<Rightarrow> window_node list" where
  "keep_rest gone out = map snd (filter (\<lambda>(i, _). i \<notin> set gone) (enumerate 0 out))"

definition cone_start :: "node_id list \<Rightarrow> cone" where
  "cone_start seeds = \<lparr>c_depth = map (\<lambda>s. (s, 0)) seeds, c_rel = map (\<lambda>s. (s, f64_rat 1 1)) seeds, c_next = []\<rparr>"

definition cone_core :: "flash_config \<Rightarrow> causal_adjacency \<Rightarrow> node_id list \<Rightarrow> mem_graph \<Rightarrow> causal_window" where
  "cone_core cfg adj seeds g =
     (let decay = f64_clamp (f_decay cfg) f64_min_positive (f64_rat 1 1);
          (frontier, st) = cone_layers g adj decay (f_horizon cfg) 1 seeds (cone_start seeds);
          cut = (if f_horizon cfg > 0 then cut_deps g adj frontier st else []);
          out = sort_by reading_cmp (cone_nodes g seeds st @ (if f_callers cfg then caller_ring g adj decay st else []));
          gone = dropped (f_max_nodes cfg) out
      in \<lparr>win_nodes = keep_rest gone out, win_complete = (cut = []), win_omitted = length cut + length gone,
          win_seeds = length seeds\<rparr>)"

definition flash_seeds :: "flash_config \<Rightarrow> mem_graph \<Rightarrow> node_id list" where
  "flash_seeds cfg g = bset (map fst (filter (\<lambda>(_, n). n_state n \<noteq> Orphan \<and>
     (n_state n = Working \<or> f_low_trust_seeds cfg \<and> f64_lt (n_trust n) (f_trust_threshold cfg))) (g_nodes g)))"

definition causal_flash_window :: "flash_config \<Rightarrow> flash_cache \<Rightarrow> mem_graph \<Rightarrow> causal_window \<times> flash_cache" where
  "causal_flash_window cfg cache g =
     (let adj = cached_adjacency cache g in (cone_core cfg adj (flash_seeds cfg g) g, Some (length (g_edges g), adj)))"

definition causal_flash_window_with :: "flash_config \<Rightarrow> causal_adjacency \<Rightarrow> node_id list \<Rightarrow> mem_graph \<Rightarrow> causal_window" where
  "causal_flash_window_with cfg adj seed_ids g = cone_core cfg adj
     (bset (filter (\<lambda>i. case map_of (g_nodes g) i of Some n \<Rightarrow> n_state n \<noteq> Orphan | None \<Rightarrow> False) seed_ids)) g"

subsection \<open>What the cone holds\<close>

definition dep_arcs :: "mem_graph \<Rightarrow> (node_id \<times> node_id) set" where
  \<comment> \<open>\<open>a\<close> depends on \<open>b\<close>, and \<open>b\<close> is not an orphan\<close>
  "dep_arcs g = {(a, b). \<exists>e \<in> set (g_edges g). is_dependency_edge (e_type e) \<and> e_source e = a \<and> e_target e = b \<and> \<not> is_orphan g b}"

lemma set_bset [simp]: "set (bset xs) = set xs"
  by (simp add: bset_def)

lemma distinct_bset [simp]: "distinct (bset xs)"
  by (simp add: bset_def)

lemma fwd_of: "fst ` set (nbrs (ca_fwd (causal_adjacency_of g)) a)
    = {b. \<exists>e \<in> set (g_edges g). is_dependency_edge (e_type e) \<and> e_source e = a \<and> e_target e = b}"
proof -
  have "fst ` set (nbrs (ca_fwd (fold index_edge es adj)) a) = fst ` set (nbrs (ca_fwd adj) a)
      \<union> {b. \<exists>e \<in> set es. is_dependency_edge (e_type e) \<and> e_source e = a \<and> e_target e = b}" for es adj
  proof (induction es arbitrary: adj)
    case (Cons e es)
    then show ?case by (auto simp: index_edge_def)
  qed simp
  then show ?thesis by (simp add: causal_adjacency_of_def Let_def nbrs_map)
qed

lemma reach_child_next: "set (c_next (reach_child g d prel decay cw st))
    = set (c_next st) \<union> {c. c = fst cw \<and> \<not> is_orphan g c \<and> \<not> om_contains (c_depth st) c}"
  by (cases cw) (auto simp: reach_child_def Let_def set_insort_insert)

lemma reach_child_depth: "map_of (c_depth (reach_child g d prel decay cw st)) y
    = (if y = fst cw \<and> \<not> is_orphan g y \<and> map_of (c_depth st) y = None then Some d else map_of (c_depth st) y)"
  by (cases cw) (auto simp: reach_child_def Let_def om_contains_def)

lemma reach_fold:
  shows "map_of (c_depth (fold (reach_child g d prel decay) cws st)) y
      = (if y \<in> fst ` set cws \<and> \<not> is_orphan g y \<and> map_of (c_depth st) y = None then Some d else map_of (c_depth st) y)"
    and "set (c_next (fold (reach_child g d prel decay) cws st)) = set (c_next st)
      \<union> {c \<in> fst ` set cws. \<not> is_orphan g c \<and> map_of (c_depth st) c = None}"
  by (induction cws arbitrary: st) (auto simp: reach_child_depth reach_child_next om_contains_def)

definition kids_of :: "mem_graph \<Rightarrow> causal_adjacency \<Rightarrow> node_id list \<Rightarrow> node_id set" where
  "kids_of g adj ps = {c. \<exists>p \<in> set ps. c \<in> fst ` set (nbrs (ca_fwd adj) p) \<and> \<not> is_orphan g c}"

lemma expand_fold:
  shows "map_of (c_depth (fold (expand_parent g adj d decay) ps st)) y
      = (if y \<in> kids_of g adj ps \<and> map_of (c_depth st) y = None then Some d else map_of (c_depth st) y)"
    and "set (c_next (fold (expand_parent g adj d decay) ps st))
      = set (c_next st) \<union> {c \<in> kids_of g adj ps. map_of (c_depth st) c = None}"
  unfolding kids_of_def
  by (induction ps arbitrary: st) (auto simp: expand_parent_def reach_fold)

definition layer_ok :: "(node_id \<times> node_id) set \<Rightarrow> node_id set \<Rightarrow> nat \<Rightarrow> node_id list \<Rightarrow> cone \<Rightarrow> bool" where
  "layer_ok R S d frontier st \<longleftrightarrow>
     (\<forall>y k. map_of (c_depth st) y = Some k \<longleftrightarrow> k \<le> d \<and> dist_is R S k y) \<and> set frontier = {y. dist_is R S d y}"

lemma layer_step:
  assumes ok: "layer_ok (dep_arcs g) S d frontier st"
    and st': "st' = fold (expand_parent g (causal_adjacency_of g) (Suc d) decay) frontier (st\<lparr>c_next := []\<rparr>)"
  shows "layer_ok (dep_arcs g) S (Suc d) (c_next st') st'"
proof -
  let ?R = "dep_arcs g"
  let ?kids = "kids_of g (causal_adjacency_of g) frontier"
  have "set frontier = {y. dist_is ?R S d y}" using ok by (simp add: layer_ok_def)
  moreover have "(x, y) \<in> ?R \<longleftrightarrow> y \<in> fst ` set (nbrs (ca_fwd (causal_adjacency_of g)) x) \<and> \<not> is_orphan g y" for x y
    unfolding fwd_of by (auto simp: dep_arcs_def)
  ultimately have kids: "?kids = {y. \<exists>x. dist_is ?R S d x \<and> (x, y) \<in> ?R}" unfolding kids_of_def by blast
  have depth: "map_of (c_depth st) y = Some k \<longleftrightarrow> k \<le> d \<and> dist_is ?R S k y" for y k
    using ok by (simp add: layer_ok_def)
  have new: "y \<in> ?kids \<and> map_of (c_depth st) y = None \<longleftrightarrow> dist_is ?R S (Suc d) y" for y
  proof
    assume *: "y \<in> ?kids \<and> map_of (c_depth st) y = None"
    then obtain x where x: "dist_is ?R S d x" "(x, y) \<in> ?R" unfolding kids by blast
    obtain j where j: "j \<le> Suc d" "dist_is ?R S j y" using dist_is_step [OF x] by blast
    moreover have "\<not> j \<le> d" using * j depth [of y j] by simp
    ultimately show "dist_is ?R S (Suc d) y" by (simp add: le_Suc_eq)
  next
    assume *: "dist_is ?R S (Suc d) y"
    then have "y \<in> ?kids" unfolding kids using dist_is_pred [OF *] by blast
    moreover have "map_of (c_depth st) y = None"
    proof (cases "map_of (c_depth st) y")
      case (Some k)
      then have "k \<le> d" "k = Suc d" using depth dist_is_unique [OF *] by blast+
      then show ?thesis by simp
    qed
    ultimately show "y \<in> ?kids \<and> map_of (c_depth st) y = None" by blast
  qed
  have dep: "map_of (c_depth st') y = (if dist_is ?R S (Suc d) y then Some (Suc d) else map_of (c_depth st) y)" for y
    unfolding st' expand_fold(1) new [symmetric] by simp
  have "set (c_next st') = {y \<in> ?kids. map_of (c_depth st) y = None}" unfolding st' expand_fold(2) by simp
  also have "\<dots> = {y. dist_is ?R S (Suc d) y}" using new by blast
  finally have nxt: "set (c_next st') = {y. dist_is ?R S (Suc d) y}" .
  have "map_of (c_depth st') y = Some k \<longleftrightarrow> k \<le> Suc d \<and> dist_is ?R S k y" for y k
  proof (cases "dist_is ?R S (Suc d) y")
    case True
    then have "k \<le> Suc d \<and> dist_is ?R S k y \<longleftrightarrow> k = Suc d" using dist_is_unique [OF True, of k] by blast
    then show ?thesis unfolding dep using True by auto
  next
    case False
    then have "k \<le> Suc d \<and> dist_is ?R S k y \<longleftrightarrow> k \<le> d \<and> dist_is ?R S k y" by (auto simp: le_Suc_eq)
    then show ?thesis unfolding dep using False depth by simp
  qed
  then show ?thesis using nxt unfolding layer_ok_def by blast
qed

lemma dist_is_gap: "dist_is R S (n + m) y \<Longrightarrow> \<exists>x. dist_is R S n x"
proof (induction m arbitrary: y)
  case (Suc m)
  then show ?case using dist_is_pred [of R S "n + m" y] by auto
qed auto

lemma layers_ok:
  assumes "layer_ok (dep_arcs g) S d frontier st"
    and "cone_layers g (causal_adjacency_of g) decay n (Suc d) frontier st = (frontier', st')"
  shows "layer_ok (dep_arcs g) S (d + n) frontier' st'"
  using assms
proof (induction n arbitrary: d frontier st)
  case 0
  then show ?case by simp
next
  case (Suc n)
  let ?st = "fold (expand_parent g (causal_adjacency_of g) (Suc d) decay) frontier (st\<lparr>c_next := []\<rparr>)"
  have ok: "layer_ok (dep_arcs g) S (Suc d) (c_next ?st) ?st" by (rule layer_step [OF Suc.prems(1) refl])
  show ?case
  proof (cases "c_next ?st = []")
    case True
    then have "frontier' = []" "st' = ?st" using Suc.prems(2) by (simp_all add: Let_def)
    moreover have "\<not> dist_is (dep_arcs g) S k y" if "Suc d \<le> k" for k y
      using dist_is_gap [of "dep_arcs g" S "Suc d" "k - Suc d" y] that ok True by (auto simp: layer_ok_def)
    then have "dist_is (dep_arcs g) S k y \<Longrightarrow> k \<le> d" for k y using not_less_eq_eq by blast
    ultimately show ?thesis using ok unfolding layer_ok_def by fastforce
  next
    case False
    then show ?thesis using Suc.IH [OF ok] Suc.prems(2) by (simp add: Let_def)
  qed
qed

lemma cone_start_ok: "layer_ok R (set seeds) 0 seeds (cone_start seeds)"
proof -
  have "map_of (map (\<lambda>s. (s, 0)) seeds) y = (if y \<in> set seeds then Some (0 :: nat) else None)" for y :: node_id
    by (induction seeds) auto
  then show ?thesis by (auto simp: layer_ok_def cone_start_def split: if_splits)
qed

lemmas cone_exact = layers_ok [OF cone_start_ok, simplified]

text \<open>Every node the cone recorded has a relevance, so \<open>relevance[parent]\<close> never misses.\<close>

lemma frontier_relevance:
  assumes "cone_layers g adj decay n d seeds (cone_start seeds) = (frontier, st)" "y \<in> dom (map_of (c_depth st)) \<union> set frontier"
  shows "y \<in> dom (map_of (c_rel st))"
proof -
  let ?ok = "\<lambda>st. dom (map_of (c_depth st)) \<union> set (c_next st) \<subseteq> dom (map_of (c_rel st))"
  have reach: "?ok (fold (reach_child g d prel decay) cws st)" if "?ok st" for cws prel d and st :: cone
    using that
  proof (induction cws arbitrary: st)
    case (Cons cw cws)
    have "?ok (reach_child g d prel decay cw st)"
      using Cons.prems by (cases cw) (auto simp: reach_child_def Let_def set_insort_insert)
    then show ?case using Cons.IH by simp
  qed simp
  have step: "?ok (fold (expand_parent g adj d decay) ps st)" if "?ok st" for ps d and st :: cone
    using that
  proof (induction ps arbitrary: st)
    case (Cons p ps)
    then show ?case using reach [OF Cons.prems] by (simp add: expand_parent_def)
  qed simp
  have "?ok st' \<and> set frontier' \<subseteq> dom (map_of (c_rel st'))"
    if "?ok st" "set frontier \<subseteq> dom (map_of (c_rel st))" "cone_layers g adj decay n d frontier st = (frontier', st')"
    for n d frontier st frontier' st'
    using that
  proof (induction n arbitrary: d frontier st)
    case (Suc n)
    let ?st = "fold (expand_parent g adj d decay) frontier (st\<lparr>c_next := []\<rparr>)"
    have "?ok ?st" using Suc.prems(1) by (intro step) auto
    then show ?case using Suc.IH [of ?st "c_next ?st" "Suc d"] Suc.prems(3) by (auto simp: Let_def split: if_splits)
  qed simp
  from this [of "cone_start seeds" seeds n d frontier st] assms show ?thesis
    by (auto simp: cone_start_def dom_map_of_conv_image_fst image_image)
qed

lemma depth_sorted:
  assumes "om_ok (c_depth st)" "cone_layers g adj decay n d frontier st = (frontier', st')"
  shows "om_ok (c_depth st')"
proof -
  have reach: "om_ok (c_depth (fold (reach_child g d prel decay) cws st))" if "om_ok (c_depth st)" for cws prel d and st :: cone
    by (rule fold_invariant [where Q = "\<lambda>_. True"]) (auto simp: that reach_child_def Let_def intro: om_ok_insert)
  have step: "om_ok (c_depth (fold (expand_parent g adj d decay) ps st))" if "om_ok (c_depth st)" for ps d and st :: cone
    by (rule fold_invariant [where Q = "\<lambda>_. True"]) (auto simp: that expand_parent_def reach)
  show ?thesis using assms
  proof (induction n arbitrary: d frontier st)
    case (Suc n)
    let ?st = "fold (expand_parent g adj d decay) frontier (st\<lparr>c_next := []\<rparr>)"
    have "om_ok (c_depth ?st)" using Suc.prems(1) by (intro step) simp
    then show ?case using Suc.IH [of ?st "Suc d"] Suc.prems(2) by (auto simp: Let_def split: if_splits)
  qed simp
qed

subsection \<open>What the window holds\<close>

lemma set_keep_rest: "set (keep_rest gone out) = {out ! i | i. i < length out \<and> i \<notin> set gone}"
  by (force simp: keep_rest_def in_set_enumerate_eq image_iff)

lemma dropped_callers: "i \<in> set (dropped cap out) \<Longrightarrow> i < length out \<and> cw_role (out ! i) = Caller"
  by (auto simp: dropped_def split: option.splits if_splits dest!: in_set_takeD)

lemma keep_members: "{n \<in> set (keep_rest (dropped cap out) out). cw_role n \<noteq> Caller} = {n \<in> set out. cw_role n \<noteq> Caller}"
  unfolding set_keep_rest using dropped_callers [of _ cap out] by (auto simp: in_set_conv_nth)

lemma ring_callers: "n \<in> set (caller_ring g adj decay st) \<Longrightarrow> cw_role n = Caller"
proof -
  have one: "\<forall>n \<in> set (fold (add_caller g st decay m) cs ring). cw_role n = Caller"
    if "\<forall>n \<in> set ring. cw_role n = Caller" for m cs ring
    by (rule fold_invariant [where Q = "\<lambda>_. True"]) (auto simp: that add_caller_def split: prod.splits option.splits)
  have "\<forall>n \<in> set (fold (\<lambda>(i, d). fold (add_caller g st decay (i, d)) (nbrs (ca_rev adj) i)) ms ring). cw_role n = Caller"
    if "\<forall>n \<in> set ring. cw_role n = Caller" for ms ring
    by (rule fold_invariant [where Q = "\<lambda>_. True"]) (use that one in \<open>auto split: prod.splits\<close>)
  from this [of "[]" "c_depth st"] show "n \<in> set (caller_ring g adj decay st) \<Longrightarrow> cw_role n = Caller" by (simp add: caller_ring_def)
qed

lemma cone_members: "om_ok (c_depth st) \<Longrightarrow>
    (\<lambda>n. (cw_id n, cw_depth n)) ` set (cone_nodes g seeds st) = {(y, k). resident g y \<and> map_of (c_depth st) y = Some k}"
  by (force simp: cone_nodes_def in_map_filter om_get_iff om_contains_def image_iff split: option.splits)

lemma cone_roles: "n \<in> set (cone_nodes g seeds st) \<Longrightarrow> cw_role n \<noteq> Caller"
  unfolding cone_nodes_def in_map_filter by (elim bexE) (auto split: option.splits prod.splits if_split_asm)

lemma cone_core_unfold:
  assumes "cone_layers g adj (f64_clamp (f_decay cfg) f64_min_positive (f64_rat 1 1)) (f_horizon cfg) 1 seeds (cone_start seeds) = (frontier, st)"
  defines "out \<equiv> sort_by reading_cmp (cone_nodes g seeds st @
      (if f_callers cfg then caller_ring g adj (f64_clamp (f_decay cfg) f64_min_positive (f64_rat 1 1)) st else []))"
  shows "cone_core cfg adj seeds g = \<lparr>win_nodes = keep_rest (dropped (f_max_nodes cfg) out) out,
     win_complete = (f_horizon cfg > 0 \<longrightarrow> cut_deps g adj frontier st = []),
     win_omitted = length (if f_horizon cfg > 0 then cut_deps g adj frontier st else []) + length (dropped (f_max_nodes cfg) out),
     win_seeds = length seeds\<rparr>"
  unfolding cone_core_def Let_def assms(1) out_def by simp

lemma window_members:
  assumes seeds: "sorted_wrt (<) seeds"
  shows "(\<lambda>n. (cw_id n, cw_depth n)) ` {n \<in> set (win_nodes (cone_core cfg (causal_adjacency_of g) seeds g)). cw_role n \<noteq> Caller}
    = {(y, k). resident g y \<and> k \<le> f_horizon cfg \<and> dist_is (dep_arcs g) (set seeds) k y}"
proof -
  let ?adj = "causal_adjacency_of g"
  let ?decay = "f64_clamp (f_decay cfg) f64_min_positive (f64_rat 1 1)"
  obtain frontier st where st: "cone_layers g ?adj ?decay (f_horizon cfg) 1 seeds (cone_start seeds) = (frontier, st)" by fastforce
  have "layer_ok (dep_arcs g) (set seeds) (f_horizon cfg) frontier st" using cone_exact [of g ?decay "f_horizon cfg" seeds frontier st] st by simp
  then have depth: "map_of (c_depth st) y = Some k \<longleftrightarrow> k \<le> f_horizon cfg \<and> dist_is (dep_arcs g) (set seeds) k y" for y k
    by (simp add: layer_ok_def)
  have "om_ok (c_depth st)" using depth_sorted [OF _ st] seeds by (simp add: cone_start_def om_ok_def comp_def)
  then have c: "(\<lambda>n. (cw_id n, cw_depth n)) ` set (cone_nodes g seeds st) = {(y, k). resident g y \<and> map_of (c_depth st) y = Some k}"
    by (rule cone_members)
  have "{n \<in> set (win_nodes (cone_core cfg ?adj seeds g)). cw_role n \<noteq> Caller} = set (cone_nodes g seeds st)"
    unfolding cone_core_unfold [OF st] causal_window.simps keep_members
    using ring_callers cone_roles by (auto split: if_splits)
  then show ?thesis unfolding depth c by (simp add: c depth)
qed

lemma flash_seeds_sorted: "sorted_wrt (<) (flash_seeds cfg g)"
  by (simp add: flash_seeds_def bset_def strict_sorted_iff)

lemma flash_members:
  "(\<lambda>n. (cw_id n, cw_depth n)) ` {n \<in> set (win_nodes (fst (causal_flash_window cfg None g))). cw_role n \<noteq> Caller}
    = {(y, k). resident g y \<and> k \<le> f_horizon cfg \<and> dist_is (dep_arcs g) (set (flash_seeds cfg g)) k y}"
  using window_members [OF flash_seeds_sorted] by (simp add: causal_flash_window_def cached_adjacency_def Let_def)

text \<open>
  C34. With a fresh index the window holds, callers aside, exactly the resident nodes at dependency
  distance up to the horizon from the working set, each at its shortest distance, whatever the
  node budget; the walk never enters an orphan.
\<close>

theorem flash_cone_exact:
  "(\<lambda>n. (cw_id n, cw_depth n)) ` {n \<in> set (win_nodes (fst (causal_flash_window cfg None g))). cw_role n \<noteq> Caller}
    = {(y, k). resident g y \<and> k \<le> f_horizon cfg \<and> dist_is (dep_arcs g) (set (flash_seeds cfg g)) k y}"
  by (rule flash_members)

lemma cut_members: "layer_ok (dep_arcs g) S d frontier st \<Longrightarrow>
    set (cut_deps g (causal_adjacency_of g) frontier st) = {y. dist_is (dep_arcs g) S (Suc d) y}"
proof -
  assume ok: "layer_ok (dep_arcs g) S d frontier st"
  let ?next = "c_next (fold (expand_parent g (causal_adjacency_of g) (Suc d) 0) frontier (st\<lparr>c_next := []\<rparr>))"
  have "set (cut_deps g (causal_adjacency_of g) frontier st) = set ?next"
    by (auto simp: cut_deps_def expand_fold(2) kids_of_def om_contains_def)
  also have "\<dots> = {y. dist_is (dep_arcs g) S (Suc d) y}"
    using layer_step [OF ok refl, of 0] by (simp add: layer_ok_def)
  finally show ?thesis .
qed

text \<open>
  C35. With a positive horizon the flag \<open>complete\<close> is honest: it is set exactly when every node the
  working set depends on, directly or not, is within the horizon. The dependencies counted as
  omitted are those one step beyond it.
\<close>

theorem flash_complete_honest:
  assumes "0 < f_horizon cfg"
  shows "win_complete (fst (causal_flash_window cfg None g)) \<longleftrightarrow>
    (\<forall>y. (\<exists>s \<in> set (flash_seeds cfg g). (s, y) \<in> (dep_arcs g)\<^sup>*) \<longrightarrow>
       (\<exists>k \<le> f_horizon cfg. dist_is (dep_arcs g) (set (flash_seeds cfg g)) k y))"
    (is "?l \<longleftrightarrow> ?r")
proof -
  let ?adj = "causal_adjacency_of g" and ?R = "dep_arcs g" and ?S = "set (flash_seeds cfg g)" and ?h = "f_horizon cfg"
  let ?decay = "f64_clamp (f_decay cfg) f64_min_positive (f64_rat 1 1)"
  obtain frontier st where st: "cone_layers g ?adj ?decay ?h 1 (flash_seeds cfg g) (cone_start (flash_seeds cfg g)) = (frontier, st)" by fastforce
  have "layer_ok ?R ?S ?h frontier st" using cone_exact [of g ?decay ?h "flash_seeds cfg g" frontier st] st by simp
  then have cut: "set (cut_deps g ?adj frontier st) = {y. dist_is ?R ?S (Suc ?h) y}" by (rule cut_members)
  have "?l \<longleftrightarrow> cut_deps g ?adj frontier st = []"
    using assms by (simp add: causal_flash_window_def cached_adjacency_def Let_def cone_core_unfold [OF st])
  also have "\<dots> \<longleftrightarrow> \<not> (\<exists>y. dist_is ?R ?S (Suc ?h) y)" unfolding set_empty [symmetric] cut by blast
  also have "\<dots> \<longleftrightarrow> (\<forall>y k. dist_is ?R ?S k y \<longrightarrow> k \<le> ?h)"
  proof
    assume none: "\<not> (\<exists>y. dist_is ?R ?S (Suc ?h) y)"
    show "\<forall>y k. dist_is ?R ?S k y \<longrightarrow> k \<le> ?h"
    proof (intro allI impI, rule ccontr)
      fix y k assume "dist_is ?R ?S k y" "\<not> k \<le> ?h"
      then show False using dist_is_gap [of ?R ?S "Suc ?h" "k - Suc ?h" y] none by simp
    qed
  next
    assume all: "\<forall>y k. dist_is ?R ?S k y \<longrightarrow> k \<le> ?h"
    show "\<not> (\<exists>y. dist_is ?R ?S (Suc ?h) y)" using all by fastforce
  qed
  also have "\<dots> \<longleftrightarrow> ?r" unfolding dist_is_reach [symmetric] using dist_is_unique [of ?R ?S] by blast
  finally show ?thesis .
qed

subsection \<open>The budget\<close>

lemma total_drop_cmp: "total_cmp (drop_cmp out) A"
  by (auto simp: total_cmp_def drop_cmp_def f64_total_cmp_def cmp_then_def ord_cmp_def not_less split: if_splits)

lemma keep_rest_Nil: "keep_rest [] out = out"
  by (simp add: keep_rest_def case_prod_unfold)

lemma length_keep_rest:
  assumes "distinct gone" "\<forall>i \<in> set gone. i < length out"
  shows "length (keep_rest gone out) = length out - length gone"
proof -
  have "length (keep_rest gone out) = card {i. i < length out \<and> i \<notin> set gone}"
    by (simp add: keep_rest_def length_filter_conv_card case_prod_unfold nth_enumerate_eq cong: conj_cong)
  also have "{i. i < length out \<and> i \<notin> set gone} = {..<length out} - set gone" by auto
  also have "card \<dots> = length out - length gone"
    using assms by (subst card_Diff_subset) (auto simp: distinct_card)
  finally show ?thesis .
qed

lemma distinct_dropped: "distinct (dropped cap out)"
  by (auto simp: dropped_def split: option.splits)

lemma dropped_least:
  assumes "i \<in> set (dropped cap out)" "j < length out" "cw_role (out ! j) = Caller" "j \<notin> set (dropped cap out)"
  shows "f64_total_key (cw_relevance (out ! i)) \<le> f64_total_key (cw_relevance (out ! j))"
proof (cases cap)
  case None
  then show ?thesis using assms by (simp add: dropped_def)
next
  case (Some c)
  let ?all = "sort_by (drop_cmp out) (filter (\<lambda>i. cw_role (out ! i) = Caller) [0..<length out])"
  let ?n = "length out - c"
  have d: "dropped cap out = take ?n ?all" using Some assms(1) by (auto simp: dropped_def split: if_splits)
  have "sorted_wrt (\<lambda>a b. drop_cmp out a b \<noteq> Greater) (take ?n ?all @ drop ?n ?all)"
    using sorted_sort_by [OF total_drop_cmp] by simp
  moreover have "j \<in> set (take ?n ?all @ drop ?n ?all)" using assms(2,3) by simp
  then have "j \<in> set (drop ?n ?all)" using assms(4) d by (metis Un_iff set_append)
  ultimately have "drop_cmp out i j \<noteq> Greater" using assms(1) unfolding sorted_wrt_append d by blast
  then show ?thesis by (auto simp: drop_cmp_def f64_total_cmp_def cmp_then_def ord_cmp_def split: if_splits)
qed

text \<open>
  The node budget removes callers only, the least relevant first, and no more than it has to: the
  window is within the cap or has no caller left, every other node stays, and what was removed
  is counted as omitted.
\<close>

theorem flash_budget:
  fixes cfg adj seeds g cap
  defines "full \<equiv> cone_core (cfg\<lparr>f_max_nodes := None\<rparr>) adj seeds g"
    and "w \<equiv> cone_core (cfg\<lparr>f_max_nodes := Some cap\<rparr>) adj seeds g"
  shows "{n \<in> set (win_nodes w). cw_role n \<noteq> Caller} = {n \<in> set (win_nodes full). cw_role n \<noteq> Caller}
    \<and> set (win_nodes w) \<subseteq> set (win_nodes full)
    \<and> (length (win_nodes w) \<le> cap \<or> {n \<in> set (win_nodes w). cw_role n = Caller} = {})
    \<and> (\<forall>a \<in> set (win_nodes full) - set (win_nodes w). \<forall>b \<in> {n \<in> set (win_nodes w). cw_role n = Caller}.
         f64_total_key (cw_relevance a) \<le> f64_total_key (cw_relevance b))
    \<and> win_omitted w = win_omitted full + (length (win_nodes full) - length (win_nodes w))
    \<and> win_complete w = win_complete full"
proof -
  let ?decay = "f64_clamp (f_decay cfg) f64_min_positive (f64_rat 1 1)"
  obtain frontier st where st: "cone_layers g adj ?decay (f_horizon cfg) 1 seeds (cone_start seeds) = (frontier, st)" by fastforce
  define out where "out = sort_by reading_cmp (cone_nodes g seeds st @ (if f_callers cfg then caller_ring g adj ?decay st else []))"
  let ?cut = "length (if f_horizon cfg > 0 then cut_deps g adj frontier st else [])"
  let ?gone = "dropped (Some cap) out"
  have full: "win_nodes full = out" "win_omitted full = ?cut"
    using cone_core_unfold [of g adj "cfg\<lparr>f_max_nodes := None\<rparr>" seeds frontier st] st
    by (simp_all add: full_def out_def dropped_def keep_rest_Nil)
  have w: "win_nodes w = keep_rest ?gone out" "win_omitted w = ?cut + length ?gone" "win_complete w = win_complete full"
    using cone_core_unfold [of g adj "cfg\<lparr>f_max_nodes := Some cap\<rparr>" seeds frontier st]
      cone_core_unfold [of g adj "cfg\<lparr>f_max_nodes := None\<rparr>" seeds frontier st] st
    by (simp_all add: w_def full_def out_def)
  have idx: "i < length out \<and> cw_role (out ! i) = Caller" if "i \<in> set ?gone" for i using dropped_callers that by blast
  have len: "length (win_nodes w) = length out - length ?gone"
    unfolding w by (rule length_keep_rest) (use idx distinct_dropped in auto)
  have "length ?gone \<le> length out" using distinct_dropped idx
    by (metis distinct_card card_mono finite_lessThan card_lessThan lessThan_iff subsetI)
  then have om: "win_omitted w = win_omitted full + (length (win_nodes full) - length (win_nodes w))"
    unfolding len full w(2) by simp
  have cap: "length (win_nodes w) \<le> cap \<or> {n \<in> set (win_nodes w). cw_role n = Caller} = {}"
  proof (cases "length ?gone = length out - cap")
    case True
    then show ?thesis unfolding len by (intro disjI1) arith
  next
    case False
    then have "?gone = sort_by (drop_cmp out) (filter (\<lambda>i. cw_role (out ! i) = Caller) [0..<length out])"
      by (auto simp: dropped_def split: if_splits)
    then have "set ?gone = {i. i < length out \<and> cw_role (out ! i) = Caller}" by auto
    then show ?thesis unfolding w set_keep_rest by auto
  qed
  have least: "f64_total_key (cw_relevance a) \<le> f64_total_key (cw_relevance b)"
    if a: "a \<in> set (win_nodes full) - set (win_nodes w)" and b: "b \<in> set (win_nodes w)" "cw_role b = Caller" for a b
  proof -
    have "a \<in> set out" using a unfolding full by blast
    then obtain i where i: "i < length out" "a = out ! i" by (metis in_set_conv_nth)
    moreover have "i \<in> set ?gone" using a i unfolding w set_keep_rest by blast
    moreover obtain j where "j < length out" "b = out ! j" "j \<notin> set ?gone"
      using b(1) unfolding w set_keep_rest by auto
    ultimately show ?thesis using dropped_least b(2) by blast
  qed
  show ?thesis using om cap least w(3) keep_members [of "Some cap" out] unfolding full w(1) set_keep_rest
    by (auto simp: in_set_conv_nth)
qed

end
