(* ===== verification/CausalFlashWitness.thy ===== *)
theory CausalFlashWitness
  imports CausalFlash GraphFindings
begin

text \<open>
  The cone on concrete graphs: instances of its theorems, the flag of a window with horizon
  zero, and the adjacency cache that survives a change of the edges.
\<close>

lemma cone_core_edges [simp]: "cone_core cfg adj seeds (g\<lparr>g_edges := es\<rparr>) = cone_core cfg adj seeds g"
proof -
  let ?g = "g\<lparr>g_edges := es\<rparr>"
  have orphan: "is_orphan ?g = is_orphan g" by (simp add: is_orphan_def fun_eq_iff)
  have reach: "reach_child ?g = reach_child g" unfolding reach_child_def orphan ..
  have parent: "expand_parent ?g = expand_parent g" unfolding expand_parent_def [abs_def] reach ..
  have layers: "cone_layers ?g adj decay n d fr st = cone_layers g adj decay n d fr st" for decay n d fr st
    by (induction n arbitrary: d fr st) (simp_all add: parent Let_def)
  have cut: "cut_deps ?g = cut_deps g" unfolding cut_deps_def orphan ..
  have nodes: "cone_nodes ?g = cone_nodes g" by (simp add: cone_nodes_def fun_eq_iff)
  have caller: "add_caller ?g = add_caller g" by (simp add: add_caller_def fun_eq_iff)
  have ring: "caller_ring ?g = caller_ring g" unfolding caller_ring_def [abs_def] caller ..
  show ?thesis unfolding cone_core_def layers cut nodes ring ..
qed

text \<open>
  A cache with the right edge count decides the window: it is the one of a graph with the nodes
  of today and the edges of the day the cache was filled.
\<close>

lemma stale_window:
  assumes "length (g_edges g) = length (g_edges g')"
  shows "fst (causal_flash_window cfg (snd (causal_flash_window cfg' None g)) g')
    = fst (causal_flash_window cfg None (g'\<lparr>g_edges := g_edges g\<rparr>))"
proof -
  have "causal_adjacency_of (g'\<lparr>g_edges := g_edges g\<rparr>) = causal_adjacency_of g" by (simp add: causal_adjacency_of_def)
  moreover have "flash_seeds cfg (g'\<lparr>g_edges := g_edges g\<rparr>) = flash_seeds cfg g'" by (simp add: flash_seeds_def)
  ultimately show ?thesis using assms by (simp add: causal_flash_window_def cached_adjacency_def Let_def)
qed

definition working :: "node_id \<Rightarrow> graph_node" where
  "working i = (demo_node i)\<lparr>n_state := Working\<rparr>"

lemma flash_seeds_demo:
  "flash_seeds flash_default (demo d [(''a'', working ''a''), (''b'', demo_node ''b''), (''c'', demo_node ''c'')] es cold keys) = [''a'']"
  "flash_seeds flash_default (demo d [(''a'', working ''a''), (''c'', demo_node ''c'')] es cold keys) = [''a'']"
  by (simp_all add: flash_seeds_def flash_default_def working_def demo_node_def bset_def)

lemma dep_arcs_demo:
  "dep_arcs (demo d [(''a'', working ''a''), (''c'', demo_node ''c'')] [demo_edge s t] cold keys) = {(s, t)}"
  by (auto simp: dep_arcs_def demo_edge_def is_dependency_edge_def is_orphan_def working_def demo_node_def)

lemma dist_single: "s \<noteq> t \<Longrightarrow> dist_is {(s, t)} {s} k y \<longleftrightarrow> y = s \<and> k = 0 \<or> y = t \<and> k = 1"
proof -
  assume st: "s \<noteq> t"
  have pow: "(s, y) \<in> {(s, t)} ^^ k \<longleftrightarrow> y = s \<and> k = 0 \<or> y = t \<and> k = 1" for y k
  proof (induction k arbitrary: y)
    case (Suc k)
    have "(s, y) \<in> {(s, t)} ^^ Suc k \<longleftrightarrow> (\<exists>x. (s, x) \<in> {(s, t)} ^^ k \<and> (x, y) \<in> {(s, t)})" by (auto simp: relcomp_unfold)
    also have "\<dots> \<longleftrightarrow> y = t \<and> k = 0" using st by (auto simp: Suc)
    finally show ?case using st by auto
  qed auto
  show ?thesis unfolding dist_is_def using st by (auto simp: pow)
qed

definition flash_before :: "disk \<Rightarrow> mem_graph" where
  "flash_before d = demo d [(''a'', working ''a''), (''b'', demo_node ''b''), (''c'', demo_node ''c'')] [demo_edge ''a'' ''b''] []
     [(''a'', ''b'', Calls)]"

definition flash_after :: "disk \<Rightarrow> mem_graph" where
  \<comment> \<open>\<open>b\<close> removed, then the call from \<open>a\<close> to \<open>c\<close> added\<close>
  "flash_after d = demo d [(''a'', working ''a''), (''c'', demo_node ''c'')] [demo_edge ''a'' ''c''] [] [(''a'', ''c'', Calls)]"

lemma reach_before: "graph_reach env (flash_before d)"
proof -
  let ?n = "\<lambda>is. map (\<lambda>i. (i, demo_node i)) is"
  have r3: "graph_reach env (demo d (?n [''a'', ''b'', ''c'']) [] [] [])" by (rule reach_three)
  have r4: "graph_reach env (demo d (?n [''a'', ''b'', ''c'']) [demo_edge ''a'' ''b''] [] [(''a'', ''b'', Calls)])"
    using reach_add [OF r3, of "''a''" "''b''" "f64_rat 1 1" Calls]
    by (subst (asm) demo_add) (simp_all add: om_contains_def Let_def)
  have "graph_reach env (set_node_state ''a'' Working (demo d (?n [''a'', ''b'', ''c'']) [demo_edge ''a'' ''b''] [] [(''a'', ''b'', Calls)]))"
    by (rule graph_reach.step [OF r4 graph_step.set_state])
  moreover have "set_node_state ''a'' Working (demo d (?n [''a'', ''b'', ''c'']) [demo_edge ''a'' ''b''] [] [(''a'', ''b'', Calls)]) = flash_before d"
    by (simp add: flash_before_def set_node_state_def om_update_def working_def Let_def) (simp add: demo_def graph_new_def)
  ultimately show ?thesis by (simp only:)
qed

lemma reach_after: "graph_reach env (flash_after d)"
proof -
  have r: "remove_node env ''b'' (flash_before d) = demo d [(''a'', working ''a''), (''c'', demo_node ''c'')] [] [] [(''a'', ''b'', Calls)]"
    unfolding flash_before_def by (subst demo_remove) (simp_all add: om_remove_def demo_edge_def incident_def)
  have "snd (add_edge ''a'' ''c'' (f64_rat 1 1) Calls (remove_node env ''b'' (flash_before d))) = flash_after d"
    unfolding r flash_after_def by (subst demo_add) (simp_all add: om_contains_def Let_def)
  moreover have "graph_reach env (snd (add_edge ''a'' ''c'' (f64_rat 1 1) Calls (remove_node env ''b'' (flash_before d))))"
    by (rule reach_add [OF reach_remove [OF reach_before]])
  ultimately show ?thesis by (simp only:)
qed

lemma cone_ids: "cw_id ` {n \<in> set (win_nodes (fst (causal_flash_window cfg None g))). cw_role n \<noteq> Caller}
    = {y. resident g y \<and> (\<exists>k \<le> f_horizon cfg. dist_is (dep_arcs g) (set (flash_seeds cfg g)) k y)}" (is "cw_id ` ?A = _")
proof -
  have "cw_id ` ?A = fst ` (\<lambda>n. (cw_id n, cw_depth n)) ` ?A" unfolding image_image fst_conv ..
  also have "\<dots> = fst ` {(y, k). resident g y \<and> k \<le> f_horizon cfg \<and> dist_is (dep_arcs g) (set (flash_seeds cfg g)) k y}"
    unfolding flash_members ..
  also have "\<dots> = {y. resident g y \<and> (\<exists>k \<le> f_horizon cfg. dist_is (dep_arcs g) (set (flash_seeds cfg g)) k y)}" by force
  finally show ?thesis .
qed

lemma complete_reach:
  assumes "0 < f_horizon cfg" "\<forall>k y. dist_is (dep_arcs g) (set (flash_seeds cfg g)) k y \<longrightarrow> k \<le> 1"
  shows "win_complete (fst (causal_flash_window cfg None g))"
proof -
  let ?S = "flash_seeds cfg g" and ?adj = "causal_adjacency_of g"
  let ?decay = "f64_clamp (f_decay cfg) f64_min_positive (f64_rat 1 1)"
  obtain fr st where st: "cone_layers g ?adj ?decay (f_horizon cfg) 1 ?S (cone_start ?S) = (fr, st)" by fastforce
  have "set (cut_deps g ?adj fr st) = {y. dist_is (dep_arcs g) (set ?S) (Suc (f_horizon cfg)) y}"
    by (rule cut_members) (use cone_exact [of g ?decay "f_horizon cfg" ?S fr st] st in simp)
  moreover have "\<not> dist_is (dep_arcs g) (set ?S) (Suc (f_horizon cfg)) y" for y
  proof
    assume "dist_is (dep_arcs g) (set ?S) (Suc (f_horizon cfg)) y"
    then have "Suc (f_horizon cfg) \<le> 1" using assms(2) by blast
    then show False using assms(1) by simp
  qed
  ultimately have "cut_deps g ?adj fr st = []" by simp
  then show ?thesis by (simp add: causal_flash_window_def cached_adjacency_def Let_def cone_core_unfold [OF st])
qed

lemma single_near: "s \<noteq> t \<Longrightarrow> \<forall>k y. dist_is {(s, t)} {s} k y \<longrightarrow> k \<le> 1"
  by (auto simp: dist_single)

text \<open>
  The cached index goes stale: after one edge is removed and another added, the window of a
  working node misses its only dependency and still calls itself complete, in states reached by
  the graph's own operations.
\<close>

theorem flash_cache_stale:
  "\<exists>g g'. graph_reach env g \<and> graph_reach env g' \<and>
     (let w = fst (causal_flash_window flash_default (snd (causal_flash_window flash_default None g)) g');
          fresh = fst (causal_flash_window flash_default None g')
      in win_complete w \<and> ''c'' \<notin> cw_id ` {n \<in> set (win_nodes w). cw_role n \<noteq> Caller}
         \<and> ''c'' \<in> cw_id ` {n \<in> set (win_nodes fresh). cw_role n \<noteq> Caller})"
proof -
  obtain d :: disk where True by simp
  let ?old = "demo d [(''a'', working ''a''), (''c'', demo_node ''c'')] [demo_edge ''a'' ''b''] [] [(''a'', ''c'', Calls)]"
  have "(flash_after d)\<lparr>g_edges := g_edges (flash_before d)\<rparr> = ?old" by (simp add: flash_after_def flash_before_def)
  then have w: "fst (causal_flash_window flash_default (snd (causal_flash_window flash_default None (flash_before d))) (flash_after d))
      = fst (causal_flash_window flash_default None ?old)"
    by (subst stale_window) (simp_all add: flash_after_def flash_before_def)
  have h: "f_horizon flash_default = 3" by (simp add: flash_default_def)
  have "''c'' \<notin> cw_id ` {n \<in> set (win_nodes (fst (causal_flash_window flash_default None ?old))). cw_role n \<noteq> Caller}"
    unfolding cone_ids flash_seeds_demo dep_arcs_demo by (simp add: dist_single)
  moreover have "''c'' \<in> cw_id ` {n \<in> set (win_nodes (fst (causal_flash_window flash_default None (flash_after d)))). cw_role n \<noteq> Caller}"
    unfolding cone_ids flash_after_def flash_seeds_demo dep_arcs_demo by (simp add: dist_single h om_contains_def)
  moreover have "win_complete (fst (causal_flash_window flash_default None ?old))"
    by (rule complete_reach) (simp add: h, simp only: flash_seeds_demo dep_arcs_demo list.set, rule single_near, simp)
  ultimately have "let w = fst (causal_flash_window flash_default (snd (causal_flash_window flash_default None (flash_before d))) (flash_after d));
          fresh = fst (causal_flash_window flash_default None (flash_after d))
      in win_complete w \<and> ''c'' \<notin> cw_id ` {n \<in> set (win_nodes w). cw_role n \<noteq> Caller}
         \<and> ''c'' \<in> cw_id ` {n \<in> set (win_nodes fresh). cw_role n \<noteq> Caller}"
    unfolding Let_def w by (intro conjI)
  with reach_before reach_after show ?thesis by (intro exI conjI)
qed

text \<open>
  With horizon zero the flag is set and nothing counts as omitted, although the working node has
  a dependency that the window leaves out.
\<close>

theorem flash_zero_horizon:
  "\<exists>g. graph_reach env g \<and> (let cfg = flash_default\<lparr>f_horizon := 0\<rparr>; w = fst (causal_flash_window cfg None g)
     in win_complete w \<and> win_omitted w = 0 \<and> (\<exists>s \<in> set (flash_seeds cfg g). (s, ''c'') \<in> dep_arcs g)
       \<and> resident g ''c'' \<and> ''c'' \<notin> cw_id ` {n \<in> set (win_nodes w). cw_role n \<noteq> Caller})"
proof -
  obtain d :: disk where True by simp
  let ?cfg = "flash_default\<lparr>f_horizon := 0\<rparr>" and ?g = "flash_after d"
  have seeds: "flash_seeds ?cfg ?g = [''a'']"
    using flash_seeds_demo(2) by (simp add: flash_after_def flash_seeds_def)
  have "''c'' \<notin> cw_id ` {n \<in> set (win_nodes (fst (causal_flash_window ?cfg None ?g))). cw_role n \<noteq> Caller}"
    unfolding cone_ids seeds by simp
  moreover have "win_complete (fst (causal_flash_window ?cfg None ?g))" "win_omitted (fst (causal_flash_window ?cfg None ?g)) = 0"
    by (simp_all add: causal_flash_window_def cached_adjacency_def cone_core_def Let_def dropped_def flash_default_def)
  moreover have "(''a'', ''c'') \<in> dep_arcs ?g" "resident ?g ''c''" by (simp_all add: flash_after_def dep_arcs_demo om_contains_def)
  ultimately show ?thesis using reach_after [of env d] seeds by (intro exI [of _ ?g]) (simp add: Let_def)
qed

lemma flash_complete_honest_witness:
  "\<forall>d. 0 < f_horizon flash_default \<and>
     (win_complete (fst (causal_flash_window flash_default None (flash_after d))) \<longleftrightarrow>
       (\<forall>y. (\<exists>s \<in> {''a''}. (s, y) \<in> {(''a'', ''c'')}\<^sup>*) \<longrightarrow> (\<exists>k \<le> 3. dist_is {(''a'', ''c'')} {''a''} k y)))"
proof (intro allI conjI)
  fix d
  show "0 < f_horizon flash_default" by (simp add: flash_default_def)
  then show "win_complete (fst (causal_flash_window flash_default None (flash_after d))) \<longleftrightarrow>
       (\<forall>y. (\<exists>s \<in> {''a''}. (s, y) \<in> {(''a'', ''c'')}\<^sup>*) \<longrightarrow> (\<exists>k \<le> 3. dist_is {(''a'', ''c'')} {''a''} k y))"
    using flash_complete_honest [of flash_default "flash_after d"]
    by (simp only: flash_after_def flash_seeds_demo dep_arcs_demo) (simp add: flash_default_def)
qed

end
