(* ===== verification/F32.thy ===== *)
theory F32
  imports F64
begin

text \<open>
  Rust's \<open>f32\<close>: IEEE-754 binary32 on 32-bit patterns, built like \<open>F64\<close>: an exact rational,
  rounded once to nearest, ties to even. Finite magnitudes are in units of 2^-149.
\<close>

definition f32_neg_bit :: "f32 \<Rightarrow> bool" where
  "f32_neg_bit x \<longleftrightarrow> 2 ^ 31 \<le> unat x"

definition f32_mag :: "f32 \<Rightarrow> nat" where
  "f32_mag x = unat x mod 2 ^ 31"

definition f32_inf_mag :: nat where
  "f32_inf_mag = 255 * 2 ^ 23"

definition f32_is_nan :: "f32 \<Rightarrow> bool" where
  "f32_is_nan x \<longleftrightarrow> f32_mag x > f32_inf_mag"

definition f32_is_inf :: "f32 \<Rightarrow> bool" where
  "f32_is_inf x \<longleftrightarrow> f32_mag x = f32_inf_mag"

definition f32_num :: "f32 \<Rightarrow> nat" where
  "f32_num x = (let e = f32_mag x div 2 ^ 23; f = f32_mag x mod 2 ^ 23 in
     if e = 0 then f else (2 ^ 23 + f) * 2 ^ (e - 1))"

definition f32_int :: "f32 \<Rightarrow> int" where
  "f32_int x = (if f32_neg_bit x then - int (f32_num x) else int (f32_num x))"

definition f32_of_mag :: "bool \<Rightarrow> nat \<Rightarrow> f32" where
  "f32_of_mag neg m = word_of_nat (if neg then 2 ^ 31 + m else m)"

definition f32_round :: "bool \<Rightarrow> nat \<Rightarrow> nat \<Rightarrow> f32" where
  \<comment> \<open>the value \<open>num / den\<close> in units of 2^-149\<close>
  "f32_round neg num den =
     (let k = bitlen (num div den) - 24;
          d = den * 2 ^ k;
          q = num div d;
          r = num mod d;
          m = k * 2 ^ 23 + (if 2 * r > d \<or> (2 * r = d \<and> odd q) then q + 1 else q)
      in f32_of_mag neg (if m \<ge> f32_inf_mag then f32_inf_mag else m))"

definition f32_nan :: f32 where "f32_nan = f32_of_mag False (f32_inf_mag + 2 ^ 22)"
definition f32_zero :: f32 where "f32_zero = 0"

definition f32_scale :: nat where
  "f32_scale = 2 ^ 149"

definition f32_rat :: "nat \<Rightarrow> nat \<Rightarrow> f32" where
  \<comment> \<open>the literal or quotient \<open>a / b\<close>, correctly rounded\<close>
  "f32_rat a b = f32_round False (a * f32_scale) b"

definition f32_of_nat :: "nat \<Rightarrow> f32" where
  "f32_of_nat n = f32_rat n 1"

definition f32_of_f64 :: "f64 \<Rightarrow> f32" where
  \<comment> \<open>\<open>x as f32\<close>\<close>
  "f32_of_f64 x =
     (if f64_is_nan x then f32_nan
      else if f64_is_inf x then f32_of_mag (f64_neg_bit x) f32_inf_mag
      else f32_round (f64_neg_bit x) (f64_num x) (2 ^ 925))"

definition f32_add :: "f32 \<Rightarrow> f32 \<Rightarrow> f32" where
  "f32_add x y =
     (if f32_is_nan x \<or> f32_is_nan y then f32_nan
      else if f32_is_inf x then (if f32_is_inf y \<and> f32_neg_bit x \<noteq> f32_neg_bit y then f32_nan else x)
      else if f32_is_inf y then y
      else let s = f32_int x + f32_int y in
        if s = 0 then f32_of_mag (f32_neg_bit x \<and> f32_neg_bit y) 0
        else f32_round (s < 0) (nat \<bar>s\<bar>) 1)"

definition f32_sub :: "f32 \<Rightarrow> f32 \<Rightarrow> f32" where
  "f32_sub x y = f32_add x (f32_of_mag (\<not> f32_neg_bit y) (f32_mag y))"

definition f32_mul :: "f32 \<Rightarrow> f32 \<Rightarrow> f32" where
  "f32_mul x y =
     (let neg = (f32_neg_bit x \<noteq> f32_neg_bit y) in
        if f32_is_nan x \<or> f32_is_nan y then f32_nan
        else if f32_is_inf x \<or> f32_is_inf y then
          (if f32_mag x = 0 \<or> f32_mag y = 0 then f32_nan else f32_of_mag neg f32_inf_mag)
        else f32_round neg (f32_num x * f32_num y) f32_scale)"

definition f32_div :: "f32 \<Rightarrow> f32 \<Rightarrow> f32" where
  "f32_div x y =
     (let neg = (f32_neg_bit x \<noteq> f32_neg_bit y) in
        if f32_is_nan x \<or> f32_is_nan y then f32_nan
        else if f32_is_inf x then (if f32_is_inf y then f32_nan else f32_of_mag neg f32_inf_mag)
        else if f32_is_inf y then f32_of_mag neg 0
        else if f32_mag y = 0 then (if f32_mag x = 0 then f32_nan else f32_of_mag neg f32_inf_mag)
        else f32_round neg (f32_num x * f32_scale) (f32_num y))"

definition f32_key :: "f32 \<Rightarrow> int" where
  "f32_key x = (if f32_neg_bit x then - int (f32_mag x) else int (f32_mag x))"

definition f32_lt :: "f32 \<Rightarrow> f32 \<Rightarrow> bool" where
  "f32_lt x y \<longleftrightarrow> \<not> f32_is_nan x \<and> \<not> f32_is_nan y \<and> f32_key x < f32_key y"

definition f32_le :: "f32 \<Rightarrow> f32 \<Rightarrow> bool" where
  "f32_le x y \<longleftrightarrow> \<not> f32_is_nan x \<and> \<not> f32_is_nan y \<and> f32_key x \<le> f32_key y"

definition f32_clamp :: "f32 \<Rightarrow> f32 \<Rightarrow> f32 \<Rightarrow> f32" where
  "f32_clamp x lo hi = (if f32_lt x lo then lo else if f32_lt hi x then hi else x)"

definition f32_cmp :: "f32 \<Rightarrow> f32 \<Rightarrow> cmp" where
  \<comment> \<open>\<open>x.partial_cmp(&y).unwrap_or(Equal)\<close>\<close>
  "f32_cmp x y = (if f32_lt x y then Less else if f32_lt y x then Greater else Equal)"

subsection \<open>Known values\<close>

lemmas f32_eval = f32_rat_def f32_round_def f32_of_mag_def f32_scale_def f32_inf_mag_def f32_num_def f32_mag_def
  f32_is_nan_def f32_is_inf_def f32_neg_bit_def f32_int_def Let_def bitlen.simps

lemma f32_values: "f32_rat 1 1 = 0x3F800000" "f32_rat 1 4 = 0x3E800000" "f32_rat 1 2 = 0x3F000000" "f32_rat 3 10 = 0x3E99999A"
  by (simp_all add: f32_eval)

lemma f32_arith: "f32_add 0x3E800000 0x3F000000 = 0x3F400000" "f32_mul 0x3F000000 0x3E800000 = 0x3E000000"
    "f32_div 0x3F800000 0x40400000 = 0x3EAAAAAB"
  by (simp_all add: f32_add_def f32_mul_def f32_div_def f32_eval)

end
