(* ===== verification/Regions.thy ===== *)
theory Regions
  imports F32 Bfs EventLog Paging
begin

text \<open>
  Context regions (\<open>src/context_region.rs\<close>, \<open>src/context_policy.rs\<close>, \<open>src/region_engine.rs\<close>):
  the graph is cut into regions of files joined by cross-file edges, a task wakes one region,
  activations and evictions go to the event log, and the engine can be rebuilt from the graph and
  that log. A panic (\<open>unwrap\<close> on a missing key) is the result \<open>None\<close>.
\<close>

subsection \<open>Points and regions\<close>

record context_point =
  pt_uri :: string
  pt_x :: f32
  pt_y :: f32
  pt_z :: f32
  pt_importance :: f32
  pt_pressure :: f32
  pt_recency :: f32
  pt_energy :: f32

record context_region =
  rg_id :: string
  rg_center :: string
  rg_members :: "string list"
  rg_total :: f32
  rg_temperature :: f32
  rg_density :: f32
  rg_last :: nat
  rg_count :: nat

definition unit32 :: "f32 \<Rightarrow> f32" where
  "unit32 x = f32_clamp x 0 (f32_rat 1 1)"

definition from_node :: "mem_env \<Rightarrow> graph_node \<Rightarrow> f32 \<Rightarrow> mem_graph \<Rightarrow> context_point \<times> mem_graph" where
  "from_node env n x g =
     (let (score, g') = compute_node_score env n g
      in (\<lparr>pt_uri = n_id n, pt_x = x, pt_y = f32_of_f64 (n_failure_relevance n), pt_z = f32_of_f64 (n_recency n),
           pt_importance = f32_of_f64 (n_base_importance n), pt_pressure = f32_of_f64 (n_failure_relevance n),
           pt_recency = f32_of_f64 (n_recency n), pt_energy = f32_of_f64 score\<rparr>, g'))"

definition heat :: "context_point \<Rightarrow> f32" where
  "heat p = unit32 (f32_add (f32_add (f32_mul (f32_rat 1 2) (pt_energy p)) (f32_mul (f32_rat 3 10) (pt_pressure p)))
     (f32_mul (f32_rat 1 5) (pt_recency p)))"

definition hex_value :: "string \<Rightarrow> nat option" where
  \<comment> \<open>\<open>u32::from_str_radix(s, 16).ok()\<close> for at most eight digits\<close>
  "hex_value s = (if s = [] then None
     else foldl (\<lambda>v c. case (v, to_digit16 c) of (Some a, Some d) \<Rightarrow> Some (16 * a + d) | _ \<Rightarrow> None) (Some 0) s)"

definition structural_coord :: "mem_env \<Rightarrow> string \<Rightarrow> f32" where
  "structural_coord env key =
     f32_div (f32_of_nat (case hex_value (take 8 (hex_bytes (en_sha env (bytes_of key)))) of Some v \<Rightarrow> v | None \<Rightarrow> 0))
       (f32_of_nat (2 ^ 32 - 1))"

definition file_of :: "string \<Rightarrow> string" where
  "file_of uri = (case strip_prefix uri ''file:'' of Some rest \<Rightarrow> rest
     | None \<Rightarrow> (case List.find (starts_with uri) [''mod:'', ''use:'', ''sym:''] of
         Some p \<Rightarrow> takeWhile (\<lambda>c. c \<noteq> CHR '':'') (drop (length p) uri)
       | None \<Rightarrow> uri))"

definition region_new :: "string \<Rightarrow> string \<Rightarrow> context_region" where
  "region_new i c = \<lparr>rg_id = i, rg_center = c, rg_members = [], rg_total = 0, rg_temperature = 0, rg_density = 0,
     rg_last = 0, rg_count = 0\<rparr>"

definition region_contains :: "string \<Rightarrow> context_region \<Rightarrow> bool" where
  "region_contains uri r \<longleftrightarrow> uri \<in> set (rg_members r)"

fun sum_points :: "mem_env \<Rightarrow> string list \<Rightarrow> f32 \<times> f32 \<times> nat \<Rightarrow> mem_graph \<Rightarrow> (f32 \<times> f32 \<times> nat) \<times> mem_graph" where
  \<comment> \<open>\<open>total\<close>, \<open>heat_sum\<close>, \<open>counted\<close>, in the order of the members\<close>
  "sum_points env [] acc g = (acc, g)"
| "sum_points env (uri # uris) (tot, hot, counted) g =
     (case map_of (g_nodes g) uri of
        None \<Rightarrow> sum_points env uris (tot, hot, counted) g
      | Some n \<Rightarrow> (let (p, g') = from_node env n (structural_coord env (file_of uri)) g
          in sum_points env uris (f32_add tot (pt_energy p), f32_add hot (heat p), Suc counted) g'))"

definition internal_edges :: "string list \<Rightarrow> mem_graph \<Rightarrow> nat" where
  "internal_edges members g = length (filter (\<lambda>e. e_source e \<in> set members \<and> e_target e \<in> set members) (g_edges g))"

definition recompute :: "mem_env \<Rightarrow> context_region \<Rightarrow> mem_graph \<Rightarrow> context_region \<times> mem_graph" where
  "recompute env r g =
     (let members = remdups_adj (sort (rg_members r));
          ((tot, hot, counted), g') = sum_points env members (0, 0, 0) g
      in (r\<lparr>rg_members := members, rg_total := tot,
            rg_temperature := (if counted = 0 then 0 else unit32 (f32_div hot (f32_of_nat counted))),
            rg_density := (if counted = 0 then 0 else f32_div (f32_of_nat (internal_edges members g)) (f32_of_nat counted))\<rparr>, g'))"

definition activate :: "nat \<Rightarrow> context_region \<Rightarrow> context_region" where
  "activate t r = r\<lparr>rg_count := rg_count r + 1, rg_last := t, rg_temperature := unit32 (f32_add (rg_temperature r) (f32_rat 1 4))\<rparr>"

definition cool :: "f32 \<Rightarrow> context_region \<Rightarrow> context_region" where
  "cool decay r = r\<lparr>rg_temperature := unit32 (f32_mul (rg_temperature r) decay)\<rparr>"

subsection \<open>The admission policy\<close>

record context_policy =
  po_available :: nat
  po_current :: nat
  po_complexity :: f32
  po_region_temperature :: f32
  po_base :: f32

definition admission_default :: context_policy where
  "admission_default = \<lparr>po_available = 8192, po_current = 0, po_complexity = f32_rat 1 2, po_region_temperature = 0,
     po_base = f32_rat 6 10\<rparr>"

definition used_ratio :: "context_policy \<Rightarrow> f32" where
  "used_ratio p = (if po_available p = 0 then f32_rat 1 1
     else unit32 (f32_div (f32_of_nat (po_current p)) (f32_of_nat (po_available p))))"

definition dynamic_threshold :: "context_policy \<Rightarrow> f32" where
  "dynamic_threshold p = f32_clamp (f32_sub (f32_add (po_base p) (f32_mul (f32_rat 3 10) (used_ratio p)))
     (f32_mul (f32_rat 1 5) (po_complexity p))) (f32_rat 5 100) (f32_rat 95 100)"

definition admission_score :: "context_policy \<Rightarrow> context_region \<Rightarrow> f32" where
  "admission_score p r =
     (let density = unit32 (f32_div (rg_density r) (f32_add (f32_rat 1 1) (rg_density r)))
      in unit32 (f32_add (f32_add (f32_mul (f32_rat 55 100) (rg_temperature r)) (f32_mul (f32_rat 30 100) density))
           (f32_mul (f32_rat 15 100) (po_complexity p))))"

definition admits :: "context_policy \<Rightarrow> context_region \<Rightarrow> bool" where
  "admits p r \<longleftrightarrow> f32_le (dynamic_threshold p) (admission_score p r)"

definition estimate_tokens :: "context_region \<Rightarrow> nat" where
  "estimate_tokens r = length (rg_members r) * 128"

subsection \<open>Clustering\<close>

definition region_key :: "string \<Rightarrow> string" where
  "region_key uri = (if starts_with uri ''dep:'' then ''external'' else file_of uri)"

definition buckets_of :: "mem_graph \<Rightarrow> (string, string list) omap" where
  "buckets_of g = fold (\<lambda>(i, _). om_push (region_key i) i) (g_nodes g) []"

definition join_files :: "string \<Rightarrow> string \<Rightarrow> (string, string list) omap \<Rightarrow> (string, string list) omap option" where
  \<comment> \<open>\<open>adj.get_mut(&ks).unwrap().insert(kt)\<close> and back; the sets are kept sorted\<close>
  "join_files a b adj = (case map_of adj a of None \<Rightarrow> None
     | Some as \<Rightarrow> (let adj' = om_insert a (insort_insert b as) adj in case map_of adj' b of None \<Rightarrow> None
         | Some bs \<Rightarrow> Some (om_insert b (insort_insert a bs) adj')))"

definition join_edge :: "graph_edge \<Rightarrow> (string, string list) omap option \<Rightarrow> (string, string list) omap option" where
  "join_edge e adj = (let a = region_key (e_source e); b = region_key (e_target e)
     in if a \<noteq> b \<and> a \<noteq> ''external'' \<and> b \<noteq> ''external'' then Option.bind adj (join_files a b) else adj)"

definition file_adj :: "mem_graph \<Rightarrow> (string, string list) omap option" where
  "file_adj g = fold join_edge (g_edges g) (Some (map (\<lambda>(k, _). (k, [])) (buckets_of g)))"

definition cluster_start :: "(string, string list) omap \<Rightarrow> (string, string list) omap \<Rightarrow> string
    \<Rightarrow> (string \<times> nat) list \<times> (string, string list) omap \<Rightarrow> (string \<times> nat) list \<times> (string, string list) omap" where
  \<comment> \<open>one turn of the loop over the file keys; \<open>seen\<close> lists the keys met so far\<close>
  "cluster_start buckets adj start = (\<lambda>(seen, clusters).
     if start \<in> fst ` set seen \<or> start = ''external'' then (seen, clusters)
     else let found = bfs_loop adj (\<lambda>_. True) None [(start, 0)] (seen @ [(start, 0)]);
              component = sort (map fst (drop (length seen) found))
       in (found, om_insert (''region:'' @ hd component) (sort (concat (map (nbrs buckets) component))) clusters))"

definition cluster_nodes :: "mem_graph \<Rightarrow> (string, string list) omap option" where
  "cluster_nodes g = (case file_adj g of None \<Rightarrow> None
     | Some adj \<Rightarrow> (let buckets = buckets_of g;
          clusters = snd (fold (cluster_start buckets adj) (map fst buckets) ([], []))
        in Some (case map_of buckets ''external'' of
             Some ext \<Rightarrow> om_insert ''region:external'' (sort ext) clusters
           | None \<Rightarrow> clusters)))"

subsection \<open>The engine\<close>

record region_window =
  rw_region :: string
  rw_files :: "string list"
  rw_tokens :: nat
  rw_score :: f32
  rw_reason :: string

datatype region_query = QueryNode string | Hottest

record region_engine =
  re_regions :: "(string, context_region) omap"
  re_clock :: nat

definition regions_new :: region_engine where
  "regions_new = \<lparr>re_regions = [], re_clock = 0\<rparr>"

fun max_by :: "('a \<Rightarrow> 'a \<Rightarrow> cmp) \<Rightarrow> 'a list \<Rightarrow> 'a option" where
  \<comment> \<open>\<open>Iterator::max_by\<close>: the last of the greatest\<close>
  "max_by c [] = None"
| "max_by c (x # xs) = Some (fold (\<lambda>y m. if c m y = Greater then m else y) xs x)"

definition center_score :: "mem_env \<Rightarrow> mem_graph \<Rightarrow> string \<Rightarrow> f64" where
  "center_score env g i = (case map_of (g_nodes g) i of Some n \<Rightarrow> node_score env g n | None \<Rightarrow> f64_zero False)"

definition pick_center :: "mem_env \<Rightarrow> mem_graph \<Rightarrow> string list \<Rightarrow> string" where
  \<comment> \<open>every comparison fills the caches with what the first one computed\<close>
  "pick_center env g members =
     (case max_by (\<lambda>a b. cmp_then (f64_cmp (center_score env g a) (center_score env g b)) (ord_cmp b a)) members of
        Some i \<Rightarrow> i | None \<Rightarrow> [])"

definition build_region :: "mem_env \<Rightarrow> string \<times> string list \<Rightarrow> (string, context_region) omap \<times> mem_graph
    \<Rightarrow> (string, context_region) omap \<times> mem_graph" where
  "build_region env = (\<lambda>(i, members) (regions, g).
     let (r, g') = recompute env ((region_new i (pick_center env g members))\<lparr>rg_members := members\<rparr>) g
     in (om_insert i r regions, g'))"

definition cluster_and_build :: "mem_env \<Rightarrow> region_engine \<Rightarrow> mem_graph \<Rightarrow> (region_engine \<times> mem_graph) option" where
  "cluster_and_build env eng g = (case cluster_nodes g of None \<Rightarrow> None
     | Some clusters \<Rightarrow> (let (regions, g') = fold (build_region env) clusters ([], g) in Some (eng\<lparr>re_regions := regions\<rparr>, g')))"

definition distinct_files :: "string list \<Rightarrow> string list" where
  "distinct_files members = sort (remdups (map file_of members))"

fun join_with :: "string \<Rightarrow> string list \<Rightarrow> string" where
  "join_with sep [] = []"
| "join_with sep [x] = x"
| "join_with sep (x # y # xs) = x @ sep @ join_with sep (y # xs)"

record log_env =
  le_sha :: "string \<Rightarrow> string"
  le_json :: "event_payload \<Rightarrow> string"
  le_stamp :: "nat \<Rightarrow> string \<times> nat"      \<comment> \<open>the UUID and the time of the event with this number\<close>

definition emit :: "log_env \<Rightarrow> event_type \<Rightarrow> event_payload \<Rightarrow> event_log \<Rightarrow> event_log" where
  "emit le ty payload log = (let (uuid, now) = le_stamp le (length (events log))
     in snd (log_append (le_sha le) (le_json le) uuid now ty payload log))"

definition announce_region :: "log_env \<Rightarrow> context_region \<Rightarrow> event_log \<Rightarrow> event_log" where
  "announce_region le r log =
     (let files = distinct_files (rg_members r);
          log1 = (if length files > 1
            then emit le RegionMergedEvent (RegionMerged (rg_id r) (join_with '','' files) (length (rg_members r))) log else log)
      in emit le RegionCreatedEvent (RegionCreated (rg_id r) (rg_center r) (length (rg_members r)) (rg_temperature r) (rg_density r)) log1)"

definition initialize_regions :: "mem_env \<Rightarrow> log_env \<Rightarrow> mem_graph \<Rightarrow> region_engine \<times> event_log
    \<Rightarrow> ((region_engine \<times> event_log) \<times> mem_graph) option" where
  "initialize_regions env le g = (\<lambda>(eng, log). case cluster_and_build env eng g of None \<Rightarrow> None
     | Some (eng', g') \<Rightarrow> Some ((eng', fold (\<lambda>(_, r). announce_region le r) (re_regions eng') log), g'))"

definition region_of :: "string \<Rightarrow> region_engine \<Rightarrow> string option" where
  "region_of uri eng = map_option fst (List.find (\<lambda>(_, r). region_contains uri r) (re_regions eng))"

definition hottest_region :: "region_engine \<Rightarrow> string option" where
  "hottest_region eng = map_option rg_id (max_by (\<lambda>a b. cmp_then (f32_cmp (rg_temperature a) (rg_temperature b))
     (ord_cmp (rg_id b) (rg_id a))) (map snd (re_regions eng)))"

definition activation_reason :: "mem_graph \<Rightarrow> string \<Rightarrow> region_engine \<Rightarrow> string" where
  "activation_reason g i eng = (case map_of (re_regions eng) i of None \<Rightarrow> ''causal proximity''
     | Some r \<Rightarrow> if list_ex (\<lambda>m. case map_of (g_nodes g) m of Some n \<Rightarrow> f64_lt (f64_zero False) (n_failure_relevance n) | None \<Rightarrow> False) (rg_members r)
         then ''failure propagation + causal proximity'' else ''causal proximity + recency'')"

definition activate_region :: "log_env \<Rightarrow> mem_graph \<Rightarrow> region_query \<Rightarrow> context_policy \<Rightarrow> region_engine \<times> event_log
    \<Rightarrow> region_window option \<times> region_engine \<times> event_log" where
  "activate_region le g query policy = (\<lambda>(eng, log).
     case (case query of QueryNode uri \<Rightarrow> region_of uri eng | Hottest \<Rightarrow> hottest_region eng) of
       None \<Rightarrow> (None, eng, log)
     | Some target \<Rightarrow> (case map_of (re_regions eng) target of
         None \<Rightarrow> (None, eng, log)
       | Some r0 \<Rightarrow>
           let reason = activation_reason g target eng; t = re_clock eng; r = activate t r0;
               files = distinct_files (rg_members r); score = admission_score policy r; tokens = estimate_tokens r;
               log1 = emit le RegionActivatedEvent (RegionActivated (rg_id r) t (rg_temperature r) (rg_count r) reason) log;
               log2 = emit le ContextWindowGeneratedEvent (ContextWindowGenerated (rg_id r) (length files) tokens score reason) log1
           in (Some \<lparr>rw_region = rg_id r, rw_files = files, rw_tokens = tokens, rw_score = score, rw_reason = reason\<rparr>,
               \<lparr>re_regions = om_insert target r (re_regions eng), re_clock = t + 1\<rparr>, log2)))"

definition evict_region :: "log_env \<Rightarrow> string \<Rightarrow> region_engine \<times> event_log \<Rightarrow> region_engine \<times> event_log" where
  "evict_region le i = (\<lambda>(eng, log).
     let temp = (case map_of (re_regions eng) i of Some r \<Rightarrow> rg_temperature r | None \<Rightarrow> 0)
     in (eng\<lparr>re_regions := om_remove i (re_regions eng)\<rparr>,
         emit le RegionEvictedEvent (RegionEvicted i temp ''temperature below eviction floor'') log))"

definition tick_cooldown :: "log_env \<Rightarrow> f32 \<Rightarrow> f32 \<Rightarrow> region_engine \<times> event_log \<Rightarrow> string list \<times> region_engine \<times> event_log" where
  "tick_cooldown le decay evict_below = (\<lambda>(eng, log).
     let cooled = eng\<lparr>re_regions := map (\<lambda>(i, r). (i, cool decay r)) (re_regions eng)\<rparr>;
         evicted = map fst (filter (\<lambda>(_, r). f32_lt (rg_temperature r) evict_below) (re_regions cooled))
     in (evicted, fold (evict_region le) evicted (cooled, log)))"

definition replay_event :: "trace_event \<Rightarrow> region_engine \<Rightarrow> region_engine" where
  "replay_event ev eng = (case ev_payload ev of
      RegionActivated i t _ _ _ \<Rightarrow>
        (eng\<lparr>re_regions := (case map_of (re_regions eng) i of Some r \<Rightarrow> om_insert i (activate t r) (re_regions eng) | None \<Rightarrow> re_regions eng)\<rparr>)
          \<lparr>re_clock := max (re_clock eng) (t + 1)\<rparr>
    | RegionEvicted i _ _ \<Rightarrow> eng\<lparr>re_regions := om_remove i (re_regions eng)\<rparr>
    | _ \<Rightarrow> eng)"

definition replay_from :: "mem_env \<Rightarrow> mem_graph \<Rightarrow> event_log \<Rightarrow> region_engine option" where
  "replay_from env g log = (case cluster_and_build env regions_new g of None \<Rightarrow> None
     | Some (eng, _) \<Rightarrow> Some (fold replay_event (events log) eng))"

end
