(* ===== verification/RegionFacts.thy ===== *)
theory RegionFacts
  imports Regions GraphReach
begin

text \<open>
  What the region engine promises: clustering is total on graphs whose edges join resident nodes
  and puts every node in exactly one region, together with the files its edges lead to; the
  engine rebuilt from the graph and the log is the live one as long as nothing cools down, and
  it is not after a cool-down.
\<close>

subsection \<open>Replay\<close>

inductive region_run :: "mem_env \<Rightarrow> log_env \<Rightarrow> mem_graph \<Rightarrow> region_engine \<times> event_log \<Rightarrow> bool" for env le g where
  \<comment> \<open>one initialisation, then activations and events of other parts\<close>
  start: "initialize_regions env le g (regions_new, log_new session) = Some (s, g') \<Longrightarrow> region_run env le g s"
| wake: "region_run env le g s \<Longrightarrow> region_run env le g (snd (activate_region le h query policy s))"
| other: "region_run env le g (eng, log) \<Longrightarrow> \<not> is_RegionActivated payload \<Longrightarrow> \<not> is_RegionEvicted payload \<Longrightarrow>
    region_run env le g (eng, emit le ty payload log)"

lemma emit_events: "\<exists>ev. ev_payload ev = payload \<and> events (emit le ty payload log) = events log @ [ev]"
  by (auto simp: emit_def log_append_def Let_def split: prod.splits)

lemma replay_emit: "fold replay_event (events (emit le ty payload log)) eng
    = (let e = fold replay_event (events log) eng in case payload of
        RegionActivated i t _ _ _ \<Rightarrow>
          (e\<lparr>re_regions := (case map_of (re_regions e) i of Some r \<Rightarrow> om_insert i (activate t r) (re_regions e) | None \<Rightarrow> re_regions e)\<rparr>)
            \<lparr>re_clock := max (re_clock e) (t + 1)\<rparr>
      | RegionEvicted i _ _ \<Rightarrow> e\<lparr>re_regions := om_remove i (re_regions e)\<rparr>
      | _ \<Rightarrow> e)"
  using emit_events [of payload le ty log] by (auto simp: replay_event_def Let_def)

lemma replay_announce: "fold replay_event (events (announce_region le r log)) eng = fold replay_event (events log) eng"
  by (simp add: announce_region_def replay_emit Let_def)

lemma replay_announce_all: "fold replay_event (events (fold (\<lambda>(_, r). announce_region le r) rs log)) eng = fold replay_event (events log) eng"
  by (induction rs arbitrary: log) (auto simp: replay_announce)

definition ids_match :: "region_engine \<Rightarrow> bool" where
  "ids_match eng \<longleftrightarrow> (\<forall>i r. map_of (re_regions eng) i = Some r \<longrightarrow> rg_id r = i)"

lemma recompute_id [simp]: "rg_id (fst (recompute env r g)) = rg_id r"
  by (simp add: recompute_def Let_def split: prod.splits)

lemma built_ids: "cluster_and_build env eng g = Some (eng', g') \<Longrightarrow> ids_match eng'"
proof -
  have "\<forall>i r. map_of (fst (fold (build_region env) cs (regions, g))) i = Some r \<longrightarrow> rg_id r = i"
    if "\<forall>i r. map_of regions i = Some r \<longrightarrow> rg_id r = i" for cs regions and g
    using that
  proof (induction cs arbitrary: regions g)
    case (Cons c cs)
    obtain i ms where c: "c = (i, ms)" by fastforce
    obtain r g1 where r: "recompute env ((region_new i (pick_center env g ms))\<lparr>rg_members := ms\<rparr>) g = (r, g1)" by fastforce
    have "rg_id r = i" using recompute_id [of env "(region_new i (pick_center env g ms))\<lparr>rg_members := ms\<rparr>" g]
      unfolding r by (simp add: region_new_def)
    then have "\<forall>j r'. map_of (om_insert i r regions) j = Some r' \<longrightarrow> rg_id r' = j" using Cons.prems by auto
    from Cons.IH [OF this, of g1] show ?case by (simp add: c build_region_def r)
  qed simp
  from this [of "[]"] have all: "map_of (fst (fold (build_region env) cs ([], h))) i = Some r \<Longrightarrow> rg_id r = i" for cs h i r
    by simp
  assume "cluster_and_build env eng g = Some (eng', g')"
  then obtain cs rs where "fold (build_region env) cs ([], g) = (rs, g')" "eng' = eng\<lparr>re_regions := rs\<rparr>"
    by (auto simp: cluster_and_build_def split: option.splits prod.splits)
  then show "ids_match eng'" using all [of cs g] by (simp add: ids_match_def)
qed

lemma run_replays:
  assumes "region_run env le g s"
  shows "ids_match (fst s) \<and> replay_from env g (snd s) = Some (fst s)"
  using assms
proof (induction rule: region_run.induct)
  case (start session s g')
  then obtain eng h where b: "cluster_and_build env regions_new g = Some (eng, h)"
    and s: "s = (eng, fold (\<lambda>(_, r). announce_region le r) (re_regions eng) (log_new session))"
    by (auto simp: initialize_regions_def split: option.splits)
  have "fold replay_event (events (snd s)) eng = eng" unfolding s by (simp add: replay_announce_all) (simp add: log_new_def)
  then show ?case using built_ids [OF b] b s by (simp add: replay_from_def)
next
  case (wake s h query policy)
  obtain eng log where s: "s = (eng, log)" by fastforce
  obtain e0 where e0: "replay_from env g log = Some eng" "ids_match eng" using wake.IH s by simp
  show ?case
  proof (cases "\<exists>target r0. (case query of QueryNode uri \<Rightarrow> region_of uri eng | Hottest \<Rightarrow> hottest_region eng) = Some target
      \<and> map_of (re_regions eng) target = Some r0")
    case False
    then have "snd (activate_region le h query policy s) = s"
      by (auto simp: activate_region_def s split: option.splits)
    then show ?thesis using wake.IH by simp
  next
    case True
    then obtain target r0 where t: "(case query of QueryNode uri \<Rightarrow> region_of uri eng | Hottest \<Rightarrow> hottest_region eng) = Some target"
      and r0: "map_of (re_regions eng) target = Some r0" by blast
    have id: "rg_id (activate (re_clock eng) r0) = target" using e0(2) r0 by (simp add: ids_match_def activate_def)
    let ?eng = "\<lparr>re_regions = om_insert target (activate (re_clock eng) r0) (re_regions eng), re_clock = re_clock eng + 1\<rparr>"
    obtain log' where act: "snd (activate_region le h query policy s) = (?eng, log')"
      and log': "\<And>e. fold replay_event (events log) e = eng \<Longrightarrow> fold replay_event (events log') e = ?eng"
      by (simp add: activate_region_def s t r0 Let_def replay_emit id)
    have "ids_match ?eng" using e0(2) id by (auto simp: ids_match_def)
    then show ?thesis unfolding act using e0(1) log' by (auto simp: replay_from_def split: option.splits)
  qed
next
  case (other eng log payload ty)
  then show ?case by (auto simp: replay_from_def replay_emit Let_def split: option.splits event_payload.splits)
qed


subsection \<open>Clustering\<close>

definition joins :: "graph_edge \<Rightarrow> string \<Rightarrow> string \<Rightarrow> bool" where
  "joins e x y \<longleftrightarrow> x \<noteq> y \<and> x \<noteq> ''external'' \<and> y \<noteq> ''external'' \<and>
     {x, y} = {region_key (e_source e), region_key (e_target e)}"

definition file_links :: "mem_graph \<Rightarrow> (string \<times> string) set" where
  "file_links g = {(x, y). \<exists>e \<in> set (g_edges g). joins e x y}"

lemma joins_sym: "joins e x y \<Longrightarrow> joins e y x"
  by (auto simp: joins_def)

lemma file_links_sym: "sym (file_links g)"
  by (auto simp: sym_def file_links_def dest: joins_sym)

lemma dom_om_insert [simp]: "dom (map_of (om_insert k v m)) = insert k (dom (map_of m))"
  by auto

lemma join_files_some:
  assumes "a \<in> dom (map_of adj)" "b \<in> dom (map_of adj)" "a \<noteq> b"
  obtains adj' where "join_files a b adj = Some adj'" "dom (map_of adj') = dom (map_of adj)"
    "\<And>x. set (nbrs adj' x) = set (nbrs adj x) \<union> {y. (x, y) = (a, b) \<or> (x, y) = (b, a)}"
proof -
  obtain as bs where ab: "map_of adj a = Some as" "map_of adj b = Some bs" using assms by auto
  let ?adj = "om_insert b (insort_insert a bs) (om_insert a (insort_insert b as) adj)"
  have "join_files a b adj = Some ?adj" using ab assms(3) by (simp add: join_files_def Let_def)
  moreover have "dom (map_of ?adj) = dom (map_of adj)" using assms by auto
  moreover have "set (nbrs ?adj x) = set (nbrs adj x) \<union> {y. (x, y) = (a, b) \<or> (x, y) = (b, a)}" for x
    using ab assms(3) by (auto simp: nbrs_def set_insort_insert)
  ultimately show thesis by (rule that)
qed

lemma file_adj_fold:
  assumes "\<forall>e \<in> set es. region_key (e_source e) \<in> dom (map_of adj) \<and> region_key (e_target e) \<in> dom (map_of adj)"
  shows "\<exists>adj'. fold join_edge es (Some adj) = Some adj' \<and> dom (map_of adj') = dom (map_of adj)
    \<and> (\<forall>x. set (nbrs adj' x) = set (nbrs adj x) \<union> {y. \<exists>e \<in> set es. joins e x y})"
  using assms
proof (induction es arbitrary: adj)
  case (Cons e es)
  let ?a = "region_key (e_source e)" and ?b = "region_key (e_target e)"
  obtain adj1 where one: "join_edge e (Some adj) = Some adj1" "dom (map_of adj1) = dom (map_of adj)"
    and n1: "\<And>x. set (nbrs adj1 x) = set (nbrs adj x) \<union> {y. joins e x y}"
  proof (cases "?a \<noteq> ?b \<and> ?a \<noteq> ''external'' \<and> ?b \<noteq> ''external''")
    case True
    then obtain adj1 where j: "join_files ?a ?b adj = Some adj1" "dom (map_of adj1) = dom (map_of adj)"
      "\<And>x. set (nbrs adj1 x) = set (nbrs adj x) \<union> {y. (x, y) = (?a, ?b) \<or> (x, y) = (?b, ?a)}"
      using join_files_some [of ?a adj ?b] Cons.prems by auto
    have "{y. (x, y) = (?a, ?b) \<or> (x, y) = (?b, ?a)} = {y. joins e x y}" for x
      using True by (auto simp: joins_def doubleton_eq_iff)
    with j True show thesis by (intro that [of adj1]) (simp_all add: join_edge_def Let_def)
  next
    case False
    then have "\<not> joins e x y" for x y by (auto simp: joins_def doubleton_eq_iff)
    with False show thesis by (intro that [of adj]) (auto simp: join_edge_def Let_def)
  qed
  have "\<forall>e \<in> set es. region_key (e_source e) \<in> dom (map_of adj1) \<and> region_key (e_target e) \<in> dom (map_of adj1)"
    using Cons.prems one(2) by simp
  from Cons.IH [OF this] show ?case using one n1 by auto
qed simp

lemma buckets_nbrs: "nbrs (buckets_of g) k = filter (\<lambda>i. region_key i = k) (map fst (g_nodes g))"
proof -
  have "nbrs (fold (\<lambda>(i, _). om_push (region_key i) i) ns m) k = nbrs m k @ filter (\<lambda>i. region_key i = k) (map fst ns)"
    for ns :: "(node_id \<times> graph_node) list" and m
    by (induction ns arbitrary: m) auto
  then show ?thesis by (simp add: buckets_of_def)
qed

lemma buckets_dom: "dom (map_of (buckets_of g)) = region_key ` fst ` set (g_nodes g)"
proof -
  have "dom (map_of (fold (\<lambda>(i, _). om_push (region_key i) i) ns m)) = dom (map_of m) \<union> region_key ` fst ` set ns"
    for ns :: "(node_id \<times> graph_node) list" and m
    by (induction ns arbitrary: m) (auto simp: om_push_def)
  then show ?thesis by (simp add: buckets_of_def)
qed

lemma file_adj_total:
  assumes "graph_ok g"
  obtains adj where "file_adj g = Some adj" "arcs adj (\<lambda>_. True) = file_links g"
proof -
  let ?adj0 = "map (\<lambda>(k, _). (k, [])) (buckets_of g) :: (string, string list) omap"
  have dom: "dom (map_of ?adj0) = region_key ` fst ` set (g_nodes g)"
    using buckets_dom by (auto simp: map_of_map case_prod_unfold dom_map_of_conv_image_fst image_image)
  have "\<forall>e \<in> set (g_edges g). region_key (e_source e) \<in> dom (map_of ?adj0) \<and> region_key (e_target e) \<in> dom (map_of ?adj0)"
    using graph_okD(3) [OF assms] unfolding dom by (auto simp: om_contains_iff)
  from file_adj_fold [OF this] obtain adj where a: "file_adj g = Some adj"
    and n: "\<forall>x. set (nbrs adj x) = set (nbrs ?adj0 x) \<union> {y. \<exists>e \<in> set (g_edges g). joins e x y}"
    by (auto simp: file_adj_def)
  have "nbrs ?adj0 x = []" for x by (simp add: nbrs_map [of "\<lambda>_. []"])
  then have "arcs adj (\<lambda>_. True) = file_links g" using n by (simp add: arcs_def file_links_def)
  with a show thesis by (rule that)
qed

subsection \<open>The regions partition the graph\<close>

lemma bfs_loop_component:
  assumes "\<And>x. x \<in> fst ` set found - fst ` set queue \<Longrightarrow> set (nbrs adj x) \<subseteq> fst ` set found"
    and "distinct (map fst found)" "fst ` set queue \<subseteq> fst ` set found"
  shows "\<exists>new. bfs_loop adj (\<lambda>_. True) None queue found = found @ new \<and> distinct (map fst (found @ new))
    \<and> (\<forall>x \<in> fst ` set (found @ new). set (nbrs adj x) \<subseteq> fst ` set (found @ new))
    \<and> fst ` set new \<subseteq> (arcs adj (\<lambda>_. True))\<^sup>* `` (fst ` set queue)"
  using assms
proof (induction adj "\<lambda>_ :: 'a. True" "None :: nat option" queue found rule: bfs_loop.induct)
  case (1 adj found)
  then show ?case by auto
next
  case (2 adj v d queue found)
  let ?new = "discover (Suc d) (nbrs adj v) found"
  have new: "fst ` set ?new = set (nbrs adj v) - fst ` set found" by (simp add: discover_set image_image)
  have "set (nbrs adj x) \<subseteq> fst ` set (found @ ?new)" if "x \<in> fst ` set (found @ ?new) - fst ` set (queue @ ?new)" for x
  proof (cases "x = v")
    case True
    then show ?thesis unfolding set_append image_Un new by blast
  next
    case False
    then have "x \<in> fst ` set found - fst ` set ((v, d) # queue)" using that by auto
    then show ?thesis using "2.prems"(1) unfolding set_append image_Un by blast
  qed
  moreover have "distinct (map fst (found @ ?new))"
    using "2.prems"(2) new discover_distinct [of "Suc d" "nbrs adj v" found] by auto
  moreover have "fst ` set (queue @ ?new) \<subseteq> fst ` set (found @ ?new)" using "2.prems"(3) by auto
  ultimately obtain more where more: "bfs_loop adj (\<lambda>_. True) None (queue @ ?new) (found @ ?new) = (found @ ?new) @ more"
    "distinct (map fst ((found @ ?new) @ more))"
    "\<forall>x \<in> fst ` set ((found @ ?new) @ more). set (nbrs adj x) \<subseteq> fst ` set ((found @ ?new) @ more)"
    "fst ` set more \<subseteq> (arcs adj (\<lambda>_. True))\<^sup>* `` (fst ` set (queue @ ?new))"
    using "2.hyps" [of ?new] by (auto simp: below_def)
  have step: "x \<in> (arcs adj (\<lambda>_. True))\<^sup>* `` (fst ` set ((v, d) # queue))" if "x \<in> fst ` set ?new" for x
    using that unfolding new by (auto simp: arcs_def)
  define A where "A = fst ` set ((v, d) # queue)"
  have "fst ` set (queue @ ?new) \<subseteq> (arcs adj (\<lambda>_. True))\<^sup>* `` A"
  proof
    fix y assume "y \<in> fst ` set (queue @ ?new)"
    then consider "y \<in> A" | "y \<in> fst ` set ?new" unfolding set_append image_Un A_def by fastforce
    then show "y \<in> (arcs adj (\<lambda>_. True))\<^sup>* `` A" by cases (rule ImageI [OF rtrancl_refl], assumption, unfold A_def, rule step)
  qed
  then have "(arcs adj (\<lambda>_. True))\<^sup>* `` (fst ` set (queue @ ?new)) \<subseteq> (arcs adj (\<lambda>_. True))\<^sup>* `` ((arcs adj (\<lambda>_. True))\<^sup>* `` A)"
    by (rule Image_mono [OF subset_refl])
  also have "\<dots> \<subseteq> (arcs adj (\<lambda>_. True))\<^sup>* `` A" by (auto intro: rtrancl_trans)
  finally have rest: "fst ` set more \<subseteq> (arcs adj (\<lambda>_. True))\<^sup>* `` A" using more(4) by (rule subset_trans [rotated])
  have "fst ` set ?new \<subseteq> (arcs adj (\<lambda>_. True))\<^sup>* `` A" unfolding A_def using step by (rule subsetI)
  then have all: "fst ` set (?new @ more) \<subseteq> (arcs adj (\<lambda>_. True))\<^sup>* `` A"
    unfolding set_append image_Un using rest by (rule Un_least)
  have "bfs_loop adj (\<lambda>_. True) None ((v, d) # queue) found = found @ ?new @ more" using more(1) by (simp add: below_def Let_def)
  with all more(2,3) show ?case unfolding A_def append_assoc by (intro exI [of _ "?new @ more"] conjI)
qed

lemma component_found:
  assumes sym: "sym (arcs adj (\<lambda>_. True))" and seen: "distinct (map fst seen)" "start \<notin> fst ` set seen"
    and closed: "\<And>x. x \<in> fst ` set seen \<Longrightarrow> set (nbrs adj x) \<subseteq> fst ` set seen"
  defines "found \<equiv> bfs_loop adj (\<lambda>_. True) None [(start, 0)] (seen @ [(start, 0)])"
  shows "take (length seen) found = seen" "distinct (map fst found)"
    "fst ` set (drop (length seen) found) = (arcs adj (\<lambda>_. True))\<^sup>* `` {start}"
    "\<And>x. x \<in> fst ` set found \<Longrightarrow> set (nbrs adj x) \<subseteq> fst ` set found"
proof -
  let ?R = "arcs adj (\<lambda>_. True)"
  obtain new where new: "found = (seen @ [(start, 0)]) @ new" "distinct (map fst ((seen @ [(start, 0)]) @ new))"
    "\<forall>x \<in> fst ` set ((seen @ [(start, 0)]) @ new). set (nbrs adj x) \<subseteq> fst ` set ((seen @ [(start, 0)]) @ new)"
    "fst ` set new \<subseteq> ?R\<^sup>* `` {start}"
    using bfs_loop_component [of "seen @ [(start, 0)]" "[(start, 0)]" adj] seen closed unfolding found_def by fastforce
  show "take (length seen) found = seen" "distinct (map fst found)" using new by simp_all
  show cl: "\<And>x. x \<in> fst ` set found \<Longrightarrow> set (nbrs adj x) \<subseteq> fst ` set found" using new by blast
  have drop: "fst ` set (drop (length seen) found) = insert start (fst ` set new)" using new(1) by simp
  have in_found: "y \<in> fst ` set found" if "(start, y) \<in> ?R\<^sup>*" for y
    using that by (induction rule: rtrancl_induct) (use cl new(1) in \<open>auto simp: arcs_def\<close>)
  have not_seen: "y \<notin> fst ` set seen" if "(start, y) \<in> ?R\<^sup>*" for y
  proof
    assume y: "y \<in> fst ` set seen"
    have "(y, start) \<in> ?R\<^sup>*" using that sym by (meson sym_rtrancl symD)
    then have "start \<in> fst ` set seen" by (induction rule: rtrancl_induct) (use y closed in \<open>auto simp: arcs_def\<close>)
    then show False using seen(2) by simp
  qed
  show "fst ` set (drop (length seen) found) = ?R\<^sup>* `` {start}" unfolding drop
  proof
    show "?R\<^sup>* `` {start} \<subseteq> insert start (fst ` set new)"
    proof
      fix y assume "y \<in> ?R\<^sup>* `` {start}"
      then have "y \<in> fst ` set found" "y \<notin> fst ` set seen" using in_found not_seen by auto
      then show "y \<in> insert start (fst ` set new)" unfolding new(1) by auto
    qed
  qed (use new(4) in auto)
qed

definition rep_of :: "mem_graph \<Rightarrow> string \<Rightarrow> string" where
  "rep_of g s = ''region:'' @ Min ((file_links g)\<^sup>* `` {s})"

definition clusters_ok :: "mem_graph \<Rightarrow> string list \<Rightarrow> (string \<times> nat) list \<times> (string, string list) omap \<Rightarrow> bool" where
  "clusters_ok g ps = (\<lambda>(seen, clusters). distinct (map fst seen) \<and>
     fst ` set seen = {y. \<exists>s \<in> set ps. s \<noteq> ''external'' \<and> (s, y) \<in> (file_links g)\<^sup>*} \<and>
     (\<forall>i ms. map_of clusters i = Some ms \<longrightarrow> (\<exists>s \<in> set ps. s \<noteq> ''external'' \<and> i = rep_of g s
        \<and> set ms = {n \<in> fst ` set (g_nodes g). (s, region_key n) \<in> (file_links g)\<^sup>*})) \<and>
     (\<forall>s \<in> set ps. s \<noteq> ''external'' \<longrightarrow> rep_of g s \<in> dom (map_of clusters)))"

lemma links_back: "(x, y) \<in> (file_links g)\<^sup>* \<Longrightarrow> (y, x) \<in> (file_links g)\<^sup>*"
  using file_links_sym [of g] by (meson symD sym_rtrancl)

lemma links_same: "(x, y) \<in> (file_links g)\<^sup>* \<Longrightarrow> (file_links g)\<^sup>* `` {x} = (file_links g)\<^sup>* `` {y}"
  using links_back rtrancl_trans by fast

lemma links_external: "(x, y) \<in> (file_links g)\<^sup>* \<Longrightarrow> x \<noteq> ''external'' \<Longrightarrow> y \<noteq> ''external''"
  by (induction rule: rtrancl_induct) (auto simp: file_links_def joins_def)

lemma finite_links: "finite ((file_links g)\<^sup>* `` {s})"
proof -
  let ?K = "(\<lambda>e. region_key (e_source e)) ` set (g_edges g) \<union> (\<lambda>e. region_key (e_target e)) ` set (g_edges g)"
  have "y \<in> insert s ?K" if "(s, y) \<in> (file_links g)\<^sup>*" for y
    using that by (induction rule: rtrancl_induct) (auto simp: file_links_def joins_def doubleton_eq_iff)
  then have "(file_links g)\<^sup>* `` {s} \<subseteq> insert s ?K" by blast
  then show ?thesis by (rule finite_subset) simp
qed

lemma rep_links:
  assumes "rep_of g s = rep_of g t"
  shows "(s, t) \<in> (file_links g)\<^sup>*"
proof -
  have "Min ((file_links g)\<^sup>* `` {x}) \<in> (file_links g)\<^sup>* `` {x}" for x by (rule Min_in [OF finite_links]) auto
  then have "(s, Min ((file_links g)\<^sup>* `` {s})) \<in> (file_links g)\<^sup>*" "(t, Min ((file_links g)\<^sup>* `` {t})) \<in> (file_links g)\<^sup>*" by blast+
  then have "(s, Min ((file_links g)\<^sup>* `` {t})) \<in> (file_links g)\<^sup>*" "(Min ((file_links g)\<^sup>* `` {t}), t) \<in> (file_links g)\<^sup>*"
    using assms links_back by (simp_all add: rep_of_def)
  then show ?thesis by (rule rtrancl_trans)
qed

lemma hd_sort_Min: "xs \<noteq> [] \<Longrightarrow> hd (sort xs) = Min (set xs)" for xs :: "'a :: linorder list"
proof -
  assume "xs \<noteq> []"
  then obtain y ys where "sort xs = y # ys" by (metis length_0_conv length_sort neq_Nil_conv)
  moreover from this have "\<forall>z \<in> set xs. y \<le> z" by (metis order_refl set_ConsD set_sort sorted_sort sorted_wrt.simps(2))
  moreover have "y \<in> set xs" using calculation(1) by (metis list.set_intros(1) set_sort)
  ultimately have "Min (set xs) = y" by (intro Min_eqI) auto
  then show ?thesis using \<open>sort xs = y # ys\<close> by simp
qed

lemma cluster_step:
  assumes adj: "arcs adj (\<lambda>_. True) = file_links g" and ok: "clusters_ok g ps st"
  shows "clusters_ok g (ps @ [start]) (cluster_start (buckets_of g) adj start st)"
proof -
  obtain seen clusters where st: "st = (seen, clusters)" by fastforce
  let ?R = "file_links g"
  have seen: "distinct (map fst seen)" "fst ` set seen = {y. \<exists>s \<in> set ps. s \<noteq> ''external'' \<and> (s, y) \<in> ?R\<^sup>*}"
    and entries: "\<And>i ms. map_of clusters i = Some ms \<Longrightarrow> \<exists>s \<in> set ps. s \<noteq> ''external'' \<and> i = rep_of g s
        \<and> set ms = {n \<in> fst ` set (g_nodes g). (s, region_key n) \<in> ?R\<^sup>*}"
    and reps: "\<And>s. s \<in> set ps \<Longrightarrow> s \<noteq> ''external'' \<Longrightarrow> rep_of g s \<in> dom (map_of clusters)"
    using ok unfolding clusters_ok_def st by blast+
  show ?thesis
  proof (cases "start \<in> fst ` set seen \<or> start = ''external''")
    case True
    have "cluster_start (buckets_of g) adj start st = (seen, clusters)" using True by (simp add: cluster_start_def st)
    moreover have "clusters_ok g (ps @ [start]) (seen, clusters)"
    proof (cases "start = ''external''")
      case True
      then show ?thesis using seen entries reps unfolding clusters_ok_def split by simp
    next
      case False
      then obtain s where s: "s \<in> set ps" "s \<noteq> ''external''" "(s, start) \<in> ?R\<^sup>*"
        using \<open>start \<in> fst ` set seen \<or> start = ''external''\<close> unfolding seen(2) by blast
      have same: "(start, y) \<in> ?R\<^sup>* \<longleftrightarrow> (s, y) \<in> ?R\<^sup>*" for y using links_same [OF s(3)] by blast
      have "rep_of g start = rep_of g s" using links_same [OF s(3)] by (simp add: rep_of_def)
      then have "rep_of g start \<in> dom (map_of clusters)" using reps s by simp
      moreover have "fst ` set seen = {y. \<exists>t \<in> set (ps @ [start]). t \<noteq> ''external'' \<and> (t, y) \<in> ?R\<^sup>*}"
        unfolding seen(2) using same s(1,2) by auto
      moreover have "\<exists>t \<in> set (ps @ [start]). t \<noteq> ''external'' \<and> i = rep_of g t
          \<and> set ms = {n \<in> fst ` set (g_nodes g). (t, region_key n) \<in> ?R\<^sup>*}" if "map_of clusters i = Some ms" for i ms
        using entries [OF that] by auto
      moreover have "rep_of g t \<in> dom (map_of clusters)" if "t \<in> set (ps @ [start])" "t \<noteq> ''external''" for t
        using that reps calculation(1) by auto
      ultimately show ?thesis using seen(1) unfolding clusters_ok_def split by blast
    qed
    ultimately show ?thesis by simp
  next
    case False
    let ?found = "bfs_loop adj (\<lambda>_. True) None [(start, 0)] (seen @ [(start, 0)])"
    let ?comp = "sort (map fst (drop (length seen) ?found))"
    let ?ms = "sort (concat (map (nbrs (buckets_of g)) ?comp))"
    have closed: "set (nbrs adj x) \<subseteq> fst ` set seen" if "x \<in> fst ` set seen" for x
    proof
      fix y assume "y \<in> set (nbrs adj x)"
      then have "(x, y) \<in> ?R" unfolding adj [symmetric] by (simp add: arcs_def)
      then show "y \<in> fst ` set seen" using that unfolding seen(2) by (blast intro: rtrancl_into_rtrancl)
    qed
    have f: "take (length seen) ?found = seen" "distinct (map fst ?found)" "fst ` set (drop (length seen) ?found) = ?R\<^sup>* `` {start}"
      using component_found [of adj seen start, unfolded adj, OF file_links_sym seen(1) _ closed] False by blast+
    have comp: "set ?comp = ?R\<^sup>* `` {start}" using f(3) by simp
    have "map fst (drop (length seen) ?found) \<noteq> []"
    proof
      assume "map fst (drop (length seen) ?found) = []"
      then have "?R\<^sup>* `` {start} = {}" using f(3) by (metis comp empty_iff list.set(1) set_sort equals0I)
      then show False by blast
    qed
    then have rep: "''region:'' @ hd ?comp = rep_of g start" using f(3) by (simp add: hd_sort_Min rep_of_def)
    have step: "cluster_start (buckets_of g) adj start st = (?found, om_insert (rep_of g start) ?ms clusters)"
      using False rep by (simp add: cluster_start_def st Let_def)
    have ms: "set ?ms = {n \<in> fst ` set (g_nodes g). (start, region_key n) \<in> ?R\<^sup>*}"
      using comp by (auto simp: buckets_nbrs)
    have "fst ` set ?found = fst ` set seen \<union> ?R\<^sup>* `` {start}"
      using f(1,3) by (metis append_take_drop_id image_Un set_append)
    then have "fst ` set ?found = {y. \<exists>s \<in> set (ps @ [start]). s \<noteq> ''external'' \<and> (s, y) \<in> ?R\<^sup>*}"
      using seen(2) False by auto
    moreover have "\<exists>s \<in> set (ps @ [start]). s \<noteq> ''external'' \<and> i = rep_of g s \<and> set ns = {n \<in> fst ` set (g_nodes g). (s, region_key n) \<in> ?R\<^sup>*}"
      if "map_of (om_insert (rep_of g start) ?ms clusters) i = Some ns" for i ns
    proof (cases "i = rep_of g start")
      case True
      then have "ns = ?ms" using that by simp
      then show ?thesis using True ms False by auto
    next
      case False
      then have "map_of clusters i = Some ns" using that by simp
      from entries [OF this] show ?thesis by auto
    qed
    moreover have "rep_of g s \<in> dom (map_of (om_insert (rep_of g start) ?ms clusters))"
      if "s \<in> set (ps @ [start])" "s \<noteq> ''external''" for s
      using that reps by auto
    ultimately show ?thesis using f(2) unfolding step clusters_ok_def split by blast
  qed
qed

definition in_region :: "(string, string list) omap \<Rightarrow> string \<Rightarrow> string \<Rightarrow> bool" where
  "in_region clusters i r \<longleftrightarrow> (\<exists>ms. map_of clusters r = Some ms \<and> i \<in> set ms)"

lemma rep_not_external: "s \<noteq> ''external'' \<Longrightarrow> rep_of g s \<noteq> ''region:external''"
proof
  assume s: "s \<noteq> ''external''" and "rep_of g s = ''region:external''"
  then have "Min ((file_links g)\<^sup>* `` {s}) = ''external''" by (simp add: rep_of_def)
  moreover have "Min ((file_links g)\<^sup>* `` {s}) \<in> (file_links g)\<^sup>* `` {s}" by (rule Min_in [OF finite_links]) auto
  ultimately show False using links_external [OF _ s] by auto
qed

lemma clusters_owner:
  assumes "graph_ok g"
  shows "\<exists>clusters. cluster_nodes g = Some clusters \<and>
    (\<forall>i r. in_region clusters i r \<longleftrightarrow> resident g i \<and>
      r = (if region_key i = ''external'' then ''region:external'' else rep_of g (region_key i)))"
proof -
  obtain adj where adj: "file_adj g = Some adj" "arcs adj (\<lambda>_. True) = file_links g" using file_adj_total [OF assms] .
  let ?ps = "map fst (buckets_of g)"
  have "clusters_ok g (qs @ ps) (fold (cluster_start (buckets_of g) adj) ps st)" if "clusters_ok g qs st" for qs ps st
    using that
  proof (induction ps arbitrary: qs st)
    case (Cons p ps)
    from Cons.IH [OF cluster_step [OF adj(2) Cons.prems, of p]] show ?case by simp
  qed simp
  from this [of "[]" "([], [])" ?ps] have ok: "clusters_ok g ?ps (fold (cluster_start (buckets_of g) adj) ?ps ([], []))"
    by (simp add: clusters_ok_def)
  obtain seen cl where cl: "fold (cluster_start (buckets_of g) adj) ?ps ([], []) = (seen, cl)" by fastforce
  let ?R = "file_links g" and ?ids = "fst ` set (g_nodes g)"
  have keys: "set ?ps = region_key ` ?ids" using buckets_dom [of g] by (simp add: dom_map_of_conv_image_fst)
  have entry: "\<exists>s. s \<noteq> ''external'' \<and> r = rep_of g s \<and> set ms = {n \<in> ?ids. (s, region_key n) \<in> ?R\<^sup>*}"
    if "map_of cl r = Some ms" for r ms using ok that unfolding cl clusters_ok_def split by blast
  have reps: "rep_of g s \<in> dom (map_of cl)" if "s \<in> set ?ps" "s \<noteq> ''external''" for s
    using ok that unfolding cl clusters_ok_def split by blast
  have inner: "in_region cl i r \<longleftrightarrow> i \<in> ?ids \<and> region_key i \<noteq> ''external'' \<and> r = rep_of g (region_key i)" for i r
  proof
    assume "in_region cl i r"
    then obtain ms where ms: "map_of cl r = Some ms" "i \<in> set ms" by (auto simp: in_region_def)
    obtain s where "s \<noteq> ''external''" "r = rep_of g s" "set ms = {n \<in> ?ids. (s, region_key n) \<in> ?R\<^sup>*}"
      using entry [OF ms(1)] by (elim exE conjE)
    with ms(2) have s: "s \<noteq> ''external''" "r = rep_of g s" "i \<in> ?ids" "(s, region_key i) \<in> ?R\<^sup>*" by simp_all
    have "region_key i \<noteq> ''external''" by (rule links_external [OF s(4,1)])
    moreover have "rep_of g s = rep_of g (region_key i)" unfolding rep_of_def links_same [OF s(4)] ..
    ultimately show "i \<in> ?ids \<and> region_key i \<noteq> ''external'' \<and> r = rep_of g (region_key i)" using s(2,3) by simp
  next
    assume *: "i \<in> ?ids \<and> region_key i \<noteq> ''external'' \<and> r = rep_of g (region_key i)"
    then have "region_key i \<in> set ?ps" unfolding keys by blast
    then obtain ms where ms: "map_of cl r = Some ms" using * reps [of "region_key i"] by auto
    obtain s where s: "r = rep_of g s" "set ms = {n \<in> ?ids. (s, region_key n) \<in> ?R\<^sup>*}"
      using entry [OF ms] by (elim exE conjE)
    then have "(s, region_key i) \<in> ?R\<^sup>*" using * by (intro rep_links) simp
    then show "in_region cl i r" using * ms s(2) by (auto simp: in_region_def)
  qed
  have not_ext: "map_of cl ''region:external'' = None"
  proof (rule ccontr)
    assume "map_of cl ''region:external'' \<noteq> None"
    then obtain ms where "map_of cl ''region:external'' = Some ms" by blast
    from entry [OF this] obtain s where "s \<noteq> ''external''" "''region:external'' = rep_of g s" by (elim exE conjE)
    then show False using rep_not_external [of s g] by simp
  qed
  show ?thesis
  proof (cases "map_of (buckets_of g) ''external''")
    case None
    then have "\<forall>i \<in> ?ids. region_key i \<noteq> ''external''" using buckets_dom [of g] by (metis domIff imageI)
    then show ?thesis using inner by (auto simp: cluster_nodes_def adj(1) Let_def cl None om_contains_iff)
  next
    case (Some ext)
    then have "set ext = {i \<in> ?ids. region_key i = ''external''}" using buckets_nbrs [of g "''external''"] by (auto simp: nbrs_def)
    have own: "in_region (om_insert ''region:external'' (sort ext) cl) i r \<longleftrightarrow>
        (if r = ''region:external'' then i \<in> set ext else in_region cl i r)" for i r by (simp add: in_region_def)
    have "in_region (om_insert ''region:external'' (sort ext) cl) i r \<longleftrightarrow> resident g i \<and>
      r = (if region_key i = ''external'' then ''region:external'' else rep_of g (region_key i))" for i r
    proof (cases "region_key i = ''external''")
      case True
      then show ?thesis unfolding own inner \<open>set ext = _\<close> om_contains_iff by simp
    next
      case False
      then have "rep_of g (region_key i) \<noteq> ''region:external''" by (rule rep_not_external)
      then show ?thesis using False unfolding own inner \<open>set ext = _\<close> om_contains_iff by auto
    qed
    then show ?thesis by (simp add: cluster_nodes_def adj(1) Let_def cl Some)
  qed
qed

text \<open>
  C32. On every reachable graph clustering returns (the \<open>unwrap\<close>s never fail), each resident node is in
  exactly one region, and an edge between two files never leaves a region, the bucket of external
  dependencies aside.
\<close>

theorem regions_partition:
  assumes "graph_reach env g"
  shows "\<exists>clusters. cluster_nodes g = Some clusters
    \<and> (\<forall>i. resident g i \<longrightarrow> (\<exists>!r. in_region clusters i r)) \<and> (\<forall>i r. in_region clusters i r \<longrightarrow> resident g i)
    \<and> (\<forall>e \<in> set (g_edges g). region_key (e_source e) \<noteq> ''external'' \<longrightarrow> region_key (e_target e) \<noteq> ''external'' \<longrightarrow>
         (\<forall>r. in_region clusters (e_source e) r \<longleftrightarrow> in_region clusters (e_target e) r))"
proof -
  have ok: "graph_ok g" using reach_ok [OF assms] by blast
  obtain clusters where c: "cluster_nodes g = Some clusters"
    and own: "\<And>i r. in_region clusters i r \<longleftrightarrow> resident g i \<and>
      r = (if region_key i = ''external'' then ''region:external'' else rep_of g (region_key i))"
    using clusters_owner [OF ok] by blast
  have "rep_of g (region_key (e_source e)) = rep_of g (region_key (e_target e))"
    if "e \<in> set (g_edges g)" "region_key (e_source e) \<noteq> ''external''" "region_key (e_target e) \<noteq> ''external''" for e
  proof (cases "region_key (e_source e) = region_key (e_target e)")
    case False
    then have "joins e (region_key (e_source e)) (region_key (e_target e))" using that by (simp add: joins_def)
    then have "(region_key (e_source e), region_key (e_target e)) \<in> (file_links g)\<^sup>*" using that(1) by (auto simp: file_links_def)
    then show ?thesis unfolding rep_of_def by (simp only: links_same)
  qed simp
  then show ?thesis using c graph_okD(3) [OF ok] by (intro exI [of _ clusters]) (simp add: own)
qed

lemma regions_partition_witness:
  "\<forall>env. \<exists>clusters. cluster_nodes (graph_new 0 9 undefined) = Some clusters \<and> (\<forall>i. \<not> in_region clusters i ''region:a'')"
proof (intro allI)
  fix env
  have "graph_reach env (graph_new 0 9 undefined)" by (rule graph_reach.start)
  from regions_partition [OF this] show "\<exists>clusters. cluster_nodes (graph_new 0 9 undefined) = Some clusters \<and> (\<forall>i. \<not> in_region clusters i ''region:a'')"
    by (auto simp: graph_new_def)
qed

subsection \<open>A cool-down is not replayed\<close>

definition no_ln :: mem_env where
  "no_ln = undefined\<lparr>en_ln := \<lambda>_. 0\<rparr>"

definition hot_node :: graph_node where
  "hot_node = \<lparr>n_id = ''file:a'', n_label = [], n_content = [], n_type = Module, n_base_importance = 0,
     n_failure_relevance = f64_one, n_recency = 0, n_access_count = 1, n_created_at = 0, n_last_accessed = 0,
     n_state = Stable, n_trust = 0\<rparr>"

definition hot_file :: mem_graph where
  \<comment> \<open>one failing file, every scoring weight zero\<close>
  "hot_file = (graph_new 0 9 undefined)\<lparr>g_nodes := [(''file:a'', hot_node)], g_weights := \<lparr>w_base = 0, w_failure = 0, w_recency = 0,
     w_access = 0, w_centrality = 0, w_mode = InDegree, w_trust = 0, failure_decay = 0, failure_fanout = 0\<rparr>\<rparr>"

lemma f64_zero_facts [simp]: "f64_zero False = 0" "\<not> f64_is_nan 0" "\<not> f64_is_inf 0" "\<not> f64_neg_bit 0" "f64_num 0 = 0" "f64_mag 0 = 0"
  by (simp_all add: f64_zero_def f64_of_mag_def f64_is_nan_def f64_is_inf_def f64_neg_bit_def f64_num_def f64_mag_def f64_inf_mag_def)

lemma f64_zero_ops [simp]: "f64_add 0 0 = 0" "f64_mul 0 0 = 0" "f64_mul f64_one 0 = 0" "f64_sub 0 0 = 0" "f64_eq 0 0" "unit_clamp 0 = 0"
proof -
  have r: "f64_round False 0 d = 0" for d by (simp add: f64_round_def Let_def f64_of_mag_def f64_inf_mag_def)
  show "f64_add 0 0 = 0" by (simp add: f64_add_def f64_int_def)
  show "f64_mul 0 0 = 0" by (simp add: f64_mul_def r)
  show "f64_mul f64_one 0 = 0" using f64_one_facts f64_finite_cases [of f64_one] by (simp add: f64_mul_def r)
  have "f64_neg 0 = (0x8000000000000000 :: f64)" by (simp add: f64_neg_def)
  then show "f64_sub 0 0 = 0"
    by (simp add: f64_sub_def f64_add_def f64_int_def f64_num_def f64_is_nan_def f64_is_inf_def f64_mag_def f64_inf_mag_def)
  show "f64_eq 0 0" by (simp add: f64_eq_def)
  show "unit_clamp 0 = 0" by (simp add: unit_clamp_def f64_clamp_def f64_lt_def f64_key_def)
     (simp add: f64_one_def f64_neg_bit_def)
qed

lemma hot_score: "compute_node_score no_ln hot_node hot_file = (0, hot_file)"
  by (simp add: compute_node_score_def hot_node_def hot_file_def centrality_signal_def centrality_on_def distrust_of_def
      state_bias_def no_ln_def)

lemma hot_clusters: "cluster_nodes hot_file = Some [(''region:a'', [''file:a''])]"
  by (simp add: cluster_nodes_def file_adj_def buckets_of_def hot_file_def graph_new_def om_push_def nbrs_def region_key_def
      file_of_def starts_with_def strip_prefix_def cluster_start_def below_def Let_def)

lemma hot_values: "f32_of_f64 0 = 0" "f32_of_f64 f64_one = 0x3F800000"
  by (simp_all add: f32_of_f64_def f64_one_def f64_is_nan_def f64_is_inf_def f64_neg_bit_def f64_num_def f64_mag_def
      f64_inf_mag_def f32_eval)

lemma hot_heat: "heat \<lparr>pt_uri = u, pt_x = x, pt_y = y, pt_z = z, pt_importance = i, pt_pressure = 0x3F800000,
    pt_recency = 0, pt_energy = 0\<rparr> = 0x3E99999A"
  by (simp add: heat_def unit32_def f32_clamp_def f32_lt_def f32_key_def f32_add_def f32_mul_def f32_eval)

lemma hot_scale: "f32_add 0 0x3E99999A = 0x3E99999A" "unit32 (f32_div 0x3E99999A (f32_of_nat 1)) = 0x3E99999A"
    "unit32 (f32_mul 0x3E99999A (f32_rat 1 2)) = 0x3E19999A" "\<not> f32_lt 0x3E19999A 0"
  by (simp_all add: unit32_def f32_clamp_def f32_lt_def f32_key_def f32_add_def f32_mul_def f32_div_def f32_of_nat_def f32_eval)

lemmas hot_sizes = hot_scale [unfolded One_nat_def]

lemma hot_point: "from_node no_ln hot_node x hot_file = (\<lparr>pt_uri = ''file:a'', pt_x = x, pt_y = 0x3F800000, pt_z = 0, pt_importance = 0,
    pt_pressure = 0x3F800000, pt_recency = 0, pt_energy = 0\<rparr>, hot_file)"
  unfolding from_node_def hot_score by (simp add: hot_node_def hot_values)

definition hot_region :: context_region where
  "hot_region = fst (recompute no_ln ((region_new ''region:a'' (pick_center no_ln hot_file [''file:a'']))\<lparr>rg_members := [''file:a'']\<rparr>) hot_file)"

lemma hot_temperature: "rg_temperature hot_region = 0x3E99999A"
proof -
  have "map_of (g_nodes hot_file) ''file:a'' = Some hot_node" by (simp add: hot_file_def)
  then show ?thesis by (simp add: hot_region_def recompute_def region_new_def hot_point hot_heat hot_scale hot_sizes Let_def)
qed

lemma hot_built: "\<exists>g'. cluster_and_build no_ln regions_new hot_file = Some (\<lparr>re_regions = [(''region:a'', hot_region)], re_clock = 0\<rparr>, g')"
  by (simp add: cluster_and_build_def hot_clusters build_region_def hot_region_def regions_new_def split: prod.splits)

lemma hot_run: "\<exists>log. region_run no_ln le hot_file (\<lparr>re_regions = [(''region:a'', hot_region)], re_clock = 0\<rparr>, log)"
proof -
  obtain g' where b: "cluster_and_build no_ln regions_new hot_file = Some (\<lparr>re_regions = [(''region:a'', hot_region)], re_clock = 0\<rparr>, g')"
    using hot_built by blast
  have "initialize_regions no_ln le hot_file (regions_new, log_new []) = Some ((\<lparr>re_regions = [(''region:a'', hot_region)], re_clock = 0\<rparr>,
      announce_region le hot_region (log_new [])), g')" by (simp add: initialize_regions_def b)
  from region_run.start [OF this] show ?thesis by blast
qed


text \<open>
  A cool-down leaves no event: it halves the temperature of the live engine, and the engine
  rebuilt from the graph and the log is still at the old one.
\<close>

theorem cooldown_not_replayed:
  "\<forall>le. \<exists>eng log eng' eng2. region_run no_ln le hot_file (eng, log)
     \<and> tick_cooldown le (f32_rat 1 2) 0 (eng, log) = ([], eng', log) \<and> replay_from no_ln hot_file log = Some eng2
     \<and> map (rg_temperature \<circ> snd) (re_regions eng') = [0x3E19999A] \<and> map (rg_temperature \<circ> snd) (re_regions eng2) = [0x3E99999A]"
proof
  fix le
  let ?eng = "\<lparr>re_regions = [(''region:a'', hot_region)], re_clock = 0\<rparr>"
  obtain log where run: "region_run no_ln le hot_file (?eng, log)" using hot_run by blast
  have "replay_from no_ln hot_file log = Some ?eng" using run_replays [OF run] by simp
  moreover have "tick_cooldown le (f32_rat 1 2) 0 (?eng, log) = ([], ?eng\<lparr>re_regions := [(''region:a'', cool (f32_rat 1 2) hot_region)]\<rparr>, log)"
    by (simp add: tick_cooldown_def cool_def hot_temperature hot_sizes)
  moreover have "rg_temperature (cool (f32_rat 1 2) hot_region) = 0x3E19999A" by (simp add: cool_def hot_temperature hot_sizes)
  ultimately show "\<exists>eng log eng' eng2. region_run no_ln le hot_file (eng, log)
     \<and> tick_cooldown le (f32_rat 1 2) 0 (eng, log) = ([], eng', log) \<and> replay_from no_ln hot_file log = Some eng2
     \<and> map (rg_temperature \<circ> snd) (re_regions eng') = [0x3E19999A] \<and> map (rg_temperature \<circ> snd) (re_regions eng2) = [0x3E99999A]"
    using run hot_temperature by (intro exI [of _ ?eng] exI [of _ log] exI) auto
qed

end
