(* ===== verification/Recall.thy ===== *)
theory Recall
  imports Query Regions SourceText Claim
begin

text \<open>
  Selecting a context window (\<open>src/external_memory.rs\<close>): hop distances from an anchor, the
  scoring of the candidates, and the packing of a window into a token budget, with a quota per
  file when the window is anchored. \<open>window_packed\<close> says what a window holds.
\<close>

subsection \<open>Items and windows\<close>

record recall_item =
  ri_uri :: string
  ri_score :: f64
  ri_kind :: string
  ri_content :: string

record recall_window =
  wi_strategy :: string
  wi_items :: "recall_item list"
  wi_tokens :: nat

definition normalize :: "string \<Rightarrow> string" where
  "normalize uri =
     (if list_ex (starts_with uri) [''file:'', ''sym:'', ''mod:'', ''use:'', ''dep:''] then uri else ''file:'' @ uri)"

subsection \<open>Hop distances\<close>

definition other_side :: "node_id \<Rightarrow> graph_edge \<Rightarrow> node_id list" where
  "other_side i e = (if e_source e = i then [e_target e] else if e_target e = i then [e_source e] else [])"

definition hop_adj :: "mem_graph \<Rightarrow> (node_id \<times> node_id list) list" where
  \<comment> \<open>what the scan over all edges finds, for every node that has one\<close>
  "hop_adj g = map (\<lambda>i. (i, concat (map (other_side i) (g_edges g))))
     (remdups (concat (map (\<lambda>e. [e_source e, e_target e]) (g_edges g))))"

definition hop_distances :: "node_id \<Rightarrow> nat \<Rightarrow> mem_graph \<Rightarrow> (node_id \<times> nat) list" where
  "hop_distances anchor max_hops g = bfs (hop_adj g) (\<lambda>i. \<not> starts_with i ''dep:'') (Some max_hops) anchor"

subsection \<open>Candidates\<close>

type_synonym proximity = "(node_id \<times> nat) list \<times> f64 \<times> nat"   \<comment> \<open>hops, decay, radius\<close>

definition RECALL_LSA_WEIGHT :: f64 where "RECALL_LSA_WEIGHT = f64_rat 3 1"

definition recall_score :: "mem_env \<Rightarrow> proximity option \<Rightarrow> (node_id \<times> f64) list option \<Rightarrow> node_id \<Rightarrow> f64 \<Rightarrow> f64" where
  "recall_score env prox sims i score =
     (let near = (case prox of None \<Rightarrow> score
            | Some (dist, decay, max_hops) \<Rightarrow>
                f64_mul score (en_powi env decay (case map_of dist i of Some d \<Rightarrow> d | None \<Rightarrow> max_hops + 1)))
      in case Option.bind sims (\<lambda>m. map_of m i) of
           Some sim \<Rightarrow> f64_mul near (f64_add (f64_rat 1 1) (f64_mul RECALL_LSA_WEIGHT (f64_max sim (f64_zero False))))
         | None \<Rightarrow> near)"

fun gather :: "mem_env \<Rightarrow> proximity option \<Rightarrow> (node_id \<times> f64) list option \<Rightarrow> node_id list \<Rightarrow> node_id list \<Rightarrow> mem_graph
    \<Rightarrow> recall_item list \<times> mem_graph" where
  "gather env prox sims [] seen g = ([], g)"
| "gather env prox sims (i # ids) seen g =
     (if i \<in> set seen then gather env prox sims ids seen g
      else if starts_with i ''dep:'' then gather env prox sims ids (i # seen) g
      else case map_of (g_nodes g) i of
          None \<Rightarrow> gather env prox sims ids (i # seen) g
        | Some n \<Rightarrow> (let (score, g1) = compute_node_score env n g;
              (items, g2) = gather env prox sims ids (i # seen) g1
            in (\<lparr>ri_uri = i, ri_score = recall_score env prox sims i score, ri_kind = node_type_debug (n_type n),
                 ri_content = n_content n\<rparr> # items, g2)))"

definition item_cmp :: "recall_item \<Rightarrow> recall_item \<Rightarrow> cmp" where
  "item_cmp a b = cmp_then (f64_cmp (ri_score b) (ri_score a)) (ord_cmp (ri_uri a) (ri_uri b))"

subsection \<open>Packing\<close>

definition char_count :: "string \<Rightarrow> nat" where
  \<comment> \<open>\<open>s.chars().count()\<close>: the bytes that start a character\<close>
  "char_count s = length (filter (\<lambda>c. \<not> utf8_tail (byte_of c)) s)"

definition item_tokens :: "recall_item \<Rightarrow> nat" where
  "item_tokens it = char_count (ri_content it) div 4"

fun pack :: "nat \<Rightarrow> nat option \<Rightarrow> recall_item list \<Rightarrow> recall_item list \<Rightarrow> nat \<Rightarrow> string list \<Rightarrow> (string, nat) omap
    \<Rightarrow> recall_item list \<times> nat" where
  \<comment> \<open>\<open>items\<close>, \<open>tokens\<close>, \<open>seen_content\<close>, \<open>per_file\<close>\<close>
  "pack budget cap [] items tokens seen per_file = (items, tokens)"
| "pack budget cap (it # rest) items tokens seen per_file =
     (if trim (ri_content it) = [] \<or> ri_content it \<in> set seen then pack budget cap rest items tokens seen per_file
      else let t = item_tokens it; seen' = ri_content it # seen in
        case cap of
          Some c \<Rightarrow> (let f = file_of (ri_uri it); used = (case map_of per_file f of Some u \<Rightarrow> u | None \<Rightarrow> 0) in
            if items \<noteq> [] \<and> c < used + t then pack budget cap rest items tokens seen' per_file
            else if budget < tokens + t \<and> items \<noteq> [] then pack budget cap rest items tokens seen' per_file
            else pack budget cap rest (items @ [it]) (tokens + t) seen' (om_insert f (used + t) per_file))
        | None \<Rightarrow> if budget < tokens + t \<and> items \<noteq> [] then (items, tokens)
            else pack budget cap rest (items @ [it]) (tokens + t) seen' per_file)"

definition file_quota :: "f64 \<Rightarrow> nat \<Rightarrow> proximity option \<Rightarrow> nat option" where
  "file_quota cap_share budget prox = map_option (\<lambda>_. f64_to_usize (f64_mul (f64_of_nat budget) cap_share)) prox"

definition assemble_window :: "mem_env \<Rightarrow> f64 \<Rightarrow> string \<Rightarrow> node_id list \<Rightarrow> nat \<Rightarrow> proximity option
    \<Rightarrow> (node_id \<times> f64) list option \<Rightarrow> mem_graph \<Rightarrow> recall_window \<times> mem_graph" where
  "assemble_window env cap_share strategy ids budget prox sims g =
     (let (scored, g') = gather env prox sims ids [] g;
          (items, tokens) = pack budget (file_quota cap_share budget prox) (sort_by item_cmp scored) [] 0 [] []
      in (\<lparr>wi_strategy = strategy, wi_items = items, wi_tokens = tokens\<rparr>, g'))"

subsection \<open>Entry points of a task\<close>

fun query_words :: "(nat \<Rightarrow> bool) \<Rightarrow> nat list \<Rightarrow> nat list \<Rightarrow> nat list list" where
  \<comment> \<open>\<open>split\<close> at what is neither alphanumeric nor an underscore; the word so far is reversed\<close>
  "query_words alnum w [] = [rev w]"
| "query_words alnum w (c # cs) =
     (if \<not> alnum c \<and> c \<noteq> 0x5F then rev w # query_words alnum [] cs else query_words alnum (c # w) cs)"

definition utf8 :: "nat list \<Rightarrow> string" where
  "utf8 cs = concat (map push_char cs)"

definition query_tokens :: "(nat \<Rightarrow> bool) \<Rightarrow> (string \<Rightarrow> string) \<Rightarrow> nat list \<Rightarrow> string list" where
  "query_tokens alnum lower text = map lower (filter (\<lambda>t. 2 < length t) (map utf8 (query_words alnum [] text)))"

definition token_hits :: "(string \<Rightarrow> string) \<Rightarrow> string list \<Rightarrow> graph_node \<Rightarrow> nat" where
  "token_hits lower q n = (let hay = lower (n_label n @ '' '' @ n_content n)
     in length (filter (\<lambda>t. find_sub t hay \<noteq> None) q))"

definition lexical_hits :: "(string \<Rightarrow> string) \<Rightarrow> string list \<Rightarrow> mem_graph \<Rightarrow> (nat \<times> node_id) list" where
  "lexical_hits lower q g = filter (\<lambda>(s, _). 0 < s) (map (\<lambda>(_, n). (token_hits lower q n, n_id n)) (g_nodes g))"

definition lexical_entry :: "(string \<Rightarrow> string) \<Rightarrow> string list \<Rightarrow> mem_graph \<Rightarrow> node_id option" where
  "lexical_entry lower q g = map_option snd (max_by (\<lambda>a b. cmp_then (ord_cmp (fst a) (fst b)) (ord_cmp (snd b) (snd a)))
     (lexical_hits lower q g))"

definition RRF_DEPTH :: nat where "RRF_DEPTH = 32"
definition RRF_K :: f64 where "RRF_K = f64_rat 60 1"

definition fuse_rank :: "nat \<times> node_id \<Rightarrow> (node_id, f64) omap \<Rightarrow> (node_id, f64) omap" where
  "fuse_rank = (\<lambda>(rank, i) m. om_insert i
     (f64_add (case map_of m i of Some v \<Rightarrow> v | None \<Rightarrow> f64_zero False)
        (f64_div (f64_rat 1 1) (f64_add (f64_add RRF_K (f64_of_nat rank)) (f64_rat 1 1)))) m)"

definition fuse_ranks :: "node_id list list \<Rightarrow> (node_id, f64) omap" where
  "fuse_ranks rankings = fold (\<lambda>l m. fold fuse_rank (enumerate 0 l) m) rankings []"

fun failing_scores :: "mem_env \<Rightarrow> (node_id \<times> graph_node) list \<Rightarrow> mem_graph \<Rightarrow> (f64 \<times> node_id) list \<times> mem_graph" where
  "failing_scores env [] g = ([], g)"
| "failing_scores env ((i, n) # ns) g =
     (if f64_lt (f64_zero False) (n_failure_relevance n)
      then (let (v, g1) = compute_node_score env n g; (vs, g2) = failing_scores env ns g1 in ((v, n_id n) # vs, g2))
      else failing_scores env ns g)"

definition hybrid_entry :: "mem_env \<Rightarrow> (string \<Rightarrow> string) \<Rightarrow> string list \<Rightarrow> node_id list \<Rightarrow> mem_graph \<Rightarrow> node_id option \<times> mem_graph" where
  \<comment> \<open>\<open>semantic\<close>: the nearest nodes of the embedding store, at most \<open>RRF_DEPTH\<close>\<close>
  "hybrid_entry env lower q semantic g =
     (let lexical = map snd (take RRF_DEPTH (sort_by (\<lambda>a b. cmp_then (ord_cmp (fst b) (fst a)) (ord_cmp (snd a) (snd b)))
            (lexical_hits lower q g)));
          (failing, g') = failing_scores env (g_nodes g) g;
          causal = map snd (take RRF_DEPTH (sort_by (\<lambda>a b. cmp_then (f64_cmp (fst b) (fst a)) (ord_cmp (snd a) (snd b))) failing))
      in (map_option fst (max_by (\<lambda>a b. cmp_then (f64_cmp (snd a) (snd b)) (ord_cmp (fst b) (fst a)))
            (fuse_ranks [lexical, semantic, causal])), g'))"

definition hottest_failure_node :: "mem_graph \<Rightarrow> node_id option" where
  "hottest_failure_node g = map_option fst (max_by (\<lambda>(ka, a) (kb, b).
       cmp_then (f64_cmp (n_failure_relevance a) (n_failure_relevance b)) (ord_cmp kb ka))
     (filter (\<lambda>(_, n). f64_lt (f64_zero False) (n_failure_relevance n)) (g_nodes g)))"

end
