(* ===== verification/RecallFacts.thy ===== *)
theory RecallFacts
  imports Recall "HOL-Library.Sublist"
begin

text \<open>
  What a recalled window holds: it fits the budget unless a single item is already too large, it
  repeats no node and no text, it keeps the quota of every file but the first, and hop distances
  are shortest paths that are not relayed by a dependency hub.
\<close>

subsection \<open>Packing\<close>

definition usage :: "string \<Rightarrow> recall_item list \<Rightarrow> nat" where
  "usage f items = sum_list (map item_tokens (filter (\<lambda>it. file_of (ri_uri it) = f) items))"

lemma usage_simps [simp]: "usage f [] = 0" "usage f (items @ [it]) = usage f items + (if file_of (ri_uri it) = f then item_tokens it else 0)"
  "usage f [it] = (if file_of (ri_uri it) = f then item_tokens it else 0)"
  by (simp_all add: usage_def)

definition packed :: "nat \<Rightarrow> string list \<Rightarrow> recall_item list \<Rightarrow> nat \<Rightarrow> bool" where
  "packed budget seen items tokens \<longleftrightarrow> tokens = sum_list (map item_tokens items) \<and> (length items \<le> 1 \<or> tokens \<le> budget)
     \<and> distinct (map ri_content items) \<and> ri_content ` set items \<subseteq> set seen"

lemma packed_add:
  assumes "packed budget seen items tokens" "ri_content it \<notin> set seen" "items = [] \<or> tokens + item_tokens it \<le> budget"
  shows "packed budget (ri_content it # seen) (items @ [it]) (tokens + item_tokens it)"
  using assms by (auto simp: packed_def)

lemma packed_see: "packed budget seen items tokens \<Longrightarrow> packed budget (c # seen) items tokens"
  by (auto simp: packed_def)

definition used_by :: "(string, nat) omap \<Rightarrow> string \<Rightarrow> nat" where
  "used_by per_file f = (case map_of per_file f of Some u \<Rightarrow> u | None \<Rightarrow> 0)"

definition charge :: "nat option \<Rightarrow> recall_item \<Rightarrow> (string, nat) omap \<Rightarrow> (string, nat) omap" where
  "charge cap it per_file = (case cap of None \<Rightarrow> per_file
     | Some _ \<Rightarrow> om_insert (file_of (ri_uri it)) (used_by per_file (file_of (ri_uri it)) + item_tokens it) per_file)"

lemma pack_step:
  obtains (stop) "pack budget cap (it # rest) items tokens seen per_file = (items, tokens)"
  | (skip) seen' where "set seen \<subseteq> set seen'"
      "pack budget cap (it # rest) items tokens seen per_file = pack budget cap rest items tokens seen' per_file"
  | (add) "trim (ri_content it) \<noteq> []" "ri_content it \<notin> set seen" "items = [] \<or> tokens + item_tokens it \<le> budget"
      "\<And>c. cap = Some c \<Longrightarrow> items = [] \<or> used_by per_file (file_of (ri_uri it)) + item_tokens it \<le> c"
      "pack budget cap (it # rest) items tokens seen per_file
        = pack budget cap rest (items @ [it]) (tokens + item_tokens it) (ri_content it # seen) (charge cap it per_file)"
proof (cases "trim (ri_content it) = [] \<or> ri_content it \<in> set seen")
  case True
  then show thesis by (intro skip [of seen]) simp_all
next
  case fresh: False
  show thesis
  proof (cases cap)
    case None
    then show thesis using fresh stop add by (cases "budget < tokens + item_tokens it \<and> items \<noteq> []") (auto simp: charge_def Let_def)
  next
    case (Some c)
    have *: "pack budget cap (it # rest) items tokens seen per_file =
      (if items \<noteq> [] \<and> (c < used_by per_file (file_of (ri_uri it)) + item_tokens it \<or> budget < tokens + item_tokens it)
       then pack budget cap rest items tokens (ri_content it # seen) per_file
       else pack budget cap rest (items @ [it]) (tokens + item_tokens it) (ri_content it # seen) (charge cap it per_file))"
      using fresh Some by (auto simp: Let_def used_by_def charge_def)
    show thesis
    proof (cases "items \<noteq> [] \<and> (c < used_by per_file (file_of (ri_uri it)) + item_tokens it \<or> budget < tokens + item_tokens it)")
      case True
      then show thesis using * by (intro skip [of "ri_content it # seen"]) auto
    next
      case False
      then show thesis using * fresh Some by (intro add) auto
    qed
  qed
qed

lemma pack_packed:
  assumes "packed budget seen items tokens" "pack budget cap rest items tokens seen per_file = (items', tokens')"
  shows "\<exists>seen' new. items' = items @ new \<and> subseq new rest \<and> packed budget seen' items' tokens'
    \<and> (\<forall>it \<in> set new. trim (ri_content it) \<noteq> [])"
  using assms
proof (induction rest arbitrary: items tokens seen per_file)
  case Nil
  then show ?case by auto
next
  case (Cons it rest)
  show ?case
  proof (cases rule: pack_step [of budget cap it rest items tokens seen per_file])
    case stop
    then show ?thesis using Cons.prems by (intro exI [of _ seen] exI [of _ "[]"]) auto
  next
    case (skip seen')
    have "packed budget seen' items tokens" using Cons.prems(1) skip(1) by (auto simp: packed_def)
    from Cons.IH [OF this] Cons.prems(2) skip(2) show ?thesis by (metis list_emb_Cons)
  next
    case add
    note more = packed_add [OF Cons.prems(1) add(2,3)]
    obtain seen' new where n: "items' = (items @ [it]) @ new" "subseq new rest" "packed budget seen' items' tokens'"
      "\<forall>x \<in> set new. trim (ri_content x) \<noteq> []"
      using Cons.IH [OF more] Cons.prems(2) add(5) by metis
    then show ?thesis using add(1) by (intro exI [of _ seen'] exI [of _ "it # new"]) auto
  qed
qed

definition quota_ok :: "nat \<Rightarrow> recall_item list \<Rightarrow> bool" where
  "quota_ok c items \<longleftrightarrow> (\<forall>f. usage f items \<le> c \<or> items \<noteq> [] \<and> f = file_of (ri_uri (hd items)) \<and> usage f items = item_tokens (hd items))"

lemma pack_quota:
  assumes "quota_ok c items" "\<And>f. used_by per_file f = usage f items"
    "pack budget (Some c) rest items tokens seen per_file = (items', tokens')"
  shows "quota_ok c items'"
  using assms
proof (induction rest arbitrary: items tokens seen per_file)
  case Nil
  then show ?case by simp
next
  case (Cons it rest)
  show ?case
  proof (cases rule: pack_step [of budget "Some c" it rest items tokens seen per_file])
    case stop
    then show ?thesis using Cons.prems by simp
  next
    case (skip seen')
    then show ?thesis using Cons.IH [OF Cons.prems(1,2)] Cons.prems(3) by metis
  next
    case add
    let ?f = "file_of (ri_uri it)"
    have "quota_ok c (items @ [it])"
    proof (cases "items = []")
      case True
      then show ?thesis by (simp add: quota_ok_def)
    next
      case False
      have "usage f (items @ [it]) \<le> c \<or> f = file_of (ri_uri (hd items)) \<and> usage f (items @ [it]) = item_tokens (hd items)" for f
        using Cons.prems(1,2) add(4) False by (cases "f = ?f") (auto simp: quota_ok_def)
      then show ?thesis using False by (auto simp: quota_ok_def)
    qed
    moreover have "used_by (charge (Some c) it per_file) f = usage f (items @ [it])" for f
      using Cons.prems(2) by (auto simp: charge_def used_by_def)
    ultimately show ?thesis using Cons.IH Cons.prems(3) add(5) by metis
  qed
qed

subsection \<open>Candidates\<close>

definition candidate :: "mem_graph \<Rightarrow> node_id list \<Rightarrow> recall_item \<Rightarrow> bool" where
  \<comment> \<open>the item of a resident node of the selection that is not a dependency hub\<close>
  "candidate g ids it \<longleftrightarrow> ri_uri it \<in> set ids \<and> \<not> starts_with (ri_uri it) ''dep:''
     \<and> (\<exists>n. map_of (g_nodes g) (ri_uri it) = Some n \<and> ri_content it = n_content n \<and> ri_kind it = node_type_debug (n_type n))"

lemma gather_candidates:
  "set (fst (gather env prox sims ids seen g)) \<subseteq> {it. candidate g ids it \<and> ri_uri it \<notin> set seen}
    \<and> distinct (map ri_uri (fst (gather env prox sims ids seen g)))"
proof (induction env prox sims ids seen g rule: gather.induct)
  case (2 env prox sims i ids seen g)
  consider "i \<in> set seen" | "i \<notin> set seen" "starts_with i ''dep:'' \<or> map_of (g_nodes g) i = None"
    | n where "i \<notin> set seen" "\<not> starts_with i ''dep:''" "map_of (g_nodes g) i = Some n" by auto
  then show ?case
  proof cases
    case 1
    then show ?thesis using "2.IH"(1) by (auto simp: candidate_def)
  next
    case 2
    then show ?thesis using "2.IH"(2,3) by (auto simp: candidate_def)
  next
    case (3 n)
    obtain v g1 where c: "compute_node_score env n g = (v, g1)" by fastforce
    obtain items g2 where r: "gather env prox sims ids (i # seen) g1 = (items, g2)" by fastforce
    have "g_nodes g1 = g_nodes g" using compute_node_score_nodes [of env n g] c by simp
    then have "set items \<subseteq> {it. candidate g ids it \<and> ri_uri it \<notin> set (i # seen)} \<and> distinct (map ri_uri items)"
      using "2.IH"(4) [OF 3 refl] c r by (simp add: candidate_def)
    then show ?thesis using 3 by (auto simp: c r candidate_def)
  qed
qed simp

text \<open>
  C25. A recalled window is within its budget or holds a single item; its token count is that of its
  items; no node and no text comes twice; and its items are resident nodes of the selection with
  their own non-blank content, dependency hubs excluded, in the order of the ranking.
\<close>

theorem window_packed:
  fixes env share strategy ids budget prox sims g
  defines "w \<equiv> fst (assemble_window env share strategy ids budget prox sims g)"
  shows "wi_tokens w = sum_list (map item_tokens (wi_items w)) \<and> (length (wi_items w) \<le> 1 \<or> wi_tokens w \<le> budget)
    \<and> distinct (map ri_uri (wi_items w)) \<and> distinct (map ri_content (wi_items w))
    \<and> set (wi_items w) \<subseteq> {it. candidate g ids it \<and> trim (ri_content it) \<noteq> []}
    \<and> subseq (wi_items w) (sort_by item_cmp (fst (gather env prox sims ids [] g)))"
proof -
  obtain scored g' where s: "gather env prox sims ids [] g = (scored, g')" by fastforce
  obtain items tokens where p: "pack budget (file_quota share budget prox) (sort_by item_cmp scored) [] 0 [] [] = (items, tokens)"
    by fastforce
  have w: "wi_items w = items" "wi_tokens w = tokens" by (simp_all add: w_def assemble_window_def s p)
  have "packed budget [] [] 0" by (simp add: packed_def)
  from pack_packed [OF this p] obtain seen' where *: "subseq items (sort_by item_cmp scored)" "packed budget seen' items tokens"
    "\<forall>it \<in> set items. trim (ri_content it) \<noteq> []" by auto
  have g: "set scored \<subseteq> {it. candidate g ids it}" "distinct (map ri_uri scored)"
    using gather_candidates [of env prox sims ids "[]" g] s by auto
  have "set items \<subseteq> set (sort_by item_cmp scored)"
  proof
    fix x assume "x \<in> set items"
    then show "x \<in> set (sort_by item_cmp scored)" using list_emb_set [OF *(1)] by metis
  qed
  then have "set items \<subseteq> set scored" by simp
  moreover have "distinct (map ri_uri items)"
  proof -
    have "inj_on ri_uri (set scored)" using g(2) by (simp add: distinct_map)
    moreover have "distinct items" using *(2) by (simp add: packed_def distinct_map)
    ultimately show ?thesis using \<open>set items \<subseteq> set scored\<close> by (simp add: distinct_map inj_on_subset)
  qed
  ultimately show ?thesis using * g(1) unfolding w s packed_def by auto
qed

text \<open>
  In an anchored window no file takes more than its quota of the budget, except that the first
  item is admitted whatever its size; a file over its quota holds that item only, or items of no
  weight beside it.
\<close>

theorem window_quota:
  assumes "file_quota share budget prox = Some c"
  shows "quota_ok c (wi_items (fst (assemble_window env share strategy ids budget prox sims g)))"
proof -
  obtain scored g' where s: "gather env prox sims ids [] g = (scored, g')" by fastforce
  obtain items tokens where p: "pack budget (Some c) (sort_by item_cmp scored) [] 0 [] [] = (items, tokens)" by fastforce
  have "quota_ok c items" by (rule pack_quota [OF _ _ p]) (simp_all add: quota_ok_def used_by_def)
  then show ?thesis by (simp add: assemble_window_def s assms p)
qed

subsection \<open>Hops\<close>

definition hop_arcs :: "mem_graph \<Rightarrow> (node_id \<times> node_id) set" where
  "hop_arcs g = {(a, b). \<not> starts_with a ''dep:'' \<and> (\<exists>e \<in> set (g_edges g). {e_source e, e_target e} = {a, b})}"

lemma hop_adj_nbrs: "nbrs (hop_adj g) i = concat (map (other_side i) (g_edges g))"
proof (cases "i \<in> set (concat (map (\<lambda>e. [e_source e, e_target e]) (g_edges g)))")
  case True
  have "map_of (map (\<lambda>i. (i, f i)) (remdups xs)) i = Some (f i)" if "i \<in> set xs" for xs :: "node_id list" and f :: "node_id \<Rightarrow> node_id list"
    using that by (simp add: map_of_map_restrict)
  from this [OF True] show ?thesis by (simp add: nbrs_def hop_adj_def)
next
  case False
  then have "\<forall>e \<in> set (g_edges g). other_side i e = []" by (auto simp: other_side_def)
  then have "concat (map (other_side i) (g_edges g)) = []" by simp
  moreover have "map_of (hop_adj g) i = None" using False unfolding hop_adj_def by (simp add: map_of_map_restrict)
  ultimately show ?thesis by (simp add: nbrs_def)
qed

lemma arcs_hop: "arcs (hop_adj g) (\<lambda>i. \<not> starts_with i ''dep:'') = hop_arcs g"
proof -
  have one: "b \<in> set (other_side a e) \<longleftrightarrow> {e_source e, e_target e} = {a, b}" for a b e
    by (auto simp: other_side_def doubleton_eq_iff)
  have "b \<in> set (nbrs (hop_adj g) a) \<longleftrightarrow> (\<exists>e \<in> set (g_edges g). {e_source e, e_target e} = {a, b})" for a b
    unfolding hop_adj_nbrs by (auto simp: one)
  then show ?thesis unfolding arcs_def hop_arcs_def by auto
qed

text \<open>
  The hop distances are the lengths of the shortest undirected paths from the anchor within the
  radius that no dependency hub relays; a node is missing exactly when there is none.
\<close>

theorem hops_exact:
  "map_of (hop_distances anchor max_hops g) y = Some k \<longleftrightarrow> k \<le> max_hops \<and> dist_is (hop_arcs g) {anchor} k y"
proof -
  have "map_of (hop_distances anchor max_hops g) y = Some k \<longleftrightarrow> (y, k) \<in> set (hop_distances anchor max_hops g)"
    by (rule map_of_eq_Some_iff) (simp add: hop_distances_def bfs_distinct)
  then show ?thesis by (auto simp: hop_distances_def bfs_iff arcs_hop within_def)
qed

end
