(* ===== verification/Facade.thy ===== *)
theory Facade
  imports RecallFacts Incremental DistLog Sanitizer CausalFlash
begin

text \<open>
  \<open>CcosMemory\<close> (\<open>src/external_memory.rs\<close>), the facade an agent programs against: ingestion with
  sanitizing, provenance trust and deferred resolution, failure signals, evidence, recall under
  six strategies with its caches, verification, statistics and checkpoints. Interior mutability
  (region, embedding and projection caches, the centrality caches, the causal adjacency) is state
  that a recall returns. A panic inside a recall is the result \<open>None\<close>.
\<close>

subsection \<open>Environment and state\<close>

record facade_env =
  fe_mem :: mem_env
  fe_syn :: "string \<Rightarrow> extracted option"
  fe_header_cap :: nat
  fe_alnum :: "nat \<Rightarrow> bool"
  fe_lower :: "string \<Rightarrow> string"
  fe_injection :: "string \<Rightarrow> f64"              \<comment> \<open>the classifier's probability\<close>
  fe_show :: "f64 \<Rightarrow> string"                    \<comment> \<open>decimal form of a float\<close>
  fe_json :: "event_payload \<Rightarrow> string"
  fe_stamp :: "nat \<Rightarrow> string \<times> nat"             \<comment> \<open>UUID and time of the event with this number\<close>
  fe_clock :: "nat \<Rightarrow> nat"                       \<comment> \<open>wall clock at the mutation or link with this number\<close>
  fe_decay :: f64                                 \<comment> \<open>\<open>CCOS_PROXIMITY_DECAY\<close>, \<open>CCOS_PROXIMITY_HOPS\<close>, \<open>CCOS_RECALL_FILE_CAP\<close>\<close>
  fe_hops :: nat
  fe_share :: f64
  fe_cosine :: "bool \<Rightarrow> mem_graph \<Rightarrow> nat list \<Rightarrow> node_id \<Rightarrow> f64"      \<comment> \<open>store fitted on a graph, query, node\<close>
  fe_lsa_fits :: "nat \<Rightarrow> mem_graph \<Rightarrow> bool"
  fe_lsa :: "nat \<Rightarrow> mem_graph \<Rightarrow> mem_graph \<Rightarrow> nat list \<Rightarrow> node_id \<Rightarrow> f64"

definition sha_hex :: "facade_env \<Rightarrow> string \<Rightarrow> string" where
  "sha_hex fe s = source_hash (fe_mem fe) s"

definition facade_log :: "facade_env \<Rightarrow> log_env" where
  "facade_log fe = \<lparr>le_sha = sha_hex fe, le_json = fe_json fe, le_stamp = fe_stamp fe\<rparr>"

definition dist_sha :: "facade_env \<Rightarrow> bytes \<Rightarrow> string" where
  "dist_sha fe b = hex_bytes (en_sha (fe_mem fe) b)"

datatype memory_error = NodeNotFound string | IoFailed io_err | SerdeFailed | NoPath | TimelineTampered string

record ccos_memory =
  cm_graph :: knowledge
  cm_engine :: engine
  cm_log :: event_log
  cm_dist :: dist_log
  cm_sources :: "(string, string) omap"
  cm_path :: "path option"
  cm_version :: u64
  cm_dirty :: bool                                 \<comment> \<open>\<open>needs_resolution\<close>\<close>
  cm_regions :: "(u64 \<times> region_engine) option"
  cm_embed :: "(u64 \<times> mem_graph) option"          \<comment> \<open>a fitted store is kept as the graph it was fitted on\<close>
  cm_rank :: "nat option"                          \<comment> \<open>\<open>lsa_rerank_rank\<close>\<close>
  cm_slhav2 :: bool
  cm_lsa :: "(u64 \<times> nat \<times> mem_graph) option"     \<comment> \<open>likewise, with the rank of the projection\<close>
  cm_flash :: flash_cache

definition ccos_new :: "disk \<Rightarrow> ccos_memory" where
  "ccos_new d = \<lparr>cm_graph = (pending_empty, graph_new (f64_rat 2 10) 5000 d), cm_engine = engine_new,
     cm_log = log_new ''ccos-external-memory'', cm_dist = dist_new, cm_sources = [], cm_path = None, cm_version = 0,
     cm_dirty = False, cm_regions = None, cm_embed = None, cm_rank = None, cm_slhav2 = True, cm_lsa = None, cm_flash = None\<rparr>"

abbreviation graph_in :: "ccos_memory \<Rightarrow> mem_graph" where
  "graph_in m \<equiv> snd (cm_graph m)"

definition put_graph :: "mem_graph \<Rightarrow> ccos_memory \<Rightarrow> ccos_memory" where
  "put_graph g m = m\<lparr>cm_graph := (fst (cm_graph m), g)\<rparr>"

definition bump_version :: "ccos_memory \<Rightarrow> ccos_memory" where
  "bump_version m = m\<lparr>cm_version := cm_version m + 1\<rparr>"

definition log_link :: "facade_env \<Rightarrow> string \<Rightarrow> string \<Rightarrow> ccos_memory \<Rightarrow> ccos_memory" where
  "log_link fe payload source m =
     m\<lparr>cm_dist := snd (dist_append (dist_sha fe) (fe_clock fe (dl_next_id (cm_dist m))) payload source (cm_dist m))\<rparr>"

subsection \<open>Evidence\<close>

definition ensure_node :: "mem_env \<Rightarrow> node_id \<Rightarrow> mem_graph \<Rightarrow> mem_graph" where
  "ensure_node env i g = (if \<not> resident g i then upsert_node env i i [] ContextBlock g else g)"

definition assert_evidence :: "facade_env \<Rightarrow> string \<Rightarrow> string \<Rightarrow> bool \<Rightarrow> f64 \<Rightarrow> ccos_memory \<Rightarrow> bool \<times> ccos_memory" where
  "assert_evidence fe evidence claim supports weight m0 =
     (let m = bump_version m0;
          g = ensure_node (fe_mem fe) claim (ensure_node (fe_mem fe) evidence (graph_in m));
          authority = unit_clamp weight;
          (added, g') = add_edge evidence claim authority (if supports then Supports else Contradicts) g;
          tag = (if supports then ''support'' else ''contradict'')
      in (added, log_link fe (sha_hex fe (tag @ '':'' @ evidence @ ''->'' @ claim @ '':'' @ fe_show fe authority)) ''assertion''
                   (put_graph g' m)))"

definition assert_support :: "facade_env \<Rightarrow> string \<Rightarrow> string \<Rightarrow> f64 \<Rightarrow> ccos_memory \<Rightarrow> bool \<times> ccos_memory" where
  "assert_support fe evidence claim weight m = assert_evidence fe evidence claim True weight m"

definition assert_contradiction :: "facade_env \<Rightarrow> string \<Rightarrow> string \<Rightarrow> f64 \<Rightarrow> ccos_memory \<Rightarrow> bool \<times> ccos_memory" where
  "assert_contradiction fe evidence claim weight m = assert_evidence fe evidence claim False weight m"

subsection \<open>Ingestion\<close>

record ingest_report =
  ir_uri :: string
  ir_nodes_added :: nat
  ir_nodes_removed :: nat
  ir_edges_added :: nat
  ir_anomalies :: "scan_finding list"
  ir_injection :: f64
  ir_flagged :: bool

definition bare_uri :: "string \<Rightarrow> string" where
  "bare_uri uri = (case strip_prefix uri ''file:'' of Some rest \<Rightarrow> rest | None \<Rightarrow> uri)"

definition hard_anomaly :: "scan_report \<Rightarrow> bool" where
  "hard_anomaly seen = list_ex (\<lambda>f. f_kind f \<in> {BidiControl, TagChar}) (r_findings seen)"

definition provenance_trust :: "f64 \<Rightarrow> bool \<Rightarrow> f64" where
  "provenance_trust score hard =
     (let trust = (if f64_le (f64_rat 1 2) score then unit_clamp (f64_sub (f64_rat 1 1) score) else f64_rat 1 1)
      in if hard then f64_min trust (f64_rat 1 2) else trust)"

definition taint :: "f64 \<Rightarrow> bool \<Rightarrow> string \<Rightarrow> mem_graph \<Rightarrow> mem_graph" where
  "taint score hard uri g =
     (if f64_le (f64_rat 1 2) score \<or> hard then stamp_file_trust uri (provenance_trust score hard) g else g)"

definition ingest_deferred :: "facade_env \<Rightarrow> string \<Rightarrow> ustr \<Rightarrow> ccos_memory \<Rightarrow> ingest_report \<times> ccos_memory" where
  "ingest_deferred fe uri0 text m0 =
     (let m = bump_version m0;
          uri = bare_uri uri0;
          (clean, seen) = defang (fe_alnum fe) text;
          source = utf8 clean;
          score = fe_injection fe source;
          key = ''file:'' @ uri;
          now = fe_clock fe (length (ig_log (cm_engine m)));
          (delta, en, p, g) = process_delta (fe_mem fe) (fe_syn fe) (fe_header_cap fe) now now uri
             (map_of (cm_sources m) key) source (cm_engine m, cm_graph m);
          g1 = taint score (hard_anomaly seen) uri g;
          hash = sha_hex fe source;
          m1 = m\<lparr>cm_engine := en, cm_graph := (p, g1), cm_sources := om_insert key source (cm_sources m), cm_dirty := True,
                 cm_log := emit (facade_log fe) ParsingEvent (Parsing uri hash 0 0 0) (cm_log m)\<rparr>
      in (\<lparr>ir_uri = uri, ir_nodes_added = dm_nodes_added delta, ir_nodes_removed = dm_nodes_removed delta,
           ir_edges_added = dm_edges_added delta, ir_anomalies = r_findings seen, ir_injection = score,
           ir_flagged = f64_le (f64_rat 1 2) score\<rparr>,
          log_link fe hash ''external-memory'' m1))"

definition resolve :: "ccos_memory \<Rightarrow> nat \<times> ccos_memory" where
  "resolve m =
     (if \<not> cm_dirty m then (0, m)
      else let (cross, g) = resolve_all (fst (cm_graph m)) (graph_in m)
        in (cross, bump_version ((put_graph g m)\<lparr>cm_dirty := False\<rparr>)))"

definition ingest_source :: "facade_env \<Rightarrow> string \<Rightarrow> ustr \<Rightarrow> ccos_memory \<Rightarrow> ingest_report \<times> ccos_memory" where
  "ingest_source fe uri text m =
     (let (report, m1) = ingest_deferred fe uri text m; (cross, m2) = resolve m1
      in (report\<lparr>ir_edges_added := ir_edges_added report + cross\<rparr>, m2))"

definition file_unchanged :: "facade_env \<Rightarrow> string \<Rightarrow> ustr \<Rightarrow> ccos_memory \<Rightarrow> bool" where
  "file_unchanged fe uri text m \<longleftrightarrow>
     map_of (cm_sources m) (''file:'' @ bare_uri uri) = Some (utf8 (fst (defang (fe_alnum fe) text)))"

definition source_for :: "string \<Rightarrow> ccos_memory \<Rightarrow> string option" where
  "source_for uri m = map_of (cm_sources m) (if starts_with uri ''file:'' then uri else ''file:'' @ uri)"

subsection \<open>Failures, paging, knobs\<close>

definition signal_failure :: "facade_env \<Rightarrow> string \<Rightarrow> nat \<Rightarrow> ccos_memory \<Rightarrow> (memory_error + nat) \<times> ccos_memory" where
  "signal_failure fe node radius m0 =
     (let m = bump_version m0; i = normalize node; g = graph_in m;
          (there, g1) = (if resident g i then (True, g) else page_in (fe_mem fe) i g)
      in if \<not> there then (Inl (NodeNotFound i), put_graph g1 m)
         else let g2 = propagate_failure (fe_mem fe) i 0 radius (set_failure_relevance i (f64_rat 95 100) g1);
                  affected = length (filter (\<lambda>(k, n). k \<noteq> i \<and> f64_lt (f64_zero False) (n_failure_relevance n)) (g_nodes g2))
           in (Inr affected, put_graph g2 m))"

fun page_in_all :: "mem_env \<Rightarrow> node_id list \<Rightarrow> nat \<times> mem_graph \<Rightarrow> nat \<times> mem_graph" where
  "page_in_all env [] acc = acc"
| "page_in_all env (i # ids) (paged, g) =
     (let (hit, g') = page_in env i g in page_in_all env ids (if hit then paged + 1 else paged, g'))"

definition ensure_resident :: "facade_env \<Rightarrow> string \<Rightarrow> ccos_memory \<Rightarrow> nat \<times> ccos_memory" where
  "ensure_resident fe uri m0 =
     (let m = bump_version m0; i = normalize uri;
          (neighbours, g) = cold_neighbours i (graph_in m);
          (paged, g') = page_in_all (fe_mem fe) (i # neighbours) (0, g)
      in (paged, put_graph g' m))"

definition set_max_resident :: "facade_env \<Rightarrow> nat \<Rightarrow> ccos_memory \<Rightarrow> ccos_memory" where
  "set_max_resident fe n m0 =
     (let m = bump_version m0 in put_graph (enforce_paging (fe_mem fe) ((graph_in m)\<lparr>g_max := max n 1\<rparr>)) m)"

definition ccos_tick :: "ccos_memory \<Rightarrow> ccos_memory" where
  "ccos_tick m0 = (let m = bump_version m0 in put_graph (tick (graph_in m)) m)"

definition ccos_set_weights :: "scoring_weights \<Rightarrow> ccos_memory \<Rightarrow> ccos_memory" where
  "ccos_set_weights w m0 = (let m = bump_version m0 in put_graph (set_scoring_weights w (graph_in m)) m)"

definition ccos_attach_spill :: "facade_env \<Rightarrow> string \<Rightarrow> nat \<Rightarrow> io_err option \<Rightarrow> ccos_memory \<Rightarrow> unit io \<times> ccos_memory" where
  "ccos_attach_spill fe dir budget mk m =
     (let (r, g) = attach_cold_spill (fe_mem fe) dir budget mk (graph_in m) in (r, put_graph g m))"

definition ccos_set_content_budget :: "facade_env \<Rightarrow> nat option \<Rightarrow> ccos_memory \<Rightarrow> ccos_memory" where
  "ccos_set_content_budget fe budget m = put_graph (set_cold_content_budget (fe_mem fe) budget (graph_in m)) m"

definition set_lsa_rerank :: "nat option \<Rightarrow> ccos_memory \<Rightarrow> ccos_memory" where
  "set_lsa_rerank rank m = m\<lparr>cm_rank := rank\<rparr>"

definition set_slhav2_embeddings :: "bool \<Rightarrow> ccos_memory \<Rightarrow> ccos_memory" where
  "set_slhav2_embeddings on m = (if cm_slhav2 m \<noteq> on then m\<lparr>cm_slhav2 := on, cm_embed := None\<rparr> else m)"

subsection \<open>Recall\<close>

datatype recall_query = WorkingSet | Around string | Task "nat list" | Semantic "nat list" | Hybrid "nat list"
  | ConeRecall flash_config

definition recall_regions :: "facade_env \<Rightarrow> ccos_memory \<Rightarrow> (region_engine \<times> ccos_memory) option" where
  \<comment> \<open>the cached clustering, rebuilt when the version has moved on\<close>
  "recall_regions fe m =
     (case cm_regions m of
        Some (v, eng) \<Rightarrow> if v = cm_version m then Some (eng, m) else None
      | None \<Rightarrow> None)"

definition build_regions :: "facade_env \<Rightarrow> ccos_memory \<Rightarrow> (region_engine \<times> ccos_memory) option" where
  "build_regions fe m =
     (case recall_regions fe m of
        Some r \<Rightarrow> Some r
      | None \<Rightarrow> (case initialize_regions (fe_mem fe) (facade_log fe) (graph_in m) (regions_new, log_new ''recall'') of
            None \<Rightarrow> None
          | Some ((eng, _), g) \<Rightarrow> Some (eng, (put_graph g m)\<lparr>cm_regions := Some (cm_version m, eng)\<rparr>)))"

definition region_member_ids :: "facade_env \<Rightarrow> string \<Rightarrow> ccos_memory \<Rightarrow> (node_id list \<times> ccos_memory) option" where
  "region_member_ids fe uri m0 =
     (let anchor = normalize uri in
      case build_regions fe m0 of
        None \<Rightarrow> None
      | Some (eng, m) \<Rightarrow>
          (case Option.bind (region_of anchor eng) (map_of (re_regions eng)) of
             Some r \<Rightarrow> Some (rg_members r, m)
           | None \<Rightarrow> (let (down, g1) = impact_set (fe_mem fe) anchor 2 (graph_in m);
                  (up, g2) = source_set (fe_mem fe) anchor 2 g1
                in Some (anchor # map r_id down @ map r_id up, put_graph g2 m))))"

definition embedding_graph :: "ccos_memory \<Rightarrow> mem_graph \<times> ccos_memory" where
  \<comment> \<open>\<open>build_embeddings\<close>: the graph the store in use was fitted on\<close>
  "embedding_graph m =
     (case cm_embed m of
        Some (v, g) \<Rightarrow> if v = cm_version m then (g, m) else (graph_in m, m\<lparr>cm_embed := Some (cm_version m, graph_in m)\<rparr>)
      | None \<Rightarrow> (graph_in m, m\<lparr>cm_embed := Some (cm_version m, graph_in m)\<rparr>))"

definition similarities :: "facade_env \<Rightarrow> bool \<Rightarrow> mem_graph \<Rightarrow> nat list \<Rightarrow> (node_id \<times> f64) list" where
  "similarities fe slhav2 fitted text = map (\<lambda>(i, _). (i, fe_cosine fe slhav2 fitted text i)) (g_nodes fitted)"

definition nearest :: "(node_id \<times> f64) list \<Rightarrow> (node_id \<times> f64) option" where
  "nearest sims = max_by (\<lambda>a b. cmp_then (f64_cmp (snd a) (snd b)) (ord_cmp (fst b) (fst a))) sims"

definition nearest_k :: "(node_id \<times> f64) list \<Rightarrow> nat \<Rightarrow> (node_id \<times> f64) list" where
  "nearest_k sims k = take k (sort_by (\<lambda>a b. cmp_then (f64_cmp (snd b) (snd a)) (ord_cmp (fst a) (fst b))) sims)"

definition task_words :: "facade_env \<Rightarrow> nat list \<Rightarrow> string list" where
  "task_words fe text = query_tokens (fe_alnum fe) (fe_lower fe) text"

definition semantic_entry :: "facade_env \<Rightarrow> nat list \<Rightarrow> (node_id \<times> f64) list \<Rightarrow> f64 \<Rightarrow> mem_graph \<Rightarrow> node_id option" where
  "semantic_entry fe text sims min_similarity g =
     (if sims = [] then lexical_entry (fe_lower fe) (task_words fe text) g
      else Option.bind (nearest sims) (\<lambda>(i, score).
             if f64_le min_similarity score then Some i else lexical_entry (fe_lower fe) (task_words fe text) g))"

definition lsa_region_scores :: "facade_env \<Rightarrow> nat list \<Rightarrow> node_id list \<Rightarrow> nat \<Rightarrow> ccos_memory \<Rightarrow> (node_id \<times> f64) list \<times> ccos_memory" where
  \<comment> \<open>the cached projection is taken whatever rank it was fitted for\<close>
  "lsa_region_scores fe text ids rank m =
     (let score = (\<lambda>r fitted. List.map_filter (\<lambda>i. if resident (graph_in m) i then Some (i, fe_lsa fe r fitted (graph_in m) text i) else None) ids)
      in case cm_lsa m of
           Some (v, r, fitted) \<Rightarrow>
             if v = cm_version m then (score r fitted, m)
             else if fe_lsa_fits fe rank (graph_in m)
               then (score rank (graph_in m), m\<lparr>cm_lsa := Some (cm_version m, rank, graph_in m)\<rparr>) else ([], m)
         | None \<Rightarrow> if fe_lsa_fits fe rank (graph_in m)
             then (score rank (graph_in m), m\<lparr>cm_lsa := Some (cm_version m, rank, graph_in m)\<rparr>) else ([], m))"

definition window_of :: "facade_env \<Rightarrow> string \<Rightarrow> node_id list \<Rightarrow> nat \<Rightarrow> proximity option \<Rightarrow> (node_id \<times> f64) list option
    \<Rightarrow> ccos_memory \<Rightarrow> recall_window \<times> ccos_memory" where
  "window_of fe strategy ids budget prox sims m =
     (let (w, g) = assemble_window (fe_mem fe) (fe_share fe) strategy ids budget prox sims (graph_in m) in (w, put_graph g m))"

definition recall_region :: "facade_env \<Rightarrow> string \<Rightarrow> string \<Rightarrow> nat list option \<Rightarrow> nat \<Rightarrow> ccos_memory
    \<Rightarrow> (recall_window \<times> ccos_memory) option" where
  \<comment> \<open>the region of the entry, with proximity; with a query text also the re-ranking, when it is on\<close>
  "recall_region fe strategy entry text budget m0 =
     (case region_member_ids fe entry m0 of
        None \<Rightarrow> None
      | Some (ids, m) \<Rightarrow>
          (let (sims, m1) = (case (text, cm_rank m) of
                 (Some t, Some rank) \<Rightarrow> (let (s, m') = lsa_region_scores fe t ids rank m in (Some s, m'))
               | _ \<Rightarrow> (None, m));
               dist = hop_distances (normalize entry) (fe_hops fe) (graph_in m1)
           in Some (window_of fe strategy ids budget (Some (dist, fe_decay fe, fe_hops fe)) sims m1)))"

definition recall_entry :: "facade_env \<Rightarrow> string \<Rightarrow> node_id option \<Rightarrow> nat list option \<Rightarrow> nat \<Rightarrow> ccos_memory
    \<Rightarrow> (recall_window \<times> ccos_memory) option" where
  "recall_entry fe strategy entry text budget m =
     (case entry of
        Some i \<Rightarrow> recall_region fe strategy i text budget m
      | None \<Rightarrow> Some (window_of fe strategy [] budget None None m))"

definition recall :: "facade_env \<Rightarrow> recall_query \<Rightarrow> nat \<Rightarrow> ccos_memory \<Rightarrow> (recall_window \<times> ccos_memory) option" where
  "recall fe query budget m =
     (case query of
        WorkingSet \<Rightarrow> (let (scores, g) = get_node_scores (fe_mem fe) (graph_in m)
          in Some (window_of fe ''working-set'' (map fst scores) budget None None (put_graph g m)))
      | Around uri \<Rightarrow> recall_region fe ''region'' uri None budget m
      | Task text \<Rightarrow> recall_entry fe ''task-region'' (lexical_entry (fe_lower fe) (task_words fe text) (graph_in m)) None budget m
      | Semantic text \<Rightarrow> (let (fitted, m1) = embedding_graph m;
            sims = similarities fe (cm_slhav2 m1) fitted text
          in recall_entry fe ''semantic-region'' (semantic_entry fe text sims (f64_rat 5 100) (graph_in m1)) (Some text) budget m1)
      | Hybrid text \<Rightarrow> (let (fitted, m1) = embedding_graph m;
            sims = similarities fe (cm_slhav2 m1) fitted text;
            (entry, g) = hybrid_entry (fe_mem fe) (fe_lower fe) (task_words fe text) (map fst (nearest_k sims RRF_DEPTH)) (graph_in m1)
          in recall_entry fe ''hybrid-region'' entry (Some text) budget (put_graph g m1))
      | ConeRecall cfg \<Rightarrow> (let (w, cache) = causal_flash_window (cfg\<lparr>f_max_nodes := None\<rparr>) (cm_flash m) (graph_in m)
          in Some (window_of fe ''causal-flash'' (map cw_id (win_nodes w)) budget None None (m\<lparr>cm_flash := cache\<rparr>))))"

definition impact :: "facade_env \<Rightarrow> string \<Rightarrow> nat \<Rightarrow> ccos_memory \<Rightarrow> reached_node list \<times> ccos_memory" where
  "impact fe node radius m = (let (rs, g) = impact_set (fe_mem fe) (normalize node) radius (graph_in m) in (rs, put_graph g m))"

definition causes :: "facade_env \<Rightarrow> string \<Rightarrow> nat \<Rightarrow> ccos_memory \<Rightarrow> reached_node list \<times> ccos_memory" where
  "causes fe node radius m = (let (rs, g) = source_set (fe_mem fe) (normalize node) radius (graph_in m) in (rs, put_graph g m))"

subsection \<open>Integrity and statistics\<close>

record integrity =
  in_valid :: bool
  in_events :: nat
  in_errors :: "string list"

definition verify_memory :: "facade_env \<Rightarrow> ccos_memory \<Rightarrow> integrity" where
  "verify_memory fe m =
     (let log = verify_integrity (sha_hex fe) (fe_json fe) (cm_log m); dist = dist_verify (dist_sha fe) (cm_dist m)
      in \<lparr>in_valid = (li_valid log \<and> ir_valid dist), in_events = li_verified log, in_errors = li_errors log @ ir_errors dist\<rparr>)"

record memory_stats =
  st_nodes :: nat
  st_edges :: nat
  st_cold :: nat
  st_spilled :: nat
  st_spilled_bytes :: nat
  st_compacted :: nat
  st_events :: nat
  st_files :: nat
  st_clock :: nat

definition memory_stats_of :: "ccos_memory \<Rightarrow> memory_stats" where
  "memory_stats_of m = (let g = graph_in m in
     \<lparr>st_nodes = length (g_nodes g), st_edges = length (g_edges g), st_cold = cold_count g, st_spilled = cold_spilled_count g,
      st_spilled_bytes = cold_spilled_bytes g, st_compacted = cold_compacted_count g, st_events = length (events (cm_log m)),
      st_files = length (cm_sources m), st_clock = g_clock g\<rparr>)"

subsection \<open>Checkpoints\<close>

definition durable :: "mem_graph \<Rightarrow> mem_graph" where
  \<comment> \<open>what serde keeps of a graph: the runtime handles, knobs and caches are skipped\<close>
  "durable g = g\<lparr>g_spill := None, g_husks := None, g_radj := None, g_content_budget := None, g_resident_budget := None,
     g_indegree := None, g_eigen := None, g_edge_set := [], g_disk := \<lparr>d_files = [], d_pid = 0, d_faults = [], d_stuck = []\<rparr>\<rparr>"

record persisted =
  ps_graph :: mem_graph
  ps_log :: event_log
  ps_dist :: dist_log
  ps_sources :: "(string, string) omap"

definition persisted_of :: "ccos_memory \<Rightarrow> persisted" where
  "persisted_of m = \<lparr>ps_graph = durable (graph_in m), ps_log = cm_log m, ps_dist = cm_dist m, ps_sources = cm_sources m\<rparr>"

definition memory_of :: "disk \<Rightarrow> persisted \<Rightarrow> ccos_memory" where
  "memory_of d p = (ccos_new d)\<lparr>cm_graph := (pending_empty, (ps_graph p)\<lparr>g_disk := d\<rparr>), cm_log := ps_log p, cm_dist := ps_dist p,
     cm_sources := ps_sources p\<rparr>"

definition open_memory :: "(bytes \<Rightarrow> persisted option) \<Rightarrow> path \<Rightarrow> disk \<Rightarrow> memory_error + ccos_memory" where
  "open_memory load p d =
     (case disk_read d p of
        Inl NotFound \<Rightarrow> Inr ((ccos_new d)\<lparr>cm_path := Some p\<rparr>)
      | Inl e \<Rightarrow> Inl (IoFailed e)
      | Inr b \<Rightarrow> (case load b of None \<Rightarrow> Inl SerdeFailed | Some ps \<Rightarrow> Inr ((memory_of d ps)\<lparr>cm_path := Some p\<rparr>)))"

definition write_to :: "(persisted \<Rightarrow> bytes option) \<Rightarrow> path \<Rightarrow> ccos_memory \<Rightarrow> (memory_error + unit) \<times> ccos_memory" where
  "write_to dump p m =
     (case dump (persisted_of m) of
        None \<Rightarrow> (Inl SerdeFailed, m)
      | Some b \<Rightarrow> (case write_durable p b (g_disk (graph_in m)) of
            (Inl e, d) \<Rightarrow> (Inl (IoFailed e), put_graph ((graph_in m)\<lparr>g_disk := d\<rparr>) m)
          | (Inr _, d) \<Rightarrow> (Inr (), put_graph ((graph_in m)\<lparr>g_disk := d\<rparr>) m)))"

definition checkpoint :: "(persisted \<Rightarrow> bytes option) \<Rightarrow> ccos_memory \<Rightarrow> (memory_error + unit) \<times> ccos_memory" where
  "checkpoint dump m = (case cm_path m of Some p \<Rightarrow> write_to dump p m | None \<Rightarrow> (Inl NoPath, m))"

definition checkpoint_to :: "(persisted \<Rightarrow> bytes option) \<Rightarrow> path \<Rightarrow> ccos_memory \<Rightarrow> (memory_error + unit) \<times> ccos_memory" where
  "checkpoint_to dump p m0 =
     (let (_, m) = resolve m0 in
      case flush_cold_tier (graph_in m) of
        (Inl e, g) \<Rightarrow> (Inl (IoFailed e), put_graph g m)
      | (Inr _, g) \<Rightarrow> (case write_to dump p (put_graph g m) of
            (Inl e, m') \<Rightarrow> (Inl e, m')
          | (Inr _, m') \<Rightarrow> (Inr (), m'\<lparr>cm_path := Some p\<rparr>)))"

end
