(* ===== verification/FacadeReads.thy ===== *)
theory FacadeReads
  imports Facade RegionFacts
begin

text \<open>
  Frames of the facade: what its queries read, that they fill their caches with fresh values and
  always return on a graph that satisfies its invariant, and that ingestion keeps the invariant.
\<close>

subsection \<open>Reads\<close>

lemma calm_cache: "cache_eq g g' \<Longrightarrow> calm g g'"
  by (rule calm_core [OF core_cache])

lemma quiet_score: "cache_eq g (snd (compute_node_score env n g))"
  by (rule compute_node_score_cache)

lemma quiet_scoreD: "compute_node_score env n g = (v, g') \<Longrightarrow> cache_eq g g'"
  using quiet_score [of g env n] by simp

lemma quiet_score_reached: "cache_eq g (snd (score_reached env ids g))"
proof (induction env ids g rule: score_reached.induct)
  case (2 env i d ids g)
  obtain v g1 where v: "(case map_of (g_nodes g) i of Some n \<Rightarrow> compute_node_score env n g | None \<Rightarrow> (f64_zero False, g)) = (v, g1)"
    by fastforce
  have "cache_eq g g1" using v by (auto split: option.splits intro: quiet_scoreD)
  then show ?case using cache_eq_trans "2.IH" [OF v [symmetric] refl] by (simp add: v case_prod_unfold Let_def)
qed simp

lemma quiet_walk: "cache_eq g (snd (walk env i n dir g))"
  using quiet_score_reached by (simp add: walk_def case_prod_unfold Let_def)

lemma quiet_impact: "cache_eq g (snd (impact_set env i n g))" "cache_eq g (snd (source_set env i n g))"
  by (simp_all add: impact_set_def source_set_def quiet_walk)

lemma quiet_gather: "cache_eq g (snd (gather env prox sims ids seen g))"
proof (induction env prox sims ids seen g rule: gather.induct)
  case (2 env prox sims i ids seen g)
  consider "i \<in> set seen" | "i \<notin> set seen" "starts_with i ''dep:'' \<or> map_of (g_nodes g) i = None"
    | n where "i \<notin> set seen" "\<not> starts_with i ''dep:''" "map_of (g_nodes g) i = Some n" by auto
  then show ?case
  proof cases
    case (3 n)
    obtain v g1 where c: "compute_node_score env n g = (v, g1)" by fastforce
    have "cache_eq g (snd (gather env prox sims ids (i # seen) g1))"
      by (rule cache_eq_trans [OF quiet_scoreD [OF c] "2.IH"(4) [OF 3 refl]]) (simp add: c)
    then show ?thesis using 3 by (simp add: c case_prod_unfold Let_def)
  qed (use "2.IH" in auto)
qed simp

lemma quiet_failing: "cache_eq g (snd (failing_scores env ns g))"
proof (induction ns arbitrary: g)
  case (Cons p ns)
  obtain i n where p: "p = (i, n)" by fastforce
  obtain v g1 where c: "compute_node_score env n g = (v, g1)" by fastforce
  have "cache_eq g (snd (failing_scores env ns g1))" by (rule cache_eq_trans [OF quiet_scoreD [OF c] Cons.IH])
  then show ?case using Cons.IH by (simp add: p c case_prod_unfold Let_def)
qed simp

lemma quiet_hybrid: "cache_eq g (snd (hybrid_entry env lower q semantic g))"
  using quiet_failing by (simp add: hybrid_entry_def case_prod_unfold Let_def)

lemma quiet_scores: "cache_eq g (snd (get_node_scores env g))"
proof -
  obtain vs g' where s: "score_all env (g_nodes g) g = (vs, g')" by fastforce
  from score_all_spec(2) [OF s] show ?thesis by (simp add: get_node_scores_def s)
qed

lemma quiet_sum_points: "cache_eq g (snd (sum_points env uris acc g))"
proof (induction uris arbitrary: acc g)
  case (Cons uri uris)
  obtain tot hot counted where a: "acc = (tot, hot, counted)" by (cases acc)
  show ?case
  proof (cases "map_of (g_nodes g) uri")
    case None
    then show ?thesis using Cons.IH by (simp add: a)
  next
    case (Some n)
    obtain v g1 where c: "compute_node_score env n g = (v, g1)" by fastforce
    have "cache_eq g (snd (sum_points env uris acc' g1))" for acc' by (rule cache_eq_trans [OF quiet_scoreD [OF c] Cons.IH])
    then show ?thesis by (simp add: a Some from_node_def c)
  qed
qed simp

lemma quiet_recompute: "cache_eq g (snd (recompute env r g))"
  using quiet_sum_points by (simp add: recompute_def case_prod_unfold Let_def)

lemma quiet_build: "cache_eq g (snd (fold (build_region env) cs (rs, g)))"
proof (induction cs arbitrary: rs g)
  case (Cons c cs)
  obtain i ms where c: "c = (i, ms)" by fastforce
  obtain r g1 where r: "recompute env ((region_new i (pick_center env g ms))\<lparr>rg_members := ms\<rparr>) g = (r, g1)" by fastforce
  have "cache_eq g g1" using quiet_recompute [of g env] r by (metis snd_conv)
  from cache_eq_trans [OF this Cons.IH] show ?case by (simp add: c build_region_def r)
qed simp

lemma quiet_initialize:
  assumes "initialize_regions env le g el = Some (el', g')"
  shows "cache_eq g g'"
proof -
  obtain eng log cs where e: "el = (eng, log)" "cluster_nodes g = Some cs"
    using assms by (cases el) (auto simp: initialize_regions_def cluster_and_build_def split: option.splits)
  obtain rs h where f: "fold (build_region env) cs ([], g) = (rs, h)" by fastforce
  have "g' = h" using assms by (simp add: initialize_regions_def cluster_and_build_def e f)
  then show ?thesis using quiet_build [of g env cs "[]"] by (simp add: f)
qed

lemma quiet_assemble: "cache_eq g (snd (assemble_window env share strategy ids budget prox sims g))"
  using quiet_gather by (simp add: assemble_window_def case_prod_unfold Let_def)

lemmas quiet_reads = quiet_impact quiet_gather quiet_hybrid quiet_scores quiet_assemble

subsection \<open>Writes\<close>

definition safe :: "mem_graph \<Rightarrow> bool" where
  "safe g \<longleftrightarrow> graph_ok g \<and> bounded g"

lemma safe_step: "graph_step env g g' \<Longrightarrow> safe g \<Longrightarrow> safe g'"
  unfolding safe_def using step_safe by blast

lemma safe_calm: "calm g g' \<Longrightarrow> safe g \<Longrightarrow> safe g'"
  unfolding safe_def using safe_cold_only cold_only_calm by blast

lemma safe_fold: "(\<And>x g. safe g \<Longrightarrow> safe (f x g)) \<Longrightarrow> safe g \<Longrightarrow> safe (fold f xs g)"
  by (induction xs arbitrary: g) auto

lemma safe_fold_pair: "(\<And>x k. safe (snd k) \<Longrightarrow> safe (snd (f x k))) \<Longrightarrow> safe (snd k) \<Longrightarrow> safe (snd (fold f xs k))"
  by (induction xs arbitrary: k) auto

lemma safe_upsert: "safe g \<Longrightarrow> safe (upsert_node env i label content ty g)"
  by (rule safe_step [OF graph_step.upsert [of env]])

lemma safe_add: "safe g \<Longrightarrow> safe (snd (add_edge s t w ety g))"
  by (rule safe_step [OF graph_step.add_edge])

lemma safe_put: "safe g \<Longrightarrow> safe (put_node env i label content ty parent w ety g)"
  unfolding put_node_def by (intro safe_add safe_upsert)

lemma safe_modules:
  "safe g \<Longrightarrow> safe (add_module_tree env path ls parent c g)"
  "safe g \<Longrightarrow> safe (add_module_trees env path ls parent cs g)"
  by (induction env path ls parent c g and env path ls parent cs g rule: add_module_tree_add_module_trees.induct)
    (simp_all add: safe_put)

lemma safe_ingest_module: "safe g \<Longrightarrow> safe (ingest_module env path ls md g)"
  by (simp add: ingest_module_def safe_modules safe_put)

lemma safe_ingest_use: "safe g \<Longrightarrow> safe (ingest_use env path ls u g)"
  by (simp add: ingest_use_def Let_def safe_put split: list.split)

lemma safe_update:
  assumes "safe (snd kb)"
  shows "safe (snd (update_memory_graph env cap r source kb))"
proof -
  obtain p g where kb: "kb = (p, g)" by fastforce
  let ?ls = "lines_of source" and ?path = "pr_path r" and ?x = "pr_found r"
  let ?g1 = "upsert_node env (''file:'' @ ?path) ?path (file_header cap ?ls ?path (x_symbols ?x)) Module g"
  let ?g3 = "fold (ingest_use env ?path ?ls) (x_uses ?x) (fold (ingest_module env ?path ?ls) (x_modules ?x) ?g1)"
  have "safe ?g1" by (rule safe_upsert) (use assms kb in simp)
  then have 3: "safe ?g3" by (intro safe_fold [OF safe_ingest_use] safe_fold [OF safe_ingest_module])
  have one: "safe (snd (ingest_symbol env ?path ?ls sym k))" if "safe (snd k)" for sym k
    using that by (simp add: ingest_symbol_def case_prod_unfold safe_put)
  have "safe (snd (fold (ingest_symbol env ?path ?ls) (x_symbols ?x) (p, ?g3)))"
    by (rule safe_fold_pair [OF one]) (use 3 in simp_all)
  then show ?thesis by (simp add: kb update_memory_graph_def Let_def case_prod_unfold)
qed

lemma safe_evict: "safe g \<Longrightarrow> safe (evict_file_nodes env path g)"
  unfolding evict_file_nodes_def by (rule safe_fold) (rule safe_step [OF graph_step.remove])

lemma safe_delta:
  assumes "process_delta env syn cap t now path old new (en, p, g) = (mu, en', p', g')" "safe g"
  shows "safe g'"
proof -
  have r: "safe (snd (snd (reparse env syn cap now path new (e, q, h))))" if "safe h" for e q h
    using that safe_update [of "(q, h)"] by (simp add: reparse_def Let_def)
  obtain en1 p1 g1 where a: "apply_delta env syn cap now (delta_op env old new) path new (en, p, g) = (en1, p1, g1)" by (metis prod_cases3)
  have "safe g1" using arg_cong [OF a, of "\<lambda>x. snd (snd x)"] r safe_evict [OF assms(2)] assms(2)
    by (auto simp: apply_delta_def split: mutation_op.splits)
  then show ?thesis using assms(1) by (simp add: process_delta_def Let_def a)
qed

lemma safe_page_in: "safe g \<Longrightarrow> safe (snd (page_in env i g))"
  by (rule safe_step [OF graph_step.page_in])

lemma safe_page_in_all: "safe g \<Longrightarrow> safe (snd (page_in_all env ids (k, g)))"
proof (induction ids arbitrary: k g)
  case (Cons i ids)
  then show ?case using safe_page_in [of g env i] by (simp add: case_prod_unfold Let_def)
qed simp

lemma safe_resize: "safe g \<Longrightarrow> safe (enforce_paging env (g\<lparr>g_max := max n 1\<rparr>))"
  using enforce_paging_ok [of "g\<lparr>g_max := max n 1\<rparr>" env] by (auto simp: safe_def graph_ok_def bounded_def)

lemma safe_disk: "safe (g\<lparr>g_disk := d\<rparr>) = safe g"
  by (simp add: safe_def graph_ok_def bounded_def)

subsection \<open>Caches\<close>

definition clustered :: "mem_graph \<Rightarrow> region_engine \<Rightarrow> bool" where
  \<comment> \<open>the regions of the engine are the clusters of the graph\<close>
  "clustered g eng \<longleftrightarrow> (\<exists>clusters. cluster_nodes g = Some clusters
     \<and> (\<forall>i r. (\<exists>R. map_of (re_regions eng) r = Some R \<and> i \<in> set (rg_members R)) \<longleftrightarrow> in_region clusters i r))"

definition as_built :: "mem_graph \<Rightarrow> mem_graph \<Rightarrow> bool" where
  "as_built g h \<longleftrightarrow> g_nodes h = g_nodes g \<and> g_edges h = g_edges g"

definition fresh :: "ccos_memory \<Rightarrow> bool" where
  \<comment> \<open>a cache that carries the current version was built from the current nodes and edges\<close>
  "fresh m \<longleftrightarrow> (\<forall>eng. cm_regions m = Some (cm_version m, eng) \<longrightarrow> clustered (graph_in m) eng)
     \<and> (\<forall>h. cm_embed m = Some (cm_version m, h) \<longrightarrow> as_built (graph_in m) h)
     \<and> (\<forall>r h. cm_lsa m = Some (cm_version m, r, h) \<longrightarrow> as_built (graph_in m) h)"

definition tags :: "ccos_memory \<Rightarrow> u64 set" where
  "tags m = fst ` set_option (cm_regions m) \<union> fst ` set_option (cm_embed m) \<union> fst ` set_option (cm_lsa m)"

definition caches_ok :: "nat \<Rightarrow> ccos_memory \<Rightarrow> bool" where
  "caches_ok n m \<longleftrightarrow> fresh m \<and> unat (cm_version m) \<le> n \<and> (\<forall>v \<in> tags m. v \<le> cm_version m)"

lemma cluster_cong:
  assumes "g_nodes h = g_nodes g" "g_edges h = g_edges g"
  shows "cluster_nodes h = cluster_nodes g"
proof -
  have b: "buckets_of h = buckets_of g" by (simp add: buckets_of_def assms)
  then have "file_adj h = file_adj g" by (simp add: file_adj_def assms)
  then show ?thesis unfolding cluster_nodes_def b by simp
qed

lemma clustered_cong: "g_nodes h = g_nodes g \<Longrightarrow> g_edges h = g_edges g \<Longrightarrow> clustered h eng = clustered g eng"
  using cluster_cong [of h g] by (simp add: clustered_def)

lemma caches_moved:
  assumes "caches_ok n m" "n + k < 2 ^ 64" "0 < k" "cm_version m' = cm_version m + of_nat k" "tags m' \<subseteq> tags m"
  shows "caches_ok (n + k) m'"
proof -
  have v: "unat (cm_version m) \<le> n" using assms(1) by (simp add: caches_ok_def)
  have "unat (cm_version m') = unat (cm_version m) + k"
    using v assms(2,4) by (simp add: unat_word_ariths unat_of_nat)
  then have "cm_version m < cm_version m'" using assms(3) by (simp add: word_less_nat_alt)
  moreover have "v \<le> cm_version m" if "v \<in> tags m'" for v using assms(1,5) that by (auto simp: caches_ok_def)
  ultimately have lt: "v < cm_version m'" if "v \<in> tags m'" for v using that by fastforce
  have "fresh m'"
    unfolding fresh_def using lt by (force simp: tags_def)
  then show ?thesis using lt v \<open>unat (cm_version m') = _\<close> by (auto simp: caches_ok_def less_imp_le)
qed

definition frame_of :: "ccos_memory \<Rightarrow> event_log \<times> dist_log \<times> (string, string) omap \<times> engine \<times> bool \<times> path option \<times> u64 \<times> pending" where
  "frame_of m = (cm_log m, cm_dist m, cm_sources m, cm_engine m, cm_dirty m, cm_path m, cm_version m, fst (cm_graph m))"

definition reads :: "ccos_memory \<Rightarrow> ccos_memory \<Rightarrow> bool" where
  \<comment> \<open>what a query may change: caches, and only into fresh ones\<close>
  "reads m m' \<longleftrightarrow> frame_of m' = frame_of m \<and> cache_eq (graph_in m) (graph_in m') \<and> (\<forall>n. caches_ok n m \<longrightarrow> caches_ok n m')"

lemma reads_refl: "reads m m"
  by (simp add: reads_def)

lemma reads_trans:
  assumes "reads m m'" "reads m' m''"
  shows "reads m m''"
  unfolding reads_def
proof (intro conjI allI impI)
  show "frame_of m'' = frame_of m" using assms unfolding reads_def by (elim conjE) (erule trans)
  show "cache_eq (graph_in m) (graph_in m'')" using assms unfolding reads_def by (elim conjE) (rule cache_eq_trans)
  show "caches_ok n m''" if "caches_ok n m" for n using assms that unfolding reads_def by blast
qed

lemma put_graph_simps [simp]:
  "graph_in (put_graph g m) = g" "fst (cm_graph (put_graph g m)) = fst (cm_graph m)" "cm_log (put_graph g m) = cm_log m"
  "cm_dist (put_graph g m) = cm_dist m" "cm_sources (put_graph g m) = cm_sources m" "cm_engine (put_graph g m) = cm_engine m"
  "cm_dirty (put_graph g m) = cm_dirty m" "cm_path (put_graph g m) = cm_path m" "cm_version (put_graph g m) = cm_version m"
  "cm_regions (put_graph g m) = cm_regions m" "cm_embed (put_graph g m) = cm_embed m" "cm_lsa (put_graph g m) = cm_lsa m"
  "cm_rank (put_graph g m) = cm_rank m" "cm_slhav2 (put_graph g m) = cm_slhav2 m" "cm_flash (put_graph g m) = cm_flash m"
  by (simp_all add: put_graph_def)

lemma tags_put [simp]: "tags (put_graph g m) = tags m"
  by (simp add: tags_def)

lemma caches_put:
  assumes "g_nodes g = g_nodes (graph_in m)" "g_edges g = g_edges (graph_in m)" "caches_ok n m"
  shows "caches_ok n (put_graph g m)"
proof -
  have f: "fresh m" using assms(3) by (simp only: caches_ok_def)
  have "clustered g eng" if "cm_regions m = Some (cm_version m, eng)" for eng
    using f that clustered_cong [OF assms(1,2)] unfolding fresh_def by blast
  moreover have "as_built g h" if "cm_embed m = Some (cm_version m, h)" for h
    using f that assms(1,2) unfolding fresh_def as_built_def by metis
  moreover have "as_built g h" if "cm_lsa m = Some (cm_version m, r, h)" for r h
    using f that assms(1,2) unfolding fresh_def as_built_def by metis
  ultimately have "fresh (put_graph g m)" unfolding fresh_def put_graph_simps by blast
  then show ?thesis using assms(3) unfolding caches_ok_def tags_put put_graph_simps by blast
qed

lemma reads_put: "cache_eq (graph_in m) g \<Longrightarrow> reads m (put_graph g m)"
  unfolding reads_def by (intro conjI allI impI caches_put) (simp_all add: frame_of_def cache_eq_fields)

lemma caches_fill:
  assumes "caches_ok n m" "cm_version m' = cm_version m" "graph_in m' = graph_in m" "tags m' \<subseteq> insert (cm_version m) (tags m)" "fresh m'"
  shows "caches_ok n m'"
  using assms unfolding caches_ok_def by fastforce

lemma build_region_members: "\<exists>R. fst (build_region env (i, ms) (rs, g)) = om_insert i R rs \<and> set (rg_members R) = set ms"
proof -
  obtain r g1 where r: "recompute env ((region_new i (pick_center env g ms))\<lparr>rg_members := ms\<rparr>) g = (r, g1)" by fastforce
  have "set (rg_members r) = set ms" using r by (auto simp: recompute_def Let_def split: prod.splits)
  then show ?thesis by (auto simp: build_region_def r)
qed

lemma built_members:
  assumes "cluster_and_build env regions_new g = Some (eng, g')" "cluster_nodes g = Some clusters" "distinct (map fst clusters)"
  shows "(\<exists>R. map_of (re_regions eng) r = Some R \<and> i \<in> set (rg_members R)) \<longleftrightarrow> in_region clusters i r"
proof -
  have "(\<exists>R. map_of (fst (fold (build_region env) cs (rs, h))) r = Some R \<and> i \<in> set (rg_members R))
      \<longleftrightarrow> (case map_of cs r of Some ms \<Rightarrow> i \<in> set ms | None \<Rightarrow> \<exists>R. map_of rs r = Some R \<and> i \<in> set (rg_members R))"
    if "distinct (map fst cs)" for cs rs h
    using that
  proof (induction cs arbitrary: rs h)
    case (Cons c cs)
    obtain j ms where c: "c = (j, ms)" by fastforce
    obtain R where R: "fst (build_region env c (rs, h)) = om_insert j R rs" "set (rg_members R) = set ms"
      using build_region_members [of env j ms rs h] unfolding c by blast
    obtain h1 where b: "build_region env c (rs, h) = (om_insert j R rs, h1)" using R(1) by (cases "build_region env c (rs, h)") simp
    have "map_of cs j = None" using Cons.prems c by (simp add: map_of_eq_None_iff)
    then show ?case using Cons.IH [of "om_insert j R rs" h1] Cons.prems R(2) by (auto simp: c b [unfolded c] split: option.split)
  qed simp
  from this [OF assms(3), of "[]" g] show ?thesis
    using assms(1,2) by (auto simp: cluster_and_build_def in_region_def split: prod.splits option.splits)
qed

lemma clusters_sorted: "cluster_nodes g = Some clusters \<Longrightarrow> om_ok clusters"
proof -
  assume "cluster_nodes g = Some clusters"
  then obtain adj where c: "clusters = (let clusters = snd (fold (cluster_start (buckets_of g) adj) (map fst (buckets_of g)) ([], []))
      in case map_of (buckets_of g) ''external'' of Some ext \<Rightarrow> om_insert ''region:external'' (sort ext) clusters | None \<Rightarrow> clusters)"
    unfolding cluster_nodes_def Let_def by (auto split: option.splits)
  have step: "om_ok (snd (cluster_start b adj p s))" if "om_ok (snd s)" for b p s
    using that by (cases s) (auto simp: cluster_start_def Let_def intro: om_ok_insert simp del: bfs_loop.simps)
  have "om_ok (snd (fold (cluster_start (buckets_of g) adj) ps s))" if "om_ok (snd s)" for ps s
    using that by (induction ps arbitrary: s) (auto simp: step)
  then have "om_ok (snd (fold (cluster_start (buckets_of g) adj) (map fst (buckets_of g)) ([], [])))" by (simp add: om_ok_def)
  then show ?thesis unfolding c Let_def by (auto split: option.split intro: om_ok_insert)
qed

lemma reads_regions:
  assumes "safe (graph_in m)"
  shows "\<exists>eng m'. build_regions fe m = Some (eng, m') \<and> reads m m'"
proof (cases "recall_regions fe m")
  case (Some r)
  then have "snd r = m" by (auto simp: recall_regions_def split: option.splits if_splits)
  then show ?thesis using Some reads_refl by (cases r) (auto simp: build_regions_def)
next
  case None
  obtain clusters where cl: "cluster_nodes (graph_in m) = Some clusters"
    using clusters_owner assms unfolding safe_def by blast
  obtain eng g where b: "cluster_and_build (fe_mem fe) regions_new (graph_in m) = Some (eng, g)"
    by (cases "fold (build_region (fe_mem fe)) clusters ([], graph_in m)") (auto simp: cluster_and_build_def cl)
  obtain log where i: "initialize_regions (fe_mem fe) (facade_log fe) (graph_in m) (regions_new, log_new ''recall'') = Some ((eng, log), g)"
    by (simp add: initialize_regions_def b)
  let ?m = "(put_graph g m)\<lparr>cm_regions := Some (cm_version m, eng)\<rparr>"
  have eq: "cache_eq (graph_in m) g" by (rule quiet_initialize [OF i])
  then have same: "g_nodes g = g_nodes (graph_in m)" "g_edges g = g_edges (graph_in m)" by (simp_all add: cache_eq_fields)
  have "clustered (graph_in m) eng"
    unfolding clustered_def using cl built_members [OF b cl om_ok_distinct [OF clusters_sorted [OF cl]]] by blast
  then have c: "clustered g eng" using clustered_cong [OF same] by blast
  have "caches_ok n ?m" if ok: "caches_ok n m" for n
  proof -
    have "caches_ok n (put_graph g m)" by (rule caches_put [OF same ok])
    then have p: "fresh (put_graph g m)" "unat (cm_version m) \<le> n" "\<forall>v \<in> tags m. v \<le> cm_version m" by (simp_all add: caches_ok_def)
    have "fresh ?m" using p(1) c unfolding fresh_def by simp
    moreover have "tags ?m \<subseteq> insert (cm_version m) (tags m)" by (auto simp: tags_def)
    ultimately show ?thesis using p(2,3) by (auto simp: caches_ok_def)
  qed
  then have "reads m ?m" using eq by (simp add: reads_def frame_of_def)
  then show ?thesis by (auto simp: build_regions_def None i)
qed

lemma reads_safe: "reads m m' \<Longrightarrow> safe (graph_in m) \<Longrightarrow> safe (graph_in m')"
  unfolding reads_def using safe_calm calm_cache by blast

lemma reads_members:
  assumes "safe (graph_in m)"
  shows "\<exists>ids m'. region_member_ids fe uri m = Some (ids, m') \<and> reads m m'"
proof -
  obtain eng m1 where b: "build_regions fe m = Some (eng, m1)" "reads m m1" using reads_regions [OF assms] by blast
  show ?thesis
  proof (cases "Option.bind (region_of (normalize uri) eng) (map_of (re_regions eng))")
    case (Some r)
    then show ?thesis using b by (simp add: region_member_ids_def)
  next
    case None
    let ?env = "fe_mem fe" and ?i = "normalize uri"
    obtain down g1 where d: "impact_set ?env ?i 2 (graph_in m1) = (down, g1)" by fastforce
    obtain up g2 where u: "source_set ?env ?i 2 g1 = (up, g2)" by fastforce
    have "cache_eq (graph_in m1) g2"
      using cache_eq_trans quiet_impact(1) [of "graph_in m1" ?env ?i 2] quiet_impact(2) [of g1 ?env ?i 2] unfolding d u snd_conv by blast
    then show ?thesis using reads_trans [OF b(2) reads_put] b(1) None by (simp add: region_member_ids_def d u)
  qed
qed

lemma as_built_refl: "as_built g g"
  by (simp add: as_built_def)

lemma reads_embedding: "embedding_graph m = (g, m') \<Longrightarrow> reads m m'"
proof -
  assume e: "embedding_graph m = (g, m')"
  let ?m = "m\<lparr>cm_embed := Some (cm_version m, graph_in m)\<rparr>"
  have "caches_ok n ?m" if ok: "caches_ok n m" for n
  proof -
    have "fresh m" using ok by (simp only: caches_ok_def)
    then have "fresh ?m" unfolding fresh_def by (simp add: as_built_refl)
    moreover have "tags ?m \<subseteq> insert (cm_version m) (tags m)" by (auto simp: tags_def)
    ultimately show ?thesis by (intro caches_fill [OF ok]) simp_all
  qed
  then have "reads m ?m" by (simp add: reads_def frame_of_def)
  moreover have "m' = m \<or> m' = ?m" using e by (auto simp: embedding_graph_def split: option.splits if_splits)
  ultimately show "reads m m'" using reads_refl by blast
qed

lemma reads_lsa: "reads m (snd (lsa_region_scores fe text ids rank m))"
proof -
  let ?m = "m\<lparr>cm_lsa := Some (cm_version m, rank, graph_in m)\<rparr>"
  have "caches_ok n ?m" if ok: "caches_ok n m" for n
  proof -
    have "fresh m" using ok by (simp only: caches_ok_def)
    then have "fresh ?m" unfolding fresh_def by (simp add: as_built_refl)
    moreover have "tags ?m \<subseteq> insert (cm_version m) (tags m)" by (auto simp: tags_def)
    ultimately show ?thesis by (intro caches_fill [OF ok]) simp_all
  qed
  then have "reads m ?m" by (simp add: reads_def frame_of_def)
  moreover have "snd (lsa_region_scores fe text ids rank m) \<in> {m, ?m}"
    by (auto simp: lsa_region_scores_def Let_def split: option.split)
  ultimately show ?thesis using reads_refl by auto
qed

lemma reads_window: "reads m (snd (window_of fe strategy ids budget prox sims m))"
proof -
  obtain w g where a: "assemble_window (fe_mem fe) (fe_share fe) strategy ids budget prox sims (graph_in m) = (w, g)" by fastforce
  have "cache_eq (graph_in m) g" using quiet_assemble [of "graph_in m" "fe_mem fe" "fe_share fe" strategy ids budget prox sims] unfolding a by simp
  from reads_put [OF this] show ?thesis by (simp add: window_of_def a)
qed

lemma reads_region:
  assumes "safe (graph_in m)"
  shows "\<exists>w m'. recall_region fe strategy entry words budget m = Some (w, m') \<and> reads m m'"
proof -
  obtain ids m1 where ids: "region_member_ids fe entry m = Some (ids, m1)" "reads m m1" using reads_members [OF assms] by blast
  obtain sims m2 where s: "(case (words, cm_rank m1) of
      (Some t, Some rank) \<Rightarrow> (let (s, m') = lsa_region_scores fe t ids rank m1 in (Some s, m')) | _ \<Rightarrow> (None, m1)) = (sims, m2)"
    by fastforce
  have "m2 = m1 \<or> (\<exists>t rank. m2 = snd (lsa_region_scores fe t ids rank m1))"
  proof (cases "\<exists>t rank. words = Some t \<and> cm_rank m1 = Some rank")
    case True
    then obtain t rank where *: "words = Some t" "cm_rank m1 = Some rank" by blast
    obtain sc m' where l: "lsa_region_scores fe t ids rank m1 = (sc, m')" by fastforce
    have "m2 = m'" using s by (simp add: * l)
    then show ?thesis using l by (metis snd_conv)
  next
    case False
    then show ?thesis using s by (cases words; cases "cm_rank m1") simp_all
  qed
  then have r: "reads m1 m2" using reads_refl reads_lsa by metis
  let ?prox = "Some (hop_distances (normalize entry) (fe_hops fe) (graph_in m2), fe_decay fe, fe_hops fe)"
  obtain w m' where w: "window_of fe strategy ids budget ?prox sims m2 = (w, m')" by fastforce
  have "reads m2 m'" using reads_window [of m2 fe strategy ids budget ?prox sims] unfolding w by simp
  then have "reads m m'" by (rule reads_trans [OF ids(2) reads_trans [OF r]])
  then show ?thesis unfolding recall_region_def ids(1) option.case prod.case Let_def s [unfolded prod.case option.case Let_def] w by blast
qed

lemma reads_entry:
  assumes "safe (graph_in m)"
  shows "\<exists>w m'. recall_entry fe strategy entry words budget m = Some (w, m') \<and> reads m m'"
proof (cases entry)
  case None
  have "recall_entry fe strategy entry words budget m = Some (window_of fe strategy [] budget None None m)"
    by (simp add: None recall_entry_def)
  then show ?thesis using reads_window [of m fe strategy "[]" budget None None] by (metis prod.collapse)
next
  case (Some i)
  then show ?thesis using reads_region [OF assms] by (simp add: recall_entry_def)
qed

lemma recall_returns:
  assumes "safe (graph_in m)"
  shows "\<exists>w m'. recall fe query budget m = Some (w, m') \<and> reads m m'"
proof (cases query)
  case WorkingSet
  obtain scores g where sc: "get_node_scores (fe_mem fe) (graph_in m) = (scores, g)" by fastforce
  have "reads m (put_graph g m)" using reads_put quiet_scores [of "graph_in m" "fe_mem fe"] unfolding sc by simp
  from reads_trans [OF this reads_window] show ?thesis
    by (simp add: WorkingSet recall_def sc) (metis prod.collapse)
next
  case (Around uri)
  then show ?thesis using reads_region [OF assms] by (simp add: recall_def)
next
  case (Task q)
  then show ?thesis using reads_entry [OF assms] by (simp add: recall_def)
next
  case (Semantic q)
  obtain fitted m1 where e: "embedding_graph m = (fitted, m1)" by fastforce
  note r = reads_embedding [OF e]
  show ?thesis using reads_entry [OF reads_safe [OF r assms]] reads_trans [OF r]
    by (simp add: Semantic recall_def e Let_def) meson
next
  case (Hybrid q)
  obtain fitted m1 where e: "embedding_graph m = (fitted, m1)" by fastforce
  note r = reads_embedding [OF e]
  let ?sem = "map fst (nearest_k (similarities fe (cm_slhav2 m1) fitted q) RRF_DEPTH)"
  obtain entry g where h: "hybrid_entry (fe_mem fe) (fe_lower fe) (task_words fe q) ?sem (graph_in m1) = (entry, g)" by fastforce
  have p: "reads m1 (put_graph g m1)"
    using reads_put quiet_hybrid [of "graph_in m1" "fe_mem fe" "fe_lower fe" "task_words fe q" ?sem] unfolding h by simp
  note r2 = reads_trans [OF r p]
  show ?thesis using reads_entry [OF reads_safe [OF r2 assms]] reads_trans [OF r2]
    by (simp add: Hybrid recall_def e h Let_def) meson
next
  case (ConeRecall cfg)
  obtain w cache where c: "causal_flash_window (cfg\<lparr>f_max_nodes := None\<rparr>) (cm_flash m) (graph_in m) = (w, cache)" by fastforce
  have "reads m (m\<lparr>cm_flash := cache\<rparr>)"
    by (auto simp: reads_def frame_of_def caches_ok_def fresh_def tags_def)
  from reads_trans [OF this reads_window] show ?thesis
    by (simp add: ConeRecall recall_def c) (metis prod.collapse)
qed

end
