(* ===== verification/FacadeFacts.thy ===== *)
theory FacadeFacts
  imports FacadeReads
begin

text \<open>
  What the facade keeps in every state it can reach: the graph invariant, two logs that verify,
  caches that are never stale, and recalls that always return.
\<close>

subsection \<open>All operations\<close>

inductive ccos_run :: "facade_env \<Rightarrow> nat \<Rightarrow> ccos_memory \<Rightarrow> bool" for fe where
  \<comment> \<open>so many calls have been made\<close>
  start: "ccos_run fe 0 (ccos_new d)"
| reopen: "ccos_run fe k m \<Longrightarrow> ccos_run fe (Suc k) (memory_of d (persisted_of m))"
| evidence: "ccos_run fe k m \<Longrightarrow> ccos_run fe (Suc k) (snd (assert_evidence fe e c pol w m))"
| deferred: "ccos_run fe k m \<Longrightarrow> ccos_run fe (Suc k) (snd (ingest_deferred fe uri src m))"
| resolve: "ccos_run fe k m \<Longrightarrow> ccos_run fe (Suc k) (snd (resolve m))"
| ingest: "ccos_run fe k m \<Longrightarrow> ccos_run fe (Suc k) (snd (ingest_source fe uri src m))"
| failure: "ccos_run fe k m \<Longrightarrow> ccos_run fe (Suc k) (snd (signal_failure fe node hops m))"
| ensure: "ccos_run fe k m \<Longrightarrow> ccos_run fe (Suc k) (snd (ensure_resident fe uri m))"
| resize: "ccos_run fe k m \<Longrightarrow> ccos_run fe (Suc k) (set_max_resident fe n m)"
| tick: "ccos_run fe k m \<Longrightarrow> ccos_run fe (Suc k) (ccos_tick m)"
| weights: "ccos_run fe k m \<Longrightarrow> ccos_run fe (Suc k) (ccos_set_weights w m)"
| attach: "ccos_run fe k m \<Longrightarrow> ccos_run fe (Suc k) (snd (ccos_attach_spill fe dir budget mk m))"
| content: "ccos_run fe k m \<Longrightarrow> ccos_run fe (Suc k) (ccos_set_content_budget fe b m)"
| rerank: "ccos_run fe k m \<Longrightarrow> ccos_run fe (Suc k) (set_lsa_rerank r m)"
| slhav2: "ccos_run fe k m \<Longrightarrow> ccos_run fe (Suc k) (set_slhav2_embeddings on m)"
| recall: "ccos_run fe k m \<Longrightarrow> recall fe q tokens m = Some (win, m') \<Longrightarrow> ccos_run fe (Suc k) m'"
| impact: "ccos_run fe k m \<Longrightarrow> ccos_run fe (Suc k) (snd (impact fe node hops m))"
| causes: "ccos_run fe k m \<Longrightarrow> ccos_run fe (Suc k) (snd (causes fe node hops m))"
| checkpoint: "ccos_run fe k m \<Longrightarrow> ccos_run fe (Suc k) (snd (checkpoint dump m))"
| checkpoint_to: "ccos_run fe k m \<Longrightarrow> ccos_run fe (Suc k) (snd (checkpoint_to dump p m))"

definition logs_ok :: "facade_env \<Rightarrow> ccos_memory \<Rightarrow> bool" where
  "logs_ok fe m \<longleftrightarrow> log_run (sha_hex fe) (fe_json fe) (cm_log m) \<and> dist_run (dist_sha fe) (cm_dist m)"

definition good :: "facade_env \<Rightarrow> nat \<Rightarrow> ccos_memory \<Rightarrow> bool" where
  "good fe k m \<longleftrightarrow> safe (graph_in m) \<and> logs_ok fe m \<and> (2 * k < 2 ^ 64 \<longrightarrow> caches_ok (2 * k) m)"

lemma caches_mono: "caches_ok n m \<Longrightarrow> n \<le> n' \<Longrightarrow> caches_ok n' m"
  by (simp add: caches_ok_def)

lemma good_moved:
  assumes "good fe k m" "safe (graph_in m')" "logs_ok fe m'" "cm_version m' = cm_version m + of_nat b" "b = 1 \<or> b = 2" "tags m' \<subseteq> tags m"
  shows "good fe (Suc k) m'"
proof -
  have "caches_ok (2 * Suc k) m'" if "2 * Suc k < 2 ^ 64"
  proof (rule caches_mono [OF caches_moved])
    show "caches_ok (2 * k) m" using assms(1) that by (simp add: good_def)
    show "2 * k + b < 2 ^ 64" "2 * k + b \<le> 2 * Suc k" "0 < b" using that assms(5) by auto
  qed (use assms(4,6) in simp_all)
  then show ?thesis using assms(2,3) by (simp only: good_def) blast
qed

lemma good_reads:
  assumes "good fe k m" "reads m m'"
  shows "good fe k m'"
proof -
  have "safe (graph_in m')" using assms reads_safe unfolding good_def by blast
  moreover have "logs_ok fe m'" using assms unfolding good_def reads_def frame_of_def logs_ok_def by simp
  moreover have "caches_ok (2 * k) m \<longrightarrow> caches_ok (2 * k) m'" using assms(2) unfolding reads_def by blast
  ultimately show ?thesis using assms(1) by (simp only: good_def) blast
qed

lemma good_Suc: "good fe k m \<Longrightarrow> good fe (Suc k) m"
  using caches_mono [of "2 * k" m "2 * Suc k"] by (auto simp: good_def)

lemma bump_simps [simp]:
  "graph_in (bump_version m) = graph_in m" "cm_version (bump_version m) = cm_version m + 1" "tags (bump_version m) = tags m"
  "cm_log (bump_version m) = cm_log m" "cm_dist (bump_version m) = cm_dist m" "cm_sources (bump_version m) = cm_sources m"
  "cm_engine (bump_version m) = cm_engine m" "cm_graph (bump_version m) = cm_graph m" "logs_ok fe (bump_version m) = logs_ok fe m"
  by (simp_all add: bump_version_def tags_def logs_ok_def)

lemma logs_put [simp]: "logs_ok fe (put_graph g m) = logs_ok fe m"
  by (simp add: logs_ok_def)

lemma log_link_simps [simp]:
  "graph_in (log_link fe p s m) = graph_in m" "cm_version (log_link fe p s m) = cm_version m" "tags (log_link fe p s m) = tags m"
  "cm_sources (log_link fe p s m) = cm_sources m" "cm_graph (log_link fe p s m) = cm_graph m" "cm_dirty (log_link fe p s m) = cm_dirty m"
  "cm_log (log_link fe p s m) = cm_log m"
  by (simp_all add: log_link_def tags_def)

lemma logs_link: "logs_ok fe m \<Longrightarrow> logs_ok fe (log_link fe p s m)"
  by (simp add: logs_ok_def log_link_def dist_run.appended)

lemma emit_run: "log_run (sha_hex fe) (fe_json fe) log \<Longrightarrow> log_run (sha_hex fe) (fe_json fe) (emit (facade_log fe) ty payload log)"
  by (simp add: emit_def facade_log_def log_run.appended case_prod_unfold Let_def)

lemma safe_ensure_node: "safe g \<Longrightarrow> safe (ensure_node env i g)"
  by (simp add: ensure_node_def safe_upsert)

lemma good_evidence: "good fe k m \<Longrightarrow> good fe (Suc k) (snd (assert_evidence fe e c pol w m))"
  by (rule good_moved [where b = 1 and m = m])
    (simp_all add: assert_evidence_def Let_def case_prod_unfold good_def logs_link safe_add safe_ensure_node)

lemma deferred_state:
  obtains delta en p g where
    "process_delta (fe_mem fe) (fe_syn fe) (fe_header_cap fe) (fe_clock fe (length (ig_log (cm_engine m))))
       (fe_clock fe (length (ig_log (cm_engine m)))) (bare_uri uri) (map_of (cm_sources m) (''file:'' @ bare_uri uri))
       (utf8 (fst (defang (fe_alnum fe) src))) (cm_engine m, cm_graph m) = (delta, en, p, g)"
    "ingest_deferred fe uri src m =
       (\<lparr>ir_uri = bare_uri uri, ir_nodes_added = dm_nodes_added delta, ir_nodes_removed = dm_nodes_removed delta,
         ir_edges_added = dm_edges_added delta, ir_anomalies = r_findings (snd (defang (fe_alnum fe) src)),
         ir_injection = fe_injection fe (utf8 (fst (defang (fe_alnum fe) src))),
         ir_flagged = f64_le (f64_rat 1 2) (fe_injection fe (utf8 (fst (defang (fe_alnum fe) src))))\<rparr>,
        log_link fe (sha_hex fe (utf8 (fst (defang (fe_alnum fe) src)))) ''external-memory''
          ((bump_version m)\<lparr>cm_engine := en,
             cm_graph := (p, taint (fe_injection fe (utf8 (fst (defang (fe_alnum fe) src)))) (hard_anomaly (snd (defang (fe_alnum fe) src))) (bare_uri uri) g),
             cm_sources := om_insert (''file:'' @ bare_uri uri) (utf8 (fst (defang (fe_alnum fe) src))) (cm_sources m), cm_dirty := True,
             cm_log := emit (facade_log fe) ParsingEvent (Parsing (bare_uri uri) (sha_hex fe (utf8 (fst (defang (fe_alnum fe) src)))) 0 0 0) (cm_log m)\<rparr>))"
proof -
  obtain clean seen where d: "defang (fe_alnum fe) src = (clean, seen)" by fastforce
  obtain delta en p g where q: "process_delta (fe_mem fe) (fe_syn fe) (fe_header_cap fe) (fe_clock fe (length (ig_log (cm_engine m))))
       (fe_clock fe (length (ig_log (cm_engine m)))) (bare_uri uri) (map_of (cm_sources m) (''file:'' @ bare_uri uri))
       (utf8 clean) (cm_engine m, cm_graph m) = (delta, en, p, g)" by (metis prod_cases4)
  show thesis by (rule that [of delta en p g]) (use q in \<open>simp_all add: ingest_deferred_def Let_def d\<close>)
qed

lemma safe_taint: "safe g \<Longrightarrow> safe (taint score hard uri g)"
  by (simp add: taint_def safe_step [OF graph_step.stamp])

lemma deferred_ok:
  fixes uri src
  assumes "safe (graph_in m)" "logs_ok fe m"
  defines "m' \<equiv> snd (ingest_deferred fe uri src m)"
  shows "safe (graph_in m')" "logs_ok fe m'" "cm_version m' = cm_version m + 1" "tags m' = tags m" "cm_dirty m'"
proof -
  obtain delta en p g where q: "process_delta (fe_mem fe) (fe_syn fe) (fe_header_cap fe) (fe_clock fe (length (ig_log (cm_engine m))))
       (fe_clock fe (length (ig_log (cm_engine m)))) (bare_uri uri) (map_of (cm_sources m) (''file:'' @ bare_uri uri))
       (utf8 (fst (defang (fe_alnum fe) src))) (cm_engine m, cm_graph m) = (delta, en, p, g)"
    and m': "\<exists>h score hard s src'. m' = log_link fe h ''external-memory'' ((bump_version m)\<lparr>cm_engine := en,
        cm_graph := (p, taint score hard (bare_uri uri) g), cm_sources := s, cm_dirty := True,
        cm_log := emit (facade_log fe) ParsingEvent src' (cm_log m)\<rparr>)"
    by (rule deferred_state [of fe m uri src]) (unfold m'_def, simp, blast)
  obtain pend g0 where kb: "cm_graph m = (pend, g0)" by fastforce
  have "safe g" using safe_delta [OF q [unfolded kb]] assms(1) by (simp add: kb)
  then show "safe (graph_in m')" "cm_version m' = cm_version m + 1" "tags m' = tags m" "cm_dirty m'"
    using m' by (auto simp: safe_taint) (auto simp: tags_def bump_version_def)
  show "logs_ok fe m'" using m' assms(2) logs_link emit_run unfolding logs_ok_def by (auto simp: log_link_def dist_run.appended)
qed

lemma resolve_ok:
  assumes "safe (graph_in m)" "logs_ok fe m"
  defines "m' \<equiv> snd (resolve m)"
  shows "safe (graph_in m')" "logs_ok fe m'" "cm_version m' = cm_version m + (if cm_dirty m then 1 else 0)" "tags m' = tags m"
proof -
  have "safe (snd (resolve_all (fst (cm_graph m)) (graph_in m)))" by (rule safe_step [OF graph_step.resolve assms(1)])
  then show "safe (graph_in m')" "logs_ok fe m'" "cm_version m' = cm_version m + (if cm_dirty m then 1 else 0)" "tags m' = tags m"
    using assms(1,2) by (simp_all add: m'_def resolve_def case_prod_unfold Let_def) (simp_all add: logs_ok_def tags_def)
qed

lemma good_deferred: "good fe k m \<Longrightarrow> good fe (Suc k) (snd (ingest_deferred fe uri src m))"
  by (rule good_moved [where b = 1 and m = m]) (simp_all add: good_def deferred_ok)

lemma good_ingest:
  assumes "good fe k m"
  shows "good fe (Suc k) (snd (ingest_source fe uri src m))"
proof -
  have m: "safe (graph_in m)" "logs_ok fe m" using assms by (simp_all add: good_def)
  let ?m1 = "snd (ingest_deferred fe uri src m)"
  note d = deferred_ok [OF m, of uri src]
  note r = resolve_ok [OF d(1,2)]
  have "snd (ingest_source fe uri src m) = snd (resolve ?m1)"
    by (simp add: ingest_source_def case_prod_unfold Let_def)
  then show ?thesis using r d(3,4,5) assms by (intro good_moved [where b = 2 and m = m]) simp_all
qed

lemma good_resolve:
  assumes "good fe k m"
  shows "good fe (Suc k) (snd (resolve m))"
proof (cases "cm_dirty m")
  case True
  have "safe (graph_in m)" "logs_ok fe m" using assms by (simp_all add: good_def)
  from resolve_ok [OF this] show ?thesis using True assms by (intro good_moved [where b = 1 and m = m]) simp_all
next
  case False
  then show ?thesis using good_Suc [OF assms] by (simp add: resolve_def)
qed

lemma safe_failure: "safe g \<Longrightarrow> safe (propagate_failure env i d n (set_failure_relevance i r g))"
  by (rule safe_step [OF graph_step.failure safe_step [OF graph_step.set_failure [of env]]])

lemma good_failure:
  assumes "good fe k m"
  shows "good fe (Suc k) (snd (signal_failure fe node hops m))"
proof -
  let ?i = "normalize node" and ?g = "graph_in m"
  obtain there g1 where t: "(if resident ?g ?i then (True, ?g) else page_in (fe_mem fe) ?i ?g) = (there, g1)" by fastforce
  have s: "safe ?g" "logs_ok fe m" using assms by (simp_all add: good_def)
  then have g1: "safe g1" using t safe_page_in [of ?g "fe_mem fe" ?i] by (auto split: if_splits)
  have "\<exists>g2. snd (signal_failure fe node hops m) = put_graph g2 (bump_version m) \<and> safe g2"
  proof (cases there)
    case True
    then show ?thesis unfolding signal_failure_def Let_def bump_simps t prod.case using safe_failure [OF g1] by auto
  next
    case False
    then show ?thesis unfolding signal_failure_def Let_def bump_simps t prod.case using g1 by auto
  qed
  then obtain g2 where "snd (signal_failure fe node hops m) = put_graph g2 (bump_version m)" "safe g2" by blast
  then show ?thesis using assms s by (intro good_moved [where b = 1 and m = m]) simp_all
qed

lemma good_ensure:
  assumes "good fe k m"
  shows "good fe (Suc k) (snd (ensure_resident fe uri m))"
proof -
  let ?i = "normalize uri"
  have s: "safe (graph_in m)" "logs_ok fe m" using assms by (simp_all add: good_def)
  obtain ns g where n: "cold_neighbours ?i (graph_in m) = (ns, g)" by fastforce
  then have g: "safe g" using safe_step [OF graph_step.neighbours s(1)] by (metis snd_conv)
  have "snd (ensure_resident fe uri m) = put_graph (snd (page_in_all (fe_mem fe) (?i # ns) (0, g))) (bump_version m)"
    unfolding ensure_resident_def Let_def bump_simps n prod.case by (simp add: case_prod_unfold)
  then show ?thesis using assms s safe_page_in_all [OF g, of "fe_mem fe" "?i # ns" 0]
    by (intro good_moved [where b = 1 and m = m]) simp_all
qed

lemma good_cold:
  assumes "good fe k m" "cold_only (graph_in m) g"
  shows "good fe k (put_graph g m)"
proof -
  have "safe (graph_in (put_graph g m))" using assms safe_cold_only unfolding good_def safe_def put_graph_simps by blast
  moreover have "caches_ok (2 * k) m \<Longrightarrow> caches_ok (2 * k) (put_graph g m)"
    by (intro caches_put) (use assms(2) in \<open>simp_all add: cold_only_def\<close>)
  ultimately show ?thesis using assms(1) by (simp only: good_def logs_put) blast
qed

lemma good_write: "good fe k m \<Longrightarrow> good fe k (snd (write_to dump p m))"
proof -
  assume g: "good fe k m"
  have "snd (write_to dump p m) = m \<or> (\<exists>d. snd (write_to dump p m) = put_graph ((graph_in m)\<lparr>g_disk := d\<rparr>) m)"
    by (auto simp: write_to_def split: option.split sum.split prod.split)
  moreover have "cold_only h (h\<lparr>g_disk := d\<rparr>)" for h d by (simp add: cold_only_def)
  ultimately show ?thesis using g good_cold [OF g] by metis
qed

lemma good_path: "good fe k (m\<lparr>cm_path := p\<rparr>) = good fe k m"
  by (simp add: good_def logs_ok_def caches_ok_def fresh_def tags_def)

lemma good_checkpoint_to:
  assumes "good fe k m"
  shows "good fe (Suc k) (snd (checkpoint_to dump p m))"
proof -
  obtain c m1 where r: "resolve m = (c, m1)" by fastforce
  have g1: "good fe (Suc k) m1" using good_resolve [OF assms] r by simp
  obtain res g where f: "flush_cold_tier (graph_in m1) = (res, g)" by fastforce
  then have "cold_only (graph_in m1) g" using cold_only_flush [of "graph_in m1"] by simp
  note g2 = good_cold [OF g1 this]
  show ?thesis
  proof (cases res)
    case (Inl e)
    then show ?thesis using g2 by (simp add: checkpoint_to_def r f)
  next
    case (Inr u)
    obtain w m3 where w: "write_to dump p (put_graph g m1) = (w, m3)" by fastforce
    then have "good fe (Suc k) m3" using good_write [OF g2, of dump p] by simp
    then show ?thesis using Inr w by (cases w) (simp_all add: checkpoint_to_def r f good_path)
  qed
qed

lemma good_new: "good fe k (ccos_new d)"
  by (simp add: good_def ccos_new_def safe_def graph_ok_def graph_new_def bounded_def logs_ok_def log_run.created dist_run.created
      caches_ok_def fresh_def tags_def)

lemma good_reopen: "good fe k m \<Longrightarrow> good fe k' (memory_of d (persisted_of m))"
  by (simp add: good_def memory_of_def persisted_of_def durable_def safe_def graph_ok_def bounded_def logs_ok_def
      caches_ok_def fresh_def tags_def ccos_new_def)

lemma run_good: "ccos_run fe k m \<Longrightarrow> good fe k m"
proof (induction rule: ccos_run.induct)
  case (recall k m q tokens win m')
  have "safe (graph_in m)" using recall.IH by (simp add: good_def)
  then have "reads m m'" using recall_returns [of m fe q tokens] recall.hyps(2) by auto
  then show ?case by (rule good_Suc [OF good_reads [OF recall.IH]])
next
  case (resize k m n)
  then show ?case
    by (intro good_moved [where b = 1 and m = m]) (simp_all add: set_max_resident_def Let_def good_def safe_resize [unfolded One_nat_def])
next
  case (tick k m)
  then show ?case
    by (intro good_moved [where b = 1 and m = m]) (simp_all add: ccos_tick_def Let_def good_def safe_step [OF graph_step.tick])
next
  case (weights k m w)
  then show ?case
    by (intro good_moved [where b = 1 and m = m]) (simp_all add: ccos_set_weights_def Let_def good_def safe_step [OF graph_step.set_weights])
next
  case (attach k m dir budget mk)
  obtain r g where a: "attach_cold_spill (fe_mem fe) dir budget mk (graph_in m) = (r, g)" by fastforce
  then have "cold_only (graph_in m) g" using cold_only_attach [of "graph_in m" "fe_mem fe" dir budget mk] by simp
  from good_Suc [OF good_cold [OF attach.IH this]] show ?case by (simp add: ccos_attach_spill_def a)
next
  case (content k m b)
  have "cold_only (graph_in m) (set_cold_content_budget (fe_mem fe) b (graph_in m))"
    using calm_content_budget [of "(graph_in m)\<lparr>g_content_budget := b\<rparr>" "fe_mem fe"]
    by (simp add: set_cold_content_budget_def calm_def cold_only_def)
  from good_Suc [OF good_cold [OF content.IH this]] show ?case by (simp add: ccos_set_content_budget_def)
next
  case (rerank k m r)
  then show ?case using good_Suc [OF rerank.IH]
    by (simp add: set_lsa_rerank_def good_def logs_ok_def caches_ok_def fresh_def tags_def)
next
  case (slhav2 k m "on")
  have "good fe (Suc k) (m\<lparr>cm_slhav2 := on, cm_embed := None\<rparr>)" using good_Suc [OF slhav2.IH]
    by (simp add: good_def logs_ok_def caches_ok_def fresh_def tags_def) blast
  then show ?case using good_Suc [OF slhav2.IH] by (simp add: set_slhav2_embeddings_def)
next
  case (impact k m node hops)
  obtain rs g where i: "impact_set (fe_mem fe) (normalize node) hops (graph_in m) = (rs, g)" by fastforce
  then have "cache_eq (graph_in m) g" using quiet_impact(1) [of "graph_in m" "fe_mem fe" "normalize node" hops] by simp
  from good_Suc [OF good_reads [OF impact.IH reads_put [OF this]]] show ?case by (simp add: impact_def i)
next
  case (causes k m node hops)
  obtain rs g where i: "source_set (fe_mem fe) (normalize node) hops (graph_in m) = (rs, g)" by fastforce
  then have "cache_eq (graph_in m) g" using quiet_impact(2) [of "graph_in m" "fe_mem fe" "normalize node" hops] by simp
  from good_Suc [OF good_reads [OF causes.IH reads_put [OF this]]] show ?case by (simp add: causes_def i)
next
  case (checkpoint k m dump)
  then show ?case using good_Suc [OF good_write [OF checkpoint.IH]] good_Suc [OF checkpoint.IH]
    by (simp add: checkpoint_def split: option.split)
qed (simp_all add: good_new good_reopen good_evidence good_deferred good_resolve good_ingest good_failure good_ensure good_checkpoint_to)


text \<open>
  C20. No cache is ever stale: within the first 2^63 calls, a region clustering, an embedding store or
  a projection that carries the current version was built from exactly the nodes and edges the
  graph has now.
\<close>

theorem caches_never_stale:
  assumes "ccos_run fe k m" "2 * k < 2 ^ 64"
  shows "fresh m"
  using run_good [OF assms(1)] assms(2) by (simp add: good_def caches_ok_def)

end
