(* ===== verification/Trace.thy ===== *)
theory Trace
  imports Resolve SourceText Bytes
begin

text \<open>
  Execution traces (\<open>src/trace.rs\<close>): the source locations in the output of \<open>cargo test\<close>, which
  a context page fault injects pressure on. Lines are bytes, as the code indexes them.
\<close>

record trace_hit =
  th_file :: string
  th_line :: nat
  th_depth :: nat

record execution_trace =
  et_message :: string
  et_hits :: "trace_hit list"

definition trace_files :: "execution_trace \<Rightarrow> string list" where
  "trace_files t = remdups_adj (sort (map th_file (et_hits t)))"

definition undotted :: "string \<Rightarrow> string" where
  \<comment> \<open>\<open>normalize\<close> of this file\<close>
  "undotted p = (case strip_prefix p ''./'' of Some r \<Rightarrow> r | None \<Rightarrow> p)"

definition is_project_path :: "string \<Rightarrow> bool" where
  "is_project_path p0 =
     (let p = undotted p0
      in \<not> starts_with p ''/''
       \<and> \<not> (find_sub ''.cargo/registry'' p \<noteq> None \<or> find_sub ''.rustup'' p \<noteq> None \<or> starts_with p ''/rustc/''
            \<or> find_sub ''library/std'' p \<noteq> None \<or> find_sub ''library/core'' p \<noteq> None \<or> find_sub ''library/alloc'' p \<noteq> None))"

definition path_delims :: "char set" where
  "path_delims = {CHR '' '', CHR 0x09, CHR 0x27, CHR 0x22, CHR '','', CHR ''('', CHR 0x60, CHR ''='', CHR ''<''}"

definition path_token :: "string \<Rightarrow> string" where
  \<comment> \<open>the walk back to the start of the path\<close>
  "path_token before = rev (takeWhile (\<lambda>c. c \<notin> path_delims) (rev before))"

definition parse_u32 :: "string \<Rightarrow> nat option" where
  \<comment> \<open>of digits\<close>
  "parse_u32 ds = (if dec_val ds < 2 ^ 32 then Some (dec_val ds) else None)"

function rs_locs_from :: "string \<Rightarrow> nat \<Rightarrow> (string \<times> nat) list" where
  "rs_locs_from line search =
     (case find_sub ''.rs:'' (drop search line) of
        None \<Rightarrow> []
      | Some rel \<Rightarrow>
          (let dot = search + rel;
               file = path_token (take dot line) @ ''.rs'';
               digits = takeWhile is_digit (drop (dot + 4) line);
               found = (if digits = [] then []
                        else case parse_u32 digits of Some ln \<Rightarrow> [(file, ln)] | None \<Rightarrow> [])
           in found @ rs_locs_from line (dot + 4 + length digits)))"
  by pat_completeness auto
termination
proof (relation "measure (\<lambda>(line, search). length line - search)")
  fix line :: string and search rel dot digits
  assume f: "find_sub ''.rs:'' (drop search line) = Some rel" "dot = search + rel"
  from find_sub_le [OF f(1)] have "rel + 4 \<le> length line - search" by simp
  then show "((line, dot + 4 + length digits), line, search) \<in> measure (\<lambda>(line, search). length line - search)"
    using f(2) by auto
qed simp

declare rs_locs_from.simps [simp del]

definition extract_rs_locs :: "string \<Rightarrow> (string \<times> nat) list" where
  "extract_rs_locs line = rs_locs_from line 0"

definition add_hit :: "nat \<Rightarrow> string \<times> nat \<Rightarrow> trace_hit list \<Rightarrow> trace_hit list" where
  \<comment> \<open>\<open>seen\<close> is the files and lines of the hits so far\<close>
  "add_hit depth = (\<lambda>(raw, ln) hits.
     (if \<not> is_project_path raw \<or> (undotted raw, ln) \<in> set (map (\<lambda>h. (th_file h, th_line h)) hits) then hits
      else hits @ [\<lparr>th_file = undotted raw, th_line = ln, th_depth = depth\<rparr>]))"

definition trace_line :: "string \<Rightarrow> execution_trace \<times> nat \<Rightarrow> execution_trace \<times> nat" where
  "trace_line line = (\<lambda>(t, depth).
     (let trimmed = trim_start line; frame = starts_with trimmed ''at '';
          hits = fold (add_hit (if frame then depth else 0)) (extract_rs_locs line) (et_hits t);
          message = (if et_message t = [] \<and> find_sub ''panicked at'' trimmed \<noteq> None then trimmed else et_message t)
      in (\<lparr>et_message = message, et_hits = hits\<rparr>, if frame then depth + 1 else depth)))"

definition parse_cargo_test_output :: "string \<Rightarrow> execution_trace" where
  "parse_cargo_test_output output = fst (fold trace_line (lines_of output) (\<lparr>et_message = [], et_hits = []\<rparr>, 0))"

subsection \<open>What a trace holds\<close>

definition trace_ok :: "execution_trace \<Rightarrow> bool" where
  \<comment> \<open>no location twice, and every one of the project\<close>
  "trace_ok t \<longleftrightarrow> distinct (map (\<lambda>h. (th_file h, th_line h)) (et_hits t))
     \<and> list_all (\<lambda>h. \<not> starts_with (th_file h) ''/'') (et_hits t)"

lemma add_hits_ok:
  "distinct (map (\<lambda>h. (th_file h, th_line h)) hits) \<Longrightarrow> list_all (\<lambda>h. \<not> starts_with (th_file h) ''/'') hits \<Longrightarrow>
    distinct (map (\<lambda>h. (th_file h, th_line h)) (fold (add_hit d) ls hits))
      \<and> list_all (\<lambda>h. \<not> starts_with (th_file h) ''/'') (fold (add_hit d) ls hits)"
proof (induction ls arbitrary: hits)
  case (Cons l ls)
  obtain raw ln where l: "l = (raw, ln)" by fastforce
  have "distinct (map (\<lambda>h. (th_file h, th_line h)) (add_hit d l hits)) \<and> list_all (\<lambda>h. \<not> starts_with (th_file h) ''/'') (add_hit d l hits)"
    using Cons.prems by (auto simp: add_hit_def l is_project_path_def Let_def)
  then show ?case using Cons.IH by simp
qed simp

lemma trace_parsed_ok: "trace_ok (parse_cargo_test_output output)"
proof -
  have "trace_ok (fst (fold trace_line ls (t, d)))" if "trace_ok t" for ls t d
    using that
  proof (induction ls arbitrary: t d)
    case (Cons l ls)
    obtain t' d' where s: "trace_line l (t, d) = (t', d')" by fastforce
    have "trace_ok t'" using s Cons.prems add_hits_ok [of "et_hits t"] by (auto simp: trace_line_def Let_def trace_ok_def)
    then show ?case using Cons.IH by (simp add: s)
  qed simp
  from this [of "\<lparr>et_message = [], et_hits = []\<rparr>" "lines_of output" 0] show ?thesis
    by (simp add: parse_cargo_test_output_def trace_ok_def)
qed

lemma remdups_adj_strict: "sorted xs \<Longrightarrow> sorted_wrt (<) (remdups_adj (xs :: 'a :: linorder list))"
proof (induction xs rule: remdups_adj.induct)
  case (3 x y xs)
  have "x < z" if "x \<noteq> y" "z \<in> set (y # xs)" for z
    using 3(3) that by (metis le_less_trans less_le list.set_intros(1) set_ConsD sorted_simps(2) order_less_le)
  then show ?case using 3 by (auto simp del: remdups_adj.simps(3) simp: remdups_adj.simps(3))
qed simp_all

lemma trace_files_sorted: "sorted_wrt (<) (trace_files t)"
  by (simp add: trace_files_def remdups_adj_strict)

end
