(* ===== verification/Session.thy ===== *)
theory Session
  imports FacadeFacts Trace
begin

text \<open>
  \<open>AgentSession\<close> (\<open>src/agent_session.rs\<close>): a memory whose operations are recorded in a
  hash-chained timeline, replay and time travel over it, compaction, the sidecar file, and the
  exchange of chain-verified bundles between agents; with the licence gate of \<open>src/license.rs\<close>
  it asks. Reading files, the clock and the licence of the host are arguments.
\<close>

subsection \<open>The licence gate\<close>

datatype feature = CustomAuthorityWeights | TensionVisualization | AuditReports | SlhAv2Embeddings | AdaptiveRetrieval
  | OctaSomaMemory | SlhAv2FullKernel | RsiSelfImprovement | RsiDgm

datatype tier = Community | Pro

record license =
  lc_licensee :: string
  lc_expires :: "nat option"
  lc_machine :: "string option"

datatype license_error = NoLicense | Expired | Invalid string | FeatureLocked feature

type_synonym licensing = "license option"

definition is_valid_at :: "nat \<Rightarrow> license \<Rightarrow> bool" where
  "is_valid_at now l \<longleftrightarrow> (case lc_expires l of None \<Rightarrow> True | Some e \<Rightarrow> now \<le> e)"

definition machine_ok :: "string option \<Rightarrow> license \<Rightarrow> bool" where
  "machine_ok host l \<longleftrightarrow> (case lc_machine l of None \<Rightarrow> True | Some bound \<Rightarrow> host = Some bound)"

definition from_blob :: "('b \<Rightarrow> nat \<Rightarrow> license_error + license) \<Rightarrow> 'b \<Rightarrow> nat \<Rightarrow> licensing" where
  "from_blob verify blob now = (case verify blob now of Inr l \<Rightarrow> Some l | Inl _ \<Rightarrow> None)"

definition enforce_machine_binding :: "string option \<Rightarrow> licensing \<Rightarrow> licensing" where
  "enforce_machine_binding host lic = (case lic of Some l \<Rightarrow> if \<not> machine_ok host l then None else lic | None \<Rightarrow> lic)"

definition tier_at :: "nat \<Rightarrow> licensing \<Rightarrow> tier" where
  "tier_at now lic = (case lic of Some l \<Rightarrow> if is_valid_at now l then Pro else Community | None \<Rightarrow> Community)"

definition allows :: "feature \<Rightarrow> nat \<Rightarrow> licensing \<Rightarrow> bool" where
  "allows f now lic \<longleftrightarrow> tier_at now lic = Pro"

definition require :: "feature \<Rightarrow> nat \<Rightarrow> licensing \<Rightarrow> license_error + unit" where
  "require f now lic = (if allows f now lic then Inr () else Inl (FeatureLocked f))"

subsection \<open>Operations and timelines\<close>

datatype session_op =
    OpIngest string ustr
  | OpFailure string nat
  | OpRecall recall_query nat
  | OpPageFault "string list" nat
  | OpRetune scoring_weights
  | OpAssert string string bool f64

record foreign_log =
  fl_ops :: "session_op list"
  fl_chain :: "string list"

record sync_bundle =
  sb_version :: nat
  sb_agent :: string
  sb_first :: nat
  sb_anchor :: string
  sb_ops :: "session_op list"
  sb_chain :: "string list"
  sb_pubkey :: "string option"
  sb_sig :: "string option"

datatype sync_error = NoAgentId | SelfImport | CompactedHistory | Gap nat nat | Tampered string | Diverged nat
  | BadSignature string | KeyMismatch string | UnsignedFromPinned string | SignedUnsupported

record persisted_timeline =
  pt_baseline :: "string option"
  pt_ops :: "session_op list"
  pt_folded :: nat
  pt_chain :: "string list"
  pt_anchor :: string
  pt_baseline_hash :: string
  pt_agent :: string
  pt_foreign :: "(string, foreign_log) omap"
  pt_keys :: "(string, string) omap"

record session_env =
  se_fe :: facade_env
  se_op_json :: "session_op \<Rightarrow> string"
  se_json :: "persisted \<Rightarrow> string option"           \<comment> \<open>\<open>to_json\<close> and \<open>from_json\<close> of a memory\<close>
  se_parse :: "string \<Rightarrow> persisted option"
  se_timeline_json :: "persisted_timeline \<Rightarrow> string option"
  se_timeline_parse :: "string \<Rightarrow> persisted_timeline option"
  se_sign :: "bytes \<Rightarrow> sync_bundle \<Rightarrow> string \<times> string"     \<comment> \<open>seed to public key and signature\<close>
  se_verify :: "sync_bundle \<Rightarrow> string \<Rightarrow> string \<Rightarrow> sync_error option"
  se_fault_depth :: nat
  se_oplog_max :: nat
  se_oplog_keep :: nat

record session =
  ss_live :: ccos_memory
  ss_ops :: "session_op list"
  ss_baseline :: "string option"
  ss_folded :: nat
  ss_chain :: "string list"
  ss_anchor :: string
  ss_baseline_hash :: string
  ss_agent :: string
  ss_foreign :: "(string, foreign_log) omap"
  ss_keys :: "(string, string) omap"
  ss_seed :: "bytes option"
  ss_oplog :: "path option"
  ss_licensing :: licensing
  ss_custom :: "(string, f64) omap"

definition TIMELINE_GENESIS :: string where "TIMELINE_GENESIS = ''GENESIS''"

definition op_link_hash :: "session_env \<Rightarrow> string \<Rightarrow> nat \<Rightarrow> session_op \<Rightarrow> string" where
  "op_link_hash env prev seq op = sha_hex (se_fe env) (prev @ ''|'' @ dec_digits seq @ ''|'' @ se_op_json env op)"

definition baseline_commitment :: "session_env \<Rightarrow> string option \<Rightarrow> string" where
  "baseline_commitment env b = (case b of None \<Rightarrow> [] | Some s \<Rightarrow> sha_hex (se_fe env) s)"

fun chain_over :: "session_env \<Rightarrow> string \<Rightarrow> nat \<Rightarrow> session_op list \<Rightarrow> string list" where
  "chain_over env prev seq [] = []"
| "chain_over env prev seq (op # ops) =
     (let h = op_link_hash env prev seq op in h # chain_over env h (Suc seq) ops)"

fun check_links :: "session_env \<Rightarrow> string \<Rightarrow> nat \<Rightarrow> (session_op \<times> string) list \<Rightarrow> nat \<times> string list" where
  \<comment> \<open>links verified, and errors\<close>
  "check_links env prev seq [] = (0, [])"
| "check_links env prev seq ((op, link) # rest) =
     (let (verified, errors) = check_links env link (Suc seq) rest
      in if op_link_hash env prev seq op = link then (Suc verified, errors)
         else (verified, (''link t='' @ dec_digits (seq + 1) @ '' broken: op or hash mutated'') # errors))"

definition verify_timeline_parts :: "session_env \<Rightarrow> string \<Rightarrow> nat \<Rightarrow> session_op list \<Rightarrow> string list \<Rightarrow> string option \<Rightarrow> string \<Rightarrow> log_integrity" where
  "verify_timeline_parts env anchor folded ops chain baseline baseline_hash =
     (if chain = [] \<and> anchor = [] \<and> baseline_hash = [] then \<lparr>li_valid = True, li_verified = 0, li_errors = []\<rparr>
      else let e1 = (if baseline_commitment env baseline \<noteq> baseline_hash then [''baseline does not match its recorded commitment''] else []);
               e2 = (if length chain \<noteq> length ops
                     then [''chain has '' @ dec_digits (length chain) @ '' link(s) for '' @ dec_digits (length ops)
                            @ '' op(s): an op was inserted or removed''] else []);
               (verified, e3) = check_links env anchor folded (zip ops chain);
               errors = e1 @ e2 @ e3
           in \<lparr>li_valid = (errors = []), li_verified = verified, li_errors = errors\<rparr>)"

definition session_new :: "session_env \<Rightarrow> nat \<Rightarrow> disk \<Rightarrow> session" where
  "session_new env now d =
     \<lparr>ss_live = set_slhav2_embeddings (allows SlhAv2Embeddings now None) (ccos_new d), ss_ops = [], ss_baseline = None, ss_folded = 0,
      ss_chain = [], ss_anchor = TIMELINE_GENESIS, ss_baseline_hash = baseline_commitment env None, ss_agent = [], ss_foreign = [],
      ss_keys = [], ss_seed = None, ss_oplog = None, ss_licensing = None, ss_custom = []\<rparr>"

definition session_len :: "session \<Rightarrow> nat" where
  "session_len s = ss_folded s + length (ss_ops s)"

definition timeline_head :: "session \<Rightarrow> string" where
  "timeline_head s = (if ss_chain s = [] then ss_anchor s else last (ss_chain s))"

definition record_op :: "session_env \<Rightarrow> session_op \<Rightarrow> session \<Rightarrow> session" where
  "record_op env op s =
     s\<lparr>ss_chain := ss_chain s @ [op_link_hash env (timeline_head s) (ss_folded s + length (ss_ops s)) op], ss_ops := ss_ops s @ [op]\<rparr>"

definition verify_timeline :: "session_env \<Rightarrow> session \<Rightarrow> log_integrity" where
  "verify_timeline env s =
     verify_timeline_parts env (ss_anchor s) (ss_folded s) (ss_ops s) (ss_chain s) (ss_baseline s) (ss_baseline_hash s)"

subsection \<open>Replay\<close>

definition settle :: "bool \<Rightarrow> ccos_memory \<Rightarrow> ccos_memory" where
  \<comment> \<open>\<open>if dirty { m.resolve(); }\<close>\<close>
  "settle dirty m = (if dirty then snd (resolve m) else m)"

definition fault_files :: "facade_env \<Rightarrow> string list \<Rightarrow> nat \<Rightarrow> ccos_memory \<Rightarrow> ccos_memory" where
  "fault_files fe files radius m = fold (\<lambda>f m. snd (signal_failure fe (''file:'' @ f) radius m)) files m"

definition page_recall :: "facade_env \<Rightarrow> recall_query \<Rightarrow> ccos_memory \<Rightarrow> ccos_memory" where
  \<comment> \<open>the page fault on the read path\<close>
  "page_recall fe q m = (case q of Around uri \<Rightarrow> snd (ensure_resident fe uri m) | _ \<Rightarrow> m)"

fun apply_op :: "facade_env \<Rightarrow> session_op \<Rightarrow> ccos_memory \<times> bool \<Rightarrow> ccos_memory \<times> bool" where
  "apply_op fe (OpIngest uri source) (m, dirty) = (snd (ingest_deferred fe uri source m), True)"
| "apply_op fe (OpFailure node radius) (m, dirty) = (snd (signal_failure fe node radius (settle dirty m)), False)"
| "apply_op fe (OpPageFault files radius) (m, dirty) = (fault_files fe files radius (settle dirty m), False)"
| "apply_op fe (OpRecall q budget) (m, dirty) = (page_recall fe q (settle dirty m), False)"
| "apply_op fe (OpRetune w) (m, dirty) = (ccos_set_weights w m, dirty)"
| "apply_op fe (OpAssert e c supports w) (m, dirty) =
     (snd (if supports then assert_support fe e c w m else assert_contradiction fe e c w m), dirty)"

definition start_memory :: "session_env \<Rightarrow> disk \<Rightarrow> string option \<Rightarrow> ccos_memory" where
  \<comment> \<open>\<open>from_json(snapshot).unwrap_or_default()\<close>, or a new memory\<close>
  "start_memory env d baseline = (case Option.bind baseline (se_parse env) of Some ps \<Rightarrow> memory_of d ps | None \<Rightarrow> ccos_new d)"

definition replay_ops :: "session_env \<Rightarrow> session_op list \<Rightarrow> ccos_memory \<Rightarrow> ccos_memory" where
  "replay_ops env ops m = (case fold (apply_op (se_fe env)) ops (m, False) of (m', dirty) \<Rightarrow> settle dirty m')"

definition replay_to :: "session_env \<Rightarrow> nat \<Rightarrow> session \<Rightarrow> ccos_memory" where
  "replay_to env step s =
     replay_ops env (take (min step (session_len s) - ss_folded s) (ss_ops s))
       (start_memory env (g_disk (graph_in (ss_live s))) (ss_baseline s))"

definition recall_what_if :: "session_env \<Rightarrow> nat \<Rightarrow> recall_query \<Rightarrow> nat \<Rightarrow> session \<Rightarrow> recall_window option" where
  "recall_what_if env step q budget s = map_option fst (recall (se_fe env) q budget (replay_to env step s))"

definition score_trajectory :: "session_env \<Rightarrow> node_id \<Rightarrow> session \<Rightarrow> f64 list" where
  "score_trajectory env i s = map (\<lambda>step. (let g = graph_in (replay_to env step s) in
     case map_of (g_nodes g) i of Some n \<Rightarrow> fst (compute_node_score (fe_mem (se_fe env)) n g) | None \<Rightarrow> f64_zero False))
     [0 ..< Suc (session_len s)]"

subsection \<open>Recorded operations\<close>

definition on_live :: "(ccos_memory \<Rightarrow> ccos_memory) \<Rightarrow> session \<Rightarrow> session" where
  "on_live f s = s\<lparr>ss_live := f (ss_live s)\<rparr>"

definition session_ingest :: "session_env \<Rightarrow> string \<Rightarrow> ustr \<Rightarrow> session \<Rightarrow> ingest_report \<times> session" where
  "session_ingest env uri source s =
     (let s1 = record_op env (OpIngest uri source) s; (report, m) = ingest_source (se_fe env) uri source (ss_live s1)
      in (report, s1\<lparr>ss_live := m\<rparr>))"

fun ingest_files :: "session_env \<Rightarrow> (string \<times> ustr) list \<Rightarrow> session \<Rightarrow> ingest_report list \<times> session" where
  "ingest_files env [] s = ([], s)"
| "ingest_files env ((uri, source) # files) s =
     (let s1 = record_op env (OpIngest uri source) s; (report, m) = ingest_deferred (se_fe env) uri source (ss_live s1);
          (reports, s2) = ingest_files env files (s1\<lparr>ss_live := m\<rparr>)
      in (report # reports, s2))"

definition ingest_batch :: "session_env \<Rightarrow> (string \<times> ustr) list \<Rightarrow> session \<Rightarrow> ingest_report list \<times> session" where
  "ingest_batch env files s =
     (let (reports, s1) = ingest_files env files s in (reports, on_live (\<lambda>m. snd (resolve m)) s1))"

definition authority_set :: "string \<Rightarrow> f64 \<Rightarrow> (string, f64) omap \<Rightarrow> (string, f64) omap" where
  \<comment> \<open>\<open>CustomAuthorityMap::set\<close>\<close>
  "authority_set source weight m = om_insert source (f64_clamp weight (f64_zero False) (f64_rat 1 1)) m"

definition set_custom_authorities :: "nat \<Rightarrow> (string, f64) omap \<Rightarrow> session \<Rightarrow> (license_error + unit) \<times> session" where
  "set_custom_authorities now authorities s =
     (case require CustomAuthorityWeights now (ss_licensing s) of
        Inl e \<Rightarrow> (Inl e, s) | Inr _ \<Rightarrow> (Inr (), s\<lparr>ss_custom := authorities\<rparr>))"

definition enable_slhav2 :: "nat \<Rightarrow> session \<Rightarrow> (license_error + unit) \<times> session" where
  "enable_slhav2 now s =
     (case require SlhAv2Embeddings now (ss_licensing s) of
        Inl e \<Rightarrow> (Inl e, s) | Inr _ \<Rightarrow> (Inr (), on_live (set_slhav2_embeddings True) s))"

definition session_assert :: "session_env \<Rightarrow> string \<Rightarrow> string \<Rightarrow> bool \<Rightarrow> f64 \<Rightarrow> session \<Rightarrow> bool \<times> session" where
  \<comment> \<open>\<open>assert_support\<close> and \<open>assert_contradiction\<close>\<close>
  "session_assert env e c supports weight0 s =
     (let weight = (case map_of (ss_custom s) e of Some w \<Rightarrow> w | None \<Rightarrow> weight0);
          s1 = record_op env (OpAssert e c supports weight) s;
          (added, m) = (if supports then assert_support (se_fe env) e c weight (ss_live s1)
             else assert_contradiction (se_fe env) e c weight (ss_live s1))
      in (added, s1\<lparr>ss_live := m\<rparr>))"

definition sync :: "session_env \<Rightarrow> string \<Rightarrow> ustr \<Rightarrow> session \<Rightarrow> bool \<times> session" where
  "sync env uri source s =
     (if file_unchanged (se_fe env) uri source (ss_live s) then (False, s) else (True, snd (session_ingest env uri source s)))"

definition session_failure :: "session_env \<Rightarrow> string \<Rightarrow> nat \<Rightarrow> session \<Rightarrow> (memory_error + nat) \<times> session" where
  "session_failure env node radius s =
     (let s1 = record_op env (OpFailure node radius) s; (r, m) = signal_failure (se_fe env) node radius (ss_live s1)
      in (r, s1\<lparr>ss_live := m\<rparr>))"

definition session_recall :: "session_env \<Rightarrow> recall_query \<Rightarrow> nat \<Rightarrow> session \<Rightarrow> (recall_window \<times> session) option" where
  "session_recall env q budget s =
     (case recall (se_fe env) q budget (page_recall (se_fe env) q (ss_live s)) of
        None \<Rightarrow> None
      | Some (w, m) \<Rightarrow> Some (w, record_op env (OpRecall q budget) (s\<lparr>ss_live := m\<rparr>)))"

definition page_fault :: "session_env \<Rightarrow> string \<Rightarrow> nat \<Rightarrow> session \<Rightarrow> (recall_window \<times> session) option" where
  "page_fault env output budget s =
     (let files = trace_files (parse_cargo_test_output output); depth = se_fault_depth env;
          m = fault_files (se_fe env) files depth (ss_live s);
          q = (case files of [] \<Rightarrow> WorkingSet | f # _ \<Rightarrow> Around (''file:'' @ f))
      in case recall (se_fe env) q budget m of
           None \<Rightarrow> None
         | Some (w, m') \<Rightarrow> Some (w, record_op env (OpPageFault files depth) (s\<lparr>ss_live := m'\<rparr>)))"

end
