(* ===== verification/SessionStore.thy ===== *)
theory SessionStore
  imports Session
begin

text \<open>
  The rest of \<open>AgentSession\<close> (\<open>src/agent_session.rs\<close>): learning scoring weights from the
  timeline, compaction, checkpoints and the sidecar, forks, and the exchange of bundles.
\<close>

subsection \<open>Learning from the timeline\<close>

definition engaged_path :: "string \<Rightarrow> string" where
  "engaged_path uri =
     (let rest = (case List.map_filter (strip_prefix uri) [''file:'', ''sym:'', ''mod:'', ''use:'', ''dep:''] of
                    r # _ \<Rightarrow> r | [] \<Rightarrow> uri)
      in takeWhile (\<lambda>c. c \<noteq> CHR '':'') rest)"

definition window_holds :: "recall_window \<Rightarrow> string \<Rightarrow> bool" where
  "window_holds win uri \<longleftrightarrow> list_ex (\<lambda>it. engaged_path (ri_uri it) = engaged_path uri) (wi_items win)"

record reward_state =
  rw_memory :: ccos_memory
  rw_pending :: "recall_window option"
  rw_hits :: nat
  rw_total :: nat
  rw_dirty :: bool

definition engage :: "(recall_window \<Rightarrow> bool) \<Rightarrow> reward_state \<Rightarrow> reward_state" where
  \<comment> \<open>\<open>if let Some(win) = pending.take()\<close>\<close>
  "engage holds st = (case rw_pending st of None \<Rightarrow> st
     | Some win \<Rightarrow> st\<lparr>rw_pending := None, rw_total := rw_total st + 1, rw_hits := (if holds win then rw_hits st + 1 else rw_hits st)\<rparr>)"

definition read_edges :: "reward_state \<Rightarrow> reward_state" where
  "read_edges st = st\<lparr>rw_memory := settle (rw_dirty st) (rw_memory st), rw_dirty := False\<rparr>"

fun reward_op :: "facade_env \<Rightarrow> session_op \<Rightarrow> reward_state \<Rightarrow> reward_state option" where
  "reward_op fe (OpIngest uri source) st = Some (st\<lparr>rw_memory := snd (ingest_deferred fe uri source (rw_memory st)), rw_dirty := True\<rparr>)"
| "reward_op fe (OpRecall q budget) st =
     (let st1 = read_edges st in
      case recall fe q budget (page_recall fe q (rw_memory st1)) of
        None \<Rightarrow> None | Some (w, m) \<Rightarrow> Some (st1\<lparr>rw_memory := m, rw_pending := Some w\<rparr>))"
| "reward_op fe (OpFailure node radius) st =
     (let st1 = engage (\<lambda>w. window_holds w node) (read_edges st)
      in Some (st1\<lparr>rw_memory := snd (signal_failure fe node radius (rw_memory st1))\<rparr>))"
| "reward_op fe (OpPageFault files radius) st =
     (let st1 = engage (\<lambda>w. list_ex (window_holds w) files) (read_edges st)
      in Some (st1\<lparr>rw_memory := fault_files fe files radius (rw_memory st1)\<rparr>))"
| "reward_op fe (OpRetune w) st = Some st"
| "reward_op fe (OpAssert e c supports w) st = Some (st\<lparr>rw_memory :=
     snd (if supports then assert_support fe e c w (rw_memory st) else assert_contradiction fe e c w (rw_memory st))\<rparr>)"

fun reward_ops :: "facade_env \<Rightarrow> session_op list \<Rightarrow> reward_state \<Rightarrow> reward_state option" where
  "reward_ops fe [] st = Some st"
| "reward_ops fe (op # ops) st = Option.bind (reward_op fe op st) (reward_ops fe ops)"

definition retrieval_reward :: "session_env \<Rightarrow> session \<Rightarrow> scoring_weights \<Rightarrow> f64 option" where
  \<comment> \<open>a recall that panics, which no reachable graph has, counts as no reward\<close>
  "retrieval_reward env s w =
     (let m = ccos_set_weights w (start_memory env (g_disk (graph_in (ss_live s))) (ss_baseline s))
      in Option.bind (reward_ops (se_fe env) (ss_ops s) \<lparr>rw_memory = m, rw_pending = None, rw_hits = 0, rw_total = 0, rw_dirty = False\<rparr>)
           (\<lambda>st. if 0 < rw_total st then Some (f64_div (f64_of_nat (rw_hits st)) (f64_of_nat (rw_total st))) else None))"

definition live_weights :: "session \<Rightarrow> scoring_weights" where
  "live_weights s = g_weights (graph_in (ss_live s))"

definition try_weights :: "(scoring_weights \<Rightarrow> f64 option) \<Rightarrow> (scoring_weights \<Rightarrow> scoring_weights) \<Rightarrow> scoring_weights \<times> f64 \<Rightarrow> scoring_weights \<times> f64" where
  "try_weights reward move = (\<lambda>(best, best_reward).
     (case reward (move best) of
        Some r \<Rightarrow> if f64_lt best_reward r then (move best, r) else (best, best_reward)
      | None \<Rightarrow> (best, best_reward)))"

definition FACTORS :: "f64 list" where
  "FACTORS = [f64_rat 25 100, f64_rat 1 2, f64_rat 75 100, f64_rat 3 2, f64_rat 2 1, f64_rat 4 1]"

definition CENTRALITY :: "f64 list" where
  "CENTRALITY = [f64_rat 5 100, f64_rat 15 100, f64_rat 3 10, f64_rat 1 2]"

definition scale_dim :: "nat \<Rightarrow> f64 \<Rightarrow> scoring_weights \<Rightarrow> scoring_weights" where
  "scale_dim dim f w =
     (if dim = 0 then w\<lparr>w_base := f64_mul (w_base w) f\<rparr>
      else if dim = 1 then w\<lparr>w_failure := f64_mul (w_failure w) f\<rparr>
      else if dim = 2 then w\<lparr>w_recency := f64_mul (w_recency w) f\<rparr>
      else w\<lparr>w_access := f64_mul (w_access w) f\<rparr>)"

definition weight_moves :: "(scoring_weights \<Rightarrow> scoring_weights) list" where
  "weight_moves = concat (map (\<lambda>dim. map (scale_dim dim) FACTORS) [0 ..< 4])
     @ map (\<lambda>c w. w\<lparr>w_centrality := c\<rparr>) (CENTRALITY @ [f64_zero False])"

definition tune_weights :: "(scoring_weights \<Rightarrow> f64 option) \<Rightarrow> scoring_weights \<Rightarrow> scoring_weights" where
  "tune_weights reward w = (case reward w of None \<Rightarrow> w
     | Some r \<Rightarrow> fst (fold (try_weights reward) (weight_moves @ weight_moves) (w, r)))"

definition opt_lt :: "f64 option \<Rightarrow> f64 option \<Rightarrow> bool" where
  \<comment> \<open>\<open><\<close> on \<open>Option<f64>\<close>\<close>
  "opt_lt a b = (case (a, b) of (None, Some _) \<Rightarrow> True | (Some x, Some y) \<Rightarrow> f64_lt x y | _ \<Rightarrow> False)"

definition tune_recall_weights :: "session_env \<Rightarrow> session \<Rightarrow> scoring_weights" where
  "tune_recall_weights env s = tune_weights (retrieval_reward env s) (live_weights s)"

definition retrieval_hit_rate :: "session_env \<Rightarrow> session \<Rightarrow> f64 option" where
  "retrieval_hit_rate env s = retrieval_reward env s (live_weights s)"

definition adopt_tuned :: "session_env \<Rightarrow> session \<Rightarrow> bool \<times> session" where
  "adopt_tuned env s =
     (let tuned = tune_recall_weights env s
      in if opt_lt (retrieval_hit_rate env s) (retrieval_reward env s tuned)
         then (True, record_op env (OpRetune tuned) (on_live (ccos_set_weights tuned) s))
         else (False, s))"

subsection \<open>Compaction and forks\<close>

definition compact :: "session_env \<Rightarrow> nat \<Rightarrow> session \<Rightarrow> session" where
  "compact env keep s =
     (if length (ss_ops s) \<le> keep then s
      else let fold_n = length (ss_ops s) - keep; floor = replay_to env (ss_folded s + fold_n) s
        in case se_json env (persisted_of floor) of
             None \<Rightarrow> s
           | Some snapshot \<Rightarrow> s\<lparr>ss_anchor := ss_chain s ! (fold_n - 1), ss_chain := drop fold_n (ss_chain s),
               ss_baseline_hash := baseline_commitment env (Some snapshot), ss_baseline := Some snapshot,
               ss_ops := drop fold_n (ss_ops s), ss_folded := ss_folded s + fold_n\<rparr>)"

definition compact_if_needed :: "session_env \<Rightarrow> session \<Rightarrow> session" where
  "compact_if_needed env s =
     (if 0 < se_oplog_max env \<and> se_oplog_max env < length (ss_ops s) then compact env (se_oplog_keep env) s else s)"

definition fork_at :: "session_env \<Rightarrow> nat \<Rightarrow> session \<Rightarrow> session" where
  "fork_at env step0 s =
     (let step = max (min step0 (session_len s)) (ss_folded s); tail = step - ss_folded s
      in s\<lparr>ss_live := replay_to env step s, ss_ops := take tail (ss_ops s), ss_chain := take tail (ss_chain s), ss_oplog := None\<rparr>)"

subsection \<open>Persistence\<close>

definition oplog_sidecar :: "path \<Rightarrow> path" where
  "oplog_sidecar = (\<lambda>(dir, file). (dir, file @ ''.oplog''))"

definition timeline_of :: "session \<Rightarrow> persisted_timeline" where
  "timeline_of s = \<lparr>pt_baseline = ss_baseline s, pt_ops = ss_ops s, pt_folded = ss_folded s, pt_chain = ss_chain s,
     pt_anchor = ss_anchor s, pt_baseline_hash = ss_baseline_hash s, pt_agent = ss_agent s, pt_foreign = ss_foreign s,
     pt_keys = ss_keys s\<rparr>"

definition session_checkpoint :: "session_env \<Rightarrow> session \<Rightarrow> (memory_error + unit) \<times> session" where
  "session_checkpoint env s0 =
     (let s = compact_if_needed env s0 in
      case checkpoint (\<lambda>ps. map_option bytes_of (se_json env ps)) (ss_live s) of
        (Inl e, m) \<Rightarrow> (Inl e, s\<lparr>ss_live := m\<rparr>)
      | (Inr _, m) \<Rightarrow>
          (case ss_oplog s of
             None \<Rightarrow> (Inr (), s\<lparr>ss_live := m\<rparr>)
           | Some p \<Rightarrow>
               (case se_timeline_json env (timeline_of s) of
                  None \<Rightarrow> (Inl SerdeFailed, s\<lparr>ss_live := m\<rparr>)
                | Some t \<Rightarrow>
                    (case write_durable p (bytes_of t) (g_disk (graph_in m)) of
                       (r, d) \<Rightarrow> (map_sum IoFailed id r, s\<lparr>ss_live := put_graph ((graph_in m)\<lparr>g_disk := d\<rparr>) m\<rparr>)))))"

definition timeline_reproduces_memory :: "session_env \<Rightarrow> session \<Rightarrow> bool" where
  "timeline_reproduces_memory env s =
     (let a = memory_stats_of (replay_to env (session_len s) s); b = memory_stats_of (ss_live s)
      in st_nodes a = st_nodes b \<and> st_edges a = st_edges b \<and> st_files a = st_files b)"

definition restart_timeline :: "session_env \<Rightarrow> string \<Rightarrow> session \<Rightarrow> session" where
  "restart_timeline env snapshot s =
     s\<lparr>ss_baseline := Some snapshot, ss_ops := [], ss_folded := 0, ss_chain := [], ss_anchor := TIMELINE_GENESIS,
       ss_baseline_hash := baseline_commitment env (Some snapshot)\<rparr>"

definition is_legacy :: "persisted_timeline \<Rightarrow> bool" where
  "is_legacy t \<longleftrightarrow> pt_chain t = [] \<and> pt_anchor t = [] \<and> pt_baseline_hash t = []"

definition backfill :: "session_env \<Rightarrow> persisted_timeline \<Rightarrow> persisted_timeline" where
  "backfill env t = t\<lparr>pt_anchor := TIMELINE_GENESIS, pt_baseline_hash := baseline_commitment env (pt_baseline t),
     pt_chain := chain_over env TIMELINE_GENESIS (pt_folded t) (pt_ops t)\<rparr>"

definition verify_parts_of :: "session_env \<Rightarrow> persisted_timeline \<Rightarrow> log_integrity" where
  "verify_parts_of env t = verify_timeline_parts env (pt_anchor t) (pt_folded t) (pt_ops t) (pt_chain t) (pt_baseline t) (pt_baseline_hash t)"

definition session_with :: "ccos_memory \<Rightarrow> persisted_timeline \<Rightarrow> bytes option \<Rightarrow> path \<Rightarrow> licensing \<Rightarrow> session" where
  "session_with live t seed p lic =
     \<lparr>ss_live = live, ss_ops = pt_ops t, ss_baseline = pt_baseline t, ss_folded = pt_folded t, ss_chain = pt_chain t, ss_anchor = pt_anchor t,
      ss_baseline_hash = pt_baseline_hash t, ss_agent = pt_agent t, ss_foreign = pt_foreign t, ss_keys = pt_keys t, ss_seed = seed,
      ss_oplog = Some p, ss_licensing = lic, ss_custom = []\<rparr>"

definition read_text :: "disk \<Rightarrow> path \<Rightarrow> string option" where
  \<comment> \<open>\<open>read_to_string(..).ok()\<close>\<close>
  "read_text d p = (case disk_read d p of Inr b \<Rightarrow> from_utf8 b | Inl _ \<Rightarrow> None)"

definition session_open :: "session_env \<Rightarrow> nat \<Rightarrow> licensing \<Rightarrow> bytes option \<Rightarrow> path \<Rightarrow> disk \<Rightarrow> memory_error + session" where
  \<comment> \<open>the licence and the signing seed of the host are arguments\<close>
  "session_open env now lic seed file d =
     (case open_memory (\<lambda>b. se_parse env (str_of b)) file d of
        Inl e \<Rightarrow> Inl e
      | Inr live0 \<Rightarrow>
          (let live = set_slhav2_embeddings (allows SlhAv2Embeddings now lic) live0; sidecar = oplog_sidecar file;
               guard = (\<lambda>s. if ss_ops s \<noteq> [] \<and> \<not> timeline_reproduces_memory env s
                 then (case se_json env (persisted_of (ss_live s)) of
                         None \<Rightarrow> Inl SerdeFailed | Some snapshot \<Rightarrow> Inr (restart_timeline env snapshot s))
                 else Inr s)
           in case Option.bind (read_text d sidecar) (se_timeline_parse env) of
                Some t \<Rightarrow>
                  if is_legacy t then guard (session_with live (backfill env t) seed sidecar lic)
                  else if \<not> li_valid (verify_parts_of env t)
                    then Inl (TimelineTampered (join_with ''; '' (li_errors (verify_parts_of env t))))
                  else guard (session_with live t seed sidecar lic)
              | None \<Rightarrow>
                  (case se_json env (persisted_of live) of
                     None \<Rightarrow> Inl SerdeFailed
                   | Some snapshot \<Rightarrow> guard (session_with live
                       \<lparr>pt_baseline = Some snapshot, pt_ops = [], pt_folded = 0, pt_chain = [], pt_anchor = TIMELINE_GENESIS,
                        pt_baseline_hash = baseline_commitment env (Some snapshot), pt_agent = [], pt_foreign = [], pt_keys = []\<rparr>
                       seed sidecar lic))))"

record timeline_audit =
  ta_integrity :: log_integrity
  ta_ops :: nat
  ta_folded :: nat
  ta_head :: string
  ta_legacy :: bool

definition audit_workspace :: "session_env \<Rightarrow> path \<Rightarrow> disk \<Rightarrow> timeline_audit option" where
  "audit_workspace env file d =
     (case read_text d (oplog_sidecar file) of
        None \<Rightarrow> None
      | Some raw \<Rightarrow> Some (case se_timeline_parse env raw of
            None \<Rightarrow> \<lparr>ta_integrity = \<lparr>li_valid = False, li_verified = 0, li_errors = [''sidecar does not parse as a timeline'']\<rparr>,
                     ta_ops = 0, ta_folded = 0, ta_head = [], ta_legacy = False\<rparr>
          | Some t \<Rightarrow> \<lparr>ta_integrity = verify_parts_of env t, ta_ops = length (pt_ops t), ta_folded = pt_folded t,
                        ta_head = (if pt_chain t = [] then pt_anchor t else last (pt_chain t)), ta_legacy = is_legacy t\<rparr>))"

subsection \<open>Exchange between agents\<close>

definition set_agent :: "string \<Rightarrow> session \<Rightarrow> session" where
  "set_agent i s = s\<lparr>ss_agent := i\<rparr>"

definition foreign_agents :: "session \<Rightarrow> (string \<times> nat \<times> string) list" where
  "foreign_agents s = map (\<lambda>(i, l). (i, length (fl_ops l), if fl_chain l = [] then TIMELINE_GENESIS else last (fl_chain l))) (ss_foreign s)"

definition export_bundle :: "session_env \<Rightarrow> nat \<Rightarrow> session \<Rightarrow> sync_error + sync_bundle" where
  "export_bundle env since s =
     (if ss_agent s = [] then Inl NoAgentId
      else if since < ss_folded s then Inl CompactedHistory
      else let start = min (since - ss_folded s) (length (ss_ops s));
               bundle = \<lparr>sb_version = 1, sb_agent = ss_agent s, sb_first = since,
                 sb_anchor = (if start = 0 then ss_anchor s else ss_chain s ! (start - 1)),
                 sb_ops = drop start (ss_ops s), sb_chain = drop start (ss_chain s), sb_pubkey = None, sb_sig = None\<rparr>
        in Inr (case ss_seed s of
             None \<Rightarrow> bundle
           | Some seed \<Rightarrow> (let (pk, sg) = se_sign env seed bundle in bundle\<lparr>sb_pubkey := Some pk, sb_sig := Some sg\<rparr>)))"

definition check_identity :: "session_env \<Rightarrow> sync_bundle \<Rightarrow> session \<Rightarrow> sync_error + (string \<times> string) option" where
  \<comment> \<open>the key to pin once the whole import has succeeded\<close>
  "check_identity env b s =
     (case (sb_pubkey b, sb_sig b) of
        (Some pk, Some sg) \<Rightarrow>
          (case se_verify env b pk sg of
             Some e \<Rightarrow> Inl e
           | None \<Rightarrow>
               (case map_of (ss_keys s) (sb_agent b) of
                  Some pinned \<Rightarrow> if pinned \<noteq> pk then Inl (KeyMismatch (sb_agent b)) else Inr None
                | None \<Rightarrow> Inr (Some (sb_agent b, pk))))
      | (None, None) \<Rightarrow> if om_contains (ss_keys s) (sb_agent b) then Inl (UnsignedFromPinned (sb_agent b)) else Inr None
      | _ \<Rightarrow> Inl (BadSignature ''pubkey and sig must both be present or both absent''))"

fun first_broken :: "session_env \<Rightarrow> string \<Rightarrow> nat \<Rightarrow> (session_op \<times> string) list \<Rightarrow> nat option" where
  "first_broken env prev seq [] = None"
| "first_broken env prev seq ((op, link) # rest) =
     (if op_link_hash env prev seq op \<noteq> link then Some seq else first_broken env link (Suc seq) rest)"

fun first_overlap_clash :: "string list \<Rightarrow> string list \<Rightarrow> nat \<Rightarrow> nat option" where
  \<comment> \<open>the known links from the bundle's start on, and the bundle's\<close>
  "first_overlap_clash (known # ks) (link # ls) seq = (if known \<noteq> link then Some seq else first_overlap_clash ks ls (Suc seq))"
| "first_overlap_clash _ _ seq = None"

definition import_bundle :: "session_env \<Rightarrow> sync_bundle \<Rightarrow> session \<Rightarrow> (sync_error + nat) \<times> session" where
  "import_bundle env b s =
     (if sb_agent b = [] then (Inl (Tampered ''bundle has no agent id''), s)
      else if sb_agent b = ss_agent s then (Inl SelfImport, s)
      else case check_identity env b s of
        Inl e \<Rightarrow> (Inl e, s)
      | Inr pin \<Rightarrow>
          if length (sb_ops b) \<noteq> length (sb_chain b)
          then (Inl (Tampered (dec_digits (length (sb_ops b)) @ '' op(s) but '' @ dec_digits (length (sb_chain b)) @ '' chain link(s)'')), s)
          else if sb_first b = 0 \<and> sb_anchor b \<noteq> TIMELINE_GENESIS
          then (Inl (Tampered ''a genesis bundle must anchor at GENESIS''), s)
          else case first_broken env (sb_anchor b) (sb_first b) (zip (sb_ops b) (sb_chain b)) of
            Some seq \<Rightarrow> (Inl (Tampered (''link t='' @ dec_digits (seq + 1) @ '' does not verify'')), s)
          | None \<Rightarrow>
              (let known = (case map_of (ss_foreign s) (sb_agent b) of Some l \<Rightarrow> l | None \<Rightarrow> \<lparr>fl_ops = [], fl_chain = []\<rparr>);
                   known_len = length (fl_ops known)
               in if known_len < sb_first b then (Inl (Gap known_len (sb_first b)), s)
                  else if om_contains (ss_foreign s) (sb_agent b) \<and> 0 < sb_first b \<and> sb_anchor b \<noteq> fl_chain known ! (sb_first b - 1)
                  then (Inl (Diverged (sb_first b)), s)
                  else case first_overlap_clash (drop (sb_first b) (fl_chain known)) (sb_chain b) (sb_first b) of
                    Some seq \<Rightarrow> (Inl (Diverged (seq + 1)), s)
                  | None \<Rightarrow>
                      (let overlap = min (known_len - sb_first b) (length (sb_ops b))
                       in (Inr (length (sb_ops b) - overlap),
                           s\<lparr>ss_foreign := om_insert (sb_agent b) \<lparr>fl_ops = fl_ops known @ drop overlap (sb_ops b),
                                                               fl_chain = fl_chain known @ drop overlap (sb_chain b)\<rparr> (ss_foreign s),
                             ss_keys := (case pin of Some (i, pk) \<Rightarrow> om_insert i pk (ss_keys s) | None \<Rightarrow> ss_keys s)\<rparr>))))"

definition streams :: "session \<Rightarrow> (string, session_op list) omap" where
  "streams s = om_extend (om_insert (if ss_agent s = [] then ''local'' else ss_agent s) (ss_ops s) [])
     (map (\<lambda>(i, l). (i, fl_ops l)) (ss_foreign s))"

definition merged_view :: "session_env \<Rightarrow> session \<Rightarrow> ccos_memory" where
  "merged_view env s = replay_ops env (concat (map snd (streams s))) (ccos_new (g_disk (graph_in (ss_live s))))"

end
