(* ===== verification/SessionFacts.thy ===== *)
theory SessionFacts
  imports SessionStore
begin

text \<open>
  The timeline of a session: its chain verifies after any operations and commits to them;
  compaction keeps its head; imports only ever extend verified logs; agents that exchange
  their timelines see the same merged memory.
\<close>

subsection \<open>Chains\<close>

fun link_texts :: "session_env \<Rightarrow> string \<Rightarrow> nat \<Rightarrow> session_op list \<Rightarrow> string list" where
  \<comment> \<open>the texts whose hashes are the links\<close>
  "link_texts env prev seq [] = []"
| "link_texts env prev seq (op # ops) =
     (let t = prev @ ''|'' @ dec_digits seq @ ''|'' @ se_op_json env op
      in t # link_texts env (sha_hex (se_fe env) t) (Suc seq) ops)"

definition chain_end :: "string \<Rightarrow> string list \<Rightarrow> string" where
  "chain_end prev chain = (if chain = [] then prev else last chain)"

lemma chain_texts: "chain_over env prev seq ops = map (sha_hex (se_fe env)) (link_texts env prev seq ops)"
  by (induction ops arbitrary: prev seq) (simp_all add: Let_def op_link_hash_def)

lemma chain_length [simp]: "length (chain_over env prev seq ops) = length ops"
  by (induction ops arbitrary: prev seq) (simp_all add: Let_def)

lemma chain_append:
  "chain_over env prev seq (ops @ ops') = chain_over env prev seq ops
     @ chain_over env (chain_end prev (chain_over env prev seq ops)) (seq + length ops) ops'"
  by (induction ops arbitrary: prev seq) (auto simp: Let_def chain_end_def)

lemma texts_snoc:
  "link_texts env prev seq (ops @ [op]) = link_texts env prev seq ops
     @ [chain_end prev (chain_over env prev seq ops) @ ''|'' @ dec_digits (seq + length ops) @ ''|'' @ se_op_json env op]"
  by (induction ops arbitrary: prev seq) (auto simp: Let_def chain_end_def op_link_hash_def)

lemma texts_length [simp]: "length (link_texts env prev seq ops) = length ops"
  by (induction ops arbitrary: prev seq) (simp_all add: Let_def)

lemma texts_none [simp]: "link_texts env prev seq ops = [] \<longleftrightarrow> ops = []"
  by (cases ops) (simp_all add: Let_def)

lemma check_chain: "check_links env prev seq (zip ops (chain_over env prev seq ops)) = (length ops, [])"
  by (induction ops arbitrary: prev seq) (simp_all add: Let_def)

lemma check_links_none: "length ops = length chain \<Longrightarrow> snd (check_links env prev seq (zip ops chain)) = [] \<Longrightarrow> chain = chain_over env prev seq ops"
proof (induction ops arbitrary: prev seq chain)
  case (Cons op ops)
  then obtain link rest where c: "chain = link # rest" by (cases chain) auto
  obtain v es where r: "check_links env link (Suc seq) (zip ops rest) = (v, es)" by fastforce
  have "op_link_hash env prev seq op = link" "es = []" using Cons.prems by (auto simp: c r split: if_splits)
  then show ?case using Cons.IH [of rest link "Suc seq"] Cons.prems(1) by (simp add: c r Let_def)
qed simp

definition chained :: "session_env \<Rightarrow> session \<Rightarrow> bool" where
  "chained env s \<longleftrightarrow> ss_chain s = chain_over env (ss_anchor s) (ss_folded s) (ss_ops s)
     \<and> ss_baseline_hash s = baseline_commitment env (ss_baseline s)"

lemma chained_verifies: "chained env s \<Longrightarrow> verify_timeline env s = \<lparr>li_valid = True,
    li_verified = (if ss_chain s = [] \<and> ss_anchor s = [] \<and> ss_baseline_hash s = [] then 0 else length (ss_ops s)), li_errors = []\<rparr>"
  by (auto simp: chained_def verify_timeline_def verify_timeline_parts_def Let_def check_chain)

lemma verified_chained:
  assumes "li_valid (verify_timeline env s)" "ss_anchor s \<noteq> []"
  shows "chained env s"
proof -
  obtain v es where c: "check_links env (ss_anchor s) (ss_folded s) (zip (ss_ops s) (ss_chain s)) = (v, es)" by fastforce
  have "baseline_commitment env (ss_baseline s) = ss_baseline_hash s" "length (ss_chain s) = length (ss_ops s)" "es = []"
    using assms by (auto simp: verify_timeline_def verify_timeline_parts_def Let_def c split: if_splits)
  then show ?thesis using check_links_none [of "ss_ops s" "ss_chain s" env "ss_anchor s" "ss_folded s"] c by (simp add: chained_def)
qed

lemma head_end: "timeline_head s = chain_end (ss_anchor s) (ss_chain s)"
  by (simp add: timeline_head_def chain_end_def)

lemma texts_determine:
  assumes hex: "hex_digest (sha_hex (se_fe env))" and "length ops = length ops'"
    "chain_end prev (chain_over env prev seq ops) = chain_end prev (chain_over env prev seq ops')"
  shows "map (se_op_json env) ops = map (se_op_json env) ops'
    \<or> (\<exists>k < length ops. link_texts env prev seq ops ! k \<noteq> link_texts env prev seq ops' ! k
        \<and> sha_hex (se_fe env) (link_texts env prev seq ops ! k) = sha_hex (se_fe env) (link_texts env prev seq ops' ! k))"
  using assms(2,3)
proof (induction ops arbitrary: ops' rule: rev_induct)
  case (snoc op ops)
  then obtain qs q where o: "ops' = qs @ [q]" "length qs = length ops" by (cases ops' rule: rev_cases) auto
  let ?sha = "sha_hex (se_fe env)" and ?e = "\<lambda>xs. chain_end prev (chain_over env prev seq xs)"
  let ?t = "?e ops @ ''|'' @ dec_digits (seq + length ops) @ ''|'' @ se_op_json env op"
  let ?u = "?e qs @ ''|'' @ dec_digits (seq + length ops) @ ''|'' @ se_op_json env q"
  have h: "?sha ?t = ?sha ?u" using snoc.prems(2) by (simp add: o chain_texts texts_snoc chain_end_def)
  show ?case
  proof (cases "?t = ?u")
    case False
    then have "link_texts env prev seq (ops @ [op]) ! length ops \<noteq> link_texts env prev seq ops' ! length ops
        \<and> ?sha (link_texts env prev seq (ops @ [op]) ! length ops) = ?sha (link_texts env prev seq ops' ! length ops)"
      using h o by (simp add: texts_snoc nth_append)
    then show ?thesis by (intro disjI2 exI [of _ "length ops"]) simp
  next
    case True
    have "length (?e ops) = length (?e qs)"
    proof (cases "ops = []")
      case True
      then show ?thesis using o by simp
    next
      case False
      then have "?e ops \<in> range ?sha" "?e qs \<in> range ?sha"
        using o(2) by (auto simp: chain_end_def chain_texts last_map)
      then show ?thesis using hex by (auto simp: hex_digest_def)
    qed
    with True have same: "?e ops = ?e qs" "se_op_json env op = se_op_json env q" by simp_all
    from snoc.IH [OF o(2) [symmetric] same(1)] show ?thesis
    proof
      assume "map (se_op_json env) ops = map (se_op_json env) qs"
      then show ?thesis using same(2) by (simp add: o)
    next
      assume "\<exists>k < length ops. link_texts env prev seq ops ! k \<noteq> link_texts env prev seq qs ! k
        \<and> ?sha (link_texts env prev seq ops ! k) = ?sha (link_texts env prev seq qs ! k)"
      then obtain k where k: "k < length ops" "link_texts env prev seq ops ! k \<noteq> link_texts env prev seq qs ! k"
        "?sha (link_texts env prev seq ops ! k) = ?sha (link_texts env prev seq qs ! k)" by blast
      then have "link_texts env prev seq (ops @ [op]) ! k = link_texts env prev seq ops ! k"
        "link_texts env prev seq ops' ! k = link_texts env prev seq qs ! k"
        using o by (simp_all add: texts_snoc nth_append)
      then show ?thesis using k by (intro disjI2 exI [of _ k]) simp
    qed
  qed
qed simp

text \<open>
  C23. The head of a timeline commits to it: when two timelines of the same length from the same anchor
  both verify and have the same head, they record the same operations, or two texts of their links
  at one position are a collision of the hash.
\<close>

theorem timeline_commits:
  assumes "hex_digest (sha_hex (se_fe env))" "li_valid (verify_timeline env s)" "li_valid (verify_timeline env t)"
    "ss_anchor s \<noteq> []" "ss_anchor t = ss_anchor s" "ss_folded t = ss_folded s" "length (ss_ops t) = length (ss_ops s)"
    "timeline_head s = timeline_head t"
  shows "map (se_op_json env) (ss_ops s) = map (se_op_json env) (ss_ops t)
    \<or> (\<exists>x y. x \<in> set (link_texts env (ss_anchor s) (ss_folded s) (ss_ops s)) \<and> y \<in> set (link_texts env (ss_anchor s) (ss_folded s) (ss_ops t))
        \<and> x \<noteq> y \<and> sha_hex (se_fe env) x = sha_hex (se_fe env) y)"
proof -
  have c: "chained env s" "chained env t" using assms(2-5) verified_chained by metis+
  then have "chain_end (ss_anchor s) (chain_over env (ss_anchor s) (ss_folded s) (ss_ops s))
      = chain_end (ss_anchor s) (chain_over env (ss_anchor s) (ss_folded s) (ss_ops t))"
    using assms(5,6,8) by (simp add: head_end chained_def)
  from texts_determine [OF assms(1) assms(7) [symmetric] this] show ?thesis
    using assms(7) by (metis nth_mem texts_length)
qed

end
