(* ===== verification/SessionSync.thy ===== *)
theory SessionSync
  imports SessionFacts
begin

text \<open>
  The life of a session as a step relation over its operations, the invariants of its timeline
  and of the foreign logs it holds, and the exchange of bundles: what an import accepts, and
  that agents which have exchanged everything see the same merged memory.
\<close>

subsection \<open>Steps of a session\<close>

inductive session_step :: "session_env \<Rightarrow> session \<Rightarrow> session \<Rightarrow> bool" for env where
  ingest: "session_step env s (snd (session_ingest env uri source s))"
| batch: "session_step env s (snd (ingest_batch env files s))"
| synced: "session_step env s (snd (sync env uri source s))"
| asserted: "session_step env s (snd (session_assert env e c supports w s))"
| failure: "session_step env s (snd (session_failure env node radius s))"
| recalled: "session_recall env q budget s = Some (win, s') \<Longrightarrow> session_step env s s'"
| faulted: "page_fault env output budget s = Some (win, s') \<Longrightarrow> session_step env s s'"
| tuned: "session_step env s (snd (adopt_tuned env s))"
| authorities: "session_step env s (snd (set_custom_authorities now m s))"
| licensed: "session_step env s (s\<lparr>ss_licensing := lic\<rparr>)"
| slhav2: "session_step env s (snd (enable_slhav2 now s))"
| compacted: "session_step env s (compact env keep s)"
| forked: "session_step env s (fork_at env step s)"
| saved: "session_step env s (snd (session_checkpoint env s))"
| named: "session_step env s (set_agent i s)"
| imported: "session_step env s (snd (import_bundle env b s))"

definition foreign_ok :: "session_env \<Rightarrow> session \<Rightarrow> bool" where
  "foreign_ok env s \<longleftrightarrow> om_ok (ss_foreign s)
     \<and> (\<forall>(i, l) \<in> set (ss_foreign s). i \<noteq> [] \<and> fl_chain l = chain_over env TIMELINE_GENESIS 0 (fl_ops l))"

definition own_part :: "session \<Rightarrow> session_op list \<times> string option \<times> nat \<times> string list \<times> string \<times> string" where
  "own_part s = (ss_ops s, ss_baseline s, ss_folded s, ss_chain s, ss_anchor s, ss_baseline_hash s)"

definition peer_part :: "session \<Rightarrow> (string, foreign_log) omap \<times> (string, string) omap" where
  "peer_part s = (ss_foreign s, ss_keys s)"

lemma chained_own: "own_part t = own_part s \<Longrightarrow> chained env t = chained env s"
  by (simp add: own_part_def chained_def)

lemma foreign_peer: "peer_part t = peer_part s \<Longrightarrow> foreign_ok env t = foreign_ok env s"
  by (simp add: peer_part_def foreign_ok_def)

lemma own_live [simp]: "own_part (s\<lparr>ss_live := m\<rparr>) = own_part s" "peer_part (s\<lparr>ss_live := m\<rparr>) = peer_part s"
  "own_part (on_live f s) = own_part s" "peer_part (on_live f s) = peer_part s"
  by (simp_all add: own_part_def peer_part_def on_live_def)

lemma chained_live [simp]: "chained env (s\<lparr>ss_live := m\<rparr>) = chained env s" "chained env (on_live f s) = chained env s"
  by (simp_all add: chained_def on_live_def)

lemma peer_record [simp]: "peer_part (record_op env op s) = peer_part s"
  by (simp add: record_op_def peer_part_def)

lemma chained_record: "chained env s \<Longrightarrow> chained env (record_op env op s)"
  by (simp add: record_op_def chained_def chain_append head_end)

lemma files_kept: "chained env s \<Longrightarrow> chained env (snd (ingest_files env files s))"
  "peer_part (snd (ingest_files env files s)) = peer_part s"
proof (induction files arbitrary: s)
  case (Cons f files)
  {
    case 1
    then show ?case using Cons(1) by (cases f) (simp add: Let_def chained_record case_prod_beta)
  next
    case 2
    then show ?case using Cons(2) by (cases f) (simp add: Let_def case_prod_beta)
  }
qed simp_all

subsection \<open>Compaction\<close>

lemma chain_drop:
  assumes "ss_chain s = chain_over env (ss_anchor s) (ss_folded s) (ss_ops s)" "0 < n" "n \<le> length (ss_ops s)"
  shows "drop n (ss_chain s) = chain_over env (ss_chain s ! (n - 1)) (ss_folded s + n) (drop n (ss_ops s))"
proof -
  let ?c = "chain_over env (ss_anchor s) (ss_folded s) (take n (ss_ops s))"
  have split: "ss_chain s = ?c @ chain_over env (chain_end (ss_anchor s) ?c) (ss_folded s + n) (drop n (ss_ops s))"
    using chain_append [of env "ss_anchor s" "ss_folded s" "take n (ss_ops s)" "drop n (ss_ops s)"] assms by simp
  have l: "length ?c = n" using assms(3) by simp
  then have ne: "?c \<noteq> []" using assms(2) by (metis less_numeral_extra(3) list.size(3))
  then have "ss_chain s ! (n - 1) = last ?c"
    using assms(2) l by (subst split) (simp add: nth_append last_conv_nth del: chain_length)
  with ne have "chain_end (ss_anchor s) ?c = ss_chain s ! (n - 1)" by (simp add: chain_end_def)
  then show ?thesis using split l by (metis append_eq_conv_conj)
qed

lemma chain_take:
  "ss_chain s = chain_over env (ss_anchor s) (ss_folded s) (ss_ops s)
     \<Longrightarrow> take n (ss_chain s) = chain_over env (ss_anchor s) (ss_folded s) (take n (ss_ops s))"
  using chain_append [of env "ss_anchor s" "ss_folded s" "take n (ss_ops s)" "drop n (ss_ops s)"]
  by (cases "n \<le> length (ss_ops s)") simp_all

lemma compact_cases:
  obtains "compact env keep s = s"
  | n snapshot where "n = length (ss_ops s) - keep" "0 < n" "n \<le> length (ss_ops s)"
      "se_json env (persisted_of (replay_to env (ss_folded s + n) s)) = Some snapshot"
      "compact env keep s = s\<lparr>ss_anchor := ss_chain s ! (n - 1), ss_chain := drop n (ss_chain s),
         ss_baseline_hash := baseline_commitment env (Some snapshot), ss_baseline := Some snapshot,
         ss_ops := drop n (ss_ops s), ss_folded := ss_folded s + n\<rparr>"
proof (cases "length (ss_ops s) \<le> keep")
  case True
  then show ?thesis using that(1) by (simp add: compact_def)
next
  case False
  show ?thesis
  proof (cases "se_json env (persisted_of (replay_to env (ss_folded s + (length (ss_ops s) - keep)) s))")
    case None
    then show ?thesis using that(1) False by (simp add: compact_def Let_def)
  next
    case (Some snapshot)
    show ?thesis by (rule that(2) [OF refl _ _ Some]) (use False Some in \<open>simp_all add: compact_def Let_def\<close>)
  qed
qed

lemma chained_compact: "chained env s \<Longrightarrow> chained env (compact env keep s)"
proof (cases rule: compact_cases [of env keep s])
  case (2 n snapshot)
  assume "chained env s"
  then show ?thesis using chain_drop [of s env n] 2 by (simp add: chained_def)
qed simp

lemma peer_compact [simp]: "peer_part (compact env keep s) = peer_part s"
  by (cases rule: compact_cases [of env keep s]) (auto simp: peer_part_def)

text \<open>
  C22. Compaction changes only the representation of the timeline: the number of operations ever
  recorded and the head stay, the operations left are the last \<open>keep\<close> of those that were there
  (or all of them, when the snapshot does not serialise), live memory and peers are untouched, and
  the compacted timeline verifies against the snapshot it folded into.
\<close>

theorem compact_keeps_head:
  assumes "chained env s"
  shows "timeline_head (compact env keep s) = timeline_head s \<and> session_len (compact env keep s) = session_len s
    \<and> (\<exists>n \<in> {0, length (ss_ops s) - keep}. ss_ops (compact env keep s) = drop n (ss_ops s)
         \<and> ss_folded (compact env keep s) = ss_folded s + n)
    \<and> ss_live (compact env keep s) = ss_live s \<and> peer_part (compact env keep s) = peer_part s
    \<and> li_valid (verify_timeline env (compact env keep s))"
proof -
  have l: "length (ss_chain s) = length (ss_ops s)" using assms by (simp add: chained_def)
  have "li_valid (verify_timeline env (compact env keep s))"
    using chained_verifies [OF chained_compact [OF assms]] by simp
  moreover have "timeline_head (compact env keep s) = timeline_head s"
  proof (cases rule: compact_cases [of env keep s])
    case (2 n snapshot)
    then show ?thesis
      using l by (cases "n = length (ss_ops s)") (auto simp: timeline_head_def last_conv_nth last_drop)
  qed simp
  moreover have "session_len (compact env keep s) = session_len s \<and> ss_live (compact env keep s) = ss_live s
    \<and> (\<exists>n \<in> {0, length (ss_ops s) - keep}. ss_ops (compact env keep s) = drop n (ss_ops s)
         \<and> ss_folded (compact env keep s) = ss_folded s + n)"
    by (cases rule: compact_cases [of env keep s]) (simp_all add: session_len_def)
  ultimately show ?thesis by simp
qed

subsection \<open>The invariants along a run\<close>

lemma peer_adopt [simp]: "peer_part (snd (adopt_tuned env s)) = peer_part s"
  by (simp add: adopt_tuned_def Let_def)

lemma import_own: "own_part (snd (import_bundle env b s)) = own_part s"
  by (simp add: import_bundle_def Let_def own_part_def split: sum.splits option.splits)

lemma checkpoint_parts:
  "own_part (snd (session_checkpoint env s)) = own_part (compact_if_needed env s)"
  "peer_part (snd (session_checkpoint env s)) = peer_part s"
  by (auto simp: session_checkpoint_def compact_if_needed_def Let_def split: sum.splits prod.splits option.splits)

lemma chained_fork:
  assumes "chained env s"
  shows "chained env (fork_at env step s)"
proof -
  have c: "ss_chain s = chain_over env (ss_anchor s) (ss_folded s) (ss_ops s)" "ss_baseline_hash s = baseline_commitment env (ss_baseline s)"
    using assms by (simp_all add: chained_def)
  show ?thesis by (simp add: fork_at_def Let_def chained_def chain_take [OF c(1)] c(2))
qed

lemma record_live [simp]: "record_op env op (s\<lparr>ss_live := m\<rparr>) = (record_op env op s)\<lparr>ss_live := m\<rparr>"
  by (simp add: record_op_def timeline_head_def)

definition timeline_op :: "session_env \<Rightarrow> session \<Rightarrow> session \<Rightarrow> bool" where
  \<comment> \<open>the own timeline as it was, or with one more operation recorded\<close>
  "timeline_op env s s' \<longleftrightarrow> peer_part s' = peer_part s \<and> (own_part s' = own_part s \<or> (\<exists>op. own_part s' = own_part (record_op env op s)))"

lemma timeline_op_chained: "timeline_op env s s' \<Longrightarrow> chained env s \<Longrightarrow> chained env s'"
  unfolding timeline_op_def by (metis chained_own chained_record)

lemma timeline_op_same: "peer_part s' = peer_part s \<Longrightarrow> own_part s' = own_part s \<Longrightarrow> timeline_op env s s'"
  by (simp add: timeline_op_def)

lemma timeline_op_record: "peer_part s' = peer_part s \<Longrightarrow> own_part s' = own_part (record_op env op s) \<Longrightarrow> timeline_op env s s'"
  by (auto simp: timeline_op_def)

lemma timeline_ops:
  "timeline_op env s (snd (session_ingest env uri source s))"
  "timeline_op env s (snd (sync env uri source s))"
  "timeline_op env s (snd (session_assert env e c supports w s))"
  "timeline_op env s (snd (session_failure env node radius s))"
  "session_recall env q budget s = Some (win, s') \<Longrightarrow> timeline_op env s s'"
  "page_fault env output budget s = Some (win, s') \<Longrightarrow> timeline_op env s s'"
  "timeline_op env s (snd (adopt_tuned env s))"
  "timeline_op env s (snd (set_custom_authorities now m s))"
  "timeline_op env s (s\<lparr>ss_licensing := lic\<rparr>)"
  "timeline_op env s (snd (enable_slhav2 now s))"
  "timeline_op env s (set_agent i s)"
proof -
  have i: "timeline_op env s (snd (session_ingest env uri source s))" for uri source
    by (rule timeline_op_record) (simp_all add: session_ingest_def Let_def case_prod_beta)
  show "timeline_op env s (snd (session_ingest env uri source s))" by (rule i)
  show "timeline_op env s (snd (sync env uri source s))"
    by (simp add: sync_def i timeline_op_same)
  show "timeline_op env s (snd (session_assert env e c supports w s))"
    by (rule timeline_op_record) (simp_all add: session_assert_def Let_def case_prod_beta)
  show "timeline_op env s (snd (session_failure env node radius s))"
    by (rule timeline_op_record) (simp_all add: session_failure_def Let_def case_prod_beta)
  show "timeline_op env s s'" if "session_recall env q budget s = Some (win, s')"
    by (rule timeline_op_record) (use that in \<open>auto simp: session_recall_def split: option.splits\<close>)
  show "timeline_op env s s'" if "page_fault env output budget s = Some (win, s')"
    by (rule timeline_op_record) (use that in \<open>auto simp: page_fault_def Let_def split: option.splits\<close>)
  show "timeline_op env s (snd (adopt_tuned env s))"
  proof (cases "fst (adopt_tuned env s)")
    case True
    then show ?thesis
      by (intro timeline_op_record) (auto simp: adopt_tuned_def Let_def on_live_def split: if_splits)
  next
    case False
    then show ?thesis by (intro timeline_op_same) (auto simp: adopt_tuned_def Let_def split: if_splits)
  qed
  show "timeline_op env s (snd (set_custom_authorities now m s))" "timeline_op env s (s\<lparr>ss_licensing := lic\<rparr>)"
    "timeline_op env s (snd (enable_slhav2 now s))" "timeline_op env s (set_agent i s)"
    by (rule timeline_op_same; auto simp: set_custom_authorities_def enable_slhav2_def set_agent_def own_part_def peer_part_def
        on_live_def split: sum.splits)+
qed

lemma session_step_chained: "session_step env s s' \<Longrightarrow> chained env s \<Longrightarrow> chained env s'"
proof (induction rule: session_step.induct)
  case (imported b s)
  then show ?case by (simp add: chained_own [OF import_own])
next
  case (saved s)
  then show ?case
    by (simp add: chained_own [OF checkpoint_parts(1)] compact_if_needed_def chained_compact)
next
  case (batch files s)
  then show ?case by (simp add: ingest_batch_def case_prod_beta files_kept)
qed (auto intro: timeline_op_chained timeline_ops chained_compact chained_fork)

lemma peer_saved [simp]: "peer_part (snd (ingest_batch env files s)) = peer_part s" "peer_part (fork_at env step s) = peer_part s"
  by (simp_all add: ingest_batch_def case_prod_beta files_kept(2), simp add: fork_at_def Let_def peer_part_def)

lemma chained_new: "chained env (session_new env now d)"
  by (simp add: chained_def session_new_def)

text \<open>
  C15. From a new session, whatever operations, imports, compactions, forks, retunings and
  checkpoints happen in whatever order, the timeline verifies: every link, the baseline's
  commitment and the number of links.
\<close>

theorem timeline_verifies:
  assumes "(session_step env)\<^sup>*\<^sup>* (session_new env now d) s"
  shows "li_valid (verify_timeline env s) \<and> length (ss_chain s) = length (ss_ops s)
    \<and> ss_chain s = chain_over env (ss_anchor s) (ss_folded s) (ss_ops s)"
proof -
  have "chained env s"
    using assms by (induction rule: rtranclp_induct) (auto intro: chained_new session_step_chained)
  then show ?thesis using chained_verifies by (auto simp: chained_def)
qed

subsection \<open>Imports\<close>

lemma broken_none: "length chain = length ops \<Longrightarrow> first_broken env prev seq (zip ops chain) = None \<longleftrightarrow> chain = chain_over env prev seq ops"
proof (induction ops arbitrary: prev seq chain)
  case (Cons op ops)
  then obtain link rest where "chain = link # rest" by (cases chain) auto
  with Cons show ?case by (auto simp: Let_def)
qed simp

lemma clash_none: "first_overlap_clash ks ls seq = None \<longleftrightarrow> take (min (length ks) (length ls)) ks = take (min (length ks) (length ls)) ls"
  by (induction ks ls seq rule: first_overlap_clash.induct) auto

definition known_log :: "session \<Rightarrow> string \<Rightarrow> foreign_log" where
  "known_log s i = (case map_of (ss_foreign s) i of Some l \<Rightarrow> l | None \<Rightarrow> \<lparr>fl_ops = [], fl_chain = []\<rparr>)"

definition extended :: "sync_bundle \<Rightarrow> foreign_log \<Rightarrow> foreign_log" where
  "extended b l = (let k = min (length (fl_ops l) - sb_first b) (length (sb_ops b))
     in \<lparr>fl_ops = fl_ops l @ drop k (sb_ops b), fl_chain = fl_chain l @ drop k (sb_chain b)\<rparr>)"

definition accepted :: "session_env \<Rightarrow> sync_bundle \<Rightarrow> session \<Rightarrow> bool" where
  \<comment> \<open>what an import checks of a bundle besides the identity of its author\<close>
  "accepted env b s \<longleftrightarrow> sb_agent b \<noteq> [] \<and> sb_agent b \<noteq> ss_agent s \<and> length (sb_chain b) = length (sb_ops b)
     \<and> (sb_first b = 0 \<longrightarrow> sb_anchor b = TIMELINE_GENESIS)
     \<and> sb_chain b = chain_over env (sb_anchor b) (sb_first b) (sb_ops b)
     \<and> sb_first b \<le> length (fl_ops (known_log s (sb_agent b)))
     \<and> (om_contains (ss_foreign s) (sb_agent b) \<longrightarrow> 0 < sb_first b \<longrightarrow> sb_anchor b = fl_chain (known_log s (sb_agent b)) ! (sb_first b - 1))
     \<and> first_overlap_clash (drop (sb_first b) (fl_chain (known_log s (sb_agent b)))) (sb_chain b) (sb_first b) = None"

lemma import_accepted:
  assumes "accepted env b s" "check_identity env b s = Inr pin"
  shows "import_bundle env b s = (Inr (length (sb_ops b) - min (length (fl_ops (known_log s (sb_agent b))) - sb_first b) (length (sb_ops b))),
         s\<lparr>ss_foreign := om_insert (sb_agent b) (extended b (known_log s (sb_agent b))) (ss_foreign s),
           ss_keys := (case pin of Some (i, pk) \<Rightarrow> om_insert i pk (ss_keys s) | None \<Rightarrow> ss_keys s)\<rparr>)"
proof -
  have n: "first_broken env (sb_anchor b) (sb_first b) (zip (sb_ops b) (sb_chain b)) = None"
    using assms(1) broken_none [of "sb_chain b" "sb_ops b"] by (simp add: accepted_def)
  have g: "sb_agent b \<noteq> []" "sb_agent b \<noteq> ss_agent s" "length (sb_chain b) = length (sb_ops b)"
    "(sb_first b = 0 \<and> sb_anchor b \<noteq> TIMELINE_GENESIS) = False"
    "(length (fl_ops (known_log s (sb_agent b))) < sb_first b) = False"
    "(om_contains (ss_foreign s) (sb_agent b) \<and> 0 < sb_first b \<and> sb_anchor b \<noteq> fl_chain (known_log s (sb_agent b)) ! (sb_first b - 1)) = False"
    "first_overlap_clash (drop (sb_first b) (fl_chain (known_log s (sb_agent b)))) (sb_chain b) (sb_first b) = None"
    using assms(1) by (auto simp: accepted_def)
  show ?thesis
    unfolding known_log_def [symmetric] import_bundle_def extended_def Let_def
    by (simp only: assms(2) n g if_False simp_thms option.simps sum.simps foreign_log.simps)
qed

definition refuses :: "session \<Rightarrow> (sync_error + nat) \<times> session \<Rightarrow> bool" where
  "refuses s r \<longleftrightarrow> (\<forall>e. fst r = Inl e \<longrightarrow> snd r = s)"

lemma refuses_simps:
  "refuses s (if c then x else y) \<longleftrightarrow> (if c then refuses s x else refuses s y)" "refuses s (Inl e, s)" "refuses s (Inr n, t)"
  by (simp_all add: refuses_def)

lemma refuses_option: "refuses s (case v of None \<Rightarrow> x | Some z \<Rightarrow> f z) \<longleftrightarrow> (case v of None \<Rightarrow> refuses s x | Some z \<Rightarrow> refuses s (f z))"
  by (simp split: option.split)

lemma import_refused: "refuses s (import_bundle env b s)"
proof (cases "check_identity env b s")
  case (Inl e)
  then show ?thesis by (simp add: import_bundle_def refuses_simps)
next
  case (Inr pin)
  then show ?thesis unfolding import_bundle_def Let_def
    by (simp only: sum.case refuses_simps refuses_option if_True split: option.split) simp
qed

lemma import_checks:
  assumes "fst (import_bundle env b s) = Inr n"
  shows "accepted env b s \<and> (\<exists>pin. check_identity env b s = Inr pin)"
proof -
  obtain pin where pin: "check_identity env b s = Inr pin" and l: "length (sb_chain b) = length (sb_ops b)"
    using assms by (auto simp: import_bundle_def split: sum.splits if_splits)
  have n: "first_broken env (sb_anchor b) (sb_first b) (zip (sb_ops b) (sb_chain b)) = None"
    using assms pin l by (cases "first_broken env (sb_anchor b) (sb_first b) (zip (sb_ops b) (sb_chain b))") (auto simp: import_bundle_def split: if_splits)
  have f: "first_overlap_clash (drop (sb_first b) (fl_chain (known_log s (sb_agent b)))) (sb_chain b) (sb_first b) = None"
    using assms pin l n unfolding import_bundle_def Let_def known_log_def [symmetric]
    by (cases "first_overlap_clash (drop (sb_first b) (fl_chain (known_log s (sb_agent b)))) (sb_chain b) (sb_first b)") (auto split: if_splits)
  have "sb_agent b \<noteq> []" "sb_agent b \<noteq> ss_agent s" "sb_first b = 0 \<longrightarrow> sb_anchor b = TIMELINE_GENESIS"
    "sb_first b \<le> length (fl_ops (known_log s (sb_agent b)))"
    "om_contains (ss_foreign s) (sb_agent b) \<longrightarrow> 0 < sb_first b \<longrightarrow> sb_anchor b = fl_chain (known_log s (sb_agent b)) ! (sb_first b - 1)"
    using assms pin l n unfolding import_bundle_def Let_def known_log_def [symmetric] by (auto split: if_splits)
  then show ?thesis
    using pin l n f broken_none [OF l] by (simp add: accepted_def)
qed

lemma import_cases:
  obtains e where "import_bundle env b s = (Inl e, s)"
  | pin where "accepted env b s" "check_identity env b s = Inr pin"
      "import_bundle env b s = (Inr (length (sb_ops b) - min (length (fl_ops (known_log s (sb_agent b))) - sb_first b) (length (sb_ops b))),
         s\<lparr>ss_foreign := om_insert (sb_agent b) (extended b (known_log s (sb_agent b))) (ss_foreign s),
           ss_keys := (case pin of Some (i, pk) \<Rightarrow> om_insert i pk (ss_keys s) | None \<Rightarrow> ss_keys s)\<rparr>)"
proof (cases "fst (import_bundle env b s)")
  case (Inl e)
  then show ?thesis using that(1) [of e] import_refused [of s env b] by (metis refuses_def prod.collapse)
next
  case (Inr n)
  from import_checks [OF this] show ?thesis using that(2) import_accepted by blast
qed

lemma extended_chain:
  assumes "accepted env b s" "foreign_ok env s"
  defines "l \<equiv> known_log s (sb_agent b)"
  shows "fl_chain (extended b l) = chain_over env TIMELINE_GENESIS 0 (fl_ops (extended b l))"
    "take (length (sb_ops b)) (drop (sb_first b) (fl_chain (extended b l))) = sb_chain b"
proof -
  let ?f = "sb_first b" and ?k = "min (length (fl_ops l) - sb_first b) (length (sb_ops b))"
  have known: "fl_chain l = chain_over env TIMELINE_GENESIS 0 (fl_ops l)"
    using assms(2) by (auto simp: l_def known_log_def foreign_ok_def dest!: map_of_SomeD split: option.splits)
  then have len: "length (fl_chain l) = length (fl_ops l)" by simp
  have acc: "length (sb_chain b) = length (sb_ops b)" "?f = 0 \<Longrightarrow> sb_anchor b = TIMELINE_GENESIS"
    "sb_chain b = chain_over env (sb_anchor b) ?f (sb_ops b)" "?f \<le> length (fl_ops l)"
    "0 < ?f \<Longrightarrow> sb_anchor b = fl_chain l ! (?f - 1)"
    and clash: "first_overlap_clash (drop ?f (fl_chain l)) (sb_chain b) ?f = None"
    using assms(1) by (auto simp: accepted_def l_def known_log_def om_contains_def split: option.splits)
  have agree: "take ?k (drop ?f (fl_chain l)) = take ?k (sb_chain b)"
    using clash by (simp add: clash_none acc(1) len)
  show "take (length (sb_ops b)) (drop ?f (fl_chain (extended b l))) = sb_chain b"
  proof -
    have "take (length (sb_ops b)) (drop ?f (fl_chain (extended b l)))
        = take (length (sb_ops b)) (drop ?f (fl_chain l) @ drop ?k (sb_chain b))"
      using acc(1,4) len by (simp add: extended_def Let_def)
    also have "\<dots> = take ?k (drop ?f (fl_chain l)) @ drop ?k (sb_chain b)"
      using acc(1,4) len by (cases "length (fl_ops l) - ?f \<le> length (sb_ops b)") simp_all
    also have "\<dots> = sb_chain b" unfolding agree by simp
    finally show ?thesis .
  qed
  have "drop ?k (sb_chain b) = chain_over env (chain_end TIMELINE_GENESIS (fl_chain l)) (length (fl_ops l)) (drop ?k (sb_ops b))"
  proof (cases "?k = length (sb_ops b)")
    case True
    then show ?thesis using acc(1) by simp
  next
    case False
    then have k: "?k = length (fl_ops l) - ?f" "?k < length (sb_ops b)" by auto
    have whole: "drop ?f (fl_chain l) = take ?k (sb_chain b)" using agree k(1) len by simp
    have e: "chain_end (sb_anchor b) (take ?k (sb_chain b)) = chain_end TIMELINE_GENESIS (fl_chain l)"
    proof (cases "?k = 0")
      case True
      then have "?f = length (fl_chain l)" using k(1) acc(4) len by simp
      then show ?thesis using True acc(2,5) by (cases "fl_chain l") (auto simp: chain_end_def last_conv_nth)
    next
      case False
      then have "drop ?f (fl_chain l) \<noteq> []" using k(1) len by simp
      then show ?thesis unfolding whole [symmetric] by (auto simp: chain_end_def last_drop)
    qed
    have "sb_chain b = chain_over env (sb_anchor b) ?f (take ?k (sb_ops b) @ drop ?k (sb_ops b))"
      using acc(3) by (simp only: append_take_drop_id)
    then have "drop ?k (sb_chain b) = chain_over env (chain_end (sb_anchor b) (chain_over env (sb_anchor b) ?f (take ?k (sb_ops b)))) (?f + ?k) (drop ?k (sb_ops b))"
      and "take ?k (sb_chain b) = chain_over env (sb_anchor b) ?f (take ?k (sb_ops b))"
      unfolding chain_append using k(2) by simp_all
    then show ?thesis using e k(1) acc(4) by simp
  qed
  then show "fl_chain (extended b l) = chain_over env TIMELINE_GENESIS 0 (fl_ops (extended b l))"
    using known by (simp add: extended_def Let_def chain_append)
qed

lemma foreign_iff: "foreign_ok env s \<longleftrightarrow> om_ok (ss_foreign s)
   \<and> (\<forall>i l. map_of (ss_foreign s) i = Some l \<longrightarrow> i \<noteq> [] \<and> fl_chain l = chain_over env TIMELINE_GENESIS 0 (fl_ops l))"
proof (cases "om_ok (ss_foreign s)")
  case True
  then show ?thesis unfolding foreign_ok_def om_get_iff [OF True] by fast
qed (simp add: foreign_ok_def)

lemma foreign_import: "foreign_ok env s \<Longrightarrow> foreign_ok env (snd (import_bundle env b s))"
proof (cases rule: import_cases [of env b s])
  case (2 pin)
  assume ok: "foreign_ok env s"
  have "sb_agent b \<noteq> []" using 2(1) by (simp add: accepted_def)
  moreover have "om_ok (om_insert (sb_agent b) x (ss_foreign s))" for x
    using ok by (simp add: foreign_ok_def om_ok_insert)
  ultimately show ?thesis
    using ok extended_chain(1) [OF 2(1) ok] 2(3) by (auto simp: foreign_iff split: if_splits)
qed simp

lemma peer_live [simp]: "foreign_ok env (s\<lparr>ss_live := m\<rparr>) = foreign_ok env s"
  by (simp add: foreign_ok_def)

lemma session_step_foreign: "session_step env s s' \<Longrightarrow> foreign_ok env s \<Longrightarrow> foreign_ok env s'"
proof (induction rule: session_step.induct)
  case (imported b s)
  then show ?case by (rule foreign_import)
next
  case (saved s)
  then show ?case by (simp add: foreign_peer [OF checkpoint_parts(2)])
next
  case (batch files s)
  then show ?case by (simp add: foreign_peer [OF peer_saved(1)])
next
  case (compacted keep s)
  then show ?case by (simp add: foreign_peer [OF peer_compact])
next
  case (forked step s)
  then show ?case by (simp add: foreign_peer [OF peer_saved(2)])
qed (metis timeline_ops timeline_op_def foreign_peer)+

text \<open>
  Whatever bundles arrive, in whatever order and interleaved with whatever else, every log a
  session holds of another agent is a chain from the common genesis that verifies from its first
  operation to its last.
\<close>

theorem imports_verified:
  assumes "(session_step env)\<^sup>*\<^sup>* (session_new env now d) s" "map_of (ss_foreign s) i = Some l"
  shows "i \<noteq> [] \<and> fl_chain l = chain_over env TIMELINE_GENESIS 0 (fl_ops l) \<and> length (fl_chain l) = length (fl_ops l)"
proof -
  have "foreign_ok env (session_new env now d)" by (simp add: foreign_ok_def session_new_def)
  with assms(1) have "foreign_ok env s"
    by (induction rule: rtranclp_induct) (auto intro: session_step_foreign)
  with assms(2) have "i \<noteq> []" "fl_chain l = chain_over env TIMELINE_GENESIS 0 (fl_ops l)"
    by (auto simp: foreign_ok_def dest: map_of_SomeD)
  then show ?thesis by simp
qed

text \<open>
  C16. An import never rewrites history. A bundle that is refused leaves the session exactly as it
  was; one that is accepted only appends to the log of its author, the number of operations it
  reports: what was known of that agent stays a prefix, every link of the bundle stands at its
  place in the resulting log (so a bundle that disagrees with a known link is never accepted), and
  the own timeline, live memory, the logs of other agents and every pinned key are untouched.
\<close>

theorem import_never_rewrites:
  assumes "foreign_ok env s" "import_bundle env b s = (r, s')"
  shows "case r of
      Inl e \<Rightarrow> s' = s
    | Inr n \<Rightarrow> (\<exists>more. fl_ops (known_log s' (sb_agent b)) = fl_ops (known_log s (sb_agent b)) @ more \<and> length more = n)
        \<and> fl_chain (known_log s' (sb_agent b)) = chain_over env TIMELINE_GENESIS 0 (fl_ops (known_log s' (sb_agent b)))
        \<and> take (length (sb_chain b)) (drop (sb_first b) (fl_chain (known_log s' (sb_agent b)))) = sb_chain b
        \<and> own_part s' = own_part s \<and> ss_live s' = ss_live s \<and> ss_agent s' = ss_agent s
        \<and> (\<forall>i. i \<noteq> sb_agent b \<longrightarrow> map_of (ss_foreign s') i = map_of (ss_foreign s) i)
        \<and> map_of (ss_keys s) \<subseteq>\<^sub>m map_of (ss_keys s')"
proof (cases rule: import_cases [of env b s])
  case (2 pin)
  let ?l = "known_log s (sb_agent b)"
  have s': "s' = s\<lparr>ss_foreign := om_insert (sb_agent b) (extended b ?l) (ss_foreign s),
      ss_keys := (case pin of Some (i, pk) \<Rightarrow> om_insert i pk (ss_keys s) | None \<Rightarrow> ss_keys s)\<rparr>"
    and r: "r = Inr (length (sb_ops b) - min (length (fl_ops ?l) - sb_first b) (length (sb_ops b)))"
    using assms(2) 2(3) by simp_all
  have new: "known_log s' (sb_agent b) = extended b ?l" by (simp add: s' known_log_def)
  have keys: "map_of (ss_keys s) \<subseteq>\<^sub>m map_of (ss_keys s')"
    using 2(2) by (auto simp: s' check_identity_def map_le_def dom_def split: option.splits if_splits sum.splits)
  have own: "own_part s' = own_part s" using import_own [of env b s] assms(2) by simp
  have "length (sb_chain b) = length (sb_ops b)" using 2(1) by (simp add: accepted_def)
  then show ?thesis
    using extended_chain [OF 2(1) assms(1)] keys own
    by (simp add: r new) (simp add: s' extended_def Let_def)
qed (use assms(2) in simp)

subsection \<open>Agents that have exchanged everything\<close>

definition holds_prefix :: "session \<Rightarrow> session \<Rightarrow> bool" where
  \<comment> \<open>what \<open>s\<close> holds of the other is a prefix of its timeline, or nothing\<close>
  "holds_prefix s t \<longleftrightarrow> (\<exists>k. fl_ops (known_log s (ss_agent t)) = take k (ss_ops t) \<and> fl_chain (known_log s (ss_agent t)) = take k (ss_chain t))"

definition full :: "session_env \<Rightarrow> session \<Rightarrow> bool" where
  \<comment> \<open>a named, unsigned session that has never compacted\<close>
  "full env s \<longleftrightarrow> chained env s \<and> foreign_ok env s \<and> ss_folded s = 0 \<and> ss_anchor s = TIMELINE_GENESIS \<and> ss_agent s \<noteq> [] \<and> ss_seed s = None"

lemma export_full:
  assumes "full env s"
  shows "export_bundle env 0 s = Inr \<lparr>sb_version = 1, sb_agent = ss_agent s, sb_first = 0, sb_anchor = TIMELINE_GENESIS,
    sb_ops = ss_ops s, sb_chain = ss_chain s, sb_pubkey = None, sb_sig = None\<rparr>"
  using assms by (simp add: full_def export_bundle_def Let_def)

lemma import_full:
  assumes "full env t" "full env s" "ss_agent s \<noteq> ss_agent t" "holds_prefix s t" "\<not> om_contains (ss_keys s) (ss_agent t)"
    "export_bundle env 0 t = Inr b"
  shows "\<exists>n. import_bundle env b s = (Inr n, s\<lparr>ss_foreign := om_insert (ss_agent t) \<lparr>fl_ops = ss_ops t, fl_chain = ss_chain t\<rparr> (ss_foreign s)\<rparr>)"
proof -
  have b: "b = \<lparr>sb_version = 1, sb_agent = ss_agent t, sb_first = 0, sb_anchor = TIMELINE_GENESIS,
      sb_ops = ss_ops t, sb_chain = ss_chain t, sb_pubkey = None, sb_sig = None\<rparr>"
    using assms(6) export_full [OF assms(1)] by simp
  obtain k where k: "fl_ops (known_log s (ss_agent t)) = take k (ss_ops t)" "fl_chain (known_log s (ss_agent t)) = take k (ss_chain t)"
    using assms(4) by (auto simp: holds_prefix_def)
  have c: "ss_chain t = chain_over env TIMELINE_GENESIS 0 (ss_ops t)" using assms(1) by (simp add: full_def chained_def)
  then have l: "length (ss_chain t) = length (ss_ops t)" by simp
  have id: "check_identity env b s = Inr None" using assms(5) by (simp add: b check_identity_def)
  have acc: "accepted env b s"
    using assms(1,3) l c by (auto simp: accepted_def b k clash_none full_def)
  have "extended b (known_log s (ss_agent t)) = \<lparr>fl_ops = ss_ops t, fl_chain = ss_chain t\<rparr>"
    using l by (cases "k \<le> length (ss_ops t)") (simp_all add: extended_def b k)
  then show ?thesis using import_accepted [OF acc id] by (simp add: b)
qed

lemma map_of_streams_any:
  assumes "om_ok (ss_foreign s)"
  shows "map_of (streams s) i = (case map_of (ss_foreign s) i of Some l \<Rightarrow> Some (fl_ops l)
    | None \<Rightarrow> if i = (if ss_agent s = [] then ''local'' else ss_agent s) then Some (ss_ops s) else None)"
proof -
  let ?kvs = "map (\<lambda>(i, l). (i, fl_ops l)) (ss_foreign s)"
  have "om_ok ?kvs" using assms by (simp add: om_ok_def comp_def case_prod_unfold)
  then have "map_of (rev ?kvs) = map_of ?kvs"
    using om_of_sorted [of ?kvs] map_of_om_extend [of "[]" ?kvs] by simp
  moreover have "map_of ?kvs i = map_option fl_ops (map_of (ss_foreign s) i)"
    by (simp add: map_of_map)
  ultimately show ?thesis
    by (simp add: streams_def map_of_om_extend map_add_def split: option.split)
qed

lemma map_of_streams:
  "om_ok (ss_foreign s) \<Longrightarrow> ss_agent s \<noteq> [] \<Longrightarrow> map_of (streams s) i = (case map_of (ss_foreign s) i of Some l \<Rightarrow> Some (fl_ops l)
    | None \<Rightarrow> if i = ss_agent s then Some (ss_ops s) else None)"
  by (simp add: map_of_streams_any)

lemma map_of_unnamed:
  "om_ok (ss_foreign s) \<Longrightarrow> ss_agent s = [] \<Longrightarrow> map_of (streams s) i = (case map_of (ss_foreign s) i of Some l \<Rightarrow> Some (fl_ops l)
    | None \<Rightarrow> if i = ''local'' then Some (ss_ops s) else None)"
  by (simp add: map_of_streams_any)

lemma streams_ok: "om_ok (streams s)"
  unfolding streams_def by (intro om_ok_extend om_ok_insert om_ok_Nil)


subsection \<open>Learning\<close>

lemma f64_lt_trans: "f64_lt a b \<Longrightarrow> f64_lt b c \<Longrightarrow> f64_lt a c"
  by (auto simp: f64_lt_def)

lemma f64_lt_irrefl: "\<not> f64_lt a a"
  by (simp add: f64_lt_def)

lemma tune_fold:
  assumes "reward w = Some r0" "fold (try_weights reward) moves (w, r0) = (w', r')"
  shows "reward w' = Some r' \<and> (w' = w \<or> f64_lt r0 r')"
proof -
  have "case fold (try_weights reward) moves (v, r) of (v', r') \<Rightarrow> reward v' = Some r' \<and> (v' = w \<or> f64_lt r0 r')"
    if "reward v = Some r" "v = w \<or> f64_lt r0 r" for v r
    using that
  proof (induction moves arbitrary: v r)
    case (Cons move moves)
    show ?case
    proof (cases "\<exists>q. reward (move v) = Some q \<and> f64_lt r q")
      case True
      then obtain q where q: "reward (move v) = Some q" "f64_lt r q" by blast
      have "f64_lt r0 q" using Cons.prems q(2) assms(1) by (metis f64_lt_trans option.inject)
      then show ?thesis using Cons.IH [of "move v" q] q by (simp add: try_weights_def)
    next
      case False
      then have "try_weights reward move (v, r) = (v, r)" by (auto simp: try_weights_def split: option.split)
      then show ?thesis using Cons by simp
    qed
  qed simp
  from this [of w r0] show ?thesis using assms by simp
qed

text \<open>
  C24. Retuning is a strict improvement or nothing: adopting tuned weights either reports that
  nothing changed and leaves the session as it is, or the weights it installs (and records as an
  operation) have a strictly higher retrieval reward on the recorded timeline than those in force.
\<close>

theorem tune_strict:
  "case adopt_tuned env s of (adopted, s') \<Rightarrow>
     if adopted
     then (\<exists>r r'. retrieval_reward env s (live_weights s) = Some r \<and> retrieval_reward env s (live_weights s') = Some r' \<and> f64_lt r r'
             \<and> ss_ops s' = ss_ops s @ [OpRetune (live_weights s')])
     else s' = s \<and> tune_recall_weights env s = live_weights s"
proof (cases "retrieval_reward env s (live_weights s)")
  case None
  then show ?thesis by (simp add: adopt_tuned_def retrieval_hit_rate_def tune_recall_weights_def tune_weights_def opt_lt_def)
next
  case (Some r)
  obtain w r' where f: "fold (try_weights (retrieval_reward env s)) (weight_moves @ weight_moves) (live_weights s, r) = (w, r')"
    by fastforce
  have w: "retrieval_reward env s w = Some r'" "w = live_weights s \<or> f64_lt r r'"
    using tune_fold [of "retrieval_reward env s", OF Some f] by simp_all
  have t: "tune_recall_weights env s = w" using f Some by (simp add: tune_recall_weights_def tune_weights_def)
  have "g_weights (graph_in (ccos_set_weights w m)) = w" for m by (simp add: ccos_set_weights_def set_scoring_weights_def)
  then show ?thesis
    using w Some f64_lt_irrefl by (auto simp: adopt_tuned_def retrieval_hit_rate_def t opt_lt_def Let_def live_weights_def record_op_def on_live_def)
qed

subsection \<open>Opening\<close>

definition guarded :: "session_env \<Rightarrow> session \<Rightarrow> memory_error + session" where
  \<comment> \<open>the check of a timeline against the memory on the disk, at the end of \<open>open\<close>\<close>
  "guarded env s = (if ss_ops s \<noteq> [] \<and> \<not> timeline_reproduces_memory env s
     then (case se_json env (persisted_of (ss_live s)) of
             None \<Rightarrow> Inl SerdeFailed | Some snapshot \<Rightarrow> Inr (restart_timeline env snapshot s))
     else Inr s)"

lemma guarded_chained:
  assumes "guarded env s = Inr s'" "chained env s"
  shows "chained env s' \<and> (ss_ops s' \<noteq> [] \<longrightarrow> timeline_reproduces_memory env s')"
  using assms by (auto simp: guarded_def restart_timeline_def chained_def split: if_splits option.splits)

lemma open_guarded:
  assumes "session_open env now lic seed file d = Inr s"
  shows "\<exists>s0. chained env s0 \<and> guarded env s0 = Inr s"
proof -
  obtain m where m: "open_memory (\<lambda>b. se_parse env (str_of b)) file d = Inr m"
    using assms by (auto simp: session_open_def split: sum.splits)
  let ?live = "set_slhav2_embeddings (allows SlhAv2Embeddings now lic) m" and ?side = "oplog_sidecar file"
  show ?thesis
  proof (cases "Option.bind (read_text d ?side) (se_timeline_parse env)")
    case None
    then obtain snapshot where "se_json env (persisted_of ?live) = Some snapshot"
      using assms by (auto simp: session_open_def m Let_def split: option.splits)
    then show ?thesis
      using assms None
      by (intro exI conjI) (auto simp: session_open_def m Let_def guarded_def [symmetric] session_with_def chained_def)
  next
    case (Some t)
    show ?thesis
    proof (cases "is_legacy t")
      case True
      have "chained env (session_with ?live (backfill env t) seed ?side lic)"
        by (simp add: session_with_def chained_def backfill_def)
      then show ?thesis
        using assms Some True by (intro exI [of _ "session_with ?live (backfill env t) seed ?side lic"])
          (simp add: session_open_def m Let_def guarded_def)
    next
      case False
      then have v: "li_valid (verify_parts_of env t)" using assms Some by (auto simp: session_open_def m Let_def split: if_splits)
      obtain n es where c: "check_links env (pt_anchor t) (pt_folded t) (zip (pt_ops t) (pt_chain t)) = (n, es)" by fastforce
      have "chained env (session_with ?live t seed ?side lic)"
        using v False check_links_none [of "pt_ops t" "pt_chain t" env "pt_anchor t" "pt_folded t"]
        by (auto simp: verify_parts_of_def verify_timeline_parts_def is_legacy_def Let_def c session_with_def chained_def split: if_splits)
      then show ?thesis
        using assms Some False v by (intro exI [of _ "session_with ?live t seed ?side lic"])
          (simp add: session_open_def m Let_def guarded_def)
    qed
  qed
qed


end
