(* ===== verification/FacadeChecks.thy ===== *)
theory FacadeChecks
  imports FacadeFacts GraphWitness
begin

text \<open>
  Contracts of single calls of the facade: ingesting the same text twice, asserting evidence about
  a node that is cold, and what a checkpoint leaves on the disk; and the facade's theorems on
  concrete states.
\<close>

subsection \<open>Ingesting twice\<close>

lemma stamp_twice: "stamp_file_trust p t (stamp_file_trust p t g) = stamp_file_trust p t g"
  by (simp add: stamp_file_trust_def comp_def case_prod_unfold cong: if_cong)

lemma taint_twice: "taint score hard p (taint score hard p g) = taint score hard p g"
  by (simp add: taint_def stamp_twice)

lemma same_source_delta:
  "process_delta env syn cap t now path (Some src) src (en, p, g) = (mu, en', p', g') \<Longrightarrow>
    p' = p \<and> g' = g \<and> dm_nodes_added mu = 0 \<and> dm_nodes_removed mu = 0 \<and> dm_edges_added mu = 0"
  by (auto simp: process_delta_def delta_op_def apply_delta_def Let_def)

text \<open>
  After a file was ingested the facade knows its defanged text as unchanged, and ingesting the
  same text again leaves the graph, the pending references and the sources as they are and
  reports no node and no edge.
\<close>

theorem reingest_harmless:
  fixes fe uri src m
  defines "m1 \<equiv> snd (ingest_deferred fe uri src m)"
  defines "again \<equiv> ingest_deferred fe uri src m1"
  shows "file_unchanged fe uri src m1 \<and> source_for uri m1 = Some (utf8 (fst (defang (fe_alnum fe) src)))
    \<and> cm_graph (snd again) = cm_graph m1 \<and> map_of (cm_sources (snd again)) = map_of (cm_sources m1)
    \<and> ir_nodes_added (fst again) = 0 \<and> ir_nodes_removed (fst again) = 0 \<and> ir_edges_added (fst again) = 0"
proof -
  let ?clean = "utf8 (fst (defang (fe_alnum fe) src))" and ?key = "''file:'' @ bare_uri uri"
  let ?taint = "taint (fe_injection fe ?clean) (hard_anomaly (snd (defang (fe_alnum fe) src))) (bare_uri uri)"
  obtain delta en p g where "m1 = log_link fe (sha_hex fe ?clean) ''external-memory''
      ((bump_version m)\<lparr>cm_engine := en, cm_graph := (p, ?taint g), cm_sources := om_insert ?key ?clean (cm_sources m), cm_dirty := True,
         cm_log := emit (facade_log fe) ParsingEvent (Parsing (bare_uri uri) (sha_hex fe ?clean) 0 0 0) (cm_log m)\<rparr>)"
    using deferred_state [of fe m uri src] unfolding m1_def by (metis snd_conv)
  then have m1: "cm_graph m1 = (p, ?taint g)" "cm_sources m1 = om_insert ?key ?clean (cm_sources m)" by simp_all
  then have src: "map_of (cm_sources m1) ?key = Some ?clean" by simp
  obtain delta' en' p' g' where q: "process_delta (fe_mem fe) (fe_syn fe) (fe_header_cap fe) (fe_clock fe (length (ig_log (cm_engine m1))))
       (fe_clock fe (length (ig_log (cm_engine m1)))) (bare_uri uri) (Some ?clean) ?clean (cm_engine m1, p, ?taint g) = (delta', en', p', g')"
    and a: "cm_graph (snd again) = (p', ?taint g')" "cm_sources (snd again) = om_insert ?key ?clean (cm_sources m1)"
      "ir_nodes_added (fst again) = dm_nodes_added delta'" "ir_nodes_removed (fst again) = dm_nodes_removed delta'"
      "ir_edges_added (fst again) = dm_edges_added delta'"
  proof (rule deferred_state [of fe m1 uri src])
    fix delta en pa ga
    assume "process_delta (fe_mem fe) (fe_syn fe) (fe_header_cap fe) (fe_clock fe (length (ig_log (cm_engine m1))))
       (fe_clock fe (length (ig_log (cm_engine m1)))) (bare_uri uri) (map_of (cm_sources m1) ?key) ?clean (cm_engine m1, cm_graph m1)
       = (delta, en, pa, ga)" and i: "ingest_deferred fe uri src m1 =
       (\<lparr>ir_uri = bare_uri uri, ir_nodes_added = dm_nodes_added delta, ir_nodes_removed = dm_nodes_removed delta,
         ir_edges_added = dm_edges_added delta, ir_anomalies = r_findings (snd (defang (fe_alnum fe) src)),
         ir_injection = fe_injection fe ?clean, ir_flagged = f64_le (f64_rat 1 2) (fe_injection fe ?clean)\<rparr>,
        log_link fe (sha_hex fe ?clean) ''external-memory''
          ((bump_version m1)\<lparr>cm_engine := en, cm_graph := (pa, ?taint ga), cm_sources := om_insert ?key ?clean (cm_sources m1),
             cm_dirty := True, cm_log := emit (facade_log fe) ParsingEvent (Parsing (bare_uri uri) (sha_hex fe ?clean) 0 0 0) (cm_log m1)\<rparr>))"
    then show thesis by (intro that [of delta en pa ga]) (simp_all only: src m1(1), simp_all add: again_def i)
  qed
  have "bare_uri uri = (if starts_with uri ''file:'' then drop 5 uri else uri)"
    by (simp add: bare_uri_def strip_prefix_def eval_nat_numeral)
  then have "source_for uri m1 = Some ?clean"
    using src by (auto simp: source_for_def starts_with_iff)
  then show ?thesis using same_source_delta [OF q] a m1(1) src
    by (auto simp: file_unchanged_def taint_twice)
qed

subsection \<open>Evidence about a cold node\<close>

lemma forget_cold: "map_of (g_cold (forget_cold_shadow env i g)) i = None"
proof -
  define p1 where "p1 = (case map_of (g_cold g) i of
      Some old \<Rightarrow>
        (let ga = g\<lparr>g_cold := om_remove i (g_cold g)\<rparr>;
             gb = (case cn_spill old of Some (h, _) \<Rightarrow> release_content_blob_if_orphan h ga | None \<Rightarrow> ga)
         in (map (other_end i) (cn_edges old), gb))
    | None \<Rightarrow> ([], g))"
  obtain os1 g1 where p1': "p1 = (os1, g1)" by (cases p1)
  obtain husk g2 where d: "deep_get env i g1 = (husk, g2)" by (cases "deep_get env i g1")
  define p3 where "p3 = (case husk of
      Some hk \<Rightarrow>
        (let (_, ga) = with_husks (hs_delete i) (Inr ()) g2
         in (unpack_adj (dh_adj hk), release_blob_if_orphan env (fst (dh_body hk)) ga))
    | None \<Rightarrow> ([], g2))"
  obtain os2 g3 where p3': "p3 = (os2, g3)" by (cases p3)
  have "map_of (g_cold g1) i = None"
    using p1' by (auto simp: p1_def Let_def core_fields(3) [OF core_release(1)] split: option.splits)
  moreover have "g_cold g2 = g_cold g1" using core_fields(3) [OF core_deep_get [of env i g1]] d by simp
  moreover have "core g3 = core g2"
    using p3' core_with_husks [of "hs_delete i" "Inr ()" g2] core_release(2)
    by (auto simp: p3_def Let_def split: option.splits prod.splits)
  moreover have "forget_cold_shadow env i g = fold (graph_radj_del i) (os1 @ os2) g3"
    unfolding forget_cold_shadow_def Let_def p1_def [unfolded Let_def, symmetric] p1' prod.case d
      p3_def [unfolded Let_def, symmetric] p3' ..
  ultimately show ?thesis using core_fields(3) [OF core_fold_radj(2)] core_fields(3) by metis
qed

lemma upsert_new:
  assumes "\<not> resident g i" "length (g_nodes g) < g_max g"
  shows "\<exists>n. g_nodes (upsert_node env i label content ty g) = om_insert i n (g_nodes g) \<and> n_content n = content"
    "map_of (g_cold (upsert_node env i label content ty g)) i = None"
proof -
  let ?f = "forget_cold_shadow env i g"
  have f: "g_nodes ?f = g_nodes g" "g_max ?f = g_max g" using forget_shadow_calm [of g env i] by (simp_all add: calm_def)
  obtain n where u: "upsert_node env i label content ty g = enforce_paging env (?f\<lparr>g_nodes := om_insert i n (g_nodes g)\<rparr>)"
    and n: "n_content n = content"
    unfolding upsert_node_def Let_def f(1) by (cases "map_of (g_nodes g) i") auto
  have "length (om_insert i n (g_nodes g)) \<le> Suc (length (g_nodes g))" by (rule length_om_insert_le)
  then have "upsert_node env i label content ty g = ?f\<lparr>g_nodes := om_insert i n (g_nodes g)\<rparr>"
    using assms(2) f by (simp add: u enforce_paging_def)
  then show "\<exists>n. g_nodes (upsert_node env i label content ty g) = om_insert i n (g_nodes g) \<and> n_content n = content"
    "map_of (g_cold (upsert_node env i label content ty g)) i = None" using n forget_cold by auto
qed

text \<open>
  C39. Evidence about a node in the cold tier destroys it: the claim comes back resident with empty
  content, and its archived form is gone.
\<close>

theorem assert_destroys_cold:
  assumes "map_of (g_cold (graph_in m)) c = Some old" "\<not> resident (graph_in m) c" "resident (graph_in m) e"
    "length (g_nodes (graph_in m)) < g_max (graph_in m)"
  shows "map_option n_content (map_of (g_nodes (graph_in (snd (assert_support fe e c w m)))) c) = Some []
    \<and> map_of (g_cold (graph_in (snd (assert_support fe e c w m)))) c = None"
proof -
  let ?g = "ensure_node (fe_mem fe) c (ensure_node (fe_mem fe) e (graph_in m))"
  have g: "?g = upsert_node (fe_mem fe) c c [] ContextBlock (graph_in m)" using assms(2,3) by (simp add: ensure_node_def)
  have "graph_in (snd (assert_support fe e c w m)) = snd (add_edge e c (unit_clamp w) Supports ?g)"
    by (simp add: assert_support_def assert_evidence_def Let_def case_prod_unfold)
  moreover have "g_nodes (snd (add_edge e c a ty h)) = g_nodes h" "g_cold (snd (add_edge e c a ty h)) = g_cold h" for a ty h
    by (auto simp: add_edge_def Let_def)
  ultimately show ?thesis using upsert_new [OF assms(2,4), of "fe_mem fe" c "[]" ContextBlock] g by auto
qed

definition half_cold :: ccos_memory where
  \<comment> \<open>\<open>b\<close> resident, \<open>a\<close> with its content in the cold tier\<close>
  "half_cold = put_graph (demote ''a'' (zero_graph [''a'', ''b''] 2)) (ccos_new \<lparr>d_files = [], d_pid = 1, d_faults = [], d_stuck = []\<rparr>)"

lemma assert_destroys_cold_witness:
  "\<forall>fe w. map_option (n_content \<circ> cn_node) (map_of (g_cold (graph_in half_cold)) ''a'') = Some ''abc''
    \<and> map_option n_content (map_of (g_nodes (graph_in (snd (assert_support fe ''b'' ''a'' w half_cold)))) ''a'') = Some []"
proof (intro allI)
  fix fe w
  let ?g = "graph_in half_cold"
  have c: "map_option (n_content \<circ> cn_node) (map_of (g_cold ?g) ''a'') = Some ''abc''" "\<not> resident ?g ''a''" "resident ?g ''b''"
    "length (g_nodes ?g) < g_max ?g"
    by (simp_all add: half_cold_def zero_graph_def zero_node_def demote_def graph_new_def om_remove_def om_contains_iff)
  then obtain old where "map_of (g_cold ?g) ''a'' = Some old" by auto
  from assert_destroys_cold [OF this c(2-4), of fe w] c(1)
  show "map_option (n_content \<circ> cn_node) (map_of (g_cold ?g) ''a'') = Some ''abc''
    \<and> map_option n_content (map_of (g_nodes (graph_in (snd (assert_support fe ''b'' ''a'' w half_cold)))) ''a'') = Some []" by simp
qed

subsection \<open>A rank that is ignored\<close>

text \<open>
  The cached projection is keyed by the version only: after a first re-ranking with one rank, a
  re-ranking with another still uses the projection of the first.
\<close>

lemma lsa_rank_ignored:
  assumes "fe_lsa_fits fe r (graph_in m)" "cm_lsa m = None"
  shows "fst (lsa_region_scores fe q ids r' (set_lsa_rerank (Some r') (snd (lsa_region_scores fe q ids r m))))
    = fst (lsa_region_scores fe q ids r m)"
proof -
  have "snd (lsa_region_scores fe q ids r m) = m\<lparr>cm_lsa := Some (cm_version m, r, graph_in m)\<rparr>"
    unfolding lsa_region_scores_def assms(2) by (simp add: assms(1) Let_def)
  then show ?thesis by (simp add: set_lsa_rerank_def) (simp add: lsa_region_scores_def assms Let_def cong: if_cong)
qed

subsection \<open>Checkpoints\<close>

lemma persisted_memory_of: "persisted_of ((memory_of d (persisted_of m))\<lparr>cm_path := p\<rparr>) = persisted_of m"
  by (simp add: persisted_of_def memory_of_def ccos_new_def durable_def)

lemma write_to_opens:
  assumes "\<forall>x b. dump x = Some b \<longrightarrow> load b = Some x" "write_to dump p m = (Inr u, m')"
  shows "persisted_of m' = persisted_of m"
    "open_memory load p (g_disk (graph_in m')) = Inr ((memory_of (g_disk (graph_in m')) (persisted_of m))\<lparr>cm_path := Some p\<rparr>)"
proof -
  obtain b d u' where b: "dump (persisted_of m) = Some b" "write_durable p b (g_disk (graph_in m)) = (Inr u', d)"
    and m': "m' = put_graph ((graph_in m)\<lparr>g_disk := d\<rparr>) m"
    using assms(2) by (auto simp: write_to_def split: option.splits sum.splits prod.splits)
  from b(2) have "map_of (d_files d) p = Some b" by (cases rule: write_durable_cases) simp_all
  then show "open_memory load p (g_disk (graph_in m')) = Inr ((memory_of (g_disk (graph_in m')) (persisted_of m))\<lparr>cm_path := Some p\<rparr>)"
    using assms(1) b(1) by (simp add: open_memory_def disk_read_def m')
  show "persisted_of m' = persisted_of m" by (simp add: m' persisted_of_def durable_def)
qed

lemma write_to_fails:
  assumes "write_to dump p m = (Inl e, m')"
  shows "disk_read (g_disk (graph_in m')) p = disk_read (g_disk (graph_in m)) p"
proof (cases "dump (persisted_of m)")
  case None
  then show ?thesis using assms by (simp add: write_to_def)
next
  case (Some b)
  obtain r d where w: "write_durable p b (g_disk (graph_in m)) = (r, d)" by fastforce
  then have r: "r = Inl e'" "m' = put_graph ((graph_in m)\<lparr>g_disk := d\<rparr>) m" if "r = Inl e'" for e'
    using assms Some that by (simp_all add: write_to_def)
  obtain e' where "r = Inl e'" using assms Some w by (cases r) (auto simp: write_to_def)
  then show ?thesis using r w by (cases rule: write_durable_cases [OF w]) (simp_all add: disk_read_def)
qed


definition blank_disk :: disk where
  "blank_disk = \<lparr>d_files = [], d_pid = 1, d_faults = [], d_stuck = []\<rparr>"


subsection \<open>Runs and windows\<close>

definition idle_env :: "facade_env" where
  "idle_env = \<lparr>fe_mem = plain_env, fe_syn = (\<lambda>_. None), fe_header_cap = 0, fe_alnum = (\<lambda>_. True), fe_lower = id,
     fe_injection = (\<lambda>_. f64_zero False), fe_show = (\<lambda>_. ''0''), fe_json = (\<lambda>_. []), fe_stamp = (\<lambda>_. ([], 0)), fe_clock = id,
     fe_decay = f64_rat 1 2, fe_hops = 4, fe_share = f64_rat 1 2, fe_cosine = (\<lambda>_ _ _ _. f64_zero False),
     fe_lsa_fits = (\<lambda>_ _. False), fe_lsa = (\<lambda>_ _ _ _ _. f64_zero False)\<rparr>"

definition evidence_given :: ccos_memory where
  "evidence_given = snd (assert_evidence idle_env ''e'' ''c'' True (f64_rat 1 1) (ccos_new blank_disk))"

lemma evidence_run: "ccos_run idle_env 1 evidence_given"
  using ccos_run.evidence [OF ccos_run.start] by (simp add: evidence_given_def)


lemma caches_never_stale_witness: "fresh evidence_given"
  by (rule caches_never_stale [OF evidence_run]) simp

lemma window_quota_witness:
  "\<exists>c. file_quota (f64_rat 1 2) 8 (Some ([], f64_rat 1 2, 4)) = Some c
    \<and> quota_ok c (wi_items (fst (assemble_window plain_env (f64_rat 1 2) [] [''a''] 8 (Some ([], f64_rat 1 2, 4)) None (zero_graph [''a''] 1))))"
proof -
  obtain c where "file_quota (f64_rat 1 2) 8 (Some ([], f64_rat 1 2, 4)) = Some c" by (simp add: file_quota_def)
  from this window_quota [OF this] show ?thesis by blast
qed

end
