(* ===== verification/SessionChecks.thy ===== *)
theory SessionChecks
  imports SessionSync FacadeChecks
begin

text \<open>
  A concrete environment and concrete sessions on which the theorems about timelines and bundles
  apply, and the corner cases of the exchange that modelling showed.
\<close>

definition quiet_env :: session_env where
  "quiet_env = \<lparr>se_fe = idle_env\<lparr>fe_mem := plain_env\<lparr>en_sha := (\<lambda>_. replicate 32 0)\<rparr>\<rparr>,
     se_op_json = (\<lambda>op. case op of OpIngest uri _ \<Rightarrow> uri | _ \<Rightarrow> []), se_json = (\<lambda>_. Some []), se_parse = (\<lambda>_. None),
     se_timeline_json = (\<lambda>_. Some []), se_timeline_parse = (\<lambda>_. None), se_sign = (\<lambda>_ _. ([], [])),
     se_verify = (\<lambda>_ _ _. Some SignedUnsupported), se_fault_depth = 2, se_oplog_max = 0, se_oplog_keep = 0\<rparr>"

lemma quiet_hex: "hex_digest (sha_hex (se_fe quiet_env))"
  by (simp add: hex_digest_def quiet_env_def sha_hex_def source_hash_def hex_bytes_lower list_all_iff)

definition lone :: "string \<Rightarrow> session" where
  "lone agent = set_agent agent (session_new quiet_env 0 blank_disk)"

definition asserting :: "string \<Rightarrow> session" where
  \<comment> \<open>one assertion recorded\<close>
  "asserting agent = snd (session_assert quiet_env ''e'' ''c'' True (f64_rat 1 1) (lone agent))"

lemma lone_run: "(session_step quiet_env)\<^sup>*\<^sup>* (session_new quiet_env 0 blank_disk) (lone agent)"
  unfolding lone_def by (rule r_into_rtranclp) (rule session_step.named)

lemma asserting_run: "(session_step quiet_env)\<^sup>*\<^sup>* (session_new quiet_env 0 blank_disk) (asserting agent)"
  unfolding asserting_def by (rule rtranclp.rtrancl_into_rtrancl [OF lone_run]) (rule session_step.asserted)

lemma asserting_chained: "chained quiet_env (asserting agent)"
proof -
  have "chained quiet_env (lone agent)" by (simp add: lone_def chained_def session_new_def set_agent_def)
  then show ?thesis unfolding asserting_def by (rule session_step_chained [OF session_step.asserted])
qed

lemma asserting_parts:
  "ss_agent (asserting agent) = agent" "ss_foreign (asserting agent) = []" "ss_keys (asserting agent) = []"
  "ss_seed (asserting agent) = None" "ss_folded (asserting agent) = 0" "ss_anchor (asserting agent) = TIMELINE_GENESIS"
  "length (ss_ops (asserting agent)) = 1"
  by (simp_all add: asserting_def session_assert_def Let_def case_prod_beta record_op_def lone_def set_agent_def session_new_def)

lemma asserting_disk: "g_disk (graph_in (ss_live (asserting agent))) = g_disk (graph_in (ss_live (asserting agent')))"
  by (simp add: asserting_def session_assert_def Let_def case_prod_beta record_op_def lone_def set_agent_def session_new_def)

lemma asserting_full: "agent \<noteq> [] \<Longrightarrow> full quiet_env (asserting agent)"
  by (simp add: full_def asserting_chained asserting_parts foreign_ok_def)

lemma timeline_commits_witness:
  "map (se_op_json quiet_env) (ss_ops (asserting ''a'')) = map (se_op_json quiet_env) (ss_ops (asserting ''b''))
    \<or> (\<exists>x y. x \<in> set (link_texts quiet_env TIMELINE_GENESIS 0 (ss_ops (asserting ''a'')))
        \<and> y \<in> set (link_texts quiet_env TIMELINE_GENESIS 0 (ss_ops (asserting ''b''))) \<and> x \<noteq> y
        \<and> sha_hex (se_fe quiet_env) x = sha_hex (se_fe quiet_env) y)"
proof -
  have "timeline_head (asserting ''a'') = timeline_head (asserting ''b'')"
    by (simp add: timeline_head_def asserting_def session_assert_def Let_def case_prod_beta record_op_def op_link_hash_def
        quiet_env_def sha_hex_def source_hash_def)
  from timeline_commits [OF quiet_hex _ _ _ _ _ _ this] show ?thesis
    using chained_verifies [OF asserting_chained] by (simp add: asserting_parts TIMELINE_GENESIS_def)
qed

lemma compact_keeps_head_witness:
  "timeline_head (compact quiet_env 0 (asserting ''a'')) = timeline_head (asserting ''a'') \<and> ss_ops (compact quiet_env 0 (asserting ''a'')) = []"
proof -
  have "ss_ops (compact quiet_env 0 (asserting ''a'')) = []"
    using asserting_parts(7) [of "''a''"] by (auto simp: compact_def Let_def) (simp add: quiet_env_def)
  then show ?thesis using compact_keeps_head [OF asserting_chained, of 0 "''a''"] by blast
qed

lemma timeline_verifies_witness: "li_valid (verify_timeline quiet_env (asserting ''a'')) \<and> length (ss_ops (asserting ''a'')) = 1"
  using timeline_verifies [OF asserting_run [of "''a''"]] asserting_parts(7) by simp

definition met :: session where
  \<comment> \<open>\<open>a\<close> after the whole timeline of \<open>b\<close>\<close>
  "met = snd (import_bundle quiet_env (projr (export_bundle quiet_env 0 (asserting ''b''))) (asserting ''a''))"

lemma met_foreign: "ss_foreign met = [(''b'', \<lparr>fl_ops = ss_ops (asserting ''b''), fl_chain = ss_chain (asserting ''b'')\<rparr>)]"
proof -
  obtain b where b: "export_bundle quiet_env 0 (asserting ''b'') = Inr b"
    using export_full [OF asserting_full [of "''b''"]] by simp
  have "holds_prefix (asserting ''a'') (asserting ''b'')"
    unfolding holds_prefix_def by (rule exI [of _ 0]) (simp add: known_log_def asserting_parts)
  from import_full [OF asserting_full [of "''b''"] asserting_full [of "''a''"] _ this _ b] show ?thesis
    by (auto simp: met_def b asserting_parts)
qed

lemma imports_verified_witness:
  "length (fl_chain \<lparr>fl_ops = ss_ops (asserting ''b''), fl_chain = ss_chain (asserting ''b'')\<rparr>) = 1"
proof -
  have "(session_step quiet_env)\<^sup>*\<^sup>* (session_new quiet_env 0 blank_disk) met"
    unfolding met_def by (rule rtranclp.rtrancl_into_rtrancl [OF asserting_run]) (rule session_step.imported)
  from imports_verified [OF this, of "''b''" "\<lparr>fl_ops = ss_ops (asserting ''b''), fl_chain = ss_chain (asserting ''b'')\<rparr>"]
  show ?thesis using asserting_parts(7) [of "''b''"] by (simp add: met_foreign)
qed

lemma import_never_rewrites_witness:
  "case fst (import_bundle quiet_env (projr (export_bundle quiet_env 0 (asserting ''b''))) (asserting ''a'')) of
     Inl e \<Rightarrow> met = asserting ''a'' | Inr n \<Rightarrow> own_part met = own_part (asserting ''a'')"
proof -
  let ?b = "projr (export_bundle quiet_env 0 (asserting ''b''))"
  have "import_bundle quiet_env ?b (asserting ''a'') = (fst (import_bundle quiet_env ?b (asserting ''a'')), met)"
    by (simp add: met_def)
  from import_never_rewrites [OF _ this] show ?thesis
    using asserting_full [of "''a''"] by (auto simp: full_def split: sum.splits)
qed



subsection \<open>A peer called \<open>local\<close>\<close>

text \<open>
  C40. The merged view of a session that has not named itself loses its own history to a peer called
  \<open>local\<close>: such a peer's bundle is accepted (only a bundle under the session's own, empty, name is
  refused), after which the stream that stood for the session's own operations is the peer's, and
  the merged view is the same whatever the session itself has recorded.
\<close>

theorem local_peer_hides_own:
  assumes "full env t" "ss_agent t = ''local''" "export_bundle env 0 t = Inr b"
    "ss_agent s = []" "foreign_ok env s" "\<not> om_contains (ss_foreign s) ''local''" "ss_keys s = []"
  shows "\<exists>n s'. import_bundle env b s = (Inr n, s') \<and> ss_ops s' = ss_ops s
    \<and> map_of (streams s') ''local'' = Some (ss_ops t)
    \<and> (\<forall>ops. merged_view env (s'\<lparr>ss_ops := ops\<rparr>) = merged_view env s')"
proof -
  have b: "b = \<lparr>sb_version = 1, sb_agent = ''local'', sb_first = 0, sb_anchor = TIMELINE_GENESIS,
      sb_ops = ss_ops t, sb_chain = ss_chain t, sb_pubkey = None, sb_sig = None\<rparr>"
    using assms(3) export_full [OF assms(1)] assms(2) by simp
  have c: "ss_chain t = chain_over env TIMELINE_GENESIS 0 (ss_ops t)" using assms(1) by (simp add: full_def chained_def)
  have k: "known_log s ''local'' = \<lparr>fl_ops = [], fl_chain = []\<rparr>" using assms(6) by (simp add: known_log_def om_contains_def)
  have acc: "accepted env b s" using assms(4) by (simp add: accepted_def b k c)
  have id: "check_identity env b s = Inr None" using assms(7) by (simp add: check_identity_def b)
  define s' where "s' = s\<lparr>ss_foreign := om_insert ''local'' \<lparr>fl_ops = ss_ops t, fl_chain = ss_chain t\<rparr> (ss_foreign s)\<rparr>"
  have imp: "import_bundle env b s = (Inr (length (ss_ops t)), s')"
    using import_accepted [OF acc id] by (simp add: s'_def b k extended_def)
  have fs: "map_of (ss_foreign s') ''local'' = Some \<lparr>fl_ops = ss_ops t, fl_chain = ss_chain t\<rparr>" "ss_agent s' = []" "om_ok (ss_foreign s')"
    using assms(4,5) by (simp_all add: s'_def foreign_ok_def om_ok_insert)
  have look: "map_of (streams (s'\<lparr>ss_ops := ops\<rparr>)) i = map_option fl_ops (map_of (ss_foreign s') i)" for ops i
    using fs by (subst map_of_unnamed) (auto split: option.split)
  have "streams (s'\<lparr>ss_ops := ops\<rparr>) = streams (s'\<lparr>ss_ops := ops'\<rparr>)" for ops ops'
    by (rule om_ext [OF streams_ok streams_ok]) (simp add: fun_eq_iff look)
  from this [of _ "ss_ops s'"] have "merged_view env (s'\<lparr>ss_ops := ops\<rparr>) = merged_view env s'" for ops
    by (simp add: merged_view_def)
  moreover have "map_of (streams s') ''local'' = Some (ss_ops t)"
    using look [of "ss_ops s'" "''local''"] fs(1) by simp
  moreover have "ss_ops s' = ss_ops s" by (simp add: s'_def)
  ultimately show ?thesis using imp by blast
qed

lemma local_peer_hides_own_witness:
  "\<exists>b n s'. import_bundle quiet_env b (asserting []) = (Inr n, s') \<and> ss_ops s' = ss_ops (asserting [])
    \<and> (\<forall>ops. merged_view quiet_env (s'\<lparr>ss_ops := ops\<rparr>) = merged_view quiet_env s')"
proof -
  obtain b where b: "export_bundle quiet_env 0 (asserting ''local'') = Inr b"
    using export_full [OF asserting_full [of "''local''"]] by simp
  have "\<exists>n s'. import_bundle quiet_env b (asserting []) = (Inr n, s') \<and> ss_ops s' = ss_ops (asserting [])
      \<and> map_of (streams s') ''local'' = Some (ss_ops (asserting ''local''))
      \<and> (\<forall>ops. merged_view quiet_env (s'\<lparr>ss_ops := ops\<rparr>) = merged_view quiet_env s')"
    by (rule local_peer_hides_own [OF asserting_full _ b]) (simp_all add: asserting_parts foreign_ok_def)
  then show ?thesis by blast
qed

end
