(* ===== verification/Spec2Isabelle.thy ===== *)
theory Spec2Isabelle
  imports Lzss Sha256 DistLog Scheduler Claim EventLog GraphWitness Beliefs Sanitizer ResolveWitness GraphAnalysis
    Incremental Consensus Query CausalFlashWitness RegionFacts SessionChecks
begin

text \<open>
  A verification development for the core of CCOS, a causal context store for coding agents
  written in Rust (crate \<open>src/src\<close>, helper crates under \<open>src/crates\<close>).

  \<^bold>\<open>The program.\<close> The working memory is a graph of nodes and typed edges (\<open>memory.rs\<close>). Nodes
  are scored by importance, failure pressure, recency, access count, centrality and trust; when
  the resident set exceeds its capacity the coldest nodes are demoted, with their edges, to a cold
  tier in RAM, whose contents are spilled to a content-addressed directory, then moved whole to an
  on-disk key-value store of small husks (\<open>cold_index.rs\<close>, segments compressed with
  \<open>lzss.rs\<close>), and faulted back on demand. A learned eviction policy (\<open>eviction_policy.rs\<close>) can
  nudge the choice, a scheduler (\<open>scheduler.rs\<close>) packs a token budget, an event log
  (\<open>event_log.rs\<close>) and its distributed variant chain the events by hashes, and the belief layer
  of the graph derives beliefs from evidence edges. Text from outside passes a Unicode sanitizer
  (\<open>sanitizer.rs\<close>). Claim codes (\<open>claim.rs\<close>) register an installation. Source files enter
  through the parser (\<open>parser.rs\<close>): one file becomes nodes, edges and pending tables, the delta
  engine (\<open>incremental.rs\<close>) replaces the nodes of a changed file, and the resolve passes of
  \<open>memory.rs\<close> link what the tables name across files. What a task needs is read off the graph by
  walks (\<open>query.rs\<close>), by the causal cone around the working set (\<open>causal_flash.rs\<close>) and by
  context regions, which are clustered, warmed, cooled and replayed from the log
  (\<open>region_engine.rs\<close>, \<open>context_region.rs\<close>, \<open>context_policy.rs\<close>). The facade
  \<open>CcosMemory\<close> (\<open>external_memory.rs\<close>) holds one graph, one delta engine, both logs and the
  sources; every call of an agent goes through it: an ingest sanitizes, replaces the nodes of the
  file, stamps trust, logs, and resolves now or at the end of a batch; a recall picks an entry, a
  region and a ranking, and packs a window; a checkpoint writes a snapshot. An \<open>AgentSession\<close>
  (\<open>agent_session.rs\<close>) records every call on such a memory in a hash-chained timeline, replays it
  for time travel, forks and retuning, folds its older part into a snapshot, keeps it in a sidecar
  file, and exchanges chain-verified bundles of it with other agents, whose timelines it replays
  together into one merged memory. A page fault reads source locations off compiler output
  (\<open>trace.rs\<close>), and the licence gate (\<open>license.rs\<close>) guards custom authorities.

  \<^bold>\<open>Theories and code.\<close>
  \<^item> \<open>Prelude\<close>, \<open>Bytes\<close>, \<open>OrdMap\<close>: results, strings as byte lists, UTF-8, hex and decimal
    (\<open>util.rs\<close>), and sorted association lists for \<open>BTreeMap\<close> and unobserved \<open>HashMap\<close>s.
  \<^item> \<open>F64\<close>, \<open>F64Order\<close>: binary64 arithmetic on bit patterns, exact and rounded once; sorting by
    a comparator; monotone rounding, square root.
  \<^item> \<open>Lzss\<close>, \<open>Sha256\<close>: the codec (\<open>lzss.rs\<close>) and the SHA-256 of the \<open>ccos-rsi\<close> crate.
  \<^item> \<open>Disk\<close>, \<open>Segment\<close>, \<open>KvStore\<close>, \<open>HuskStore\<close>: a file system with injected faults,
    \<open>write_durable\<close>, sorted segments with a sparse index, the interface of a key-value store, and
    the log-structured \<open>HuskStore\<close> that implements it.
  \<^item> \<open>ColdTier\<close>: the spill store and the packed and reverse adjacency of \<open>memory.rs\<close>.
  \<^item> \<open>GraphTypes\<close>, \<open>EventLog\<close>, \<open>DistLog\<close>: the data model; both hash chains.
  \<^item> \<open>EvictionPolicy\<close>, \<open>Scheduler\<close>, \<open>Claim\<close>, \<open>Sanitizer\<close>: the files of these names.
  \<^item> \<open>MemGraph\<close>, \<open>Paging\<close>: state and operations of \<open>MemoryGraph\<close>: scores, edges, trust, failure
    pressure; demotion, the three cold budgets, page-in, attaching the stores.
  \<^item> \<open>Beliefs\<close>: evidence, propagation, \<open>intervene\<close> and \<open>blame\<close>.
  \<^item> \<open>GraphInv\<close>, \<open>GraphReach\<close>: frames and the step relation over all graph operations with
    its invariant; \<open>GraphPaging\<close>, \<open>GraphOps\<close>, \<open>SpillFacts\<close>: what paging, page-in, the context
    window, failure propagation and spilling promise; \<open>GraphFindings\<close>: two defects as reachable
    states; \<open>GraphWitness\<close>: instances.
  \<^item> \<open>SourceText\<close>, \<open>Parser\<close>, \<open>ParserFacts\<close>: comment stripping and item spans, the line parser
    and the ingestion of one file (\<open>parser.rs\<close>), and what they promise. \<open>Incremental\<close> is the
    delta engine over them (\<open>incremental.rs\<close>).
  \<^item> \<open>Resolve\<close>, \<open>ResolveFacts\<close>, \<open>ResolveWitness\<close>: the passes of \<open>memory.rs\<close> that turn the
    pending imports, calls and data flows of a file into edges; their soundness, idempotence and
    independence of order. \<open>GraphAnalysis\<close>: cycles, diffs, counts, orphans, DOT output.
  \<^item> \<open>Consensus\<close>: the two votes of \<open>consensus.rs\<close>.
  \<^item> \<open>Bfs\<close>: the queue search that several files share, with exact distances. \<open>Query\<close>: walks and
    GraphML. \<open>CausalFlash\<close>, \<open>CausalFlashWitness\<close>: the cone, its completeness flag, its budget
    and its cache. \<open>F32\<close>, \<open>Regions\<close>, \<open>RegionFacts\<close>: binary32, context regions, the partition
    they form and when replay gives the live engine.
  \<^item> \<open>Recall\<close>, \<open>RecallFacts\<close>: selection and packing of a recall window, its budget and file
    quota, hop distances. \<open>Facade\<close>: state and operations of \<open>CcosMemory\<close>; \<open>FacadeReads\<close>,
    \<open>FacadeFacts\<close>: what reads leave alone, what every run keeps, and why a cache with the
    current version is never stale; \<open>FacadeChecks\<close>: repeated ingests, evidence about cold nodes,
    snapshots, instances.
  \<^item> \<open>Trace\<close>: source locations of test output. \<open>Session\<close>, \<open>SessionStore\<close>: the licence gate,
    recorded operations, replay; learning, compaction, sidecar and bundles. \<open>SessionFacts\<close>: what a
    verified chain commits to. \<open>SessionSync\<close>: the step relation over all session operations, the
    chain invariant, compaction, imports, convergence of agents, opening. \<open>SessionChecks\<close>:
    instances, and a peer whose name hides the session's own history.

  \<^bold>\<open>State and operations.\<close> A struct is a record and a \<open>&mut self\<close> method a function from the old
  state to the result and the new state. Errors are \<open>io_err + 'a\<close> or options. Interior mutability
  (the read cache of the store, the centrality caches) is state of the record and is threaded
  through every read. Files live in the record \<open>disk\<close>, which fails where its fault list says so,
  so every error branch of the stores is reachable.

  \<^bold>\<open>Parameters.\<close> What is not under the sources is an argument: \<open>mem_env\<close> holds SHA-256 as used
  through the \<open>sha2\<close> crate, \<open>ln\<close> and \<open>powi\<close>, \<open>serde_json\<close> of cold entries, the compressors
  and the sizes of Rust structs; the Unicode table behind \<open>is_alphanumeric\<close> and \<open>powf\<close> are
  arguments of the functions that use them. Theorems that need something of a parameter state it
  as a hypothesis: no second text with the same hash, or non-alphanumeric brackets.

  \<^bold>\<open>Bounds and fuel.\<close> Loops are structural recursion, folds, or \<open>function\<close>s with a measure
  (the swap loop on the resident count, token marking on the text, the cycle search on the nodes
  not yet coloured and the frames of its stack, the queue search on the nodes not yet found). Failure propagation recurses on
  the depth left, which the code's own guard bounds, so no result depends on chosen fuel. Lengths
  and clocks are \<open>nat\<close>; counters that saturate or wrap are words. The version of the facade is
  a 64-bit word, so freshness of its caches is stated for the first \<open>2 ^ 63\<close> calls.

  \<^bold>\<open>Caveats.\<close> Sorting with \<open>partial_cmp().unwrap_or(Equal)\<close> is modelled as a stable insertion
  sort; Rust's result is only specified when the order is total, so theorems about ranked output
  assume that no score is a NaN. NaN payloads are not distinguished. HashMap iteration order is not
  observed by the modelled operations except where results are sorted afterwards, and in the votes
  of \<open>Consensus\<close>, where the order is an argument.

  \<^bold>\<open>Not modelled.\<close> The \<open>syn\<close> visitor of the parser is a parameter, since it walks the AST of a
  third-party crate. The MCP server, the command line, agents and language-model clients,
  retrieval and the experiment crates have no model: they are I/O, text heuristics or
  statistics around this core. The similarities of embeddings and of the latent projection and
  the injection score are arguments of the facade, a fitted store being kept as the graph it was
  fitted on; the compressed variants of recall are left out. Of the sessions, drift attribution, trajectory
  alignment, the belief profile and the journal text are left out (statistics and display over
  replays that are modelled), and JSON, signatures, the host's licence and knobs are fields of
  \<open>session_env\<close>. Serde formats are parameters, and the timing and process side of
  the sandbox crate has no model here.
\<close>

end
